(* ===== verification/Prelude.thy ===== *)
theory Prelude
  imports "HOL-Library.Word"
begin

text \<open>
  The vocabulary the component theories share: the sizes of \<^verbatim>\<open>param.h\<close>, \<^verbatim>\<open>fs.h\<close> and
  \<^verbatim>\<open>types.h\<close>, disk blocks as fixed-size byte arrays with little-endian integer access, the
  outcome of a kernel function (it returns, panics, or goes to sleep), and the
  weakest-precondition calculus with which the component proofs are done.
\<close>

named_theorems wp_simps \<open>unfolding of weakest preconditions over the kernel combinators\<close>
named_theorems sizes \<open>the numeric constants of the kernel headers\<close>

section \<open>Sizes and machine integers\<close>

type_synonym byte = "8 word"
type_synonym uint32 = "32 word"

definition MAXOPBLOCKS :: nat where "MAXOPBLOCKS = 10"
definition LOGSIZE :: nat where "LOGSIZE = MAXOPBLOCKS * 3"
definition NBUF :: nat where "NBUF = MAXOPBLOCKS * 3"
definition FSSIZE :: nat where "FSSIZE = 1000"
definition BSIZE :: nat where "BSIZE = 512"

lemmas size_defs [sizes] = MAXOPBLOCKS_def LOGSIZE_def NBUF_def BSIZE_def

lemma NBUF_num: "NBUF = 30" and LOGSIZE_num: "LOGSIZE = 30"
  and MAXOPBLOCKS_num: "MAXOPBLOCKS = 10" and BSIZE_num: "BSIZE = 512"
  by (simp_all add: sizes)

text \<open>The modes of \<^verbatim>\<open>open\<close> (\<^verbatim>\<open>fcntl.h\<close>), which the kernel and the user programs share.\<close>

definition O_RDONLY :: nat where "O_RDONLY = 0"
definition O_WRONLY :: nat where "O_WRONLY = 1"
definition O_RDWR :: nat where "O_RDWR = 2"
definition O_CREATE :: nat where "O_CREATE = 512"

text \<open>
  Unsigned 32-bit counters kept as natural numbers, with the wrap-around of \<^verbatim>\<open>x++\<close>, \<^verbatim>\<open>x--\<close>
  and \<^verbatim>\<open>x + y\<close> written out.
\<close>

definition u32 :: "nat \<Rightarrow> nat" where "u32 x = x mod 2 ^ 32"
definition u32_inc :: "nat \<Rightarrow> nat" where "u32_inc x = u32 (x + 1)"
definition u32_dec :: "nat \<Rightarrow> nat" where "u32_dec x = u32 (x + (2 ^ 32 - 1))"

lemma u32_less [simp]: "x < 2 ^ 32 \<Longrightarrow> u32 x = x"
  by (simp add: u32_def)

lemma u32_bound: "u32 x < 2 ^ 32"
  by (simp add: u32_def)

lemma u32_inc_small [simp]: "x < 2 ^ 32 - 1 \<Longrightarrow> u32_inc x = Suc x"
  by (simp add: u32_inc_def u32_def)

lemma u32_dec_pos [simp]: "0 < x \<Longrightarrow> x < 2 ^ 32 \<Longrightarrow> u32_dec x = x - 1"
proof -
  assume a: "0 < x" "x < 2 ^ 32"
  then obtain y where y: "x = Suc y" by (cases x) auto
  have "u32 (Suc y + (2 ^ 32 - 1)) = u32 (y + 2 ^ 32)" by (simp add: add.commute)
  also have "\<dots> = y" using a y by (simp add: u32_def)
  finally show ?thesis using y by (simp add: u32_dec_def)
qed

text \<open>Two's complement reading of a 16-bit and a 32-bit pattern (C's \<^verbatim>\<open>short\<close> and \<^verbatim>\<open>int\<close>).\<close>

definition s16 :: "nat \<Rightarrow> int" where
  "s16 v = (if v mod 65536 < 32768 then int (v mod 65536) else int (v mod 65536) - 65536)"

definition s32 :: "nat \<Rightarrow> int" where
  "s32 v = (if v mod 2 ^ 32 < 2 ^ 31 then int (v mod 2 ^ 32) else int (v mod 2 ^ 32) - 2 ^ 32)"

definition of_s16 :: "int \<Rightarrow> nat" where "of_s16 i = nat (i mod 65536)"
definition of_s32 :: "int \<Rightarrow> nat" where "of_s32 i = nat (i mod 2 ^ 32)"

lemma s16_of_s16: "- 32768 \<le> i \<Longrightarrow> i < 32768 \<Longrightarrow> s16 (of_s16 i) = i"
proof -
  assume a: "- 32768 \<le> i" "i < 32768"
  show ?thesis
  proof (cases "0 \<le> i")
    case True
    with a show ?thesis by (simp add: s16_def of_s16_def nat_less_iff)
  next
    case False
    with a have "(i + 65536) mod 65536 = i + 65536" by (intro mod_pos_pos_trivial) auto
    then have "i mod 65536 = i + 65536" by simp
    with False a show ?thesis by (simp add: s16_def of_s16_def nat_less_iff)
  qed
qed

lemma s32_small [simp]: "v < 2 ^ 31 \<Longrightarrow> s32 v = int v"
  by (simp add: s32_def)

lemma of_s32_small [simp]: "0 \<le> i \<Longrightarrow> i < 2 ^ 31 \<Longrightarrow> of_s32 i = nat i"
  by (simp add: of_s32_def)

section \<open>Searching a list\<close>

lemma find_unique:
  assumes "x \<in> set xs" "P x" "\<And>y. y \<in> set xs \<Longrightarrow> P y \<Longrightarrow> y = x"
  shows "find P xs = Some x"
proof (cases "find P xs")
  case None
  then show ?thesis using assms(1,2) by (metis find_None_iff)
next
  case (Some y)
  then have "y \<in> set xs" "P y" by (auto simp: find_Some_iff)
  then show ?thesis using assms(3) Some by simp
qed

lemma find_SomeD: "find P xs = Some x \<Longrightarrow> x \<in> set xs \<and> P x"
  by (auto simp: find_Some_iff)

section \<open>Disk blocks\<close>

text \<open>
  A block is an array of exactly \<^const>\<open>BSIZE\<close> bytes: a function that is 0 outside its
  range, so that two blocks with the same bytes are equal. \<open>rd\<close> reads a byte, \<open>wr\<close> stores
  one (a store outside the array is not representable and leaves the block alone), \<open>mkblk\<close>
  builds a block from its bytes.
\<close>

typedef block = "{f :: nat \<Rightarrow> byte. \<forall>i\<ge>BSIZE. f i = 0}"
  morphisms rd Blk
  by (rule exI [of _ "\<lambda>_. 0"]) simp

declare rd_inverse [code abstype]

definition wr :: "block \<Rightarrow> nat \<Rightarrow> byte \<Rightarrow> block" where
  "wr b i v = Blk (if i < BSIZE then (rd b)(i := v) else rd b)"

definition mkblk :: "(nat \<Rightarrow> byte) \<Rightarrow> block" where
  "mkblk f = Blk (\<lambda>i. if i < BSIZE then f i else 0)"

lemma rd_wr_fun [code abstract]: "rd (wr b i v) = (if i < BSIZE then (rd b)(i := v) else rd b)"
  using rd [of b] by (auto simp: wr_def Blk_inverse)

lemma rd_mkblk_fun [code abstract]: "rd (mkblk f) = (\<lambda>i. if i < BSIZE then f i else 0)"
  by (simp add: mkblk_def Blk_inverse)

abbreviation zero_block :: block where "zero_block \<equiv> mkblk (\<lambda>_. 0)"

lemma rd_wr [simp]: "rd (wr b i v) j = (if j = i \<and> i < BSIZE then v else rd b j)"
  by (simp add: rd_wr_fun)

lemma rd_mkblk [simp]: "rd (mkblk f) j = (if j < BSIZE then f j else 0)"
  by (simp add: rd_mkblk_fun)

lemma rd_out [simp]: "BSIZE \<le> i \<Longrightarrow> rd b i = 0"
  using rd [of b] by simp

lemma block_eqI: "(\<And>i. i < BSIZE \<Longrightarrow> rd a i = rd b i) \<Longrightarrow> a = b"
  by (metis ext leI rd_inject rd_out)

lemma mkblk_rd [simp]: "mkblk (rd b) = b"
  by (rule block_eqI) simp

text \<open>Little-endian integers inside a byte array.\<close>

definition le16 :: "(nat \<Rightarrow> byte) \<Rightarrow> nat \<Rightarrow> nat" where
  "le16 f k = unat (f k) + 256 * unat (f (k + 1))"

definition le32 :: "(nat \<Rightarrow> byte) \<Rightarrow> nat \<Rightarrow> nat" where
  "le32 f k = unat (f k) + 256 * unat (f (k + 1)) + 65536 * unat (f (k + 2)) + 16777216 * unat (f (k + 3))"

definition put16 :: "block \<Rightarrow> nat \<Rightarrow> nat \<Rightarrow> block" where
  "put16 b k v = wr (wr b k (of_nat v)) (k + 1) (of_nat (v div 256))"

definition put32 :: "block \<Rightarrow> nat \<Rightarrow> nat \<Rightarrow> block" where
  "put32 b k v = wr (wr (wr (wr b k (of_nat v)) (k + 1) (of_nat (v div 256)))
     (k + 2) (of_nat (v div 65536))) (k + 3) (of_nat (v div 16777216))"

lemma unat_of_nat8: "unat (of_nat v :: byte) = v mod 256"
  by (simp add: unat_of_nat)

lemma unat_byte_less: "unat (x :: byte) < 256"
  using unsigned_less [of x] by simp

lemma le16_bound: "le16 f k < 65536"
  using unat_byte_less [of "f k"] unat_byte_less [of "f (k + 1)"] by (simp add: le16_def)

lemma le32_bound: "le32 f k < 2 ^ 32"
  using unat_byte_less [of "f k"] unat_byte_less [of "f (k + 1)"]
    unat_byte_less [of "f (k + 2)"] unat_byte_less [of "f (k + 3)"]
  by (simp add: le32_def)

lemma bytes32: "v mod 256 + 256 * (v div 256 mod 256) + 65536 * (v div 65536 mod 256)
    + 16777216 * (v div 16777216) = (v::nat)"
proof -
  define a where "a = v div 256"
  define b where "b = a div 256"
  have e: "v div 65536 = b" "v div 16777216 = b div 256"
    by (simp_all add: a_def b_def div_mult2_eq [of v 256 256, simplified] div_mult2_eq [of v 65536 256, simplified])
  have "v = v mod 256 + 256 * a" "a = a mod 256 + 256 * b" "b = b mod 256 + 256 * (b div 256)"
    by (simp_all add: a_def b_def)
  then show ?thesis unfolding e a_def [symmetric] by linarith
qed

lemma le32_put32_same: "k + 3 < BSIZE \<Longrightarrow> v < 2 ^ 32 \<Longrightarrow> le32 (rd (put32 b k v)) k = v"
  using bytes32 [of v] by (simp add: le32_def put32_def unat_of_nat8 del: unat_of_nat)

lemma le16_put16_same: "k + 1 < BSIZE \<Longrightarrow> v < 65536 \<Longrightarrow> le16 (rd (put16 b k v)) k = v"
  by (simp add: le16_def put16_def unat_of_nat8 del: unat_of_nat)

lemma rd_put32: "j < k \<or> k + 3 < j \<Longrightarrow> rd (put32 b k v) j = rd b j"
  by (elim disjE) (simp_all add: put32_def)

lemma rd_put16: "j < k \<or> k + 1 < j \<Longrightarrow> rd (put16 b k v) j = rd b j"
  by (elim disjE) (simp_all add: put16_def)

lemma le32_put32_other: "k + 3 < j \<or> j + 3 < k \<Longrightarrow> le32 (rd (put32 b k v)) j = le32 (rd b) j"
  by (elim disjE) (simp_all add: le32_def rd_put32)

lemma le16_put16_other: "k + 1 < j \<or> j + 1 < k \<Longrightarrow> le16 (rd (put16 b k v)) j = le16 (rd b) j"
  by (elim disjE) (simp_all add: le16_def rd_put16)

lemma le32_put16: "k + 1 < j \<or> j + 3 < k \<Longrightarrow> le32 (rd (put16 b k v)) j = le32 (rd b) j"
  by (elim disjE) (simp_all add: le32_def rd_put16)

lemma le16_put32: "k + 3 < j \<or> j + 1 < k \<Longrightarrow> le16 (rd (put32 b k v)) j = le16 (rd b) j"
  by (elim disjE) (simp_all add: le16_def rd_put32)

section \<open>Outcomes of kernel functions\<close>

text \<open>
  A kernel function either returns, calls \<^verbatim>\<open>panic\<close>, or goes to sleep on a channel and
  returns only after another process has run. The channel is the address passed to
  \<^verbatim>\<open>sleep\<close>.
\<close>

datatype chan = ChanBuf nat | ChanInode nat | ChanLog | ChanIde nat
  | ChanSpin nat | ChanPipeRead nat | ChanPipeWrite nat | ChanProc nat | ChanTicks | ChanInput | ChanFree

datatype ('s, 'a) result = Done (retval: 'a) (final: 's) | Panic string | Sleep chan 's

type_synonym ('s, 'a) kmon = "'s \<Rightarrow> ('s, 'a) result"

definition kret :: "'a \<Rightarrow> ('s, 'a) kmon" where
  "kret x = (\<lambda>s. Done x s)"

definition kbind :: "('s, 'a) kmon \<Rightarrow> ('a \<Rightarrow> ('s, 'b) kmon) \<Rightarrow> ('s, 'b) kmon" where
  "kbind m f = (\<lambda>s. case m s of Done x t \<Rightarrow> f x t | Panic msg \<Rightarrow> Panic msg | Sleep c t \<Rightarrow> Sleep c t)"

definition kseq :: "('s, 'a) kmon \<Rightarrow> ('s, 'b) kmon \<Rightarrow> ('s, 'b) kmon" where
  "kseq m n = kbind m (\<lambda>_. n)"

definition kpanic :: "string \<Rightarrow> ('s, 'a) kmon" where
  "kpanic msg = (\<lambda>s. Panic msg)"

definition ksleep :: "chan \<Rightarrow> ('s, 'a) kmon" where
  "ksleep c = (\<lambda>s. Sleep c s)"

definition kget :: "('s \<Rightarrow> 'a) \<Rightarrow> ('s, 'a) kmon" where
  "kget f = (\<lambda>s. Done (f s) s)"

definition kmod :: "('s \<Rightarrow> 's) \<Rightarrow> ('s, unit) kmon" where
  "kmod f = (\<lambda>s. Done () (f s))"

text \<open>A \<^verbatim>\<open>for\<close> loop over a list of index values.\<close>

primrec kfor :: "'i list \<Rightarrow> ('i \<Rightarrow> ('s, unit) kmon) \<Rightarrow> ('s, unit) kmon" where
  "kfor [] body = kret ()"
| "kfor (i # is) body = kseq (body i) (kfor is body)"

text \<open>A loop that is left as soon as its body has a result (\<^verbatim>\<open>return\<close> or \<^verbatim>\<open>break\<close>).\<close>

primrec kfirst :: "'i list \<Rightarrow> ('i \<Rightarrow> ('s, 'a option) kmon) \<Rightarrow> ('s, 'a option) kmon" where
  "kfirst [] body = kret None"
| "kfirst (i # is) body = kbind (body i) (\<lambda>r. case r of Some x \<Rightarrow> kret (Some x) | None \<Rightarrow> kfirst is body)"

lemmas kernel_defs = kret_def kbind_def kseq_def kpanic_def ksleep_def kget_def kmod_def

text \<open>
  \<open>wp m Q s\<close>: run from \<open>s\<close>, the function returns (no panic, no sleep) and its value and
  final state satisfy \<open>Q\<close>.
\<close>

definition wp :: "('s, 'a) kmon \<Rightarrow> ('a \<Rightarrow> 's \<Rightarrow> bool) \<Rightarrow> 's \<Rightarrow> bool" where
  "wp m Q s = (case m s of Done x t \<Rightarrow> Q x t | Panic msg \<Rightarrow> False | Sleep c t \<Rightarrow> False)"

lemma wp_kret [simp, wp_simps]: "wp (kret x) Q s = Q x s"
  by (simp add: wp_def kret_def)

lemma wp_kret_fun [simp]: "wp (kret x) Q = Q x"
  by (simp add: fun_eq_iff)

lemma wp_kbind [simp, wp_simps]: "wp (kbind m f) Q = wp m (\<lambda>x. wp (f x) Q)"
  by (simp add: wp_def kbind_def fun_eq_iff split: result.splits)

lemma wp_kseq [simp, wp_simps]: "wp (kseq m n) Q = wp m (\<lambda>_. wp n Q)"
  by (simp add: kseq_def)

lemma wp_kpanic [simp, wp_simps]: "wp (kpanic msg) Q s = False"
  by (simp add: wp_def kpanic_def)

lemma wp_ksleep [simp, wp_simps]: "wp (ksleep c) Q s = False"
  by (simp add: wp_def ksleep_def)

lemma wp_kget [simp, wp_simps]: "wp (kget f) Q s = Q (f s) s"
  by (simp add: wp_def kget_def)

lemma wp_kmod [simp, wp_simps]: "wp (kmod f) Q s = Q () (f s)"
  by (simp add: wp_def kmod_def)

lemma wp_if [simp, wp_simps]: "wp (if c then m else n) Q s = (if c then wp m Q s else wp n Q s)"
  by simp

lemma wp_conseq: "wp m P s \<Longrightarrow> (\<And>x t. P x t \<Longrightarrow> Q x t) \<Longrightarrow> wp m Q s"
  by (auto simp: wp_def split: result.splits)

lemma wp_Done: "wp m Q s \<longleftrightarrow> (\<exists>x t. m s = Done x t \<and> Q x t)"
  by (auto simp: wp_def split: result.splits)

lemma wp_eqI: "wp n Q s \<Longrightarrow> m s = n s \<Longrightarrow> wp m Q s"
  by (simp add: wp_def)

lemma wp_conj: "wp m P s \<Longrightarrow> wp m Q s \<Longrightarrow> wp m (\<lambda>x t. P x t \<and> Q x t) s"
  by (auto simp: wp_def split: result.splits)

text \<open>Loop rule: an invariant indexed by the part of the list that is done.\<close>

lemma wp_kfor:
  assumes step: "\<And>done i rest s. xs = done @ i # rest \<Longrightarrow> I done s \<Longrightarrow> wp (body i) (\<lambda>_. I (done @ [i])) s"
    and start: "I [] s"
  shows "wp (kfor xs body) (\<lambda>_. I xs) s"
proof -
  have "xs = done @ rest \<Longrightarrow> I done s \<Longrightarrow> wp (kfor rest body) (\<lambda>_. I xs) s" for "done" rest s
  proof (induction rest arbitrary: "done" s)
    case Nil
    then show ?case by simp
  next
    case (Cons i rest)
    from Cons.prems have "wp (body i) (\<lambda>_. I (done @ [i])) s" by (rule step)
    moreover have "\<And>t. I (done @ [i]) t \<Longrightarrow> wp (kfor rest body) (\<lambda>_. I xs) t"
      using Cons.IH [of "done @ [i]"] Cons.prems(1) by simp
    ultimately show ?case by (auto intro: wp_conseq)
  qed
  from this [of "[]" xs s] start show ?thesis by simp
qed

lemma wp_kfirst:
  assumes step: "\<And>done i rest s. xs = done @ i # rest \<Longrightarrow> I done s \<Longrightarrow>
      wp (body i) (\<lambda>r t. case r of None \<Rightarrow> I (done @ [i]) t | Some x \<Rightarrow> Q (Some x) t) s"
    and start: "I [] s" and none: "\<And>s. I xs s \<Longrightarrow> Q None s"
  shows "wp (kfirst xs body) Q s"
proof -
  have "xs = done @ rest \<Longrightarrow> I done s \<Longrightarrow> wp (kfirst rest body) Q s" for "done" rest s
  proof (induction rest arbitrary: "done" s)
    case Nil
    then show ?case using none by simp
  next
    case (Cons i rest)
    from Cons.prems have "wp (body i) (\<lambda>r t. case r of None \<Rightarrow> I (done @ [i]) t | Some x \<Rightarrow> Q (Some x) t) s" by (rule step)
    moreover have "\<And>t. I (done @ [i]) t \<Longrightarrow> wp (kfirst rest body) Q t"
      using Cons.IH [of "done @ [i]"] Cons.prems(1) by simp
    ultimately show ?case by (auto elim!: wp_conseq split: option.splits)
  qed
  from this [of "[]" xs s] start show ?thesis by simp
qed

end
