(* ===== verification/Sleeplock.thy ===== *)
theory Sleeplock
  imports Prelude
begin

text \<open>
  Long-term locks of \<^verbatim>\<open>sleeplock.c\<close>. A sleep lock records whether it is held and by which
  process; its inner spin lock only makes each of the four operations atomic, so an operation
  is one function on the record. Taking a held lock puts the caller to sleep: \<open>None\<close>.
\<close>

record sleeplock =
  sl_locked :: bool
  sl_pid :: int

definition initsleeplock :: "sleeplock \<Rightarrow> sleeplock" where
  "initsleeplock lk = lk\<lparr>sl_locked := False, sl_pid := 0\<rparr>"

definition acquiresleep :: "int \<Rightarrow> sleeplock \<Rightarrow> sleeplock option" where
  "acquiresleep pid lk =
     (if sl_locked lk then None else Some (lk\<lparr>sl_locked := True, sl_pid := pid\<rparr>))"

definition releasesleep :: "sleeplock \<Rightarrow> sleeplock" where
  "releasesleep lk = lk\<lparr>sl_locked := False, sl_pid := 0\<rparr>"

definition holdingsleep :: "int \<Rightarrow> sleeplock \<Rightarrow> bool" where
  "holdingsleep pid lk \<longleftrightarrow> sl_locked lk \<and> sl_pid lk = pid"

lemma holdingsleep_acquire: "acquiresleep pid lk = Some lk' \<Longrightarrow> holdingsleep pid lk'"
  by (auto simp: acquiresleep_def holdingsleep_def split: if_splits)

lemma holdingsleep_release [simp]: "\<not> holdingsleep pid (releasesleep lk)"
  by (simp add: holdingsleep_def releasesleep_def)

lemma acquire_exclusive: "holdingsleep pid lk \<Longrightarrow> acquiresleep pid' lk = None"
  by (simp add: holdingsleep_def acquiresleep_def)

end
