(* ===== verification/BlockCache.thy ===== *)
theory BlockCache
  imports Prelude
begin

text \<open>
  The contract between the buffer cache and its clients (the log and the file system). Seen
  from outside, the cache is a store of disk blocks: \<open>a_view\<close> is the content a reader
  gets, \<open>a_home\<close> the content on the disk, \<open>a_held\<close> the blocks whose buffer is locked,
  \<open>a_dirty\<close> the blocks pinned in memory because they are newer than the disk, and
  \<open>a_trace\<close> the order in which blocks reached the disk. Three locales state what each operation does
  to this view: \<open>buffered\<close> has what reading, modifying and releasing a buffer do, \<open>block_cache\<close> adds
  the write to the disk (the cache as the log sees it), and \<open>logged_cache\<close> adds the write through the
  log (the cache as the file system sees it). The lemmas in them give the access idioms the
  clients use.
\<close>

record acache =
  a_size :: nat
  a_view :: "nat \<Rightarrow> block"
  a_home :: "nat \<Rightarrow> block"
  a_trace :: "(nat \<times> block) list"
  a_held :: "nat set"
  a_dirty :: "nat set"

text \<open>A block can be brought in: it is pinned already, or a buffer is free.\<close>

definition room :: "acache \<Rightarrow> nat \<Rightarrow> bool" where
  "room a b \<longleftrightarrow> b < a_size a \<and> b \<notin> a_held a \<and>
     (b \<in> a_dirty a \<or> card (a_held a \<union> a_dirty a) < NBUF)"

definition a_hold :: "nat \<Rightarrow> acache \<Rightarrow> acache" where
  "a_hold b a = a\<lparr>a_held := insert b (a_held a)\<rparr>"

definition a_release :: "nat \<Rightarrow> acache \<Rightarrow> acache" where
  "a_release b a = a\<lparr>a_held := a_held a - {b}\<rparr>"

definition a_store :: "nat \<Rightarrow> block \<Rightarrow> acache \<Rightarrow> acache" where
  "a_store b d a = a\<lparr>a_view := (a_view a)(b := d)\<rparr>"

definition a_flush :: "nat \<Rightarrow> acache \<Rightarrow> acache" where
  "a_flush b a = a\<lparr>a_home := (a_home a)(b := a_view a b), a_dirty := a_dirty a - {b},
     a_trace := a_trace a @ [(b, a_view a b)]\<rparr>"

definition a_pin :: "nat \<Rightarrow> acache \<Rightarrow> acache" where
  "a_pin b a = a\<lparr>a_dirty := insert b (a_dirty a)\<rparr>"

text \<open>Overwrite block \<open>b\<close> with \<open>d\<close>, in the cache and on the disk.\<close>

definition a_put :: "nat \<Rightarrow> block \<Rightarrow> acache \<Rightarrow> acache" where
  "a_put b d a = a_flush b (a_store b d a)"

lemmas acache_defs = a_hold_def a_release_def a_store_def a_flush_def a_pin_def a_put_def

lemma release_hold [simp]: "b \<notin> a_held a \<Longrightarrow> a_release b (a_hold b a) = a"
  by (simp add: acache_defs)

lemma room_hold: "room (a_hold a x) b \<Longrightarrow> b \<noteq> a"
  by (auto simp: room_def a_hold_def)

locale buffered =
  fixes bread :: "nat \<Rightarrow> ('s, nat) kmon"
    and bdata :: "nat \<Rightarrow> ('s, block) kmon"
    and bmodify :: "nat \<Rightarrow> (block \<Rightarrow> block) \<Rightarrow> ('s, unit) kmon"
    and brelse :: "nat \<Rightarrow> ('s, unit) kmon"
    and inv :: "'s \<Rightarrow> bool"
    and hold :: "'s \<Rightarrow> nat \<Rightarrow> nat \<Rightarrow> bool"
    and abs :: "'s \<Rightarrow> acache"
    and rest :: "'s \<Rightarrow> 'r"
  assumes bread_law: "inv s \<Longrightarrow> room (abs s) b \<Longrightarrow>
      wp (bread b) (\<lambda>i t. inv t \<and> hold t i b \<and> (\<forall>j c. hold s j c \<longrightarrow> hold t j c) \<and>
        abs t = a_hold b (abs s) \<and> rest t = rest s) s"
    and bdata_law: "inv s \<Longrightarrow> hold s i b \<Longrightarrow> wp (bdata i) (\<lambda>d t. d = a_view (abs s) b \<and> t = s) s"
    and bmodify_law: "inv s \<Longrightarrow> hold s i b \<Longrightarrow>
      wp (bmodify i f) (\<lambda>_ t. inv t \<and> (\<forall>j c. hold s j c \<longrightarrow> hold t j c) \<and>
        abs t = a_store b (f (a_view (abs s) b)) (abs s) \<and> rest t = rest s) s"
    and brelse_law: "inv s \<Longrightarrow> hold s i b \<Longrightarrow>
      b \<in> a_dirty (abs s) \<or> a_view (abs s) b = a_home (abs s) b \<Longrightarrow>
      wp (brelse i) (\<lambda>_ t. inv t \<and> (\<forall>j c. hold s j c \<longrightarrow> c \<noteq> b \<longrightarrow> hold t j c) \<and>
        abs t = a_release b (abs s) \<and> rest t = rest s) s"
    and clean_law: "inv s \<Longrightarrow> b \<notin> a_dirty (abs s) \<Longrightarrow> b \<notin> a_held (abs s) \<Longrightarrow>
      a_view (abs s) b = a_home (abs s) b"
    and hold_held: "inv s \<Longrightarrow> hold s i b \<Longrightarrow> b \<in> a_held (abs s) \<and> b < a_size (abs s)"
    and finite_pinned: "inv s \<Longrightarrow> finite (a_held (abs s) \<union> a_dirty (abs s))"
begin

text \<open>\<open>quiet s t\<close>: the caller sees no difference between the two states.\<close>

definition quiet :: "'s \<Rightarrow> 's \<Rightarrow> bool" where
  "quiet s t \<longleftrightarrow> inv t \<and> abs t = abs s \<and> rest t = rest s \<and> (\<forall>j c. hold s j c \<longrightarrow> hold t j c)"

lemma quiet_refl: "inv s \<Longrightarrow> quiet s s"
  by (simp add: quiet_def)

lemma quiet_trans: "quiet s t \<Longrightarrow> quiet t u \<Longrightarrow> quiet s u"
  by (simp add: quiet_def)

text \<open>Read a block and release it: \<^verbatim>\<open>bp = bread(..); ... bp->data ...; brelse(bp)\<close>.\<close>

lemma read_idiom:
  assumes "inv s" "room (abs s) b"
    and k: "\<And>t. quiet s t \<Longrightarrow> wp (k (a_view (abs s) b)) Q t"
  shows "wp (kbind (bread b) (\<lambda>i. kbind (bdata i) (\<lambda>d. kseq (brelse i) (k d)))) Q s"
proof -
  let ?P = "\<lambda>i t. inv t \<and> hold t i b \<and> (\<forall>j c. hold s j c \<longrightarrow> hold t j c) \<and>
        abs t = a_hold b (abs s) \<and> rest t = rest s"
  have nb: "b \<notin> a_held (abs s)" using assms(2) by (simp add: room_def)
  have step: "wp (kbind (bdata i) (\<lambda>d. kseq (brelse i) (k d))) Q t" if p: "?P i t" for i t
  proof -
    have v: "a_view (abs t) b = a_view (abs s) b" using p by (simp add: acache_defs)
    have cl: "b \<in> a_dirty (abs t) \<or> a_view (abs t) b = a_home (abs t) b"
      using p clean_law [OF assms(1) _ nb] by (auto simp: acache_defs)
    have "wp (brelse i) (\<lambda>_. wp (k (a_view (abs s) b)) Q) t"
    proof (rule wp_conseq [OF brelse_law [OF _ _ cl]])
      show "inv t" "hold t i b" using p by auto
    next
      fix x u
      assume u: "inv u \<and> (\<forall>j c. hold t j c \<longrightarrow> c \<noteq> b \<longrightarrow> hold u j c) \<and>
        abs u = a_release b (abs t) \<and> rest u = rest t"
      have "hold s j c \<Longrightarrow> c \<noteq> b" for j c using hold_held [OF assms(1)] nb by blast
      then have "quiet s u" using u p nb by (auto simp: quiet_def)
      then show "wp (k (a_view (abs s) b)) Q u" by (rule k)
    qed
    then show ?thesis using wp_conseq [OF bdata_law [of t i b]] p v by auto
  qed
  show ?thesis by (subst wp_kbind, rule wp_conseq [OF bread_law [OF assms(1,2)]], erule step)
qed

text \<open>A held block is read in place.\<close>

lemma data_idiom:
  assumes "inv s" "hold s i b" "wp (k (a_view (abs s) b)) Q s"
  shows "wp (kbind (bdata i) k) Q s"
  using assms wp_conseq [OF bdata_law [OF assms(1,2)]] by auto

text \<open>Taking hold of a block, whatever comes next.\<close>

lemma hold_idiom:
  assumes "inv s" "room (abs s) b"
    and "\<And>i t. inv t \<Longrightarrow> hold t i b \<Longrightarrow> (\<And>j c. hold s j c \<Longrightarrow> hold t j c) \<Longrightarrow>
      abs t = a_hold b (abs s) \<Longrightarrow> rest t = rest s \<Longrightarrow> wp (k i) Q t"
  shows "wp (kbind (bread b) k) Q s"
  by (subst wp_kbind, rule wp_conseq [OF bread_law [OF assms(1,2)]], rule assms(3)) auto

text \<open>Releasing a held block that is clean or pinned.\<close>

lemma drop_idiom:
  assumes "inv s" "hold s i b" "b \<in> a_dirty (abs s) \<or> a_view (abs s) b = a_home (abs s) b"
    and "\<And>t. inv t \<Longrightarrow> (\<And>j c. hold s j c \<Longrightarrow> c \<noteq> b \<Longrightarrow> hold t j c) \<Longrightarrow>
      abs t = a_release b (abs s) \<Longrightarrow> rest t = rest s \<Longrightarrow> wp k Q t"
  shows "wp (kseq (brelse i) k) Q s"
  by (subst wp_kseq, rule wp_conseq [OF brelse_law [OF assms(1-3)]], rule assms(4)) auto

end

text \<open>
  With \<open>bwrite\<close>, the writes that go straight to the disk: the log is the only client that
  makes them.
\<close>

locale block_cache = buffered +
  fixes bwrite :: "nat \<Rightarrow> ('a, unit) kmon"
  assumes bwrite_law: "inv s \<Longrightarrow> hold s i b \<Longrightarrow>
      wp (bwrite i) (\<lambda>_ t. inv t \<and> (\<forall>j c. hold s j c \<longrightarrow> hold t j c) \<and>
        abs t = a_flush b (abs s) \<and> rest t = rest s) s"
begin

text \<open>Storing into a held block and writing it through to the disk.\<close>

lemma put_idiom:
  assumes "inv s" "hold s i b"
    and "\<And>t. inv t \<Longrightarrow> (\<And>j c. hold s j c \<Longrightarrow> hold t j c) \<Longrightarrow>
      abs t = a_put b (f (a_view (abs s) b)) (abs s) \<Longrightarrow> rest t = rest s \<Longrightarrow> wp k Q t"
  shows "wp (kseq (bmodify i f) (kseq (bwrite i) k)) Q s"
proof -
  have "wp (kseq (bwrite i) k) Q t" if t: "inv t \<and> (\<forall>j c. hold s j c \<longrightarrow> hold t j c) \<and>
        abs t = a_store b (f (a_view (abs s) b)) (abs s) \<and> rest t = rest s" for t
    by (subst wp_kseq, rule wp_conseq [OF bwrite_law [of t i b]], use t assms(2) in blast, use t assms(2) in blast,
        rule assms(3), use t in \<open>auto simp: a_put_def\<close>)
  then show ?thesis
    by (subst wp_kseq) (rule wp_conseq [OF bmodify_law [OF assms(1,2)]], blast)
qed

text \<open>
  Overwriting a block on the disk:
  \<^verbatim>\<open>bp = bread(..); <modify bp->data>; bwrite(bp); brelse(bp)\<close>.
\<close>

lemma overwrite_idiom:
  assumes i: "inv s" "room (abs s) b"
    and k: "\<And>t. inv t \<Longrightarrow> (\<And>j c. hold s j c \<Longrightarrow> hold t j c) \<Longrightarrow>
      abs t = a_put b (f (a_view (abs s) b)) (abs s) \<Longrightarrow> rest t = rest s \<Longrightarrow> wp k Q t"
  shows "wp (kbind (bread b) (\<lambda>i. kseq (bmodify i f) (kseq (bwrite i) (kseq (brelse i) k)))) Q s"
proof (rule hold_idiom [OF i])
  have nb: "b \<notin> a_held (abs s)" using i(2) by (simp add: room_def)
  have ns: "hold s j c \<Longrightarrow> c \<noteq> b" for j c using hold_held [OF i(1)] nb by blast
  fix i t
  assume t: "inv t" "hold t i b" "\<And>j c. hold s j c \<Longrightarrow> hold t j c" "abs t = a_hold b (abs s)" "rest t = rest s"
  show "wp (kseq (bmodify i f) (kseq (bwrite i) (kseq (brelse i) k))) Q t"
  proof (rule put_idiom [OF t(1,2)])
    fix u
    assume u: "inv u" "\<And>j c. hold t j c \<Longrightarrow> hold u j c"
      "abs u = a_put b (f (a_view (abs t) b)) (abs t)" "rest u = rest t"
    show "wp (kseq (brelse i) k) Q u"
    proof (rule drop_idiom [OF u(1) u(2) [OF t(2)]])
      show "b \<in> a_dirty (abs u) \<or> a_view (abs u) b = a_home (abs u) b" using u(3) by (simp add: acache_defs)
      fix v
      assume v: "inv v" "\<And>j c. hold u j c \<Longrightarrow> c \<noteq> b \<Longrightarrow> hold v j c" "abs v = a_release b (abs u)" "rest v = rest u"
      show "wp k Q v"
      proof (rule k [OF v(1)])
        show "hold s j c \<Longrightarrow> hold v j c" for j c using ns t(3) u(2) v(2) by blast
        show "abs v = a_put b (f (a_view (abs s) b)) (abs s)" using v(3) u(3) t(4) nb by (simp add: acache_defs)
        show "rest v = rest s" using v(4) u(4) t(5) by simp
      qed
    qed
  qed
qed

text \<open>
  Two blocks are held; the second one's buffer \<open>j\<close> or the first one's buffer \<open>i\<close> receives a copy
  of the other and is written through, and both are released.
\<close>

lemma copy_held:
  assumes i: "inv s" "hold s i src" "hold s j dst" "src \<noteq> dst"
    and cl: "src \<in> a_dirty (abs s) \<or> a_view (abs s) src = a_home (abs s) src"
    and k: "\<And>t. inv t \<Longrightarrow> (\<And>j c. hold s j c \<Longrightarrow> c \<noteq> src \<Longrightarrow> c \<noteq> dst \<Longrightarrow> hold t j c) \<Longrightarrow>
      abs t = a_release dst (a_release src (a_put dst (a_view (abs s) src) (abs s))) \<Longrightarrow>
      rest t = rest s \<Longrightarrow> wp k Q t"
  shows "wp (kbind (bdata i) (\<lambda>d. kseq (bmodify j (\<lambda>_. d)) (kseq (bwrite j)
     (kseq (brelse i) (kseq (brelse j) k))))) Q s"
proof (rule data_idiom [OF i(1,2)], rule put_idiom [OF i(1,3)])
  fix t
  assume t: "inv t" "\<And>j c. hold s j c \<Longrightarrow> hold t j c"
    "abs t = a_put dst (a_view (abs s) src) (abs s)" "rest t = rest s"
  show "wp (kseq (brelse i) (kseq (brelse j) k)) Q t"
  proof (rule drop_idiom [OF t(1) t(2) [OF i(2)]])
    show "src \<in> a_dirty (abs t) \<or> a_view (abs t) src = a_home (abs t) src"
      using t(3) cl i(4) by (auto simp: acache_defs)
    fix u
    assume u: "inv u" "\<And>j c. hold t j c \<Longrightarrow> c \<noteq> src \<Longrightarrow> hold u j c" "abs u = a_release src (abs t)" "rest u = rest t"
    have hu: "hold u j dst" using u(2) [OF t(2) [OF i(3)]] i(4) by auto
    show "wp (kseq (brelse j) k) Q u"
    proof (rule drop_idiom [OF u(1) hu])
      show "dst \<in> a_dirty (abs u) \<or> a_view (abs u) dst = a_home (abs u) dst"
        using u(3) t(3) by (simp add: acache_defs)
      fix v
      assume v: "inv v" "\<And>j c. hold u j c \<Longrightarrow> c \<noteq> dst \<Longrightarrow> hold v j c" "abs v = a_release dst (abs u)" "rest v = rest u"
      show "wp k Q v"
        by (rule k [OF v(1)]) (use t u v in auto)
    qed
  qed
qed

end

text \<open>
  Inside a transaction the clients of the log pin what they modify with \<open>log_write\<close> instead.
  The log accepts a block outside its own area while fewer than its limit are recorded; the
  block is then newer than the disk, pinned, and may be released.
\<close>

locale logged_cache = buffered +
  fixes log_write :: "nat \<Rightarrow> ('a, unit) kmon"
    and loggable :: "'b \<Rightarrow> nat \<Rightarrow> bool"
    and limit :: "'b \<Rightarrow> nat"
  assumes log_write_law: "inv s \<Longrightarrow> hold s i b \<Longrightarrow> loggable (rest s) b \<Longrightarrow> card (a_dirty (abs s)) < limit (rest s) \<Longrightarrow>
      wp (log_write i) (\<lambda>_ t. inv t \<and> (\<forall>j c. hold s j c \<longrightarrow> hold t j c) \<and>
        abs t = a_pin b (abs s) \<and> rest t = rest s) s"
begin

text \<open>\<^verbatim>\<open>bp = bread(..); <modify bp->data>; log_write(bp); brelse(bp)\<close>.\<close>

lemma update_held:
  assumes i: "inv s" "hold s i b" "loggable (rest s) b" "card (a_dirty (abs s)) < limit (rest s)"
    and k: "\<And>t. inv t \<Longrightarrow> (\<And>j c. hold s j c \<Longrightarrow> c \<noteq> b \<Longrightarrow> hold t j c) \<Longrightarrow>
      abs t = a_release b (a_pin b (a_store b (f (a_view (abs s) b)) (abs s))) \<Longrightarrow> rest t = rest s \<Longrightarrow> wp k Q t"
  shows "wp (kseq (bmodify i f) (kseq (log_write i) (kseq (brelse i) k))) Q s"
proof (subst wp_kseq, rule wp_conseq [OF bmodify_law [OF i(1,2)]], elim conjE)
  fix t
  assume t: "inv t" "\<forall>j c. hold s j c \<longrightarrow> hold t j c" "abs t = a_store b (f (a_view (abs s) b)) (abs s)" "rest t = rest s"
  have l: "hold t i b" "loggable (rest t) b" "card (a_dirty (abs t)) < limit (rest t)"
    using t i by (auto simp: a_store_def)
  show "wp (kseq (log_write i) (kseq (brelse i) k)) Q t"
  proof (subst wp_kseq, rule wp_conseq [OF log_write_law [OF t(1) l]], elim conjE)
    fix u
    assume u: "inv u" "\<forall>j c. hold t j c \<longrightarrow> hold u j c" "abs u = a_pin b (abs t)" "rest u = rest t"
    then show "wp (kseq (brelse i) k) Q u"
      by (intro drop_idiom [of u i b] k) (use t l in \<open>auto simp: a_pin_def\<close>)
  qed
qed

lemma update_idiom:
  assumes i: "inv s" "room (abs s) b" "loggable (rest s) b" "card (a_dirty (abs s)) < limit (rest s)"
    and k: "\<And>t. inv t \<Longrightarrow> (\<And>j c. hold s j c \<Longrightarrow> hold t j c) \<Longrightarrow>
      abs t = a_pin b (a_store b (f (a_view (abs s) b)) (abs s)) \<Longrightarrow> rest t = rest s \<Longrightarrow> wp k Q t"
  shows "wp (kbind (bread b) (\<lambda>i. kseq (bmodify i f) (kseq (log_write i) (kseq (brelse i) k)))) Q s"
proof (rule hold_idiom [OF i(1,2)])
  have nb: "b \<notin> a_held (abs s)" using i(2) by (simp add: room_def)
  have ns: "hold s j c \<Longrightarrow> c \<noteq> b" for j c using hold_held [OF i(1)] nb by blast
  fix x t
  assume t: "inv t" "hold t x b" "\<And>j c. hold s j c \<Longrightarrow> hold t j c" "abs t = a_hold b (abs s)" "rest t = rest s"
  show "wp (kseq (bmodify x f) (kseq (log_write x) (kseq (brelse x) k))) Q t"
  proof (rule update_held [OF t(1,2)])
    show "loggable (rest t) b" "card (a_dirty (abs t)) < limit (rest t)" using i t by (simp_all add: a_hold_def)
    fix u
    assume u: "inv u" "\<And>j c. hold t j c \<Longrightarrow> c \<noteq> b \<Longrightarrow> hold u j c"
      "abs u = a_release b (a_pin b (a_store b (f (a_view (abs t) b)) (abs t)))" "rest u = rest t"
    then show "wp k Q u" by (intro k) (use t ns nb in \<open>auto simp: acache_defs\<close>)
  qed
qed

end

end
