(* ===== verification/Bio.thy ===== *)
theory Bio
  imports Sleeplock BlockCache
begin

text \<open>
  The buffer cache of \<^verbatim>\<open>bio.c\<close> over the memory disk of \<^verbatim>\<open>memide.c\<close>. Buffers are numbered
  \<open>0..<NBUF\<close>, and the number \<^const>\<open>NBUF\<close> stands for \<^verbatim>\<open>&bcache.head\<close>; the recency list is
  kept exactly as the code keeps it, as \<^verbatim>\<open>prev\<close>/\<^verbatim>\<open>next\<close> links. The lemmas show that the links
  always form one circular list of all buffers in recency order, that a block is cached at
  most once, and that reading through the cache returns the logical content of the block.
\<close>

section \<open>State and operations\<close>

record buf =
  b_valid :: bool
  b_dirty :: bool
  b_dev :: nat
  blockno :: nat
  b_lock :: sleeplock
  refcnt :: nat
  b_prev :: nat
  b_next :: nat
  b_data :: block

text \<open>
  \<open>disk\<close> and \<open>disksize\<close> are \<^verbatim>\<open>memdisk\<close> and \<^verbatim>\<open>disksize\<close>; \<open>dtrace\<close> is a ghost record of the
  block writes that reached the disk, in order; \<open>curpid\<close> is \<^verbatim>\<open>myproc()->pid\<close>.
\<close>

record bstate =
  disk :: "nat \<Rightarrow> block"
  disksize :: nat
  dtrace :: "(nat \<times> block) list"
  bufs :: "nat \<Rightarrow> buf"
  curpid :: int

definition setbuf :: "nat \<Rightarrow> (buf \<Rightarrow> buf) \<Rightarrow> 'x bstate_scheme \<Rightarrow> 'x bstate_scheme" where
  "setbuf i f s = s\<lparr>bufs := (bufs s)(i := f (bufs s i))\<rparr>"

text \<open>Following a link from \<open>p\<close> until the head \<open>h\<close> is met, at most \<open>n\<close> nodes.\<close>

primrec walk :: "(nat \<Rightarrow> nat) \<Rightarrow> nat \<Rightarrow> nat \<Rightarrow> nat \<Rightarrow> nat list" where
  "walk f h 0 p = []"
| "walk f h (Suc n) p = (if p = h then [] else p # walk f h n (f p))"

definition set_next :: "nat \<Rightarrow> nat \<Rightarrow> (nat \<Rightarrow> buf) \<Rightarrow> nat \<Rightarrow> buf" where
  "set_next p q B = B(p := (B p)\<lparr>b_next := q\<rparr>)"

definition set_prev :: "nat \<Rightarrow> nat \<Rightarrow> (nat \<Rightarrow> buf) \<Rightarrow> nat \<Rightarrow> buf" where
  "set_prev p q B = B(p := (B p)\<lparr>b_prev := q\<rparr>)"

definition binit_one :: "nat \<Rightarrow> (nat \<Rightarrow> buf) \<Rightarrow> nat \<Rightarrow> buf" where
  "binit_one b B =
    (let B1 = set_next b (b_next (B NBUF)) B;
         B2 = set_prev b NBUF B1;
         B3 = B2(b := (B2 b)\<lparr>b_lock := initsleeplock (b_lock (B2 b))\<rparr>);
         B4 = set_prev (b_next (B3 NBUF)) b B3
     in set_next NBUF b B4)"

definition binit :: "('x bstate_scheme, unit) kmon" where
  "binit = kmod (\<lambda>s. s\<lparr>bufs :=
     fold binit_one [0..<NBUF] (set_next NBUF NBUF (set_prev NBUF NBUF (bufs s)))\<rparr>)"

definition iderw :: "nat \<Rightarrow> ('x bstate_scheme, unit) kmon" where
  "iderw i = (\<lambda>s. let b = bufs s i in
     if \<not> holdingsleep (curpid s) (b_lock b) then Panic ''iderw: buf not locked''
     else if b_valid b \<and> \<not> b_dirty b then Panic ''iderw: nothing to do''
     else if b_dev b \<noteq> 1 then Panic ''iderw: request not for disk 1''
     else if disksize s \<le> blockno b then Panic ''iderw: block out of range''
     else if b_dirty b
       then Done () (setbuf i (\<lambda>b. b\<lparr>b_dirty := False, b_valid := True\<rparr>)
              (s\<lparr>disk := (disk s)(blockno b := b_data b),
                dtrace := dtrace s @ [(blockno b, b_data b)]\<rparr>))
       else Done () (setbuf i (\<lambda>b. b\<lparr>b_data := disk s (blockno b), b_valid := True\<rparr>) s))"

definition block_lock :: "nat \<Rightarrow> ('x bstate_scheme, nat) kmon" where
  "block_lock i = (\<lambda>s. case acquiresleep (curpid s) (b_lock (bufs s i)) of
       None \<Rightarrow> Sleep (ChanBuf i) s
     | Some lk \<Rightarrow> Done i (setbuf i (\<lambda>b. b\<lparr>b_lock := lk\<rparr>) s))"

definition bget :: "nat \<Rightarrow> nat \<Rightarrow> ('x bstate_scheme, nat) kmon" where
  "bget dev bn = (\<lambda>s.
     case find (\<lambda>i. b_dev (bufs s i) = dev \<and> blockno (bufs s i) = bn)
            (walk (\<lambda>p. b_next (bufs s p)) NBUF NBUF (b_next (bufs s NBUF))) of
       Some i \<Rightarrow> block_lock i (setbuf i (\<lambda>b. b\<lparr>refcnt := u32_inc (refcnt b)\<rparr>) s)
     | None \<Rightarrow>
        (case find (\<lambda>i. refcnt (bufs s i) = 0 \<and> \<not> b_dirty (bufs s i))
               (walk (\<lambda>p. b_prev (bufs s p)) NBUF NBUF (b_prev (bufs s NBUF))) of
          Some i \<Rightarrow> block_lock i (setbuf i (\<lambda>b. b\<lparr>b_dev := dev, blockno := bn,
                      b_valid := False, b_dirty := False, refcnt := 1\<rparr>) s)
        | None \<Rightarrow> Panic ''bget: no buffers''))"

definition bread :: "nat \<Rightarrow> nat \<Rightarrow> ('x bstate_scheme, nat) kmon" where
  "bread dev bn =
     kbind (bget dev bn) (\<lambda>i.
     kbind (kget (\<lambda>s. b_valid (bufs s i))) (\<lambda>v.
     if \<not> v then kseq (iderw i) (kret i) else kret i))"

definition bwrite :: "nat \<Rightarrow> ('x bstate_scheme, unit) kmon" where
  "bwrite i =
     kbind (kget (\<lambda>s. holdingsleep (curpid s) (b_lock (bufs s i)))) (\<lambda>h.
     if \<not> h then kpanic ''bwrite''
     else kseq (kmod (setbuf i (\<lambda>b. b\<lparr>b_dirty := True\<rparr>))) (iderw i))"

definition mru :: "nat \<Rightarrow> (nat \<Rightarrow> buf) \<Rightarrow> nat \<Rightarrow> buf" where
  "mru b B =
    (let B1 = set_prev (b_next (B b)) (b_prev (B b)) B;
         B2 = set_next (b_prev (B1 b)) (b_next (B1 b)) B1;
         B3 = set_next b (b_next (B2 NBUF)) B2;
         B4 = set_prev b NBUF B3;
         B5 = set_prev (b_next (B4 NBUF)) b B4
     in set_next NBUF b B5)"

definition brelse :: "nat \<Rightarrow> ('x bstate_scheme, unit) kmon" where
  "brelse i =
     kbind (kget (\<lambda>s. holdingsleep (curpid s) (b_lock (bufs s i)))) (\<lambda>h.
     if \<not> h then kpanic ''brelse''
     else kseq (kmod (setbuf i (\<lambda>b. b\<lparr>b_lock := releasesleep (b_lock b), refcnt := u32_dec (refcnt b)\<rparr>)))
        (kmod (\<lambda>s. if refcnt (bufs s i) = 0 then s\<lparr>bufs := mru i (bufs s)\<rparr> else s)))"

text \<open>The accesses to \<^verbatim>\<open>b->data\<close> that clients make while they hold the buffer.\<close>

definition bdata :: "nat \<Rightarrow> ('x bstate_scheme, block) kmon" where
  "bdata i = kget (\<lambda>s. b_data (bufs s i))"

definition bmodify :: "nat \<Rightarrow> (block \<Rightarrow> block) \<Rightarrow> ('x bstate_scheme, unit) kmon" where
  "bmodify i f = kmod (setbuf i (\<lambda>b. b\<lparr>b_data := f (b_data b)\<rparr>))"

lemma bufs_setbuf [simp]: "bufs (setbuf i f s) = (bufs s)(i := f (bufs s i))"
  and disk_setbuf [simp]: "disk (setbuf i f s) = disk s"
  and disksize_setbuf [simp]: "disksize (setbuf i f s) = disksize s"
  and dtrace_setbuf [simp]: "dtrace (setbuf i f s) = dtrace s"
  and curpid_setbuf [simp]: "curpid (setbuf i f s) = curpid s"
  and more_setbuf [simp]: "bstate.more (setbuf i f s) = bstate.more s"
  by (simp_all add: setbuf_def)

section \<open>The recency list\<close>

primrec chain :: "(nat \<Rightarrow> nat) \<Rightarrow> nat \<Rightarrow> nat list \<Rightarrow> nat \<Rightarrow> bool" where
  "chain f p [] q \<longleftrightarrow> f p = q"
| "chain f p (x # xs) q \<longleftrightarrow> f p = x \<and> chain f x xs q"

lemma chain_append [simp]: "chain f p (xs @ y # ys) q \<longleftrightarrow> chain f p xs y \<and> chain f y ys q"
  by (induction xs arbitrary: p) auto

lemma chain_cong: "(\<And>x. x \<in> insert p (set xs) \<Longrightarrow> f x = g x) \<Longrightarrow> chain f p xs q = chain g p xs q"
  by (induction xs arbitrary: p) auto

lemma last_notin: "distinct (p # xs) \<Longrightarrow> xs \<noteq> [] \<Longrightarrow> last xs \<noteq> p"
  by auto

lemma chain_redirect:
  "chain f p xs q \<Longrightarrow> distinct (p # xs) \<Longrightarrow> chain (f(last (p # xs) := r)) p xs r"
proof (induction xs arbitrary: p)
  case Nil
  then show ?case by simp
next
  case (Cons x xs)
  from Cons.prems have "chain f x xs q" "distinct (x # xs)" by auto
  then have "chain (f(last (x # xs) := r)) x xs r" by (rule Cons.IH)
  moreover have "last (x # xs) \<noteq> p" using Cons.prems(2) last_notin [of p "x # xs"] by blast
  moreover have "last (p # x # xs) = last (x # xs)" by simp
  ultimately show ?case using Cons.prems(1) by (simp add: fun_upd_def del: last.simps)
qed

lemma chain_first: "chain f p xs q \<Longrightarrow> f p = hd (xs @ [q])"
  by (cases xs) auto

lemma chain_last: "chain f p xs q \<Longrightarrow> f (last (p # xs)) = q"
  by (induction xs arbitrary: p) auto

text \<open>Unlinking \<open>b\<close>, pushing \<open>b\<close> at the front, and appending \<open>b\<close> at the end.\<close>

lemma chain_remove:
  assumes "chain f p (xs @ b # ys) q" "distinct (p # xs @ b # ys)"
  shows "chain (f(last (p # xs) := f b)) p (xs @ ys) q"
proof (cases ys)
  case Nil
  with assms have "chain f p xs b" "f b = q" "distinct (p # xs)" by auto
  with Nil show ?thesis by (simp add: chain_redirect del: last.simps)
next
  case (Cons y zs)
  with assms have c: "chain f p xs b" "f b = y" "chain f y zs q" by auto
  have "chain (f(last (p # xs) := y)) p xs y"
    using c(1) assms(2) by (intro chain_redirect) auto
  moreover have "last (p # xs) \<in> set (p # xs)" by (rule last_in_set) simp
  then have "last (p # xs) \<notin> insert y (set zs)" using assms(2) Cons by auto
  then have "chain (f(last (p # xs) := y)) y zs q = chain f y zs q"
    by (intro chain_cong) (auto simp del: last.simps)
  ultimately show ?thesis using Cons c by (simp del: last.simps)
qed

lemma chain_push:
  assumes "chain f p xs q" "b \<notin> set xs" "p \<notin> set xs" "b \<noteq> p"
  shows "chain (f(b := f p, p := b)) p (b # xs) q"
proof -
  have "chain (f(b := f p)) b xs q"
  proof (cases xs)
    case Nil
    with assms show ?thesis by simp
  next
    case (Cons x ys)
    then have "chain (f(b := f p)) x ys q = chain f x ys q"
      using assms by (intro chain_cong) auto
    with Cons assms show ?thesis by simp
  qed
  moreover have "chain (f(b := f p, p := b)) b xs q = chain (f(b := f p)) b xs q"
    using assms by (intro chain_cong) auto
  ultimately show ?thesis by simp
qed

lemma chain_append_end:
  assumes "chain f p xs q" "distinct (p # xs)" "b \<notin> set (p # xs)"
  shows "chain (f(b := q, last (p # xs) := b)) p (xs @ [b]) q"
proof -
  have l: "last (p # xs) \<in> set (p # xs)" by (rule last_in_set) simp
  then have "last (p # xs) \<noteq> b" using assms(3) by blast
  moreover have "chain (f(last (p # xs) := b)) p xs b" by (rule chain_redirect [OF assms(1,2)])
  moreover have "chain (f(b := q, last (p # xs) := b)) p xs b = chain (f(last (p # xs) := b)) p xs b"
    using assms(3) by (intro chain_cong) auto
  ultimately show ?thesis by (simp del: last.simps)
qed

lemma walk_chain:
  "chain f p xs h \<Longrightarrow> h \<notin> set xs \<Longrightarrow> length xs \<le> n \<Longrightarrow> walk f h n (f p) = xs"
proof (induction xs arbitrary: p n)
  case Nil
  then show ?case by (cases n) auto
next
  case (Cons x xs)
  then show ?case by (cases n) auto
qed

text \<open>
  \<open>lru B xs\<close>: the links of \<open>B\<close> form one circular doubly linked list through the head and
  all \<^const>\<open>NBUF\<close> buffers, in the order \<open>xs\<close>, most recently used first.
\<close>

definition lru :: "(nat \<Rightarrow> buf) \<Rightarrow> nat list \<Rightarrow> bool" where
  "lru B xs \<longleftrightarrow> distinct xs \<and> set xs = {..<NBUF} \<and>
     chain (\<lambda>p. b_next (B p)) NBUF xs NBUF \<and> chain (\<lambda>p. b_prev (B p)) NBUF (rev xs) NBUF"

lemma lru_cong:
  "(\<And>p. b_next (B p) = b_next (C p)) \<Longrightarrow> (\<And>p. b_prev (B p) = b_prev (C p)) \<Longrightarrow> lru B xs = lru C xs"
  by (simp add: lru_def)

lemma lru_walk_next: "lru B xs \<Longrightarrow> walk (\<lambda>p. b_next (B p)) NBUF NBUF (b_next (B NBUF)) = xs"
  using walk_chain [of "\<lambda>p. b_next (B p)" NBUF xs NBUF NBUF] distinct_card [of xs]
  by (simp add: lru_def)

lemma lru_walk_prev: "lru B xs \<Longrightarrow> walk (\<lambda>p. b_prev (B p)) NBUF NBUF (b_prev (B NBUF)) = rev xs"
  using walk_chain [of "\<lambda>p. b_prev (B p)" NBUF "rev xs" NBUF NBUF] distinct_card [of xs]
  by (simp add: lru_def)

lemma next_set_next [simp]: "b_next (set_next p q B x) = (if x = p then q else b_next (B x))"
  and next_set_prev [simp]: "b_next (set_prev p q B x) = b_next (B x)"
  and prev_set_next [simp]: "b_prev (set_next p q B x) = b_prev (B x)"
  and prev_set_prev [simp]: "b_prev (set_prev p q B x) = (if x = p then q else b_prev (B x))"
  by (simp_all add: set_next_def set_prev_def)

lemma next_mru:
  assumes "b_prev (B b) \<noteq> b" "b_next (B b) \<noteq> b"
  shows "b_next (mru b B x) = (if x = NBUF then b
     else if x = b then (if b_prev (B b) = NBUF then b_next (B b) else b_next (B NBUF))
     else if x = b_prev (B b) then b_next (B b) else b_next (B x))"
  using assms by (simp add: mru_def Let_def)

lemma prev_mru:
  assumes "b_prev (B b) \<noteq> b" "b_next (B b) \<noteq> b" "b \<noteq> NBUF"
  shows "b_prev (mru b B x) = (if x = (if b_prev (B b) = NBUF then b_next (B b) else b_next (B NBUF)) then b
     else if x = b then NBUF
     else if x = b_next (B b) then b_prev (B b) else b_prev (B x))"
  using assms by (simp add: mru_def Let_def)

lemma lru_mru:
  assumes "lru B (ys @ b # zs)"
  shows "lru (mru b B) (b # ys @ zs)"
proof -
  let ?n = "\<lambda>p. b_next (B p)" and ?p = "\<lambda>p. b_prev (B p)"
  have d: "distinct (NBUF # ys @ b # zs)" "distinct (NBUF # rev zs @ b # rev ys)"
    and st: "set (ys @ b # zs) = {..<NBUF}"
    and n: "chain ?n NBUF (ys @ b # zs) NBUF" and p: "chain ?p NBUF (rev zs @ b # rev ys) NBUF"
    using assms by (auto simp: lru_def)
  have su: "?n b = last (NBUF # rev zs)" and pr: "?p b = last (NBUF # ys)"
    using n p chain_first [of ?n b zs NBUF] chain_first [of ?p b "rev ys" NBUF]
    by (auto simp: last_rev hd_append hd_rev simp flip: last_rev)
  define f where "f = ?n(last (NBUF # ys) := ?n b)"
  define g where "g = ?p(last (NBUF # rev zs) := ?p b)"
  have cf: "chain f NBUF (ys @ zs) NBUF" and cg: "chain g NBUF (rev zs @ rev ys) NBUF"
    unfolding f_def g_def by (rule chain_remove [OF n d(1)], rule chain_remove [OF p d(2)])
  have "last (NBUF # rev (ys @ zs)) = hd ((ys @ zs) @ [NBUF])"
    by (cases "ys @ zs") (simp_all del: rev_append)
  then have fh: "f NBUF = last (NBUF # rev zs @ rev ys)"
    using chain_first [OF cf] by simp
  have nb: "b \<noteq> NBUF" using d by auto
  have ne: "last (NBUF # ys) \<noteq> b" "last (NBUF # rev zs) \<noteq> b" 
    using d last_in_set [of "NBUF # ys"] last_in_set [of "NBUF # rev zs"] by auto
  have nx: "(\<lambda>x. b_next (mru b B x)) = f(b := f NBUF, NBUF := b)"
    using nb ne su pr by (simp add: next_mru f_def fun_eq_iff del: last.simps)
  have pv: "(\<lambda>x. b_prev (mru b B x)) = g(b := NBUF, f NBUF := b)"
    using nb ne su pr by (simp add: prev_mru f_def g_def fun_eq_iff del: last.simps)
  have "chain (f(b := f NBUF, NBUF := b)) NBUF (b # ys @ zs) NBUF"
    using d by (intro chain_push [OF cf]) auto
  moreover have "chain (g(b := NBUF, f NBUF := b)) NBUF ((rev zs @ rev ys) @ [b]) NBUF"
    unfolding fh using d by (intro chain_append_end [OF cg]) auto
  ultimately show ?thesis unfolding lru_def nx pv using d st by auto
qed

text \<open>\<^verbatim>\<open>binit\<close> builds the list of all buffers; the last one inserted is at the front.\<close>

lemma next_binit_one: "b \<noteq> NBUF \<Longrightarrow>
    (\<lambda>x. b_next (binit_one b B x)) = (\<lambda>x. b_next (B x))(b := b_next (B NBUF), NBUF := b)"
  and prev_binit_one: "b \<noteq> NBUF \<Longrightarrow>
    (\<lambda>x. b_prev (binit_one b B x)) = (\<lambda>x. b_prev (B x))(b := NBUF, b_next (B NBUF) := b)"
  by (simp_all add: binit_one_def Let_def fun_eq_iff)

lemma binit_ring:
  assumes "k \<le> NBUF" "b_next (B NBUF) = NBUF" "b_prev (B NBUF) = NBUF"
  shows "chain (\<lambda>x. b_next (fold binit_one [0..<k] B x)) NBUF (rev [0..<k]) NBUF \<and>
     chain (\<lambda>x. b_prev (fold binit_one [0..<k] B x)) NBUF [0..<k] NBUF"
  using assms(1)
proof (induction k)
  case 0
  then show ?case using assms by simp
next
  case (Suc k)
  let ?C = "fold binit_one [0..<k] B"
  let ?n = "\<lambda>x. b_next (?C x)" and ?p = "\<lambda>x. b_prev (?C x)"
  have kn: "k \<noteq> NBUF" and n: "chain ?n NBUF (rev [0..<k]) NBUF" and p: "chain ?p NBUF [0..<k] NBUF"
    using Suc by auto
  have "?n NBUF = last (NBUF # [0..<k])" using chain_first [OF n] by (cases k) auto
  moreover have "chain (?p(k := NBUF, last (NBUF # [0..<k]) := k)) NBUF ([0..<k] @ [k]) NBUF"
    using Suc.prems by (intro chain_append_end [OF p]) auto
  moreover have "chain (?n(k := ?n NBUF, NBUF := k)) NBUF (k # rev [0..<k]) NBUF"
    using Suc.prems by (intro chain_push [OF n]) auto
  ultimately show ?case using kn by (simp add: next_binit_one prev_binit_one)
qed

lemma binit_lru:
  assumes "b_next (B NBUF) = NBUF" "b_prev (B NBUF) = NBUF"
  shows "lru (fold binit_one [0..<NBUF] B) (rev [0..<NBUF])"
  using binit_ring [of NBUF B] assms by (auto simp: lru_def)

section \<open>Invariant and abstraction\<close>

definition bcore :: "buf \<Rightarrow> buf" where
  "bcore b = b\<lparr>b_prev := 0, b_next := 0\<rparr>"

definition buf_ok :: "nat \<Rightarrow> (nat \<Rightarrow> block) \<Rightarrow> buf \<Rightarrow> bool" where
  "buf_ok n d b \<longleftrightarrow>
     refcnt b = (if sl_locked (b_lock b) then 1 else 0) \<and>
     (b_dev b \<noteq> 0 \<longleftrightarrow> b_valid b) \<and>
     (b_valid b \<longrightarrow> b_dev b = 1 \<and> blockno b < n) \<and>
     (b_dirty b \<or> sl_locked (b_lock b) \<longrightarrow> b_valid b) \<and>
     (b_valid b \<and> \<not> b_dirty b \<and> \<not> sl_locked (b_lock b) \<longrightarrow> b_data b = d (blockno b))"

definition binv :: "'x bstate_scheme \<Rightarrow> bool" where
  "binv s \<longleftrightarrow> (\<exists>xs. lru (bufs s) xs) \<and>
     (\<forall>i<NBUF. buf_ok (disksize s) (disk s) (bufs s i)) \<and>
     (\<forall>i<NBUF. \<forall>j<NBUF. b_valid (bufs s i) \<and> b_valid (bufs s j) \<and>
        blockno (bufs s i) = blockno (bufs s j) \<longrightarrow> i = j)"

definition slot :: "'x bstate_scheme \<Rightarrow> nat \<Rightarrow> nat option" where
  "slot s b = find (\<lambda>i. b_valid (bufs s i) \<and> blockno (bufs s i) = b) [0..<NBUF]"

definition view :: "'x bstate_scheme \<Rightarrow> nat \<Rightarrow> block" where
  "view s b = (case slot s b of Some i \<Rightarrow> b_data (bufs s i) | None \<Rightarrow> disk s b)"

definition heldblks :: "'x bstate_scheme \<Rightarrow> nat set" where
  "heldblks s = (\<lambda>i. blockno (bufs s i)) ` {i. i < NBUF \<and> sl_locked (b_lock (bufs s i))}"

definition dirtyblks :: "'x bstate_scheme \<Rightarrow> nat set" where
  "dirtyblks s = (\<lambda>i. blockno (bufs s i)) ` {i. i < NBUF \<and> b_dirty (bufs s i)}"

definition bhold :: "'x bstate_scheme \<Rightarrow> nat \<Rightarrow> nat \<Rightarrow> bool" where
  "bhold s i b \<longleftrightarrow> i < NBUF \<and> b_valid (bufs s i) \<and> blockno (bufs s i) = b \<and>
     holdingsleep (curpid s) (b_lock (bufs s i))"

definition babs :: "'x bstate_scheme \<Rightarrow> acache" where
  "babs s = \<lparr>a_size = disksize s, a_view = view s, a_home = disk s, a_trace = dtrace s,
     a_held = heldblks s, a_dirty = dirtyblks s\<rparr>"

lemma babs_sel: "a_size (babs s) = disksize s" "a_view (babs s) = view s" "a_home (babs s) = disk s"
  "a_trace (babs s) = dtrace s" "a_held (babs s) = heldblks s" "a_dirty (babs s) = dirtyblks s"
  by (simp_all add: babs_def)

definition brest :: "'x bstate_scheme \<Rightarrow> int \<times> 'x" where
  "brest s = (curpid s, bstate.more s)"

lemma slot_Some: "binv s \<Longrightarrow> i < NBUF \<Longrightarrow> b_valid (bufs s i) \<Longrightarrow> slot s (blockno (bufs s i)) = Some i"
proof -
  assume a: "binv s" "i < NBUF" "b_valid (bufs s i)"
  let ?P = "\<lambda>j. b_valid (bufs s j) \<and> blockno (bufs s j) = blockno (bufs s i)"
  have "find ?P [0..<NBUF] \<noteq> None" using a by (auto simp: find_None_iff)
  then obtain j where j: "find ?P [0..<NBUF] = Some j" by auto
  then have "j < NBUF" "?P j" by (auto simp: find_Some_iff)
  then have "j = i" using a by (auto simp: binv_def)
  then show ?thesis using j by (simp add: slot_def)
qed

lemma slot_None: "(\<And>i. i < NBUF \<Longrightarrow> b_valid (bufs s i) \<Longrightarrow> blockno (bufs s i) \<noteq> b) \<Longrightarrow> slot s b = None"
  by (auto simp: slot_def find_None_iff)

lemma view_hit: "binv s \<Longrightarrow> i < NBUF \<Longrightarrow> b_valid (bufs s i) \<Longrightarrow> view s (blockno (bufs s i)) = b_data (bufs s i)"
  by (simp add: view_def slot_Some)

lemma view_miss: "(\<And>i. i < NBUF \<Longrightarrow> b_valid (bufs s i) \<Longrightarrow> blockno (bufs s i) \<noteq> b) \<Longrightarrow> view s b = disk s b"
  by (simp add: view_def slot_None)

lemma binv_uniq: "binv s \<Longrightarrow> i < NBUF \<Longrightarrow> j < NBUF \<Longrightarrow> b_valid (bufs s i) \<Longrightarrow> b_valid (bufs s j) \<Longrightarrow>
    blockno (bufs s i) = blockno (bufs s j) \<Longrightarrow> i = j"
  by (simp add: binv_def)

lemma binv_ok: "binv s \<Longrightarrow> i < NBUF \<Longrightarrow> buf_ok (disksize s) (disk s) (bufs s i)"
  by (simp add: binv_def)

lemma view_clean: "binv s \<Longrightarrow> b \<notin> dirtyblks s \<Longrightarrow> b \<notin> heldblks s \<Longrightarrow> view s b = disk s b"
proof (cases "\<exists>i<NBUF. b_valid (bufs s i) \<and> blockno (bufs s i) = b")
  case True
  then obtain i where i: "i < NBUF" "b_valid (bufs s i)" "blockno (bufs s i) = b" by auto
  assume "binv s" "b \<notin> dirtyblks s" "b \<notin> heldblks s"
  with i show ?thesis using binv_ok [of s i] view_hit [of s i]
    by (auto simp: buf_ok_def dirtyblks_def heldblks_def)
next
  case False
  then show ?thesis by (intro view_miss) auto
qed

lemma finite_blks: "finite (heldblks s)" "finite (dirtyblks s)"
  by (simp_all add: heldblks_def dirtyblks_def)

text \<open>If fewer than \<^const>\<open>NBUF\<close> blocks are pinned, some buffer can be recycled.\<close>

lemma free_buffer:
  assumes "binv s" "card (heldblks s \<union> dirtyblks s) < NBUF"
  shows "\<exists>i<NBUF. refcnt (bufs s i) = 0 \<and> \<not> b_dirty (bufs s i)"
proof (rule ccontr)
  assume n: "\<not> ?thesis"
  have busy: "sl_locked (b_lock (bufs s i)) \<or> b_dirty (bufs s i)" if "i < NBUF" for i
    using n that binv_ok [OF assms(1) that] by (auto simp: buf_ok_def split: if_splits)
  then have val: "b_valid (bufs s i)" if "i < NBUF" for i
    using that binv_ok [OF assms(1) that] by (auto simp: buf_ok_def)
  have "inj_on (\<lambda>i. blockno (bufs s i)) {..<NBUF}"
    using binv_uniq [OF assms(1)] val by (auto simp: inj_on_def)
  then have "card ((\<lambda>i. blockno (bufs s i)) ` {..<NBUF}) = NBUF" by (simp add: card_image)
  moreover have "(\<lambda>i. blockno (bufs s i)) ` {..<NBUF} \<subseteq> heldblks s \<union> dirtyblks s"
    using busy by (auto simp: heldblks_def dirtyblks_def)
  ultimately have "NBUF \<le> card (heldblks s \<union> dirtyblks s)"
    by (metis card_mono finite_UnI finite_blks)
  then show False using assms(2) by simp
qed

section \<open>The operations meet the contract\<close>

text \<open>
  Replacing the content of one buffer slot \<open>i\<close> by \<open>X\<close> keeps the invariant when \<open>X\<close> is
  well-formed and names no block cached elsewhere.
\<close>

lemma binv_update:
  assumes "binv s" "i < NBUF" "b_next X = b_next (bufs s i)" "b_prev X = b_prev (bufs s i)"
    and "buf_ok (disksize s) (disk s) X"
    and "\<And>j. j < NBUF \<Longrightarrow> j \<noteq> i \<Longrightarrow> b_valid (bufs s j) \<Longrightarrow> b_valid X \<Longrightarrow> blockno (bufs s j) \<noteq> blockno X"
  shows "binv (s\<lparr>bufs := (bufs s)(i := X)\<rparr>)"
proof -
  obtain xs where "lru (bufs s) xs" using assms(1) by (auto simp: binv_def)
  then have "lru ((bufs s)(i := X)) xs" using assms(3,4) lru_cong [of "(bufs s)(i := X)" "bufs s" xs] by simp
  moreover have "\<forall>j<NBUF. buf_ok (disksize s) (disk s) (((bufs s)(i := X)) j)"
    using assms(1,5) by (auto simp: binv_def)
  moreover have "j = k" if "j < NBUF" "k < NBUF" "b_valid (((bufs s)(i := X)) j)"
    "b_valid (((bufs s)(i := X)) k)" "blockno (((bufs s)(i := X)) j) = blockno (((bufs s)(i := X)) k)" for j k
    using that assms(6) [of j] assms(6) [of k] binv_uniq [OF assms(1), of j k]
    by (cases "j = i"; cases "k = i") auto
  ultimately show ?thesis unfolding binv_def by auto
qed

lemma blks_update:
  assumes "i < NBUF"
  shows "(\<lambda>j. blockno ((B(i := X)) j)) ` {j. j < NBUF \<and> P ((B(i := X)) j)} =
    (if P X then {blockno X} else {}) \<union> (\<lambda>j. blockno (B j)) ` {j. j < NBUF \<and> j \<noteq> i \<and> P (B j)}"
proof -
  let ?S = "{j. j < NBUF \<and> j \<noteq> i \<and> P (B j)}"
  have "{j. j < NBUF \<and> P ((B(i := X)) j)} = (if P X then {i} else {}) \<union> ?S" using assms by (cases "P X") auto
  moreover have "(\<lambda>j. blockno ((B(i := X)) j)) ` ?S = (\<lambda>j. blockno (B j)) ` ?S" by (intro image_cong) auto
  ultimately show ?thesis by (simp only: image_Un) simp
qed

lemma blks_split: "i < NBUF \<Longrightarrow> (\<lambda>j. blockno (B j)) ` {j. j < NBUF \<and> P (B j)} =
    (if P (B i) then {blockno (B i)} else {}) \<union> (\<lambda>j. blockno (B j)) ` {j. j < NBUF \<and> j \<noteq> i \<and> P (B j)}"
  using blks_update [of i B "B i" P] by simp

definition grabbed :: "int \<Rightarrow> buf \<Rightarrow> buf" where
  "grabbed pid x = x\<lparr>refcnt := 1, b_lock := (b_lock x)\<lparr>sl_locked := True, sl_pid := pid\<rparr>\<rparr>"

definition loaded :: "nat \<Rightarrow> block \<Rightarrow> int \<Rightarrow> buf \<Rightarrow> buf" where
  "loaded b d pid x = x\<lparr>b_dev := 1, blockno := b, b_dirty := False, refcnt := 1,
     b_lock := (b_lock x)\<lparr>sl_locked := True, sl_pid := pid\<rparr>, b_data := d, b_valid := True\<rparr>"

lemma binv_lru: "binv s \<Longrightarrow> \<exists>xs. lru (bufs s) xs"
  by (simp add: binv_def)

lemma bread_hit:
  assumes "binv s" "i < NBUF" "b_valid (bufs s i)" "blockno (bufs s i) = b" "\<not> sl_locked (b_lock (bufs s i))"
  shows "bread 1 b s = Done i (setbuf i (grabbed (curpid s)) s)"
proof -
  obtain xs where xs: "lru (bufs s) xs" using binv_lru [OF assms(1)] by auto
  have "find (\<lambda>i. b_dev (bufs s i) = 1 \<and> blockno (bufs s i) = b) xs = Some i"
  proof (rule find_unique)
    show "i \<in> set xs" using xs assms(2) by (simp add: lru_def)
    show "b_dev (bufs s i) = 1 \<and> blockno (bufs s i) = b"
      using assms binv_ok [OF assms(1,2)] by (simp add: buf_ok_def)
    fix j assume j: "j \<in> set xs" "b_dev (bufs s j) = 1 \<and> blockno (bufs s j) = b"
    then have "j < NBUF" using xs by (auto simp: lru_def)
    then show "j = i" using j assms binv_ok [OF assms(1), of j] binv_uniq [OF assms(1), of j i]
      by (simp add: buf_ok_def)
  qed
  moreover have "refcnt (bufs s i) = 0" using assms binv_ok [OF assms(1,2)] by (simp add: buf_ok_def)
  ultimately show ?thesis
    using assms lru_walk_next [OF xs]
    by (simp add: bread_def bget_def block_lock_def acquiresleep_def kernel_defs setbuf_def grabbed_def)
qed

lemma bread_miss:
  assumes "binv s" "\<And>i. i < NBUF \<Longrightarrow> b_valid (bufs s i) \<Longrightarrow> blockno (bufs s i) \<noteq> b" "b < disksize s"
    and "\<exists>i<NBUF. refcnt (bufs s i) = 0 \<and> \<not> b_dirty (bufs s i)"
  shows "\<exists>i<NBUF. refcnt (bufs s i) = 0 \<and> \<not> b_dirty (bufs s i) \<and>
    bread 1 b s = Done i (setbuf i (loaded b (disk s b) (curpid s)) s)"
proof -
  obtain xs where xs: "lru (bufs s) xs" using binv_lru [OF assms(1)] by auto
  have miss: "find (\<lambda>i. b_dev (bufs s i) = 1 \<and> blockno (bufs s i) = b) xs = None"
    using assms(2) binv_ok [OF assms(1)] xs by (fastforce simp: find_None_iff lru_def buf_ok_def)
  have "find (\<lambda>i. refcnt (bufs s i) = 0 \<and> \<not> b_dirty (bufs s i)) (rev xs) \<noteq> None"
    using assms(4) xs by (auto simp: find_None_iff lru_def)
  then obtain i where i: "find (\<lambda>i. refcnt (bufs s i) = 0 \<and> \<not> b_dirty (bufs s i)) (rev xs) = Some i" by auto
  then have p: "i \<in> set (rev xs)" "refcnt (bufs s i) = 0" "\<not> b_dirty (bufs s i)"
    by (auto simp: find_Some_iff) (metis nth_mem length_rev set_rev)
  then have "i < NBUF" using xs by (auto simp: lru_def)
  moreover have "\<not> sl_locked (b_lock (bufs s i))"
    using p(2) binv_ok [OF assms(1) \<open>i < NBUF\<close>] by (simp add: buf_ok_def split: if_splits)
  ultimately have "bread 1 b s = Done i (setbuf i (loaded b (disk s b) (curpid s)) s)"
    using miss i p assms(3) lru_walk_next [OF xs] lru_walk_prev [OF xs]
    by (simp add: bread_def bget_def block_lock_def acquiresleep_def holdingsleep_def iderw_def
        kernel_defs setbuf_def loaded_def Let_def)
  then show ?thesis using \<open>i < NBUF\<close> p by auto
qed

lemma not_held: "b \<notin> heldblks s \<Longrightarrow> i < NBUF \<Longrightarrow> blockno (bufs s i) = b \<Longrightarrow> \<not> sl_locked (b_lock (bufs s i))"
  by (auto simp: heldblks_def)

lemma view_char:
  assumes "binv t" "\<And>j. j < NBUF \<Longrightarrow> b_valid (bufs t j) \<Longrightarrow> b_data (bufs t j) = V (blockno (bufs t j))"
    and "\<And>c. (\<And>j. j < NBUF \<Longrightarrow> b_valid (bufs t j) \<Longrightarrow> blockno (bufs t j) \<noteq> c) \<Longrightarrow> V c = disk t c"
  shows "view t = V"
proof
  fix c
  show "view t c = V c"
  proof (cases "\<exists>j<NBUF. b_valid (bufs t j) \<and> blockno (bufs t j) = c")
    case True
    then show ?thesis using assms(2) view_hit [OF assms(1)] by auto
  next
    case False
    then show ?thesis using assms(3) view_miss [of t c] by metis
  qed
qed

text \<open>The effect of replacing buffer \<open>i\<close> of \<open>s\<close> by \<open>X\<close> on the abstract view.\<close>

definition upd :: "nat \<Rightarrow> buf \<Rightarrow> 'x bstate_scheme \<Rightarrow> 'x bstate_scheme" where
  "upd i X s = s\<lparr>bufs := (bufs s)(i := X)\<rparr>"

lemma setbuf_upd: "setbuf i f s = upd i (f (bufs s i)) s"
  by (simp add: setbuf_def upd_def)

lemma upd_simps [simp]:
  "bufs (upd i X s) = (bufs s)(i := X)" "disk (upd i X s) = disk s" "disksize (upd i X s) = disksize s"
  "dtrace (upd i X s) = dtrace s" "curpid (upd i X s) = curpid s" "bstate.more (upd i X s) = bstate.more s"
  by (simp_all add: upd_def)

lemma brest_upd [simp]: "brest (upd i X s) = brest s"
  by (simp add: brest_def)

lemmas binv_upd = binv_update [folded upd_def]

lemma held_upd: "i < NBUF \<Longrightarrow> heldblks (upd i X s) =
    (if sl_locked (b_lock X) then {blockno X} else {}) \<union>
    (\<lambda>j. blockno (bufs s j)) ` {j. j < NBUF \<and> j \<noteq> i \<and> sl_locked (b_lock (bufs s j))}"
  unfolding heldblks_def using blks_update [of i "bufs s" X "\<lambda>b. sl_locked (b_lock b)"] by simp

lemma held_split: "i < NBUF \<Longrightarrow> heldblks s =
    (if sl_locked (b_lock (bufs s i)) then {blockno (bufs s i)} else {}) \<union>
    (\<lambda>j. blockno (bufs s j)) ` {j. j < NBUF \<and> j \<noteq> i \<and> sl_locked (b_lock (bufs s j))}"
  unfolding heldblks_def using blks_split [of i "bufs s" "\<lambda>b. sl_locked (b_lock b)"] by simp

lemma dirty_upd: "i < NBUF \<Longrightarrow> dirtyblks (upd i X s) =
    (if b_dirty X then {blockno X} else {}) \<union>
    (\<lambda>j. blockno (bufs s j)) ` {j. j < NBUF \<and> j \<noteq> i \<and> b_dirty (bufs s j)}"
  unfolding dirtyblks_def using blks_update [of i "bufs s" X b_dirty] by simp

lemma dirty_split: "i < NBUF \<Longrightarrow> dirtyblks s =
    (if b_dirty (bufs s i) then {blockno (bufs s i)} else {}) \<union>
    (\<lambda>j. blockno (bufs s j)) ` {j. j < NBUF \<and> j \<noteq> i \<and> b_dirty (bufs s j)}"
  unfolding dirtyblks_def using blks_split [of i "bufs s" b_dirty] by simp

lemma other_blk: "binv s \<Longrightarrow> i < NBUF \<Longrightarrow> b_valid (bufs s i) \<Longrightarrow>
    j < NBUF \<Longrightarrow> j \<noteq> i \<Longrightarrow> b_dirty (bufs s j) \<or> sl_locked (b_lock (bufs s j)) \<or> b_valid (bufs s j) \<Longrightarrow>
    blockno (bufs s j) \<noteq> blockno (bufs s i)"
  using binv_uniq [of s i j] binv_ok [of s j] by (auto simp: buf_ok_def)

lemma bread_hit_abs:
  assumes "binv s" "i < NBUF" "b_valid (bufs s i)" "\<not> sl_locked (b_lock (bufs s i))"
  defines "t \<equiv> upd i (grabbed (curpid s) (bufs s i)) s"
  shows "binv t \<and> babs t = a_hold (blockno (bufs s i)) (babs s)"
proof -
  have ok: "buf_ok (disksize s) (disk s) (grabbed (curpid s) (bufs s i))"
    using binv_ok [OF assms(1,2)] assms(3,4) by (auto simp: buf_ok_def grabbed_def)
  have inv: "binv t" unfolding t_def
    using assms(3) by (intro binv_upd [OF assms(1,2) _ _ ok]) (auto simp: grabbed_def dest: other_blk [OF assms(1-3)])
  have "view t = view s"
  proof (rule view_char [OF inv])
    show "b_data (bufs t j) = view s (blockno (bufs t j))" if "j < NBUF" "b_valid (bufs t j)" for j
      using that view_hit [OF assms(1), of j] view_hit [OF assms(1,2)] assms(3)
      by (cases "j = i") (auto simp: t_def grabbed_def)
    show "view s c = disk t c" if "\<And>j. j < NBUF \<Longrightarrow> b_valid (bufs t j) \<Longrightarrow> blockno (bufs t j) \<noteq> c" for c
      unfolding t_def upd_simps
    proof (rule view_miss)
      show "blockno (bufs s j) \<noteq> c" if "j < NBUF" "b_valid (bufs s j)" for j
        using that \<open>j < NBUF\<close> \<open>\<And>j. j < NBUF \<Longrightarrow> b_valid (bufs t j) \<Longrightarrow> blockno (bufs t j) \<noteq> c\<close> [of j]
        by (cases "j = i") (auto simp: t_def grabbed_def)
    qed
  qed
  moreover have "heldblks t = insert (blockno (bufs s i)) (heldblks s)"
    using assms(4) held_split [OF assms(2), of s] by (simp add: t_def held_upd [OF assms(2)] grabbed_def)
  moreover have "dirtyblks t = dirtyblks s"
    using dirty_split [OF assms(2), of s] by (simp add: t_def dirty_upd [OF assms(2)] grabbed_def)
  ultimately show ?thesis using inv by (simp add: babs_def a_hold_def t_def)
qed

lemma bread_miss_abs:
  assumes "binv s" "i < NBUF" "refcnt (bufs s i) = 0" "\<not> b_dirty (bufs s i)"
    and miss: "\<And>j. j < NBUF \<Longrightarrow> b_valid (bufs s j) \<Longrightarrow> blockno (bufs s j) \<noteq> b" and "b < disksize s"
  defines "t \<equiv> upd i (loaded b (disk s b) (curpid s) (bufs s i)) s"
  shows "binv t \<and> babs t = a_hold b (babs s)"
proof -
  have unl: "\<not> sl_locked (b_lock (bufs s i))"
    using assms(3) binv_ok [OF assms(1,2)] by (simp add: buf_ok_def split: if_splits)
  have ok: "buf_ok (disksize s) (disk s) (loaded b (disk s b) (curpid s) (bufs s i))"
    using assms(6) by (auto simp: buf_ok_def loaded_def)
  have inv: "binv t" unfolding t_def
    using miss by (intro binv_upd [OF assms(1,2) _ _ ok]) (auto simp: loaded_def)
  have vb: "view s b = disk s b" using miss by (rule view_miss)
  have "view t = view s"
  proof (rule view_char [OF inv])
    show "b_data (bufs t j) = view s (blockno (bufs t j))" if "j < NBUF" "b_valid (bufs t j)" for j
      using that view_hit [OF assms(1), of j] vb by (cases "j = i") (auto simp: t_def loaded_def)
    fix c
    assume nc: "\<And>j. j < NBUF \<Longrightarrow> b_valid (bufs t j) \<Longrightarrow> blockno (bufs t j) \<noteq> c"
    show "view s c = disk t c"
    proof (cases "b_valid (bufs s i) \<and> blockno (bufs s i) = c")
      case True
      then have "view s c = b_data (bufs s i)" using view_hit [OF assms(1,2)] by simp
      then show ?thesis using True unl assms(4) binv_ok [OF assms(1,2)] by (simp add: t_def buf_ok_def)
    next
      case False
      have "blockno (bufs s j) \<noteq> c" if "j < NBUF" "b_valid (bufs s j)" for j
        using that nc [of j] False by (cases "j = i") (auto simp: t_def)
      then have "view s c = disk s c" by (rule view_miss)
      then show ?thesis by (simp add: t_def)
    qed
  qed
  moreover have "heldblks t = insert b (heldblks s)"
    using unl held_split [OF assms(2), of s] by (simp add: t_def held_upd [OF assms(2)] loaded_def)
  moreover have "dirtyblks t = dirtyblks s"
    using assms(4) dirty_split [OF assms(2), of s] by (simp add: t_def dirty_upd [OF assms(2)] loaded_def)
  ultimately show ?thesis using inv by (simp add: babs_def a_hold_def t_def)
qed

lemma bhold_upd:
  "bhold s j c \<Longrightarrow> j \<noteq> i \<or> (b_valid X \<and> blockno X = c \<and> b_lock X = b_lock (bufs s i)) \<Longrightarrow> bhold (upd i X s) j c"
  by (auto simp: bhold_def)

lemma bhold_locked: "bhold s j c \<Longrightarrow> sl_locked (b_lock (bufs s j)) \<and> j < NBUF \<and> b_valid (bufs s j) \<and> blockno (bufs s j) = c"
  by (simp add: bhold_def holdingsleep_def)

lemma bread_ok:
  assumes "binv s" "room (babs s) b"
  shows "wp (bread 1 b) (\<lambda>i t. binv t \<and> bhold t i b \<and> (\<forall>j c. bhold s j c \<longrightarrow> bhold t j c) \<and>
     babs t = a_hold b (babs s) \<and> brest t = brest s) s"
proof -
  have r: "b < disksize s" "b \<notin> heldblks s" "b \<in> dirtyblks s \<or> card (heldblks s \<union> dirtyblks s) < NBUF"
    using assms(2) by (auto simp: room_def babs_def)
  show ?thesis
  proof (cases "\<exists>i<NBUF. b_valid (bufs s i) \<and> blockno (bufs s i) = b")
    case True
    then obtain i where i: "i < NBUF" "b_valid (bufs s i)" "blockno (bufs s i) = b" by auto
    have unl: "\<not> sl_locked (b_lock (bufs s i))" using not_held [OF r(2) i(1,3)] .
    let ?t = "upd i (grabbed (curpid s) (bufs s i)) s"
    have "bread 1 b s = Done i ?t" using bread_hit [OF assms(1) i unl] by (simp add: setbuf_upd)
    moreover have "binv ?t \<and> babs ?t = a_hold b (babs s)" using bread_hit_abs [OF assms(1) i(1,2) unl] i(3) by simp
    moreover have "bhold ?t i b" using i by (simp add: bhold_def grabbed_def holdingsleep_def)
    moreover have "bhold ?t j c" if "bhold s j c" for j c
      using that unl bhold_locked [OF that] by (intro bhold_upd) auto
    ultimately show ?thesis by (simp add: wp_def)
  next
    case False
    have "b \<notin> dirtyblks s" using False binv_ok [OF assms(1)] by (auto simp: dirtyblks_def buf_ok_def)
    then have "\<exists>i<NBUF. refcnt (bufs s i) = 0 \<and> \<not> b_dirty (bufs s i)" using r(3) by (intro free_buffer [OF assms(1)]) simp
    then obtain i where i: "i < NBUF" "refcnt (bufs s i) = 0" "\<not> b_dirty (bufs s i)"
      "bread 1 b s = Done i (setbuf i (loaded b (disk s b) (curpid s)) s)"
      using bread_miss [OF assms(1) _ r(1)] False by auto
    let ?t = "upd i (loaded b (disk s b) (curpid s) (bufs s i)) s"
    have unl: "\<not> sl_locked (b_lock (bufs s i))"
      using i(2) binv_ok [OF assms(1) i(1)] by (simp add: buf_ok_def split: if_splits)
    have "binv ?t \<and> babs ?t = a_hold b (babs s)" using False by (intro bread_miss_abs [OF assms(1) i(1-3) _ r(1)]) auto
    moreover have "bhold ?t i b" using i by (simp add: bhold_def loaded_def holdingsleep_def)
    moreover have "bhold ?t j c" if "bhold s j c" for j c
      using that unl bhold_locked [OF that] by (intro bhold_upd) auto
    ultimately show ?thesis using i(4) by (simp add: wp_def setbuf_upd)
  qed
qed

text \<open>Changing the fields of a held buffer other than its identity and its lock.\<close>

lemma held_change:
  assumes "binv s" "bhold s i b" "blockno X = b" "b_valid X" "b_dev X = 1" "b_lock X = b_lock (bufs s i)"
    "refcnt X = refcnt (bufs s i)" "b_next X = b_next (bufs s i)" "b_prev X = b_prev (bufs s i)"
  defines "t \<equiv> upd i X s"
  shows "binv t" "\<forall>j c. bhold s j c \<longrightarrow> bhold t j c" "view t = (view s)(b := b_data X)"
    "heldblks t = heldblks s" "dirtyblks t = (if b_dirty X then insert b (dirtyblks s) else dirtyblks s - {b})"
proof -
  have i: "sl_locked (b_lock (bufs s i))" "i < NBUF" "b_valid (bufs s i)" "blockno (bufs s i) = b"
    using bhold_locked [OF assms(2)] by auto
  have ok: "buf_ok (disksize s) (disk s) X"
    using binv_ok [OF assms(1) i(2)] i assms by (auto simp: buf_ok_def)
  show inv: "binv t" unfolding t_def
    using assms i by (intro binv_upd [OF assms(1) i(2) _ _ ok]) (auto dest: other_blk [OF assms(1) i(2,3)])
  show "\<forall>j c. bhold s j c \<longrightarrow> bhold t j c"
    unfolding t_def using assms i by (auto intro!: bhold_upd dest: bhold_locked)
  show "heldblks t = heldblks s"
    using assms i held_split [OF i(2), of s] by (simp add: t_def held_upd [OF i(2)])
  have "b \<notin> (\<lambda>j. blockno (bufs s j)) ` {j. j < NBUF \<and> j \<noteq> i \<and> b_dirty (bufs s j)}"
  proof
    assume "b \<in> (\<lambda>j. blockno (bufs s j)) ` {j. j < NBUF \<and> j \<noteq> i \<and> b_dirty (bufs s j)}"
    then obtain j where "j < NBUF" "j \<noteq> i" "b_dirty (bufs s j)" "b = blockno (bufs s j)" by auto
    then show False using other_blk [OF assms(1) i(2,3), of j] i(4) by simp
  qed
  then show "dirtyblks t = (if b_dirty X then insert b (dirtyblks s) else dirtyblks s - {b})"
    using assms(3) i(4) dirty_split [OF i(2), of s] by (simp add: t_def dirty_upd [OF i(2)])
  show "view t = (view s)(b := b_data X)"
  proof (rule view_char [OF inv])
    show "b_data (bufs t j) = ((view s)(b := b_data X)) (blockno (bufs t j))" if "j < NBUF" "b_valid (bufs t j)" for j
      using that assms(3) i view_hit [OF assms(1), of j] other_blk [OF assms(1) i(2,3), of j]
      by (cases "j = i") (auto simp: t_def)
    fix c
    assume nc: "\<And>j. j < NBUF \<Longrightarrow> b_valid (bufs t j) \<Longrightarrow> blockno (bufs t j) \<noteq> c"
    have "blockno (bufs s j) \<noteq> c" if "j < NBUF" "b_valid (bufs s j)" for j
      using that nc [of j] assms(3,4) i(4) by (cases "j = i") (auto simp: t_def)
    then have "view s c = disk s c" by (rule view_miss)
    moreover have "c \<noteq> b" using nc [OF i(2)] assms(3,4) by (auto simp: t_def)
    ultimately show "((view s)(b := b_data X)) c = disk t c" by (simp add: t_def)
  qed
qed

lemma bdata_ok: "binv s \<Longrightarrow> bhold s i b \<Longrightarrow> wp (bdata i) (\<lambda>d t. d = a_view (babs s) b \<and> t = s) s"
  using view_hit [of s i] bhold_locked [of s i b] by (auto simp: bdata_def babs_def)

lemma bmodify_ok:
  assumes "binv s" "bhold s i b"
  shows "wp (bmodify i f) (\<lambda>_ t. binv t \<and> (\<forall>j c. bhold s j c \<longrightarrow> bhold t j c) \<and>
     babs t = a_store b (f (a_view (babs s) b)) (babs s) \<and> brest t = brest s) s"
proof -
  let ?X = "(bufs s i)\<lparr>b_data := f (b_data (bufs s i))\<rparr>"
  note h = bhold_locked [OF assms(2)]
  have dev: "b_dev (bufs s i) = 1" using h binv_ok [OF assms(1), of i] by (auto simp: buf_ok_def)
  have d: "b_data (bufs s i) = view s b" using h view_hit [OF assms(1), of i] by auto
  have dd: "dirtyblks s = (if b_dirty (bufs s i) then insert b (dirtyblks s) else dirtyblks s - {b})"
    using held_change(5) [OF assms, of "bufs s i"] h dev by (auto simp: upd_def)
  have eq: "bmodify i f s = Done () (upd i ?X s)" by (simp add: bmodify_def kmod_def setbuf_upd)
  note c = held_change [OF assms, of ?X]
  show ?thesis using c h dev d dd unfolding wp_def eq
    by (simp add: babs_def a_store_def)
qed

lemma binv_home:
  assumes "binv s" "bhold s i b" "b_data (bufs s i) = d"
  shows "binv (s\<lparr>disk := (disk s)(b := d), dtrace := tr\<rparr>)"
proof -
  have i: "sl_locked (b_lock (bufs s i))" "i < NBUF" "b_valid (bufs s i)" "blockno (bufs s i) = b"
    using bhold_locked [OF assms(2)] by auto
  have "buf_ok (disksize s) ((disk s)(b := d)) (bufs s j)" if "j < NBUF" for j
    using binv_ok [OF assms(1) that] other_blk [OF assms(1) i(2,3) that] i by (cases "j = i") (auto simp: buf_ok_def)
  then show ?thesis using assms(1) by (simp add: binv_def)
qed

lemma bwrite_ok:
  assumes "binv s" "bhold s i b"
  shows "wp (bwrite i) (\<lambda>_ t. binv t \<and> (\<forall>j c. bhold s j c \<longrightarrow> bhold t j c) \<and>
     babs t = a_flush b (babs s) \<and> brest t = brest s) s"
proof -
  let ?X = "(bufs s i)\<lparr>b_dirty := False, b_valid := True\<rparr>"
  let ?u = "upd i ?X s" and ?d = "b_data (bufs s i)"
  let ?t = "?u\<lparr>disk := (disk s)(b := ?d), dtrace := dtrace s @ [(b, ?d)]\<rparr>"
  note h = bhold_locked [OF assms(2)]
  have dev: "b_dev (bufs s i) = 1" "b < disksize s" using h binv_ok [OF assms(1), of i] by (auto simp: buf_ok_def)
  have d: "?d = view s b" using h view_hit [OF assms(1), of i] by auto
  have eq: "bwrite i s = Done () ?t"
    using assms(2) h dev by (simp add: bwrite_def iderw_def kernel_defs setbuf_def upd_def bhold_def Let_def)
  note c = held_change [OF assms, of ?X]
  have c': "binv ?u" "\<forall>j c. bhold s j c \<longrightarrow> bhold ?u j c" "view ?u = (view s)(b := ?d)"
    "heldblks ?u = heldblks s" "dirtyblks ?u = dirtyblks s - {b}" using c h dev by simp_all
  have inv: "binv ?t" using binv_home [OF c'(1), of i b ?d] c'(2) assms(2) by simp
  have "view ?t = view s"
  proof (rule view_char [OF inv])
    show "b_data (bufs ?t j) = view s (blockno (bufs ?t j))" if "j < NBUF" "b_valid (bufs ?t j)" for j
      using that view_hit [OF assms(1), of j] h d by (cases "j = i") auto
    fix c
    assume nc: "\<And>j. j < NBUF \<Longrightarrow> b_valid (bufs ?t j) \<Longrightarrow> blockno (bufs ?t j) \<noteq> c"
    have "blockno (bufs s j) \<noteq> c" if "j < NBUF" "b_valid (bufs s j)" for j
      using that nc [of j] by (cases "j = i") auto
    then have "view s c = disk s c" by (rule view_miss)
    moreover have "c \<noteq> b" using nc [of i] h by auto
    ultimately show "view s c = disk ?t c" by simp
  qed
  moreover have "heldblks ?t = heldblks s" "dirtyblks ?t = dirtyblks s - {b}"
    using c'(4,5) by (simp_all add: heldblks_def dirtyblks_def)
  moreover have "\<forall>j c. bhold s j c \<longrightarrow> bhold ?t j c" using c'(2) by (simp add: bhold_def)
  ultimately show ?thesis using inv d unfolding wp_def eq by (simp add: babs_def a_flush_def brest_def)
qed

lemma bcore_set [simp]: "bcore (set_next p q B j) = bcore (B j)" "bcore (set_prev p q B j) = bcore (B j)"
  by (simp_all add: set_next_def set_prev_def bcore_def)

lemma bcore_mru [simp]: "bcore (mru i B j) = bcore (B j)"
  by (simp add: mru_def Let_def)

lemma bcore_fields:
  assumes "bcore a = bcore b"
  shows "b_valid a = b_valid b" "b_dirty a = b_dirty b" "b_dev a = b_dev b" "blockno a = blockno b"
    "b_lock a = b_lock b" "refcnt a = refcnt b" "b_data a = b_data b"
  using assms by (cases a; cases b; simp add: bcore_def)+

text \<open>Relinking the recency list is invisible to clients.\<close>

lemma relink:
  assumes "binv s" "lru C xs" "\<And>j. bcore (C j) = bcore (bufs s j)"
  shows "binv (s\<lparr>bufs := C\<rparr>)" "babs (s\<lparr>bufs := C\<rparr>) = babs s" "bhold (s\<lparr>bufs := C\<rparr>) = bhold s"
proof -
  note f = bcore_fields [OF assms(3)]
  show "binv (s\<lparr>bufs := C\<rparr>)" using assms(1,2) by (auto simp: binv_def buf_ok_def f)
  show "babs (s\<lparr>bufs := C\<rparr>) = babs s"
    by (simp add: babs_def view_def slot_def heldblks_def dirtyblks_def f fun_eq_iff split: option.split)
  show "bhold (s\<lparr>bufs := C\<rparr>) = bhold s" by (simp add: bhold_def f fun_eq_iff)
qed

lemma lru_split: "lru B xs \<Longrightarrow> i < NBUF \<Longrightarrow> \<exists>ys zs. xs = ys @ i # zs"
  by (auto simp: lru_def intro: split_list)

lemma brelse_ok:
  assumes "binv s" "bhold s i b" "b \<in> a_dirty (babs s) \<or> a_view (babs s) b = a_home (babs s) b"
  shows "wp (brelse i) (\<lambda>_ t. binv t \<and> (\<forall>j c. bhold s j c \<longrightarrow> c \<noteq> b \<longrightarrow> bhold t j c) \<and>
     babs t = a_release b (babs s) \<and> brest t = brest s) s"
proof -
  let ?X = "(bufs s i)\<lparr>b_lock := releasesleep (b_lock (bufs s i)), refcnt := 0\<rparr>"
  let ?u = "upd i ?X s"
  note h = bhold_locked [OF assms(2)]
  have k: "refcnt (bufs s i) = 1" "b_dev (bufs s i) = 1" "b < disksize s"
    using h binv_ok [OF assms(1), of i] by (auto simp: buf_ok_def)
  have d: "b_data (bufs s i) = view s b" using h view_hit [OF assms(1), of i] by auto
  have dd: "dirtyblks s = (if b_dirty (bufs s i) then insert b (dirtyblks s) else dirtyblks s - {b})"
    using held_change(5) [OF assms(1,2), of "bufs s i"] h k by (auto simp: upd_def)
  then have cl: "b_dirty (bufs s i) \<or> b_data (bufs s i) = disk s b"
    using assms(3) d by (auto simp: babs_def split: if_splits)
  have ok: "buf_ok (disksize s) (disk s) ?X" using h k cl by (auto simp: buf_ok_def releasesleep_def)
  have inv: "binv ?u" using h by (intro binv_upd [OF assms(1) _ _ _ ok]) (auto dest: other_blk [OF assms(1)])
  have vu: "view ?u = view s"
  proof (rule view_char [OF inv])
    show "b_data (bufs ?u j) = view s (blockno (bufs ?u j))" if "j < NBUF" "b_valid (bufs ?u j)" for j
      using that view_hit [OF assms(1), of j] h d by (cases "j = i") auto
    fix c
    assume nc: "\<And>j. j < NBUF \<Longrightarrow> b_valid (bufs ?u j) \<Longrightarrow> blockno (bufs ?u j) \<noteq> c"
    have "blockno (bufs s j) \<noteq> c" if "j < NBUF" "b_valid (bufs s j)" for j
      using that nc [of j] by (cases "j = i") auto
    then show "view s c = disk ?u c" using view_miss [of s c] by simp
  qed
  have "b \<notin> (\<lambda>j. blockno (bufs s j)) ` {j. j < NBUF \<and> j \<noteq> i \<and> sl_locked (b_lock (bufs s j))}"
  proof
    assume "b \<in> (\<lambda>j. blockno (bufs s j)) ` {j. j < NBUF \<and> j \<noteq> i \<and> sl_locked (b_lock (bufs s j))}"
    then obtain j where "j < NBUF" "j \<noteq> i" "sl_locked (b_lock (bufs s j))" "b = blockno (bufs s j)" by auto
    then show False using other_blk [OF assms(1), of i j] h by simp
  qed
  then have hu: "heldblks ?u = heldblks s - {b}"
    using h held_split [of i s] held_upd [of i ?X s] by (simp add: releasesleep_def)
  have du: "dirtyblks ?u = dirtyblks s" using h dirty_split [of i s] dirty_upd [of i ?X s] by simp
  have au: "babs ?u = a_release b (babs s)" using vu hu du by (simp add: babs_def a_release_def)
  obtain xs where xs: "lru (bufs ?u) xs" using binv_lru [OF inv] by auto
  then obtain ys zs where "xs = ys @ i # zs" using lru_split h by blast
  then have l: "lru (mru i (bufs ?u)) (i # ys @ zs)" using xs lru_mru by blast
  define C where "C = mru i (bufs ?u)"
  note r = relink [OF inv l [folded C_def]]
  have core: "bcore (C j) = bcore (bufs ?u j)" for j by (simp only: C_def bcore_mru)
  have eq: "brelse i s = Done () (?u\<lparr>bufs := C\<rparr>)"
    using assms(2) k by (simp add: brelse_def kernel_defs setbuf_upd bhold_def C_def)
  have "bhold ?u j c" if "bhold s j c" "c \<noteq> b" for j c
    using that h bhold_locked [OF that(1)] by (intro bhold_upd) auto
  then show ?thesis unfolding wp_def eq using r [OF core] au by (simp add: brest_def)
qed

interpretation bc: block_cache "bread 1" bdata bmodify brelse binv bhold babs brest bwrite
proof unfold_locales
  fix s :: "'x bstate_scheme" and b
  assume a: "binv s" "b \<notin> a_dirty (babs s)" "b \<notin> a_held (babs s)"
  show "a_view (babs s) b = a_home (babs s) b"
    using view_clean [of s b] a by (simp add: babs_def)
next
  fix s :: "'x bstate_scheme" and i b
  assume a: "binv s" "bhold s i b"
  show "b \<in> a_held (babs s) \<and> b < a_size (babs s)"
    using bhold_locked [OF a(2)] binv_ok [OF a(1), of i] by (auto simp: babs_def heldblks_def buf_ok_def)
next
  fix s :: "'x bstate_scheme"
  show "finite (a_held (babs s) \<union> a_dirty (babs s))" by (simp add: babs_def finite_blks)
qed (rule bread_ok bdata_ok bmodify_ok bwrite_ok brelse_ok; assumption)+


section \<open>Start-up\<close>

text \<open>
  A buffer array as the loader leaves it (zeroed memory), and the state it starts in. The
  kernel's \<^verbatim>\<open>main\<close> runs \<open>binit\<close> on it before any block is read.
\<close>

definition zero_buf :: buf where
  "zero_buf = \<lparr>b_valid = False, b_dirty = False, b_dev = 0, blockno = 0,
     b_lock = \<lparr>sl_locked = False, sl_pid = 0\<rparr>, refcnt = 0, b_prev = 0, b_next = 0,
     b_data = zero_block\<rparr>"

lemma core_set_lock:
  "bcore x = bcore zero_buf \<Longrightarrow> bcore (x\<lparr>b_lock := initsleeplock (b_lock x)\<rparr>) = bcore zero_buf"
  by (cases x) (simp add: bcore_def zero_buf_def initsleeplock_def)

lemma binit_one_core:
  assumes "\<forall>j. bcore (B j) = bcore zero_buf"
  shows "\<forall>j. bcore (binit_one b B j) = bcore zero_buf"
proof -
  define C where "C = set_prev b NBUF (set_next b (b_next (B NBUF)) B)"
  have C: "bcore (C j) = bcore zero_buf" for j using assms by (simp add: C_def)
  define D where "D = C(b := (C b)\<lparr>b_lock := initsleeplock (b_lock (C b))\<rparr>)"
  have D: "bcore (D j) = bcore zero_buf" for j using C core_set_lock [OF C] by (simp add: D_def)
  have "binit_one b B = set_next NBUF b (set_prev (b_next (D NBUF)) b D)"
    by (simp add: binit_one_def Let_def C_def D_def)
  then show ?thesis using D by simp
qed

lemma binit_core:
  "\<forall>j. bcore (B j) = bcore zero_buf \<Longrightarrow> \<forall>j. bcore (fold binit_one xs B j) = bcore zero_buf"
proof (induction xs arbitrary: B)
  case Nil
  then show ?case by simp
next
  case (Cons x xs)
  then show ?case using binit_one_core [OF Cons.prems] by simp
qed

lemma cold_inv:
  assumes "lru C xs" "\<And>j. bcore (C j) = bcore zero_buf"
  shows "binv (s\<lparr>bufs := C\<rparr>)" "babs (s\<lparr>bufs := C\<rparr>) = \<lparr>a_size = disksize s, a_view = disk s,
     a_home = disk s, a_trace = dtrace s, a_held = {}, a_dirty = {}\<rparr>"
proof -
  have f: "\<not> b_valid (C j)" "\<not> b_dirty (C j)" "b_dev (C j) = 0" "\<not> sl_locked (b_lock (C j))" "refcnt (C j) = 0" for j
    using bcore_fields [OF assms(2) [of j]] by (simp_all add: zero_buf_def)
  show "binv (s\<lparr>bufs := C\<rparr>)" using assms(1) by (auto simp: binv_def buf_ok_def f)
  have "slot (s\<lparr>bufs := C\<rparr>) b = None" for b by (rule slot_None) (simp add: f)
  then show "babs (s\<lparr>bufs := C\<rparr>) = \<lparr>a_size = disksize s, a_view = disk s,
     a_home = disk s, a_trace = dtrace s, a_held = {}, a_dirty = {}\<rparr>"
    by (simp add: babs_def view_def heldblks_def dirtyblks_def f fun_eq_iff)
qed

lemma binit_ok:
  assumes "\<And>j. bcore (bufs s j) = bcore zero_buf"
  shows "wp binit (\<lambda>_ t. lru (bufs t) (rev [0..<NBUF]) \<and> binv t \<and> brest t = brest s \<and>
     babs t = \<lparr>a_size = disksize s, a_view = disk s, a_home = disk s, a_trace = dtrace s,
       a_held = {}, a_dirty = {}\<rparr>) s"
proof -
  define B where "B = set_next NBUF NBUF (set_prev NBUF NBUF (bufs s))"
  define C where "C = fold binit_one [0..<NBUF] B"
  have l: "lru C (rev [0..<NBUF])" unfolding C_def by (rule binit_lru) (simp_all add: B_def)
  have "\<forall>j. bcore (C j) = bcore zero_buf"
    unfolding C_def by (rule binit_core) (simp add: B_def assms)
  then have c: "\<And>j. bcore (C j) = bcore zero_buf" by blast
  have "binit s = Done () (s\<lparr>bufs := C\<rparr>)" by (simp add: binit_def kmod_def C_def B_def)
  then show ?thesis using l cold_inv [OF l c, of s] by (simp add: wp_def brest_def)
qed

section \<open>Properties\<close>

definition boot_state :: "(nat \<Rightarrow> block) \<Rightarrow> nat \<Rightarrow> int \<Rightarrow> bstate" where
  "boot_state d n pid = \<lparr>disk = d, disksize = n, dtrace = [], bufs = \<lambda>_. zero_buf, curpid = pid\<rparr>"

text \<open>A cache that has just been initialised, for concrete instances.\<close>

definition fresh :: "nat \<Rightarrow> bstate" where
  "fresh n = final (binit (boot_state (\<lambda>b. mkblk (\<lambda>_. of_nat b)) n 1))"

lemma fresh_ok: "binv (fresh n)" "lru (bufs (fresh n)) (rev [0..<NBUF])"
  "babs (fresh n) = \<lparr>a_size = n, a_view = \<lambda>b. mkblk (\<lambda>_. of_nat b), a_home = \<lambda>b. mkblk (\<lambda>_. of_nat b),
     a_trace = [], a_held = {}, a_dirty = {}\<rparr>" "curpid (fresh n) = 1"
proof -
  have "wp binit (\<lambda>_ t. lru (bufs t) (rev [0..<NBUF]) \<and> binv t \<and> curpid t = 1 \<and>
     babs t = \<lparr>a_size = n, a_view = \<lambda>b. mkblk (\<lambda>_. of_nat b), a_home = \<lambda>b. mkblk (\<lambda>_. of_nat b),
     a_trace = [], a_held = {}, a_dirty = {}\<rparr>) (boot_state (\<lambda>b. mkblk (\<lambda>_. of_nat b)) n 1)"
    using binit_ok [of "boot_state (\<lambda>b. mkblk (\<lambda>_. of_nat b)) n 1"]
    by (rule wp_conseq) (auto simp: boot_state_def brest_def)
  then show "binv (fresh n)" "lru (bufs (fresh n)) (rev [0..<NBUF])"
    "babs (fresh n) = \<lparr>a_size = n, a_view = \<lambda>b. mkblk (\<lambda>_. of_nat b), a_home = \<lambda>b. mkblk (\<lambda>_. of_nat b),
     a_trace = [], a_held = {}, a_dirty = {}\<rparr>" "curpid (fresh n) = 1"
    by (auto simp: wp_Done fresh_def)
qed


lemma fresh_room: "b < n \<Longrightarrow> room (babs (fresh n)) b"
  by (simp add: fresh_ok room_def NBUF_num)

text \<open>
  \<open>binit\<close> on zeroed buffers links all \<^const>\<open>NBUF\<close> buffers and the head into one circular
  doubly linked list, the last buffer first, and establishes the cache invariant: every block
  then reads as its content on the disk and no buffer is held or pinned.
\<close>

theorem binit_establishes:
  assumes "\<And>j. bcore (bufs s j) = bcore zero_buf"
  shows "wp binit (\<lambda>_ t. lru (bufs t) (rev [0..<NBUF]) \<and> binv t \<and> view t = disk s \<and>
     disk t = disk s \<and> heldblks t = {} \<and> dirtyblks t = {} \<and> brest t = brest s) s"
  using binit_ok [OF assms] by (rule wp_conseq) (auto simp: babs_def)

theorem binit_establishes_witness:
  "wp binit (\<lambda>_ t. lru (bufs t) (rev [0..<NBUF]) \<and> binv t \<and> view t = (\<lambda>_. zero_block) \<and>
     disk t = (\<lambda>_. zero_block) \<and> heldblks t = {} \<and> dirtyblks t = {} \<and> brest t = (1, ()))
     (boot_state (\<lambda>_. zero_block) 1000 1)"
  using binit_establishes [of "boot_state (\<lambda>_. zero_block) 1000 1"]
  by (simp add: boot_state_def brest_def)

text \<open>
  C7: Reading a block through the cache never fails while a buffer can be found for it, and
  the caller gets the block's logical content in a buffer it has locked. The read changes
  nothing a client can observe except that the block is now held: contents, pinned blocks,
  the disk and the other held buffers stay the same.
\<close>

theorem bread_returns_view:
  assumes "binv s" "room (babs s) b"
  shows "wp (kbind (bread 1 b) (\<lambda>i. kbind (bdata i) (\<lambda>d. kret (i, d))))
     (\<lambda>(i, d) t. d = view s b \<and> bhold t i b \<and> binv t \<and> view t = view s \<and> disk t = disk s \<and>
        heldblks t = insert b (heldblks s) \<and> dirtyblks t = dirtyblks s \<and>
        (\<forall>j c. bhold s j c \<longrightarrow> bhold t j c)) s"
proof -
  have *: "wp (bdata i) (\<lambda>d u. d = view s b \<and> u = t) t"
    if "binv t" "bhold t i b" "babs t = a_hold b (babs s)" for i t
    using bdata_ok [OF that(1,2)] that(3) by (simp add: babs_def a_hold_def)
  show ?thesis
    apply (subst wp_kbind)
    apply (rule wp_conseq [OF bc.bread_law [OF assms]])
    apply (subst wp_kbind)
    apply (rule wp_conseq [OF *])
       apply (auto simp: babs_def a_hold_def)
    done
qed

theorem bread_returns_view_witness:
  "wp (kbind (bread 1 7) (\<lambda>i. kbind (bdata i) (\<lambda>d. kret (i, d))))
     (\<lambda>(i, d) t. d = view (fresh 1000) 7 \<and> bhold t i 7 \<and> binv t \<and> view t = view (fresh 1000) \<and>
        disk t = disk (fresh 1000) \<and> heldblks t = insert 7 (heldblks (fresh 1000)) \<and>
        dirtyblks t = dirtyblks (fresh 1000) \<and> (\<forall>j c. bhold (fresh 1000) j c \<longrightarrow> bhold t j c)) (fresh 1000)"
  by (rule bread_returns_view [OF fresh_ok(1) fresh_room]) simp

text \<open>
  On a miss, \<open>bget\<close> takes the least recently used buffer that is neither referenced nor
  pinned (scanning from the tail of the recency list), gives it the new identity, clears its
  flags and returns it locked; no other buffer changes. When every buffer is referenced or
  pinned it panics.
\<close>

theorem bget_recycles_lru:
  assumes "lru (bufs s) xs" "\<forall>i\<in>set xs. \<not> (b_dev (bufs s i) = dev \<and> blockno (bufs s i) = bn)"
  shows "(\<forall>ys i zs. xs = ys @ i # zs \<longrightarrow> refcnt (bufs s i) = 0 \<longrightarrow> \<not> b_dirty (bufs s i) \<longrightarrow>
       (\<forall>j\<in>set zs. refcnt (bufs s j) \<noteq> 0 \<or> b_dirty (bufs s j)) \<longrightarrow>
       bget dev bn s = block_lock i (setbuf i (\<lambda>b. b\<lparr>b_dev := dev, blockno := bn,
          b_valid := False, b_dirty := False, refcnt := 1\<rparr>) s)) \<and>
     ((\<forall>i\<in>set xs. refcnt (bufs s i) \<noteq> 0 \<or> b_dirty (bufs s i)) \<longrightarrow>
       bget dev bn s = Panic ''bget: no buffers'')"
proof -
  have m: "find (\<lambda>i. b_dev (bufs s i) = dev \<and> blockno (bufs s i) = bn) xs = None"
    using assms(2) by (auto simp: find_None_iff)
  have tail: "find P (rev zs @ i # us) = Some i" if "P i" "\<forall>j\<in>set zs. \<not> P j" for P :: "nat \<Rightarrow> bool" and zs i us
    using that by (induction zs rule: rev_induct) auto
  have none: "(\<forall>i\<in>set xs. refcnt (bufs s i) \<noteq> 0 \<or> b_dirty (bufs s i)) \<Longrightarrow>
     find (\<lambda>i. refcnt (bufs s i) = 0 \<and> \<not> b_dirty (bufs s i)) (rev xs) = None"
    by (auto simp: find_None_iff)
  show ?thesis
    using m none tail [of "\<lambda>i. refcnt (bufs s i) = 0 \<and> \<not> b_dirty (bufs s i)"]
    by (auto simp: bget_def lru_walk_next [OF assms(1)] lru_walk_prev [OF assms(1)])
qed

lemma fresh_core: "bcore (bufs (fresh n) i) = bcore zero_buf"
  using binit_core [of "set_next NBUF NBUF (set_prev NBUF NBUF (\<lambda>_. zero_buf))" "[0..<NBUF]"]
  by (simp add: fresh_def binit_def kmod_def boot_state_def)

lemma fresh_fields: "refcnt (bufs (fresh n) i) = 0 \<and> \<not> b_dirty (bufs (fresh n) i) \<and> b_dev (bufs (fresh n) i) = 0"
  using bcore_fields [OF fresh_core [of n i]] by (simp add: zero_buf_def)

theorem bget_recycles_lru_witness:
  "bget 1 7 (fresh 1000) = block_lock 0 (setbuf 0 (\<lambda>b. b\<lparr>b_dev := 1, blockno := 7,
     b_valid := False, b_dirty := False, refcnt := 1\<rparr>) (fresh 1000))"
proof -
  have r: "rev [0..<NBUF] = rev [1..<NBUF] @ 0 # []" by (simp add: NBUF_num upt_conv_Cons)
  note f = fresh_fields [of 1000]
  have "\<forall>i\<in>set (rev [0..<NBUF]). \<not> (b_dev (bufs (fresh 1000) i) = 1 \<and> blockno (bufs (fresh 1000) i) = 7)"
    using f by simp
  from bget_recycles_lru [OF fresh_ok(2) this, THEN conjunct1, rule_format, OF r] f
  show ?thesis by simp
qed

text \<open>
  Releasing a held buffer that is clean or pinned succeeds, moves it to the front of the
  recency list and leaves the order of the others alone; the block is no longer held and
  nothing else a client can observe changes.
\<close>

theorem brelse_most_recent:
  assumes "binv s" "bhold s i b" "lru (bufs s) (ys @ i # zs)"
    "b \<in> dirtyblks s \<or> view s b = disk s b"
  shows "wp (brelse i) (\<lambda>_ t. lru (bufs t) (i # ys @ zs) \<and> binv t \<and> view t = view s \<and>
     disk t = disk s \<and> heldblks t = heldblks s - {b} \<and> dirtyblks t = dirtyblks s) s"
proof -
  have k: "refcnt (bufs s i) = 1" "holdingsleep (curpid s) (b_lock (bufs s i))"
    using assms(2) bhold_locked [OF assms(2)] binv_ok [OF assms(1), of i] by (auto simp: buf_ok_def bhold_def)
  define C where "C = (bufs s)(i := (bufs s i)\<lparr>b_lock := releasesleep (b_lock (bufs s i)), refcnt := 0\<rparr>)"
  have "lru C (ys @ i # zs)" using assms(3) by (rule lru_cong [THEN iffD1, rotated 2]) (auto simp: C_def)
  then have l: "lru (mru i C) (i # ys @ zs)" by (rule lru_mru)
  have "brelse i s = Done () (s\<lparr>bufs := mru i C\<rparr>)"
    using k by (simp add: brelse_def kernel_defs setbuf_def C_def)
  then have w: "wp (brelse i) (\<lambda>_ t. lru (bufs t) (i # ys @ zs)) s" using l by (simp add: wp_def)
  show ?thesis
    by (rule wp_conseq [OF wp_conj [OF w bc.brelse_law [OF assms(1,2)]]])
      (use assms(4) in \<open>auto simp: babs_def a_release_def\<close>)
qed

theorem brelse_most_recent_witness:
  "\<exists>i s ys zs. bread 1 7 (fresh 1000) = Done i s \<and> lru (bufs s) (ys @ i # zs) \<and>
     wp (brelse i) (\<lambda>_ t. lru (bufs t) (i # ys @ zs) \<and> binv t \<and> view t = view s \<and>
       disk t = disk s \<and> heldblks t = heldblks s - {7} \<and> dirtyblks t = dirtyblks s) s"
proof -
  have "wp (bread 1 7) (\<lambda>i t. binv t \<and> bhold t i 7 \<and> babs t = a_hold 7 (babs (fresh 1000))) (fresh 1000)"
    by (rule wp_conseq [OF bread_ok [OF fresh_ok(1) fresh_room]]) auto
  then obtain i s where s: "bread 1 7 (fresh 1000) = Done i s" "binv s" "bhold s i 7"
    "babs s = a_hold 7 (babs (fresh 1000))" by (auto simp: wp_Done)
  obtain ys zs where l: "lru (bufs s) (ys @ i # zs)"
    using binv_lru [OF s(2)] lru_split bhold_locked [OF s(3)] by blast
  have "view s 7 = disk s 7" using s(4) fresh_ok(3) [of 1000] by (simp add: babs_def a_hold_def)
  then show ?thesis using s l brelse_most_recent [OF s(2,3) l] by blast
qed

end
