(* ===== verification/Log.thy ===== *)
theory Log
  imports Bio
begin

text \<open>
  The write-ahead log of \<^verbatim>\<open>log.c\<close>, with the superblock reader \<^verbatim>\<open>readsb\<close> of \<^verbatim>\<open>fs.c\<close> that it
  starts from. The log's record extends the state of the buffer cache, so that every
  operation of the cache is an operation of the log's state; the on-disk header is kept at
  byte level. The proofs use the cache only through its contract.
\<close>

section \<open>State and operations\<close>

record superblock =
  sb_size :: nat
  sb_nblocks :: nat
  sb_ninodes :: nat
  sb_nlog :: nat
  sb_logstart :: nat
  sb_inodestart :: nat
  sb_bmapstart :: nat

definition decode_sb :: "block \<Rightarrow> superblock" where
  "decode_sb d = \<lparr>sb_size = le32 (rd d) 0, sb_nblocks = le32 (rd d) 4, sb_ninodes = le32 (rd d) 8,
     sb_nlog = le32 (rd d) 12, sb_logstart = le32 (rd d) 16, sb_inodestart = le32 (rd d) 20,
     sb_bmapstart = le32 (rd d) 24\<rparr>"

definition readsb :: "nat \<Rightarrow> ('x bstate_scheme, superblock) kmon" where
  "readsb dev = kbind (bread dev 1) (\<lambda>i. kbind (bdata i) (\<lambda>d. kseq (brelse i) (kret (decode_sb d))))"

text \<open>
  \<^verbatim>\<open>struct log\<close> with its header \<^verbatim>\<open>lh\<close>. Block numbers are the unsigned numbers \<open>bread\<close> takes;
  \<^verbatim>\<open>lh.n\<close>, \<^verbatim>\<open>size\<close> and \<^verbatim>\<open>outstanding\<close> are signed.
\<close>

record lstate = bstate +
  lg_start :: nat
  lg_size :: int
  outstanding :: int
  committing :: bool
  lg_dev :: nat
  lh_n :: int
  lh_block :: "nat \<Rightarrow> nat"

definition install_trans :: "('x lstate_scheme, unit) kmon" where
  "install_trans =
     kbind (kget lh_n) (\<lambda>n. kbind (kget lg_dev) (\<lambda>dev. kbind (kget lg_start) (\<lambda>st. kbind (kget lh_block) (\<lambda>blk.
     kfor [0..<nat n] (\<lambda>tail.
       kbind (bread dev (u32 (st + tail + 1))) (\<lambda>lbuf.
       kbind (bread dev (blk tail)) (\<lambda>dbuf.
       kbind (bdata lbuf) (\<lambda>d.
       kseq (bmodify dbuf (\<lambda>_. d)) (kseq (bwrite dbuf) (kseq (brelse lbuf) (kseq (brelse dbuf) (kret ()))))))))))))"

text \<open>
  The on-disk header: \<^verbatim>\<open>n\<close> at byte 0 and \<^verbatim>\<open>block[i]\<close> at byte \<open>4 + 4 * i\<close>. A count above
  \<^const>\<open>LOGSIZE\<close> would make the copying loop of \<open>read_head\<close> leave the array; the model
  stops there.
\<close>

definition head_n :: "block \<Rightarrow> int" where "head_n d = s32 (le32 (rd d) 0)"
definition head_block :: "block \<Rightarrow> nat \<Rightarrow> nat" where "head_block d i = le32 (rd d) (4 + 4 * i)"

definition loaded_blocks :: "block \<Rightarrow> (nat \<Rightarrow> nat) \<Rightarrow> nat \<Rightarrow> nat" where
  "loaded_blocks d g j = (if j < nat (head_n d) then head_block d j else g j)"

definition read_head :: "('x lstate_scheme, unit) kmon" where
  "read_head =
     kbind (kget lg_dev) (\<lambda>dev. kbind (kget lg_start) (\<lambda>st.
     kbind (bread dev st) (\<lambda>i. kbind (bdata i) (\<lambda>d.
     if int LOGSIZE < head_n d then kpanic ''read_head: lh.block overrun''
     else kseq (kmod (\<lambda>s. s\<lparr>lh_n := head_n d, lh_block := loaded_blocks d (lh_block s)\<rparr>))
       (brelse i)))))"

definition encode_head :: "int \<Rightarrow> (nat \<Rightarrow> nat) \<Rightarrow> block \<Rightarrow> block" where
  "encode_head n blk d = fold (\<lambda>i d. put32 d (4 + 4 * i) (blk i)) [0..<nat n] (put32 d 0 (of_s32 n))"

definition write_head :: "('x lstate_scheme, unit) kmon" where
  "write_head =
     kbind (kget lg_dev) (\<lambda>dev. kbind (kget lg_start) (\<lambda>st. kbind (kget lh_n) (\<lambda>n. kbind (kget lh_block) (\<lambda>blk.
     kbind (bread dev st) (\<lambda>i.
     kseq (bmodify i (encode_head n blk)) (kseq (bwrite i) (kseq (brelse i) (kret ()))))))))"

definition recover_from_log :: "('x lstate_scheme, unit) kmon" where
  "recover_from_log =
     kseq read_head (kseq install_trans (kseq (kmod (\<lambda>s. s\<lparr>lh_n := 0\<rparr>)) write_head))"

definition initlog :: "nat \<Rightarrow> ('x lstate_scheme, unit) kmon" where
  "initlog dev =
     (if BSIZE \<le> 4 + 4 * LOGSIZE then kpanic ''initlog: too big logheader''
      else kbind (readsb dev) (\<lambda>sb.
        kseq (kmod (\<lambda>s. s\<lparr>lg_start := sb_logstart sb, lg_size := s32 (sb_nlog sb), lg_dev := dev\<rparr>))
          recover_from_log))"

definition begin_op :: "('x lstate_scheme, unit) kmon" where
  "begin_op = (\<lambda>s.
     if committing s then Sleep ChanLog s
     else if int LOGSIZE < lh_n s + (outstanding s + 1) * int MAXOPBLOCKS then Sleep ChanLog s
     else Done () (s\<lparr>outstanding := outstanding s + 1\<rparr>))"

definition write_log :: "('x lstate_scheme, unit) kmon" where
  "write_log =
     kbind (kget lh_n) (\<lambda>n. kbind (kget lg_dev) (\<lambda>dev. kbind (kget lg_start) (\<lambda>st. kbind (kget lh_block) (\<lambda>blk.
     kfor [0..<nat n] (\<lambda>tail.
       kbind (bread dev (u32 (st + tail + 1))) (\<lambda>to.
       kbind (bread dev (blk tail)) (\<lambda>frm.
       kbind (bdata frm) (\<lambda>d.
       kseq (bmodify to (\<lambda>_. d)) (kseq (bwrite to) (kseq (brelse frm) (kseq (brelse to) (kret ()))))))))))))"

definition commit :: "('x lstate_scheme, unit) kmon" where
  "commit =
     kbind (kget lh_n) (\<lambda>n.
     if 0 < n then
       kseq write_log (kseq write_head (kseq install_trans
         (kseq (kmod (\<lambda>s. s\<lparr>lh_n := 0\<rparr>)) write_head)))
     else kret ())"

definition end_op :: "('x lstate_scheme, unit) kmon" where
  "end_op =
     kseq (kmod (\<lambda>s. s\<lparr>outstanding := outstanding s - 1\<rparr>))
     (kbind (kget committing) (\<lambda>c.
      if c then kpanic ''log.committing''
      else kbind (kget outstanding) (\<lambda>out.
        if out = 0 then
          kseq (kmod (\<lambda>s. s\<lparr>committing := True\<rparr>))
            (kseq commit (kmod (\<lambda>s. s\<lparr>committing := False\<rparr>)))
        else kret ())))"

text \<open>\<^verbatim>\<open>b->flags |= B_DIRTY\<close>.\<close>

definition bpin :: "nat \<Rightarrow> ('x bstate_scheme, unit) kmon" where
  "bpin i = kmod (setbuf i (\<lambda>b. b\<lparr>b_dirty := True\<rparr>))"

definition log_index :: "'x lstate_scheme \<Rightarrow> nat \<Rightarrow> nat" where
  "log_index s b = (case find (\<lambda>j. lh_block s j = b) [0..<nat (lh_n s)] of Some j \<Rightarrow> j | None \<Rightarrow> nat (lh_n s))"

definition log_record :: "nat \<Rightarrow> 'x lstate_scheme \<Rightarrow> 'x lstate_scheme" where
  "log_record b s = (let k = log_index s b; s' = s\<lparr>lh_block := (lh_block s)(k := b)\<rparr> in
     if int k = lh_n s then s'\<lparr>lh_n := lh_n s + 1\<rparr> else s')"

definition log_write :: "nat \<Rightarrow> ('x lstate_scheme, unit) kmon" where
  "log_write i = (\<lambda>s.
     if int LOGSIZE \<le> lh_n s \<or> lg_size s - 1 \<le> lh_n s then Panic ''too big a transaction''
     else if outstanding s < 1 then Panic ''log_write outside of trans''
     else bpin i (log_record (blockno (bufs s i)) s))"

section \<open>The header block\<close>

lemma head_n_encode: "0 \<le> n \<Longrightarrow> n \<le> int LOGSIZE \<Longrightarrow> head_n (encode_head n blk d) = n"
proof -
  assume n: "0 \<le> n" "n \<le> int LOGSIZE"
  have "le32 (rd (fold (\<lambda>i d. put32 d (4 + 4 * i) (blk i)) xs e)) 0 = le32 (rd e) 0" for xs e
    by (induction xs arbitrary: e) (simp_all add: le32_put32_other)
  then show ?thesis using n by (simp add: encode_head_def head_n_def le32_put32_same BSIZE_num LOGSIZE_num)
qed

lemma head_block_fold:
  "nat n \<le> LOGSIZE \<Longrightarrow> (\<And>i. i < nat n \<Longrightarrow> blk i < 2 ^ 32) \<Longrightarrow> i < nat n \<Longrightarrow>
    head_block (encode_head n blk d) i = blk i"
proof -
  assume a: "nat n \<le> LOGSIZE" "\<And>i. i < nat n \<Longrightarrow> blk i < 2 ^ 32" "i < nat n"
  have "m \<le> LOGSIZE \<Longrightarrow> i < m \<Longrightarrow> blk i < 2 ^ 32 \<Longrightarrow>
    le32 (rd (fold (\<lambda>i d. put32 d (4 + 4 * i) (blk i)) [0..<m] e)) (4 + 4 * i) = blk i" for m e
  proof (induction m)
    case (Suc m)
    then show ?case
      by (cases "i = m") (simp_all add: le32_put32_same le32_put32_other BSIZE_num LOGSIZE_num)
  qed simp
  then show ?thesis using a by (simp add: encode_head_def head_block_def)
qed

section \<open>Effects on the block store\<close>

text \<open>A sequence of block writes, applied to a disk.\<close>

definition play :: "(nat \<times> block) list \<Rightarrow> (nat \<Rightarrow> block) \<Rightarrow> nat \<Rightarrow> block" where
  "play ws d = fold (\<lambda>(b, x) d. d(b := x)) ws d"

lemma play_simps [simp]: "play [] d = d" "play ((b, x) # ws) d = play ws (d(b := x))"
  "play (ws @ us) d = play us (play ws d)"
  by (simp_all add: play_def)

lemma play_other: "b \<notin> fst ` set ws \<Longrightarrow> play ws d b = d b"
  by (induction ws arbitrary: d) auto

lemma play_map:
  assumes "distinct (map f xs)" "x \<in> set xs"
  shows "play (map (\<lambda>x. (f x, g x)) xs) d (f x) = g x"
  using assms
proof (induction xs arbitrary: d)
  case (Cons y ys)
  show ?case
  proof (cases "x = y")
    case True
    then show ?thesis using Cons.prems by (simp add: play_other image_image)
  next
    case False
    then show ?thesis using Cons by simp
  qed
qed simp

lemma play_fun: "(\<And>b. b \<notin> fst ` set ws \<Longrightarrow> d b = e b) \<Longrightarrow> play ws d = play ws e"
proof (induction ws arbitrary: d e)
  case Nil
  then show ?case by (simp add: fun_eq_iff)
next
  case (Cons w ws)
  obtain b x where "w = (b, x)" by (cases w)
  then show ?case using Cons.prems by (auto intro!: Cons.IH)
qed

definition a_copy :: "nat \<Rightarrow> nat \<Rightarrow> acache \<Rightarrow> acache" where
  "a_copy src dst a = a_put dst (a_view a src) a"

definition a_play :: "(nat \<times> block) list \<Rightarrow> acache \<Rightarrow> acache" where
  "a_play ws a = a\<lparr>a_view := play ws (a_view a), a_home := play ws (a_home a),
     a_trace := a_trace a @ ws, a_dirty := a_dirty a - fst ` set ws\<rparr>"

lemma a_play_simps [simp]: "a_size (a_play ws a) = a_size a" "a_held (a_play ws a) = a_held a"
  "a_view (a_play ws a) = play ws (a_view a)" "a_home (a_play ws a) = play ws (a_home a)"
  "a_trace (a_play ws a) = a_trace a @ ws" "a_dirty (a_play ws a) = a_dirty a - fst ` set ws"
  by (simp_all add: a_play_def)

lemma a_play_append: "a_play (ws @ us) a = a_play us (a_play ws a)"
  by (simp add: a_play_def image_Un Diff_eq Int_assoc)

lemma a_play_nil [simp]: "a_play [] a = a"
  by (simp add: a_play_def)

lemma a_put_play: "a_put b d a = a_play [(b, d)] a"
  by (simp add: acache_defs a_play_def)

lemma fold_copy:
  assumes "\<And>t u. t \<in> set xs \<Longrightarrow> u \<in> set xs \<Longrightarrow> src t \<noteq> dst u"
  shows "fold (\<lambda>t. a_copy (src t) (dst t)) xs a = a_play (map (\<lambda>t. (dst t, a_view a (src t))) xs) a"
  using assms
proof (induction xs rule: rev_induct)
  case (snoc x xs)
  have "src x \<notin> fst ` set (map (\<lambda>t. (dst t, a_view a (src t))) xs)" using snoc.prems by force
  then show ?case using snoc by (simp add: a_copy_def a_put_play play_other a_play_append)
qed simp

section \<open>The log as a client of the cache\<close>

lemma bpin_ok:
  assumes "binv s" "bhold s i b"
  shows "wp (bpin i) (\<lambda>_ t. binv t \<and> (\<forall>j c. bhold s j c \<longrightarrow> bhold t j c) \<and>
     babs t = a_pin b (babs s) \<and> brest t = brest s) s"
proof -
  let ?X = "(bufs s i)\<lparr>b_dirty := True\<rparr>"
  note h = bhold_locked [OF assms(2)]
  have dev: "b_dev (bufs s i) = 1" using h binv_ok [OF assms(1), of i] by (auto simp: buf_ok_def)
  have d: "b_data (bufs s i) = view s b" using h view_hit [OF assms(1), of i] by auto
  have eq: "bpin i s = Done () (upd i ?X s)" by (simp add: bpin_def kmod_def setbuf_upd)
  show ?thesis using held_change [OF assms, of ?X] h dev d unfolding wp_def eq
    by (simp add: babs_def a_pin_def)
qed

text \<open>The fields of the log are outside the cache, and the cache outside them.\<close>

lemma rest_log:
  fixes s t :: "'x lstate_scheme"
  assumes "brest t = brest s"
  shows "lg_start t = lg_start s" "lg_size t = lg_size s" "outstanding t = outstanding s"
    "committing t = committing s" "lg_dev t = lg_dev s" "lh_n t = lh_n s" "lh_block t = lh_block s"
    "curpid t = curpid s" "lstate.more t = lstate.more s"
  using assms by (cases s; cases t; simp add: brest_def)+

lemma cache_of_log [simp]:
  "babs (s\<lparr>lh_n := n\<rparr>) = babs s" "binv (s\<lparr>lh_n := n\<rparr>) = binv s" "bhold (s\<lparr>lh_n := n\<rparr>) = bhold s"
  "babs (s\<lparr>lh_block := g\<rparr>) = babs s" "binv (s\<lparr>lh_block := g\<rparr>) = binv s" "bhold (s\<lparr>lh_block := g\<rparr>) = bhold s"
  "babs (s\<lparr>outstanding := k\<rparr>) = babs s" "binv (s\<lparr>outstanding := k\<rparr>) = binv s" "bhold (s\<lparr>outstanding := k\<rparr>) = bhold s"
  "babs (s\<lparr>committing := c\<rparr>) = babs s" "binv (s\<lparr>committing := c\<rparr>) = binv s" "bhold (s\<lparr>committing := c\<rparr>) = bhold s"
  "babs (s\<lparr>lg_start := st\<rparr>) = babs s" "binv (s\<lparr>lg_start := st\<rparr>) = binv s" "bhold (s\<lparr>lg_start := st\<rparr>) = bhold s"
  "babs (s\<lparr>lg_size := z\<rparr>) = babs s" "binv (s\<lparr>lg_size := z\<rparr>) = binv s" "bhold (s\<lparr>lg_size := z\<rparr>) = bhold s"
  "babs (s\<lparr>lg_dev := dv\<rparr>) = babs s" "binv (s\<lparr>lg_dev := dv\<rparr>) = binv s" "bhold (s\<lparr>lg_dev := dv\<rparr>) = bhold s"
  by (simp_all add: babs_def binv_def bhold_def fun_eq_iff view_def slot_def heldblks_def dirtyblks_def split: option.split)

text \<open>
  Copying one block to another through the cache. \<open>first\<close> is read into a buffer before
  \<open>second\<close>; the copy goes either way.
\<close>

lemma copy_pair:
  assumes i: "binv s" "room (babs s) a" "room (a_hold a (babs s)) b"
    and k: "\<And>t. binv t \<Longrightarrow> babs t = a_copy a b (babs s) \<Longrightarrow> brest t = brest s \<Longrightarrow> wp k Q t"
  shows "wp (kbind (bread 1 a) (\<lambda>x. kbind (bread 1 b) (\<lambda>y. kbind (bdata x) (\<lambda>d.
     kseq (bmodify y (\<lambda>_. d)) (kseq (bwrite y) (kseq (brelse x) (kseq (brelse y) k))))))) Q s"
proof (rule bc.hold_idiom [OF i(1,2)])
  have ne: "a \<noteq> b" "a \<notin> a_held (babs s)" "b \<notin> a_held (babs s)"
    using i(2,3) room_hold [OF i(3)] by (auto simp: room_def a_hold_def)
  fix x t
  assume t: "binv t" "bhold t x a" "babs t = a_hold a (babs s)" "brest t = brest s"
  show "wp (kbind (bread 1 b) (\<lambda>y. kbind (bdata x) (\<lambda>d.
     kseq (bmodify y (\<lambda>_. d)) (kseq (bwrite y) (kseq (brelse x) (kseq (brelse y) k)))))) Q t"
  proof (rule bc.hold_idiom [OF t(1)])
    show "room (babs t) b" using i(3) t(3) by simp
    fix y u
    assume u: "binv u" "bhold u y b" "\<And>j c. bhold t j c \<Longrightarrow> bhold u j c" "babs u = a_hold b (babs t)" "brest u = brest t"
    show "wp (kbind (bdata x) (\<lambda>d. kseq (bmodify y (\<lambda>_. d)) (kseq (bwrite y) (kseq (brelse x) (kseq (brelse y) k))))) Q u"
    proof (rule bc.copy_held [OF u(1) u(3) [OF t(2)] u(2) ne(1)])
      show "a \<in> a_dirty (babs u) \<or> a_view (babs u) a = a_home (babs u) a"
        using bc.clean_law [OF i(1) _ ne(2)] t(3) u(4) by (auto simp: a_hold_def)
      fix v
      assume v: "binv v" "babs v = a_release b (a_release a (a_put b (a_view (babs u) a) (babs u)))" "brest v = brest u"
      show "wp k Q v"
        using v u(4,5) t(3,4) ne by (intro k) (auto simp: a_copy_def acache_defs Diff_insert0 insert_Diff_if)
    qed
  qed
qed

lemma copy_pair_back:
  assumes i: "binv s" "room (babs s) a" "room (a_hold a (babs s)) b"
    and k: "\<And>t. binv t \<Longrightarrow> babs t = a_copy b a (babs s) \<Longrightarrow> brest t = brest s \<Longrightarrow> wp k Q t"
  shows "wp (kbind (bread 1 a) (\<lambda>x. kbind (bread 1 b) (\<lambda>y. kbind (bdata y) (\<lambda>d.
     kseq (bmodify x (\<lambda>_. d)) (kseq (bwrite x) (kseq (brelse y) (kseq (brelse x) k))))))) Q s"
proof (rule bc.hold_idiom [OF i(1,2)])
  have ne: "b \<noteq> a" "a \<notin> a_held (babs s)" "b \<notin> a_held (babs s)"
    using i(2,3) room_hold [OF i(3)] by (auto simp: room_def a_hold_def)
  fix x t
  assume t: "binv t" "bhold t x a" "babs t = a_hold a (babs s)" "brest t = brest s"
  show "wp (kbind (bread 1 b) (\<lambda>y. kbind (bdata y) (\<lambda>d.
     kseq (bmodify x (\<lambda>_. d)) (kseq (bwrite x) (kseq (brelse y) (kseq (brelse x) k)))))) Q t"
  proof (rule bc.hold_idiom [OF t(1)])
    show "room (babs t) b" using i(3) t(3) by simp
    fix y u
    assume u: "binv u" "bhold u y b" "\<And>j c. bhold t j c \<Longrightarrow> bhold u j c" "babs u = a_hold b (babs t)" "brest u = brest t"
    show "wp (kbind (bdata y) (\<lambda>d. kseq (bmodify x (\<lambda>_. d)) (kseq (bwrite x) (kseq (brelse y) (kseq (brelse x) k))))) Q u"
    proof (rule bc.copy_held [OF u(1) u(2) u(3) [OF t(2)] ne(1)])
      show "b \<in> a_dirty (babs u) \<or> a_view (babs u) b = a_home (babs u) b"
        using bc.clean_law [OF i(1) _ ne(3)] t(3) u(4) by (auto simp: a_hold_def)
      fix v
      assume v: "binv v" "babs v = a_release a (a_release b (a_put a (a_view (babs u) b) (babs u)))" "brest v = brest u"
      show "wp k Q v"
        using v u(4,5) t(3,4) ne by (intro k) (auto simp: a_copy_def acache_defs Diff_insert0 insert_Diff_if)
    qed
  qed
qed

text \<open>
  The space of a commit: the blocks are on the disk, no buffer is held, and there is a
  buffer for a log block beside the pinned blocks, and one for the home block if it is not
  pinned itself.
\<close>

definition log_space :: "acache \<Rightarrow> nat \<Rightarrow> nat \<Rightarrow> (nat \<Rightarrow> nat) \<Rightarrow> bool" where
  "log_space a st n blk \<longleftrightarrow> a_held a = {} \<and> a_size a \<le> 2 ^ 31 \<and> st + n < a_size a \<and> finite (a_dirty a) \<and>
     (\<forall>i<n. blk i < a_size a \<and> (blk i < st \<or> st + n < blk i)) \<and> st \<notin> a_dirty a \<and>
     (\<forall>i<n. st + i + 1 \<notin> a_dirty a) \<and> distinct (map blk [0..<n]) \<and>
     (a_dirty a = {} \<or> card (a_dirty a) < NBUF \<and> a_dirty a = blk ` {..<n})"

lemma upt_split: "[0..<n] = xs @ i # ys \<Longrightarrow> xs = [0..<i] \<and> i < n"
proof -
  assume e: "[0..<n] = xs @ i # ys"
  have "length xs < n" using e by (metis length_append length_upt diff_zero length_Cons less_add_Suc1 add_Suc_right)
  moreover have "take (length xs) [0..<n] = xs" "[0..<n] ! length xs = i" using e by simp_all
  ultimately show ?thesis by simp
qed

lemma upt_image: "f ` {0..<n} = f ` {..<n::nat}"
  by (simp add: lessThan_atLeast0)

lemma log_space_blk:
  assumes "log_space a st n blk" "i < n" "j < n"
  shows "blk i \<noteq> st + j + 1" "blk i \<noteq> st" "blk i < a_size a" "st + j + 1 < a_size a"
    "u32 (st + j + 1) = st + j + 1" "blk i < 2 ^ 32"
proof -
  have b: "blk i < st \<or> st + n < blk i" "blk i < a_size a" "a_size a \<le> 2 ^ 31" "st + n < a_size a"
    using assms(1,2) unfolding log_space_def by blast+
  then show "blk i \<noteq> st + j + 1" "blk i \<noteq> st" "blk i < a_size a" "st + j + 1 < a_size a"
    "u32 (st + j + 1) = st + j + 1" "blk i < 2 ^ 32"
    using assms(3) by (auto simp: u32_def)
qed

lemma log_space_room:
  assumes "log_space a st n blk" "i < n" "D = {} \<or> blk i \<in> D" "D \<subseteq> a_dirty a"
    "a_size c = a_size a" "a_held c = {}" "a_dirty c = D"
  shows "room c (st + i + 1)" "room (a_hold (st + i + 1) c) (blk i)"
proof -
  note s = log_space_blk [OF assms(1,2,2)]
  have f: "finite (a_dirty a)" and cd: "a_dirty a = {} \<or> card (a_dirty a) < NBUF"
    using assms(1) unfolding log_space_def by blast+
  have "card D \<le> card (a_dirty a)" using f assms(4) by (rule card_mono)
  then have "card D < NBUF" using cd by (auto simp: NBUF_num)
  then show "room c (st + i + 1)" "room (a_hold (st + i + 1) c) (blk i)"
    using s assms(3,5-) by (auto simp: room_def a_hold_def NBUF_num)
qed

lemma write_log_ok:
  assumes i: "binv s" "lg_dev s = 1" "lh_n s = int n" and sp: "log_space (babs s) (lg_start s) n (lh_block s)"
  shows "wp write_log (\<lambda>_ t. binv t \<and> brest t = brest s \<and>
     babs t = a_play (map (\<lambda>i. (lg_start s + i + 1, view s (lh_block s i))) [0..<n]) (babs s)) s"
proof -
  let ?st = "lg_start s" and ?blk = "lh_block s"
  let ?ws = "\<lambda>xs. map (\<lambda>i. (?st + i + 1, view s (?blk i))) xs"
  have f: "fold (\<lambda>i. a_copy (?blk i) (?st + i + 1)) xs (babs s) = a_play (?ws xs) (babs s)" if "set xs \<subseteq> {..<n}" for xs
  proof -
    have "fold (\<lambda>i. a_copy (?blk i) (?st + i + 1)) xs (babs s) =
      a_play (map (\<lambda>t. (?st + t + 1, a_view (babs s) (?blk t))) xs) (babs s)"
      using that log_space_blk(1) [OF sp] by (intro fold_copy) blast
    then show ?thesis by (simp add: babs_def)
  qed
  have "wp (kfor [0..<n] (\<lambda>tail. kbind (bread 1 (u32 (?st + tail + 1))) (\<lambda>to. kbind (bread 1 (?blk tail)) (\<lambda>frm.
       kbind (bdata frm) (\<lambda>d. kseq (bmodify to (\<lambda>_. d)) (kseq (bwrite to) (kseq (brelse frm) (kseq (brelse to) (kret ())))))))))
     (\<lambda>_ t. binv t \<and> brest t = brest s \<and> babs t = fold (\<lambda>i. a_copy (?blk i) (?st + i + 1)) [0..<n] (babs s)) s"
  proof (rule wp_kfor [where I = "\<lambda>xs t. binv t \<and> brest t = brest s \<and> babs t = fold (\<lambda>i. a_copy (?blk i) (?st + i + 1)) xs (babs s)"])
    fix xs i ys t
    assume xs: "[0..<n] = xs @ i # ys"
      and t: "binv t \<and> brest t = brest s \<and> babs t = fold (\<lambda>i. a_copy (?blk i) (?st + i + 1)) xs (babs s)"
    have x: "xs = [0..<i]" "i < n" using upt_split [OF xs] by auto
    then have xn: "set xs \<subseteq> {..<n}" by auto
    have ft: "babs t = a_play (?ws xs) (babs s)" using t f [OF xn] by simp
    have nd: "fst ` set (?ws xs) \<inter> a_dirty (babs s) = {}"
      using sp x unfolding log_space_def by (auto simp: image_image)
    have D: "a_dirty (babs t) = a_dirty (babs s)" "a_size (babs t) = a_size (babs s)" "a_held (babs t) = {}"
      using ft nd sp by (auto simp: log_space_def)
    have dd: "a_dirty (babs s) = {} \<or> ?blk i \<in> a_dirty (babs s)"
      using sp x(2) unfolding log_space_def by blast
    note r = log_space_room [OF sp x(2) dd order_refl D(2,3,1)]
    show "wp (kbind (bread 1 (u32 (?st + i + 1))) (\<lambda>to. kbind (bread 1 (?blk i)) (\<lambda>frm.
       kbind (bdata frm) (\<lambda>d. kseq (bmodify to (\<lambda>_. d)) (kseq (bwrite to) (kseq (brelse frm) (kseq (brelse to) (kret ()))))))))
       (\<lambda>_ u. binv u \<and> brest u = brest s \<and> babs u = fold (\<lambda>i. a_copy (?blk i) (?st + i + 1)) (xs @ [i]) (babs s)) t"
      unfolding log_space_blk(5) [OF sp x(2,2)]
      by (rule copy_pair_back) (use t r in auto)
  qed (use i in simp)
  then show ?thesis using i f [of "[0..<n]"] by (simp add: lessThan_atLeast0 write_log_def)
qed

lemma install_trans_ok:
  assumes i: "binv s" "lg_dev s = 1" "lh_n s = int n" and sp: "log_space (babs s) (lg_start s) n (lh_block s)"
  shows "wp install_trans (\<lambda>_ t. binv t \<and> brest t = brest s \<and>
     babs t = a_play (map (\<lambda>i. (lh_block s i, view s (lg_start s + i + 1))) [0..<n]) (babs s)) s"
proof -
  let ?st = "lg_start s" and ?blk = "lh_block s"
  let ?ws = "\<lambda>xs. map (\<lambda>i. (?blk i, view s (?st + i + 1))) xs"
  have f: "fold (\<lambda>i. a_copy (?st + i + 1) (?blk i)) xs (babs s) = a_play (?ws xs) (babs s)" if "set xs \<subseteq> {..<n}" for xs
  proof -
    have "fold (\<lambda>i. a_copy (?st + i + 1) (?blk i)) xs (babs s) =
      a_play (map (\<lambda>t. (?blk t, a_view (babs s) (?st + t + 1))) xs) (babs s)"
      using that log_space_blk(1) [OF sp] by (intro fold_copy) (metis lessThan_iff subsetD)
    then show ?thesis by (simp add: babs_def)
  qed
  have "wp (kfor [0..<n] (\<lambda>tail. kbind (bread 1 (u32 (?st + tail + 1))) (\<lambda>lbuf. kbind (bread 1 (?blk tail)) (\<lambda>dbuf.
       kbind (bdata lbuf) (\<lambda>d. kseq (bmodify dbuf (\<lambda>_. d)) (kseq (bwrite dbuf) (kseq (brelse lbuf) (kseq (brelse dbuf) (kret ())))))))))
     (\<lambda>_ t. binv t \<and> brest t = brest s \<and> babs t = fold (\<lambda>i. a_copy (?st + i + 1) (?blk i)) [0..<n] (babs s)) s"
  proof (rule wp_kfor [where I = "\<lambda>xs t. binv t \<and> brest t = brest s \<and> babs t = fold (\<lambda>i. a_copy (?st + i + 1) (?blk i)) xs (babs s)"])
    fix xs i ys t
    assume xs: "[0..<n] = xs @ i # ys"
      and t: "binv t \<and> brest t = brest s \<and> babs t = fold (\<lambda>i. a_copy (?st + i + 1) (?blk i)) xs (babs s)"
    have x: "xs = [0..<i]" "i < n" using upt_split [OF xs] by auto
    then have xn: "set xs \<subseteq> {..<n}" by auto
    have ft: "babs t = a_play (?ws xs) (babs s)" using t f [OF xn] by simp
    have D: "a_dirty (babs t) = a_dirty (babs s) - ?blk ` {..<i}" "a_size (babs t) = a_size (babs s)" "a_held (babs t) = {}"
      using ft sp x by (auto simp: log_space_def image_image upt_image)
    have "inj_on ?blk {0..<n}" using sp unfolding log_space_def by (simp add: distinct_map)
    then have "?blk i \<notin> ?blk ` {..<i}" using x(2) by (auto dest!: inj_onD)
    then have dd: "a_dirty (babs s) - ?blk ` {..<i} = {} \<or> ?blk i \<in> a_dirty (babs s) - ?blk ` {..<i}"
      using sp x(2) unfolding log_space_def by blast
    note r = log_space_room [OF sp x(2) dd Diff_subset D(2,3,1)]
    show "wp (kbind (bread 1 (u32 (?st + i + 1))) (\<lambda>lbuf. kbind (bread 1 (?blk i)) (\<lambda>dbuf.
       kbind (bdata lbuf) (\<lambda>d. kseq (bmodify dbuf (\<lambda>_. d)) (kseq (bwrite dbuf) (kseq (brelse lbuf) (kseq (brelse dbuf) (kret ()))))))))
       (\<lambda>_ u. binv u \<and> brest u = brest s \<and> babs u = fold (\<lambda>i. a_copy (?st + i + 1) (?blk i)) (xs @ [i]) (babs s)) t"
      unfolding log_space_blk(5) [OF sp x(2,2)]
      by (rule copy_pair) (use t r in auto)
  qed (use i in simp)
  then show ?thesis using i f [of "[0..<n]"] by (simp add: lessThan_atLeast0 install_trans_def)
qed

lemma write_head_ok:
  assumes "binv s" "lg_dev s = 1" "room (babs s) (lg_start s)"
  shows "wp write_head (\<lambda>_ t. binv t \<and> brest t = brest s \<and>
     babs t = a_play [(lg_start s, encode_head (lh_n s) (lh_block s) (view s (lg_start s)))] (babs s)) s"
proof -
  have "wp (kbind (bread 1 (lg_start s)) (\<lambda>i. kseq (bmodify i (encode_head (lh_n s) (lh_block s)))
     (kseq (bwrite i) (kseq (brelse i) (kret ()))))) (\<lambda>_ t. binv t \<and> brest t = brest s \<and>
     babs t = a_play [(lg_start s, encode_head (lh_n s) (lh_block s) (view s (lg_start s)))] (babs s)) s"
    by (rule bc.overwrite_idiom [OF assms(1,3)]) (simp add: a_put_play babs_def)
  then show ?thesis using assms(2) by (simp add: write_head_def)
qed

section \<open>Commit and recovery\<close>

lemma log_space_play:
  assumes "log_space a st n blk" "fst ` set ws \<inter> a_dirty a = {}"
  shows "log_space (a_play ws a) st n blk"
proof -
  have "a_dirty a - fst ` set ws = a_dirty a" using assms(2) by blast
  then show ?thesis using assms(1) by (simp add: log_space_def)
qed

lemma log_space_head:
  assumes "log_space a st n blk" "a_dirty c \<subseteq> a_dirty a" "a_size c = a_size a" "a_held c = {}"
  shows "room c st"
proof -
  have f: "finite (a_dirty a)" "a_dirty a = {} \<or> card (a_dirty a) < NBUF" "st + n < a_size a"
    using assms(1) unfolding log_space_def by blast+
  then have "card (a_dirty c) < NBUF" using card_mono [OF f(1) assms(2)] by (auto simp: NBUF_num)
  then show ?thesis using f(3) assms(3,4) by (simp add: room_def)
qed

definition log_part :: "'x lstate_scheme \<Rightarrow> nat \<Rightarrow> (nat \<times> block) list" where
  "log_part s n = map (\<lambda>i. (lg_start s + i + 1, view s (lh_block s i))) [0..<n]"

definition home_part :: "'x lstate_scheme \<Rightarrow> nat \<Rightarrow> (nat \<times> block) list" where
  "home_part s n = map (\<lambda>i. (lh_block s i, view s (lh_block s i))) [0..<n]"

definition full_head :: "'x lstate_scheme \<Rightarrow> nat \<Rightarrow> block" where
  "full_head s n = encode_head (int n) (lh_block s) (view s (lg_start s))"

definition commit_writes :: "'x lstate_scheme \<Rightarrow> nat \<Rightarrow> (nat \<times> block) list" where
  "commit_writes s n = log_part s n @ [(lg_start s, full_head s n)] @ home_part s n @
     [(lg_start s, encode_head 0 (lh_block s) (full_head s n))]"

lemma log_part_fst: "fst ` set (log_part s n) = {lg_start s + i + 1 | i. i < n}"
  by (auto simp: log_part_def image_image)

lemma home_part_fst: "fst ` set (home_part s n) = lh_block s ` {..<n}"
  by (auto simp: home_part_def image_image)

lemma play_log_part: "i < n \<Longrightarrow> play (log_part s n) d (lg_start s + i + 1) = view s (lh_block s i)"
  using play_map [of "\<lambda>i. lg_start s + i + 1" "[0..<n]" i "\<lambda>i. view s (lh_block s i)" d]
  by (simp add: log_part_def distinct_map inj_on_def)

lemma play_home_part:
  "distinct (map (lh_block s) [0..<n]) \<Longrightarrow> i < n \<Longrightarrow> play (home_part s n) d (lh_block s i) = view s (lh_block s i)"
  using play_map [of "lh_block s" "[0..<n]" i "\<lambda>i. view s (lh_block s i)" d] by (simp add: home_part_def)

lemma commit_ok:
  assumes i: "binv s" "lg_dev s = 1" "lh_n s = int n" "0 < n"
    and sp: "log_space (babs s) (lg_start s) n (lh_block s)"
  shows "wp commit (\<lambda>_ t. binv t \<and> brest t = brest (s\<lparr>lh_n := 0\<rparr>) \<and>
     babs t = a_play (commit_writes s n) (babs s)) s"
proof -
  let ?st = "lg_start s" and ?blk = "lh_block s" and ?D = "a_dirty (babs s)"
  have h0: "a_held (babs s) = {}" and nd: "fst ` set (log_part s n) \<inter> ?D = {}" "?st \<notin> ?D"
    using sp unfolding log_space_def log_part_fst by auto
  have nst: "?st \<notin> ?blk ` {..<n}" using log_space_blk(2) [OF sp _ i(4)] by (metis imageE lessThan_iff)
  have stl: "?st \<notin> fst ` set (log_part s n)" "?st \<notin> fst ` set (home_part s n)"
    using nst by (auto simp: log_part_fst home_part_fst)
  define h where "h = full_head s n"
  define w1 where "w1 = log_part s n @ [(?st, h)]"
  have nd1: "fst ` set w1 \<inter> ?D = {}" using nd by (auto simp: w1_def)
  have step4: "wp (kseq (kmod (\<lambda>s. s\<lparr>lh_n := 0\<rparr>)) write_head) (\<lambda>_ t. binv t \<and> brest t = brest (s\<lparr>lh_n := 0\<rparr>) \<and>
     babs t = a_play (commit_writes s n) (babs s)) u"
    if u: "binv u" "brest u = brest s" "babs u = a_play (home_part s n) (a_play w1 (babs s))" for u
  proof -
    note r = rest_log [OF u(2)]
    have "room (babs u) ?st" using u(3) h0 by (intro log_space_head [OF sp]) auto
    moreover have "view u ?st = h" unfolding babs_sel(2) [symmetric] u(3) using stl by (simp add: w1_def play_other)
    moreover have "brest (u\<lparr>lh_n := 0\<rparr>) = brest (s\<lparr>lh_n := 0\<rparr>)" using u(2) by (cases u; cases s; simp add: brest_def)
    moreover have "view (u\<lparr>lh_n := 0\<rparr>) = view u" using cache_of_log(1) [of 0 u] by (simp add: babs_def)
    ultimately show ?thesis
      using u r i(2) write_head_ok [of "u\<lparr>lh_n := 0\<rparr>"]
      by (simp add: commit_writes_def w1_def h_def flip: a_play_append)
  qed
  have step3: "wp (kseq install_trans (kseq (kmod (\<lambda>s. s\<lparr>lh_n := 0\<rparr>)) write_head)) (\<lambda>_ t. binv t \<and>
     brest t = brest (s\<lparr>lh_n := 0\<rparr>) \<and> babs t = a_play (commit_writes s n) (babs s)) u"
    if u: "binv u" "brest u = brest s" "babs u = a_play w1 (babs s)" for u
  proof -
    note r = rest_log [OF u(2)]
    have sp': "log_space (babs u) (lg_start u) n (lh_block u)" using log_space_play [OF sp nd1] u(3) r by simp
    have "view u (?st + k + 1) = view s (?blk k)" if "k < n" for k
      unfolding babs_sel(2) [symmetric] u(3) using play_log_part [OF that, of s "view s"] by (simp add: w1_def babs_sel)
    then have "map (\<lambda>k. (?blk k, view u (?st + k + 1))) [0..<n] = home_part s n" by (simp add: home_part_def)
    then show ?thesis
      using install_trans_ok [OF u(1) _ _ sp'] r i(2,3) u(2,3)
      by (subst wp_kseq) (auto elim!: wp_conseq intro!: step4 [simplified])
  qed
  have step2: "wp (kseq write_head (kseq install_trans (kseq (kmod (\<lambda>s. s\<lparr>lh_n := 0\<rparr>)) write_head)))
     (\<lambda>_ t. binv t \<and> brest t = brest (s\<lparr>lh_n := 0\<rparr>) \<and> babs t = a_play (commit_writes s n) (babs s)) u"
    if u: "binv u" "brest u = brest s" "babs u = a_play (log_part s n) (babs s)" for u
  proof -
    note r = rest_log [OF u(2)]
    have "room (babs u) ?st" using u(3) h0 by (intro log_space_head [OF sp]) auto
    moreover have "view u ?st = view s ?st"
      unfolding babs_sel(2) [symmetric] u(3) using stl by (simp add: play_other)
    ultimately have "wp write_head (\<lambda>_ t. binv t \<and> brest t = brest s \<and> babs t = a_play w1 (babs s)) u"
      using write_head_ok [OF u(1)] r i u(2,3) by (simp add: w1_def h_def full_head_def a_play_append)
    then show ?thesis by (subst wp_kseq) (erule wp_conseq, rule step3, auto)
  qed
  have "wp write_log (\<lambda>_ t. binv t \<and> brest t = brest s \<and> babs t = a_play (log_part s n) (babs s)) s"
    using write_log_ok [OF i(1-3) sp] by (simp add: log_part_def)
  then have "wp (kseq write_log (kseq write_head (kseq install_trans (kseq (kmod (\<lambda>s. s\<lparr>lh_n := 0\<rparr>)) write_head))))
     (\<lambda>_ t. binv t \<and> brest t = brest (s\<lparr>lh_n := 0\<rparr>) \<and> babs t = a_play (commit_writes s n) (babs s)) s"
    by (subst wp_kseq) (erule wp_conseq, rule step2, auto)
  then show ?thesis using i(3,4) by (simp add: commit_def)
qed

text \<open>
  What a reader of the on-disk header relies on: the count fits the array and the space
  conditions hold for the recorded block numbers.
\<close>

definition head_ok :: "(nat \<Rightarrow> block) \<Rightarrow> nat \<Rightarrow> nat \<Rightarrow> nat \<Rightarrow> bool" where
  "head_ok d sz st n \<longleftrightarrow> head_n (d st) = int n \<and> n \<le> LOGSIZE \<and> sz \<le> 2 ^ 31 \<and> st + n < sz \<and> 1 < st \<and>
     (\<forall>i<n. head_block (d st) i < sz \<and> (head_block (d st) i < st \<or> st + n < head_block (d st) i)) \<and>
     distinct (map (head_block (d st)) [0..<n])"

definition recover_writes :: "(nat \<Rightarrow> block) \<Rightarrow> nat \<Rightarrow> nat \<Rightarrow> (nat \<times> block) list" where
  "recover_writes d st n = map (\<lambda>i. (head_block (d st) i, d (st + i + 1))) [0..<n]"

lemma read_head_ok:
  assumes i: "binv s" "lg_dev s = 1" "room (babs s) (lg_start s)" "view s (lg_start s) = disk s (lg_start s)"
    and n: "head_n (disk s (lg_start s)) \<le> int LOGSIZE"
  shows "wp read_head (\<lambda>_ u. binv u \<and> babs u = babs s \<and> brest u = brest (s\<lparr>lh_n := head_n (disk s (lg_start s)),
     lh_block := loaded_blocks (disk s (lg_start s)) (lh_block s)\<rparr>)) s"
proof -
  let ?st = "lg_start s" and ?h = "disk s (lg_start s)"
  let ?Q = "\<lambda>_ u. binv u \<and> babs u = babs s \<and>
    brest u = brest (s\<lparr>lh_n := head_n ?h, lh_block := loaded_blocks ?h (lh_block s)\<rparr>)"
  have "wp (kbind (bread 1 ?st) (\<lambda>i. kbind (bdata i) (\<lambda>d. if int LOGSIZE < head_n d then kpanic ''read_head: lh.block overrun''
     else kseq (kmod (\<lambda>s. s\<lparr>lh_n := head_n d, lh_block := loaded_blocks d (lh_block s)\<rparr>)) (brelse i)))) ?Q s"
  proof (rule bc.hold_idiom [OF i(1,3)], rule bc.data_idiom, assumption, assumption)
    fix b t
    assume t: "binv t" "bhold t b ?st" "babs t = a_hold ?st (babs s)" "brest t = brest s"
    let ?u = "t\<lparr>lh_n := head_n ?h, lh_block := loaded_blocks ?h (lh_block s)\<rparr>"
    have vh: "a_view (babs t) ?st = ?h" using t(3) i(4) by (simp add: babs_def a_hold_def)
    have "wp (kseq (brelse b) (kret ())) ?Q ?u"
    proof (rule bc.drop_idiom)
      show "binv ?u" "bhold ?u b ?st" using t by simp_all
      show "?st \<in> a_dirty (babs ?u) \<or> a_view (babs ?u) ?st = a_home (babs ?u) ?st"
        using t(3) i(4) by (simp add: a_hold_def babs_sel)
      have "brest ?u = brest (s\<lparr>lh_n := head_n ?h, lh_block := loaded_blocks ?h (lh_block s)\<rparr>)"
        using t(4) by (cases t; cases s; simp add: brest_def)
      moreover have "?st \<notin> a_held (babs s)" using i(3) by (simp add: room_def)
      ultimately show "binv v \<Longrightarrow> babs v = a_release ?st (babs ?u) \<Longrightarrow> brest v = brest ?u \<Longrightarrow>
        wp (kret ()) ?Q v" for v using t(3) by (simp add: release_hold)
    qed
    then show "wp (if int LOGSIZE < head_n (a_view (babs t) ?st) then kpanic ''read_head: lh.block overrun''
     else kseq (kmod (\<lambda>s. s\<lparr>lh_n := head_n (a_view (babs t) ?st),
        lh_block := loaded_blocks (a_view (babs t) ?st) (lh_block s)\<rparr>)) (brelse b)) ?Q t"
      unfolding vh using n rest_log(7) [OF t(4)] by simp
  qed
  then show ?thesis using i(2) by (simp add: read_head_def)
qed

lemma recover_ok:
  assumes i: "binv s" "lg_dev s = 1" "a_held (babs s) = {}" "a_dirty (babs s) = {}" "view s = disk s"
    and ok: "head_ok (disk s) (disksize s) (lg_start s) n"
  shows "wp recover_from_log (\<lambda>_ t. binv t \<and> brest t = brest (s\<lparr>lh_n := 0, lh_block := lh_block t\<rparr>) \<and>
     babs t = a_play (recover_writes (disk s) (lg_start s) n @
       [(lg_start s, encode_head 0 (lh_block t) (disk s (lg_start s)))]) (babs s)) s"
proof -
  let ?st = "lg_start s" and ?h = "disk s (lg_start s)"
  let ?Q = "\<lambda>_ t. binv t \<and> brest t = brest (s\<lparr>lh_n := 0, lh_block := lh_block t\<rparr>) \<and>
     babs t = a_play (recover_writes (disk s) ?st n @ [(?st, encode_head 0 (lh_block t) ?h)]) (babs s)"
  have hn: "head_n ?h = int n" "n \<le> LOGSIZE" "?st < disksize s" using ok by (auto simp: head_ok_def)
  have stn: "?st \<notin> fst ` set (recover_writes (disk s) ?st n)"
    using ok by (auto simp: head_ok_def recover_writes_def)
  define g where "g = loaded_blocks ?h (lh_block s)"
  have gj: "\<forall>j<n. g j = head_block ?h j" using hn(1) by (simp add: g_def loaded_blocks_def)
  then have mg: "map g [0..<n] = map (head_block ?h) [0..<n]" by simp
  have tail: "wp (kseq install_trans (kseq (kmod (\<lambda>s. s\<lparr>lh_n := 0\<rparr>)) write_head)) ?Q u"
    if u: "binv u" "babs u = babs s" "brest u = brest (s\<lparr>lh_n := int n, lh_block := g\<rparr>)" for u
  proof -
    have r: "lg_start u = ?st" "lg_dev u = 1" "lh_n u = int n" "lh_block u = g"
      using rest_log [OF u(3)] i(2) by simp_all
    have "distinct (map g [0..<n])" using ok unfolding mg by (simp add: head_ok_def)
    then have sp: "log_space (babs u) (lg_start u) n (lh_block u)"
      using ok i(3,4) u(2) gj unfolding r by (simp add: log_space_def head_ok_def babs_def)
    have v: "view u = disk s" using u(2) i(5) by (simp add: babs_def)
    have eq: "map (\<lambda>k. (lh_block u k, view u (lg_start u + k + 1))) [0..<n] = recover_writes (disk s) ?st n"
      using gj by (simp add: recover_writes_def r v)
    show ?thesis
    proof (subst wp_kseq, rule wp_conseq [OF install_trans_ok [OF u(1) r(2,3) sp]], unfold eq)
      fix x v
      assume v: "binv v \<and> brest v = brest u \<and> babs v = a_play (recover_writes (disk s) ?st n) (babs u)"
      have q: "lg_start v = ?st" "lg_dev v = 1" "lh_block v = g" using rest_log [of v u] v r by simp_all
      have rm: "room (babs v) ?st" using v u(2) i(3,4) hn(3) by (simp add: room_def babs_def NBUF_num)
      have vs: "view (v\<lparr>lh_n := 0\<rparr>) = view v" using cache_of_log(1) [of 0 v] by (simp add: babs_def)
      have vw: "view v ?st = ?h" using v u(2) i(5) stn babs_sel(2) [of v, symmetric] by (simp add: babs_sel play_other)
      have rv: "brest (v\<lparr>lh_n := 0\<rparr>) = brest (s\<lparr>lh_n := 0, lh_block := g\<rparr>)"
        using v u(3) by (cases v; cases u; cases s; simp add: brest_def)
      have "wp write_head (\<lambda>_ t. binv t \<and> brest t = brest (v\<lparr>lh_n := 0\<rparr>) \<and>
         babs t = a_play [(?st, encode_head 0 g ?h)] (babs v)) (v\<lparr>lh_n := 0\<rparr>)"
        using write_head_ok [of "v\<lparr>lh_n := 0\<rparr>"] v q rm vs vw by simp
      then have "wp write_head ?Q (v\<lparr>lh_n := 0\<rparr>)"
      proof (rule wp_conseq)
        fix x t
        assume t: "binv t \<and> brest t = brest (v\<lparr>lh_n := 0\<rparr>) \<and> babs t = a_play [(?st, encode_head 0 g ?h)] (babs v)"
        have "lh_block t = g" using t rest_log(7) [of t "v\<lparr>lh_n := 0\<rparr>"] q(3) by simp
        then show "?Q x t" using t v u(2) rv by (simp add: a_play_append)
      qed
      then show "wp (kseq (kmod (\<lambda>s. s\<lparr>lh_n := 0\<rparr>)) write_head) ?Q v" by simp
    qed
  qed
  have rm: "room (babs s) ?st" using i(3,4) hn(3) by (simp add: room_def babs_def NBUF_num)
  have "wp read_head (\<lambda>_ u. binv u \<and> babs u = babs s \<and> brest u = brest (s\<lparr>lh_n := int n, lh_block := g\<rparr>)) s"
    using read_head_ok [OF i(1,2) rm] i(5) hn by (simp add: g_def)
  then show ?thesis unfolding recover_from_log_def
    by (subst wp_kseq) (erule wp_conseq, rule tail, auto)
qed

text \<open>
  A machine that has just been switched on with a given disk: everything in memory is zero.
  \<open>reboot\<close> is the part of start-up that concerns the disk, \<^verbatim>\<open>binit\<close> in \<^verbatim>\<open>main\<close> and \<^verbatim>\<open>initlog(ROOTDEV)\<close>
  in \<^verbatim>\<open>forkret\<close>.
\<close>

definition power_on :: "(nat \<Rightarrow> block) \<Rightarrow> nat \<Rightarrow> lstate" where
  "power_on d n = \<lparr>disk = d, disksize = n, dtrace = [], bufs = \<lambda>_. zero_buf, curpid = 1,
     lg_start = 0, lg_size = 0, outstanding = 0, committing = False, lg_dev = 0, lh_n = 0, lh_block = \<lambda>_. 0\<rparr>"

definition reboot :: "('x lstate_scheme, unit) kmon" where
  "reboot = kseq binit (initlog 1)"

lemma readsb_ok:
  assumes "binv s" "room (babs s) 1"
  shows "wp (readsb 1) (\<lambda>sb t. sb = decode_sb (view s 1) \<and> binv t \<and> babs t = babs s \<and> brest t = brest s) s"
  unfolding readsb_def by (rule bc.read_idiom [OF assms]) (simp add: bc.quiet_def babs_sel)

definition recovered :: "(nat \<Rightarrow> block) \<Rightarrow> nat \<Rightarrow> nat \<Rightarrow> nat \<Rightarrow> lstate \<Rightarrow> bool" where
  "recovered d sz st n u \<longleftrightarrow> binv u \<and> lg_start u = st \<and> lg_dev u = 1 \<and> lh_n u = 0 \<and> outstanding u = 0 \<and>
     \<not> committing u \<and> lg_size u = s32 (sb_nlog (decode_sb (d 1))) \<and>
     babs u = \<lparr>a_size = sz, a_view = disk u, a_home = disk u, a_trace = dtrace u, a_held = {}, a_dirty = {}\<rparr> \<and>
     dtrace u = recover_writes d st n @ [(st, encode_head 0 (lh_block u) (d st))] \<and> disk u = play (dtrace u) d"

lemma reboot_ok:
  assumes "sb_logstart (decode_sb (d 1)) = st" "head_ok d sz st n"
  shows "wp reboot (\<lambda>_. recovered d sz st n) (power_on d sz)"
proof -
  let ?a = "\<lparr>a_size = sz, a_view = d, a_home = d, a_trace = [], a_held = {}, a_dirty = {}\<rparr>"
  let ?sb = "decode_sb (d 1)"
  have sz: "1 < sz" using assms(2) by (auto simp: head_ok_def)
  have tail: "wp (kseq (kmod (\<lambda>s. s\<lparr>lg_start := sb_logstart ?sb, lg_size := s32 (sb_nlog ?sb), lg_dev := 1\<rparr>)) recover_from_log)
      (\<lambda>_. recovered d sz st n) u"
    if u: "binv u" "babs u = ?a" "brest u = brest (power_on d sz)" for u
  proof -
    let ?v = "u\<lparr>lg_start := sb_logstart ?sb, lg_size := s32 (sb_nlog ?sb), lg_dev := 1\<rparr>"
    have v: "binv ?v" "babs ?v = ?a" "lg_start ?v = st" "lg_dev ?v = 1" using u assms(1) by simp_all
    have e: "view ?v = d" "disk ?v = d" "disksize ?v = sz" using v(2) by (simp_all add: babs_def)
    have "wp recover_from_log (\<lambda>_. recovered d sz st n) ?v"
    proof (rule wp_conseq [OF recover_ok [of ?v n]])
      show "head_ok (disk ?v) (disksize ?v) (lg_start ?v) n" using assms(2) e v(3) by simp
      fix x t
      assume t: "binv t \<and> brest t = brest (?v\<lparr>lh_n := 0, lh_block := lh_block t\<rparr>) \<and>
        babs t = a_play (recover_writes (disk ?v) (lg_start ?v) n @
          [(lg_start ?v, encode_head 0 (lh_block t) (disk ?v (lg_start ?v)))]) (babs ?v)"
      have r: "lg_start t = st" "lg_dev t = 1" "lh_n t = 0" "lg_size t = s32 (sb_nlog ?sb)"
        using rest_log [of t "?v\<lparr>lh_n := 0, lh_block := lh_block t\<rparr>"] t v by simp_all
      have r': "outstanding t = 0" "\<not> committing t"
        using rest_log(3,4) [of t "?v\<lparr>lh_n := 0, lh_block := lh_block t\<rparr>"] rest_log(3,4) [OF u(3)] t
        by (simp_all add: power_on_def)
      have "babs t = a_play (recover_writes d st n @ [(st, encode_head 0 (lh_block t) (d st))]) ?a"
        using t e v by simp
      then show "recovered d sz st n t" using t r r'
        by (simp add: recovered_def) (simp add: babs_def a_play_def)
    qed (use v e in auto)
    then show ?thesis by simp
  qed
  have "wp (kbind (readsb 1) (\<lambda>sb. kseq (kmod (\<lambda>s. s\<lparr>lg_start := sb_logstart sb, lg_size := s32 (sb_nlog sb), lg_dev := 1\<rparr>))
      recover_from_log)) (\<lambda>_. recovered d sz st n) u"
    if u: "binv u" "babs u = ?a" "brest u = brest (power_on d sz)" for u
  proof (subst wp_kbind, rule wp_conseq [OF readsb_ok [OF u(1)]])
    show "room (babs u) 1" using u(2) sz by (simp add: room_def NBUF_num)
    fix sb t
    assume t: "sb = decode_sb (view u 1) \<and> binv t \<and> babs t = babs u \<and> brest t = brest u"
    moreover have "view u 1 = d 1" using u(2) by (simp add: babs_def)
    ultimately show "wp (kseq (kmod (\<lambda>s. s\<lparr>lg_start := sb_logstart sb, lg_size := s32 (sb_nlog sb), lg_dev := 1\<rparr>))
      recover_from_log) (\<lambda>_. recovered d sz st n) t" using tail [of t] u by simp
  qed
  then have "binv u \<and> babs u = ?a \<and> brest u = brest (power_on d sz) \<Longrightarrow> wp (initlog 1) (\<lambda>_. recovered d sz st n) u" for u
    by (simp add: initlog_def BSIZE_num LOGSIZE_num)
  moreover have "wp binit (\<lambda>_ u. binv u \<and> babs u = ?a \<and> brest u = brest (power_on d sz)) (power_on d sz)"
    by (rule wp_conseq [OF binit_ok]) (auto simp: power_on_def)
  ultimately show ?thesis unfolding reboot_def
    by (subst wp_kseq) (auto elim!: wp_conseq)
qed

text \<open>
  A consistent log: exactly the logged blocks are pinned, the on-disk header is empty, and the
  log area, the superblock and the logged blocks do not overlap. The log has at most as many
  blocks as \<^verbatim>\<open>mkfs\<close> gives it. \<open>log_inv\<close>: in addition no buffer is held.
\<close>

definition log_wf :: "'x lstate_scheme \<Rightarrow> bool" where
  "log_wf s \<longleftrightarrow> binv s \<and> lg_dev s = 1 \<and> 0 \<le> lh_n s \<and> lh_n s < lg_size s \<and> lg_size s \<le> int LOGSIZE \<and>
     1 < lg_start s \<and> int (lg_start s) + lg_size s \<le> int (disksize s) \<and> disksize s \<le> 2 ^ 31 \<and>
     dirtyblks s = lh_block s ` {..<nat (lh_n s)} \<and> distinct (map (lh_block s) [0..<nat (lh_n s)]) \<and>
     (\<forall>i<nat (lh_n s). lh_block s i \<noteq> 1 \<and> lh_block s i < disksize s \<and>
        (lh_block s i < lg_start s \<or> int (lg_start s) + lg_size s \<le> int (lh_block s i))) \<and>
     head_n (disk s (lg_start s)) = 0 \<and> sb_logstart (decode_sb (disk s 1)) = lg_start s"

definition log_inv :: "'x lstate_scheme \<Rightarrow> bool" where
  "log_inv s \<longleftrightarrow> log_wf s \<and> heldblks s = {}"

lemma log_inv_space:
  assumes "log_inv s"
  shows "log_space (babs s) (lg_start s) (nat (lh_n s)) (lh_block s)"
proof -
  let ?n = "nat (lh_n s)"
  have "card (lh_block s ` {..<?n}) \<le> ?n" using card_image_le [of "{..<?n}"] by simp
  moreover have "?n < NBUF" using assms by (simp add: log_inv_def log_wf_def NBUF_num LOGSIZE_num nat_less_iff)
  ultimately have "card (lh_block s ` {..<?n}) < NBUF" by simp
  moreover have "lg_start s + ?n < disksize s" using assms by (auto simp: log_inv_def log_wf_def)
  moreover have "\<forall>i<?n. lh_block s i < lg_start s \<or> lg_start s + ?n < lh_block s i"
  proof (intro allI impI)
    fix i assume "i < ?n"
    then have "lh_block s i < lg_start s \<or> int (lg_start s) + lg_size s \<le> int (lh_block s i)" "lh_n s < lg_size s" "0 \<le> lh_n s"
      using assms unfolding log_inv_def log_wf_def by blast+
    then show "lh_block s i < lg_start s \<or> lg_start s + ?n < lh_block s i" by auto
  qed
  ultimately show ?thesis using assms by (auto simp: log_inv_def log_wf_def log_space_def babs_sel)
qed

text \<open>The disk after a crash in the three phases of a commit, and after recovering from it.\<close>

lemma log_inv_view: "log_inv s \<Longrightarrow> b \<notin> lh_block s ` {..<nat (lh_n s)} \<Longrightarrow> view s b = disk s b"
  by (rule view_clean) (auto simp: log_inv_def log_wf_def)

lemma log_inv_sb: "log_inv s \<Longrightarrow> view s 1 = disk s 1"
  by (rule log_inv_view) (auto simp: log_inv_def log_wf_def)

lemma empty_head_recovery:
  assumes "sb_logstart (decode_sb (d 1)) = st" "1 < st" "st < sz" "sz \<le> 2 ^ 31" "head_n (d st) = 0"
  shows "wp reboot (\<lambda>_ u. recovered d sz st 0 u \<and> (\<forall>b. b \<noteq> st \<longrightarrow> disk u b = d b)) (power_on d sz)"
proof -
  have "head_ok d sz st 0" using assms by (simp add: head_ok_def)
  from reboot_ok [OF assms(1) this] show ?thesis
    by (rule wp_conseq) (auto simp: recovered_def recover_writes_def)
qed

lemma full_head_recovery:
  assumes inv: "log_inv s" and n: "n = nat (lh_n s)" and d: "d st = full_head s n" "\<And>i. i < n \<Longrightarrow> d (st + i + 1) = view s (lh_block s i)"
    "d 1 = disk s 1" and st: "st = lg_start s"
  shows "wp reboot (\<lambda>_ u. recovered d (disksize s) st n u \<and> (\<forall>b. b \<noteq> st \<longrightarrow> disk u b = play (home_part s n) d b))
    (power_on d (disksize s))"
proof -
  note sp = log_inv_space [OF inv, folded n st]
  have nl: "n \<le> LOGSIZE" using inv by (auto simp: log_inv_def log_wf_def n nat_le_iff)
  have dis: "distinct (map (lh_block s) [0..<n])" using inv by (simp add: log_inv_def log_wf_def n)
  have hn: "head_n (d st) = int n" using nl by (simp add: d(1) full_head_def head_n_encode)
  have hb: "head_block (d st) i = lh_block s i" if "i < n" for i
    unfolding d(1) full_head_def using that nl log_space_blk(6) [OF sp _ that]
    by (intro head_block_fold) simp_all
  have rw: "recover_writes d st n = home_part s n" using d(2) hb by (simp add: recover_writes_def home_part_def)
  have mp: "map (head_block (d st)) [0..<n] = map (lh_block s) [0..<n]" using hb by simp
  have "head_ok d (disksize s) st n"
    unfolding head_ok_def mp using hn nl dis sp hb inv by (auto simp: log_space_def log_inv_def log_wf_def babs_sel st)
  moreover have "sb_logstart (decode_sb (d 1)) = st" using inv d(3) st by (simp add: log_inv_def log_wf_def)
  ultimately have "wp reboot (\<lambda>_. recovered d (disksize s) st n) (power_on d (disksize s))" by (intro reboot_ok)
  then show ?thesis by (rule wp_conseq) (auto simp: recovered_def rw)
qed

lemma home_part_view:
  assumes inv: "log_inv s" and e: "\<And>b. b \<notin> R \<Longrightarrow> b \<notin> lh_block s ` {..<nat (lh_n s)} \<Longrightarrow> e b = disk s b"
  shows "b \<notin> R \<Longrightarrow> play (home_part s (nat (lh_n s))) e b = view s b"
proof (cases "b \<in> lh_block s ` {..<nat (lh_n s)}")
  case True
  then obtain i where "i < nat (lh_n s)" "b = lh_block s i" by auto
  then show ?thesis using inv play_home_part [of s "nat (lh_n s)" i e] by (simp add: log_inv_def log_wf_def)
next
  case False
  assume "b \<notin> R"
  then show ?thesis using False e log_inv_view [OF inv False] by (simp add: play_other home_part_fst)
qed

lemma crash_recovery:
  assumes inv: "log_inv s" and n: "n = nat (lh_n s)" "0 < n" and st: "st = lg_start s"
  defines "d k \<equiv> play (take k (commit_writes s n)) (disk s)"
  shows "wp reboot (\<lambda>_ u. binv u \<and> dirtyblks u = {} \<and> heldblks u = {} \<and> (\<forall>b. b \<notin> {st..st + n} \<longrightarrow>
     disk u b = (if k \<le> n then disk s b else view s b))) (power_on (d k) (disksize s))"
proof -
  let ?R = "{st..st + n}"
  note sp = log_inv_space [OF inv, folded n(1) st]
  have sz: "1 < st" "st < disksize s" "disksize s \<le> 2 ^ 31" "sb_logstart (decode_sb (disk s 1)) = st" "head_n (disk s st) = 0"
    using inv by (auto simp: log_inv_def log_wf_def st)
  have fs: "fst ` set (log_part s n) \<subseteq> ?R - {st}" "fst ` set (home_part s n) \<inter> ?R = {}" "1 \<notin> fst ` set (home_part s n)"
    using log_space_blk(1,2) [OF sp] sp inv
    by (auto simp: log_part_fst home_part_fst st log_space_def log_inv_def log_wf_def n)
  have out: "fst ` set (take j (log_part s n)) \<subseteq> ?R - {st}" for j
    using fs(1) by (auto dest!: in_set_takeD)
  have outh: "fst ` set (take j (home_part s n)) \<subseteq> fst ` set (home_part s n)" for j by (auto dest!: in_set_takeD)
  have lo: "b \<notin> ?R \<Longrightarrow> play (log_part s n) (disk s) b = disk s b" for b using fs(1) by (intro play_other) blast
  have len: "length (log_part s n) = n" "length (home_part s n) = n" by (simp_all add: log_part_def home_part_def)
  have rec: "recovered e z st m u \<Longrightarrow> binv u \<and> dirtyblks u = {} \<and> heldblks u = {}" for e z m u
    by (auto simp: recovered_def babs_def)
  consider (log) "k \<le> n" | (home) "n < k" "k \<le> 2 * n + 1" | (all) "2 * n + 1 < k" by linarith
  then show ?thesis
  proof cases
    case log
    then have dk: "d k = play (take k (log_part s n)) (disk s)" by (simp add: d_def commit_writes_def len)
    have o: "b \<notin> ?R - {st} \<Longrightarrow> d k b = disk s b" for b unfolding dk using out by (intro play_other) blast
    have "d k 1 = disk s 1" "d k st = disk s st" using o sz(1) by auto
    then show ?thesis
      using empty_head_recovery [of "d k" st "disksize s"] sz log o rec by (fastforce elim!: wp_conseq)
  next
    case home
    then have dk: "d k = play (take (k - n - 1) (home_part s n)) ((play (log_part s n) (disk s))(st := full_head s n))"
      by (simp add: d_def commit_writes_def len st take_Cons')
    have h: "b \<notin> fst ` set (home_part s n) \<Longrightarrow> d k b = ((play (log_part s n) (disk s))(st := full_head s n)) b" for b
      unfolding dk using outh by (intro play_other) blast
    have "st \<notin> fst ` set (home_part s n)" using fs(2) by auto
    then have d1: "d k st = full_head s n" using h by simp
    have d2: "d k (st + i + 1) = view s (lh_block s i)" if "i < n" for i
    proof -
      have "st + i + 1 \<in> ?R" using that by auto
      then have "st + i + 1 \<notin> fst ` set (home_part s n)" using fs(2) by blast
      then show ?thesis using h [of "st + i + 1"] play_log_part [OF that, of s "disk s"] by (simp add: st)
    qed
    have d3: "d k 1 = disk s 1" using h [OF fs(3)] sz(1) lo [of 1] by simp
    have e: "d k b = disk s b" if "b \<notin> ?R" "b \<notin> lh_block s ` {..<n}" for b
      using h [of b] that lo [of b] by (auto simp: home_part_fst)
    have "wp reboot (\<lambda>_ u. recovered (d k) (disksize s) st n u \<and> (\<forall>b. b \<noteq> st \<longrightarrow> disk u b = play (home_part s n) (d k) b)) (power_on (d k) (disksize s))"
      by (rule full_head_recovery [where d = "d k", OF inv n(1) d1 d2 d3 st])
    then show ?thesis
    proof (rule wp_conseq)
      fix x u
      assume u: "recovered (d k) (disksize s) st n u \<and> (\<forall>b. b \<noteq> st \<longrightarrow> disk u b = play (home_part s n) (d k) b)"
      have "b \<notin> ?R \<Longrightarrow> disk u b = view s b" for b
        using u home_part_view [OF inv, of ?R "d k" b] e by (auto simp: n)
      then show "binv u \<and> dirtyblks u = {} \<and> heldblks u = {} \<and> (\<forall>b. b \<notin> ?R \<longrightarrow> disk u b = (if k \<le> n then disk s b else view s b))"
        using rec u home by auto
    qed
  next
    case all
    define e where "e = (play (log_part s n) (disk s))(st := full_head s n)"
    have dk: "d k = (play (home_part s n) e)(st := encode_head 0 (lh_block s) (full_head s n))"
      using all by (simp add: d_def commit_writes_def len st take_Cons' e_def)
    have v: "b \<notin> ?R \<Longrightarrow> d k b = view s b" for b
    proof -
      assume b: "b \<notin> ?R"
      have "e b = disk s b" if "b \<notin> ?R" for b
        using that lo [of b] unfolding e_def by auto
      then show ?thesis using b home_part_view [OF inv, of ?R e b] by (auto simp: dk n)
    qed
    have "d k 1 = disk s 1" using v [of 1] sz(1) log_inv_sb [OF inv] by simp
    moreover have "head_n (d k st) = 0" by (simp add: dk head_n_encode)
    ultimately show ?thesis
      using empty_head_recovery [of "d k" st "disksize s"] sz all v rec by (fastforce elim!: wp_conseq)
  qed
qed

section \<open>Recording a block in the transaction\<close>

lemma log_index_new: "b \<notin> lh_block s ` {..<nat (lh_n s)} \<Longrightarrow> log_index s b = nat (lh_n s)"
proof -
  assume "b \<notin> lh_block s ` {..<nat (lh_n s)}"
  then have "find (\<lambda>j. lh_block s j = b) [0..<nat (lh_n s)] = None" by (auto simp: find_None_iff)
  then show ?thesis by (simp add: log_index_def)
qed

lemma log_index_old:
  assumes "b \<in> lh_block s ` {..<nat (lh_n s)}"
  shows "log_index s b < nat (lh_n s)" "lh_block s (log_index s b) = b"
proof -
  obtain j where j: "find (\<lambda>j. lh_block s j = b) [0..<nat (lh_n s)] = Some j"
    using assms by (cases "find (\<lambda>j. lh_block s j = b) [0..<nat (lh_n s)]") (auto simp: find_None_iff)
  then show "log_index s b < nat (lh_n s)" "lh_block s (log_index s b) = b"
    using find_SomeD [OF j] by (auto simp: log_index_def)
qed

text \<open>Absorption: recording a block that is in the log already changes nothing.\<close>

lemma log_record_old: "b \<in> lh_block s ` {..<nat (lh_n s)} \<Longrightarrow> log_record b s = s"
  using log_index_old [of b s] by (cases s) (auto simp: log_record_def Let_def fun_upd_idem)

lemma log_record_new: "0 \<le> lh_n s \<Longrightarrow> b \<notin> lh_block s ` {..<nat (lh_n s)} \<Longrightarrow>
    log_record b s = s\<lparr>lh_block := (lh_block s)(nat (lh_n s) := b), lh_n := lh_n s + 1\<rparr>"
  by (simp add: log_record_def log_index_new Let_def)

lemma babs_log_record [simp]: "babs (log_record b s) = babs s" "binv (log_record b s) = binv s"
  "bhold (log_record b s) = bhold s"
  by (simp_all add: log_record_def Let_def)

text \<open>What a transaction keeps besides the list of logged blocks.\<close>

definition lrest :: "'x lstate_scheme \<Rightarrow> (nat \<times> int \<times> int) \<times> bool \<times> nat \<times> int \<times> nat \<times> 'x" where
  "lrest s = ((lg_start s, lg_size s, outstanding s), committing s, lg_dev s, curpid s, disksize s, lstate.more s)"

definition loggable :: "(nat \<times> int \<times> int) \<times> 'y \<Rightarrow> nat \<Rightarrow> bool" where
  "loggable r b \<longleftrightarrow> (case r of ((st, sz, out), _) \<Rightarrow> b \<noteq> 1 \<and> (b < st \<or> int st + sz \<le> int b))"

definition log_limit :: "(nat \<times> int \<times> int) \<times> 'y \<Rightarrow> nat" where
  "log_limit r = (case r of ((st, sz, out), _) \<Rightarrow> nat (sz - 1))"

definition in_txn :: "'x lstate_scheme \<Rightarrow> bool" where
  "in_txn s \<longleftrightarrow> log_wf s \<and> 1 \<le> outstanding s"

lemma lrest_log_record: "lrest (log_record b s) = lrest s"
proof -
  have "disksize (log_record b s) = disksize s" by (simp add: log_record_def Let_def)
  then show ?thesis by (simp add: lrest_def log_record_def Let_def)
qed

lemma card_logged: "log_wf s \<Longrightarrow> int (card (dirtyblks s)) = lh_n s"
  by (auto simp: log_wf_def distinct_map card_image lessThan_atLeast0)

lemma log_record_wf:
  assumes wf: "log_wf s" and b: "loggable (lrest s) b" "b < disksize s"
    and n: "card (dirtyblks s) < log_limit (lrest s)"
    and t: "binv t" "babs t = a_pin b (babs s)" "brest t = brest (log_record b s)" "disksize t = disksize s" "disk t = disk s"
  shows "log_wf t"
proof (cases "b \<in> lh_block s ` {..<nat (lh_n s)}")
  case True
  then have "dirtyblks t = dirtyblks s" using wf t(2) by (auto simp: log_wf_def babs_def a_pin_def)
  then show ?thesis using wf t rest_log [OF t(3)] by (simp add: log_record_old [OF True] log_wf_def)
next
  case False
  have n0: "0 \<le> lh_n s" using wf by (simp add: log_wf_def)
  define m where "m = nat (lh_n s)"
  have r: "lh_n t = int (Suc m)" "lh_block t = (lh_block s)(m := b)" "lg_start t = lg_start s" "lg_size t = lg_size s" "lg_dev t = lg_dev s"
    using rest_log [OF t(3)] n0 by (simp_all add: log_record_new [OF n0 False] m_def)
  have m: "nat (lh_n t) = Suc m" using r by simp
  have im: "lh_block t ` {..<Suc m} = insert b (lh_block s ` {..<m})" using r by (auto simp: lessThan_Suc image_iff)
  have bl: "lh_block t i = (if i = m then b else lh_block s i)" for i using r by simp
  have "distinct (map (lh_block t) [0..<Suc m])"
    using False wf by (auto simp: log_wf_def m_def r distinct_map image_iff fun_upd_def inj_on_def)
  moreover have "dirtyblks t = insert b (dirtyblks s)" using t(2) by (simp add: babs_def a_pin_def)
  then have "dirtyblks t = lh_block t ` {..<Suc m}" using wf im by (simp add: log_wf_def m_def)
  moreover have "int m < lg_size s - 1"
    using n card_logged [OF wf] by (simp add: log_limit_def lrest_def m_def n0)
  ultimately show ?thesis using wf b t r unfolding log_wf_def m
    by (auto simp: m_def loggable_def lrest_def bl less_Suc_eq)
qed

lemma log_write_ok:
  assumes "in_txn s" "bhold s i b" "loggable (lrest s) b" "card (a_dirty (babs s)) < log_limit (lrest s)"
  shows "wp (log_write i) (\<lambda>_ t. in_txn t \<and> (\<forall>j c. bhold s j c \<longrightarrow> bhold t j c) \<and>
     babs t = a_pin b (babs s) \<and> lrest t = lrest s) s"
proof -
  have wf: "log_wf s" and o: "\<not> outstanding s < 1" and inv: "binv s" using assms(1) by (auto simp: in_txn_def log_wf_def)
  have b: "blockno (bufs s i) = b" "b < disksize s" using assms(2) bc.hold_held [OF inv assms(2)]
    by (auto simp: bhold_def babs_sel)
  have lim: "\<not> (int LOGSIZE \<le> lh_n s \<or> lg_size s - 1 \<le> lh_n s)"
    using assms(4) card_logged [OF wf] wf by (auto simp: babs_sel log_limit_def lrest_def log_wf_def)
  have eq: "log_write i s = bpin i (log_record b s)" using lim o b by (simp add: log_write_def)
  have h: "binv (log_record b s)" "bhold (log_record b s) i b" using inv assms(2) by simp_all
  have "wp (bpin i) (\<lambda>_ t. in_txn t \<and> (\<forall>j c. bhold s j c \<longrightarrow> bhold t j c) \<and>
     babs t = a_pin b (babs s) \<and> lrest t = lrest s) (log_record b s)"
  proof (rule wp_conseq [OF bpin_ok [OF h]])
    fix x t
    assume t: "binv t \<and> (\<forall>j c. bhold (log_record b s) j c \<longrightarrow> bhold t j c) \<and>
      babs t = a_pin b (babs (log_record b s)) \<and> brest t = brest (log_record b s)"
    then have "babs t = a_pin b (babs s)" by simp
    then have a: "disksize t = disksize s" "disk t = disk s" by (simp_all add: babs_def a_pin_def)
    have wft: "log_wf t" using t a assms(3,4) b by (intro log_record_wf [OF wf]) (simp_all add: babs_sel)
    have l: "lrest t = lrest s"
      using rest_log [of t "log_record b s"] t a(1) lrest_log_record [of b s] by (simp add: lrest_def)
    then have "outstanding t = outstanding s" by (simp add: lrest_def)
    then show "in_txn t \<and> (\<forall>j c. bhold s j c \<longrightarrow> bhold t j c) \<and> babs t = a_pin b (babs s) \<and> lrest t = lrest s"
      using t wft l assms(1) by (simp add: in_txn_def)
  qed
  then show ?thesis by (simp add: wp_def eq)
qed

text \<open>The cache operations keep a transaction consistent.\<close>

lemma in_txn_keep:
  assumes "in_txn s" "binv t" "brest t = brest s" "a_home (babs t) = a_home (babs s)"
    "a_dirty (babs t) = a_dirty (babs s)" "a_size (babs t) = a_size (babs s)"
  shows "in_txn t \<and> lrest t = lrest s"
  using assms rest_log [OF assms(3)] by (simp add: in_txn_def log_wf_def babs_sel lrest_def)

interpretation lc: logged_cache "bread 1" bdata bmodify brelse in_txn bhold babs lrest log_write loggable log_limit
proof unfold_locales
  fix s :: "'x lstate_scheme" and b i and f
  assume s: "in_txn s"
  have v: "binv s" using s by (simp add: in_txn_def log_wf_def)
  show "room (babs s) b \<Longrightarrow> wp (bread 1 b) (\<lambda>i t. in_txn t \<and> bhold t i b \<and> (\<forall>j c. bhold s j c \<longrightarrow> bhold t j c) \<and>
      babs t = a_hold b (babs s) \<and> lrest t = lrest s) s"
    by (rule wp_conseq [OF bc.bread_law [OF v]]) (use in_txn_keep [OF s] in \<open>auto simp: a_hold_def\<close>)
  show "bhold s i b \<Longrightarrow> wp (bdata i) (\<lambda>d t. d = a_view (babs s) b \<and> t = s) s"
    by (rule bc.bdata_law [OF v])
  show "bhold s i b \<Longrightarrow> wp (bmodify i f) (\<lambda>_ t. in_txn t \<and> (\<forall>j c. bhold s j c \<longrightarrow> bhold t j c) \<and>
      babs t = a_store b (f (a_view (babs s) b)) (babs s) \<and> lrest t = lrest s) s"
    by (rule wp_conseq [OF bc.bmodify_law [OF v]]) (use in_txn_keep [OF s] in \<open>auto simp: a_store_def\<close>)
  show "bhold s i b \<Longrightarrow> b \<in> a_dirty (babs s) \<or> a_view (babs s) b = a_home (babs s) b \<Longrightarrow>
      wp (brelse i) (\<lambda>_ t. in_txn t \<and> (\<forall>j c. bhold s j c \<longrightarrow> c \<noteq> b \<longrightarrow> bhold t j c) \<and>
      babs t = a_release b (babs s) \<and> lrest t = lrest s) s"
    by (rule wp_conseq [OF bc.brelse_law [OF v]]) (use in_txn_keep [OF s] in \<open>auto simp: a_release_def\<close>)
  show "b \<notin> a_dirty (babs s) \<Longrightarrow> b \<notin> a_held (babs s) \<Longrightarrow> a_view (babs s) b = a_home (babs s) b"
    by (rule bc.clean_law [OF v])
  show "bhold s i b \<Longrightarrow> b \<in> a_held (babs s) \<and> b < a_size (babs s)" by (rule bc.hold_held [OF v])
  show "finite (a_held (babs s) \<union> a_dirty (babs s))" by (rule bc.finite_pinned [OF v])
  show "bhold s i b \<Longrightarrow> loggable (lrest s) b \<Longrightarrow> card (a_dirty (babs s)) < log_limit (lrest s) \<Longrightarrow>
     wp (log_write i) (\<lambda>_ t. in_txn t \<and> (\<forall>j c. bhold s j c \<longrightarrow> bhold t j c) \<and> babs t = a_pin b (babs s) \<and> lrest t = lrest s) s"
    by (rule log_write_ok [OF s])
qed

section \<open>Ending an operation\<close>

lemma encode_empty: "head_n (encode_head 0 blk d) = 0"
  by (simp add: head_n_encode)

lemma commit_inv:
  assumes inv: "log_inv s"
  shows "wp commit (\<lambda>_ t. log_inv t \<and> lh_n t = 0 \<and> brest t = brest (s\<lparr>lh_n := 0\<rparr>) \<and>
     dtrace t = dtrace s @ (if lh_n s = 0 then [] else commit_writes s (nat (lh_n s))) \<and>
     disk t = play (if lh_n s = 0 then [] else commit_writes s (nat (lh_n s))) (disk s) \<and>
     (\<forall>b. b \<notin> {lg_start s..lg_start s + nat (lh_n s)} \<longrightarrow> disk t b = view s b \<and> view t b = view s b)) s"
proof (cases "lh_n s = 0")
  case True
  then have e: "s\<lparr>lh_n := 0\<rparr> = s" by simp
  show ?thesis using inv True log_inv_view [OF inv] by (simp add: commit_def e)
next
  case False
  define n where "n = nat (lh_n s)"
  let ?st = "lg_start s" and ?R = "{lg_start s..lg_start s + n}"
  have n: "lh_n s = int n" "0 < n" using inv False by (auto simp: n_def log_inv_def log_wf_def)
  have b: "binv s" "lg_dev s = 1" "heldblks s = {}" "1 < ?st" using inv by (auto simp: log_inv_def log_wf_def)
  note sp = log_inv_space [OF inv, folded n_def]
  show ?thesis
  proof (rule wp_conseq [OF commit_ok [OF b(1,2) n sp]], elim conjE)
    fix t
    assume t: "binv t" "brest t = brest (s\<lparr>lh_n := 0\<rparr>)" "babs t = a_play (commit_writes s n) (babs s)"
    have d: "disk t = play (commit_writes s n) (disk s)" "dtrace t = dtrace s @ commit_writes s n" "disksize t = disksize s"
      "heldblks t = {}" "dirtyblks t = dirtyblks s - fst ` set (commit_writes s n)"
      using t(3) b(3) by (simp_all add: babs_def a_play_def)
    have dirty: "dirtyblks t = {}"
      using inv d(5) home_part_fst [of s n] by (auto simp: commit_writes_def log_inv_def log_wf_def n_def)
    have vt: "view t = disk t" using view_clean [OF t(1)] d(4) dirty by (simp add: fun_eq_iff)
    define e where "e = (play (log_part s n) (disk s))(?st := full_head s n)"
    have dt: "disk t = (play (home_part s n) e)(?st := encode_head 0 (lh_block s) (full_head s n))"
      by (simp add: d(1) commit_writes_def e_def)
    have "e b = disk s b" if "b \<notin> ?R" for b
      using that play_other [of b "log_part s n" "disk s"] by (auto simp: e_def log_part_fst)
    then have home: "disk t b = view s b" if "b \<notin> ?R" for b
      using that home_part_view [OF inv, of ?R e b] by (auto simp: dt n_def)
    have "disk t 1 = disk s 1" using home [of 1] log_inv_sb [OF inv] b(4) by simp
    then have "log_inv t"
      using inv t(1) d(3,4) dirty rest_log [OF t(2)] by (simp add: log_inv_def log_wf_def dt encode_empty)
    then show "log_inv t \<and> lh_n t = 0 \<and> brest t = brest (s\<lparr>lh_n := 0\<rparr>) \<and>
     dtrace t = dtrace s @ (if lh_n s = 0 then [] else commit_writes s (nat (lh_n s))) \<and>
     disk t = play (if lh_n s = 0 then [] else commit_writes s (nat (lh_n s))) (disk s) \<and>
     (\<forall>b. b \<notin> {lg_start s..lg_start s + nat (lh_n s)} \<longrightarrow> disk t b = view s b \<and> view t b = view s b)"
      using rest_log(6) [OF t(2)] t(2) d n home vt by (simp add: n_def [symmetric])
  qed
qed

lemma log_inv_flags [simp]: "log_inv (s\<lparr>outstanding := k\<rparr>) = log_inv s" "log_inv (s\<lparr>committing := c\<rparr>) = log_inv s"
  using cache_of_log(7) [of k s] cache_of_log(10) [of c s]
  by (simp_all add: log_inv_def log_wf_def babs_def)

lemma view_flags [simp]: "view (s\<lparr>outstanding := k\<rparr>) = view s" "view (s\<lparr>committing := c\<rparr>) = view s"
  using cache_of_log(7) [of k s] cache_of_log(10) [of c s] by (simp_all add: babs_def)

section \<open>Space reservation\<close>

text \<open>
  A function that returns, from any state at all, without touching what lies outside the cache.
\<close>

definition bkeeps :: "('x bstate_scheme, 'a) kmon \<Rightarrow> bool" where
  "bkeeps m \<longleftrightarrow> (\<forall>s x t. m s = Done x t \<longrightarrow> brest t = brest s)"

lemma bkeepsD: "bkeeps m \<Longrightarrow> m s = Done x t \<Longrightarrow> brest t = brest s"
  by (simp add: bkeeps_def)

lemma bkeeps_kret: "bkeeps (kret x)"
  by (simp add: bkeeps_def kernel_defs)

lemma bkeeps_kpanic: "bkeeps (kpanic msg)"
  by (simp add: bkeeps_def kernel_defs)

lemma bkeeps_kget: "bkeeps (kget f)"
  by (simp add: bkeeps_def kernel_defs)

lemma bkeeps_kbind: "bkeeps m \<Longrightarrow> (\<And>x. bkeeps (f x)) \<Longrightarrow> bkeeps (kbind m f)"
  by (fastforce simp: bkeeps_def kernel_defs split: result.splits)

lemma bkeeps_kseq: "bkeeps m \<Longrightarrow> bkeeps n \<Longrightarrow> bkeeps (kseq m n)"
  unfolding kseq_def by (rule bkeeps_kbind)

lemma bkeeps_if: "(c \<Longrightarrow> bkeeps m) \<Longrightarrow> (\<not> c \<Longrightarrow> bkeeps n) \<Longrightarrow> bkeeps (if c then m else n)"
  by simp

lemmas bkeeps_combinators = bkeeps_kret bkeeps_kpanic bkeeps_kget bkeeps_kbind bkeeps_kseq bkeeps_if

lemma bkeeps_kfor: "(\<And>i. bkeeps (body i)) \<Longrightarrow> bkeeps (kfor xs body)"
  by (induction xs) (auto intro: bkeeps_combinators)

lemma bkeeps_iderw: "bkeeps (iderw i)"
  by (auto simp: bkeeps_def iderw_def Let_def setbuf_def brest_def split: if_splits)

lemma bkeeps_block_lock: "block_lock i s = Done x t \<Longrightarrow> brest t = brest s"
  by (auto simp: block_lock_def setbuf_def brest_def split: option.splits)

lemma brest_setbuf [simp]: "brest (setbuf i f s) = brest s"
  by (simp add: brest_def)

lemma bkeeps_bget: "bkeeps (bget dev b)"
  by (auto simp: bkeeps_def bget_def dest: bkeeps_block_lock split: option.splits)

lemma bkeeps_cache: "bkeeps (bread dev b)" "bkeeps (bdata i)" "bkeeps (bmodify i g)" "bkeeps (bwrite i)" "bkeeps (brelse i)"
proof -
  show "bkeeps (bread dev b)" unfolding bread_def by (intro bkeeps_combinators bkeeps_bget bkeeps_iderw)
  show "bkeeps (bdata i)" unfolding bdata_def by (rule bkeeps_kget)
  have m: "bkeeps (kmod (setbuf i g))" for g :: "buf \<Rightarrow> buf" by (simp add: bkeeps_def kmod_def brest_def)
  show "bkeeps (bmodify i g)" unfolding bmodify_def by (rule m)
  show "bkeeps (bwrite i)" unfolding bwrite_def by (intro bkeeps_combinators bkeeps_iderw m)
  have "bkeeps (kmod (\<lambda>s :: 'x bstate_scheme. if refcnt (bufs s i) = 0 then s\<lparr>bufs := mru i (bufs s)\<rparr> else s))"
    by (auto simp: bkeeps_def kmod_def brest_def)
  then show "bkeeps (brelse i)" unfolding brelse_def by (intro bkeeps_combinators m)
qed

lemma bkeeps_log: "bkeeps install_trans" "bkeeps write_head" "bkeeps write_log"
  unfolding install_trans_def write_head_def write_log_def
  by (intro bkeeps_combinators bkeeps_kfor bkeeps_cache)+

lemma commit_frame:
  assumes "commit s = Done () t"
  shows "brest t = brest (if 0 < lh_n s then s\<lparr>lh_n := 0\<rparr> else s)"
proof (cases "0 < lh_n s")
  case True
  with assms obtain u where u: "kseq write_log (kseq write_head install_trans) s = Done () u"
    "write_head (u\<lparr>lh_n := 0\<rparr>) = Done () t"
    by (auto simp: commit_def kernel_defs split: result.splits)
  have "brest u = brest s" using u(1) by (rule bkeepsD [rotated]) (intro bkeeps_combinators bkeeps_log)
  moreover have "brest t = brest (u\<lparr>lh_n := 0\<rparr>)" using bkeepsD [OF bkeeps_log(2) u(2)] .
  moreover have "brest (u\<lparr>lh_n := 0\<rparr>) = brest (s\<lparr>lh_n := 0\<rparr>)" if "brest u = brest s"
    using that by (cases u; cases s; simp add: brest_def)
  ultimately show ?thesis using True by simp
qed (use assms in \<open>simp add: commit_def kernel_defs\<close>)

lemma end_op_frame:
  assumes "end_op s = Done () t"
  shows "outstanding t = outstanding s - 1" "\<not> committing s" "\<not> committing t" "lg_size t = lg_size s" "lh_block t = lh_block s"
    "lh_n t = (if outstanding s = 1 \<and> 0 < lh_n s then 0 else lh_n s)"
proof -
  have c: "\<not> committing s" using assms by (auto simp: end_op_def kernel_defs split: if_splits)
  show "\<not> committing s" by fact
  have "outstanding t = outstanding s - 1 \<and> \<not> committing t \<and> lg_size t = lg_size s \<and> lh_block t = lh_block s \<and>
    lh_n t = (if outstanding s = 1 \<and> 0 < lh_n s then 0 else lh_n s)"
  proof (cases "outstanding s = 1")
    case True
    let ?s = "s\<lparr>outstanding := outstanding s - 1, committing := True\<rparr>"
    obtain u where u: "commit ?s = Done () u" "t = u\<lparr>committing := False\<rparr>"
      using assms c True by (auto simp: end_op_def kernel_defs split: result.splits)
    show ?thesis using rest_log [OF commit_frame [OF u(1)]] True by (simp add: u(2))
  next
    case False
    then have "t = s\<lparr>outstanding := outstanding s - 1\<rparr>" using assms c by (simp add: end_op_def kernel_defs)
    then show ?thesis using False c by simp
  qed
  then show "outstanding t = outstanding s - 1" "\<not> committing t" "lg_size t = lg_size s" "lh_block t = lh_block s"
    "lh_n t = (if outstanding s = 1 \<and> 0 < lh_n s then 0 else lh_n s)" by blast+
qed

text \<open>
  Concurrent file-system operations over one log. Beside the state, a configuration has one set
  per active operation: the blocks that operation has recorded. An operation records at most
  \<^const>\<open>MAXOPBLOCKS\<close> distinct blocks; any process may use the cache at any time.
\<close>

type_synonym ops_config = "lstate \<times> nat set list"

inductive op_step :: "ops_config \<Rightarrow> ops_config \<Rightarrow> bool" where
  op_begin: "begin_op s = Done () t \<Longrightarrow> op_step (s, A) (t, A @ [{}])"
| op_write: "k < length A \<Longrightarrow> b = blockno (bufs s i) \<Longrightarrow> card (insert b (A ! k)) \<le> MAXOPBLOCKS \<Longrightarrow>
    log_write i s = Done () t \<Longrightarrow> op_step (s, A) (t, A[k := insert b (A ! k)])"
| op_cache: "brest t = brest s \<Longrightarrow> op_step (s, A) (t, A)"
| op_end: "k < length A \<Longrightarrow> end_op s = Done () t \<Longrightarrow> op_step (s, A) (t, take k A @ drop (Suc k) A)"

definition ops_init :: "lstate \<Rightarrow> bool" where
  "ops_init s \<longleftrightarrow> lh_n s = 0 \<and> outstanding s = 0 \<and> \<not> committing s"

definition unused :: "nat set list \<Rightarrow> nat" where
  "unused A = sum_list (map (\<lambda>B. MAXOPBLOCKS - card B) A)"

definition reserved :: "ops_config \<Rightarrow> bool" where
  "reserved c \<longleftrightarrow> (case c of (s, A) \<Rightarrow> outstanding s = int (length A) \<and> 0 \<le> lh_n s \<and> \<not> committing s \<and>
     (\<forall>B\<in>set A. finite B \<and> card B \<le> MAXOPBLOCKS \<and> B \<subseteq> lh_block s ` {..<nat (lh_n s)}) \<and>
     lh_n s + int (unused A) \<le> int LOGSIZE)"

lemma unused_le: "unused A \<le> MAXOPBLOCKS * length A"
  by (induction A) (auto simp: unused_def)

lemma unused_simps: "unused [] = 0" "unused (A @ [{}]) = unused A + MAXOPBLOCKS"
  by (simp_all add: unused_def)

lemma unused_split: "k < length A \<Longrightarrow> unused A = unused (take k A @ drop (Suc k) A) + (MAXOPBLOCKS - card (A ! k))"
proof -
  assume "k < length A"
  then have "A = take k A @ A ! k # drop (Suc k) A" by (rule id_take_nth_drop)
  then have "unused A = unused (take k A @ A ! k # drop (Suc k) A)" by simp
  then show ?thesis by (simp add: unused_def)
qed

lemma unused_update: "k < length A \<Longrightarrow> unused (A[k := B]) + (MAXOPBLOCKS - card (A ! k)) = unused A + (MAXOPBLOCKS - card B)"
proof -
  assume k: "k < length A"
  have "take k (A[k := B]) @ drop (Suc k) (A[k := B]) = take k A @ drop (Suc k) A" by simp
  then show ?thesis using unused_split [of k "A[k := B]"] unused_split [OF k] k by simp
qed

lemma log_record_frame: "0 \<le> lh_n s \<Longrightarrow> lh_block (log_record b s) ` {..<nat (lh_n (log_record b s))} = insert b (lh_block s ` {..<nat (lh_n s)}) \<and>
   lh_n (log_record b s) = lh_n s + (if b \<in> lh_block s ` {..<nat (lh_n s)} then 0 else 1) \<and> outstanding (log_record b s) = outstanding s
   \<and> committing (log_record b s) = committing s \<and> lg_size (log_record b s) = lg_size s"
proof (cases "b \<in> lh_block s ` {..<nat (lh_n s)}")
  case True
  then show ?thesis by (simp add: log_record_old insert_absorb)
next
  case False
  assume n: "0 \<le> lh_n s"
  then have "nat (lh_n s + 1) = Suc (nat (lh_n s))" by simp
  then show ?thesis using False by (auto simp: log_record_new [OF n False] lessThan_Suc image_iff)
qed

lemma log_write_Done: "log_write i s = Done () t \<Longrightarrow> brest t = brest (log_record (blockno (bufs s i)) s)"
  by (auto simp: log_write_def bpin_def kmod_def split: if_splits)

lemma op_step_size: "op_step c d \<Longrightarrow> reserved c \<Longrightarrow> lg_size (fst d) = lg_size (fst c)"
proof (induction rule: op_step.induct)
  case (op_begin s t A)
  then show ?case by (auto simp: begin_op_def split: if_splits)
next
  case (op_write k A b s i t)
  then show ?case using rest_log(2) [OF log_write_Done [OF op_write(4)]] log_record_frame [of s b]
    by (simp add: reserved_def)
next
  case (op_cache t s A)
  then show ?case using rest_log(2) by simp
next
  case (op_end k A s t)
  then show ?case using end_op_frame(4) by simp
qed

lemma op_step_reserved: "op_step c d \<Longrightarrow> reserved c \<Longrightarrow> reserved d"
proof (induction rule: op_step.induct)
  case (op_begin s t A)
  then have g: "lh_n s + (outstanding s + 1) * int MAXOPBLOCKS \<le> int LOGSIZE" "t = s\<lparr>outstanding := outstanding s + 1\<rparr>"
    by (auto simp: begin_op_def split: if_splits)
  then show ?case using op_begin.prems unused_le [of A]
    by (auto simp: reserved_def unused_simps MAXOPBLOCKS_num)
next
  case (op_write k A b s i t)
  note n = op_write.prems [unfolded reserved_def prod.case]
  have n0: "0 \<le> lh_n s" using n by blast
  note r = rest_log [OF log_write_Done [OF op_write(4)], folded op_write(2)]
  note f = log_record_frame [OF n0, of b]
  let ?L = "lh_block s ` {..<nat (lh_n s)}"
  have Ak: "finite (A ! k)" "A ! k \<subseteq> ?L" "card (A ! k) \<le> MAXOPBLOCKS" using n op_write(1) nth_mem by blast+
  have un: "unused (A[k := insert b (A ! k)]) + (MAXOPBLOCKS - card (A ! k)) = unused A + (MAXOPBLOCKS - card (insert b (A ! k)))"
    by (rule unused_update [OF op_write(1)])
  have le: "lh_n t + int (unused (A[k := insert b (A ! k)])) \<le> lh_n s + int (unused A)"
  proof (cases "b \<in> A ! k")
    case True
    then show ?thesis using r f Ak un by (auto simp: insert_absorb)
  next
    case False
    then have "card (insert b (A ! k)) = Suc (card (A ! k))" using Ak by simp
    then show ?thesis using r f un op_write(3) by (simp split: if_splits)
  qed
  have "\<forall>B\<in>set (A[k := insert b (A ! k)]). finite B \<and> card B \<le> MAXOPBLOCKS \<and> B \<subseteq> insert b ?L"
    using n op_write(3) Ak by (auto dest!: set_update_subset_insert [THEN subsetD])
  moreover have "insert b ?L = lh_block t ` {..<nat (lh_n t)}" unfolding r(6,7) using f by blast
  ultimately have "\<forall>B\<in>set (A[k := insert b (A ! k)]). finite B \<and> card B \<le> MAXOPBLOCKS \<and> B \<subseteq> lh_block t ` {..<nat (lh_n t)}"
    by simp
  moreover have "0 \<le> lh_n t" "outstanding t = int (length (A[k := insert b (A ! k)]))" "\<not> committing t"
    using n r f by simp_all
  ultimately show ?case using n le unfolding reserved_def prod.case by linarith
next
  case (op_cache t s A)
  then show ?case using rest_log [OF op_cache(1)] by (simp add: reserved_def)
next
  case (op_end k A s t)
  note n = op_end.prems [unfolded reserved_def prod.case]
  note f = end_op_frame [OF op_end(2)]
  have sub: "set (take k A @ drop (Suc k) A) \<subseteq> set A" by (auto dest: in_set_takeD in_set_dropD)
  have len: "length (take k A @ drop (Suc k) A) = length A - 1" using op_end(1) by simp
  have un: "unused (take k A @ drop (Suc k) A) \<le> unused A" using unused_split [OF op_end(1)] by simp
  show ?case
  proof (cases "outstanding s = 1")
    case True
    then have e: "take k A @ drop (Suc k) A = []" using n len by (metis diff_self_eq_0 length_0_conv of_nat_1_eq_iff)
    show ?thesis unfolding e using n f True by (simp add: reserved_def unused_simps LOGSIZE_num)
  next
    case False
    then have ln: "lh_n t = lh_n s" using f by simp
    have "\<forall>B\<in>set (take k A @ drop (Suc k) A). finite B \<and> card B \<le> MAXOPBLOCKS \<and> B \<subseteq> lh_block t ` {..<nat (lh_n t)}"
      using n sub unfolding f(5) ln by blast
    moreover have "outstanding t = int (length (take k A @ drop (Suc k) A))" using len n f(1) op_end(1) by simp
    ultimately show ?thesis using n f(3) un unfolding reserved_def prod.case ln by linarith
  qed
qed

lemma reachable_reserved:
  assumes "op_step\<^sup>*\<^sup>* (s0, []) c" "ops_init s0"
  shows "reserved c \<and> lg_size (fst c) = lg_size s0"
  using assms(1)
proof (induction rule: rtranclp_induct)
  case base
  then show ?case using assms(2) by (simp add: reserved_def ops_init_def unused_simps)
next
  case (step c d)
  then show ?case using op_step_reserved op_step_size by metis
qed

lemma log_write_total: "1 \<le> outstanding s \<Longrightarrow> lh_n s < int LOGSIZE \<Longrightarrow> lh_n s < lg_size s - 1 \<Longrightarrow>
    \<exists>t. log_write i s = Done () t"
  by (simp add: log_write_def bpin_def kmod_def)

text \<open>One more block recorded by operation \<open>k\<close>, through a buffer that has come to hold it.\<close>

definition logged :: "'x lstate_scheme \<Rightarrow> nat set" where
  "logged s = lh_block s ` {..<nat (lh_n s)}"

lemma write_fresh:
  assumes "k < length A" "card (insert b (A ! k)) \<le> MAXOPBLOCKS" "b \<notin> logged s" "0 \<le> lh_n s"
    "lh_n s < int LOGSIZE" "lh_n s < lg_size s - 1" "1 \<le> outstanding s"
  shows "\<exists>t. op_step\<^sup>*\<^sup>* (s, A) (t, A[k := insert b (A ! k)]) \<and> lh_n t = lh_n s + 1 \<and> lg_size t = lg_size s \<and>
    outstanding t = outstanding s \<and> logged t = insert b (logged s)"
proof -
  let ?u = "s\<lparr>bufs := (bufs s)(0 := (bufs s 0)\<lparr>blockno := b\<rparr>)\<rparr>"
  have u: "brest ?u = brest s" by (simp add: brest_def)
  note ru = rest_log [OF u]
  obtain t where t: "log_write 0 ?u = Done () t" using log_write_total [of ?u 0] assms by auto
  have b: "b = blockno (bufs ?u 0)" by simp
  have "op_step (s, A) (?u, A)" by (rule op_cache [OF u])
  moreover have "op_step (?u, A) (t, A[k := insert b (A ! k)])" by (rule op_write [OF assms(1) b assms(2) t])
  ultimately have "op_step\<^sup>*\<^sup>* (s, A) (t, A[k := insert b (A ! k)])" by (meson converse_rtranclp_into_rtranclp r_into_rtranclp)
  moreover have "0 \<le> lh_n ?u" using assms(4) by simp
  note f = log_record_frame [OF this, of b] and r = rest_log [OF log_write_Done [OF t], folded b]
  have "logged t = insert b (logged s)" unfolding logged_def r(6,7) f [THEN conjunct1] by simp
  moreover have "lh_n t = lh_n s + 1" unfolding r(6) using f assms(3) by (simp add: logged_def)
  ultimately show ?thesis using f r by auto
qed

definition share :: "nat \<Rightarrow> nat \<Rightarrow> nat set" where
  "share k m = (\<lambda>j. 100 + j) ` {j. j < m \<and> j div 10 = k}"

lemma share_Suc: "share k (Suc m) = (if m div 10 = k then insert (100 + m) (share k m) else share k m)"
  by (auto simp: share_def less_Suc_eq)

lemma card_share: "card (share k m) = card {j. j < m \<and> j div 10 = k}"
  unfolding share_def by (rule card_image) (simp add: inj_on_def)

lemma share_le: "card (share k m) \<le> 10"
proof -
  have "{j. j < m \<and> j div 10 = k} \<subseteq> {10 * k..<10 * k + 10}" by auto
  from card_mono [OF _ this] show ?thesis by (simp add: card_share)
qed

lemma fill_log:
  assumes "ops_init s0" "lg_size s0 = int LOGSIZE" "m \<le> 29"
  shows "\<exists>t. op_step\<^sup>*\<^sup>* (s0, []) (t, [share 0 m, share 1 m, share 2 m]) \<and> lh_n t = int m \<and> lg_size t = int LOGSIZE \<and>
    outstanding t = 3 \<and> logged t = (\<lambda>j. 100 + j) ` {..<m}"
  using assms(3)
proof (induction m)
  case 0
  let ?u = "\<lambda>n. s0\<lparr>outstanding := n\<rparr>"
  have b: "begin_op s0 = Done () (?u 1)" "begin_op (?u 1) = Done () (?u 2)" "begin_op (?u 2) = Done () (?u 3)"
    using assms(1) by (simp_all add: begin_op_def ops_init_def LOGSIZE_num MAXOPBLOCKS_num)
  have "op_step\<^sup>*\<^sup>* (s0, []) (?u 3, [{}, {}, {}])"
    using op_begin [OF b(1), of "[]"] op_begin [OF b(2), of "[{}]"] op_begin [OF b(3), of "[{}, {}]"]
    by (simp add: converse_rtranclp_into_rtranclp)
  then show ?case using assms(1,2)
    by (intro exI [of _ "?u 3"]) (simp add: share_def logged_def ops_init_def)
next
  case (Suc m)
  then obtain s where s: "op_step\<^sup>*\<^sup>* (s0, []) (s, [share 0 m, share 1 m, share 2 m])" "lh_n s = int m" "lg_size s = int LOGSIZE"
    "outstanding s = 3" "logged s = (\<lambda>j. 100 + j) ` {..<m}" by auto
  let ?A = "[share 0 m, share 1 m, share 2 m]" and ?k = "m div 10"
  have k: "?k = 0 \<or> ?k = 1 \<or> ?k = 2" using Suc.prems by linarith
  have A: "?A[?k := insert (100 + m) (?A ! ?k)] = [share 0 (Suc m), share 1 (Suc m), share 2 (Suc m)]"
    and Ak: "insert (100 + m) (?A ! ?k) = share ?k (Suc m)"
    using k by (auto simp: share_Suc)
  obtain t where t: "op_step\<^sup>*\<^sup>* (s, ?A) (t, ?A[?k := insert (100 + m) (?A ! ?k)])" "lh_n t = lh_n s + 1"
    "lg_size t = lg_size s" "outstanding t = outstanding s" "logged t = insert (100 + m) (logged s)"
  proof -
    have "?k < length ?A" using k by auto
    moreover have "card (insert (100 + m) (?A ! ?k)) \<le> MAXOPBLOCKS" unfolding Ak MAXOPBLOCKS_num by (rule share_le)
    moreover have "100 + m \<notin> logged s" using s(5) by auto
    moreover have "0 \<le> lh_n s" "lh_n s < int LOGSIZE" "lh_n s < lg_size s - 1" "1 \<le> outstanding s"
      using s Suc.prems by (simp_all add: LOGSIZE_num)
    ultimately show thesis using write_fresh [of ?k ?A "100 + m" s] that by blast
  qed
  have "op_step\<^sup>*\<^sup>* (s0, []) (t, [share 0 (Suc m), share 1 (Suc m), share 2 (Suc m)])"
    using s(1) t(1) unfolding A by (rule rtranclp_trans)
  moreover have "logged t = (\<lambda>j. 100 + j) ` {..<Suc m}" using t(5) s(5) by (simp add: lessThan_Suc)
  ultimately show ?case using t s by (intro exI [of _ t]) simp
qed

text \<open>A small disk with a superblock, and a transaction on it that has written block 100.\<close>

definition demo_disk :: "nat \<Rightarrow> block" where
  "demo_disk b = (if b = 1 then put32 (put32 zero_block 12 30) 16 2 else zero_block)"

definition demo_run :: "(lstate, unit) kmon" where
  "demo_run = kseq reboot (kseq begin_op (kbind (bread 1 100) (\<lambda>i.
     kseq (bmodify i (\<lambda>_. mkblk (\<lambda>_. 7))) (kseq (log_write i) (kseq (brelse i) (kret ()))))))"

lemma recovered_inv:
  assumes "recovered d sz st n u" "1 \<notin> fst ` set (recover_writes d st n)" "1 < st" "sz \<le> 2 ^ 31"
    "0 < lg_size u" "lg_size u \<le> int LOGSIZE" "int st + lg_size u \<le> int sz" "sb_logstart (decode_sb (d 1)) = st"
  shows "log_inv u"
proof -
  let ?h = "encode_head 0 (lh_block u) (d st)"
  have r: "binv u" "lg_start u = st" "lg_dev u = 1" "lh_n u = 0" "heldblks u = {}" "dirtyblks u = {}" "disksize u = sz"
    "disk u = (play (recover_writes d st n) d)(st := ?h)"
    using assms(1) by (auto simp: recovered_def babs_def)
  have "disk u 1 = d 1" using r(8) assms(2,3) by (simp add: play_other)
  moreover have "head_n (disk u st) = 0" using r(8) by (simp add: encode_empty)
  ultimately show ?thesis using assms r by (simp add: log_inv_def log_wf_def)
qed

lemma demo_disk_sb: "decode_sb (demo_disk 1) = \<lparr>sb_size = 0, sb_nblocks = 0, sb_ninodes = 0, sb_nlog = 30,
    sb_logstart = 2, sb_inodestart = 0, sb_bmapstart = 0\<rparr>"
  by (simp add: decode_sb_def demo_disk_def le32_put32_same le32_put32_other BSIZE_num) (simp add: le32_def BSIZE_num)

lemma head_n_zero [simp]: "head_n zero_block = 0"
  by (simp add: head_n_def le32_def BSIZE_num)

lemma demo_ok: "wp demo_run (\<lambda>_ s. log_inv s \<and> outstanding s = 1 \<and> \<not> committing s \<and> lh_n s = 1 \<and> lg_start s = 2 \<and>
    view s 100 = mkblk (\<lambda>_. 7) \<and> disk s 100 = zero_block) (power_on demo_disk 1000)"
proof -
  let ?P = "\<lambda>u. log_inv u \<and> outstanding u = 0 \<and> \<not> committing u \<and> lh_n u = 0 \<and> lg_size u = 30 \<and> lg_start u = 2 \<and>
    disksize u = 1000 \<and> dirtyblks u = {} \<and> heldblks u = {} \<and> disk u 100 = zero_block"
  have "wp reboot (\<lambda>_ u. recovered demo_disk 1000 2 0 u \<and> (\<forall>b. b \<noteq> 2 \<longrightarrow> disk u b = demo_disk b)) (power_on demo_disk 1000)"
    by (rule empty_head_recovery) (use demo_disk_sb in \<open>simp_all add: demo_disk_def\<close>)
  then have "wp reboot (\<lambda>_. ?P) (power_on demo_disk 1000)"
  proof (rule wp_conseq, elim conjE)
    fix u
    assume u: "recovered demo_disk 1000 2 0 u" "\<forall>b. b \<noteq> 2 \<longrightarrow> disk u b = demo_disk b"
    have sz: "lg_size u = 30" using u(1) demo_disk_sb by (simp add: recovered_def)
    have "log_inv u"
      by (rule recovered_inv [OF u(1)]) (use demo_disk_sb sz in \<open>simp_all add: recover_writes_def LOGSIZE_num\<close>)
    then show "?P u" using u sz by (simp add: recovered_def babs_def demo_disk_def)
  qed
  moreover have "wp (kseq begin_op (kbind (bread 1 100) (\<lambda>i.
     kseq (bmodify i (\<lambda>_. mkblk (\<lambda>_. 7))) (kseq (log_write i) (kseq (brelse i) (kret ()))))))
     (\<lambda>_ s. log_inv s \<and> outstanding s = 1 \<and> \<not> committing s \<and> lh_n s = 1 \<and> lg_start s = 2 \<and>
       view s 100 = mkblk (\<lambda>_. 7) \<and> disk s 100 = zero_block) u" if u: "?P u" for u
  proof -
    let ?v = "u\<lparr>outstanding := 1\<rparr>"
    have b: "begin_op u = Done () ?v" using u by (simp add: begin_op_def LOGSIZE_num MAXOPBLOCKS_num)
    have a: "babs ?v = babs u" by simp
    have tx: "in_txn ?v" using u log_inv_flags(1) [of 1 u] by (simp add: in_txn_def log_inv_def)
    have "wp (kbind (bread 1 100) (\<lambda>i. kseq (bmodify i (\<lambda>_. mkblk (\<lambda>_. 7))) (kseq (log_write i) (kseq (brelse i) (kret ())))))
     (\<lambda>_ s. log_inv s \<and> outstanding s = 1 \<and> \<not> committing s \<and> lh_n s = 1 \<and> lg_start s = 2 \<and>
       view s 100 = mkblk (\<lambda>_. 7) \<and> disk s 100 = zero_block) ?v"
    proof (rule lc.update_idiom [OF tx])
      show "room (babs ?v) 100" "loggable (lrest ?v) 100" "card (a_dirty (babs ?v)) < log_limit (lrest ?v)"
        using u by (simp_all add: a room_def babs_sel NBUF_num loggable_def lrest_def log_limit_def)
      fix t
      assume t: "in_txn t" "babs t = a_pin 100 (a_store 100 (mkblk (\<lambda>_. 7)) (babs ?v))" "lrest t = lrest ?v"
      have e: "dirtyblks t = {100}" "heldblks t = {}" "view t 100 = mkblk (\<lambda>_. 7)" "disk t 100 = zero_block"
        using t(2) u unfolding a by (auto simp: babs_def acache_defs)
      have "log_wf t" using t(1) by (simp add: in_txn_def)
      then have "lh_n t = 1" using card_logged [of t] e(1) by simp
      then show "wp (kret ()) (\<lambda>_ s. log_inv s \<and> outstanding s = 1 \<and> \<not> committing s \<and> lh_n s = 1 \<and> lg_start s = 2 \<and>
       view s 100 = mkblk (\<lambda>_. 7) \<and> disk s 100 = zero_block) t"
        using e t u \<open>log_wf t\<close> by (simp add: log_inv_def lrest_def)
    qed
    then show ?thesis using b by (simp add: wp_def kseq_def kbind_def)
  qed
  ultimately show ?thesis unfolding demo_run_def by (subst wp_kseq) (rule wp_conseq)
qed

section \<open>Properties\<close>

text \<open>
  C1: Crash atomicity. From a consistent log, \<open>commit\<close> returns; the blocks it writes, in
  order, are recorded in \<open>ws\<close>. If the machine stops after any number \<open>k\<close> of these block
  writes, starting it again (\<open>binit\<close> and \<open>initlog\<close> on the disk as it is then) succeeds and
  leaves every block outside the log area as before the transaction when the header had not
  been written yet (\<open>k\<close> at most the number of logged blocks), and as the transaction wanted
  it otherwise: never a mixture.
\<close>

theorem commit_crash_atomic:
  assumes "log_inv s"
  shows "\<exists>t ws. commit s = Done () t \<and> dtrace t = dtrace s @ ws \<and> disk t = play ws (disk s) \<and>
     (\<forall>k. wp reboot (\<lambda>_ u. binv u \<and> dirtyblks u = {} \<and> heldblks u = {} \<and>
        (\<forall>b. b \<notin> {lg_start s..lg_start s + nat (lh_n s)} \<longrightarrow>
           disk u b = (if k \<le> nat (lh_n s) then disk s b else view s b)))
        (power_on (play (take k ws) (disk s)) (disksize s)))"
proof -
  define ws where "ws = (if lh_n s = 0 then [] else commit_writes s (nat (lh_n s)))"
  obtain t where t: "commit s = Done () t" "dtrace t = dtrace s @ ws" "disk t = play ws (disk s)"
    using commit_inv [OF assms] by (auto simp: wp_Done ws_def)
  have "wp reboot (\<lambda>_ u. binv u \<and> dirtyblks u = {} \<and> heldblks u = {} \<and>
        (\<forall>b. b \<notin> {lg_start s..lg_start s + nat (lh_n s)} \<longrightarrow>
           disk u b = (if k \<le> nat (lh_n s) then disk s b else view s b)))
        (power_on (play (take k ws) (disk s)) (disksize s))" for k
  proof (cases "lh_n s = 0")
    case False
    then have "0 < nat (lh_n s)" using assms by (auto simp: log_inv_def log_wf_def)
    from crash_recovery [OF assms refl this refl, of k] show ?thesis using False by (simp add: ws_def)
  next
    case True
    have a: "sb_logstart (decode_sb (disk s 1)) = lg_start s" "1 < lg_start s" "lg_start s < disksize s" "disksize s \<le> 2 ^ 31"
      "head_n (disk s (lg_start s)) = 0" using assms by (auto simp: log_inv_def log_wf_def)
    show ?thesis
      by (rule wp_conseq [OF empty_head_recovery [of "play (take k ws) (disk s)"]])
        (use True a log_inv_view [OF assms] in \<open>auto simp: ws_def recovered_def babs_def\<close>)
  qed
  then show ?thesis using t by blast
qed

theorem commit_crash_atomic_witness:
  "\<exists>s. demo_run (power_on demo_disk 1000) = Done () s \<and> lh_n s = 1 \<and> view s 100 \<noteq> disk s 100 \<and>
     (\<exists>t ws. commit s = Done () t \<and> dtrace t = dtrace s @ ws \<and> disk t = play ws (disk s) \<and>
     (\<forall>k. wp reboot (\<lambda>_ u. binv u \<and> dirtyblks u = {} \<and> heldblks u = {} \<and>
        (\<forall>b. b \<notin> {lg_start s..lg_start s + nat (lh_n s)} \<longrightarrow>
           disk u b = (if k \<le> nat (lh_n s) then disk s b else view s b)))
        (power_on (play (take k ws) (disk s)) (disksize s))))"
proof -
  obtain s where s: "demo_run (power_on demo_disk 1000) = Done () s" "log_inv s" "lh_n s = 1"
    "view s 100 = mkblk (\<lambda>_. 7)" "disk s 100 = zero_block" using demo_ok by (auto simp: wp_Done)
  have "rd (mkblk (\<lambda>_. 7)) 0 \<noteq> rd zero_block 0" by (simp add: BSIZE_num)
  then have "view s 100 \<noteq> disk s 100" using s(4,5) by metis
  then show ?thesis using s commit_crash_atomic [OF s(2)] by blast
qed





text \<open>
  C5: Recording a modified buffer. While the transaction is below the log's limit,
  \<open>log_write\<close> adds the block to the transaction (or absorbs it when it is there already),
  pins it, and keeps the log consistent and all contents unchanged; at the limit it panics,
  also for a block that would be absorbed.
\<close>

theorem log_write_records:
  assumes "in_txn s" "bhold s i b" "loggable (lrest s) b"
  shows "if lh_n s + 1 < lg_size s
     then wp (log_write i) (\<lambda>_ t. in_txn t \<and> bhold t i b \<and> dirtyblks t = insert b (dirtyblks s) \<and>
        lh_n t = lh_n s + (if b \<in> lh_block s ` {..<nat (lh_n s)} then 0 else 1) \<and>
        lh_block t ` {..<nat (lh_n t)} = insert b (lh_block s ` {..<nat (lh_n s)}) \<and>
        view t = view s \<and> disk t = disk s) s
     else log_write i s = Panic ''too big a transaction''"
proof (cases "lh_n s + 1 < lg_size s")
  case False
  then show ?thesis by (simp add: log_write_def)
next
  case True
  have wf: "log_wf s" using assms(1) by (simp add: in_txn_def)
  have dl: "dirtyblks s = lh_block s ` {..<nat (lh_n s)}" using wf by (simp add: log_wf_def)
  have lim: "card (a_dirty (babs s)) < log_limit (lrest s)"
    using True card_logged [OF wf] by (simp add: babs_sel log_limit_def lrest_def)
  have "wp (log_write i) (\<lambda>_ t. in_txn t \<and> bhold t i b \<and> dirtyblks t = insert b (dirtyblks s) \<and>
        lh_n t = lh_n s + (if b \<in> lh_block s ` {..<nat (lh_n s)} then 0 else 1) \<and>
        lh_block t ` {..<nat (lh_n t)} = insert b (lh_block s ` {..<nat (lh_n s)}) \<and>
        view t = view s \<and> disk t = disk s) s"
  proof (rule wp_conseq [OF lc.log_write_law [OF assms lim]], elim conjE)
    fix t
    assume t: "in_txn t" "\<forall>j c. bhold s j c \<longrightarrow> bhold t j c" "babs t = a_pin b (babs s)"
    have d: "dirtyblks t = insert b (dirtyblks s)" "view t = view s" "disk t = disk s"
      using t(3) by (simp_all add: babs_def a_pin_def)
    have wft: "log_wf t" using t(1) by (simp add: in_txn_def)
    then have "lh_block t ` {..<nat (lh_n t)} = insert b (lh_block s ` {..<nat (lh_n s)})"
      using d(1) dl by (simp add: log_wf_def)
    moreover have "lh_n t = lh_n s + (if b \<in> lh_block s ` {..<nat (lh_n s)} then 0 else 1)"
      using card_logged [OF wf] card_logged [OF wft] d(1) dl finite_blks(2) [of s] by (auto simp: insert_absorb)
    ultimately show "in_txn t \<and> bhold t i b \<and> dirtyblks t = insert b (dirtyblks s) \<and>
        lh_n t = lh_n s + (if b \<in> lh_block s ` {..<nat (lh_n s)} then 0 else 1) \<and>
        lh_block t ` {..<nat (lh_n t)} = insert b (lh_block s ` {..<nat (lh_n s)}) \<and>
        view t = view s \<and> disk t = disk s" using t(1,2) d assms(2) by blast
  qed
  then show ?thesis using True by simp
qed

theorem log_write_records_witness:
  "\<exists>s i. kbind (kseq demo_run (bread 1 100)) (\<lambda>i. kret i) (power_on demo_disk 1000) = Done i s \<and>
    (if lh_n s + 1 < lg_size s
     then wp (log_write i) (\<lambda>_ t. in_txn t \<and> bhold t i 100 \<and> dirtyblks t = insert 100 (dirtyblks s) \<and>
        lh_n t = lh_n s + (if 100 \<in> lh_block s ` {..<nat (lh_n s)} then 0 else 1) \<and>
        lh_block t ` {..<nat (lh_n t)} = insert 100 (lh_block s ` {..<nat (lh_n s)}) \<and>
        view t = view s \<and> disk t = disk s) s
     else log_write i s = Panic ''too big a transaction'')"
proof -
  obtain s where s: "demo_run (power_on demo_disk 1000) = Done () s" "log_inv s" "outstanding s = 1" "lh_n s = 1"
    "lg_start s = 2" "view s 100 = mkblk (\<lambda>_. 7)" "disk s 100 = zero_block" using demo_ok by (auto simp: wp_Done)
  have tx: "in_txn s" using s by (simp add: in_txn_def log_inv_def)
  have "rd (mkblk (\<lambda>_. 7)) 0 \<noteq> rd zero_block 0" by (simp add: BSIZE_num)
  then have "view s 100 \<noteq> disk s 100" using s(6,7) by metis
  then have m: "100 \<in> dirtyblks s" using log_inv_view [OF s(2), of 100] s(2) by (auto simp: log_inv_def log_wf_def)
  then obtain k where k: "k < nat (lh_n s)" "100 = lh_block s k" using s(2) by (auto simp: log_inv_def log_wf_def)
  then have lg: "100 < disksize s" "loggable (lrest s) 100"
    using s(2) unfolding log_inv_def log_wf_def loggable_def lrest_def by auto
  have "room (babs s) 100" using lg m s(2) by (simp add: room_def babs_sel log_inv_def)
  from lc.bread_law [OF tx this] obtain i u where u: "bread 1 100 s = Done i u" "in_txn u" "bhold u i 100" "lrest u = lrest s"
    by (auto simp: wp_Done)
  have "kbind (kseq demo_run (bread 1 100)) (\<lambda>i. kret i) (power_on demo_disk 1000) = Done i u"
    using s(1) u(1) by (simp add: kernel_defs)
  moreover have "loggable (lrest u) 100" using lg(2) u(4) by simp
  note log_write_records [OF u(2,3) this]
  ultimately show ?thesis by (intro exI [of _ u] exI [of _ i] conjI)
qed

text \<open>
  C6: A crash during recovery is harmless. If start-up is interrupted after any number of its
  block writes and the machine is started once more, every block other than the log header
  ends as the uninterrupted start-up would have left it.
\<close>

theorem recovery_crash_safe:
  assumes "head_ok d sz st n" "sb_logstart (decode_sb (d 1)) = st" "\<forall>i<n. head_block (d st) i \<noteq> 1"
  shows "\<exists>u. reboot (power_on d sz) = Done () u \<and> disk u = play (dtrace u) d \<and>
     (\<forall>k. wp reboot (\<lambda>_ v. \<forall>b. b \<noteq> st \<longrightarrow> disk v b = disk u b) (power_on (play (take k (dtrace u)) d) sz))"
proof -
  let ?rw = "recover_writes d st n"
  obtain u where u: "reboot (power_on d sz) = Done () u" "recovered d sz st n u"
    using reboot_ok [OF assms(2,1)] by (auto simp: wp_Done)
  have tr: "dtrace u = ?rw @ [(st, encode_head 0 (lh_block u) (d st))]" "disk u = play (dtrace u) d"
    using u(2) by (auto simp: recovered_def)
  have ln: "length ?rw = n" by (simp add: recover_writes_def)
  have f: "fst ` set ?rw = head_block (d st) ` {..<n}" by (auto simp: recover_writes_def image_image lessThan_atLeast0)
  have sz: "1 < st" "st < sz" "sz \<le> 2 ^ 31" using assms(1) by (auto simp: head_ok_def)
  have fr: "x \<notin> fst ` set ?rw \<Longrightarrow> play (take k ?rw) d x = d x" for x k
    by (rule play_other) (auto dest!: in_set_takeD)
  have one: "1 \<notin> fst ` set ?rw" and hd: "st \<notin> fst ` set ?rw" and lg: "\<And>i. i < n \<Longrightarrow> st + i + 1 \<notin> fst ` set ?rw"
    using assms(1,3) unfolding f by (fastforce simp: head_ok_def)+
  have "wp reboot (\<lambda>_ v. \<forall>b. b \<noteq> st \<longrightarrow> disk v b = disk u b) (power_on (play (take k (dtrace u)) d) sz)" for k
  proof (cases "k \<le> n")
    case True
    define e where "e = play (take k ?rw) d"
    have dk: "play (take k (dtrace u)) d = e" using True by (simp add: tr ln e_def)
    have e: "e 1 = d 1" "e st = d st" "\<And>i. i < n \<Longrightarrow> e (st + i + 1) = d (st + i + 1)"
      using fr one hd lg by (simp_all add: e_def)
    have rw: "recover_writes e st n = ?rw" using e by (simp add: recover_writes_def)
    have "head_ok e sz st n" using assms(1) by (simp add: head_ok_def e)
    then have "wp reboot (\<lambda>_. recovered e sz st n) (power_on e sz)" using e assms(2) by (intro reboot_ok) simp_all
    moreover have "play ?rw e = play ?rw d" using fr by (intro play_fun) (simp add: e_def)
    ultimately show ?thesis unfolding dk by (auto elim!: wp_conseq simp: recovered_def rw tr)
  next
    case False
    then have dk: "play (take k (dtrace u)) d = disk u" by (simp add: tr ln)
    have "disk u 1 = d 1" "head_n (disk u st) = 0" using one sz by (simp_all add: tr play_other encode_empty)
    then have "wp reboot (\<lambda>_ v. recovered (disk u) sz st 0 v \<and> (\<forall>b. b \<noteq> st \<longrightarrow> disk v b = disk u b)) (power_on (disk u) sz)"
      using sz assms(2) by (intro empty_head_recovery) simp_all
    then show ?thesis unfolding dk by (rule wp_conseq) simp
  qed
  then show ?thesis using u(1) tr(2) by blast
qed


text \<open>A disk with a committed transaction that has not been installed: block 100, logged in block 3.\<close>

definition committed_disk :: "nat \<Rightarrow> block" where
  "committed_disk b = (if b = 2 then encode_head 1 (\<lambda>_. 100) zero_block
     else if b = 3 then mkblk (\<lambda>_. 7) else demo_disk b)"

theorem recovery_crash_safe_witness:
  "\<exists>u. reboot (power_on committed_disk 1000) = Done () u \<and> disk u = play (dtrace u) committed_disk \<and>
     (\<forall>k. wp reboot (\<lambda>_ v. \<forall>b. b \<noteq> 2 \<longrightarrow> disk v b = disk u b) (power_on (play (take k (dtrace u)) committed_disk) 1000))"
proof (rule recovery_crash_safe [where n = 1])
  have h: "committed_disk 2 = encode_head 1 (\<lambda>_. 100) zero_block" by (simp add: committed_disk_def)
  have b: "head_block (committed_disk 2) 0 = 100" unfolding h by (rule head_block_fold) (simp_all add: LOGSIZE_num)
  have n: "head_n (committed_disk 2) = 1" unfolding h by (rule head_n_encode) (simp_all add: LOGSIZE_num)
  show "head_ok committed_disk 1000 2 1" using b n by (simp add: head_ok_def LOGSIZE_num)
  show "\<forall>i<1. head_block (committed_disk 2) i \<noteq> 1" using b by simp
  have "committed_disk 1 = demo_disk 1" by (simp add: committed_disk_def)
  then show "sb_logstart (decode_sb (committed_disk 1)) = 2" using demo_disk_sb by simp
qed


text \<open>
  C3: Space reservation. Whatever operations run, begin, end and interleave, from an empty log:
  the recorded blocks never exceed \<^const>\<open>LOGSIZE\<close>, and if the on-disk log has more than
  \<^const>\<open>LOGSIZE\<close> blocks, an operation that has recorded fewer than \<^const>\<open>MAXOPBLOCKS\<close> blocks
  can always record a further one: the reservation made by \<open>begin_op\<close> is sufficient.
\<close>

theorem reservation_sufficient:
  assumes "op_step\<^sup>*\<^sup>* (s0, []) (s, A)" "ops_init s0"
  shows "0 \<le> lh_n s \<and> lh_n s \<le> int LOGSIZE \<and> outstanding s = int (length A) \<and>
    (\<forall>k i. k < length A \<longrightarrow> card (A ! k) < MAXOPBLOCKS \<longrightarrow> int LOGSIZE < lg_size s0 \<longrightarrow>
       (\<exists>t. log_write i s = Done () t))"
proof -
  have r: "reserved (s, A)" "lg_size s = lg_size s0" using reachable_reserved [OF assms] by simp_all
  have "\<exists>t. log_write i s = Done () t" if k: "k < length A" "card (A ! k) < MAXOPBLOCKS" "int LOGSIZE < lg_size s0" for k i
  proof (rule log_write_total)
    have "unused A = unused (take k A @ drop (Suc k) A) + (MAXOPBLOCKS - card (A ! k))" by (rule unused_split [OF k(1)])
    then have "0 < unused A" using k(2) by simp
    then show "lh_n s < int LOGSIZE" using r(1) by (simp add: reserved_def)
    then show "lh_n s < lg_size s - 1" using r(2) k(3) by simp
    show "1 \<le> outstanding s" using r(1) k(1) by (simp add: reserved_def)
  qed
  then show ?thesis using r(1) by (auto simp: reserved_def)
qed

theorem reservation_sufficient_witness:
  "\<exists>s. op_step\<^sup>*\<^sup>* ((power_on demo_disk 1000)\<lparr>lg_size := 31\<rparr>, []) (s, [{}]) \<and> lh_n s = 0 \<and>
     (\<exists>t. log_write 0 s = Done () t)"
proof -
  let ?init = "(power_on demo_disk 1000)\<lparr>lg_size := 31\<rparr>"
  let ?s = "?init\<lparr>outstanding := 1\<rparr>"
  have "begin_op ?init = Done () ?s" by (simp add: begin_op_def power_on_def LOGSIZE_num MAXOPBLOCKS_num)
  then have r: "op_step\<^sup>*\<^sup>* (?init, []) (?s, [{}])" using op_begin [of ?init ?s "[]"] by auto
  have i: "ops_init ?init" by (simp add: ops_init_def power_on_def)
  have "\<exists>t. log_write 0 ?s = Done () t"
    by (rule reservation_sufficient [OF r i, THEN conjunct2, THEN conjunct2, THEN conjunct2, rule_format, of 0 0])
      (simp_all add: LOGSIZE_num MAXOPBLOCKS_num)
  then show ?thesis using r by (intro exI [of _ ?s]) (simp add: power_on_def)
qed




end
