(* ===== verification/Kstring.thy ===== *)
theory Kstring
  imports Prelude
begin

text \<open>
  The memory and string functions of the kernel (\<^verbatim>\<open>string.c\<close>) and of the user library
  (\<^verbatim>\<open>ulib.c\<close>). A pointer is modelled by the array it points at: \<open>p i\<close> is \<^verbatim>\<open>p[i]\<close>. Where two
  pointers may overlap (\<^verbatim>\<open>memmove\<close>) the functions work on one memory and addresses. The loops
  are the loops of the code, and the lemmas say what they compute.
\<close>

type_synonym arr = "nat \<Rightarrow> byte"
type_synonym mem = "nat \<Rightarrow> byte"

section \<open>Memory\<close>

text \<open>\<^verbatim>\<open>stosb\<close> and \<^verbatim>\<open>stosl\<close>: store a byte \<open>n\<close> times, a little-endian word \<open>n\<close> times.\<close>

primrec stosb :: "nat \<Rightarrow> byte \<Rightarrow> nat \<Rightarrow> mem \<Rightarrow> mem" where
  "stosb a c 0 m = m"
| "stosb a c (Suc n) m = stosb (a + 1) c n (m(a := c))"

primrec stosl :: "nat \<Rightarrow> uint32 \<Rightarrow> nat \<Rightarrow> mem \<Rightarrow> mem" where
  "stosl a w 0 m = m"
| "stosl a w (Suc n) m = stosl (a + 4) w n
     (m(a := ucast w, a + 1 := ucast (drop_bit 8 w), a + 2 := ucast (drop_bit 16 w), a + 3 := ucast (drop_bit 24 w)))"

definition memset :: "nat \<Rightarrow> uint32 \<Rightarrow> nat \<Rightarrow> mem \<Rightarrow> mem" where
  "memset dst c n m =
     (if dst mod 4 = 0 \<and> n mod 4 = 0
      then let c = and c 0xFF in
        stosl dst (or (or (or (push_bit 24 c) (push_bit 16 c)) (push_bit 8 c)) c) (n div 4) m
      else stosb dst (ucast c) n m)"

definition umemset :: "nat \<Rightarrow> uint32 \<Rightarrow> nat \<Rightarrow> mem \<Rightarrow> mem" where
  "umemset dst c n m = stosb dst (ucast c) n m"

primrec memcmp :: "arr \<Rightarrow> arr \<Rightarrow> nat \<Rightarrow> int" where
  "memcmp p q 0 = 0"
| "memcmp p q (Suc n) = (if p 0 \<noteq> q 0 then uint (p 0) - uint (q 0)
     else memcmp (\<lambda>i. p (Suc i)) (\<lambda>i. q (Suc i)) n)"

primrec copy_up :: "nat \<Rightarrow> nat \<Rightarrow> nat \<Rightarrow> mem \<Rightarrow> mem" where
  "copy_up d s 0 m = m"
| "copy_up d s (Suc n) m = copy_up (d + 1) (s + 1) n (m(d := m s))"

primrec copy_down :: "nat \<Rightarrow> nat \<Rightarrow> nat \<Rightarrow> mem \<Rightarrow> mem" where
  "copy_down d s 0 m = m"
| "copy_down d s (Suc n) m = copy_down d s n (m(d + n := m (s + n)))"

definition memmove :: "nat \<Rightarrow> nat \<Rightarrow> nat \<Rightarrow> mem \<Rightarrow> mem" where
  "memmove dst src n m =
     (if src < dst \<and> dst < src + n then copy_down dst src n m else copy_up dst src n m)"

definition memcpy :: "nat \<Rightarrow> nat \<Rightarrow> nat \<Rightarrow> mem \<Rightarrow> mem" where
  "memcpy dst src n m = memmove dst src n m"

definition umemmove :: "nat \<Rightarrow> nat \<Rightarrow> int \<Rightarrow> mem \<Rightarrow> mem" where
  "umemmove dst src n m = copy_up dst src (nat n) m"

section \<open>Strings\<close>

primrec strncmp :: "arr \<Rightarrow> arr \<Rightarrow> nat \<Rightarrow> int" where
  "strncmp p q 0 = 0"
| "strncmp p q (Suc n) = (if p 0 \<noteq> 0 \<and> p 0 = q 0
     then strncmp (\<lambda>i. p (Suc i)) (\<lambda>i. q (Suc i)) n else uint (p 0) - uint (q 0))"

primrec zero_fill :: "nat \<Rightarrow> nat \<Rightarrow> arr \<Rightarrow> arr" where
  "zero_fill i 0 s = s"
| "zero_fill i (Suc n) s = zero_fill (i + 1) n (s(i := 0))"

primrec strncpy_from :: "nat \<Rightarrow> nat \<Rightarrow> arr \<Rightarrow> arr \<Rightarrow> arr" where
  "strncpy_from i 0 t s = s"
| "strncpy_from i (Suc n) t s = (if t i \<noteq> 0 then strncpy_from (i + 1) n t (s(i := t i))
     else zero_fill (i + 1) n (s(i := 0)))"

definition strncpy :: "arr \<Rightarrow> arr \<Rightarrow> int \<Rightarrow> arr" where
  "strncpy s t n = strncpy_from 0 (nat n) t s"

primrec safestrcpy_from :: "nat \<Rightarrow> nat \<Rightarrow> arr \<Rightarrow> arr \<Rightarrow> arr" where
  "safestrcpy_from i 0 t s = s(i := 0)"
| "safestrcpy_from i (Suc n) t s = (if t i \<noteq> 0 then safestrcpy_from (i + 1) n t (s(i := t i))
     else s(i := 0, Suc i := 0))"

definition safestrcpy :: "arr \<Rightarrow> arr \<Rightarrow> int \<Rightarrow> arr" where
  "safestrcpy s t n = (if n \<le> 0 then s else safestrcpy_from 0 (nat (n - 1)) t s)"

partial_function (option) strlen_from :: "arr \<Rightarrow> nat \<Rightarrow> nat option" where
  "strlen_from s n = (if s n \<noteq> 0 then strlen_from s (n + 1) else Some n)"

definition strlen :: "arr \<Rightarrow> nat option" where
  "strlen s = strlen_from s 0"

partial_function (option) strcpy_from :: "nat \<Rightarrow> arr \<Rightarrow> arr \<Rightarrow> arr option" where
  "strcpy_from i t s = (if t i \<noteq> 0 then strcpy_from (i + 1) t (s(i := t i)) else Some (s(i := 0)))"

definition strcpy :: "arr \<Rightarrow> arr \<Rightarrow> arr option" where
  "strcpy s t = strcpy_from 0 t s"

partial_function (option) strcmp_from :: "nat \<Rightarrow> arr \<Rightarrow> arr \<Rightarrow> int option" where
  "strcmp_from i p q = (if p i \<noteq> 0 \<and> p i = q i then strcmp_from (i + 1) p q else Some (uint (p i) - uint (q i)))"

definition strcmp :: "arr \<Rightarrow> arr \<Rightarrow> int option" where
  "strcmp p q = strcmp_from 0 p q"

partial_function (option) strchr_from :: "nat \<Rightarrow> arr \<Rightarrow> byte \<Rightarrow> nat option option" where
  "strchr_from i s c = (if s i = 0 then Some None else if s i = c then Some (Some i) else strchr_from (i + 1) s c)"

definition strchr :: "arr \<Rightarrow> byte \<Rightarrow> nat option option" where
  "strchr s c = strchr_from 0 s c"

text \<open>\<^verbatim>\<open>atoi\<close> computes with 32-bit wrap-around; \<^verbatim>\<open>*s\<close> is a signed \<^verbatim>\<open>char\<close>.\<close>

partial_function (option) atoi_from :: "nat \<Rightarrow> arr \<Rightarrow> 32 word \<Rightarrow> 32 word option" where
  "atoi_from i s n = (if 48 \<le> sint (s i) \<and> sint (s i) \<le> 57
     then atoi_from (i + 1) s (n * 10 + scast (s i) - 48) else Some n)"

definition atoi :: "arr \<Rightarrow> 32 word option" where
  "atoi s = atoi_from 0 s 0"

section \<open>What the loops compute\<close>

text \<open>The string an array of \<open>n\<close> bytes holds, and a terminated string of unbounded size.\<close>

definition cstr :: "nat \<Rightarrow> arr \<Rightarrow> byte list" where
  "cstr n p = takeWhile (\<lambda>c. c \<noteq> 0) (map p [0..<n])"

lemma cstr_Suc: "cstr (Suc n) p = (if p 0 = 0 then [] else p 0 # cstr n (\<lambda>i. p (Suc i)))"
proof -
  have "map p [0..<Suc n] = p 0 # map (\<lambda>i. p (Suc i)) [0..<n]"
    by (simp add: map_upt_Suc del: upt_Suc)
  then show ?thesis by (simp add: cstr_def del: upt_Suc)
qed

lemma cstr_0 [simp]: "cstr 0 p = []"
  by (simp add: cstr_def)

lemma cstr_cong:
  assumes "\<And>i. i < n \<Longrightarrow> p i = q i"
  shows "cstr n p = cstr n q"
proof -
  have "map p [0..<n] = map q [0..<n]" using assms by simp
  then show ?thesis unfolding cstr_def by (rule arg_cong)
qed

lemma byte_diff: "uint (a :: byte) - uint b = 0 \<longleftrightarrow> a = b"
  by (simp add: word_uint_eq_iff)

lemma strncmp_eq_iff: "strncmp p q n = 0 \<longleftrightarrow> cstr n p = cstr n q"
proof (induction n arbitrary: p q)
  case (Suc n)
  then show ?case using byte_diff [of "p 0" "q 0"] by (cases "p 0 \<noteq> 0 \<and> p 0 = q 0") (auto simp: cstr_Suc)
qed simp

lemma memcmp_eq_iff: "memcmp p q n = 0 \<longleftrightarrow> (\<forall>i<n. p i = q i)"
proof (induction n arbitrary: p q)
  case (Suc n)
  then show ?case using byte_diff [of "p 0" "q 0"] by (cases "p 0 = q 0") (auto simp: All_less_Suc2)
qed simp

lemma stosb_spec: "stosb a c n m x = (if a \<le> x \<and> x < a + n then c else m x)"
  by (induction n arbitrary: a m) auto

lemma copy_up_spec: "\<not> (s < d \<and> d < s + n) \<Longrightarrow> copy_up d s n m x = (if d \<le> x \<and> x < d + n then m (s + (x - d)) else m x)"
proof (induction n arbitrary: d s m)
  case (Suc n)
  have "copy_up d s (Suc n) m x = copy_up (d + 1) (s + 1) n (m(d := m s)) x" by simp
  also have "\<dots> = (if d + 1 \<le> x \<and> x < d + 1 + n then (m(d := m s)) (s + 1 + (x - (d + 1))) else (m(d := m s)) x)"
    using Suc.prems by (intro Suc.IH) auto
  also have "\<dots> = (if d \<le> x \<and> x < d + Suc n then m (s + (x - d)) else m x)"
  proof (cases "d + 1 \<le> x \<and> x < d + 1 + n")
    case True
    then have e: "s + 1 + (x - (d + 1)) = s + (x - d)" by linarith
    have "s + (x - d) \<noteq> d" using Suc.prems True by linarith
    then show ?thesis using True unfolding e by simp
  next
    case False
    then show ?thesis by (cases "x = d") auto
  qed
  finally show ?case .
qed auto

lemma copy_down_spec: "s \<le> d \<Longrightarrow> copy_down d s n m x = (if d \<le> x \<and> x < d + n then m (s + (x - d)) else m x)"
proof (induction n arbitrary: m)
  case (Suc n)
  then show ?case by (auto simp: less_Suc_eq)
qed auto

text \<open>Kernel \<open>memmove\<close> copies as if through a temporary, whatever the overlap.\<close>

lemma memmove_spec: "memmove dst src n m x = (if dst \<le> x \<and> x < dst + n then m (src + (x - dst)) else m x)"
  by (simp add: memmove_def copy_down_spec copy_up_spec)

text \<open>The word that \<open>memset\<close> stores has the byte \<open>c\<close> in all four positions.\<close>

lemma byte_and_FF: "bit (and (c :: uint32) 0xFF) i \<longleftrightarrow> bit c i \<and> i < 8"
proof -
  have e: "(0xFF :: uint32) = mask 8" by (simp add: mask_eq_exp_minus_1)
  show ?thesis unfolding e bit_and_iff bit_mask_iff by (auto dest: bit_imp_le_length)
qed

lemma fill_word:
  fixes c :: uint32
  defines "d \<equiv> and c 0xFF"
  defines "w \<equiv> or (or (or (push_bit 24 d) (push_bit 16 d)) (push_bit 8 d)) d"
  assumes "k < 4"
  shows "(ucast (drop_bit (8 * k) w) :: byte) = ucast c"
proof (rule bit_word_eqI)
  fix n
  assume "n < LENGTH(8)"
  then have n: "n < 8" by simp
  have d: "bit d i \<longleftrightarrow> bit c i \<and> i < 8" for i unfolding d_def by (rule byte_and_FF)
  have k: "k = 0 \<or> k = 1 \<or> k = 2 \<or> k = 3" using assms(3) by auto
  show "bit (ucast (drop_bit (8 * k) w) :: byte) n = bit (ucast c :: byte) n"
    using k n by (elim disjE) (auto simp: w_def d bit_simps)
qed

lemma stosl_spec:
  assumes "\<And>k. k < 4 \<Longrightarrow> (ucast (drop_bit (8 * k) w) :: byte) = c"
  shows "stosl a w n m x = (if a \<le> x \<and> x < a + 4 * n then c else m x)"
proof (induction n arbitrary: a m)
  case (Suc n)
  have "(ucast w :: byte) = c" "(ucast (drop_bit 8 w) :: byte) = c" "(ucast (drop_bit 16 w) :: byte) = c"
    "(ucast (drop_bit 24 w) :: byte) = c"
    using assms [of 0] assms [of 1] assms [of 2] assms [of 3] by simp_all
  then show ?case using Suc [of "a + 4"] by auto
qed auto

lemma memset_spec: "memset dst c n m x = (if dst \<le> x \<and> x < dst + n then ucast c else m x)"
proof (cases "dst mod 4 = 0 \<and> n mod 4 = 0")
  case True
  then have "4 * (n div 4) = n" by auto
  then show ?thesis using True stosl_spec [OF fill_word [of _ c], of dst "n div 4" m x]
    by (simp add: memset_def Let_def)
qed (auto simp: memset_def stosb_spec)

lemma zero_fill_spec: "zero_fill i n s x = (if i \<le> x \<and> x < i + n then 0 else s x)"
  by (induction n arbitrary: i s) auto

lemma strncpy_from_low: "x < i \<or> i + n \<le> x \<Longrightarrow> strncpy_from i n t s x = s x"
  by (induction n arbitrary: i s) (auto simp: zero_fill_spec)

lemma strncpy_from_spec:
  "i \<le> x \<Longrightarrow> x < i + n \<Longrightarrow> strncpy_from i n t s x = (if \<exists>j. i \<le> j \<and> j < x \<and> t j = 0 then 0 else t x)"
proof (induction n arbitrary: i s)
  case (Suc n)
  show ?case
  proof (cases "x = i")
    case True
    then show ?thesis by (auto simp: strncpy_from_low zero_fill_spec)
  next
    case False
    then have x: "i + 1 \<le> x" "x < i + 1 + n" using Suc.prems by auto
    show ?thesis
    proof (cases "t i = 0")
      case True
      then show ?thesis using x by (auto simp: zero_fill_spec)
    next
      case nz: False
      have "(\<exists>j. i + 1 \<le> j \<and> j < x \<and> t j = 0) = (\<exists>j. i \<le> j \<and> j < x \<and> t j = 0)"
        using nz by (metis add.commute add_leD2 Suc_eq_plus1 le_neq_implies_less less_eq_Suc_le)
      then show ?thesis unfolding strncpy_from.simps using nz Suc.IH [OF x, of "s(i := t i)"] by (simp only: if_True if_False not_False_eq_True)
    qed
  qed
qed simp

lemma cstr_agree:
  assumes "\<And>x. x < n \<Longrightarrow> (\<And>j. j < x \<Longrightarrow> q j \<noteq> 0) \<Longrightarrow> p x = q x"
  shows "cstr n p = cstr n q"
  using assms
proof (induction n arbitrary: p q)
  case (Suc n)
  have 0: "p 0 = q 0" using Suc.prems by blast
  show ?case
  proof (cases "q 0 = 0")
    case False
    have "cstr n (\<lambda>i. p (Suc i)) = cstr n (\<lambda>i. q (Suc i))"
    proof (rule Suc.IH)
      fix x assume "x < n" "\<And>j. j < x \<Longrightarrow> q (Suc j) \<noteq> 0"
      then have "\<And>j. j < Suc x \<Longrightarrow> q j \<noteq> 0" using False less_Suc_eq_0_disj by auto
      then show "p (Suc x) = q (Suc x)" using Suc.prems \<open>x < n\<close> by simp
    qed
    then show ?thesis using 0 by (simp add: cstr_Suc)
  qed (simp add: cstr_Suc 0)
qed simp

lemma cstr_strncpy: "cstr n (strncpy s t (int n)) = cstr n t"
  by (rule cstr_agree) (auto simp: strncpy_def strncpy_from_spec)

text \<open>A copied name compares equal to what it compared equal to before.\<close>

lemma strncmp_strncpy: "strncmp p (strncpy s t (int n)) n = 0 \<longleftrightarrow> strncmp p t n = 0"
  by (simp add: strncmp_eq_iff cstr_strncpy)

lemma strlen_from_spec: "s (n + k) = 0 \<Longrightarrow> (\<And>i. i < k \<Longrightarrow> s (n + i) \<noteq> 0) \<Longrightarrow> strlen_from s n = Some (n + k)"
proof (induction k arbitrary: n)
  case 0
  then show ?case by (simp add: strlen_from.simps)
next
  case (Suc k)
  have "s n \<noteq> 0" using Suc.prems(2) [of 0] by simp
  moreover have "strlen_from s (n + 1) = Some (n + 1 + k)"
    using Suc.prems(1) Suc.prems(2) [of "Suc _"] by (intro Suc.IH) auto
  ultimately show ?case by (simp add: strlen_from.simps [of s n])
qed

section \<open>Properties\<close>

text \<open>
  The kernel's \<open>memmove\<close> is correct for overlapping areas in either direction: afterwards
  the destination holds what the source held before, and no other byte has changed.
  \<open>memset\<close> fills exactly its area, on the word-wise and on the byte-wise path.
\<close>

theorem kernel_memory_functions:
  "memmove dst src n m = (\<lambda>x. if dst \<le> x \<and> x < dst + n then m (src + (x - dst)) else m x) \<and>
   memcpy dst src n m = memmove dst src n m \<and>
   memset dst c n m = (\<lambda>x. if dst \<le> x \<and> x < dst + n then ucast c else m x)"
  by (simp add: fun_eq_iff memmove_spec memset_spec memcpy_def)

text \<open>
  The user library's \<open>memmove\<close> agrees with the kernel's unless the destination starts
  strictly inside the source area; there it copies bytes it has already overwritten.
\<close>

theorem user_memmove:
  "(\<not> (src < dst \<and> dst < src + n) \<longrightarrow> umemmove dst src (int n) m = memmove dst src n m) \<and>
   umemmove 1 0 2 (\<lambda>i. of_nat i) 2 = 0 \<and> memmove 1 0 2 (\<lambda>i. of_nat i) 2 = (1 :: byte)"
  by (auto simp: umemmove_def memmove_def numeral_2_eq_2)

theorem user_memmove_witness: "umemmove 0 1 (int 5) (\<lambda>i. of_nat i) = memmove 0 1 5 (\<lambda>i. of_nat i)"
  using user_memmove [of 1 0 5] by simp

text \<open>
  Bounded string comparison and copying. \<open>strncmp\<close> is zero exactly when the two arrays
  hold the same string of at most \<open>n\<close> bytes; \<open>strncpy\<close> leaves an array that compares equal to
  its source, pads with zeros, and never writes beyond \<open>n\<close> bytes; \<open>strlen\<close> returns the length
  of every terminated string.
\<close>

theorem kernel_string_functions:
  "(strncmp p q n = 0 \<longleftrightarrow> cstr n p = cstr n q) \<and> strncmp (strncpy s t (int n)) t n = 0 \<and>
   (\<forall>x. n \<le> x \<longrightarrow> strncpy s t (int n) x = s x) \<and>
   (\<forall>x j. j \<le> x \<longrightarrow> x < n \<longrightarrow> t j = 0 \<longrightarrow> strncpy s t (int n) x = 0) \<and>
   (t n = 0 \<longrightarrow> (\<forall>i<n. t i \<noteq> 0) \<longrightarrow> strlen t = Some n)"
proof -
  have "strncpy s t (int n) x = 0" if "j \<le> x" "x < n" "t j = 0" for x j
    using that by (cases "j = x") (auto simp: strncpy_def strncpy_from_spec)
  then show ?thesis using strlen_from_spec [of t 0 n]
    by (auto simp: strncmp_eq_iff cstr_strncpy) (auto simp: strncpy_def strncpy_from_low strlen_def)
qed

theorem kernel_string_functions_witness:
  "strlen (\<lambda>i. if i < 3 then 65 else 0) = Some 3 \<and> strncpy (\<lambda>_. 9) (\<lambda>i. if i < 3 then 65 else 0) (int 5) 7 = 9"
proof -
  note k = kernel_string_functions [of "\<lambda>_. 0" "\<lambda>_. 0" 3 "\<lambda>_. 9" "\<lambda>i. if i < 3 then 65 else 0"]
    kernel_string_functions [of "\<lambda>_. 0" "\<lambda>_. 0" 5 "\<lambda>_. 9" "\<lambda>i. if i < 3 then 65 else 0"]
  have "strlen (\<lambda>i. if i < 3 then 65 else 0) = Some 3" using k(1) by simp
  moreover have "strncpy (\<lambda>_. 9) (\<lambda>i. if i < 3 then 65 else 0) (int 5) 7 = 9" using k(2) by simp
  ultimately show ?thesis by simp
qed

end
