(* ===== verification/Fs.thy ===== *)
theory Fs
  imports Log Kstring
begin

text \<open>
  The file system of \<^verbatim>\<open>fs.c\<close>: block allocation in the free bit map, inodes on the disk and in the
  inode cache, file content through direct and indirect blocks, directories and path names.
  The state extends the log's. On-disk structures are kept at byte level, as the code lays
  them out.
\<close>

section \<open>Sizes and data\<close>

definition NINODE :: nat where "NINODE = 50"
definition NDIRECT :: nat where "NDIRECT = 12"
definition NINDIRECT :: nat where "NINDIRECT = BSIZE div 4"
definition MAXFILE :: nat where "MAXFILE = NDIRECT + NINDIRECT"
definition IPB :: nat where "IPB = BSIZE div 64"
definition BPB :: nat where "BPB = BSIZE * 8"
definition DIRSIZ :: nat where "DIRSIZ = 14"
definition NDEV :: int where "NDEV = 10"
definition ROOTDEV :: nat where "ROOTDEV = 1"
definition ROOTINO :: nat where "ROOTINO = 1"
definition T_DIR :: int where "T_DIR = 1"
definition T_FILE :: int where "T_FILE = 2"
definition T_DEV :: int where "T_DEV = 3"

lemma NDIRECT_num: "NDIRECT = 12" and NINDIRECT_num: "NINDIRECT = 128" and MAXFILE_num: "MAXFILE = 140"
  and IPB_num: "IPB = 8" and BPB_num: "BPB = 4096" and NINODE_num: "NINODE = 50" and DIRSIZ_num: "DIRSIZ = 14"
  by (simp_all add: NDIRECT_def NINDIRECT_def MAXFILE_def IPB_def BPB_def NINODE_def DIRSIZ_def BSIZE_num)

lemmas fs_sizes [sizes] = NDIRECT_num NINDIRECT_num MAXFILE_num IPB_num BPB_num NINODE_num DIRSIZ_num BSIZE_num

record inode =
  i_dev :: nat
  i_inum :: nat
  i_ref :: int
  i_lock :: sleeplock
  i_valid :: bool
  i_type :: int
  i_major :: int
  i_minor :: int
  i_nlink :: int
  i_size :: nat
  i_addrs :: "nat \<Rightarrow> nat"

text \<open>\<open>sb\<close> is the global superblock, \<open>icache\<close> the array of in-memory inodes, \<open>cwd\<close> is \<^verbatim>\<open>myproc()->cwd\<close>.\<close>

record fstate = lstate +
  sb :: superblock
  icache :: "nat \<Rightarrow> inode"
  cwd :: nat

definition setinode :: "nat \<Rightarrow> (inode \<Rightarrow> inode) \<Rightarrow> 'x fstate_scheme \<Rightarrow> 'x fstate_scheme" where
  "setinode ip f s = s\<lparr>icache := (icache s)(ip := f (icache s ip))\<rparr>"

definition IBLOCK :: "nat \<Rightarrow> superblock \<Rightarrow> nat" where
  "IBLOCK i b = u32 (i div IPB + sb_inodestart b)"

definition BBLOCK :: "nat \<Rightarrow> superblock \<Rightarrow> nat" where
  "BBLOCK b s = u32 (b div BPB + sb_bmapstart s)"

section \<open>Blocks\<close>

definition bzero :: "nat \<Rightarrow> nat \<Rightarrow> ('x fstate_scheme, unit) kmon" where
  "bzero dev bno = kbind (bread dev bno) (\<lambda>bp.
     kseq (bmodify bp (\<lambda>_. zero_block)) (kseq (log_write bp) (kseq (brelse bp) (kret ()))))"

definition map_bit :: "block \<Rightarrow> nat \<Rightarrow> bool" where
  "map_bit d bi = bit (rd d (bi div 8)) (bi mod 8)"

definition set_map_bit :: "nat \<Rightarrow> block \<Rightarrow> block" where
  "set_map_bit bi d = wr d (bi div 8) (set_bit (bi mod 8) (rd d (bi div 8)))"

definition clear_map_bit :: "nat \<Rightarrow> block \<Rightarrow> block" where
  "clear_map_bit bi d = wr d (bi div 8) (unset_bit (bi mod 8) (rd d (bi div 8)))"

definition balloc :: "nat \<Rightarrow> ('x fstate_scheme, nat) kmon" where
  "balloc dev = kbind (kget sb) (\<lambda>sp.
     kbind (kfirst (map (\<lambda>k. k * BPB) [0..<(sb_size sp + BPB - 1) div BPB]) (\<lambda>b.
       kbind (bread dev (BBLOCK b sp)) (\<lambda>bp. kbind (bdata bp) (\<lambda>d.
       case find (\<lambda>bi. \<not> map_bit d bi) [0..<min BPB (sb_size sp - b)] of
         Some bi \<Rightarrow> kseq (bmodify bp (set_map_bit bi)) (kseq (log_write bp) (kseq (brelse bp)
            (kseq (bzero dev (b + bi)) (kret (Some (b + bi))))))
       | None \<Rightarrow> kseq (brelse bp) (kret None)))))
     (\<lambda>r. case r of Some b \<Rightarrow> kret b | None \<Rightarrow> kpanic ''balloc: out of blocks''))"

definition bfree :: "nat \<Rightarrow> nat \<Rightarrow> ('x fstate_scheme, unit) kmon" where
  "bfree dev b = kbind (kget sb) (\<lambda>sp.
     kbind (bread dev (BBLOCK b sp)) (\<lambda>bp. kbind (bdata bp) (\<lambda>d.
     if \<not> map_bit d (b mod BPB) then kpanic ''freeing free block''
     else kseq (bmodify bp (clear_map_bit (b mod BPB))) (kseq (log_write bp) (kseq (brelse bp) (kret ()))))))"

section \<open>Inodes\<close>

definition iinit :: "nat \<Rightarrow> ('x fstate_scheme, unit) kmon" where
  "iinit dev = kseq (kmod (\<lambda>s. s\<lparr>icache := (\<lambda>i. if i < NINODE
       then (icache s i)\<lparr>i_lock := initsleeplock (i_lock (icache s i))\<rparr> else icache s i)\<rparr>))
     (kbind (readsb dev) (\<lambda>sp. kmod (\<lambda>s. s\<lparr>sb := sp\<rparr>)))"

text \<open>The on-disk inode at byte \<open>k\<close> of a block: \<^verbatim>\<open>struct dinode\<close>, 64 bytes.\<close>

definition dinode_type :: "block \<Rightarrow> nat \<Rightarrow> int" where
  "dinode_type d k = s16 (le16 (rd d) k)"

definition decode_dinode :: "block \<Rightarrow> nat \<Rightarrow> inode \<Rightarrow> inode" where
  "decode_dinode d k ip = ip\<lparr>i_type := s16 (le16 (rd d) k), i_major := s16 (le16 (rd d) (k + 2)),
     i_minor := s16 (le16 (rd d) (k + 4)), i_nlink := s16 (le16 (rd d) (k + 6)), i_size := le32 (rd d) (k + 8),
     i_addrs := (\<lambda>j. if j \<le> NDIRECT then le32 (rd d) (k + 12 + 4 * j) else i_addrs ip j)\<rparr>"

definition encode_dinode :: "inode \<Rightarrow> nat \<Rightarrow> block \<Rightarrow> block" where
  "encode_dinode ip k d = fold (\<lambda>j d. put32 d (k + 12 + 4 * j) (i_addrs ip j)) [0..<NDIRECT + 1]
     (put32 (put16 (put16 (put16 (put16 d k (of_s16 (i_type ip))) (k + 2) (of_s16 (i_major ip)))
       (k + 4) (of_s16 (i_minor ip))) (k + 6) (of_s16 (i_nlink ip))) (k + 8) (i_size ip))"

definition clear_dinode :: "int \<Rightarrow> nat \<Rightarrow> block \<Rightarrow> block" where
  "clear_dinode type k d = put16 (mkblk (\<lambda>i. if k \<le> i \<and> i < k + 64 then 0 else rd d i)) k (of_s16 type)"

definition dinode_off :: "nat \<Rightarrow> nat" where
  "dinode_off inum = 64 * (inum mod IPB)"

definition iget :: "nat \<Rightarrow> nat \<Rightarrow> ('x fstate_scheme, nat) kmon" where
  "iget dev inum = (\<lambda>s.
     case find (\<lambda>i. 0 < i_ref (icache s i) \<and> i_dev (icache s i) = dev \<and> i_inum (icache s i) = inum) [0..<NINODE] of
       Some i \<Rightarrow> Done i (setinode i (\<lambda>ip. ip\<lparr>i_ref := i_ref ip + 1\<rparr>) s)
     | None \<Rightarrow>
        (case find (\<lambda>i. i_ref (icache s i) = 0) [0..<NINODE] of
          None \<Rightarrow> Panic ''iget: no inodes''
        | Some i \<Rightarrow> Done i (setinode i (\<lambda>ip. ip\<lparr>i_dev := dev, i_inum := inum, i_ref := 1, i_valid := False\<rparr>) s)))"

definition ialloc :: "nat \<Rightarrow> int \<Rightarrow> ('x fstate_scheme, nat) kmon" where
  "ialloc dev type = kbind (kget sb) (\<lambda>sp.
     kbind (kfirst [1..<sb_ninodes sp] (\<lambda>inum.
       kbind (bread dev (IBLOCK inum sp)) (\<lambda>bp. kbind (bdata bp) (\<lambda>d.
       if dinode_type d (dinode_off inum) = 0
       then kseq (bmodify bp (clear_dinode type (dinode_off inum))) (kseq (log_write bp) (kseq (brelse bp)
         (kbind (iget dev inum) (\<lambda>ip. kret (Some ip)))))
       else kseq (brelse bp) (kret None)))))
     (\<lambda>r. case r of Some ip \<Rightarrow> kret ip | None \<Rightarrow> kpanic ''ialloc: no inodes''))"

definition iupdate :: "nat \<Rightarrow> ('x fstate_scheme, unit) kmon" where
  "iupdate ip = kbind (kget (\<lambda>s. icache s ip)) (\<lambda>i. kbind (kget sb) (\<lambda>sp.
     kbind (bread (i_dev i) (IBLOCK (i_inum i) sp)) (\<lambda>bp.
     kseq (bmodify bp (encode_dinode i (dinode_off (i_inum i)))) (kseq (log_write bp) (kseq (brelse bp) (kret ()))))))"

definition idup :: "nat \<Rightarrow> ('x fstate_scheme, nat) kmon" where
  "idup ip = kseq (kmod (setinode ip (\<lambda>i. i\<lparr>i_ref := i_ref i + 1\<rparr>))) (kret ip)"

definition ilock_sleep :: "nat \<Rightarrow> ('x fstate_scheme, unit) kmon" where
  "ilock_sleep ip = (\<lambda>s. case acquiresleep (curpid s) (i_lock (icache s ip)) of
       None \<Rightarrow> Sleep (ChanInode ip) s
     | Some lk \<Rightarrow> Done () (setinode ip (\<lambda>i. i\<lparr>i_lock := lk\<rparr>) s))"

text \<open>Inode pointers that the code compares with 0 are options.\<close>

definition ilock :: "nat option \<Rightarrow> ('x fstate_scheme, unit) kmon" where
  "ilock p = (case p of None \<Rightarrow> kpanic ''ilock'' | Some ip \<Rightarrow>
     kbind (kget (\<lambda>s. icache s ip)) (\<lambda>i0.
     if i_ref i0 < 1 then kpanic ''ilock''
     else kseq (ilock_sleep ip) (kbind (kget (\<lambda>s. icache s ip)) (\<lambda>i.
       if i_valid i then kret ()
       else kbind (kget sb) (\<lambda>sp. kbind (bread (i_dev i) (IBLOCK (i_inum i) sp)) (\<lambda>bp.
         kbind (bdata bp) (\<lambda>d.
         kseq (kmod (setinode ip (decode_dinode d (dinode_off (i_inum i)))))
         (kseq (brelse bp)
         (kseq (kmod (setinode ip (\<lambda>i. i\<lparr>i_valid := True\<rparr>)))
         (kbind (kget (\<lambda>s. icache s ip)) (\<lambda>i.
          if i_type i = 0 then kpanic ''ilock: no type'' else kret ())))))))))))"

definition iunlock :: "nat option \<Rightarrow> ('x fstate_scheme, unit) kmon" where
  "iunlock p = (case p of None \<Rightarrow> kpanic ''iunlock'' | Some ip \<Rightarrow>
     kbind (kget (\<lambda>s. \<not> holdingsleep (curpid s) (i_lock (icache s ip)) \<or> i_ref (icache s ip) < 1)) (\<lambda>bad.
     if bad then kpanic ''iunlock''
     else kmod (setinode ip (\<lambda>i. i\<lparr>i_lock := releasesleep (i_lock i)\<rparr>))))"

definition itrunc :: "nat \<Rightarrow> ('x fstate_scheme, unit) kmon" where
  "itrunc ip =
     kseq (kfor [0..<NDIRECT] (\<lambda>k. kbind (kget (\<lambda>s. icache s ip)) (\<lambda>i.
       if i_addrs i k \<noteq> 0
       then kseq (bfree (i_dev i) (i_addrs i k)) (kmod (setinode ip (\<lambda>i. i\<lparr>i_addrs := (i_addrs i)(k := 0)\<rparr>)))
       else kret ())))
     (kseq (kbind (kget (\<lambda>s. icache s ip)) (\<lambda>i.
       if i_addrs i NDIRECT \<noteq> 0
       then kbind (bread (i_dev i) (i_addrs i NDIRECT)) (\<lambda>bp. kbind (bdata bp) (\<lambda>a.
         kseq (kfor [0..<NINDIRECT] (\<lambda>j.
            if le32 (rd a) (4 * j) \<noteq> 0 then bfree (i_dev i) (le32 (rd a) (4 * j)) else kret ()))
         (kseq (brelse bp) (kseq (bfree (i_dev i) (i_addrs i NDIRECT))
           (kmod (setinode ip (\<lambda>i. i\<lparr>i_addrs := (i_addrs i)(NDIRECT := 0)\<rparr>)))))))
       else kret ()))
     (kseq (kmod (setinode ip (\<lambda>i. i\<lparr>i_size := 0\<rparr>))) (iupdate ip)))"

definition iput :: "nat \<Rightarrow> ('x fstate_scheme, unit) kmon" where
  "iput ip =
     kseq (ilock_sleep ip)
     (kseq (kbind (kget (\<lambda>s. icache s ip)) (\<lambda>i.
       if i_valid i \<and> i_nlink i = 0 \<and> i_ref i = 1
       then kseq (itrunc ip) (kseq (kmod (setinode ip (\<lambda>i. i\<lparr>i_type := 0\<rparr>)))
         (kseq (iupdate ip) (kmod (setinode ip (\<lambda>i. i\<lparr>i_valid := False\<rparr>)))))
       else kret ()))
     (kseq (kmod (setinode ip (\<lambda>i. i\<lparr>i_lock := releasesleep (i_lock i)\<rparr>)))
       (kmod (setinode ip (\<lambda>i. i\<lparr>i_ref := i_ref i - 1\<rparr>)))))"

definition iunlockput :: "nat \<Rightarrow> ('x fstate_scheme, unit) kmon" where
  "iunlockput ip = kseq (iunlock (Some ip)) (iput ip)"

section \<open>Inode content\<close>

definition bmap :: "nat \<Rightarrow> nat \<Rightarrow> ('x fstate_scheme, nat) kmon" where
  "bmap ip bn = kbind (kget (\<lambda>s. icache s ip)) (\<lambda>i.
     if bn < NDIRECT then
       (if i_addrs i bn = 0
        then kbind (balloc (i_dev i)) (\<lambda>addr.
          kseq (kmod (setinode ip (\<lambda>i. i\<lparr>i_addrs := (i_addrs i)(bn := addr)\<rparr>))) (kret addr))
        else kret (i_addrs i bn))
     else if bn - NDIRECT < NINDIRECT then
       kbind (if i_addrs i NDIRECT = 0
          then kbind (balloc (i_dev i)) (\<lambda>addr.
            kseq (kmod (setinode ip (\<lambda>i. i\<lparr>i_addrs := (i_addrs i)(NDIRECT := addr)\<rparr>))) (kret addr))
          else kret (i_addrs i NDIRECT)) (\<lambda>ind.
       kbind (bread (i_dev i) ind) (\<lambda>bp. kbind (bdata bp) (\<lambda>a.
       if le32 (rd a) (4 * (bn - NDIRECT)) = 0
       then kbind (balloc (i_dev i)) (\<lambda>addr.
         kseq (bmodify bp (\<lambda>a. put32 a (4 * (bn - NDIRECT)) addr))
         (kseq (log_write bp) (kseq (brelse bp) (kret addr))))
       else kseq (brelse bp) (kret (le32 (rd a) (4 * (bn - NDIRECT)))))))
     else kpanic ''bmap: out of range'')"

record stat =
  st_type :: int
  st_dev :: nat
  st_ino :: nat
  st_nlink :: int
  st_size :: nat

definition stati :: "nat \<Rightarrow> ('x fstate_scheme, stat) kmon" where
  "stati ip = kbind (kget (\<lambda>s. icache s ip)) (\<lambda>i.
     kret \<lparr>st_type = i_type i, st_dev = i_dev i, st_ino = i_inum i, st_nlink = i_nlink i, st_size = i_size i\<rparr>)"

text \<open>
  The device switch: for a major number, the read and write functions a driver has installed
  in \<^verbatim>\<open>devsw\<close>, if any. A read returns the count and the bytes it stored.
\<close>

record 's devsw =
  dev_read :: "int \<Rightarrow> (nat \<Rightarrow> nat \<Rightarrow> ('s, int \<times> byte list) kmon) option"
  dev_write :: "int \<Rightarrow> (nat \<Rightarrow> byte list \<Rightarrow> ('s, int) kmon) option"

text \<open>The part of a transfer of \<open>n\<close> bytes at \<open>off\<close> that lies in the first block.\<close>

definition span :: "nat \<Rightarrow> nat \<Rightarrow> nat" where
  "span off n = min n (BSIZE - off mod BSIZE)"

lemma span_pos: "0 < n \<Longrightarrow> 0 < span off n"
  by (simp add: span_def BSIZE_num)

function readi_loop :: "nat \<Rightarrow> nat \<Rightarrow> nat \<Rightarrow> ('x fstate_scheme, byte list) kmon" where
  "readi_loop ip off n = (if n = 0 then kret [] else
     kbind (kget (\<lambda>s. icache s ip)) (\<lambda>i.
     kbind (bmap ip (off div BSIZE)) (\<lambda>a.
     kbind (bread (i_dev i) a) (\<lambda>bp. kbind (bdata bp) (\<lambda>d. kseq (brelse bp)
     (kbind (readi_loop ip (off + span off n) (n - span off n)) (\<lambda>bs.
      kret (map (\<lambda>k. rd d (off mod BSIZE + k)) [0..<span off n] @ bs))))))))"
  by auto
termination
  by (relation "measure (\<lambda>(_, _, n). n)") (use span_pos in \<open>auto simp: diff_less\<close>)

definition readi :: "'x fstate_scheme devsw \<Rightarrow> nat \<Rightarrow> nat \<Rightarrow> nat \<Rightarrow> ('x fstate_scheme, int \<times> byte list) kmon" where
  "readi dv ip off n = kbind (kget (\<lambda>s. icache s ip)) (\<lambda>i.
     if i_type i = T_DEV then
       (if i_major i < 0 \<or> NDEV \<le> i_major i then kret (- 1, [])
        else case dev_read dv (i_major i) of None \<Rightarrow> kret (- 1, []) | Some rdev \<Rightarrow> rdev ip n)
     else if i_size i < off \<or> u32 (off + n) < off then kret (- 1, [])
     else let m = (if i_size i < off + n then i_size i - off else n) in
       kbind (readi_loop ip off m) (\<lambda>bs. kret (int m, bs)))"

definition put_bytes :: "nat \<Rightarrow> byte list \<Rightarrow> block \<Rightarrow> block" where
  "put_bytes k bs d = mkblk (\<lambda>i. if k \<le> i \<and> i < k + length bs then bs ! (i - k) else rd d i)"

function writei_loop :: "nat \<Rightarrow> nat \<Rightarrow> byte list \<Rightarrow> ('x fstate_scheme, unit) kmon" where
  "writei_loop ip off bs = (if bs = [] then kret () else
     kbind (kget (\<lambda>s. icache s ip)) (\<lambda>i.
     kbind (bmap ip (off div BSIZE)) (\<lambda>a.
     kbind (bread (i_dev i) a) (\<lambda>bp.
     kseq (bmodify bp (put_bytes (off mod BSIZE) (take (span off (length bs)) bs)))
     (kseq (log_write bp) (kseq (brelse bp)
     (writei_loop ip (off + span off (length bs)) (drop (span off (length bs)) bs))))))))"
  by auto
termination
  by (relation "measure (\<lambda>(_, _, bs). length bs)") (use span_pos in \<open>auto simp: diff_less\<close>)

definition writei :: "'x fstate_scheme devsw \<Rightarrow> nat \<Rightarrow> byte list \<Rightarrow> nat \<Rightarrow> ('x fstate_scheme, int) kmon" where
  "writei dv ip bs off = (let n = length bs in kbind (kget (\<lambda>s. icache s ip)) (\<lambda>i.
     if i_type i = T_DEV then
       (if i_major i < 0 \<or> NDEV \<le> i_major i then kret (- 1)
        else case dev_write dv (i_major i) of None \<Rightarrow> kret (- 1) | Some wdev \<Rightarrow> wdev ip bs)
     else if i_size i < off \<or> u32 (off + n) < off then kret (- 1)
     else if MAXFILE * BSIZE < off + n then kret (- 1)
     else kseq (writei_loop ip off bs)
       (kbind (kget (\<lambda>s. i_size (icache s ip))) (\<lambda>size.
        kseq (if 0 < n \<and> size < off + n
          then kseq (kmod (setinode ip (\<lambda>i. i\<lparr>i_size := off + n\<rparr>))) (iupdate ip)
          else kret ())
        (kret (int n))))))"

section \<open>Directories and paths\<close>

definition namecmp :: "arr \<Rightarrow> arr \<Rightarrow> int" where
  "namecmp s t = strncmp s t DIRSIZ"

text \<open>A directory entry: 16 bytes, the inode number and then the name.\<close>

definition de_inum :: "byte list \<Rightarrow> nat" where
  "de_inum bs = le16 (\<lambda>i. bs ! i) 0"

definition de_name :: "byte list \<Rightarrow> arr" where
  "de_name bs = (\<lambda>i. bs ! (i + 2))"

definition dirlookup :: "'x fstate_scheme devsw \<Rightarrow> nat \<Rightarrow> arr \<Rightarrow> ('x fstate_scheme, (nat \<times> nat) option) kmon" where
  "dirlookup dv dp name = kbind (kget (\<lambda>s. icache s dp)) (\<lambda>i.
     if i_type i \<noteq> T_DIR then kpanic ''dirlookup not DIR''
     else kfirst (map (\<lambda>k. 16 * k) [0..<(i_size i + 15) div 16]) (\<lambda>off.
       kbind (readi dv dp off 16) (\<lambda>(r, de).
       if r \<noteq> 16 then kpanic ''dirlookup read''
       else if de_inum de = 0 then kret None
       else if namecmp name (de_name de) = 0
         then kbind (iget (i_dev i) (de_inum de)) (\<lambda>ip. kret (Some (ip, off)))
       else kret None)))"

definition dirlink :: "'x fstate_scheme devsw \<Rightarrow> nat \<Rightarrow> arr \<Rightarrow> nat \<Rightarrow> ('x fstate_scheme, int) kmon" where
  "dirlink dv dp name inum = kbind (dirlookup dv dp name) (\<lambda>r. case r of
       Some (ip, off) \<Rightarrow> kseq (iput ip) (kret (- 1))
     | None \<Rightarrow> kbind (kget (\<lambda>s. i_size (icache s dp))) (\<lambda>size.
         kbind (kfirst (map (\<lambda>k. 16 * k) [0..<(size + 15) div 16]) (\<lambda>off.
           kbind (readi dv dp off 16) (\<lambda>(r, de).
           if r \<noteq> 16 then kpanic ''dirlink read''
           else if de_inum de = 0 then kret (Some off) else kret None)))
         (\<lambda>slot. let off = (case slot of Some off \<Rightarrow> off | None \<Rightarrow> 16 * ((size + 15) div 16));
            de = [of_nat inum, of_nat (inum div 256)] @ map (strncpy (\<lambda>_. 0) name (int DIRSIZ)) [0..<DIRSIZ] in
          kbind (writei dv dp de off) (\<lambda>w. if w \<noteq> 16 then kpanic ''dirlink'' else kret 0))))"

text \<open>
  A path is the bytes before the terminating NUL. \<open>skipelem\<close> returns the rest of the path and
  the new content of the \<open>name\<close> array.
\<close>

abbreviation slash :: byte where "slash \<equiv> 47"

definition skipelem :: "byte list \<Rightarrow> arr \<Rightarrow> (byte list \<times> arr) option" where
  "skipelem path name = (let s = dropWhile (\<lambda>c. c = slash) path in
     if s = [] then None
     else let e = takeWhile (\<lambda>c. c \<noteq> slash) s; rest = dropWhile (\<lambda>c. c \<noteq> slash) s; len = length e;
            name' = (if DIRSIZ \<le> len then (\<lambda>i. if i < DIRSIZ then e ! i else name i)
                     else (\<lambda>i. if i < len then e ! i else if i = len then 0 else name i))
          in Some (dropWhile (\<lambda>c. c = slash) rest, name'))"

lemma skipelem_shorter: "skipelem path name = Some (rest, n) \<Longrightarrow> length rest < length path"
proof -
  assume a: "skipelem path name = Some (rest, n)"
  let ?s = "dropWhile (\<lambda>c. c = slash) path"
  have s: "?s \<noteq> []" "rest = dropWhile (\<lambda>c. c = slash) (dropWhile (\<lambda>c. c \<noteq> slash) ?s)"
    using a by (auto simp: skipelem_def Let_def split: if_splits)
  have "hd ?s \<noteq> slash" using s(1) hd_dropWhile [of "\<lambda>c. c = slash" path] by simp
  then obtain c cs where c: "?s = c # cs" "c \<noteq> slash" using s(1) by (cases ?s) auto
  have "length rest \<le> length (dropWhile (\<lambda>c. c \<noteq> slash) ?s)" using s(2) length_dropWhile_le by metis
  also have "\<dots> \<le> length cs" using c length_dropWhile_le [of _ cs] by simp
  also have "\<dots> < length ?s" using c by simp
  also have "\<dots> \<le> length path" by (rule length_dropWhile_le)
  finally show ?thesis .
qed

function namex_loop :: "'x fstate_scheme devsw \<Rightarrow> nat \<Rightarrow> byte list \<Rightarrow> bool \<Rightarrow> arr \<Rightarrow>
    ('x fstate_scheme, (nat \<times> arr) option) kmon" where
  "namex_loop dv ip path parent name = (case skipelem path name of
       None \<Rightarrow> if parent then kseq (iput ip) (kret None) else kret (Some (ip, name))
     | Some (rest, name') \<Rightarrow>
        kseq (ilock (Some ip)) (kbind (kget (\<lambda>s. i_type (icache s ip))) (\<lambda>ty.
        if ty \<noteq> T_DIR then kseq (iunlockput ip) (kret None)
        else if parent \<and> rest = [] then kseq (iunlock (Some ip)) (kret (Some (ip, name')))
        else kbind (dirlookup dv ip name') (\<lambda>r. case r of
            None \<Rightarrow> kseq (iunlockput ip) (kret None)
          | Some (next, off) \<Rightarrow> kseq (iunlockput ip) (namex_loop dv next rest parent name')))))"
  by pat_completeness auto
termination
  by (relation "measure (\<lambda>(_, _, path, _, _). length path)") (auto dest: skipelem_shorter)

definition namex :: "'x fstate_scheme devsw \<Rightarrow> byte list \<Rightarrow> bool \<Rightarrow> arr \<Rightarrow> ('x fstate_scheme, (nat \<times> arr) option) kmon" where
  "namex dv path parent name =
     kbind (if path \<noteq> [] \<and> hd path = slash then iget ROOTDEV ROOTINO else kbind (kget cwd) idup)
       (\<lambda>ip. namex_loop dv ip path parent name)"

definition namei :: "'x fstate_scheme devsw \<Rightarrow> byte list \<Rightarrow> ('x fstate_scheme, nat option) kmon" where
  "namei dv path = kbind (namex dv path False (\<lambda>_. 0)) (\<lambda>r. kret (map_option fst r))"

definition nameiparent :: "'x fstate_scheme devsw \<Rightarrow> byte list \<Rightarrow> arr \<Rightarrow> ('x fstate_scheme, (nat \<times> arr) option) kmon" where
  "nameiparent dv path name = namex dv path True name"

declare readi_loop.simps [simp del] writei_loop.simps [simp del] namex_loop.simps [simp del]

end
