(* ===== verification/FsProps.thy ===== *)
theory FsProps
  imports Fs
begin

text \<open>
  What the file-system operations do, seen through the contracts of the cache and of the log:
  block allocation, on-disk inodes, the inode cache, file content, directories and paths.
\<close>

section \<open>The state outside the cache\<close>

lemma rest_fs:
  fixes s t :: "'x fstate_scheme"
  assumes "brest t = brest s"
  shows "sb t = sb s" "icache t = icache s" "cwd t = cwd s" "curpid t = curpid s"
  using assms by (cases s; cases t; simp add: brest_def)+

lemma lrest_fs:
  fixes s t :: "'x fstate_scheme"
  assumes "lrest t = lrest s"
  shows "sb t = sb s" "icache t = icache s" "cwd t = cwd s" "curpid t = curpid s" "disksize t = disksize s"
  using assms by (cases s; cases t; simp add: lrest_def)+

lemma cache_of_setinode [simp]:
  "babs (setinode ip f s) = babs s" "binv (setinode ip f s) = binv s" "bhold (setinode ip f s) = bhold s"
  "icache (setinode ip f s) = (icache s)(ip := f (icache s ip))" "sb (setinode ip f s) = sb s"
  "in_txn (setinode ip f s) = in_txn s" "cwd (setinode ip f s) = cwd s" "curpid (setinode ip f s) = curpid s"
  by (simp_all add: setinode_def babs_def binv_def bhold_def fun_eq_iff view_def slot_def heldblks_def
      dirtyblks_def in_txn_def log_wf_def split: option.split)

section \<open>Reading file content\<close>

text \<open>
  The disk block that holds block \<open>bn\<close> of a file, and the byte at an offset. \<open>file_ok s ip sz\<close>:
  the first \<open>sz\<close> bytes of the file are mapped to blocks of the disk.
\<close>

definition faddr :: "'x fstate_scheme \<Rightarrow> nat \<Rightarrow> nat \<Rightarrow> nat" where
  "faddr s ip bn = (if bn < NDIRECT then i_addrs (icache s ip) bn
     else le32 (rd (view s (i_addrs (icache s ip) NDIRECT))) (4 * (bn - NDIRECT)))"

definition fbyte :: "'x fstate_scheme \<Rightarrow> nat \<Rightarrow> nat \<Rightarrow> byte" where
  "fbyte s ip off = rd (view s (faddr s ip (off div BSIZE))) (off mod BSIZE)"

definition file_ok :: "'x fstate_scheme \<Rightarrow> nat \<Rightarrow> nat \<Rightarrow> bool" where
  "file_ok s ip sz \<longleftrightarrow> i_dev (icache s ip) = 1 \<and> sz \<le> MAXFILE * BSIZE \<and>
     (\<forall>bn. bn * BSIZE < sz \<longrightarrow> faddr s ip bn \<noteq> 0 \<and> faddr s ip bn < disksize s \<and>
        (NDIRECT \<le> bn \<longrightarrow> i_addrs (icache s ip) NDIRECT \<noteq> 0 \<and> i_addrs (icache s ip) NDIRECT < disksize s))"

text \<open>No buffer is held and one is free.\<close>

definition idle :: "'x bstate_scheme \<Rightarrow> bool" where
  "idle s \<longleftrightarrow> binv s \<and> heldblks s = {} \<and> card (dirtyblks s) < NBUF"

lemma idle_room: "idle s \<Longrightarrow> b < disksize s \<Longrightarrow> room (babs s) b"
  by (simp add: idle_def room_def babs_sel)

text \<open>\<open>same s t\<close>: reading has changed nothing but the cache's internals.\<close>

definition same :: "'x bstate_scheme \<Rightarrow> 'x bstate_scheme \<Rightarrow> bool" where
  "same s t \<longleftrightarrow> binv t \<and> babs t = babs s \<and> brest t = brest s"

lemma same_refl: "binv s \<Longrightarrow> same s s"
  by (simp add: same_def)

lemma same_trans: "same s t \<Longrightarrow> same t u \<Longrightarrow> same s u"
  by (simp add: same_def)

lemma same_fields:
  assumes "same s t"
  shows "view t = view s" "disk t = disk s" "disksize t = disksize s" "heldblks t = heldblks s" "dirtyblks t = dirtyblks s"
  using assms by (simp_all add: same_def babs_def)

lemma same_file:
  assumes "same s t"
  shows "icache t = icache s" "faddr t = faddr s" "fbyte t = fbyte s" "file_ok t = file_ok s" "sb t = sb s"
proof -
  have r: "icache t = icache s" "sb t = sb s" using assms rest_fs [of t s] by (auto simp: same_def)
  note f = same_fields [OF assms]
  show a: "icache t = icache s" "faddr t = faddr s" "fbyte t = fbyte s" "sb t = sb s"
    using r f by (simp_all add: faddr_def fbyte_def fun_eq_iff)
  show "file_ok t = file_ok s" using a f by (simp add: file_ok_def fun_eq_iff)
qed

lemma same_idle: "idle s \<Longrightarrow> same s t \<Longrightarrow> idle t"
  using same_fields [of s t] by (simp add: idle_def same_def)

lemma read_block:
  assumes "idle s" "b < disksize s" "\<And>t. same s t \<Longrightarrow> wp (k (view s b)) Q t"
  shows "wp (kbind (bread 1 b) (\<lambda>i. kbind (bdata i) (\<lambda>d. kseq (brelse i) (k d)))) Q s"
  by (rule bc.read_idiom)
    (use assms idle_room in \<open>auto simp: idle_def bc.quiet_def same_def babs_sel\<close>)

lemma bmap_mapped:
  assumes "idle s" "file_ok s ip sz" "bn * BSIZE < sz"
    and k: "\<And>t. same s t \<Longrightarrow> wp (k (faddr s ip bn)) Q t"
  shows "wp (kbind (bmap ip bn) k) Q s"
proof -
  let ?i = "icache s ip"
  have dev: "i_dev ?i = 1" and max: "bn < NDIRECT + NINDIRECT" and nz: "faddr s ip bn \<noteq> 0"
    and ind: "\<not> bn < NDIRECT \<Longrightarrow> i_addrs ?i NDIRECT \<noteq> 0 \<and> i_addrs ?i NDIRECT < disksize s"
    using assms(2,3) by (auto simp: file_ok_def sizes)
  show ?thesis
  proof (cases "bn < NDIRECT")
    case True
    have "wp (bmap ip bn) (\<lambda>x. wp (k x) Q) s"
      using k [of s] assms(1) nz True by (simp add: bmap_def faddr_def same_refl idle_def)
    then show ?thesis by simp
  next
    case False
    let ?ind = "i_addrs ?i NDIRECT"
    have f: "faddr s ip bn = le32 (rd (view s ?ind)) (4 * (bn - NDIRECT))" using False by (simp add: faddr_def)
    have r: "room (babs s) ?ind" using idle_room [OF assms(1)] ind [OF False] by simp
    have bn: "bn - NDIRECT < NINDIRECT" using max False by linarith
    have s: "binv s" "?ind \<notin> heldblks s" using assms(1) by (simp_all add: idle_def)
    have "wp (kbind (bread 1 ?ind) (\<lambda>bp. kbind (bdata bp) (\<lambda>a. if le32 (rd a) (4 * (bn - NDIRECT)) = 0
       then kbind (balloc 1) (\<lambda>addr. kseq (bmodify bp (\<lambda>a. put32 a (4 * (bn - NDIRECT)) addr))
         (kseq (log_write bp) (kseq (brelse bp) (kret addr))))
       else kseq (brelse bp) (kret (le32 (rd a) (4 * (bn - NDIRECT))))))) (\<lambda>x. wp (k x) Q) s"
    proof (rule bc.hold_idiom [OF s(1) r], rule bc.data_idiom, assumption, assumption)
      fix bp t
      assume t: "binv t" "bhold t bp ?ind" "babs t = a_hold ?ind (babs s)" "brest t = brest s"
      have v: "a_view (babs t) ?ind = view s ?ind" using t(3) by (simp add: a_hold_def babs_sel)
      have "wp (kseq (brelse bp) (kret (faddr s ip bn))) (\<lambda>x. wp (k x) Q) t"
      proof (rule bc.drop_idiom [OF t(1,2)])
        show "?ind \<in> a_dirty (babs t) \<or> a_view (babs t) ?ind = a_home (babs t) ?ind"
          using t(3) bc.clean_law [OF s(1), of ?ind] s(2) by (auto simp: a_hold_def babs_sel)
        show "wp (kret (faddr s ip bn)) (\<lambda>x. wp (k x) Q) u"
          if "binv u" "babs u = a_release ?ind (babs t)" "brest u = brest t" for u
          using that t(3,4) s(2) k [of u] by (simp add: same_def babs_sel)
      qed
      then show "wp (if le32 (rd (a_view (babs t) ?ind)) (4 * (bn - NDIRECT)) = 0
       then kbind (balloc 1) (\<lambda>addr. kseq (bmodify bp (\<lambda>a. put32 a (4 * (bn - NDIRECT)) addr))
         (kseq (log_write bp) (kseq (brelse bp) (kret addr))))
       else kseq (brelse bp) (kret (le32 (rd (a_view (babs t) ?ind)) (4 * (bn - NDIRECT))))) (\<lambda>x. wp (k x) Q) t"
        unfolding v using nz by (simp add: f)
    qed
    then have "wp (bmap ip bn) (\<lambda>x. wp (k x) Q) s"
      using False ind [OF False] dev bn by (simp add: bmap_def cong: if_cong)
    then show ?thesis by simp
  qed
qed


lemma file_ok_le: "file_ok s ip sz \<Longrightarrow> sz' \<le> sz \<Longrightarrow> file_ok s ip sz'"
  unfolding file_ok_def by (meson le_trans less_le_trans)

text \<open>The bytes of one block that a transfer at \<open>off\<close> covers.\<close>

lemma span_bounds: "span off n \<le> n" "off mod BSIZE + span off n \<le> BSIZE"
  using mod_less_divisor [of BSIZE off] by (auto simp: span_def BSIZE_num)

lemma span_same_block: "k < span off n \<Longrightarrow> (off + k) div BSIZE = off div BSIZE \<and> (off + k) mod BSIZE = off mod BSIZE + k"
proof -
  assume k: "k < span off n"
  define q r where "q = off div BSIZE" and "r = off mod BSIZE"
  have o: "off = q * BSIZE + r" "r + k < BSIZE"
    using span_bounds(2) [of off n] k by (auto simp: q_def r_def)
  have e: "off + k = (r + k) + q * BSIZE" using o(1) by simp
  have "((r + k) + q * BSIZE) div BSIZE = q" using o(2) by (subst div_mult_self1) auto
  moreover have "((r + k) + q * BSIZE) mod BSIZE = r + k" unfolding mod_mult_self1 using o(2) by (rule mod_less)
  ultimately have "(off + k) div BSIZE = q \<and> (off + k) mod BSIZE = r + k" unfolding e by blast
  then show ?thesis by (simp add: q_def r_def)
qed

lemma span_block_in: "0 < n \<Longrightarrow> off + n \<le> sz \<Longrightarrow> (off div BSIZE) * BSIZE < sz"
proof -
  assume "0 < n" "off + n \<le> sz"
  moreover have "(off div BSIZE) * BSIZE \<le> off" by simp
  ultimately show ?thesis by linarith
qed

lemma readi_loop_ok:
  assumes "idle s" "file_ok s ip sz" "off + n \<le> sz"
  shows "wp (readi_loop ip off n) (\<lambda>bs t. same s t \<and> bs = map (fbyte s ip) [off..<off + n]) s"
  using assms
proof (induction n arbitrary: off s rule: less_induct)
  case (less n)
  show ?case
  proof (cases "n = 0")
    case True
    then show ?thesis using less.prems by (simp add: readi_loop.simps same_refl idle_def)
  next
    case False
    let ?m = "span off n" and ?a = "faddr s ip (off div BSIZE)"
    have m: "0 < ?m" "?m \<le> n" using False span_pos span_bounds by auto
    have blk: "(off div BSIZE) * BSIZE < sz" using span_block_in [of n off sz] False less.prems(3) by simp
    have a: "?a < disksize s" "i_dev (icache s ip) = 1" using less.prems(2) blk by (auto simp: file_ok_def)
    have bytes: "map (\<lambda>k. rd (view s ?a) (off mod BSIZE + k)) [0..<?m] = map (fbyte s ip) [off..<off + ?m]"
    proof (rule nth_equalityI)
      fix k assume "k < length (map (\<lambda>k. rd (view s ?a) (off mod BSIZE + k)) [0..<?m])"
      then have "k < ?m" by simp
      then show "map (\<lambda>k. rd (view s ?a) (off mod BSIZE + k)) [0..<?m] ! k = map (fbyte s ip) [off..<off + ?m] ! k"
        using span_same_block [of k off n] by (simp add: fbyte_def)
    qed simp
    have up: "[off..<off + n] = [off..<off + ?m] @ [off + ?m..<off + n]"
      using upt_add_eq_append [of off "off + ?m" "n - ?m"] m by simp
    have rest: "wp (kbind (readi_loop ip (off + ?m) (n - ?m)) (\<lambda>bs. kret (map (\<lambda>k. rd (view s ?a) (off mod BSIZE + k)) [0..<?m] @ bs)))
        (\<lambda>bs t. same s t \<and> bs = map (fbyte s ip) [off..<off + n]) u" if u: "same s u" for u
    proof -
      have "wp (readi_loop ip (off + ?m) (n - ?m)) (\<lambda>bs t. same u t \<and> bs = map (fbyte u ip) [off + ?m..<off + ?m + (n - ?m)]) u"
        using less.prems m same_idle [OF less.prems(1) u] same_file(4) [OF u]
        by (intro less.IH) simp_all
      then show ?thesis unfolding wp_kbind
        by (rule wp_conseq) (use same_trans [OF u] same_file(3) [OF u] m in \<open>simp add: bytes up\<close>)
    qed
    have body: "wp (kbind (bread 1 ?a) (\<lambda>bp. kbind (bdata bp) (\<lambda>d. kseq (brelse bp)
        (kbind (readi_loop ip (off + ?m) (n - ?m)) (\<lambda>bs. kret (map (\<lambda>k. rd d (off mod BSIZE + k)) [0..<?m] @ bs))))))
        (\<lambda>bs t. same s t \<and> bs = map (fbyte s ip) [off..<off + n]) t" if t: "same s t" for t
    proof (rule read_block [OF same_idle [OF less.prems(1) t]])
      show "?a < disksize t" using a same_fields [OF t] by simp
      fix u assume "same t u"
      then have "same s u" using t same_trans by blast
      then show "wp (kbind (readi_loop ip (off + ?m) (n - ?m)) (\<lambda>bs. kret (map (\<lambda>k. rd (view t ?a) (off mod BSIZE + k)) [0..<?m] @ bs)))
        (\<lambda>bs t. same s t \<and> bs = map (fbyte s ip) [off..<off + n]) u"
        unfolding same_fields(1) [OF t] by (rule rest)
    qed
    have "wp (kbind (bmap ip (off div BSIZE)) (\<lambda>a. kbind (bread 1 a) (\<lambda>bp. kbind (bdata bp) (\<lambda>d. kseq (brelse bp)
        (kbind (readi_loop ip (off + ?m) (n - ?m)) (\<lambda>bs. kret (map (\<lambda>k. rd d (off mod BSIZE + k)) [0..<?m] @ bs)))))))
        (\<lambda>bs t. same s t \<and> bs = map (fbyte s ip) [off..<off + n]) s"
      by (rule bmap_mapped [OF less.prems(1,2) blk]) (rule body)
    then show ?thesis using False a(2) by (subst readi_loop.simps) (simp cong: if_cong)
  qed
qed


section \<open>Writing inside a file\<close>

text \<open>
  The blocks of the file are distinct, none of them is the indirect block, and the log accepts
  them. \<open>touched\<close> is the number of blocks a transfer covers.
\<close>

definition file_sep :: "'x fstate_scheme \<Rightarrow> nat \<Rightarrow> nat \<Rightarrow> bool" where
  "file_sep s ip sz \<longleftrightarrow> inj_on (faddr s ip) {bn. bn * BSIZE < sz} \<and>
     (\<forall>bn. bn * BSIZE < sz \<longrightarrow> faddr s ip bn \<noteq> i_addrs (icache s ip) NDIRECT \<and> loggable (lrest s) (faddr s ip bn))"

definition touched :: "nat \<Rightarrow> nat \<Rightarrow> nat" where
  "touched off n = (if n = 0 then 0 else (off + n - 1) div BSIZE - off div BSIZE + 1)"

definition file_blocks :: "'x fstate_scheme \<Rightarrow> nat \<Rightarrow> nat \<Rightarrow> nat set" where
  "file_blocks s ip sz = faddr s ip ` {bn. bn * BSIZE < sz}"

lemma indirect_outside:
  assumes "file_sep s ip sz"
  shows "i_addrs (icache s ip) NDIRECT \<notin> file_blocks s ip sz"
proof
  assume "i_addrs (icache s ip) NDIRECT \<in> file_blocks s ip sz"
  then obtain bn where "bn * BSIZE < sz" "i_addrs (icache s ip) NDIRECT = faddr s ip bn" by (auto simp: file_blocks_def)
  then show False using assms unfolding file_sep_def by metis
qed

lemma touched_step:
  assumes "0 < n"
  shows "touched off n = touched (off + span off n) (n - span off n) + 1"
proof (cases "n \<le> BSIZE - off mod BSIZE")
  case True
  then have m: "span off n = n" by (simp add: span_def)
  have "(off + (n - 1)) div BSIZE = off div BSIZE" using span_same_block [of "n - 1" off n] m assms by simp
  then show ?thesis using assms by (simp add: touched_def m)
next
  case False
  then have m: "span off n = BSIZE - off mod BSIZE" by (simp add: span_def)
  define q r where "q = off div BSIZE" and "r = off mod BSIZE"
  have o: "off = q * BSIZE + r" "r < BSIZE" by (simp_all add: q_def r_def BSIZE_num)
  have "span off n = BSIZE - r" using m by (simp add: r_def)
  then have e: "off + span off n = (q + 1) * BSIZE" using o by simp
  have nm: "n - span off n \<noteq> 0" using False m by simp
  have "(off + span off n) div BSIZE = q + 1" unfolding e by (simp add: BSIZE_num)
  moreover have "off + span off n + (n - span off n) - 1 = off + n - 1" using nm by simp
  moreover have "q + 1 \<le> (off + n - 1) div BSIZE"
  proof -
    have "(q + 1) * BSIZE \<le> off + n - 1" using e nm by linarith
    then show ?thesis by (metis BSIZE_num div_le_mono div_mult_self_is_m zero_less_numeral)
  qed
  ultimately show ?thesis using assms nm by (simp add: touched_def q_def [symmetric])
qed

lemma in_txn_idle: "in_txn s \<Longrightarrow> heldblks s = {} \<Longrightarrow> idle s"
proof -
  assume a: "in_txn s" "heldblks s = {}"
  then have wf: "log_wf s" by (simp add: in_txn_def)
  then have "int (card (dirtyblks s)) = lh_n s" by (rule card_logged)
  then have "card (dirtyblks s) < NBUF" using wf by (auto simp: log_wf_def LOGSIZE_num NBUF_num)
  then show ?thesis using a wf by (simp add: idle_def log_wf_def)
qed

lemma same_txn: "in_txn s \<Longrightarrow> same s t \<Longrightarrow> in_txn t \<and> lrest t = lrest s"
  by (rule in_txn_keep) (auto simp: same_def)

definition wrote :: "'x fstate_scheme \<Rightarrow> nat \<Rightarrow> nat \<Rightarrow> nat \<Rightarrow> byte list \<Rightarrow> 'x fstate_scheme \<Rightarrow> bool" where
  "wrote s ip sz off bs t \<longleftrightarrow> in_txn t \<and> heldblks t = {} \<and> lrest t = lrest s \<and> disk t = disk s \<and>
     dirtyblks s \<subseteq> dirtyblks t \<and> dirtyblks t \<subseteq> dirtyblks s \<union> file_blocks s ip sz \<and>
     (\<forall>b. b \<notin> file_blocks s ip sz \<longrightarrow> view t b = view s b) \<and>
     (\<forall>k. k < sz \<longrightarrow> fbyte t ip k = (if off \<le> k \<and> k < off + length bs then bs ! (k - off) else fbyte s ip k))"

text \<open>Storing into one block of the file.\<close>

lemma store_step:
  assumes sep: "file_sep s ip sz" and o: "off div BSIZE * BSIZE < sz" and l: "off mod BSIZE + length bs \<le> BSIZE"
    and t: "view t = (view s)(faddr s ip (off div BSIZE) := put_bytes (off mod BSIZE) bs (view s (faddr s ip (off div BSIZE))))"
      "icache t = icache s"
  shows "faddr t ip = faddr s ip"
    and "k < sz \<Longrightarrow> fbyte t ip k = (if off \<le> k \<and> k < off + length bs then bs ! (k - off) else fbyte s ip k)"
proof -
  let ?a = "faddr s ip (off div BSIZE)"
  have "?a \<noteq> i_addrs (icache s ip) NDIRECT" using sep o by (simp add: file_sep_def)
  then show f: "faddr t ip = faddr s ip" by (auto simp: faddr_def t fun_eq_iff)
  assume k: "k < sz"
  have kb: "k div BSIZE * BSIZE < sz" using k by (metis div_times_less_eq_dividend le_less_trans)
  show "fbyte t ip k = (if off \<le> k \<and> k < off + length bs then bs ! (k - off) else fbyte s ip k)"
  proof (cases "k div BSIZE = off div BSIZE")
    case False
    then have "faddr s ip (k div BSIZE) \<noteq> ?a" using sep kb o by (auto simp: file_sep_def dest!: inj_onD)
    moreover have "\<not> (off \<le> k \<and> k < off + length bs)"
    proof
      assume a: "off \<le> k \<and> k < off + length bs"
      then have "k - off < span off (length bs)" using l unfolding span_def by linarith
      from span_same_block [OF this] a show False using False by simp
    qed
    ultimately show ?thesis unfolding fbyte_def f t by auto
  next
    case True
    define r where "r = k mod BSIZE"
    have "k = off div BSIZE * BSIZE + r" "r < BSIZE" "off = off div BSIZE * BSIZE + off mod BSIZE"
      using True div_mult_mod_eq [of k BSIZE] by (simp_all add: r_def BSIZE_num)
    then have i: "off \<le> k \<longleftrightarrow> off mod BSIZE \<le> r" "k < off + length bs \<longleftrightarrow> r < off mod BSIZE + length bs"
      "off \<le> k \<Longrightarrow> k - off = r - off mod BSIZE" by linarith+
    have "fbyte t ip k = rd (put_bytes (off mod BSIZE) bs (view s ?a)) r"
      by (simp add: fbyte_def f t True r_def)
    also have "\<dots> = (if off mod BSIZE \<le> r \<and> r < off mod BSIZE + length bs then bs ! (r - off mod BSIZE) else rd (view s ?a) r)"
      using \<open>r < BSIZE\<close> by (simp add: put_bytes_def)
    finally show ?thesis using i by (auto simp: fbyte_def True r_def)
  qed
qed


lemma txn_files:
  assumes "lrest t = lrest s" "faddr t ip = faddr s ip"
  shows "file_ok t ip sz = file_ok s ip sz" "file_sep t ip sz = file_sep s ip sz" "file_blocks t ip sz = file_blocks s ip sz"
  using assms lrest_fs [OF assms(1)] by (simp_all add: file_ok_def file_sep_def file_blocks_def)

lemma writei_loop_ok:
  assumes "in_txn s" "heldblks s = {}" "file_ok s ip sz" "file_sep s ip sz" "off + length bs \<le> sz"
    "card (dirtyblks s) + touched off (length bs) \<le> log_limit (lrest s)"
  shows "wp (writei_loop ip off bs) (\<lambda>_. wrote s ip sz off bs) s"
  using assms
proof (induction "length bs" arbitrary: off bs s rule: less_induct)
  case less
  show ?case
  proof (cases "bs = []")
    case True
    then show ?thesis using less.prems by (auto simp: writei_loop.simps wrote_def)
  next
    case False
    let ?m = "span off (length bs)" and ?a = "faddr s ip (off div BSIZE)"
    let ?now = "take ?m bs" and ?later = "drop ?m bs"
    have m: "0 < ?m" "?m \<le> length bs" "off mod BSIZE + ?m \<le> BSIZE" using False span_pos span_bounds by auto
    have blk: "off div BSIZE * BSIZE < sz" using span_block_in [of "length bs" off sz] False less.prems(5) by simp
    have a: "?a < disksize s" "i_dev (icache s ip) = 1" "loggable (lrest s) ?a" "?a \<in> file_blocks s ip sz"
      using less.prems(3,4) blk by (auto simp: file_ok_def file_sep_def file_blocks_def)
    have tc: "touched off (length bs) = touched (off + ?m) (length ?later) + 1"
      using touched_step [of "length bs" off] False by simp
    have idl: "idle s" using less.prems(1,2) by (rule in_txn_idle)
    have rest: "wp (writei_loop ip (off + ?m) ?later) (\<lambda>_. wrote s ip sz off bs) u"
      if u: "in_txn u" "babs u = a_pin ?a (a_store ?a (put_bytes (off mod BSIZE) ?now (view s ?a)) (babs s))" "lrest u = lrest s" for u
    proof -
      have v: "view u = (view s)(?a := put_bytes (off mod BSIZE) ?now (view s ?a))" "heldblks u = {}"
        "dirtyblks u = insert ?a (dirtyblks s)" "disk u = disk s"
        using u(2) less.prems(2) by (simp_all add: babs_def a_pin_def a_store_def)
      have l: "off mod BSIZE + length ?now \<le> BSIZE" using m by simp
      note st = store_step [OF less.prems(4) blk l v(1) lrest_fs(2) [OF u(3)]]
      note f = txn_files [OF u(3) st(1)]
      have "card (dirtyblks u) \<le> card (dirtyblks s) + 1" using finite_blks(2) [of s] by (simp add: v(3) card_insert_if)
      then have "card (dirtyblks u) + touched (off + ?m) (length ?later) \<le> log_limit (lrest u)"
        using less.prems(6) tc u(3) by simp
      then have "wp (writei_loop ip (off + ?m) ?later) (\<lambda>_. wrote u ip sz (off + ?m) ?later) u"
        using less.prems m f u v by (intro less.hyps) simp_all
      then show ?thesis
      proof (rule wp_conseq)
        fix x t
        assume w: "wrote u ip sz (off + ?m) ?later t"
        have b: "fbyte t ip k = (if off \<le> k \<and> k < off + length bs then bs ! (k - off) else fbyte s ip k)" if "k < sz" for k
        proof -
          have late: "fbyte t ip k = (if off + ?m \<le> k \<and> k < off + length bs then ?later ! (k - (off + ?m)) else fbyte u ip k)"
            using w that m by (simp add: wrote_def)
          show ?thesis
          proof (cases "off \<le> k \<and> k < off + ?m")
            case True
            then have "k - off < ?m" by linarith
            then show ?thesis using True late st(2) [OF that] m by simp
          next
            case False
            then show ?thesis using late st(2) [OF that] m by auto
          qed
        qed
        show "wrote s ip sz off bs t" using w b u(3) v a(4) unfolding wrote_def f by auto
      qed
    qed
    have body: "wp (kbind (bread 1 ?a) (\<lambda>bp. kseq (bmodify bp (put_bytes (off mod BSIZE) ?now))
      (kseq (log_write bp) (kseq (brelse bp) (writei_loop ip (off + ?m) ?later))))) (\<lambda>_. wrote s ip sz off bs) t" if t: "same s t" for t
    proof -
      have tx: "in_txn t" "lrest t = lrest s" using same_txn [OF less.prems(1) t] by auto
      have "card (a_dirty (babs t)) < log_limit (lrest t)" using less.prems(6) tc tx same_fields [OF t] by (simp add: babs_sel)
      moreover have "room (babs t) ?a" using idle_room [OF same_idle [OF idl t]] a same_fields [OF t] by simp
      moreover have "babs t = babs s" using t by (simp add: same_def)
      ultimately show ?thesis using a(3) tx
        by (intro lc.update_idiom [OF tx(1)] rest) (auto simp: babs_sel)
    qed
    have "wp (kbind (bmap ip (off div BSIZE)) (\<lambda>a. kbind (bread 1 a) (\<lambda>bp. kseq (bmodify bp (put_bytes (off mod BSIZE) ?now))
      (kseq (log_write bp) (kseq (brelse bp) (writei_loop ip (off + ?m) ?later)))))) (\<lambda>_. wrote s ip sz off bs) s"
      by (rule bmap_mapped [OF idl less.prems(3) blk]) (rule body)
    then show ?thesis using False a(2) by (subst writei_loop.simps) (simp cong: if_cong)
  qed
qed


lemma readi_ok:
  assumes "idle s" "i_type (icache s ip) \<noteq> T_DEV" "file_ok s ip (i_size (icache s ip))"
    "off \<le> i_size (icache s ip)" "off + n < 2 ^ 32"
  defines "m \<equiv> min n (i_size (icache s ip) - off)"
  shows "wp (readi dv ip off n) (\<lambda>(r, bs) t. r = int m \<and> bs = map (fbyte s ip) [off..<off + m] \<and> same s t) s"
proof -
  have m: "(if i_size (icache s ip) < off + n then i_size (icache s ip) - off else n) = m"
    using assms(4) by (auto simp: m_def)
  have "wp (readi_loop ip off m) (\<lambda>bs t. same s t \<and> bs = map (fbyte s ip) [off..<off + m]) s"
    using assms by (intro readi_loop_ok [OF assms(1,3)]) (simp add: m_def)
  then have "wp (readi_loop ip off m) (\<lambda>bs. wp (kret (int m, bs)) (\<lambda>(r, bs) t. r = int m \<and> bs = map (fbyte s ip) [off..<off + m] \<and> same s t)) s"
    by (rule wp_conseq) simp
  then show ?thesis using assms(2,4,5) by (simp add: readi_def Let_def m)
qed

lemma writei_ok:
  assumes "in_txn s" "heldblks s = {}" "i_type (icache s ip) \<noteq> T_DEV" "file_ok s ip (i_size (icache s ip))"
    "file_sep s ip (i_size (icache s ip))" "off + length bs \<le> i_size (icache s ip)" "i_size (icache s ip) < 2 ^ 32"
    "card (dirtyblks s) + touched off (length bs) \<le> log_limit (lrest s)"
  shows "wp (writei dv ip bs off) (\<lambda>w t. w = int (length bs) \<and> wrote s ip (i_size (icache s ip)) off bs t) s"
proof -
  let ?n = "i_size (icache s ip)"
  have mx: "\<not> MAXFILE * BSIZE < off + length bs" "\<not> (?n < off \<or> u32 (off + length bs) < off)"
    using assms by (auto simp: file_ok_def)
  have "wp (writei_loop ip off bs) (\<lambda>_. wp (kbind (kget (\<lambda>s. i_size (icache s ip))) (\<lambda>size.
        kseq (if 0 < length bs \<and> size < off + length bs
          then kseq (kmod (setinode ip (\<lambda>i. i\<lparr>i_size := off + length bs\<rparr>))) (iupdate ip) else kret ())
        (kret (int (length bs))))) (\<lambda>w t. w = int (length bs) \<and> wrote s ip ?n off bs t)) s"
  proof (rule wp_conseq [OF writei_loop_ok [OF assms(1,2,4,5,6,8)]])
    fix x t
    assume w: "wrote s ip ?n off bs t"
    then have "icache t = icache s" using lrest_fs [of t s] by (simp add: wrote_def)
    then show "wp (kbind (kget (\<lambda>s. i_size (icache s ip))) (\<lambda>size.
        kseq (if 0 < length bs \<and> size < off + length bs
          then kseq (kmod (setinode ip (\<lambda>i. i\<lparr>i_size := off + length bs\<rparr>))) (iupdate ip) else kret ())
        (kret (int (length bs))))) (\<lambda>w t. w = int (length bs) \<and> wrote s ip ?n off bs t) t"
      using w assms(6) by simp
  qed
  then show ?thesis using assms(3) mx unfolding writei_def Let_def by (simp add: T_DEV_def)
qed

text \<open>A concrete state: an open transaction and one file of 5 bytes in block 100.\<close>

definition demo_inode :: inode where
  "demo_inode = \<lparr>i_dev = 1, i_inum = 7, i_ref = 1, i_lock = \<lparr>sl_locked = True, sl_pid = 1\<rparr>, i_valid = True,
     i_type = T_FILE, i_major = 0, i_minor = 0, i_nlink = 1, i_size = 5, i_addrs = (\<lambda>_. 0)(0 := 100)\<rparr>"

text \<open>Blocks 0 to 79 are marked in use in the bit map, block 58; the others are free.\<close>

definition fs_disk :: "nat \<Rightarrow> block" where
  "fs_disk = demo_disk(58 := mkblk (\<lambda>i. if i < 10 then 255 else 0))"

definition cold_fs :: "(nat \<Rightarrow> block) \<Rightarrow> (nat \<Rightarrow> inode) \<Rightarrow> fstate" where
  "cold_fs d ic = \<lparr>disk = d, disksize = 1000, dtrace = [], bufs = bufs (fresh 1000), curpid = 1,
     lg_start = 2, lg_size = 30, outstanding = 1, committing = False, lg_dev = 1, lh_n = 0, lh_block = \<lambda>_. 0,
     sb = \<lparr>sb_size = 1000, sb_nblocks = 941, sb_ninodes = 200, sb_nlog = 30, sb_logstart = 2, sb_inodestart = 32,
       sb_bmapstart = 58\<rparr>, icache = ic, cwd = 0\<rparr>"

lemma cold_fs_cache: "binv (cold_fs d ic)" "babs (cold_fs d ic) = \<lparr>a_size = 1000, a_view = d, a_home = d,
    a_trace = [], a_held = {}, a_dirty = {}\<rparr>"
  using cold_inv [OF fresh_ok(2) fresh_core, of 1000 "cold_fs d ic"] by (simp_all add: cold_fs_def)

lemma cold_fs_sel: "heldblks (cold_fs d ic) = {}" "dirtyblks (cold_fs d ic) = {}" "view (cold_fs d ic) = d"
  "disk (cold_fs d ic) = d" "disksize (cold_fs d ic) = 1000" "icache (cold_fs d ic) = ic"
  using cold_fs_cache(2) [of d ic] by (simp_all add: babs_def) (simp add: cold_fs_def)

lemma cold_fs_rest: "loggable (lrest (cold_fs d ic)) b \<longleftrightarrow> b \<noteq> 1 \<and> (b < 2 \<or> 32 \<le> b)" "log_limit (lrest (cold_fs d ic)) = 29"
  by (auto simp: loggable_def log_limit_def lrest_def cold_fs_def)

lemma cold_fs_txn: "d 1 = demo_disk 1 \<Longrightarrow> d 2 = zero_block \<Longrightarrow> in_txn (cold_fs d ic)"
proof -
  assume d: "d 1 = demo_disk 1" "d 2 = zero_block"
  have "sb_logstart (decode_sb (d 1)) = 2" "head_n (d 2) = 0" using demo_disk_sb unfolding d by simp_all
  then show ?thesis using cold_fs_cache(1) [of d ic] cold_fs_sel [of d ic]
    by (simp add: in_txn_def log_wf_def) (simp add: cold_fs_def LOGSIZE_num)
qed

definition demo_fs :: fstate where
  "demo_fs = cold_fs fs_disk (\<lambda>_. demo_inode)"

lemma demo_fs_ok: "in_txn demo_fs" "heldblks demo_fs = {}" "dirtyblks demo_fs = {}" "view demo_fs = fs_disk"
  "disk demo_fs = fs_disk" "disksize demo_fs = 1000"
  unfolding demo_fs_def by (rule cold_fs_txn) (simp_all add: cold_fs_sel fs_disk_def, simp add: demo_disk_def)

lemma demo_fs_file: "icache demo_fs 0 = demo_inode" "file_ok demo_fs 0 5" "file_sep demo_fs 0 5"
proof -
  show i: "icache demo_fs 0 = demo_inode" by (simp add: demo_fs_def cold_fs_sel)
  have f: "faddr demo_fs 0 0 = 100" by (simp add: faddr_def i demo_inode_def sizes)
  have one: "bn * BSIZE < 5 \<longleftrightarrow> bn = 0" for bn :: nat by (cases bn) (auto simp: BSIZE_num)
  show "file_ok demo_fs 0 5" using f demo_fs_ok(6) unfolding file_ok_def one i by (simp add: demo_inode_def sizes)
  have "loggable (lrest demo_fs) 100" by (simp add: demo_fs_def cold_fs_rest)
  then show "file_sep demo_fs 0 5" using f unfolding file_sep_def one i by (simp add: demo_inode_def sizes)
qed

section \<open>Properties of file content\<close>

text \<open>
  \<open>readi\<close> on a file whose content is mapped returns exactly the requested bytes that lie
  inside the file (through direct and indirect blocks, across block boundaries) and changes
  nothing; an offset beyond the end, or an offset whose sum with the count wraps around, gives
  -1.
\<close>

theorem readi_returns_content:
  assumes "idle s" "i_type (icache s ip) \<noteq> T_DEV" "file_ok s ip (i_size (icache s ip))" "off < 2 ^ 32" "n < 2 ^ 32"
  shows "if i_size (icache s ip) < off \<or> 2 ^ 32 \<le> off + n then readi dv ip off n s = Done (- 1, []) s
    else wp (readi dv ip off n) (\<lambda>(r, bs) t. r = int (min n (i_size (icache s ip) - off)) \<and>
       bs = map (fbyte s ip) [off..<min (off + n) (i_size (icache s ip))] \<and>
       view t = view s \<and> disk t = disk s \<and> icache t = icache s) s"
proof (cases "i_size (icache s ip) < off \<or> 2 ^ 32 \<le> off + n")
  case True
  have "u32 (off + n) < off" if "2 ^ 32 \<le> off + n"
  proof -
    have "u32 (off + n) = off + n - 2 ^ 32" using that assms(4,5) by (simp add: u32_def mod_if)
    then show ?thesis using assms(4,5) that by linarith
  qed
  then show ?thesis using True assms(2) by (auto simp: readi_def kernel_defs)
next
  case False
  then have o: "off \<le> i_size (icache s ip)" "off + n < 2 ^ 32" by auto
  have e: "off + min n (i_size (icache s ip) - off) = min (off + n) (i_size (icache s ip))" using o unfolding min_def by auto
  have "wp (readi dv ip off n) (\<lambda>(r, bs) t. r = int (min n (i_size (icache s ip) - off)) \<and>
       bs = map (fbyte s ip) [off..<min (off + n) (i_size (icache s ip))] \<and>
       view t = view s \<and> disk t = disk s \<and> icache t = icache s) s"
    by (rule wp_conseq [OF readi_ok [OF assms(1-3) o]]) (use same_fields same_file in \<open>auto simp: e\<close>)
  then show ?thesis using False by simp
qed

theorem readi_returns_content_witness:
  "\<forall>dv. wp (readi dv 0 2 10) (\<lambda>(r, bs) t. r = 3 \<and> bs = map (fbyte demo_fs 0) [2..<5] \<and>
     view t = view demo_fs \<and> disk t = disk demo_fs \<and> icache t = icache demo_fs) demo_fs"
proof -
  have sz: "i_size (icache demo_fs 0) = 5" "i_type (icache demo_fs 0) \<noteq> T_DEV"
    using demo_fs_file(1) by (simp_all add: demo_inode_def T_FILE_def T_DEV_def)
  show ?thesis
  proof
    fix dv
    show "wp (readi dv 0 2 10) (\<lambda>(r, bs) t. r = 3 \<and> bs = map (fbyte demo_fs 0) [2..<5] \<and>
     view t = view demo_fs \<and> disk t = disk demo_fs \<and> icache t = icache demo_fs) demo_fs"
    using readi_returns_content [OF in_txn_idle [OF demo_fs_ok(1,2)] sz(2), of 2 10 dv] demo_fs_file(2) unfolding sz by simp
  qed
qed



end
