(* ===== verification/FsAlloc.thy ===== *)
theory FsAlloc
  imports FsProps
begin

text \<open>
  Allocation: the free bit map, on-disk inodes, and the reference-counted inode cache.
\<close>

section \<open>The free bit map\<close>

definition blk_free :: "'x fstate_scheme \<Rightarrow> nat \<Rightarrow> bool" where
  "blk_free s b \<longleftrightarrow> \<not> map_bit (view s (BBLOCK b (sb s))) (b mod BPB)"

text \<open>
  The layout an allocation relies on: bit map blocks and free blocks are on the disk and may be
  logged, a free block is not itself a block of the bit map, and none of them is held.
\<close>

definition map_ok :: "'x fstate_scheme \<Rightarrow> bool" where
  "map_ok s \<longleftrightarrow> sb_size (sb s) \<le> disksize s \<and>
     (\<forall>b < sb_size (sb s). BBLOCK b (sb s) < disksize s \<and> loggable (lrest s) (BBLOCK b (sb s)) \<and> BBLOCK b (sb s) \<notin> heldblks s) \<and>
     (\<forall>b < sb_size (sb s). blk_free s b \<longrightarrow> loggable (lrest s) b \<and> b \<notin> heldblks s \<and>
        (\<forall>c < sb_size (sb s). BBLOCK c (sb s) \<noteq> b))"

lemma set_map_bit_self: "bi < BPB \<Longrightarrow> map_bit (set_map_bit bi d) c = (if c = bi then True else map_bit d c)"
proof -
  assume b: "bi < BPB"
  then have i: "bi div 8 < BSIZE" by (simp add: BPB_def BSIZE_num)
  show ?thesis
  proof (cases "c div 8 = bi div 8")
    case True
    then have "c = bi \<longleftrightarrow> c mod 8 = bi mod 8" by (metis div_mult_mod_eq)
    then show ?thesis using True i by (auto simp: map_bit_def set_map_bit_def bit_set_bit_iff)
  next
    case False
    then show ?thesis using i by (auto simp: map_bit_def set_map_bit_def)
  qed
qed

lemma clear_map_bit_self: "bi < BPB \<Longrightarrow> map_bit (clear_map_bit bi d) c = (if c = bi then False else map_bit d c)"
proof -
  assume b: "bi < BPB"
  then have i: "bi div 8 < BSIZE" by (simp add: BPB_def BSIZE_num)
  show ?thesis
  proof (cases "c div 8 = bi div 8")
    case True
    then have "c = bi \<longleftrightarrow> c mod 8 = bi mod 8" by (metis div_mult_mod_eq)
    then show ?thesis using True i by (auto simp: map_bit_def clear_map_bit_def bit_unset_bit_iff)
  next
    case False
    then show ?thesis using i by (auto simp: map_bit_def clear_map_bit_def)
  qed
qed

text \<open>A transaction in which nothing a client sees has changed.\<close>

definition txn_same :: "'x fstate_scheme \<Rightarrow> 'x fstate_scheme \<Rightarrow> bool" where
  "txn_same s t \<longleftrightarrow> in_txn t \<and> babs t = babs s \<and> lrest t = lrest s \<and> (\<forall>j c. bhold s j c \<longrightarrow> bhold t j c)"

lemma txn_same_fields:
  assumes "txn_same s t"
  shows "view t = view s" "disk t = disk s" "disksize t = disksize s" "heldblks t = heldblks s" "dirtyblks t = dirtyblks s"
    "sb t = sb s" "icache t = icache s"
  using assms lrest_fs [of t s] by (simp_all add: txn_same_def babs_def)

definition allocated :: "'x fstate_scheme \<Rightarrow> nat \<Rightarrow> 'x fstate_scheme \<Rightarrow> bool" where
  "allocated s b t \<longleftrightarrow> b < sb_size (sb s) \<and> blk_free s b \<and> (\<forall>c<b. \<not> blk_free s c) \<and> in_txn t \<and> lrest t = lrest s \<and>
     heldblks t = heldblks s \<and> disk t = disk s \<and> (\<forall>j c. bhold s j c \<longrightarrow> bhold t j c) \<and>
     dirtyblks t = {BBLOCK b (sb s), b} \<union> dirtyblks s \<and>
     view t = (view s)(BBLOCK b (sb s) := set_map_bit (b mod BPB) (view s (BBLOCK b (sb s))), b := zero_block)"

lemma bzero_ok:
  assumes "in_txn s" "room (babs s) b" "loggable (lrest s) b" "card (dirtyblks s) < log_limit (lrest s)"
    and "\<And>t. in_txn t \<Longrightarrow> (\<And>j c. bhold s j c \<Longrightarrow> bhold t j c) \<Longrightarrow> babs t = a_pin b (a_store b zero_block (babs s)) \<Longrightarrow>
      lrest t = lrest s \<Longrightarrow> wp k Q t"
  shows "wp (kseq (bzero 1 b) k) Q s"
proof -
  have "wp (kbind (bread 1 b) (\<lambda>bp. kseq (bmodify bp (\<lambda>_. zero_block)) (kseq (log_write bp) (kseq (brelse bp) k)))) Q s"
    by (rule lc.update_idiom) (use assms in \<open>simp_all add: babs_sel\<close>)
  then show ?thesis by (simp add: bzero_def)
qed

text \<open>The body of the scan: one block of the bit map.\<close>

definition balloc_body :: "nat \<Rightarrow> superblock \<Rightarrow> nat \<Rightarrow> ('x fstate_scheme, nat option) kmon" where
  "balloc_body dev sp b = kbind (bread dev (BBLOCK b sp)) (\<lambda>bp. kbind (bdata bp) (\<lambda>d.
       case find (\<lambda>bi. \<not> map_bit d bi) [0..<min BPB (sb_size sp - b)] of
         Some bi \<Rightarrow> kseq (bmodify bp (set_map_bit bi)) (kseq (log_write bp) (kseq (brelse bp)
            (kseq (bzero dev (b + bi)) (kret (Some (b + bi))))))
       | None \<Rightarrow> kseq (brelse bp) (kret None)))"

lemma BBLOCK_scan: "bi < BPB \<Longrightarrow> BBLOCK (k * BPB + bi) sp = BBLOCK (k * BPB) sp \<and> (k * BPB + bi) mod BPB = bi"
  by (simp add: BBLOCK_def BPB_num)

lemma balloc_hit:
  assumes s: "in_txn s" "map_ok s" and c: "card (heldblks s \<union> dirtyblks s) + 2 \<le> NBUF" "card (dirtyblks s) + 2 \<le> log_limit (lrest s)"
    and bi: "bi < BPB" "k * BPB + bi < sb_size (sb s)" "blk_free s (k * BPB + bi)" "\<forall>c < k * BPB + bi. \<not> blk_free s c"
    and t: "in_txn t" "bhold t bp (BBLOCK (k * BPB) (sb s))" "\<And>j c. bhold s j c \<Longrightarrow> bhold t j c"
      "babs t = a_hold (BBLOCK (k * BPB) (sb s)) (babs s)" "lrest t = lrest s"
  shows "wp (kseq (bmodify bp (set_map_bit bi)) (kseq (log_write bp) (kseq (brelse bp)
            (kseq (bzero 1 (k * BPB + bi)) (kret (Some (k * BPB + bi))))))) (\<lambda>r u. \<exists>b. r = Some b \<and> allocated s b u) t"
proof -
  let ?b = "k * BPB + bi" and ?m = "BBLOCK (k * BPB) (sb s)"
  have bm: "BBLOCK ?b (sb s) = ?m" "?b mod BPB = bi" using BBLOCK_scan [OF bi(1)] by auto
  have m: "?m < disksize s" "loggable (lrest s) ?m" "?m \<notin> heldblks s" and b: "loggable (lrest s) ?b" "?b \<notin> heldblks s" "?b \<noteq> ?m" "?b < disksize s"
    using s(2) bi(2,3) bm unfolding map_ok_def by (metis, metis, metis, metis, metis, metis, linarith)
  have fin: "finite (heldblks s \<union> dirtyblks s)" using finite_blks by blast
  show ?thesis
  proof (rule lc.update_held [OF t(1,2)])
    show "loggable (lrest t) ?m" using m t(5) by simp
    show "card (a_dirty (babs t)) < log_limit (lrest t)" using c(2) t(4,5) by (simp add: a_hold_def babs_sel)
    fix u
    assume u: "in_txn u" "\<And>j c. bhold t j c \<Longrightarrow> c \<noteq> ?m \<Longrightarrow> bhold u j c"
      "babs u = a_release ?m (a_pin ?m (a_store ?m (set_map_bit bi (a_view (babs t) ?m)) (babs t)))" "lrest u = lrest t"
    have ub: "babs u = a_pin ?m (a_store ?m (set_map_bit bi (view s ?m)) (babs s))"
      using u(3) t(4) m(3) by (simp add: acache_defs babs_sel)
    have hu: "heldblks u = heldblks s" "dirtyblks u = insert ?m (dirtyblks s)" "disksize u = disksize s" "disk u = disk s"
      "view u = (view s)(?m := set_map_bit bi (view s ?m))"
      using ub by (simp_all add: babs_def acache_defs)
    have hold: "bhold s j c \<Longrightarrow> c \<noteq> ?m" for j c
      using lc.hold_held [OF s(1)] m(3) by (auto simp: babs_sel)
    have c1: "card (heldblks s \<union> insert ?m (dirtyblks s)) \<le> card (heldblks s \<union> dirtyblks s) + 1"
      using fin by (simp add: card_insert_if)
    have c2: "card (insert ?m (dirtyblks s)) \<le> card (dirtyblks s) + 1"
      using finite_blks(2) [of s] by (simp add: card_insert_if)
    show "wp (kseq (bzero 1 ?b) (kret (Some ?b))) (\<lambda>r u. \<exists>b. r = Some b \<and> allocated s b u) u"
    proof (rule bzero_ok [OF u(1)])
      show "room (babs u) ?b" using b hu c(1) c1 by (simp add: room_def babs_sel)
      show "loggable (lrest u) ?b" using b u(4) t(5) by simp
      show "card (dirtyblks u) < log_limit (lrest u)" using c(2) c2 hu u(4) t(5) by simp
      fix v
      assume v: "in_txn v" "\<And>j c. bhold u j c \<Longrightarrow> bhold v j c" "babs v = a_pin ?b (a_store ?b zero_block (babs u))" "lrest v = lrest u"
      have "view v = (view u)(?b := zero_block)" "heldblks v = heldblks u" "dirtyblks v = insert ?b (dirtyblks u)" "disk v = disk u"
        using v(3) by (simp_all add: babs_def acache_defs)
      then have "allocated s ?b v" unfolding allocated_def bm
        using bi v hu u(2,4) t(3,5) hold by (auto simp: fun_eq_iff)
      then show "wp (kret (Some ?b)) (\<lambda>r u. \<exists>b. r = Some b \<and> allocated s b u) v" by simp
    qed
  qed
qed

lemma map_upt_split: "map f [0..<n] = xs @ i # ys \<Longrightarrow> i = f (length xs) \<and> length xs < n"
proof -
  assume e: "map f [0..<n] = xs @ i # ys"
  have "length (map f [0..<n]) = length xs + Suc (length ys)" unfolding e by simp
  then have "length xs < n" by simp
  moreover have "map f [0..<n] ! length xs = i" unfolding e by simp
  ultimately show ?thesis by simp
qed

lemma find_first:
  "find P xs = Some x \<Longrightarrow> \<exists>i<length xs. x = xs ! i \<and> P x \<and> (\<forall>j<i. \<not> P (xs ! j))"
  by (auto simp: find_Some_iff)

lemma balloc_scan:
  assumes s: "in_txn s" "map_ok s" and c: "card (heldblks s \<union> dirtyblks s) + 2 \<le> NBUF" "card (dirtyblks s) + 2 \<le> log_limit (lrest s)"
    and k: "k * BPB < sb_size (sb s)" and t: "txn_same s t" "\<forall>c < k * BPB. \<not> blk_free s c"
  shows "wp (balloc_body 1 (sb s) (k * BPB)) (\<lambda>r u. case r of
      None \<Rightarrow> txn_same s u \<and> (\<forall>c < Suc k * BPB. c < sb_size (sb s) \<longrightarrow> \<not> blk_free s c)
    | Some b \<Rightarrow> allocated s b u) t"
proof -
  let ?m = "BBLOCK (k * BPB) (sb s)" and ?n = "min BPB (sb_size (sb s) - k * BPB)"
  note f = txn_same_fields [OF t(1)]
  have tx: "in_txn t" "lrest t = lrest s" "babs t = babs s" using t(1) by (auto simp: txn_same_def)
  have m: "?m < disksize s" "?m \<notin> heldblks s" using s(2) k unfolding map_ok_def by auto
  have room: "room (babs t) ?m" using m c(1) by (simp add: tx(3) room_def babs_sel)
  show ?thesis unfolding balloc_body_def
  proof (rule lc.hold_idiom [OF tx(1) room], rule lc.data_idiom, assumption, assumption)
    fix bp u
    assume u: "in_txn u" "bhold u bp ?m" "\<And>j c. bhold t j c \<Longrightarrow> bhold u j c" "babs u = a_hold ?m (babs t)" "lrest u = lrest t"
    have v: "a_view (babs u) ?m = view s ?m" using u(4) tx(3) by (simp add: a_hold_def babs_sel)
    have bit: "blk_free s (k * BPB + bi) \<longleftrightarrow> \<not> map_bit (view s ?m) bi" if "bi < BPB" for bi
      using BBLOCK_scan [OF that] by (simp add: blk_free_def)
    let ?Q = "\<lambda>r u. case r of None \<Rightarrow> txn_same s u \<and> (\<forall>c < Suc k * BPB. c < sb_size (sb s) \<longrightarrow> \<not> blk_free s c)
      | Some b \<Rightarrow> allocated s b u"
    show "wp (case find (\<lambda>bi. \<not> map_bit (a_view (babs u) ?m) bi) [0..<?n] of
         Some bi \<Rightarrow> kseq (bmodify bp (set_map_bit bi)) (kseq (log_write bp) (kseq (brelse bp)
            (kseq (bzero 1 (k * BPB + bi)) (kret (Some (k * BPB + bi))))))
       | None \<Rightarrow> kseq (brelse bp) (kret None)) ?Q u"
    proof (cases "find (\<lambda>bi. \<not> map_bit (a_view (babs u) ?m) bi) [0..<?n]")
      case (Some bi)
      then obtain i where i: "i < ?n" "bi = i" "\<not> map_bit (view s ?m) bi" "\<forall>j<i. map_bit (view s ?m) j"
        using find_first [OF Some] v by auto
      have before: "\<forall>c < k * BPB + bi. \<not> blk_free s c"
      proof (intro allI impI)
        fix c assume "c < k * BPB + bi"
        then show "\<not> blk_free s c"
        proof (cases "c < k * BPB")
          case False
          then obtain j where "c = k * BPB + j" using le_Suc_ex not_less by blast
          then show ?thesis using i \<open>c < k * BPB + bi\<close> bit [of j] by simp
        qed (use t(2) in simp)
      qed
      have "wp (kseq (bmodify bp (set_map_bit bi)) (kseq (log_write bp) (kseq (brelse bp)
            (kseq (bzero 1 (k * BPB + bi)) (kret (Some (k * BPB + bi))))))) (\<lambda>r u. \<exists>b. r = Some b \<and> allocated s b u) u"
        using i bit [of bi] before u tx t(1) by (intro balloc_hit [OF s c]) (auto simp: txn_same_def)
      then show ?thesis unfolding Some by (simp del: wp_kseq wp_kbind) (erule wp_conseq, auto)
    next
      case None
      have all: "\<not> blk_free s c" if cc: "c < Suc k * BPB" "c < sb_size (sb s)" for c
      proof (cases "c < k * BPB")
        case False
        then obtain j where j: "c = k * BPB + j" using le_Suc_ex not_less by blast
        then have "j < ?n" "j < BPB" using cc by auto
        then have "map_bit (view s ?m) j" using None v by (auto simp: find_None_iff)
        then show ?thesis using bit [OF \<open>j < BPB\<close>] j by simp
      qed (use t(2) in simp)
      have cl: "?m \<in> a_dirty (babs u) \<or> a_view (babs u) ?m = a_home (babs u) ?m"
        using lc.clean_law [OF s(1), of ?m] m u(4) tx(3) by (auto simp: a_hold_def babs_sel)
      have "wp (kseq (brelse bp) (kret None)) ?Q u"
      proof (rule lc.drop_idiom [OF u(1,2) cl])
        fix w
        assume w: "in_txn w" "\<And>j c. bhold u j c \<Longrightarrow> c \<noteq> ?m \<Longrightarrow> bhold w j c" "babs w = a_release ?m (babs u)" "lrest w = lrest u"
        have "bhold s j c \<Longrightarrow> c \<noteq> ?m" for j c using lc.hold_held [OF s(1)] m(2) by (auto simp: babs_sel)
        then have "txn_same s w" using w u tx t(1) m(2) by (auto simp: txn_same_def babs_sel)
        then show "wp (kret None) ?Q w" using all by simp
      qed
      then show ?thesis unfolding None by (simp only: option.case)
    qed
  qed
qed

lemma balloc_ok:
  assumes s: "in_txn s" "map_ok s" and c: "card (heldblks s \<union> dirtyblks s) + 2 \<le> NBUF" "card (dirtyblks s) + 2 \<le> log_limit (lrest s)"
    and b: "b < sb_size (sb s)" "blk_free s b"
  shows "wp (balloc 1) (allocated s) s"
proof -
  let ?n = "(sb_size (sb s) + BPB - 1) div BPB"
  let ?I = "\<lambda>xs t. txn_same s t \<and> (\<forall>c < length xs * BPB. c < sb_size (sb s) \<longrightarrow> \<not> blk_free s c)"
  have "wp (kfirst (map (\<lambda>k. k * BPB) [0..<?n]) (balloc_body 1 (sb s))) (\<lambda>r t. \<exists>b. r = Some b \<and> allocated s b t) s"
  proof (rule wp_kfirst [where I = ?I])
    show "?I [] s" using s(1) by (simp add: txn_same_def)
    fix xs i ys t
    assume e: "map (\<lambda>k. k * BPB) [0..<?n] = xs @ i # ys" and I: "?I xs t"
    have i: "i = length xs * BPB" "length xs < ?n" using map_upt_split [OF e] by auto
    have "Suc (length xs) \<le> ?n" using i(2) by simp
    then have "Suc (length xs) * BPB \<le> sb_size (sb s) + BPB - 1" by (simp add: less_eq_div_iff_mult_less_eq BPB_num)
    then have k: "length xs * BPB < sb_size (sb s)" by (simp add: BPB_num)
    have low: "\<forall>c < length xs * BPB. \<not> blk_free s c" using I k by simp
    show "wp (balloc_body 1 (sb s) i) (\<lambda>r u. case r of None \<Rightarrow> ?I (xs @ [i]) u
       | Some x \<Rightarrow> \<exists>b. Some x = Some b \<and> allocated s b u) t"
      unfolding i(1)
      by (rule wp_conseq [OF balloc_scan [OF s c k _ low]]) (use I in \<open>auto split: option.splits\<close>)
  next
    fix t
    assume I: "?I (map (\<lambda>k. k * BPB) [0..<?n]) t"
    have "sb_size (sb s) \<le> ?n * BPB" using div_mult_mod_eq [of "sb_size (sb s) + BPB - 1" BPB] mod_less_divisor [of BPB "sb_size (sb s) + BPB - 1"]
      by (simp add: BPB_num)
    then have "b < ?n * BPB" using b(1) by linarith
    then show "\<exists>b. None = Some b \<and> allocated s b t" using I b by simp
  qed
  then have "wp (kbind (kfirst (map (\<lambda>k. k * BPB) [0..<?n]) (balloc_body 1 (sb s)))
     (\<lambda>r. case r of Some b \<Rightarrow> kret b | None \<Rightarrow> kpanic ''balloc: out of blocks'')) (allocated s) s"
    unfolding wp_kbind by (rule wp_conseq) auto
  then show ?thesis unfolding balloc_def balloc_body_def by simp
qed


lemma bfree_ok:
  assumes s: "in_txn s" "heldblks s = {}" "room (babs s) (BBLOCK b (sb s))" "loggable (lrest s) (BBLOCK b (sb s))"
    "card (dirtyblks s) < log_limit (lrest s)" "\<not> blk_free s b"
  shows "wp (bfree 1 b) (\<lambda>_ t. in_txn t \<and> lrest t = lrest s \<and> heldblks t = {} \<and> disk t = disk s \<and>
     dirtyblks t = insert (BBLOCK b (sb s)) (dirtyblks s) \<and>
     view t = (view s)(BBLOCK b (sb s) := clear_map_bit (b mod BPB) (view s (BBLOCK b (sb s))))) s"
proof -
  let ?m = "BBLOCK b (sb s)"
  let ?Q = "\<lambda>_ t. in_txn t \<and> lrest t = lrest s \<and> heldblks t = {} \<and> disk t = disk s \<and>
     dirtyblks t = insert ?m (dirtyblks s) \<and> view t = (view s)(?m := clear_map_bit (b mod BPB) (view s ?m))"
  have "wp (kbind (bread 1 ?m) (\<lambda>bp. kbind (bdata bp) (\<lambda>d. if \<not> map_bit d (b mod BPB) then kpanic ''freeing free block''
     else kseq (bmodify bp (clear_map_bit (b mod BPB))) (kseq (log_write bp) (kseq (brelse bp) (kret ())))))) ?Q s"
  proof (rule lc.hold_idiom [OF s(1,3)], rule lc.data_idiom, assumption, assumption)
    fix bp t
    assume t: "in_txn t" "bhold t bp ?m" "babs t = a_hold ?m (babs s)" "lrest t = lrest s"
    have v: "a_view (babs t) ?m = view s ?m" using t(3) by (simp add: a_hold_def babs_sel)
    have "wp (kseq (bmodify bp (clear_map_bit (b mod BPB))) (kseq (log_write bp) (kseq (brelse bp) (kret ())))) ?Q t"
    proof (rule lc.update_held [OF t(1,2)])
      show "loggable (lrest t) ?m" "card (a_dirty (babs t)) < log_limit (lrest t)"
        using s(4,5) t(3,4) by (simp_all add: a_hold_def babs_sel)
      fix u
      assume u: "in_txn u" "babs u = a_release ?m (a_pin ?m (a_store ?m (clear_map_bit (b mod BPB) (a_view (babs t) ?m)) (babs t)))" "lrest u = lrest t"
      then have "babs u = a_pin ?m (a_store ?m (clear_map_bit (b mod BPB) (view s ?m)) (babs s))"
        using t(3) s(2) by (simp add: acache_defs babs_sel)
      then show "wp (kret ()) ?Q u" using u(1,3) t(4) s(2) by (simp add: babs_def acache_defs)
    qed
    then show "wp (if \<not> map_bit (a_view (babs t) ?m) (b mod BPB) then kpanic ''freeing free block''
     else kseq (bmodify bp (clear_map_bit (b mod BPB))) (kseq (log_write bp) (kseq (brelse bp) (kret ())))) ?Q t"
      unfolding v using s(6) by (simp add: blk_free_def)
  qed
  then show ?thesis by (simp add: bfree_def)
qed

lemma clear_set_map_bit: "bi < BPB \<Longrightarrow> \<not> map_bit d bi \<Longrightarrow> clear_map_bit bi (set_map_bit bi d) = d"
proof (rule block_eqI, rule bit_word_eqI)
  fix i n
  assume a: "bi < BPB" "\<not> map_bit d bi" "i < BSIZE"
  have i: "bi div 8 < BSIZE" using a(1) by (simp add: BPB_def BSIZE_num)
  show "bit (rd (clear_map_bit bi (set_map_bit bi d)) i) n = bit (rd d i) n"
    using a(2) i by (auto simp: clear_map_bit_def set_map_bit_def map_bit_def bit_set_bit_iff bit_unset_bit_iff)
qed

lemma u32_add_inj: "x < 2 ^ 32 \<Longrightarrow> y < 2 ^ 32 \<Longrightarrow> u32 (x + k) = u32 (y + k) \<Longrightarrow> x = y"
proof -
  assume a: "x < 2 ^ 32" "y < 2 ^ 32" "u32 (x + k) = u32 (y + k)"
  define m j where "m = (2 :: nat) ^ 32" and "j = k mod m"
  have "(x + j) mod m = (y + j) mod m" using a(3) by (simp add: u32_def m_def j_def mod_add_right_eq)
  moreover have "x < m" "y < m" "j < m" using a by (simp_all add: m_def j_def)
  moreover from this have "(x + j) mod m = (if x + j < m then x + j else x + j - m)"
    "(y + j) mod m = (if y + j < m then y + j else y + j - m)" by (simp_all add: mod_if)
  ultimately show ?thesis by (auto split: if_splits)
qed

section \<open>Properties of allocation\<close>


lemma demo_map_bit: "blk_free demo_fs b \<longleftrightarrow> 80 \<le> b" if "b < 1000"
proof -
  have sb: "sb demo_fs = \<lparr>sb_size = 1000, sb_nblocks = 941, sb_ninodes = 200, sb_nlog = 30, sb_logstart = 2, sb_inodestart = 32,
       sb_bmapstart = 58\<rparr>" by (simp add: demo_fs_def cold_fs_def)
  have all: "bit (255 :: byte) n" if "n < 8" for n
  proof -
    have "(255 :: byte) = - 1" by simp
    then show ?thesis using that by (simp only: bit_minus_1_iff) simp
  qed
  have b8: "b div 8 < BSIZE" "b mod 8 < 8" using that by (auto simp: BSIZE_num)
  show ?thesis using that all [OF b8(2)] b8(1)
    by (auto simp: blk_free_def sb BBLOCK_def BPB_num demo_fs_ok(4) fs_disk_def map_bit_def)
qed

lemma demo_map_ok: "map_ok demo_fs" "sb_size (sb demo_fs) = 1000"
proof -
  show sz: "sb_size (sb demo_fs) = 1000" by (simp add: demo_fs_def cold_fs_def)
  have bb: "BBLOCK b (sb demo_fs) = 58" if "b < 1000" for b using that by (simp add: demo_fs_def cold_fs_def BBLOCK_def BPB_num)
  have lg: "loggable (lrest demo_fs) b" if "32 \<le> b" for b using that by (simp add: demo_fs_def cold_fs_rest)
  show "map_ok demo_fs" unfolding map_ok_def sz
    using bb lg demo_map_bit demo_fs_ok(2,6) by auto
qed


text \<open>
  Freeing undoes allocation. Right after \<open>balloc\<close> has returned a block, \<open>bfree\<close> of that block
  succeeds and the bit map is byte for byte what it was before; freeing a block that is
  free already panics.
\<close>

theorem bfree_undoes_balloc:
  assumes "in_txn s" "map_ok s" "heldblks s = {}" "card (dirtyblks s) + 3 \<le> log_limit (lrest s)"
    and "b < sb_size (sb s)" "blk_free s b"
  shows "wp (kbind (balloc 1) (\<lambda>a. kseq (bfree 1 a) (kret a))) (\<lambda>a t. in_txn t \<and> disk t = disk s \<and>
       (\<forall>c. c \<noteq> a \<longrightarrow> view t c = view s c)) s \<and>
     bfree 1 b s = Panic ''freeing free block''"
proof (intro conjI)
  have wf: "log_wf s" using assms(1) by (simp add: in_txn_def)
  have cd: "card (dirtyblks s) + 3 < NBUF" using card_logged [OF wf] wf assms(4)
    by (auto simp: log_limit_def lrest_def log_wf_def LOGSIZE_num NBUF_num)
  have fin: "finite (dirtyblks s)" by (rule finite_blks)
  show "wp (kbind (balloc 1) (\<lambda>a. kseq (bfree 1 a) (kret a))) (\<lambda>a t. in_txn t \<and> disk t = disk s \<and>
       (\<forall>c. c \<noteq> a \<longrightarrow> view t c = view s c)) s"
    unfolding wp_kbind
  proof (rule wp_conseq [OF balloc_ok [OF assms(1,2) _ _ assms(5,6)]])
    show "card (heldblks s \<union> dirtyblks s) + 2 \<le> NBUF" "card (dirtyblks s) + 2 \<le> log_limit (lrest s)"
      using assms(3,4) cd by simp_all
    fix a t
    assume al: "allocated s a t"
    let ?m = "BBLOCK a (sb s)"
    have a: "a < sb_size (sb s)" "blk_free s a" "lrest t = lrest s" "in_txn t" "heldblks t = {}" "disk t = disk s"
      "dirtyblks t = {?m, a} \<union> dirtyblks s"
      and v: "view t = (view s)(?m := set_map_bit (a mod BPB) (view s ?m), a := zero_block)"
      using al assms(3) by (auto simp: allocated_def)
    note l = lrest_fs [OF a(3)]
    have m: "?m \<noteq> a" "?m < disksize s" "loggable (lrest s) ?m" using assms(2) a(1,2) by (auto simp: map_ok_def)
    have ab: "a mod BPB < BPB" by (simp add: BPB_num)
    have "card (dirtyblks t) \<le> card (dirtyblks s) + 2"
      using card_Un_le [of "{?m, a}" "dirtyblks s"] m(1) by (simp add: a(7))
    then have c: "card (dirtyblks t) < log_limit (lrest t)" "card (dirtyblks t) < NBUF" using assms(4) cd a(3) by simp_all
    have bf: "\<not> blk_free t a" using m(1) by (simp add: blk_free_def l v set_map_bit_self [OF ab])
    have "wp (bfree 1 a) (\<lambda>_ u. in_txn u \<and> lrest u = lrest t \<and> heldblks u = {} \<and> disk u = disk t \<and>
        dirtyblks u = insert (BBLOCK a (sb t)) (dirtyblks t) \<and>
        view u = (view t)(BBLOCK a (sb t) := clear_map_bit (a mod BPB) (view t (BBLOCK a (sb t))))) t"
      using a m c bf l by (intro bfree_ok) (simp_all add: room_def babs_sel)
    then show "wp (kseq (bfree 1 a) (kret a)) (\<lambda>a t. in_txn t \<and> disk t = disk s \<and> (\<forall>c. c \<noteq> a \<longrightarrow> view t c = view s c)) t"
      unfolding wp_kseq
      by (rule wp_conseq) (use m a l ab in \<open>auto simp: v clear_set_map_bit blk_free_def\<close>)
  qed
  have m: "room (babs s) (BBLOCK b (sb s))" using assms(2,3,5) cd by (auto simp: room_def babs_sel map_ok_def)
  obtain i u where u: "bread 1 (BBLOCK b (sb s)) s = Done i u" "in_txn u" "bhold u i (BBLOCK b (sb s))"
    "babs u = a_hold (BBLOCK b (sb s)) (babs s)" using lc.bread_law [OF assms(1) m] by (auto simp: wp_Done)
  have "bdata i u = Done (view s (BBLOCK b (sb s))) u"
    using lc.bdata_law [OF u(2,3)] u(4) by (auto simp: wp_Done a_hold_def babs_sel)
  then show "bfree 1 b s = Panic ''freeing free block''"
    using u(1) assms(6) by (simp add: bfree_def kernel_defs blk_free_def)
qed

theorem bfree_undoes_balloc_witness:
  "wp (kbind (balloc 1) (\<lambda>a. kseq (bfree 1 a) (kret a))) (\<lambda>a t. in_txn t \<and> disk t = disk demo_fs \<and>
       (\<forall>c. c \<noteq> a \<longrightarrow> view t c = view demo_fs c)) demo_fs \<and> bfree 1 100 demo_fs = Panic ''freeing free block''"
proof -
  have "log_limit (lrest demo_fs) = 29" by (simp add: demo_fs_def cold_fs_rest)
  then show ?thesis using demo_map_bit [of 100] demo_fs_ok(3)
    by (intro bfree_undoes_balloc [OF demo_fs_ok(1) demo_map_ok(1) demo_fs_ok(2)]) (simp_all add: demo_map_ok(2))
qed

section \<open>On-disk inodes\<close>

text \<open>The fields of an inode that live on the disk, and the ranges of their C types.\<close>

definition inode_fits :: "inode \<Rightarrow> bool" where
  "inode_fits i \<longleftrightarrow> (\<forall>x\<in>{i_type i, i_major i, i_minor i, i_nlink i}. - 32768 \<le> x \<and> x < 32768) \<and>
     i_size i < 2 ^ 32 \<and> (\<forall>j\<le>NDIRECT. i_addrs i j < 2 ^ 32)"

definition disk_fields :: "inode \<Rightarrow> int \<times> int \<times> int \<times> int \<times> nat \<times> nat list" where
  "disk_fields i = (i_type i, i_major i, i_minor i, i_nlink i, i_size i, map (i_addrs i) [0..<NDIRECT + 1])"

lemma of_s16_bound: "of_s16 x < 65536"
  by (simp add: of_s16_def nat_less_iff)

lemma fold_put32_out:
  "x < k \<or> k + 4 * n \<le> x \<Longrightarrow> rd (fold (\<lambda>j d. put32 d (k + 4 * j) (g j)) [0..<n] d) x = rd d x"
proof (induction n)
  case (Suc n)
  then show ?case by (auto simp: rd_put32)
qed simp

lemma fold_put32_le16: "x + 1 < k \<Longrightarrow> le16 (rd (fold (\<lambda>j d. put32 d (k + 4 * j) (g j)) [0..<n] d)) x = le16 (rd d) x"
  by (simp add: le16_def fold_put32_out)

lemma fold_put32_le32: "x + 3 < k \<Longrightarrow> le32 (rd (fold (\<lambda>j d. put32 d (k + 4 * j) (g j)) [0..<n] d)) x = le32 (rd d) x"
  by (simp add: le32_def fold_put32_out)

lemma fold_put32_in:
  "j < n \<Longrightarrow> k + 4 * n \<le> BSIZE \<Longrightarrow> g j < 2 ^ 32 \<Longrightarrow>
    le32 (rd (fold (\<lambda>j d. put32 d (k + 4 * j) (g j)) [0..<n] d)) (k + 4 * j) = g j"
proof (induction n)
  case (Suc n)
  then show ?case by (cases "j = n") (auto simp: le32_put32_same le32_put32_other)
qed simp

lemma decode_encode:
  assumes "inode_fits i" "k + 64 \<le> BSIZE"
  shows "disk_fields (decode_dinode (encode_dinode i k d) k x) = disk_fields i"
proof -
  let ?h = "put32 (put16 (put16 (put16 (put16 d k (of_s16 (i_type i))) (k + 2) (of_s16 (i_major i)))
       (k + 4) (of_s16 (i_minor i))) (k + 6) (of_s16 (i_nlink i))) (k + 8) (i_size i)"
  let ?e = "fold (\<lambda>j d. put32 d (k + 12 + 4 * j) (i_addrs i j)) [0..<NDIRECT + 1] ?h"
  note lo = fold_put32_le16 [where k = "k + 12" and g = "i_addrs i" and n = "NDIRECT + 1" and d = ?h]
  have "le16 (rd ?e) k = of_s16 (i_type i)" "le16 (rd ?e) (k + 2) = of_s16 (i_major i)"
    "le16 (rd ?e) (k + 4) = of_s16 (i_minor i)" "le16 (rd ?e) (k + 6) = of_s16 (i_nlink i)"
    using assms(2) by (simp_all only: lo) (simp_all add: le16_put32 le16_put16_other le16_put16_same of_s16_bound)
  moreover have "le32 (rd ?e) (k + 8) = i_size i"
    using assms fold_put32_le32 [of "k + 8" "k + 12" "i_addrs i" "NDIRECT + 1" ?h] by (simp add: le32_put32_same inode_fits_def)
  moreover have "le32 (rd ?e) (k + 12 + 4 * j) = i_addrs i j" if "j < NDIRECT + 1" for j
    using assms that by (intro fold_put32_in) (auto simp: inode_fits_def sizes)
  ultimately show ?thesis using assms(1)
    by (simp add: disk_fields_def decode_dinode_def encode_dinode_def inode_fits_def s16_of_s16)
qed

lemma encode_other: "x < k \<or> k + 64 \<le> x \<Longrightarrow> rd (encode_dinode i k d) x = rd d x"
  using fold_put32_out [of x "k + 12" "NDIRECT + 1"]
  by (auto simp: encode_dinode_def rd_put32 rd_put16 NDIRECT_num)

lemma dinode_off_bound: "dinode_off n + 64 \<le> BSIZE"
  using mod_less_divisor [of IPB n] by (simp add: dinode_off_def IPB_num BSIZE_num)

lemma dinode_off_apart: "IBLOCK m sp = IBLOCK n sp \<Longrightarrow> dinode_off m \<noteq> dinode_off n \<Longrightarrow> x < 64 \<Longrightarrow>
    dinode_off m + x < dinode_off n \<or> dinode_off n + 64 \<le> dinode_off m + x"
  by (auto simp: dinode_off_def IPB_num)


definition disk_inode :: "'x fstate_scheme \<Rightarrow> nat \<Rightarrow> int \<times> int \<times> int \<times> int \<times> nat \<times> nat list" where
  "disk_inode s inum = disk_fields (decode_dinode (view s (IBLOCK inum (sb s))) (dinode_off inum) (icache s 0))"

lemma decode_cong:
  "(\<And>x. x < 64 \<Longrightarrow> rd d (k + x) = rd e (k + x)) \<Longrightarrow> disk_fields (decode_dinode d k i) = disk_fields (decode_dinode e k j)"
proof -
  assume a: "\<And>x. x < 64 \<Longrightarrow> rd d (k + x) = rd e (k + x)"
  have b: "rd d (k + x + y) = rd e (k + x + y)" if "x + y < 64" for x y using a [of "x + y"] that by (simp add: add.assoc)
  have 1: "le16 (rd d) (k + x) = le16 (rd e) (k + x)" if "x + 1 < 64" for x
    using that b [of x 0] b [of x 1] by (simp add: le16_def)
  have 4: "le32 (rd d) (k + x) = le32 (rd e) (k + x)" if "x + 3 < 64" for x
    using that b [of x 0] b [of x 1] b [of x 2] b [of x 3] by (simp add: le32_def)
  have "le32 (rd d) (k + 12 + 4 * j) = le32 (rd e) (k + 12 + 4 * j)" if "j < NDIRECT + 1" for j
    using 4 [of "12 + 4 * j"] that by (simp add: sizes add.assoc)
  then show ?thesis using 1 [of 0] 1 [of 2] 1 [of 4] 1 [of 6] 4 [of 8]
    by (simp add: disk_fields_def decode_dinode_def)
qed

lemma iupdate_ok:
  assumes s: "in_txn s" "heldblks s = {}" and i: "i_dev (icache s ip) = 1" "inode_fits (icache s ip)"
    and b: "IBLOCK (i_inum (icache s ip)) (sb s) < disksize s" "loggable (lrest s) (IBLOCK (i_inum (icache s ip)) (sb s))"
    and c: "card (dirtyblks s) < log_limit (lrest s)"
  shows "wp (iupdate ip) (\<lambda>_ t. in_txn t \<and> heldblks t = {} \<and> lrest t = lrest s \<and> disk t = disk s \<and>
     dirtyblks t = insert (IBLOCK (i_inum (icache s ip)) (sb s)) (dirtyblks s) \<and>
     view t = (view s)(IBLOCK (i_inum (icache s ip)) (sb s) :=
       encode_dinode (icache s ip) (dinode_off (i_inum (icache s ip))) (view s (IBLOCK (i_inum (icache s ip)) (sb s))))) s"
proof -
  let ?i = "icache s ip" and ?b = "IBLOCK (i_inum (icache s ip)) (sb s)"
  have "wp (kbind (bread 1 ?b) (\<lambda>bp. kseq (bmodify bp (encode_dinode ?i (dinode_off (i_inum ?i)))) (kseq (log_write bp) (kseq (brelse bp) (kret ())))))
    (\<lambda>_ t. in_txn t \<and> heldblks t = {} \<and> lrest t = lrest s \<and> disk t = disk s \<and> dirtyblks t = insert ?b (dirtyblks s) \<and>
     view t = (view s)(?b := encode_dinode ?i (dinode_off (i_inum ?i)) (view s ?b))) s"
  proof (rule lc.update_idiom [OF s(1)])
    show "room (babs s) ?b" using idle_room [OF in_txn_idle [OF s]] b by simp
  qed (use s(2) b c in \<open>auto simp: babs_def acache_defs\<close>)
  then show ?thesis using i(1) by (simp add: iupdate_def)
qed

lemma decode_lock: "decode_dinode d k (i\<lparr>i_lock := l\<rparr>) = (decode_dinode d k i)\<lparr>i_lock := l\<rparr>"
  by (simp add: decode_dinode_def cong: if_cong)

lemma ilock_load:
  assumes s: "in_txn s" "heldblks s = {}" and i: "i_dev (icache s ip) = 1" "\<not> i_valid (icache s ip)" "1 \<le> i_ref (icache s ip)"
      "\<not> sl_locked (i_lock (icache s ip))"
    and b: "IBLOCK (i_inum (icache s ip)) (sb s) < disksize s"
    and nz: "fst (disk_inode s (i_inum (icache s ip))) \<noteq> 0"
  shows "wp (ilock (Some ip)) (\<lambda>_ t. in_txn t \<and> heldblks t = {} \<and> view t = view s \<and> disk t = disk s \<and> dirtyblks t = dirtyblks s \<and> sb t = sb s \<and>
     icache t = (icache s)(ip := (decode_dinode (view s (IBLOCK (i_inum (icache s ip)) (sb s))) (dinode_off (i_inum (icache s ip)))
       (icache s ip))\<lparr>i_lock := \<lparr>sl_locked = True, sl_pid = curpid s\<rparr>, i_valid := True\<rparr>)) s"
proof -
  let ?i = "icache s ip" and ?b = "IBLOCK (i_inum (icache s ip)) (sb s)" and ?k = "dinode_off (i_inum (icache s ip))"
  let ?lk = "(i_lock ?i)\<lparr>sl_locked := True, sl_pid := curpid s\<rparr>"
  let ?u = "setinode ip (\<lambda>i. i\<lparr>i_lock := ?lk\<rparr>) s"
  let ?j = "(decode_dinode (view s ?b) ?k ?i)\<lparr>i_lock := ?lk, i_valid := True\<rparr>"
  let ?Q = "\<lambda>_ t. in_txn t \<and> heldblks t = {} \<and> view t = view s \<and> disk t = disk s \<and> dirtyblks t = dirtyblks s \<and> sb t = sb s \<and>
     icache t = (icache s)(ip := ?j)"
  have lk: "?lk = \<lparr>sl_locked = True, sl_pid = curpid s\<rparr>" by (cases "i_lock ?i") simp
  have ty: "i_type ?j \<noteq> 0" using nz by (simp add: disk_inode_def disk_fields_def decode_dinode_def)
  have sl: "ilock_sleep ip s = Done () ?u" using i(4) by (simp add: ilock_sleep_def acquiresleep_def)
  have u: "in_txn ?u" "babs ?u = babs s" using s by simp_all
  have "room (babs ?u) ?b" using idle_room [OF in_txn_idle [OF s] b] by simp
  then have "wp (kbind (bread 1 ?b) (\<lambda>bp. kbind (bdata bp) (\<lambda>d. kseq (kmod (setinode ip (decode_dinode d ?k)))
         (kseq (brelse bp) (kseq (kmod (setinode ip (\<lambda>i. i\<lparr>i_valid := True\<rparr>)))
         (kbind (kget (\<lambda>s. icache s ip)) (\<lambda>i. if i_type i = 0 then kpanic ''ilock: no type'' else kret ()))))))) ?Q ?u"
  proof (rule lc.hold_idiom [OF u(1)], intro lc.data_idiom)
    fix bp t
    assume t: "in_txn t" "bhold t bp ?b" "babs t = a_hold ?b (babs ?u)" "lrest t = lrest ?u"
    let ?d = "a_view (babs t) ?b"
    let ?v = "setinode ip (decode_dinode ?d ?k) t"
    show "in_txn t" "bhold t bp ?b" by fact+
    have d: "?d = view s ?b" using t(3) by (simp add: a_hold_def babs_sel)
    have ic: "icache t = icache ?u" using lrest_fs [OF t(4)] by simp
    have "wp (kseq (brelse bp) (kseq (kmod (setinode ip (\<lambda>i. i\<lparr>i_valid := True\<rparr>)))
         (kbind (kget (\<lambda>s. icache s ip)) (\<lambda>i. if i_type i = 0 then kpanic ''ilock: no type'' else kret ())))) ?Q ?v"
    proof (rule lc.drop_idiom)
      show "in_txn ?v" "bhold ?v bp ?b" using t by simp_all
      show "?b \<in> a_dirty (babs ?v) \<or> a_view (babs ?v) ?b = a_home (babs ?v) ?b"
        using t(3) lc.clean_law [OF s(1), of ?b] s(2) by (auto simp: a_hold_def babs_sel)
      fix w
      assume w: "in_txn w" "babs w = a_release ?b (babs ?v)" "lrest w = lrest ?v"
      have "babs w = babs s" using w(2) t(3) s(2) by (simp add: babs_sel)
      then have bw: "heldblks w = {}" "view w = view s" "disk w = disk s" "dirtyblks w = dirtyblks s" using s(2) by (simp_all add: babs_def)
      define x where "x = setinode ip (\<lambda>i. i\<lparr>i_valid := True\<rparr>) w"
      have "babs x = babs w" "in_txn x" using w by (simp_all add: x_def)
      then have bx: "in_txn x" "heldblks x = {}" "view x = view s" "disk x = disk s" "dirtyblks x = dirtyblks s"
        using bw by (simp_all add: babs_def)
      have "icache w = icache ?v" "sb w = sb s" using lrest_fs [OF w(3)] lrest_fs [OF t(4)] by simp_all
      then have "icache x = (icache s)(ip := ?j)" "sb x = sb s" using ic by (simp_all add: x_def d decode_lock)
      then show "wp (kseq (kmod (setinode ip (\<lambda>i. i\<lparr>i_valid := True\<rparr>)))
         (kbind (kget (\<lambda>s. icache s ip)) (\<lambda>i. if i_type i = 0 then kpanic ''ilock: no type'' else kret ()))) ?Q w"
        using bx ty by (simp flip: x_def)
    qed
    then show "wp (kseq (kmod (setinode ip (decode_dinode ?d ?k)))
         (kseq (brelse bp) (kseq (kmod (setinode ip (\<lambda>i. i\<lparr>i_valid := True\<rparr>)))
         (kbind (kget (\<lambda>s. icache s ip)) (\<lambda>i. if i_type i = 0 then kpanic ''ilock: no type'' else kret ()))))) ?Q t"
      by simp
  qed
  moreover have "\<not> i_ref ?i < 1" using i(3) by simp
  ultimately have "wp (ilock (Some ip)) ?Q s"
    using i(1,2) sl by (simp add: ilock_def wp_def kbind_def kseq_def kget_def)
  then show ?thesis unfolding lk .
qed


lemma other_inodes:
  assumes "view t = (view s)(IBLOCK n (sb s) := encode_dinode i (dinode_off n) (view s (IBLOCK n (sb s))))" "sb t = sb s"
    "dinode_off m \<noteq> dinode_off n \<or> IBLOCK m (sb s) \<noteq> IBLOCK n (sb s)"
  shows "disk_inode t m = disk_inode s m"
proof (cases "IBLOCK m (sb s) = IBLOCK n (sb s)")
  case True
  have "rd (encode_dinode i (dinode_off n) (view s (IBLOCK n (sb s)))) (dinode_off m + x) = rd (view s (IBLOCK n (sb s))) (dinode_off m + x)"
    if "x < 64" for x using dinode_off_apart [OF True _ that] assms(3) True by (intro encode_other) auto
  then show ?thesis unfolding disk_inode_def assms(1,2) True by (intro decode_cong) simp
next
  case False
  then show ?thesis unfolding disk_inode_def assms(1,2) by (intro decode_cong) simp
qed

text \<open>
  Inodes survive eviction from the inode cache. After \<open>iupdate\<close> of a locked inode whose
  fields are in the ranges of their C types, dropping the in-memory copy and loading the inode
  again with \<open>ilock\<close> gives back all fields that live on the disk (type, device numbers, link
  count, size and the 13 block addresses); all other inodes and blocks stay as they were.
\<close>

theorem inode_round_trip:
  assumes s: "in_txn s" "heldblks s = {}" and i: "i_dev (icache s ip) = 1" "inode_fits (icache s ip)"
      "i_type (icache s ip) \<noteq> 0" "1 \<le> i_ref (icache s ip)"
    and b: "IBLOCK (i_inum (icache s ip)) (sb s) < disksize s" "loggable (lrest s) (IBLOCK (i_inum (icache s ip)) (sb s))"
    and c: "card (dirtyblks s) < log_limit (lrest s)"
  shows "wp (kseq (iupdate ip) (kseq (kmod (setinode ip (\<lambda>i. i\<lparr>i_valid := False, i_type := 0, i_nlink := 0, i_size := 0,
       i_addrs := (\<lambda>_. 0), i_lock := releasesleep (i_lock i)\<rparr>))) (ilock (Some ip))))
     (\<lambda>_ t. in_txn t \<and> disk_fields (icache t ip) = disk_fields (icache s ip) \<and> i_valid (icache t ip) \<and>
        i_ref (icache t ip) = i_ref (icache s ip) \<and>
        (\<forall>n. dinode_off n \<noteq> dinode_off (i_inum (icache s ip)) \<or> IBLOCK n (sb s) \<noteq> IBLOCK (i_inum (icache s ip)) (sb s) \<longrightarrow>
           disk_inode t n = disk_inode s n) \<and>
        (\<forall>c. c \<noteq> IBLOCK (i_inum (icache s ip)) (sb s) \<longrightarrow> view t c = view s c)) s"
proof (subst wp_kseq, rule wp_conseq [OF iupdate_ok [OF s i(1,2) b c]], elim conjE)
  let ?i = "icache s ip" and ?n = "i_inum (icache s ip)"
  let ?b = "IBLOCK ?n (sb s)" and ?k = "dinode_off ?n"
  let ?wipe = "\<lambda>i. i\<lparr>i_valid := False, i_type := 0, i_nlink := 0, i_size := 0, i_addrs := (\<lambda>_. 0), i_lock := releasesleep (i_lock i)\<rparr>"
  fix t
  assume t: "in_txn t" "heldblks t = {}" "lrest t = lrest s" "disk t = disk s" "dirtyblks t = insert ?b (dirtyblks s)"
    "view t = (view s)(?b := encode_dinode ?i ?k (view s ?b))"
  note l = lrest_fs [OF t(3)]
  define u where "u = setinode ip ?wipe t"
  have bu: "babs u = babs t" and u: "in_txn u" "sb u = sb s" "icache u ip = ?wipe ?i" "disksize u = disksize s" "curpid u = curpid s"
    using t(1) l by (simp_all add: u_def) (simp add: setinode_def)
  have vu: "view u = view t" "heldblks u = {}" "disk u = disk t" using bu t(2) by (simp_all add: babs_def)
  have dec: "disk_fields (decode_dinode (view u ?b) ?k x) = disk_fields ?i" for x
    using decode_encode [OF i(2) dinode_off_bound] by (simp add: vu t(6))
  have nz: "fst (disk_inode u (i_inum (icache u ip))) \<noteq> 0"
    using i(3) dec [of "icache u 0"] by (simp add: disk_inode_def u(2,3)) (simp add: disk_fields_def)
  have "wp (ilock (Some ip)) (\<lambda>_ v. in_txn v \<and> heldblks v = {} \<and> view v = view u \<and> disk v = disk u \<and> dirtyblks v = dirtyblks u \<and> sb v = sb u \<and>
     icache v = (icache u)(ip := (decode_dinode (view u (IBLOCK (i_inum (icache u ip)) (sb u))) (dinode_off (i_inum (icache u ip)))
       (icache u ip))\<lparr>i_lock := \<lparr>sl_locked = True, sl_pid = curpid u\<rparr>, i_valid := True\<rparr>)) u"
    using i b u vu nz by (intro ilock_load) (simp_all add: releasesleep_def)
  then have "wp (ilock (Some ip)) (\<lambda>_ v. in_txn v \<and> disk_fields (icache v ip) = disk_fields ?i \<and> i_valid (icache v ip) \<and>
      i_ref (icache v ip) = i_ref ?i \<and> (\<forall>n. dinode_off n \<noteq> ?k \<or> IBLOCK n (sb s) \<noteq> ?b \<longrightarrow> disk_inode v n = disk_inode s n) \<and>
      (\<forall>c. c \<noteq> ?b \<longrightarrow> view v c = view s c)) u"
  proof (rule wp_conseq, elim conjE)
    fix v
    assume v: "in_txn v" "view v = view u" "icache v = (icache u)(ip := (decode_dinode (view u (IBLOCK (i_inum (icache u ip)) (sb u))) (dinode_off (i_inum (icache u ip)))
       (icache u ip))\<lparr>i_lock := \<lparr>sl_locked = True, sl_pid = curpid u\<rparr>, i_valid := True\<rparr>)" "sb v = sb u"
    have "disk_fields (icache v ip) = disk_fields (decode_dinode (view u ?b) ?k (icache u ip))"
      by (simp add: v(3) u(2,3) disk_fields_def)
    then have 1: "disk_fields (icache v ip) = disk_fields ?i" using dec by simp
    have "sb v = sb s" using v(4) u(2) by simp
    then have oth: "dinode_off m \<noteq> ?k \<or> IBLOCK m (sb s) \<noteq> ?b \<Longrightarrow> disk_inode v m = disk_inode s m" for m
      using other_inodes [of v s ?n ?i m] v(2) vu(1) t(6) by simp
    have 2: "i_valid (icache v ip)" "i_ref (icache v ip) = i_ref ?i" by (simp_all add: v(3) u(3) decode_dinode_def)
    show "in_txn v \<and> disk_fields (icache v ip) = disk_fields ?i \<and> i_valid (icache v ip) \<and> i_ref (icache v ip) = i_ref ?i \<and>
      (\<forall>n. dinode_off n \<noteq> ?k \<or> IBLOCK n (sb s) \<noteq> ?b \<longrightarrow> disk_inode v n = disk_inode s n) \<and> (\<forall>c. c \<noteq> ?b \<longrightarrow> view v c = view s c)"
      using v(1) 1 2 oth v(2) vu(1) t(6) by simp
  qed
  then show "wp (kseq (kmod (setinode ip ?wipe)) (ilock (Some ip))) (\<lambda>_ v. in_txn v \<and> disk_fields (icache v ip) = disk_fields ?i \<and> i_valid (icache v ip) \<and>
      i_ref (icache v ip) = i_ref ?i \<and> (\<forall>n. dinode_off n \<noteq> ?k \<or> IBLOCK n (sb s) \<noteq> ?b \<longrightarrow> disk_inode v n = disk_inode s n) \<and>
      (\<forall>c. c \<noteq> ?b \<longrightarrow> view v c = view s c)) t" by (simp add: u_def)
qed

theorem inode_round_trip_witness:
  "wp (kseq (iupdate 0) (kseq (kmod (setinode 0 (\<lambda>i. i\<lparr>i_valid := False, i_type := 0, i_nlink := 0, i_size := 0,
       i_addrs := (\<lambda>_. 0), i_lock := releasesleep (i_lock i)\<rparr>))) (ilock (Some 0))))
     (\<lambda>_ t. in_txn t \<and> disk_fields (icache t 0) = disk_fields demo_inode \<and> i_valid (icache t 0) \<and>
        i_ref (icache t 0) = 1 \<and> (\<forall>c. c \<noteq> 32 \<longrightarrow> view t c = view demo_fs c)) demo_fs"
proof -
  note i = demo_fs_file(1)
  have b: "IBLOCK 7 (sb demo_fs) = 32" "loggable (lrest demo_fs) 32" "log_limit (lrest demo_fs) = 29"
    by (simp_all add: demo_fs_def cold_fs_rest) (simp add: IBLOCK_def cold_fs_def IPB_num)
  have f: "i_inum demo_inode = 7" "i_dev demo_inode = 1" "inode_fits demo_inode" "i_type demo_inode \<noteq> 0" "i_ref demo_inode = 1"
    by (simp_all add: demo_inode_def inode_fits_def T_FILE_def sizes)
  show ?thesis
    using inode_round_trip [OF demo_fs_ok(1,2), of 0] demo_fs_ok(3,6) unfolding i f b
    by (auto simp: f b elim!: wp_conseq)
qed

section \<open>The inode cache\<close>

definition icache_ok :: "'x fstate_scheme \<Rightarrow> bool" where
  "icache_ok s \<longleftrightarrow> (\<forall>i<NINODE. 0 \<le> i_ref (icache s i)) \<and>
     (\<forall>i<NINODE. \<forall>j<NINODE. 0 < i_ref (icache s i) \<and> 0 < i_ref (icache s j) \<and>
        i_dev (icache s i) = i_dev (icache s j) \<and> i_inum (icache s i) = i_inum (icache s j) \<longrightarrow> i = j)"

text \<open>References to an inode: the count of its cache entry, 0 if it has none.\<close>

definition irefs :: "'x fstate_scheme \<Rightarrow> nat \<Rightarrow> nat \<Rightarrow> int" where
  "irefs s dev inum = (case find (\<lambda>i. 0 < i_ref (icache s i) \<and> i_dev (icache s i) = dev \<and> i_inum (icache s i) = inum) [0..<NINODE] of
     Some i \<Rightarrow> i_ref (icache s i) | None \<Rightarrow> 0)"

lemma irefs_in: "icache_ok s \<Longrightarrow> i < NINODE \<Longrightarrow> 0 < i_ref (icache s i) \<Longrightarrow> i_dev (icache s i) = dev \<Longrightarrow>
    i_inum (icache s i) = inum \<Longrightarrow> irefs s dev inum = i_ref (icache s i)"
proof -
  assume a: "icache_ok s" "i < NINODE" "0 < i_ref (icache s i)" "i_dev (icache s i) = dev" "i_inum (icache s i) = inum"
  have "find (\<lambda>i. 0 < i_ref (icache s i) \<and> i_dev (icache s i) = dev \<and> i_inum (icache s i) = inum) [0..<NINODE] = Some i"
    using a unfolding icache_ok_def by (intro find_unique) auto
  then show ?thesis by (simp add: irefs_def)
qed

lemma irefs_out: "(\<And>i. i < NINODE \<Longrightarrow> 0 < i_ref (icache s i) \<Longrightarrow> \<not> (i_dev (icache s i) = dev \<and> i_inum (icache s i) = inum)) \<Longrightarrow>
    irefs s dev inum = 0"
proof -
  assume a: "\<And>i. i < NINODE \<Longrightarrow> 0 < i_ref (icache s i) \<Longrightarrow> \<not> (i_dev (icache s i) = dev \<and> i_inum (icache s i) = inum)"
  have "find (\<lambda>i. 0 < i_ref (icache s i) \<and> i_dev (icache s i) = dev \<and> i_inum (icache s i) = inum) [0..<NINODE] = None"
    using a by (auto simp: find_None_iff)
  then show ?thesis by (simp add: irefs_def)
qed

lemma iget_hit:
  assumes ok: "icache_ok s" and i: "i < NINODE" "0 < i_ref (icache s i)" "i_dev (icache s i) = dev" "i_inum (icache s i) = inum"
  defines "t \<equiv> setinode i (\<lambda>ip. ip\<lparr>i_ref := i_ref ip + 1\<rparr>) s"
  shows "icache_ok t" "irefs t d n = irefs s d n + (if d = dev \<and> n = inum then 1 else 0)"
proof -
  have f: "i_dev (icache t j) = i_dev (icache s j)" "i_inum (icache t j) = i_inum (icache s j)"
    "i_ref (icache t j) = i_ref (icache s j) + (if j = i then 1 else 0)" for j by (simp_all add: t_def)
  have r: "0 < i_ref (icache t j) \<longleftrightarrow> 0 < i_ref (icache s j)" if "j < NINODE" for j using i(2) by (simp add: f)
  show ok': "icache_ok t" using ok r unfolding icache_ok_def by (auto simp: f)
  show "irefs t d n = irefs s d n + (if d = dev \<and> n = inum then 1 else 0)"
  proof (cases "\<exists>j<NINODE. 0 < i_ref (icache s j) \<and> i_dev (icache s j) = d \<and> i_inum (icache s j) = n")
    case True
    then obtain j where j: "j < NINODE" "0 < i_ref (icache s j)" "i_dev (icache s j) = d" "i_inum (icache s j) = n" by auto
    have "j = i \<longleftrightarrow> d = dev \<and> n = inum" using ok i j unfolding icache_ok_def by blast
    then show ?thesis using irefs_in [OF ok j] irefs_in [OF ok' j(1)] j r by (simp add: f)
  next
    case False
    then have "irefs s d n = 0" "irefs t d n = 0" using r by (auto intro!: irefs_out simp: f)
    then show ?thesis using False i by auto
  qed
qed

lemma iget_miss:
  assumes ok: "icache_ok s" and i: "i < NINODE" "i_ref (icache s i) = 0"
    and no: "\<And>j. j < NINODE \<Longrightarrow> 0 < i_ref (icache s j) \<Longrightarrow> \<not> (i_dev (icache s j) = dev \<and> i_inum (icache s j) = inum)"
  defines "t \<equiv> setinode i (\<lambda>ip. ip\<lparr>i_dev := dev, i_inum := inum, i_ref := 1, i_valid := False\<rparr>) s"
  shows "icache_ok t" "irefs t d n = irefs s d n + (if d = dev \<and> n = inum then 1 else 0)"
proof -
  have o: "j \<noteq> i \<Longrightarrow> icache t j = icache s j" for j by (simp add: t_def)
  have c: "i_ref (icache t i) = 1" "i_dev (icache t i) = dev" "i_inum (icache t i) = inum" by (simp_all add: t_def)
  show ok': "icache_ok t" unfolding icache_ok_def
  proof (intro conjI allI impI)
    fix j assume "j < NINODE"
    then show "0 \<le> i_ref (icache t j)" using ok o [of j] c by (cases "j = i") (auto simp: icache_ok_def)
  next
    fix j k
    assume jk: "j < NINODE" "k < NINODE" "0 < i_ref (icache t j) \<and> 0 < i_ref (icache t k) \<and>
      i_dev (icache t j) = i_dev (icache t k) \<and> i_inum (icache t j) = i_inum (icache t k)"
    show "j = k"
    proof (cases "j = i \<or> k = i")
      case True
      then show ?thesis using jk c no [of j] no [of k] o [of j] o [of k] by metis
    next
      case False
      then show ?thesis using jk ok o unfolding icache_ok_def by metis
    qed
  qed
  show "irefs t d n = irefs s d n + (if d = dev \<and> n = inum then 1 else 0)"
  proof (cases "d = dev \<and> n = inum")
    case True
    then show ?thesis using irefs_in [OF ok' i(1), of d n] irefs_out [of s d n] no c by auto
  next
    case False
    show ?thesis
    proof (cases "\<exists>j<NINODE. 0 < i_ref (icache s j) \<and> i_dev (icache s j) = d \<and> i_inum (icache s j) = n")
      case True
      then obtain j where j: "j < NINODE" "0 < i_ref (icache s j)" "i_dev (icache s j) = d" "i_inum (icache s j) = n" by auto
      then have "j \<noteq> i" using i by auto
      then show ?thesis using irefs_in [OF ok j] irefs_in [OF ok' j(1), of d n] j o False by simp
    next
      case none: False
      have "irefs t d n = 0"
      proof (rule irefs_out)
        fix j assume "j < NINODE" "0 < i_ref (icache t j)"
        then show "\<not> (i_dev (icache t j) = d \<and> i_inum (icache t j) = n)"
          using none False c o [of j] by (cases "j = i") auto
      qed
      moreover have "irefs s d n = 0" using none by (intro irefs_out) auto
      ultimately show ?thesis using False by simp
    qed
  qed
qed

text \<open>
  The inode cache has one entry per inode in use. \<open>iget\<close> keeps this, returns the entry of
  the requested inode, adds exactly one reference to that inode and none to any other, and
  does not touch the disk or the buffer cache; it panics only when all \<^const>\<open>NINODE\<close> entries
  are referenced and none is the requested inode.
\<close>

theorem iget_counts_references:
  assumes "icache_ok s"
  shows "case iget dev inum s of
      Done ip t \<Rightarrow> ip < NINODE \<and> i_dev (icache t ip) = dev \<and> i_inum (icache t ip) = inum \<and> icache_ok t \<and>
        (\<forall>d n. irefs t d n = irefs s d n + (if d = dev \<and> n = inum then 1 else 0)) \<and> babs t = babs s
    | Panic msg \<Rightarrow> msg = ''iget: no inodes'' \<and> (\<forall>i<NINODE. 0 < i_ref (icache s i)) \<and> irefs s dev inum = 0
    | Sleep c t \<Rightarrow> False"
proof -
  let ?P = "\<lambda>i. 0 < i_ref (icache s i) \<and> i_dev (icache s i) = dev \<and> i_inum (icache s i) = inum"
  show ?thesis
  proof (cases "find ?P [0..<NINODE]")
    case (Some i)
    then have i: "i < NINODE" "0 < i_ref (icache s i)" "i_dev (icache s i) = dev" "i_inum (icache s i) = inum"
      using find_SomeD [OF Some] by auto
    show ?thesis using iget_hit [OF assms i] i by (simp add: iget_def Some)
  next
    case None
    then have no: "\<And>j. j < NINODE \<Longrightarrow> 0 < i_ref (icache s j) \<Longrightarrow> \<not> (i_dev (icache s j) = dev \<and> i_inum (icache s j) = inum)"
      by (auto simp: find_None_iff)
    show ?thesis
    proof (cases "find (\<lambda>i. i_ref (icache s i) = 0) [0..<NINODE]")
      case empty: None
      have "\<forall>i<NINODE. 0 < i_ref (icache s i)"
        using empty assms by (fastforce simp: find_None_iff icache_ok_def)
      then show ?thesis using None empty by (simp add: iget_def irefs_def)
    next
      case (Some i)
      then have i: "i < NINODE" "i_ref (icache s i) = 0" using find_SomeD [OF Some] by auto
      show ?thesis using iget_miss [OF assms i no] i by (simp add: iget_def None Some)
    qed
  qed
qed

definition empty_icache :: fstate where
  "empty_icache = demo_fs\<lparr>icache := \<lambda>_. demo_inode\<lparr>i_ref := 0\<rparr>\<rparr>"

theorem iget_counts_references_witness:
  "case iget 1 1 empty_icache of
      Done ip t \<Rightarrow> ip < NINODE \<and> i_dev (icache t ip) = 1 \<and> i_inum (icache t ip) = 1 \<and> icache_ok t \<and>
        (\<forall>d n. irefs t d n = irefs empty_icache d n + (if d = 1 \<and> n = 1 then 1 else 0)) \<and> babs t = babs empty_icache
    | Panic msg \<Rightarrow> msg = ''iget: no inodes'' \<and> (\<forall>i<NINODE. 0 < i_ref (icache empty_icache i)) \<and> irefs empty_icache 1 1 = 0
    | Sleep c t \<Rightarrow> False"
  by (rule iget_counts_references) (simp add: icache_ok_def empty_icache_def)

end
