(* ===== verification/FsDir.thy ===== *)
theory FsDir
  imports FsAlloc
begin

text \<open>
  Directories and path names: \<open>skipelem\<close> against an independent definition of the elements of a
  path, directory lookup as a search for the first matching entry, and linking a name into a
  directory.
\<close>

section \<open>Path elements\<close>

primrec splits :: "byte list \<Rightarrow> byte list list" where
  "splits [] = [[]]"
| "splits (c # cs) = (if c = slash then [] # splits cs else (c # hd (splits cs)) # tl (splits cs))"

definition elems :: "byte list \<Rightarrow> byte list list" where
  "elems p = filter (\<lambda>e. e \<noteq> []) (splits p)"

lemma splits_ne [simp]: "splits p \<noteq> []"
  by (induction p) auto

lemma elems_slashes: "elems (dropWhile (\<lambda>c. c = slash) p) = elems p"
  by (induction p) (auto simp: elems_def)

lemma splits_plain: "slash \<notin> set e \<Longrightarrow> splits e = [e]"
  by (induction e) auto

lemma splits_first: "slash \<notin> set e \<Longrightarrow> splits (e @ slash # r) = e # splits r"
  by (induction e) auto

lemma elems_takeWhile:
  assumes "s \<noteq> []" "hd s \<noteq> slash"
  shows "elems s = takeWhile (\<lambda>c. c \<noteq> slash) s # elems (dropWhile (\<lambda>c. c \<noteq> slash) s)"
proof -
  let ?e = "takeWhile (\<lambda>c. c \<noteq> slash) s" and ?r = "dropWhile (\<lambda>c. c \<noteq> slash) s"
  have e: "slash \<notin> set ?e" "?e \<noteq> []" using assms by (auto dest: set_takeWhileD) (cases s; simp)
  show ?thesis
  proof (cases "?r = []")
    case True
    then have "s = ?e" by (metis append_Nil2 takeWhile_dropWhile_id)
    then have "splits s = [?e]" using splits_plain [OF e(1)] by metis
    then show ?thesis unfolding True using e by (simp add: elems_def)
  next
    case False
    then obtain c r where r: "?r = c # r" by (cases ?r) auto
    then have "c = slash" using hd_dropWhile [of "\<lambda>c. c \<noteq> slash" s] False by simp
    then have s: "s = ?e @ slash # r" using r by (metis takeWhile_dropWhile_id)
    have "splits s = ?e # splits r" using splits_first [OF e(1), of r] s by metis
    moreover have "elems ?r = elems r" using r \<open>c = slash\<close> by (simp add: elems_def)
    ultimately show ?thesis using e by (simp add: elems_def)
  qed
qed

lemma cstr_list: "0 \<notin> set xs \<Longrightarrow> (\<And>i. i < length xs \<Longrightarrow> p i = xs ! i) \<Longrightarrow> length xs < n \<Longrightarrow> p (length xs) = 0 \<Longrightarrow> cstr n p = xs"
proof (induction xs arbitrary: n p)
  case Nil
  then show ?case by (cases n) (auto simp: cstr_Suc)
next
  case (Cons x xs)
  then obtain m where m: "n = Suc m" by (cases n) auto
  have "cstr m (\<lambda>i. p (Suc i)) = xs"
    using Cons.prems m by (intro Cons.IH) (auto simp: nth_Cons')
  moreover have "p 0 = x" using Cons.prems(2) [of 0] by simp
  ultimately show ?case using Cons.prems(1) m by (auto simp: cstr_Suc)
qed

lemma cstr_full: "0 \<notin> set xs \<Longrightarrow> (\<And>i. i < n \<Longrightarrow> p i = xs ! i) \<Longrightarrow> n \<le> length xs \<Longrightarrow> cstr n p = take n xs"
proof -
  assume a: "0 \<notin> set xs" "\<And>i. i < n \<Longrightarrow> p i = xs ! i" "n \<le> length xs"
  have "map p [0..<n] = take n xs" using a(2,3) by (intro nth_equalityI) auto
  moreover have "takeWhile (\<lambda>c. c \<noteq> 0) (take n xs) = take n xs"
    using a(1) by (intro takeWhile_eq_all_conv [THEN iffD2]) (auto dest: in_set_takeD)
  ultimately show ?thesis by (simp add: cstr_def)
qed

text \<open>
  \<open>skipelem\<close> takes a path apart. It fails exactly on paths without elements; otherwise it
  stores the first element, cut to \<^const>\<open>DIRSIZ\<close> bytes, and returns the rest, which has the
  remaining elements, no leading slash, and is shorter. (Paths contain no NUL byte.)
\<close>

theorem skipelem_takes_first:
  assumes "0 \<notin> set path"
  shows "case skipelem path name of
      None \<Rightarrow> elems path = []
    | Some (rest, name') \<Rightarrow> (\<exists>e. elems path = e # elems rest \<and> cstr DIRSIZ name' = take DIRSIZ e) \<and>
        (rest = [] \<or> hd rest \<noteq> slash) \<and> length rest < length path"
proof -
  let ?s = "dropWhile (\<lambda>c. c = slash) path"
  show ?thesis
  proof (cases "?s = []")
    case True
    have "elems [] = []" by (simp add: elems_def)
    then have "elems path = []" using elems_slashes [of path] unfolding True by simp
    then show ?thesis using True by (simp add: skipelem_def)
  next
    case False
    let ?e = "takeWhile (\<lambda>c. c \<noteq> slash) ?s" and ?r = "dropWhile (\<lambda>c. c \<noteq> slash) ?s"
    obtain rest n where sk: "skipelem path name = Some (rest, n)" "rest = dropWhile (\<lambda>c. c = slash) ?r"
      "n = (if DIRSIZ \<le> length ?e then (\<lambda>i. if i < DIRSIZ then ?e ! i else name i)
            else (\<lambda>i. if i < length ?e then ?e ! i else if i = length ?e then 0 else name i))"
      using False by (auto simp: skipelem_def Let_def)
    have hd: "hd ?s \<noteq> slash" using False hd_dropWhile [of "\<lambda>c. c = slash" path] by simp
    have el: "elems path = ?e # elems rest"
      using elems_takeWhile [OF False hd] elems_slashes [of path] elems_slashes [of ?r] sk(2) by simp
    have z: "0 \<notin> set ?e" using assms by (auto dest!: set_takeWhileD set_dropWhileD)
    have nm: "cstr DIRSIZ n = take DIRSIZ ?e"
    proof (cases "DIRSIZ \<le> length ?e")
      case True
      then show ?thesis using z by (intro cstr_full) (auto simp: sk(3))
    next
      case False
      then have "cstr DIRSIZ n = ?e" using z by (intro cstr_list) (auto simp: sk(3))
      then show ?thesis using False by simp
    qed
    have "rest = [] \<or> hd rest \<noteq> slash" using sk(2) hd_dropWhile [of "\<lambda>c. c = slash" ?r] by auto
    then show ?thesis using sk(1) el nm skipelem_shorter [OF sk(1)] by auto
  qed
qed

theorem skipelem_takes_first_witness:
  "skipelem [47, 47, 47, 97, 47, 47, 98, 98] (\<lambda>_. 1) \<noteq> None \<and>
   (\<exists>e. elems [47, 47, 47, 97, 47, 47, 98, 98] = e # elems [98, 98] \<and> e = [97]) \<and> skipelem [47, 47, 47, 47] (\<lambda>_. 0) = None"
proof -
  let ?p = "[47, 47, 47, 97, 47, 47, 98, 98] :: byte list"
  have s: "skipelem ?p (\<lambda>_. 1) = Some ([98, 98], (\<lambda>i. if i < 1 then [97] ! i else if i = 1 then 0 else 1))"
    by (simp add: skipelem_def DIRSIZ_num fun_eq_iff)
  have z: "0 \<notin> set ?p" by simp
  have "\<exists>e. elems ?p = e # elems [98, 98]"
    using skipelem_takes_first [OF z, of "\<lambda>_. 1"] unfolding s by auto
  moreover have "elems ?p = [[97], [98, 98]]" by (simp add: elems_def)
  ultimately show ?thesis using s by (simp add: skipelem_def)
qed

section \<open>Directory entries\<close>

text \<open>Entry \<open>k\<close> of a directory, as bytes.\<close>

definition entry :: "'x fstate_scheme \<Rightarrow> nat \<Rightarrow> nat \<Rightarrow> byte list" where
  "entry s dp k = map (fbyte s dp) [16 * k..<16 * k + 16]"

definition entry_is :: "'x fstate_scheme \<Rightarrow> nat \<Rightarrow> arr \<Rightarrow> nat \<Rightarrow> bool" where
  "entry_is s dp name k \<longleftrightarrow> de_inum (entry s dp k) \<noteq> 0 \<and> namecmp name (de_name (entry s dp k)) = 0"

definition dir_ok :: "'x fstate_scheme \<Rightarrow> nat \<Rightarrow> nat \<Rightarrow> bool" where
  "dir_ok s dp n \<longleftrightarrow> i_type (icache s dp) = T_DIR \<and> i_size (icache s dp) = 16 * n \<and> file_ok s dp (16 * n)"

lemma dir_entries: "(16 * n + 15) div 16 = (n :: nat)"
  by simp

lemma read_entry:
  assumes "idle s" "dir_ok s dp n" "k < n"
  shows "wp (readi dv dp (16 * k) 16) (\<lambda>(r, bs) t. r = 16 \<and> bs = entry s dp k \<and> same s t) s"
proof -
  have sz: "i_size (icache s dp) = 16 * n" "i_type (icache s dp) \<noteq> T_DEV" "file_ok s dp (16 * n)"
    using assms(2) by (simp_all add: dir_ok_def T_DIR_def T_DEV_def)
  have "16 * n \<le> 2 ^ 17" using sz(3) by (simp add: file_ok_def sizes)
  then have b: "16 * k + 16 < 2 ^ 32" using assms(3) by simp
  have m: "min 16 (16 * n - 16 * k) = 16" using assms(3) by simp
  have e: "entry s dp k = map (fbyte s dp) [16 * k..<16 * k + 16]" by (simp only: entry_def)
  show ?thesis
    using readi_ok [OF assms(1) sz(2), of "16 * k" 16 dv] sz(3) assms(3) b unfolding sz(1) m e [symmetric] by simp
qed

text \<open>Scanning the entries: the loop shared by \<open>dirlookup\<close> and \<open>dirlink\<close>.\<close>

lemma scan_entries:
  assumes s: "idle s" "dir_ok s dp n" "k \<le> n"
    and skip: "\<And>j t. j < k \<Longrightarrow> same s t \<Longrightarrow> wp (step (16, entry s dp j) (16 * j)) (\<lambda>r u. r = None \<and> same s u) t"
    and stop: "\<And>t. k < n \<Longrightarrow> same s t \<Longrightarrow> wp (step (16, entry s dp k) (16 * k)) (\<lambda>r u. r \<noteq> None \<and> Q r u) t"
    and none: "\<And>t. k = n \<Longrightarrow> same s t \<Longrightarrow> Q None t"
  shows "wp (kfirst (map (\<lambda>k. 16 * k) [0..<n]) (\<lambda>off. kbind (readi dv dp off 16) (\<lambda>x. step x off))) Q s"
proof (rule wp_kfirst [where I = "\<lambda>xs t. same s t \<and> length xs \<le> k"])
  show "same s s \<and> length [] \<le> k" using s(1) by (simp add: same_refl idle_def)
  fix t assume "same s t \<and> length (map (\<lambda>k. 16 * k) [0..<n]) \<le> k"
  then show "Q None t" using none s(3) by simp
next
  fix xs i ys t
  assume e: "map (\<lambda>k. 16 * k) [0..<n] = xs @ i # ys" and I: "same s t \<and> length xs \<le> k"
  define j where "j = length xs"
  have j: "i = 16 * j" "j < n" "j \<le> k" using map_upt_split [OF e] I by (auto simp: j_def)
  have t: "idle t" "dir_ok t dp n" "entry t dp = entry s dp"
    using same_idle [OF s(1)] same_file [of s t] I s(2) by (auto simp: dir_ok_def entry_def fun_eq_iff)
  show "wp (kbind (readi dv dp i 16) (\<lambda>x. step x i)) (\<lambda>r u. case r of None \<Rightarrow> same s u \<and> length (xs @ [i]) \<le> k | Some x \<Rightarrow> Q (Some x) u) t"
    unfolding j(1) wp_kbind
  proof (rule wp_conseq [OF read_entry [OF t(1,2) j(2)]])
    fix x :: "int \<times> byte list" and u
    assume "(case x of (r, bs) \<Rightarrow> \<lambda>u. r = 16 \<and> bs = entry t dp j \<and> same t u) u"
    then have x: "x = (16, entry s dp j)" and u: "same s u" using t(3) same_trans [of s t u] I by (auto split: prod.splits)
    show "wp (step x (16 * j)) (\<lambda>r u. case r of None \<Rightarrow> same s u \<and> length (xs @ [16 * j]) \<le> k | Some x \<Rightarrow> Q (Some x) u) u"
    proof (cases "j < k")
      case True
      then show ?thesis unfolding x by (intro wp_conseq [OF skip [OF True u]]) (auto simp: j_def)
    next
      case False
      then have "j = k" "k < n" using j by auto
      then show ?thesis unfolding x by (auto intro!: wp_conseq [OF stop [OF _ u]])
    qed
  qed
qed

lemma iget_free:
  assumes "icache_ok s" "\<exists>i<NINODE. i_ref (icache s i) = 0"
  shows "wp (iget dev inum) (\<lambda>ip t. ip < NINODE \<and> i_dev (icache t ip) = dev \<and> i_inum (icache t ip) = inum \<and> icache_ok t \<and>
     babs t = babs s \<and> (\<forall>d n. irefs t d n = irefs s d n + (if d = dev \<and> n = inum then 1 else 0))) s"
proof -
  let ?P = "\<lambda>i. 0 < i_ref (icache s i) \<and> i_dev (icache s i) = dev \<and> i_inum (icache s i) = inum"
  show ?thesis
  proof (cases "find ?P [0..<NINODE]")
    case (Some i)
    then have i: "i < NINODE" "0 < i_ref (icache s i)" "i_dev (icache s i) = dev" "i_inum (icache s i) = inum"
      using find_SomeD [OF Some] by auto
    show ?thesis using iget_hit [OF assms(1) i] i by (simp add: wp_def iget_def Some)
  next
    case None
    then have no: "\<And>j. j < NINODE \<Longrightarrow> 0 < i_ref (icache s j) \<Longrightarrow> \<not> (i_dev (icache s j) = dev \<and> i_inum (icache s j) = inum)"
      by (auto simp: find_None_iff)
    obtain i where f: "find (\<lambda>i. i_ref (icache s i) = 0) [0..<NINODE] = Some i"
      using assms(2) by (cases "find (\<lambda>i. i_ref (icache s i) = 0) [0..<NINODE]") (auto simp: find_None_iff)
    then have i: "i < NINODE" "i_ref (icache s i) = 0" using find_SomeD [OF f] by auto
    show ?thesis using iget_miss [OF assms(1) i no] i by (simp add: wp_def iget_def None f)
  qed
qed

lemma dirlookup_ok:
  assumes "idle s" "dir_ok s dp n" "k \<le> n" "\<forall>j<k. \<not> entry_is s dp name j" "k < n \<longrightarrow> entry_is s dp name k"
    and "icache_ok s" "\<exists>i<NINODE. i_ref (icache s i) = 0"
  shows "wp (dirlookup dv dp name) (\<lambda>r t. view t = view s \<and> disk t = disk s \<and> icache_ok t \<and>
     (case r of None \<Rightarrow> k = n \<and> icache t = icache s
      | Some (ip, off) \<Rightarrow> k < n \<and> off = 16 * k \<and> ip < NINODE \<and> i_dev (icache t ip) = i_dev (icache s dp) \<and>
          i_inum (icache t ip) = de_inum (entry s dp k) \<and>
          (\<forall>d m. irefs t d m = irefs s d m + (if d = i_dev (icache s dp) \<and> m = de_inum (entry s dp k) then 1 else 0)))) s"
proof -
  let ?dev = "i_dev (icache s dp)"
  let ?step = "\<lambda>x off. case x of (r, de) \<Rightarrow> if r \<noteq> 16 then kpanic ''dirlookup read''
       else if de_inum de = 0 then kret None
       else if namecmp name (de_name de) = 0 then kbind (iget ?dev (de_inum de)) (\<lambda>ip. kret (Some (ip, off))) else kret None"
  let ?Q = "\<lambda>r t. view t = view s \<and> disk t = disk s \<and> icache_ok t \<and>
     (case r of None \<Rightarrow> k = n \<and> icache t = icache s
      | Some (ip, off) \<Rightarrow> k < n \<and> off = 16 * k \<and> ip < NINODE \<and> i_dev (icache t ip) = ?dev \<and>
          i_inum (icache t ip) = de_inum (entry s dp k) \<and>
          (\<forall>d m. irefs t d m = irefs s d m + (if d = ?dev \<and> m = de_inum (entry s dp k) then 1 else 0)))"
  have "wp (kfirst (map (\<lambda>k. 16 * k) [0..<n]) (\<lambda>off. kbind (readi dv dp off 16) (\<lambda>x. ?step x off))) ?Q s"
  proof (rule scan_entries [OF assms(1-3)])
    show "wp (?step (16, entry s dp j) (16 * j)) (\<lambda>r u. r = None \<and> same s u) t" if "j < k" "same s t" for j t
      using that assms(4) by (auto simp: entry_is_def)
    show "?Q None t" if "k = n" "same s t" for t
      using that same_fields [OF that(2)] same_file [OF that(2)] assms(6) by (simp add: icache_ok_def)
    show "wp (?step (16, entry s dp k) (16 * k)) (\<lambda>r u. r \<noteq> None \<and> ?Q r u) t" if k: "k < n" "same s t" for t
    proof -
      have m: "entry_is s dp name k" using assms(5) k(1) by simp
      have ic: "icache t = icache s" using same_file [OF k(2)] by simp
      have ir: "irefs t = irefs s" by (intro ext) (simp only: irefs_def ic)
      have ok: "icache_ok t" "\<exists>i<NINODE. i_ref (icache t i) = 0" using assms(6,7) by (simp_all add: icache_ok_def ic)
      have "wp (iget ?dev (de_inum (entry s dp k))) (\<lambda>ip. wp (kret (Some (ip, 16 * k))) (\<lambda>r u. r \<noteq> None \<and> ?Q r u)) t"
        by (rule wp_conseq [OF iget_free [OF ok]]) (use k(1) same_fields [OF k(2)] in \<open>auto simp: ir babs_def\<close>)
      then show ?thesis using m by (simp add: entry_is_def)
    qed
  qed
  moreover have "i_size (icache s dp) = 16 * n" "\<not> i_type (icache s dp) \<noteq> T_DIR" using assms(2) by (auto simp: dir_ok_def)
  ultimately show ?thesis
    by (elim wp_eqI) (simp add: dirlookup_def kbind_def kget_def dir_entries)
qed


lemma dirlookup_quiet:
  assumes "idle s" "dir_ok s dp n" "\<forall>j<n. \<not> entry_is s dp name j"
  shows "wp (dirlookup dv dp name) (\<lambda>r t. r = None \<longrightarrow> same s t) s"
proof -
  let ?step = "\<lambda>x off. case x of (r, de) \<Rightarrow> if r \<noteq> 16 then kpanic ''dirlookup read''
       else if de_inum de = 0 then kret None
       else if namecmp name (de_name de) = 0 then kbind (iget (i_dev (icache s dp)) (de_inum de)) (\<lambda>ip. kret (Some (ip, off))) else kret None"
  have "wp (kfirst (map (\<lambda>k. 16 * k) [0..<n]) (\<lambda>off. kbind (readi dv dp off 16) (\<lambda>x. ?step x off))) (\<lambda>r t. r = None \<longrightarrow> same s t) s"
    by (rule scan_entries [OF assms(1,2) order_refl]) (use assms(3) in \<open>auto simp: entry_is_def\<close>)
  moreover have "i_size (icache s dp) = 16 * n" "\<not> i_type (icache s dp) \<noteq> T_DIR" using assms(2) by (auto simp: dir_ok_def)
  ultimately show ?thesis
    by (elim wp_eqI) (simp add: dirlookup_def kbind_def kget_def dir_entries)
qed

section \<open>Adding an entry\<close>

definition new_entry :: "nat \<Rightarrow> arr \<Rightarrow> byte list" where
  "new_entry inum name = [of_nat inum, of_nat (inum div 256)] @ map (strncpy (\<lambda>_. 0) name (int DIRSIZ)) [0..<DIRSIZ]"

lemma length_new_entry [simp]: "length (new_entry inum name) = 16"
  by (simp add: new_entry_def DIRSIZ_num)

lemma new_entry_inum: "inum < 65536 \<Longrightarrow> de_inum (new_entry inum name) = inum"
  by (simp add: de_inum_def new_entry_def le16_def unat_of_nat8 del: unat_of_nat)

lemma new_entry_name: "namecmp name (de_name (new_entry inum name)) = 0"
proof -
  have "cstr DIRSIZ (de_name (new_entry inum name)) = cstr DIRSIZ (strncpy (\<lambda>_. 0) name (int DIRSIZ))"
    by (rule cstr_cong) (simp add: de_name_def new_entry_def)
  then show ?thesis by (simp add: namecmp_def strncmp_eq_iff cstr_strncpy)
qed

lemma wrote_entry:
  assumes w: "wrote s dp (16 * n) (16 * f) (new_entry inum name) t" and k: "k < n" "f < n"
  shows "entry t dp k = (if k = f then new_entry inum name else entry s dp k)"
proof (rule nth_equalityI)
  fix i
  assume "i < length (entry t dp k)"
  then have i: "i < 16" by (simp add: entry_def)
  have "fbyte t dp (16 * k + i) = (if 16 * f \<le> 16 * k + i \<and> 16 * k + i < 16 * f + 16 then new_entry inum name ! (16 * k + i - 16 * f)
      else fbyte s dp (16 * k + i))"
    using w k i by (simp add: wrote_def)
  moreover have "16 * f \<le> 16 * k + i \<and> 16 * k + i < 16 * f + 16 \<longleftrightarrow> k = f" using i by auto
  ultimately show "entry t dp k ! i = (if k = f then new_entry inum name else entry s dp k) ! i"
    using i by (simp add: entry_def)
qed (simp add: entry_def)

lemma wrote_dir:
  assumes w: "wrote s dp (16 * n) off bs t" and d: "dir_ok s dp n" "file_sep s dp (16 * n)"
  shows "dir_ok t dp n" "file_sep t dp (16 * n)" "icache t = icache s"
proof -
  have l: "lrest t = lrest s" using w by (simp add: wrote_def)
  show ic: "icache t = icache s" using lrest_fs [OF l] by simp
  have "view t (i_addrs (icache s dp) NDIRECT) = view s (i_addrs (icache s dp) NDIRECT)"
    using w indirect_outside [OF d(2)] by (simp add: wrote_def)
  then have "faddr t dp = faddr s dp" by (simp add: faddr_def ic fun_eq_iff)
  note f = txn_files [OF l this]
  show "dir_ok t dp n" "file_sep t dp (16 * n)" using d f ic by (simp_all add: dir_ok_def)
qed

lemma dirlink_ok:
  assumes s: "in_txn s" "heldblks s = {}" "dir_ok s dp n" "file_sep s dp (16 * n)"
    and nm: "\<forall>j<n. \<not> entry_is s dp name j"
    and f: "f < n" "de_inum (entry s dp f) = 0" "\<forall>j<f. de_inum (entry s dp j) \<noteq> 0"
    and ic: "icache_ok s" "\<exists>i<NINODE. i_ref (icache s i) = 0"
    and c: "card (dirtyblks s) + touched (16 * f) 16 \<le> log_limit (lrest s)"
  shows "wp (dirlink dv dp name inum) (\<lambda>r t. r = 0 \<and> (\<exists>u. same s u \<and> wrote u dp (16 * n) (16 * f) (new_entry inum name) t)) s"
proof -
  let ?Q = "\<lambda>r t. r = (0 :: int) \<and> (\<exists>u. same s u \<and> wrote u dp (16 * n) (16 * f) (new_entry inum name) t)"
  note idl = in_txn_idle [OF s(1,2)]
  have sz: "i_size (icache s dp) = 16 * n" "i_type (icache s dp) \<noteq> T_DEV" "file_ok s dp (16 * n)"
    using s(3) by (auto simp: dir_ok_def T_DIR_def T_DEV_def)
  have small: "16 * n < 2 ^ 32" using sz(3) by (simp add: file_ok_def sizes)
  have step3: "wp (kbind (writei dv dp (new_entry inum name) (16 * f)) (\<lambda>w. if w \<noteq> 16 then kpanic ''dirlink'' else kret 0)) ?Q u"
    if u: "same s u" for u
  proof -
    have tx: "in_txn u" "lrest u = lrest s" using same_txn [OF s(1) u] by auto
    note sf = same_file [OF u] and sd = same_fields [OF u]
    have "file_sep u dp (16 * n)" using s(4) tx(2) sf by (simp add: file_sep_def)
    then have "wp (writei dv dp (new_entry inum name) (16 * f)) (\<lambda>w t. w = int (length (new_entry inum name)) \<and>
        wrote u dp (i_size (icache u dp)) (16 * f) (new_entry inum name) t) u"
      using tx sf sd sz s(2) f(1) c small by (intro writei_ok) simp_all
    then show ?thesis unfolding wp_kbind by (rule wp_conseq) (use u sf sz(1) in auto)
  qed
  let ?step = "\<lambda>x off. case x of (r, de) \<Rightarrow> if r \<noteq> 16 then kpanic ''dirlink read'' else if de_inum de = 0 then kret (Some off) else kret None"
  let ?rest = "\<lambda>slot. let off = (case slot of Some off \<Rightarrow> off | None \<Rightarrow> 16 * ((16 * n + 15) div 16));
            de = [of_nat inum, of_nat (inum div 256)] @ map (strncpy (\<lambda>_. 0) name (int DIRSIZ)) [0..<DIRSIZ] in
          kbind (writei dv dp de off) (\<lambda>w. if w \<noteq> 16 then kpanic ''dirlink'' else kret 0)"
  have step2: "wp (kbind (kfirst (map (\<lambda>k. 16 * k) [0..<n]) (\<lambda>off. kbind (readi dv dp off 16) (\<lambda>x. ?step x off))) ?rest) ?Q u"
    if u: "same s u" for u
    unfolding wp_kbind [of "kfirst _ _"]
  proof (rule scan_entries [OF same_idle [OF idl u], where k = f])
    have e: "entry u dp = entry s dp" using same_file [OF u] by (simp add: entry_def fun_eq_iff)
    show "dir_ok u dp n" using s(3) same_file [OF u] by (simp add: dir_ok_def)
    show "f \<le> n" using f(1) by simp
    show "wp (?step (16, entry u dp j) (16 * j)) (\<lambda>r v. r = None \<and> same u v) t" if "j < f" "same u t" for j t
      using that f(3) by (simp add: e)
    show "wp (?step (16, entry u dp f) (16 * f)) (\<lambda>r v. r \<noteq> None \<and> wp (?rest r) ?Q v) t" if "f < n" "same u t" for t
      using step3 [OF same_trans [OF u that(2)]] f(2) by (simp add: e new_entry_def del: wp_kbind)
    show "wp (?rest None) ?Q t" if "f = n" "same u t" for t using that f(1) by simp
  qed
  have "wp (dirlookup dv dp name) (\<lambda>r u. r = None \<and> same s u) s"
  proof -
    have "wp (dirlookup dv dp name) (\<lambda>r u. r = None) s"
      by (rule wp_conseq [OF dirlookup_ok [OF idl s(3) order_refl nm _ ic]]) (auto split: option.splits)
    moreover have "wp (dirlookup dv dp name) (\<lambda>r u. r = None \<longrightarrow> same s u) s"
      by (rule dirlookup_quiet [OF idl s(3) nm])
    ultimately show ?thesis by (rule wp_conj [THEN wp_conseq]) simp
  qed
  then have "wp (kbind (dirlookup dv dp name) (\<lambda>r. case r of Some (ip, off) \<Rightarrow> kseq (iput ip) (kret (- 1))
     | None \<Rightarrow> kbind (kget (\<lambda>s. i_size (icache s dp))) (\<lambda>size.
         kbind (kfirst (map (\<lambda>k. 16 * k) [0..<(size + 15) div 16]) (\<lambda>off. kbind (readi dv dp off 16) (\<lambda>x. ?step x off)))
         (\<lambda>slot. let off = (case slot of Some off \<Rightarrow> off | None \<Rightarrow> 16 * ((size + 15) div 16));
            de = [of_nat inum, of_nat (inum div 256)] @ map (strncpy (\<lambda>_. 0) name (int DIRSIZ)) [0..<DIRSIZ] in
          kbind (writei dv dp de off) (\<lambda>w. if w \<noteq> 16 then kpanic ''dirlink'' else kret 0))))) ?Q s"
    unfolding wp_kbind [of "dirlookup dv dp name"]
  proof (rule wp_conseq)
    fix r :: "(nat \<times> nat) option" and u
    assume a: "r = None \<and> same s u"
    then have "i_size (icache u dp) = 16 * n" using same_file(1) [of s u] sz(1) by simp
    then show "wp (case r of Some (ip, off) \<Rightarrow> kseq (iput ip) (kret (- 1))
     | None \<Rightarrow> kbind (kget (\<lambda>s. i_size (icache s dp))) (\<lambda>size.
         kbind (kfirst (map (\<lambda>k. 16 * k) [0..<(size + 15) div 16]) (\<lambda>off. kbind (readi dv dp off 16) (\<lambda>x. ?step x off)))
         (\<lambda>slot. let off = (case slot of Some off \<Rightarrow> off | None \<Rightarrow> 16 * ((size + 15) div 16));
            de = [of_nat inum, of_nat (inum div 256)] @ map (strncpy (\<lambda>_. 0) name (int DIRSIZ)) [0..<DIRSIZ] in
          kbind (writei dv dp de off) (\<lambda>w. if w \<noteq> 16 then kpanic ''dirlink'' else kret 0)))) ?Q u"
      using a step2 [of u] by (simp only: option.case wp_kbind [of "kget _"] wp_kget dir_entries)
  qed
  then show ?thesis by (elim wp_eqI) (simp only: dirlink_def)
qed


section \<open>Properties of directories\<close>

text \<open>A directory with one used entry (inode 5, name \<open>a\<close>) and one free entry.\<close>

definition name_a :: arr where "name_a = (\<lambda>i. if i = 0 then 97 else 0)"
definition name_b :: arr where "name_b = (\<lambda>i. if i = 0 then 98 else 0)"

definition demo_dir :: fstate where
  "demo_dir = cold_fs (fs_disk(100 := put_bytes 0 (new_entry 5 name_a) zero_block))
     (\<lambda>i. if i = 0 then demo_inode\<lparr>i_type := T_DIR, i_inum := 1, i_size := 32\<rparr> else demo_inode\<lparr>i_ref := 0\<rparr>)"

lemma demo_dir_txn: "in_txn demo_dir" "heldblks demo_dir = {}" "dirtyblks demo_dir = {}" "log_limit (lrest demo_dir) = 29"
  unfolding demo_dir_def
  by (rule cold_fs_txn) (simp_all add: cold_fs_sel cold_fs_rest fs_disk_def, simp add: demo_disk_def)

lemma demo_dir_icache: "icache_ok demo_dir" "\<exists>i<NINODE. i_ref (icache demo_dir i) = 0" "i_dev (icache demo_dir 0) = 1"
proof -
  have "1 < NINODE" "i_ref (icache demo_dir 1) = 0" by (simp_all add: demo_dir_def cold_fs_sel NINODE_num)
  then show "\<exists>i<NINODE. i_ref (icache demo_dir i) = 0" by blast
qed (auto simp: icache_ok_def demo_dir_def cold_fs_sel demo_inode_def)

lemma demo_dir_ok: "dir_ok demo_dir 0 2" "file_sep demo_dir 0 (16 * 2)"
proof -
  have f: "faddr demo_dir 0 0 = 100" by (simp add: faddr_def demo_dir_def cold_fs_sel demo_inode_def sizes)
  have one: "bn * BSIZE < 16 * 2 \<longleftrightarrow> bn = 0" for bn :: nat by (cases bn) (auto simp: BSIZE_num)
  have i: "icache demo_dir 0 = demo_inode\<lparr>i_type := T_DIR, i_inum := 1, i_size := 32\<rparr>" "disksize demo_dir = 1000"
    by (simp_all add: demo_dir_def cold_fs_sel)
  have "file_ok demo_dir 0 (16 * 2)" unfolding file_ok_def one i using f by (simp add: demo_inode_def sizes)
  then show "dir_ok demo_dir 0 2" by (simp add: dir_ok_def i)
  have "loggable (lrest demo_dir) 100" by (simp add: demo_dir_def cold_fs_rest)
  then show "file_sep demo_dir 0 (16 * 2)" using f unfolding file_sep_def one i by (simp add: demo_inode_def sizes)
qed

lemma demo_dir_byte: "off < 32 \<Longrightarrow> fbyte demo_dir 0 off = (if off < 16 then new_entry 5 name_a ! off else 0)"
proof -
  assume "off < 32"
  then have d: "off div BSIZE = 0" "off mod BSIZE = off" "off < BSIZE" by (simp_all add: BSIZE_num)
  have "faddr demo_dir 0 0 = 100" by (simp add: faddr_def demo_dir_def cold_fs_sel demo_inode_def sizes)
  then have "fbyte demo_dir 0 off = rd (put_bytes 0 (new_entry 5 name_a) zero_block) off"
    by (simp add: fbyte_def d demo_dir_def cold_fs_sel)
  then show ?thesis using d(3) by (simp add: put_bytes_def)
qed

lemma demo_dir_entries: "entry demo_dir 0 0 = new_entry 5 name_a" "de_inum (entry demo_dir 0 1) = 0"
proof -
  show "entry demo_dir 0 0 = new_entry 5 name_a"
    unfolding entry_def by (intro nth_equalityI) (simp_all add: demo_dir_byte)
  show "de_inum (entry demo_dir 0 1) = 0"
    by (simp add: de_inum_def le16_def entry_def demo_dir_byte)
qed

lemma name_b_absent: "\<not> entry_is demo_dir 0 name_b j" if "j < 2"
proof -
  have "cstr DIRSIZ (de_name (new_entry 5 name_a)) = cstr DIRSIZ name_a"
    using new_entry_name [of name_a 5] by (simp add: namecmp_def strncmp_eq_iff)
  moreover have "cstr DIRSIZ name_a \<noteq> cstr DIRSIZ name_b"
  proof -
    have "cstr (Suc 13) name_a \<noteq> cstr (Suc 13) name_b"
      unfolding cstr_Suc by (simp add: name_a_def name_b_def)
    then show ?thesis by (simp add: DIRSIZ_num)
  qed
  ultimately have "\<not> entry_is demo_dir 0 name_b 0"
    by (simp add: entry_is_def demo_dir_entries namecmp_def strncmp_eq_iff)
  moreover have "\<not> entry_is demo_dir 0 name_b 1" using demo_dir_entries(2) by (simp add: entry_is_def)
  moreover have "j = 0 \<or> j = 1" using that by linarith
  ultimately show ?thesis by metis
qed

text \<open>
  Directory lookup finds the first entry with the given name. When entry \<open>k\<close> is the first
  used entry whose name compares equal, \<open>dirlookup\<close> returns a reference to exactly that
  entry's inode, and its offset; when no entry matches it returns null. Directory, disk and
  all other reference counts are unchanged.
\<close>

theorem dirlookup_first_match:
  assumes "idle s" "dir_ok s dp n" "k \<le> n" "\<forall>j<k. \<not> entry_is s dp name j" "k < n \<longrightarrow> entry_is s dp name k"
    and "icache_ok s" "\<exists>i<NINODE. i_ref (icache s i) = 0"
  shows "wp (dirlookup dv dp name) (\<lambda>r t. view t = view s \<and> disk t = disk s \<and> icache_ok t \<and>
     (case r of None \<Rightarrow> k = n \<and> icache t = icache s
      | Some (ip, off) \<Rightarrow> k < n \<and> off = 16 * k \<and> ip < NINODE \<and> i_dev (icache t ip) = i_dev (icache s dp) \<and>
          i_inum (icache t ip) = de_inum (entry s dp k) \<and>
          (\<forall>d m. irefs t d m = irefs s d m + (if d = i_dev (icache s dp) \<and> m = de_inum (entry s dp k) then 1 else 0)))) s"
  using assms by (rule dirlookup_ok)

theorem dirlookup_first_match_witness:
  "\<forall>dv. wp (dirlookup dv 0 name_a) (\<lambda>r t. view t = view demo_dir \<and> disk t = disk demo_dir \<and> icache_ok t \<and>
     (case r of None \<Rightarrow> 0 = (2::nat) \<and> icache t = icache demo_dir
      | Some (ip, off) \<Rightarrow> 0 < (2::nat) \<and> off = 16 * 0 \<and> ip < NINODE \<and> i_dev (icache t ip) = i_dev (icache demo_dir 0) \<and>
          i_inum (icache t ip) = de_inum (entry demo_dir 0 0) \<and>
          (\<forall>d m. irefs t d m = irefs demo_dir d m + (if d = i_dev (icache demo_dir 0) \<and> m = de_inum (entry demo_dir 0 0) then 1 else 0)))) demo_dir \<and>
     de_inum (entry demo_dir 0 0) = 5"
proof (intro allI conjI)
  have e: "entry_is demo_dir 0 name_a 0"
    using new_entry_name new_entry_inum [of 5] by (simp add: entry_is_def demo_dir_entries)
  show "wp (dirlookup dv 0 name_a) (\<lambda>r t. view t = view demo_dir \<and> disk t = disk demo_dir \<and> icache_ok t \<and>
     (case r of None \<Rightarrow> 0 = (2::nat) \<and> icache t = icache demo_dir
      | Some (ip, off) \<Rightarrow> 0 < (2::nat) \<and> off = 16 * 0 \<and> ip < NINODE \<and> i_dev (icache t ip) = i_dev (icache demo_dir 0) \<and>
          i_inum (icache t ip) = de_inum (entry demo_dir 0 0) \<and>
          (\<forall>d m. irefs t d m = irefs demo_dir d m + (if d = i_dev (icache demo_dir 0) \<and> m = de_inum (entry demo_dir 0 0) then 1 else 0)))) demo_dir" for dv
    using e by (intro dirlookup_first_match [OF in_txn_idle [OF demo_dir_txn(1,2)] demo_dir_ok(1)] demo_dir_icache) simp_all
  show "de_inum (entry demo_dir 0 0) = 5" using new_entry_inum [of 5] by (simp add: demo_dir_entries)
qed

text \<open>
  C10: Linking a name makes it findable. In a directory that has a free entry and no entry of that
  name, \<open>dirlink\<close> succeeds; a \<open>dirlookup\<close> of the name afterwards returns the linked inode number
  at the position of the first free entry, and all other entries are unchanged.
\<close>

theorem dirlink_then_lookup:
  assumes s: "in_txn s" "heldblks s = {}" "dir_ok s dp n" "file_sep s dp (16 * n)"
    and nm: "\<forall>j<n. \<not> entry_is s dp name j"
    and f: "f < n" "de_inum (entry s dp f) = 0" "\<forall>j<f. de_inum (entry s dp j) \<noteq> 0"
    and ic: "icache_ok s" "\<exists>i<NINODE. i_ref (icache s i) = 0"
    and c: "card (dirtyblks s) + touched (16 * f) 16 \<le> log_limit (lrest s)" and i: "0 < inum" "inum < 65536"
  shows "wp (kbind (dirlink dv dp name inum) (\<lambda>r. kbind (kget (\<lambda>t. entry t dp)) (\<lambda>e.
         kbind (dirlookup dv dp name) (\<lambda>x. kret (r, e, x)))))
     (\<lambda>(r, e, x) t. r = 0 \<and> (\<forall>j<n. j \<noteq> f \<longrightarrow> e j = entry s dp j) \<and>
        (\<exists>ip. x = Some (ip, 16 * f) \<and> i_inum (icache t ip) = inum \<and> i_dev (icache t ip) = i_dev (icache s dp))) s"
    (is "wp _ ?P s")
  unfolding wp_kbind [of "dirlink dv dp name inum"]
proof (rule wp_conseq [OF dirlink_ok [OF s nm f ic c]], elim conjE exE)
  fix r :: int and t u
  assume r: "r = 0" and u: "same s u" and w: "wrote u dp (16 * n) (16 * f) (new_entry inum name) t"
  note sf = same_file [OF u]
  have eu: "entry u dp = entry s dp" using sf by (simp add: entry_def fun_eq_iff)
  have tu: "lrest u = lrest s" using same_txn [OF s(1) u] by simp
  have du: "dir_ok u dp n" "file_sep u dp (16 * n)" using s(3,4) sf tu by (simp_all add: dir_ok_def file_sep_def)
  note d = wrote_dir [OF w du]
  have ent: "entry t dp k = (if k = f then new_entry inum name else entry s dp k)" if "k < n" for k
    using wrote_entry [OF w that f(1)] eu by simp
  have first: "\<forall>j<f. \<not> entry_is t dp name j" "f < n \<longrightarrow> entry_is t dp name f"
    using nm ent f(1) new_entry_name [of name inum] new_entry_inum [OF i(2), of name] i(1) by (auto simp: entry_is_def)
  have icache: "icache t = icache s" using d(3) sf by simp
  have ict: "icache_ok t" "\<exists>i<NINODE. i_ref (icache t i) = 0" using ic by (simp_all add: icache_ok_def icache)
  have idl: "idle t" using w by (intro in_txn_idle) (auto simp: wrote_def)
  have "wp (dirlookup dv dp name) (\<lambda>x. wp (kret (r, entry t dp, x)) ?P) t"
    by (rule wp_conseq [OF dirlookup_ok [OF idl d(1) less_imp_le [OF f(1)] first ict]])
      (use r f(1) ent new_entry_inum [OF i(2), of name] icache in \<open>auto split: option.splits\<close>)
  then show "wp (kbind (kget (\<lambda>t. entry t dp)) (\<lambda>e. kbind (dirlookup dv dp name) (\<lambda>x. kret (r, e, x)))) ?P t" by simp
qed

theorem dirlink_then_lookup_witness:
  "\<forall>dv. wp (kbind (dirlink dv 0 name_b 9) (\<lambda>r. kbind (kget (\<lambda>t. entry t 0)) (\<lambda>e.
         kbind (dirlookup dv 0 name_b) (\<lambda>x. kret (r, e, x)))))
     (\<lambda>(r, e, x) t. r = 0 \<and> (\<forall>j<2. j \<noteq> 1 \<longrightarrow> e j = entry demo_dir 0 j) \<and>
        (\<exists>ip. x = Some (ip, 16 * 1) \<and> i_inum (icache t ip) = 9 \<and> i_dev (icache t ip) = i_dev (icache demo_dir 0))) demo_dir"
proof (rule allI, rule dirlink_then_lookup [OF demo_dir_txn(1,2) demo_dir_ok _ _ _ _ demo_dir_icache(1,2)])
  show "\<forall>j<2. \<not> entry_is demo_dir 0 name_b j" using name_b_absent by blast
  show "\<forall>j<1. de_inum (entry demo_dir 0 j) \<noteq> 0" using new_entry_inum [of 5] by (simp add: demo_dir_entries)
  show "card (dirtyblks demo_dir) + touched (16 * 1) 16 \<le> log_limit (lrest demo_dir)"
    by (simp add: demo_dir_txn(3,4) touched_def BSIZE_num)
qed (use demo_dir_entries(2) in simp_all)

end
