(* ===== verification/Spinlock.thy ===== *)
theory Spinlock
  imports Kstring
begin

text \<open>
  Spin locks and interrupt nesting (\<^verbatim>\<open>spinlock.c\<close>, \<^verbatim>\<open>mycpu\<close> of \<^verbatim>\<open>proc.c\<close>). The machine state
  has the memory, the per-CPU structures, the interrupt flag of every processor (indexed by its
  LAPIC id) and the locks; \<open>lapicid\<close> is the identity of the processor that executes, \<open>frame\<close> the
  stack address of the argument of the running function. A lock is named by its address. Spinning on a lock that another processor holds is the outcome
  \<open>Sleep (ChanSpin lk)\<close>: the function goes on only after another processor has run.

  The second half refines this to single memory accesses: a step relation in which any number
  of processors execute \<^verbatim>\<open>acquire\<close> and \<^verbatim>\<open>release\<close> interleaved, with mutual exclusion proved
  by rule induction.
\<close>

section \<open>State\<close>

definition KERNBASE :: nat where "KERNBASE = 0x80000000"

lemma KERNBASE_num: "KERNBASE = 2147483648"
  by (simp add: KERNBASE_def)

record cpu =
  c_apicid :: nat
  c_ncli :: int
  c_intena :: bool
  c_proc :: "nat option"

record spinlock =
  lk_locked :: nat
  lk_cpu :: "nat option"
  lk_pcs :: "nat list"

record mach =
  mem :: "nat \<Rightarrow> byte"
  cpus :: "nat \<Rightarrow> cpu"
  ncpu :: nat
  lapicid :: nat
  frame :: nat
  intr :: "nat \<Rightarrow> bool"
  locks :: "nat \<Rightarrow> spinlock"

definition setcpu :: "nat \<Rightarrow> (cpu \<Rightarrow> cpu) \<Rightarrow> 'x mach_scheme \<Rightarrow> 'x mach_scheme" where
  "setcpu i f s = s\<lparr>cpus := (cpus s)(i := f (cpus s i))\<rparr>"

definition setlock :: "nat \<Rightarrow> (spinlock \<Rightarrow> spinlock) \<Rightarrow> 'x mach_scheme \<Rightarrow> 'x mach_scheme" where
  "setlock lk f s = s\<lparr>locks := (locks s)(lk := f (locks s lk))\<rparr>"

section \<open>Operations\<close>

text \<open>\<^verbatim>\<open>readeflags() & FL_IF\<close>, \<^verbatim>\<open>cli\<close> and \<^verbatim>\<open>sti\<close> on the executing processor.\<close>

definition readIF :: "('x mach_scheme, bool) kmon" where
  "readIF = kget (\<lambda>s. intr s (lapicid s))"

definition cli :: "('x mach_scheme, unit) kmon" where
  "cli = kmod (\<lambda>s. s\<lparr>intr := (intr s)(lapicid s := False)\<rparr>)"

definition sti :: "('x mach_scheme, unit) kmon" where
  "sti = kmod (\<lambda>s. s\<lparr>intr := (intr s)(lapicid s := True)\<rparr>)"

definition mycpu :: "('x mach_scheme, nat) kmon" where
  "mycpu = kbind readIF (\<lambda>fl. if fl then kpanic ''mycpu called with interrupts enabled'' else
     kbind (kget (\<lambda>s. find (\<lambda>i. c_apicid (cpus s i) = lapicid s) [0..<ncpu s]))
       (\<lambda>r. case r of Some i \<Rightarrow> kret i | None \<Rightarrow> kpanic ''unknown apicid''))"

definition initlock :: "nat \<Rightarrow> ('x mach_scheme, unit) kmon" where
  "initlock lk = kmod (setlock lk (\<lambda>l. l\<lparr>lk_locked := 0, lk_cpu := None\<rparr>))"

definition pushcli :: "('x mach_scheme, unit) kmon" where
  "pushcli = kbind readIF (\<lambda>fl. kseq cli (kbind mycpu (\<lambda>i. kbind (kget (\<lambda>s. c_ncli (cpus s i))) (\<lambda>n.
     kseq (if n = 0 then kmod (setcpu i (\<lambda>c. c\<lparr>c_intena := fl\<rparr>)) else kret ())
       (kmod (setcpu i (\<lambda>c. c\<lparr>c_ncli := c_ncli c + 1\<rparr>)))))))"

definition popcli :: "('x mach_scheme, unit) kmon" where
  "popcli = kbind readIF (\<lambda>fl. if fl then kpanic ''popcli - interruptible'' else
     kbind mycpu (\<lambda>i. kseq (kmod (setcpu i (\<lambda>c. c\<lparr>c_ncli := c_ncli c - 1\<rparr>)))
       (kbind (kget (\<lambda>s. cpus s i)) (\<lambda>c. if c_ncli c < 0 then kpanic ''popcli''
          else if c_ncli c = 0 \<and> c_intena c then sti else kret ()))))"

definition holding :: "nat \<Rightarrow> ('x mach_scheme, bool) kmon" where
  "holding lk = kseq pushcli (kbind mycpu (\<lambda>i.
     kbind (kget (\<lambda>s. lk_locked (locks s lk) \<noteq> 0 \<and> lk_cpu (locks s lk) = Some i)) (\<lambda>r. kseq popcli (kret r))))"

text \<open>
  \<open>getcallerpcs m v\<close> follows the chain of frame pointers from \<^verbatim>\<open>(uint*)v - 2\<close> for at most ten
  frames; the rest of the array is zero.
\<close>

primrec walk_frames :: "nat \<Rightarrow> (nat \<Rightarrow> byte) \<Rightarrow> nat \<Rightarrow> nat list" where
  "walk_frames 0 m ebp = []"
| "walk_frames (Suc k) m ebp = (if ebp = 0 \<or> ebp < KERNBASE \<or> ebp = 0xffffffff then replicate (Suc k) 0
     else le32 m (u32 (ebp + 4)) # walk_frames k m (le32 m ebp))"

definition getcallerpcs :: "(nat \<Rightarrow> byte) \<Rightarrow> nat \<Rightarrow> nat list" where
  "getcallerpcs m v = walk_frames 10 m (u32 (v + (2 ^ 32 - 8)))"

text \<open>\<open>frame\<close> is \<^verbatim>\<open>&lk\<close>, the address of the parameter on the caller's stack.\<close>

definition acquire :: "nat \<Rightarrow> ('x mach_scheme, unit) kmon" where
  "acquire lk = kseq pushcli (kbind (holding lk) (\<lambda>h. if h then kpanic ''acquire'' else
     kbind (kget (\<lambda>s. lk_locked (locks s lk))) (\<lambda>old.
       kseq (kmod (setlock lk (\<lambda>l. l\<lparr>lk_locked := 1\<rparr>)))
         (if old \<noteq> 0 then ksleep (ChanSpin lk) else
           kbind mycpu (\<lambda>i. kseq (kmod (setlock lk (\<lambda>l. l\<lparr>lk_cpu := Some i\<rparr>)))
             (kmod (\<lambda>s. setlock lk (\<lambda>l. l\<lparr>lk_pcs := getcallerpcs (mem s) (frame s)\<rparr>) s)))))))"

definition release :: "nat \<Rightarrow> ('x mach_scheme, unit) kmon" where
  "release lk = kbind (holding lk) (\<lambda>h. if \<not> h then kpanic ''release'' else
     kseq (kmod (setlock lk (\<lambda>l. l\<lparr>lk_pcs := (lk_pcs l)[0 := 0], lk_cpu := None\<rparr>)))
       (kseq (kmod (setlock lk (\<lambda>l. l\<lparr>lk_locked := 0\<rparr>))) popcli))"

section \<open>What the operations do\<close>

text \<open>
  \<open>cpu_is s i\<close>: the executing processor is found as \<^verbatim>\<open>cpus[i]\<close>. \<open>cli_ok s i\<close>: its nesting depth
  is not negative, and inside a nest interrupts are off.
\<close>

definition cpu_is :: "'x mach_scheme \<Rightarrow> nat \<Rightarrow> bool" where
  "cpu_is s i \<longleftrightarrow> find (\<lambda>i. c_apicid (cpus s i) = lapicid s) [0..<ncpu s] = Some i"

definition cli_ok :: "'x mach_scheme \<Rightarrow> nat \<Rightarrow> bool" where
  "cli_ok s i \<longleftrightarrow> cpu_is s i \<and> 0 \<le> c_ncli (cpus s i) \<and> (0 < c_ncli (cpus s i) \<longrightarrow> \<not> intr s (lapicid s))"

definition pushed :: "nat \<Rightarrow> 'x mach_scheme \<Rightarrow> 'x mach_scheme" where
  "pushed i s = (setcpu i (\<lambda>c. c\<lparr>c_intena := if c_ncli c = 0 then intr s (lapicid s) else c_intena c, c_ncli := c_ncli c + 1\<rparr>) s)
     \<lparr>intr := (intr s)(lapicid s := False)\<rparr>"

text \<open>The state after a matched pair: only the remembered flag of an outermost nest has changed.\<close>

definition noted :: "nat \<Rightarrow> 'x mach_scheme \<Rightarrow> 'x mach_scheme" where
  "noted i s = setcpu i (\<lambda>c. c\<lparr>c_intena := if c_ncli c = 0 then intr s (lapicid s) else c_intena c\<rparr>) s"

definition held_by :: "'x mach_scheme \<Rightarrow> nat \<Rightarrow> nat \<Rightarrow> bool" where
  "held_by s lk i \<longleftrightarrow> lk_locked (locks s lk) \<noteq> 0 \<and> lk_cpu (locks s lk) = Some i"

text \<open>The lock entries \<open>acquire\<close> and \<open>release\<close> leave.\<close>

definition taken :: "nat \<Rightarrow> nat list \<Rightarrow> spinlock \<Rightarrow> spinlock" where
  "taken i pcs l = l\<lparr>lk_locked := 1, lk_cpu := Some i, lk_pcs := pcs\<rparr>"

definition freed :: "spinlock \<Rightarrow> spinlock" where
  "freed l = l\<lparr>lk_pcs := (lk_pcs l)[0 := 0], lk_cpu := None, lk_locked := 0\<rparr>"

lemma setcpu_sel [simp]:
  "cpus (setcpu i f s) = (cpus s)(i := f (cpus s i))" "mem (setcpu i f s) = mem s" "ncpu (setcpu i f s) = ncpu s"
  "lapicid (setcpu i f s) = lapicid s" "frame (setcpu i f s) = frame s" "intr (setcpu i f s) = intr s" "locks (setcpu i f s) = locks s"
  by (simp_all add: setcpu_def)

lemma setlock_sel [simp]:
  "cpus (setlock lk f s) = cpus s" "mem (setlock lk f s) = mem s" "ncpu (setlock lk f s) = ncpu s"
  "lapicid (setlock lk f s) = lapicid s" "frame (setlock lk f s) = frame s" "intr (setlock lk f s) = intr s"
  "locks (setlock lk f s) = (locks s)(lk := f (locks s lk))"
  by (simp_all add: setlock_def)

lemma setlock_setlock [simp]: "setlock lk f (setlock lk g s) = setlock lk (\<lambda>l. f (g l)) s"
  by (simp add: setlock_def)

lemma cpu_is_cong: "lapicid t = lapicid s \<Longrightarrow> ncpu t = ncpu s \<Longrightarrow> (\<And>j. c_apicid (cpus t j) = c_apicid (cpus s j)) \<Longrightarrow>
    cpu_is t i = cpu_is s i"
  by (simp add: cpu_is_def)

lemma cpu_is_setlock [simp]: "cpu_is (setlock lk f s) i = cpu_is s i"
  by (rule cpu_is_cong) simp_all

lemma pushed_sel [simp]:
  "intr (pushed i s) = (intr s)(lapicid s := False)" "lapicid (pushed i s) = lapicid s" "frame (pushed i s) = frame s" "mem (pushed i s) = mem s"
  "locks (pushed i s) = locks s" "ncpu (pushed i s) = ncpu s"
  by (simp_all add: pushed_def)

lemma pushed_cpu: "cpus (pushed i s) = (cpus s)(i := (cpus s i)\<lparr>c_intena := if c_ncli (cpus s i) = 0 then intr s (lapicid s) else c_intena (cpus s i),
    c_ncli := c_ncli (cpus s i) + 1\<rparr>)"
  by (simp add: pushed_def)

lemma cpu_is_pushed [simp]: "cpu_is (pushed j s) i = cpu_is s i"
  by (rule cpu_is_cong) (auto simp: pushed_cpu)

lemma noted_sel [simp]:
  "intr (noted i s) = intr s" "lapicid (noted i s) = lapicid s" "frame (noted i s) = frame s" "mem (noted i s) = mem s"
  "locks (noted i s) = locks s" "ncpu (noted i s) = ncpu s" "c_ncli (cpus (noted i s) j) = c_ncli (cpus s j)"
  by (simp_all add: noted_def)

lemma cli_ok_cong: "lapicid t = lapicid s \<Longrightarrow> ncpu t = ncpu s \<Longrightarrow> intr t = intr s \<Longrightarrow>
    (\<And>j. c_apicid (cpus t j) = c_apicid (cpus s j) \<and> c_ncli (cpus t j) = c_ncli (cpus s j)) \<Longrightarrow> cli_ok t i = cli_ok s i"
  using cpu_is_cong [of t s i] by (simp add: cli_ok_def)

lemma cli_ok_setlock [simp]: "cli_ok (setlock lk f s) i = cli_ok s i"
  by (rule cli_ok_cong) simp_all

lemma cli_ok_noted [simp]: "cli_ok (noted j s) i = cli_ok s i"
  by (rule cli_ok_cong) (auto simp: noted_def)

lemma cli_ok_pushed: "cli_ok s i \<Longrightarrow> cli_ok (pushed i s) i"
  by (simp add: cli_ok_def pushed_cpu)

lemma noted_nest: "c_ncli (cpus s i) \<noteq> 0 \<Longrightarrow> noted i s = s"
  by (simp add: noted_def setcpu_def)

lemma noted_pushed [simp]: "0 \<le> c_ncli (cpus s i) \<Longrightarrow> noted i (pushed i s) = pushed i s"
  by (rule noted_nest) (simp add: pushed_cpu)

lemma pushed_setlock: "pushed i (setlock lk f s) = setlock lk f (pushed i s)"
  by (simp add: pushed_def setcpu_def setlock_def)

lemma noted_setlock: "noted i (setlock lk f s) = setlock lk f (noted i s)"
  by (simp add: noted_def setcpu_def setlock_def)

lemma mycpu_eq: "cpu_is s i \<Longrightarrow> \<not> intr s (lapicid s) \<Longrightarrow> mycpu s = Done i s"
  by (simp add: mycpu_def readIF_def kernel_defs cpu_is_def)

lemma pushcli_eq: "cpu_is s i \<Longrightarrow> pushcli s = Done () (pushed i s)"
proof -
  assume "cpu_is s i"
  then have "mycpu (s\<lparr>intr := (intr s)(lapicid s := False)\<rparr>) = Done i (s\<lparr>intr := (intr s)(lapicid s := False)\<rparr>)"
    by (intro mycpu_eq) (simp_all add: cpu_is_def)
  then show ?thesis by (simp add: pushcli_def readIF_def cli_def kernel_defs pushed_def setcpu_def)
qed

lemma popcli_pushed: "cli_ok s i \<Longrightarrow> popcli (pushed i s) = Done () (noted i s)"
proof -
  assume a: "cli_ok s i"
  then have "mycpu (pushed i s) = Done i (pushed i s)" by (intro mycpu_eq) (simp_all add: cli_ok_def)
  moreover have "(intr s)(lapicid s := intr s (lapicid s)) = intr s" by simp
  ultimately show ?thesis using a
    by (cases "intr s (lapicid s)") (auto simp: popcli_def readIF_def sti_def kernel_defs pushed_def noted_def setcpu_def cli_ok_def fun_upd_idem)
qed

lemma holding_eq: "cli_ok s i \<Longrightarrow> holding lk s = Done (held_by s lk i) (noted i s)"
proof -
  assume a: "cli_ok s i"
  then have "mycpu (pushed i s) = Done i (pushed i s)" by (intro mycpu_eq) (simp_all add: cli_ok_def)
  then show ?thesis using a popcli_pushed [OF a] pushcli_eq [of s i]
    by (simp add: holding_def kernel_defs held_by_def cli_ok_def)
qed

lemma acquire_eq:
  assumes a: "cli_ok s i" and l: "lk_locked (locks s lk) = 0"
  shows "acquire lk s = Done () (setlock lk (taken i (getcallerpcs (mem s) (frame s))) (pushed i s))"
proof -
  have h: "holding lk (pushed i s) = Done False (pushed i s)"
    using holding_eq [OF cli_ok_pushed [OF a], of lk] a l by (simp add: held_by_def cli_ok_def)
  let ?t = "setlock lk (\<lambda>l. l\<lparr>lk_locked := 1\<rparr>) (pushed i s)"
  have "mycpu ?t = Done i ?t" using a by (intro mycpu_eq) (simp_all add: cli_ok_def)
  then show ?thesis using h l a pushcli_eq [of s i] by (simp add: acquire_def kernel_defs cli_ok_def taken_def [abs_def])
qed

lemma acquire_panics: "cli_ok s i \<Longrightarrow> held_by s lk i \<Longrightarrow> acquire lk s = Panic ''acquire''"
  using holding_eq [OF cli_ok_pushed, of s i lk] pushcli_eq [of s i]
  by (simp add: acquire_def kernel_defs cli_ok_def held_by_def)

lemma acquire_spins: "cli_ok s i \<Longrightarrow> lk_locked (locks s lk) \<noteq> 0 \<Longrightarrow> lk_cpu (locks s lk) \<noteq> Some i \<Longrightarrow>
    \<exists>t. acquire lk s = Sleep (ChanSpin lk) t"
  using holding_eq [OF cli_ok_pushed, of s i lk] pushcli_eq [of s i]
  by (simp add: acquire_def kernel_defs cli_ok_def held_by_def)

lemma release_panics: "cli_ok s i \<Longrightarrow> \<not> held_by s lk i \<Longrightarrow> release lk s = Panic ''release''"
  using holding_eq [of s i lk] by (simp add: release_def kernel_defs)

lemma release_eq:
  assumes a: "cli_ok s i" and h: "held_by s lk i"
  shows "release lk (pushed i s) = Done () (setlock lk freed (noted i s))"
proof -
  have "holding lk (pushed i s) = Done True (pushed i s)"
    using holding_eq [OF cli_ok_pushed [OF a], of lk] a h by (simp add: held_by_def cli_ok_def)
  moreover have "popcli (setlock lk freed (pushed i s)) = Done () (setlock lk freed (noted i s))"
    using popcli_pushed [of "setlock lk freed s" i] a by (simp add: pushed_setlock noted_setlock)
  ultimately show ?thesis by (simp add: release_def kernel_defs freed_def [abs_def])
qed

lemma acquire_release_eq:
  assumes "cli_ok s i" "lk_locked (locks s lk) = 0"
  shows "kseq (acquire lk) (release lk) s = Done () (setlock lk (\<lambda>l. freed (taken i (getcallerpcs (mem s) (frame s)) l)) (noted i s))"
  using acquire_eq [OF assms] release_eq [of "setlock lk (taken i (getcallerpcs (mem s) (frame s))) s" i lk] assms(1)
  by (simp add: kseq_def kbind_def pushed_setlock noted_setlock held_by_def taken_def)

section \<open>Interleaved processors\<close>

text \<open>
  One lock and any number of processors, each executing \<^verbatim>\<open>acquire\<close> or \<^verbatim>\<open>release\<close> one memory
  access at a time. \<open>Outside\<close>: not in the lock's code. \<open>Spin\<close>: in the \<^verbatim>\<open>xchg\<close> loop. \<open>Won\<close>: the
  exchange returned 0, the holder is not yet recorded. \<open>Crit\<close>: between \<^verbatim>\<open>acquire\<close> and
  \<^verbatim>\<open>release\<close>. \<open>Leaving\<close>: the holder is cleared, the lock word is still 1. The two checks that
  panic are steps to \<open>l_panic\<close>.
\<close>

datatype lpc = Outside | Spin | Won | Crit | Leaving

record lk_sys =
  l_locked :: nat
  l_cpu :: "nat option"
  l_pc :: "nat \<Rightarrow> lpc"
  l_panic :: bool

definition l_holding :: "lk_sys \<Rightarrow> nat \<Rightarrow> bool" where
  "l_holding s c \<longleftrightarrow> l_locked s \<noteq> 0 \<and> l_cpu s = Some c"

inductive lk_step :: "lk_sys \<Rightarrow> lk_sys \<Rightarrow> bool" where
  enter: "l_pc s c = Outside \<Longrightarrow> \<not> l_holding s c \<Longrightarrow> lk_step s (s\<lparr>l_pc := (l_pc s)(c := Spin)\<rparr>)"
| enter_panic: "l_pc s c = Outside \<Longrightarrow> l_holding s c \<Longrightarrow> lk_step s (s\<lparr>l_panic := True\<rparr>)"
| xchg_busy: "l_pc s c = Spin \<Longrightarrow> l_locked s \<noteq> 0 \<Longrightarrow> lk_step s (s\<lparr>l_locked := 1\<rparr>)"
| xchg_free: "l_pc s c = Spin \<Longrightarrow> l_locked s = 0 \<Longrightarrow> lk_step s (s\<lparr>l_locked := 1, l_pc := (l_pc s)(c := Won)\<rparr>)"
| note_holder: "l_pc s c = Won \<Longrightarrow> lk_step s (s\<lparr>l_cpu := Some c, l_pc := (l_pc s)(c := Crit)\<rparr>)"
| leave: "l_pc s c = Crit \<Longrightarrow> l_holding s c \<Longrightarrow> lk_step s (s\<lparr>l_cpu := None, l_pc := (l_pc s)(c := Leaving)\<rparr>)"
| leave_panic: "l_pc s c = Crit \<Longrightarrow> \<not> l_holding s c \<Longrightarrow> lk_step s (s\<lparr>l_panic := True\<rparr>)"
| unlock: "l_pc s c = Leaving \<Longrightarrow> lk_step s (s\<lparr>l_locked := 0, l_pc := (l_pc s)(c := Outside)\<rparr>)"

definition lk_start :: lk_sys where
  "lk_start = \<lparr>l_locked = 0, l_cpu = None, l_pc = \<lambda>_. Outside, l_panic = False\<rparr>"

text \<open>\<open>l_inside s c\<close>: processor \<open>c\<close> owns the lock word.\<close>

definition l_inside :: "lk_sys \<Rightarrow> nat \<Rightarrow> bool" where
  "l_inside s c \<longleftrightarrow> l_pc s c \<in> {Won, Crit, Leaving}"

definition lk_inv :: "lk_sys \<Rightarrow> bool" where
  "lk_inv s \<longleftrightarrow> \<not> l_panic s \<and> (\<forall>c d. l_inside s c \<longrightarrow> l_inside s d \<longrightarrow> c = d) \<and>
     (l_locked s \<noteq> 0 \<longleftrightarrow> (\<exists>c. l_inside s c)) \<and> (\<forall>c. l_cpu s = Some c \<longleftrightarrow> l_pc s c = Crit)"

lemma lk_inv_step: "lk_step s t \<Longrightarrow> lk_inv s \<Longrightarrow> lk_inv t"
proof (induction rule: lk_step.induct)
  case (enter s c)
  then have "l_inside (s\<lparr>l_pc := (l_pc s)(c := Spin)\<rparr>) = l_inside s" by (auto simp: l_inside_def fun_eq_iff)
  with enter show ?case by (auto simp: lk_inv_def)
next
  case (enter_panic s c)
  then have "l_pc s c = Crit" unfolding lk_inv_def l_holding_def by metis
  with enter_panic show ?case by simp
next
  case (xchg_busy s c)
  have "l_inside (s\<lparr>l_locked := 1\<rparr>) = l_inside s" by (simp add: l_inside_def fun_eq_iff)
  with xchg_busy show ?case by (auto simp: lk_inv_def)
next
  case (xchg_free s c)
  then have "l_inside (s\<lparr>l_locked := 1, l_pc := (l_pc s)(c := Won)\<rparr>) = (\<lambda>d. d = c)" by (auto simp: lk_inv_def l_inside_def fun_eq_iff)
  with xchg_free show ?case by (auto simp: lk_inv_def)
next
  case (note_holder s c)
  then have c: "l_inside s c" by (simp add: l_inside_def)
  have "l_inside (s\<lparr>l_cpu := Some c, l_pc := (l_pc s)(c := Crit)\<rparr>) = l_inside s" using c by (auto simp: l_inside_def fun_eq_iff)
  moreover have "l_pc s d \<noteq> Crit" if "d \<noteq> c" for d
    using note_holder c that by (auto simp: lk_inv_def l_inside_def)
  ultimately show ?case using note_holder by (auto simp: lk_inv_def)
next
  case (leave s c)
  then have c: "l_inside s c" by (simp add: l_inside_def)
  have "l_inside (s\<lparr>l_cpu := None, l_pc := (l_pc s)(c := Leaving)\<rparr>) = l_inside s" using c by (auto simp: l_inside_def fun_eq_iff)
  moreover have "l_pc s d \<noteq> Crit" if "d \<noteq> c" for d
    using leave c that by (auto simp: lk_inv_def l_inside_def)
  ultimately show ?case using leave by (auto simp: lk_inv_def)
next
  case (leave_panic s c)
  then have "l_inside s c" by (simp add: l_inside_def)
  with leave_panic show ?case by (auto simp: lk_inv_def l_holding_def)
next
  case (unlock s c)
  then have c: "l_inside s c" by (simp add: l_inside_def)
  then have "l_inside (s\<lparr>l_locked := 0, l_pc := (l_pc s)(c := Outside)\<rparr>) = (\<lambda>d. False)"
    using unlock by (auto simp: lk_inv_def l_inside_def fun_eq_iff)
  with unlock show ?case by (auto simp: lk_inv_def)
qed

lemma lk_inv_reachable: "lk_step\<^sup>*\<^sup>* lk_start s \<Longrightarrow> lk_inv s"
proof (induction rule: rtranclp_induct)
  case base
  show ?case by (simp add: lk_inv_def lk_start_def l_inside_def)
next
  case (step s t)
  then show ?case by (blast intro: lk_inv_step)
qed

section \<open>Properties\<close>

text \<open>
  C15: Mutual exclusion. However the processors interleave, no two of them are between
  \<^verbatim>\<open>acquire\<close> and \<^verbatim>\<open>release\<close> of the lock, \<^verbatim>\<open>holding\<close> is true for exactly the processor in the
  critical section, and the panics of \<^verbatim>\<open>acquire\<close> and \<^verbatim>\<open>release\<close> are not reached.
\<close>

theorem spinlock_mutual_exclusion:
  assumes "lk_step\<^sup>*\<^sup>* lk_start s"
  shows "(l_pc s c = Crit \<and> l_pc s d = Crit \<longrightarrow> c = d) \<and> (l_holding s c \<longleftrightarrow> l_pc s c = Crit) \<and> \<not> l_panic s"
  using lk_inv_reachable [OF assms] by (auto simp: lk_inv_def l_inside_def l_holding_def)

theorem spinlock_mutual_exclusion_witness:
  "\<exists>s. lk_step\<^sup>*\<^sup>* lk_start s \<and> l_pc s 0 = Crit \<and> l_pc s 1 = Spin \<and> l_holding s 0 \<and> \<not> l_holding s 1 \<and> \<not> l_panic s"
proof -
  let ?a = "lk_start\<lparr>l_pc := (l_pc lk_start)(0 := Spin)\<rparr>"
  let ?b = "?a\<lparr>l_pc := (l_pc ?a)(1 := Spin)\<rparr>"
  let ?c = "?b\<lparr>l_locked := 1, l_pc := (l_pc ?b)(0 := Won)\<rparr>"
  let ?d = "?c\<lparr>l_cpu := Some 0, l_pc := (l_pc ?c)(0 := Crit)\<rparr>"
  have "lk_step lk_start ?a" by (rule enter) (simp_all add: lk_start_def l_holding_def)
  moreover have "lk_step ?a ?b" by (rule enter) (simp_all add: lk_start_def l_holding_def)
  moreover have "lk_step ?b ?c" by (rule xchg_free) (simp_all add: lk_start_def)
  moreover have "lk_step ?c ?d" by (rule note_holder) simp
  ultimately have r: "lk_step\<^sup>*\<^sup>* lk_start ?d" by (meson rtranclp.rtrancl_into_rtrancl rtranclp.rtrancl_refl)
  show ?thesis using spinlock_mutual_exclusion [OF r, of 0 1] spinlock_mutual_exclusion [OF r, of 1 0] r
    by (intro exI [of _ ?d]) (simp add: lk_start_def)
qed

text \<open>
  A critical section is transparent. On a free lock, \<^verbatim>\<open>acquire\<close> returns with interrupts off,
  the nesting one deeper and the executing CPU as holder; the matching \<^verbatim>\<open>release\<close> restores the
  interrupt flag and the nesting depth of before, even when sections are nested, and frees the
  lock. Acquiring a lock one already holds and releasing one that one does not hold panic;
  a lock held elsewhere makes \<^verbatim>\<open>acquire\<close> spin.
\<close>

theorem acquire_release_transparent:
  assumes "cli_ok s i"
  shows "(lk_locked (locks s lk) = 0 \<longrightarrow>
      wp (acquire lk) (\<lambda>_ t. held_by t lk i \<and> \<not> intr t (lapicid t) \<and> c_ncli (cpus t i) = c_ncli (cpus s i) + 1 \<and> mem t = mem s) s \<and>
      wp (kseq (acquire lk) (release lk)) (\<lambda>_ t. lk_locked (locks t lk) = 0 \<and> intr t = intr s \<and> cli_ok t i \<and>
         c_ncli (cpus t i) = c_ncli (cpus s i) \<and> mem t = mem s) s) \<and>
    (held_by s lk i \<longrightarrow> acquire lk s = Panic ''acquire'') \<and>
    (\<not> held_by s lk i \<longrightarrow> release lk s = Panic ''release'') \<and>
    (lk_locked (locks s lk) \<noteq> 0 \<and> lk_cpu (locks s lk) \<noteq> Some i \<longrightarrow> (\<exists>t. acquire lk s = Sleep (ChanSpin lk) t))"
proof (intro conjI impI)
  assume l: "lk_locked (locks s lk) = 0"
  show "wp (acquire lk) (\<lambda>_ t. held_by t lk i \<and> \<not> intr t (lapicid t) \<and> c_ncli (cpus t i) = c_ncli (cpus s i) + 1 \<and> mem t = mem s) s"
    using acquire_eq [OF assms l] by (simp add: wp_def held_by_def taken_def pushed_cpu)
  show "wp (kseq (acquire lk) (release lk)) (\<lambda>_ t. lk_locked (locks t lk) = 0 \<and> intr t = intr s \<and> cli_ok t i \<and>
         c_ncli (cpus t i) = c_ncli (cpus s i) \<and> mem t = mem s) s"
    using acquire_release_eq [OF assms l] assms by (simp add: wp_def freed_def del: wp_kseq)
qed (use acquire_panics [OF assms] release_panics [OF assms] acquire_spins [OF assms] in auto)

definition one_cpu :: mach where
  "one_cpu = \<lparr>mem = \<lambda>_. 0, cpus = \<lambda>_. \<lparr>c_apicid = 0, c_ncli = 0, c_intena = False, c_proc = None\<rparr>, ncpu = 1,
     lapicid = 0, frame = 0, intr = \<lambda>_. True, locks = \<lambda>_. \<lparr>lk_locked = 0, lk_cpu = None, lk_pcs = replicate 10 0\<rparr>\<rparr>"

lemma one_cpu_ok: "cli_ok one_cpu 0" "lk_locked (locks one_cpu lk) = 0" "intr one_cpu 0" "c_ncli (cpus one_cpu 0) = 0"
  by (simp_all add: one_cpu_def cli_ok_def cpu_is_def)

theorem acquire_release_transparent_witness:
  "wp (acquire 7) (\<lambda>_ t. held_by t 7 0 \<and> \<not> intr t (lapicid t)) one_cpu \<and>
   wp (kseq (acquire 7) (release 7)) (\<lambda>_ t. intr t 0) one_cpu \<and> release 7 one_cpu = Panic ''release''"
proof -
  have n: "\<not> held_by one_cpu 7 0" by (simp add: held_by_def one_cpu_ok)
  note a = acquire_release_transparent [OF one_cpu_ok(1), of 7]
  have w: "wp (acquire 7) (\<lambda>_ t. held_by t 7 0 \<and> \<not> intr t (lapicid t) \<and> c_ncli (cpus t 0) = c_ncli (cpus one_cpu 0) + 1 \<and> mem t = mem one_cpu) one_cpu"
    "wp (kseq (acquire 7) (release 7)) (\<lambda>_ t. lk_locked (locks t 7) = 0 \<and> intr t = intr one_cpu \<and> cli_ok t 0 \<and>
         c_ncli (cpus t 0) = c_ncli (cpus one_cpu 0) \<and> mem t = mem one_cpu) one_cpu"
    using conjunct1 [OF a, THEN mp, OF one_cpu_ok(2)] by blast+
  have "wp (acquire 7) (\<lambda>_ t. held_by t 7 0 \<and> \<not> intr t (lapicid t)) one_cpu" using w(1) by (rule wp_conseq) simp
  moreover have "wp (kseq (acquire 7) (release 7)) (\<lambda>_ t. intr t 0) one_cpu" using w(2) by (rule wp_conseq) (simp add: one_cpu_ok)
  moreover have "release 7 one_cpu = Panic ''release''" using a n by metis
  ultimately show ?thesis by blast
qed

end
