(* ===== verification/Kalloc.thy ===== *)
theory Kalloc
  imports Spinlock
begin

text \<open>
  The physical page allocator (\<^verbatim>\<open>kalloc.c\<close>). The free list is threaded through the free pages
  themselves, so the model keeps it in memory: the first four bytes of a free page are the
  address of the next one. \<open>kend\<close> is the linker symbol \<^verbatim>\<open>end\<close>. Addresses are natural numbers;
  \<^verbatim>\<open>V2P\<close> is computed modulo \<open>2\<^sup>3\<^sup>2\<close> as in the code.
\<close>

section \<open>State and operations\<close>

definition PGSIZE :: nat where "PGSIZE = 4096"
definition PHYSTOP :: nat where "PHYSTOP = 0xE000000"
definition EXTMEM :: nat where "EXTMEM = 0x100000"

lemma PGSIZE_num: "PGSIZE = 4096" and PHYSTOP_num: "PHYSTOP = 234881024"
  by (simp_all add: PGSIZE_def PHYSTOP_def)

definition V2P :: "nat \<Rightarrow> nat" where "V2P a = u32 (a + (2 ^ 32 - KERNBASE))"
definition P2V :: "nat \<Rightarrow> nat" where "P2V a = u32 (a + KERNBASE)"
definition PGROUNDUP :: "nat \<Rightarrow> nat" where "PGROUNDUP a = u32 (a + PGSIZE - 1) div PGSIZE * PGSIZE"
definition PGROUNDDOWN :: "nat \<Rightarrow> nat" where "PGROUNDDOWN a = a div PGSIZE * PGSIZE"

record kmem = mach +
  kend :: nat
  freelist :: nat
  use_lock :: bool

definition kmem_lock :: nat where "kmem_lock = 1"

text \<open>A 32-bit store to memory, little-endian.\<close>

definition st32 :: "(nat \<Rightarrow> byte) \<Rightarrow> nat \<Rightarrow> nat \<Rightarrow> nat \<Rightarrow> byte" where
  "st32 m a v = m(a := of_nat v, a + 1 := of_nat (v div 256), a + 2 := of_nat (v div 65536), a + 3 := of_nat (v div 16777216))"

definition setmem :: "((nat \<Rightarrow> byte) \<Rightarrow> nat \<Rightarrow> byte) \<Rightarrow> ('x mach_scheme, unit) kmon" where
  "setmem f = kmod (\<lambda>s. s\<lparr>mem := f (mem s)\<rparr>)"

definition klock :: "('x kmem_scheme, unit) kmon" where
  "klock = kbind (kget use_lock) (\<lambda>b. if b then acquire kmem_lock else kret ())"

definition kunlock :: "('x kmem_scheme, unit) kmon" where
  "kunlock = kbind (kget use_lock) (\<lambda>b. if b then release kmem_lock else kret ())"

definition kfree :: "nat \<Rightarrow> ('x kmem_scheme, unit) kmon" where
  "kfree v = kbind (kget kend) (\<lambda>e.
     if v mod PGSIZE \<noteq> 0 \<or> v < e \<or> V2P v \<ge> PHYSTOP then kpanic ''kfree'' else
     kseq (setmem (memset v 1 PGSIZE)) (kseq klock
       (kseq (kmod (\<lambda>s. s\<lparr>mem := st32 (mem s) v (freelist s), freelist := v\<rparr>)) kunlock)))"

definition kalloc :: "('x kmem_scheme, nat) kmon" where
  "kalloc = kseq klock (kbind (kget freelist) (\<lambda>r.
     kseq (if r \<noteq> 0 then kmod (\<lambda>s. s\<lparr>freelist := le32 (mem s) r\<rparr>) else kret ()) (kseq kunlock (kret r))))"

function freerange_loop :: "nat \<Rightarrow> nat \<Rightarrow> ('x kmem_scheme, unit) kmon" where
  "freerange_loop p vend = (if p + PGSIZE \<le> vend then kseq (kfree p) (freerange_loop (p + PGSIZE) vend) else kret ())"
  by pat_completeness auto
termination by (relation "measure (\<lambda>(p, vend). Suc vend - p)") (auto simp: PGSIZE_num)

declare freerange_loop.simps [simp del]

definition freerange :: "nat \<Rightarrow> nat \<Rightarrow> ('x kmem_scheme, unit) kmon" where
  "freerange vstart vend = freerange_loop (PGROUNDUP vstart) vend"

definition kinit1 :: "nat \<Rightarrow> nat \<Rightarrow> ('x kmem_scheme, unit) kmon" where
  "kinit1 vstart vend = kseq (initlock kmem_lock) (kseq (kmod (\<lambda>s. s\<lparr>use_lock := False\<rparr>)) (freerange vstart vend))"

definition kinit2 :: "nat \<Rightarrow> nat \<Rightarrow> ('x kmem_scheme, unit) kmon" where
  "kinit2 vstart vend = kseq (freerange vstart vend) (kmod (\<lambda>s. s\<lparr>use_lock := True\<rparr>))"

section \<open>Memory words\<close>

lemma le32_cong:
  assumes "\<And>i. i < 4 \<Longrightarrow> m (a + i) = n (a + i)"
  shows "le32 m a = le32 n a"
  using assms [of 0] assms [of 1] assms [of 2] assms [of 3] by (simp add: le32_def)

lemma le32_st32: "v < 2 ^ 32 \<Longrightarrow> le32 (st32 m a v) a = v"
  using bytes32 [of v] by (simp add: le32_def st32_def unat_of_nat8 del: unat_of_nat)

lemma st32_other: "x < a \<or> a + 4 \<le> x \<Longrightarrow> st32 m a v x = m x"
  by (auto simp: st32_def)

section \<open>The critical section\<close>

definition kmem_ready :: "'x kmem_scheme \<Rightarrow> bool" where
  "kmem_ready s \<longleftrightarrow> (use_lock s \<longrightarrow> (\<exists>i. cli_ok s i) \<and> lk_locked (locks s kmem_lock) = 0)"

text \<open>What a call leaves alone apart from memory and the list head.\<close>

definition kquiet :: "'x kmem_scheme \<Rightarrow> 'x kmem_scheme \<Rightarrow> bool" where
  "kquiet s t \<longleftrightarrow> kend t = kend s \<and> use_lock t = use_lock s \<and> intr t = intr s \<and> lapicid t = lapicid s \<and> kmem.more t = kmem.more s \<and>
     ncpu t = ncpu s \<and> (\<forall>i. c_ncli (cpus t i) = c_ncli (cpus s i) \<and> c_apicid (cpus t i) = c_apicid (cpus s i) \<and> c_proc (cpus t i) = c_proc (cpus s i)) \<and>
     (\<forall>l. lk_locked (locks t l) = lk_locked (locks s l))"

lemma kquiet_refl [simp]: "kquiet s s"
  by (simp add: kquiet_def)

lemma kquiet_trans: "kquiet s t \<Longrightarrow> kquiet t u \<Longrightarrow> kquiet s u"
  by (simp add: kquiet_def)

lemma kquiet_ready: "kquiet s t \<Longrightarrow> kmem_ready s \<Longrightarrow> kmem_ready t"
  using cli_ok_cong [of t s] by (auto simp: kquiet_def kmem_ready_def)

lemma kmem_setlock [simp]: "use_lock (setlock l f s) = use_lock s" "freelist (setlock l f s) = freelist s" "kend (setlock l f s) = kend s"
    "kmem.more (setlock l f s) = kmem.more s"
  by (simp_all add: setlock_def)

lemma kmem_pushed [simp]: "use_lock (pushed i s) = use_lock s" "freelist (pushed i s) = freelist s" "kend (pushed i s) = kend s"
    "kmem.more (pushed i s) = kmem.more s"
  by (simp_all add: pushed_def setcpu_def)

lemma kmem_noted [simp]: "use_lock (noted i s) = use_lock s" "freelist (noted i s) = freelist s" "kend (noted i s) = kend s"
    "kmem.more (noted i s) = kmem.more s"
  by (simp_all add: noted_def setcpu_def)

lemma noted_cpu [simp]: "c_apicid (cpus (noted i s) j) = c_apicid (cpus s j)" "c_proc (cpus (noted i s) j) = c_proc (cpus s j)"
  by (simp_all add: noted_def)

lemma mem_commute: "(setlock l f (pushed i s))\<lparr>mem := m, freelist := p\<rparr> = pushed i ((setlock l f s)\<lparr>mem := m, freelist := p\<rparr>)"
  by (simp add: setlock_def pushed_def setcpu_def)

lemma cli_ok_mem [simp]: "cli_ok (s\<lparr>mem := m, freelist := p\<rparr>) i = cli_ok s i"
  by (rule cli_ok_cong) simp_all

lemma critical_section:
  fixes f :: "(nat \<Rightarrow> byte) \<Rightarrow> nat \<Rightarrow> nat \<Rightarrow> byte" and g :: "(nat \<Rightarrow> byte) \<Rightarrow> nat \<Rightarrow> nat" and h :: "(nat \<Rightarrow> byte) \<Rightarrow> nat \<Rightarrow> 'a"
  assumes r: "kmem_ready s"
    and b: "\<And>t. body t = Done (h (mem t) (freelist t)) (t\<lparr>mem := f (mem t) (freelist t), freelist := g (mem t) (freelist t)\<rparr>)"
  shows "wp (kseq klock (kbind body (\<lambda>x. kseq kunlock (kret x))))
     (\<lambda>x t. x = h (mem s) (freelist s) \<and> mem t = f (mem s) (freelist s) \<and> freelist t = g (mem s) (freelist s) \<and> kquiet s t) s"
proof (cases "use_lock s")
  case False
  then show ?thesis by (simp add: klock_def kunlock_def kquiet_def wp_def kernel_defs b)
next
  case True
  with r obtain i where i: "cli_ok s i" "lk_locked (locks s kmem_lock) = 0" by (auto simp: kmem_ready_def)
  let ?u = "(setlock kmem_lock (taken i (getcallerpcs (mem s) (frame s))) s)\<lparr>mem := f (mem s) (freelist s), freelist := g (mem s) (freelist s)\<rparr>"
  have "release kmem_lock (pushed i ?u) = Done () (setlock kmem_lock freed (noted i ?u))"
    using i(1) by (intro release_eq) (simp_all add: held_by_def taken_def)
  then have "kseq klock (kbind body (\<lambda>x. kseq kunlock (kret x))) s
      = Done (h (mem s) (freelist s)) (setlock kmem_lock freed (noted i ?u))"
    using True acquire_eq [OF i]
    by (simp add: klock_def kunlock_def kernel_defs b mem_commute)
  moreover have "kquiet s (setlock kmem_lock freed (noted i ?u))"
    using i(2) by (simp add: kquiet_def freed_def taken_def)
  ultimately show ?thesis by (simp add: wp_def del: wp_kseq wp_kbind)
qed

section \<open>The free list\<close>

primrec flist :: "(nat \<Rightarrow> byte) \<Rightarrow> nat \<Rightarrow> nat list \<Rightarrow> bool" where
  "flist m h [] \<longleftrightarrow> h = 0"
| "flist m h (p # ps) \<longleftrightarrow> h = p \<and> p \<noteq> 0 \<and> flist m (le32 m p) ps"

definition page_ok :: "nat \<Rightarrow> nat \<Rightarrow> bool" where
  "page_ok e p \<longleftrightarrow> p mod PGSIZE = 0 \<and> e \<le> p \<and> KERNBASE \<le> p \<and> p < KERNBASE + PHYSTOP"

definition free_pages :: "'x kmem_scheme \<Rightarrow> nat list \<Rightarrow> bool" where
  "free_pages s ps \<longleftrightarrow> flist (mem s) (freelist s) ps \<and> distinct ps \<and> (\<forall>p\<in>set ps. page_ok (kend s) p)"

definition in_page :: "nat \<Rightarrow> nat \<Rightarrow> bool" where
  "in_page p x \<longleftrightarrow> p \<le> x \<and> x < p + PGSIZE"

lemma flist_cong: "flist m h ps \<Longrightarrow> (\<And>p. p \<in> set ps \<Longrightarrow> le32 n p = le32 m p) \<Longrightarrow> flist n h ps"
  by (induction ps arbitrary: h) auto

lemma pages_apart: "p mod PGSIZE = 0 \<Longrightarrow> q mod PGSIZE = 0 \<Longrightarrow> p \<noteq> q \<Longrightarrow> in_page p x \<Longrightarrow> \<not> in_page q x"
proof
  assume a: "p mod PGSIZE = 0" "q mod PGSIZE = 0" "p \<noteq> q" "in_page p x" "in_page q x"
  have "p div PGSIZE = x div PGSIZE" "q div PGSIZE = x div PGSIZE"
    using a by (auto simp: in_page_def PGSIZE_num)
  then have "p div PGSIZE * PGSIZE = q div PGSIZE * PGSIZE" by simp
  then show False using a(1-3) by (metis add.right_neutral div_mult_mod_eq)
qed

lemma free_pages_cong:
  assumes "free_pages s ps" "freelist t = freelist s" "kend t = kend s"
    and "\<And>p x. p \<in> set ps \<Longrightarrow> in_page p x \<Longrightarrow> mem t x = mem s x"
  shows "free_pages t ps"
proof -
  have "le32 (mem t) p = le32 (mem s) p" if "p \<in> set ps" for p
    using assms(4) [OF that] by (intro le32_cong) (simp add: in_page_def PGSIZE_num)
  then show ?thesis using assms(1-3) flist_cong [of "mem s" "freelist s" ps "mem t"] by (simp add: free_pages_def)
qed

lemma page_ok_iff: "v < 2 ^ 32 \<Longrightarrow> page_ok e v \<longleftrightarrow> \<not> (v mod PGSIZE \<noteq> 0 \<or> v < e \<or> V2P v \<ge> PHYSTOP)"
proof -
  assume v: "v < 2 ^ 32"
  have "V2P v < PHYSTOP \<longleftrightarrow> KERNBASE \<le> v \<and> v < KERNBASE + PHYSTOP"
  proof (cases "KERNBASE \<le> v")
    case True
    then obtain w where w: "v = KERNBASE + w" using le_iff_add by blast
    then have "v + (2 ^ 32 - KERNBASE) = w + 2 ^ 32" by (simp add: KERNBASE_num)
    then have "V2P v = v - KERNBASE" using v w by (simp add: V2P_def u32_def)
    with True show ?thesis by auto
  next
    case False
    then have "V2P v = v + (2 ^ 32 - KERNBASE)" by (simp add: V2P_def u32_def KERNBASE_num)
    with False show ?thesis by (simp add: KERNBASE_num PHYSTOP_num)
  qed
  then show ?thesis by (auto simp: page_ok_def)
qed

lemma page_ok_32: "page_ok e v \<Longrightarrow> v < 2 ^ 32" "page_ok e v \<Longrightarrow> v \<noteq> 0"
  by (auto simp: page_ok_def KERNBASE_num PHYSTOP_num)

lemma free_head: "free_pages s ps \<Longrightarrow> freelist s < 2 ^ 32"
  by (cases ps) (auto simp: free_pages_def dest: page_ok_32)

lemma kfree_ok:
  assumes r: "kmem_ready s" and f: "free_pages s ps" and v: "page_ok (kend s) v" "v \<notin> set ps"
  shows "wp (kfree v) (\<lambda>_ t. free_pages t (v # ps) \<and> (\<forall>x. \<not> in_page v x \<longrightarrow> mem t x = mem s x) \<and> kquiet s t) s"
proof -
  let ?f = "\<lambda>m h. st32 m v h"
  let ?s = "s\<lparr>mem := memset v 1 PGSIZE (mem s)\<rparr>"
  let ?body = "kmod (\<lambda>s. s\<lparr>mem := st32 (mem s) v (freelist s), freelist := v\<rparr>) :: ('a kmem_scheme, unit) kmon"
  have "kmem_ready ?s" using r cli_ok_cong [of ?s s] by (simp add: kmem_ready_def)
  then have w: "wp (kseq klock (kbind ?body (\<lambda>x. kseq kunlock (kret x))))
     (\<lambda>x t. x = () \<and> mem t = st32 (mem ?s) v (freelist ?s) \<and> freelist t = v \<and> kquiet ?s t) ?s"
    by (rule critical_section [where f = ?f and g = "\<lambda>_ _. v" and h = "\<lambda>_ _. ()"]) (simp add: kmod_def)
  have fin: "free_pages t (v # ps) \<and> (\<forall>x. \<not> in_page v x \<longrightarrow> mem t x = mem s x) \<and> kquiet s t"
    if t: "mem t = st32 (mem ?s) v (freelist ?s)" "freelist t = v" "kquiet ?s t" for t :: "'a kmem_scheme"
  proof -
    have out: "mem t x = mem s x" if "\<not> in_page v x" for x
    proof -
      have "x < v \<or> v + 4 \<le> x" using that by (auto simp: in_page_def PGSIZE_num)
      then show ?thesis using that by (auto simp: t(1) st32_other memset_spec in_page_def)
    qed
    have q: "kquiet s t" using t(3) by (simp add: kquiet_def)
    have "in_page p x \<Longrightarrow> mem t x = mem s x" if "p \<in> set ps" for p x
      using that f v pages_apart [of p v x] by (intro out) (auto simp: free_pages_def page_ok_def)
    then have "free_pages (t\<lparr>freelist := freelist s\<rparr>) ps"
      using f q by (intro free_pages_cong [OF f]) (simp_all add: kquiet_def)
    moreover have "le32 (mem t) v = freelist s"
      using free_head [OF f] by (simp add: t(1) le32_st32)
    ultimately have "free_pages t (v # ps)" using t(2) v q page_ok_32 [OF v(1)] by (simp add: free_pages_def kquiet_def)
    then show ?thesis using out q by blast
  qed
  have "kfree v s = kseq klock (kbind ?body (\<lambda>x. kseq kunlock (kret x))) ?s"
    using v(1) page_ok_iff [of v "kend s"] page_ok_32(1) [OF v(1)]
    by (simp add: kfree_def setmem_def kernel_defs split: result.splits)
  then show ?thesis using w fin by (simp only: wp_def) (auto split: result.splits)
qed

lemma kfree_panics: "v < 2 ^ 32 \<Longrightarrow> \<not> page_ok (kend s) v \<Longrightarrow> kfree v s = Panic ''kfree''"
  using page_ok_iff [of v "kend s"] by (auto simp: kfree_def kernel_defs)

lemma kalloc_ok:
  assumes r: "kmem_ready s" and f: "free_pages s ps"
  shows "wp kalloc (\<lambda>p t. mem t = mem s \<and> kquiet s t \<and>
     (case ps of [] \<Rightarrow> p = 0 \<and> free_pages t [] | q # qs \<Rightarrow> p = q \<and> free_pages t qs)) s"
proof -
  let ?body = "kbind (kget freelist) (\<lambda>r. kseq (if r \<noteq> 0 then kmod (\<lambda>s. s\<lparr>freelist := le32 (mem s) r\<rparr>) else kret ()) (kret r)) :: ('a kmem_scheme, nat) kmon"
  have "wp (kseq klock (kbind ?body (\<lambda>x. kseq kunlock (kret x))))
     (\<lambda>x t. x = freelist s \<and> mem t = mem s \<and> freelist t = (if freelist s = 0 then 0 else le32 (mem s) (freelist s)) \<and> kquiet s t) s"
    using r by (rule critical_section [where f = "\<lambda>m _. m" and g = "\<lambda>m h. if h = 0 then 0 else le32 m h" and h = "\<lambda>_ h. h"])
      (auto simp: kernel_defs)
  then have "wp kalloc (\<lambda>x t. x = freelist s \<and> mem t = mem s \<and> freelist t = (if freelist s = 0 then 0 else le32 (mem s) (freelist s)) \<and> kquiet s t) s"
    by (rule wp_eqI) (simp add: kalloc_def kernel_defs split: result.splits)
  then show ?thesis
  proof (rule wp_conseq)
    fix p :: nat and t
    assume t: "p = freelist s \<and> mem t = mem s \<and> freelist t = (if freelist s = 0 then 0 else le32 (mem s) (freelist s)) \<and> kquiet s t"
    then have "kend t = kend s" by (simp add: kquiet_def)
    then show "mem t = mem s \<and> kquiet s t \<and> (case ps of [] \<Rightarrow> p = 0 \<and> free_pages t [] | q # qs \<Rightarrow> p = q \<and> free_pages t qs)"
      using t f by (cases ps) (auto simp: free_pages_def)
  qed
qed

section \<open>Initialisation\<close>

definition range_pages :: "nat \<Rightarrow> nat \<Rightarrow> nat list" where
  "range_pages p vend = map (\<lambda>k. p + k * PGSIZE) [0..<(vend - p) div PGSIZE]"

lemma range_pages_step: "p + PGSIZE \<le> vend \<Longrightarrow> range_pages p vend = p # range_pages (p + PGSIZE) vend"
proof -
  assume a: "p + PGSIZE \<le> vend"
  then have "(vend - p) div PGSIZE = Suc ((vend - (p + PGSIZE)) div PGSIZE)"
    by (simp add: PGSIZE_num le_div_geq)
  then show ?thesis unfolding range_pages_def by (simp add: map_upt_Suc del: upt_Suc)
qed

lemma range_pages_stop: "\<not> p + PGSIZE \<le> vend \<Longrightarrow> range_pages p vend = []"
  by (simp add: range_pages_def PGSIZE_num)

lemma range_pages_ge: "q \<in> set (range_pages p vend) \<Longrightarrow> p \<le> q \<and> q + PGSIZE \<le> vend"
proof -
  assume "q \<in> set (range_pages p vend)"
  then obtain k where k: "k < (vend - p) div PGSIZE" "q = p + k * PGSIZE" by (auto simp: range_pages_def)
  from k(1) have "Suc k \<le> (vend - p) div PGSIZE" by simp
  then have "Suc k * PGSIZE \<le> (vend - p) div PGSIZE * PGSIZE" by (rule mult_le_mono1)
  also have "\<dots> \<le> vend - p" by simp
  finally have "k * PGSIZE + PGSIZE \<le> vend - p" by simp
  moreover have "0 < PGSIZE" by (simp add: PGSIZE_num)
  ultimately show ?thesis using k(2) by linarith
qed

lemma kquiet_kend: "kquiet s t \<Longrightarrow> kend t = kend s"
  by (simp add: kquiet_def)

lemma freerange_loop_ok:
  assumes "kmem_ready s" "free_pages s ps" "p mod PGSIZE = 0" "kend s \<le> p" "KERNBASE \<le> p" "vend \<le> KERNBASE + PHYSTOP"
    and "\<forall>q\<in>set ps. q < p \<or> vend < q + PGSIZE"
  shows "wp (freerange_loop p vend) (\<lambda>_ t. free_pages t (rev (range_pages p vend) @ ps) \<and> kquiet s t) s"
  using assms
proof (induction p vend arbitrary: s ps rule: freerange_loop.induct)
  case (1 p vend)
  show ?case
  proof (cases "p + PGSIZE \<le> vend")
    case False
    then show ?thesis using "1.prems" by (simp add: freerange_loop.simps [of p vend] range_pages_stop)
  next
    case True
    then have p: "page_ok (kend s) p" "p \<notin> set ps" using "1.prems" by (auto simp: page_ok_def PGSIZE_num)
    have "wp (kfree p) (\<lambda>_. wp (freerange_loop (p + PGSIZE) vend) (\<lambda>_ t. free_pages t (rev (range_pages p vend) @ ps) \<and> kquiet s t)) s"
    proof (rule wp_conseq [OF kfree_ok [OF "1.prems"(1,2) p]])
      fix t assume t: "free_pages t (p # ps) \<and> (\<forall>x. \<not> in_page p x \<longrightarrow> mem t x = mem s x) \<and> kquiet s t"
      have "wp (freerange_loop (p + PGSIZE) vend) (\<lambda>_ u. free_pages u (rev (range_pages (p + PGSIZE) vend) @ p # ps) \<and> kquiet t u) t"
        using "1.prems" t kquiet_ready [of s t] kquiet_kend [of s t]
        by (intro "1.IH" [OF True]) (auto simp: PGSIZE_num)
      then show "wp (freerange_loop (p + PGSIZE) vend) (\<lambda>_ t. free_pages t (rev (range_pages p vend) @ ps) \<and> kquiet s t) t"
        by (rule wp_conseq) (use t kquiet_trans range_pages_step [OF True] in auto)
    qed
    then show ?thesis using True by (simp add: freerange_loop.simps [of p vend])
  qed
qed

lemma PGROUNDUP_bounds: "a \<le> 2 ^ 32 - PGSIZE \<Longrightarrow> PGROUNDUP a mod PGSIZE = 0 \<and> a \<le> PGROUNDUP a \<and> PGROUNDUP a < a + PGSIZE"
proof -
  assume a: "a \<le> 2 ^ 32 - PGSIZE"
  then have "u32 (a + PGSIZE - 1) = a + 4095" by (simp add: PGSIZE_num)
  then have "PGROUNDUP a = (a + 4095) div 4096 * 4096" by (simp add: PGROUNDUP_def PGSIZE_num)
  moreover have "a \<le> (a + 4095) div 4096 * 4096 \<and> (a + 4095) div 4096 * 4096 < a + 4096"
    using div_mult_mod_eq [of "a + 4095" 4096] mod_less_divisor [of 4096 "a + 4095"] by linarith
  ultimately show ?thesis by (simp add: PGSIZE_num)
qed

lemma kinit1_ok:
  assumes f: "freelist s = 0" and b: "kend s \<le> vstart" "KERNBASE \<le> vstart" "vstart \<le> vend" "vend \<le> KERNBASE + PHYSTOP"
  shows "wp (kinit1 vstart vend) (\<lambda>_ t. free_pages t (rev (range_pages (PGROUNDUP vstart) vend)) \<and> kmem_ready t \<and> kend t = kend s \<and> \<not> use_lock t) s"
proof -
  let ?u = "(setlock kmem_lock (\<lambda>l. l\<lparr>lk_locked := 0, lk_cpu := None\<rparr>) s)\<lparr>use_lock := False\<rparr>"
  have p: "PGROUNDUP vstart mod PGSIZE = 0" "vstart \<le> PGROUNDUP vstart"
    using PGROUNDUP_bounds [of vstart] b by (auto simp: PGSIZE_num KERNBASE_num PHYSTOP_num)
  have "wp (freerange_loop (PGROUNDUP vstart) vend) (\<lambda>_ t. free_pages t (rev (range_pages (PGROUNDUP vstart) vend) @ []) \<and> kquiet ?u t) ?u"
    using p b f by (intro freerange_loop_ok) (auto simp: kmem_ready_def free_pages_def)
  then have "wp (freerange_loop (PGROUNDUP vstart) vend) (\<lambda>_ t. free_pages t (rev (range_pages (PGROUNDUP vstart) vend)) \<and> kmem_ready t \<and> kend t = kend s \<and> \<not> use_lock t) ?u"
    by (rule wp_conseq) (auto simp: kquiet_def kmem_ready_def)
  then show ?thesis by (simp add: kinit1_def initlock_def freerange_def)
qed

section \<open>Clients of the allocator\<close>

text \<open>
  A client state is the machine and the set of pages handed out and not yet freed. Besides
  calling the allocator, clients store to the pages they own.
\<close>

inductive client_step :: "kmem \<times> nat set \<Rightarrow> kmem \<times> nat set \<Rightarrow> bool" where
  c_alloc: "kalloc s = Done p t \<Longrightarrow> client_step (s, own) (t, if p = 0 then own else insert p own)"
| c_free: "p \<in> own \<Longrightarrow> kfree p s = Done () t \<Longrightarrow> client_step (s, own) (t, own - {p})"
| c_store: "(\<And>x. \<forall>p\<in>own. \<not> in_page p x \<Longrightarrow> m x = mem s x) \<Longrightarrow> client_step (s, own) (s\<lparr>mem := m\<rparr>, own)"

definition client_inv :: "nat set \<Rightarrow> kmem \<times> nat set \<Rightarrow> bool" where
  "client_inv P = (\<lambda>(s, own). \<exists>ps. kmem_ready s \<and> free_pages s ps \<and> set ps \<inter> own = {} \<and> set ps \<union> own = P \<and> (\<forall>p\<in>P. page_ok (kend s) p))"

lemma client_inv_step: "client_step a b \<Longrightarrow> client_inv P a \<Longrightarrow> client_inv P b"
proof (induction rule: client_step.induct)
  case (c_alloc s p t own)
  then obtain ps where ps: "kmem_ready s" "free_pages s ps" "set ps \<inter> own = {}" "set ps \<union> own = P" "\<forall>p\<in>P. page_ok (kend s) p"
    by (auto simp: client_inv_def)
  have t: "kquiet s t" "case ps of [] \<Rightarrow> p = 0 \<and> free_pages t [] | q # qs \<Rightarrow> p = q \<and> free_pages t qs"
    using kalloc_ok [OF ps(1,2)] c_alloc.hyps by (simp_all add: wp_def)
  note r = kquiet_ready [OF t(1) ps(1)] kquiet_kend [OF t(1)]
  show ?case
  proof (cases ps)
    case Nil
    then show ?thesis using ps t r by (auto simp: client_inv_def)
  next
    case (Cons q qs)
    moreover have "q \<noteq> 0" using ps(2) Cons by (simp add: free_pages_def)
    moreover have "q \<notin> set qs" using ps(2) Cons by (simp add: free_pages_def)
    ultimately show ?thesis using ps t r by (auto simp: client_inv_def intro!: exI [of _ qs])
  qed
next
  case (c_free p own s t)
  then obtain ps where ps: "kmem_ready s" "free_pages s ps" "set ps \<inter> own = {}" "set ps \<union> own = P" "\<forall>p\<in>P. page_ok (kend s) p"
    by (auto simp: client_inv_def)
  then have p: "page_ok (kend s) p" "p \<notin> set ps" using c_free.hyps(1) by auto
  have t: "free_pages t (p # ps)" "kquiet s t" using kfree_ok [OF ps(1,2) p] c_free.hyps(2) by (simp_all add: wp_def)
  show ?case using ps t kquiet_ready [OF t(2) ps(1)] kquiet_kend [OF t(2)] c_free.hyps(1)
    by (auto simp: client_inv_def intro!: exI [of _ "p # ps"])
next
  case (c_store own m s)
  then obtain ps where ps: "kmem_ready s" "free_pages s ps" "set ps \<inter> own = {}" "set ps \<union> own = P" "\<forall>p\<in>P. page_ok (kend s) p"
    by (auto simp: client_inv_def)
  have apart: "\<not> in_page q x" if "p \<in> set ps" "in_page p x" "q \<in> own" for p q x
  proof -
    have "p \<noteq> q" using that ps(3) by blast
    moreover have "page_ok (kend s) p" "page_ok (kend s) q" using that ps(4,5) by blast+
    ultimately show ?thesis using that(2) pages_apart [of p q x] by (simp add: page_ok_def)
  qed
  have "free_pages (s\<lparr>mem := m\<rparr>) ps"
    by (rule free_pages_cong [OF ps(2)]) (simp_all add: c_store.hyps apart)
  moreover have "kmem_ready (s\<lparr>mem := m\<rparr>)" using ps(1) cli_ok_cong [of "s\<lparr>mem := m\<rparr>" s] by (simp add: kmem_ready_def)
  ultimately show ?case using ps by (auto simp: client_inv_def)
qed

lemma client_inv_reachable: "client_step\<^sup>*\<^sup>* a b \<Longrightarrow> client_inv P a \<Longrightarrow> client_inv P b"
  by (induction rule: rtranclp_induct) (auto intro: client_inv_step)

section \<open>Properties\<close>

text \<open>
  C16: The page allocator gives every page to at most one client. After \<open>kinit1\<close>, whatever
  sequence of allocations, frees of owned pages and stores into owned pages follows, the free
  list in memory is intact, and the pages of the range are partitioned into free and owned
  ones; \<open>kalloc\<close> therefore returns a page of the range that nobody owns, and 0 only when all
  are owned.
\<close>

theorem allocator_exclusive:
  assumes "kinit1 vstart vend s0 = Done () s1" "freelist s0 = 0" "kend s0 \<le> vstart" "KERNBASE \<le> vstart"
    "vstart \<le> vend" "vend \<le> KERNBASE + PHYSTOP" and "client_step\<^sup>*\<^sup>* (s1, {}) (s, own)"
  shows "(\<exists>ps. free_pages s ps \<and> set ps \<inter> own = {} \<and> set ps \<union> own = set (range_pages (PGROUNDUP vstart) vend)) \<and>
     wp kalloc (\<lambda>p t. if p = 0 then own = set (range_pages (PGROUNDUP vstart) vend)
        else p \<in> set (range_pages (PGROUNDUP vstart) vend) - own) s"
proof -
  have "client_inv (set (range_pages (PGROUNDUP vstart) vend)) (s1, {})"
    using kinit1_ok [OF assms(2-6)] assms(1) by (auto simp: wp_def client_inv_def free_pages_def)
  from client_inv_reachable [OF assms(7) this]
  obtain ps where ps: "kmem_ready s" "free_pages s ps" "set ps \<inter> own = {}" "set ps \<union> own = set (range_pages (PGROUNDUP vstart) vend)"
    by (auto simp: client_inv_def)
  have "wp kalloc (\<lambda>p t. if p = 0 then own = set (range_pages (PGROUNDUP vstart) vend)
        else p \<in> set (range_pages (PGROUNDUP vstart) vend) - own) s"
  proof (rule wp_conseq [OF kalloc_ok [OF ps(1,2)]])
    fix p :: nat and t
    assume "mem t = mem s \<and> kquiet s t \<and> (case ps of [] \<Rightarrow> p = 0 \<and> free_pages t [] | q # qs \<Rightarrow> p = q \<and> free_pages t qs)"
    then show "if p = 0 then own = set (range_pages (PGROUNDUP vstart) vend) else p \<in> set (range_pages (PGROUNDUP vstart) vend) - own"
      using ps by (cases ps) (auto simp: free_pages_def)
  qed
  then show ?thesis using ps by blast
qed

definition boot_kmem :: kmem where
  "boot_kmem = mach.extend one_cpu \<lparr>kend = KERNBASE, freelist = 0, use_lock = False\<rparr>"

theorem allocator_exclusive_witness:
  "\<exists>s1. kinit1 KERNBASE (KERNBASE + 8192) boot_kmem = Done () s1 \<and>
     wp kalloc (\<lambda>p t. p \<in> {KERNBASE, KERNBASE + 4096}) s1"
proof -
  have z: "freelist boot_kmem = 0" "kend boot_kmem = KERNBASE" by (simp_all add: boot_kmem_def mach.defs)
  obtain s1 where s1: "kinit1 KERNBASE (KERNBASE + 8192) boot_kmem = Done () s1"
    using kinit1_ok [of boot_kmem KERNBASE "KERNBASE + 8192"] z by (auto simp: wp_Done PHYSTOP_num)
  have r: "set (range_pages (PGROUNDUP KERNBASE) (KERNBASE + 8192)) = {KERNBASE, KERNBASE + 4096}"
  proof -
    have "PGROUNDUP KERNBASE = KERNBASE" by (simp add: PGROUNDUP_def u32_def PGSIZE_num KERNBASE_num)
    then show ?thesis by (auto simp: range_pages_def PGSIZE_num upt_rec)
  qed
  have "wp kalloc (\<lambda>p t. if p = 0 then {} = set (range_pages (PGROUNDUP KERNBASE) (KERNBASE + 8192))
        else p \<in> set (range_pages (PGROUNDUP KERNBASE) (KERNBASE + 8192)) - {}) s1"
    using z by (intro conjunct2 [OF allocator_exclusive [OF s1]]) (simp_all add: PHYSTOP_num)
  then have "wp kalloc (\<lambda>p t. p \<in> {KERNBASE, KERNBASE + 4096}) s1" unfolding r by (rule wp_conseq) (auto split: if_splits)
  with s1 show ?thesis by blast
qed

end
