(* ===== verification/Vm.thy ===== *)
theory Vm
  imports Kalloc
begin

text \<open>
  Page tables (\<^verbatim>\<open>vm.c\<close>). A page directory and its page tables are pages of kernel memory, read and
  written a 32-bit entry at a time; physical page \<open>pa\<close> is the kernel address \<^verbatim>\<open>P2V(pa)\<close>. Virtual
  addresses and sizes are natural numbers with the wrap-around of \<^verbatim>\<open>uint\<close> written out where the
  code can reach it. Segment descriptors and control registers are not modelled, so \<^verbatim>\<open>switchuvm\<close>
  is represented by its three checks.
\<close>

section \<open>Entries\<close>

definition PTE_P :: nat where "PTE_P = 1"
definition PTE_W :: nat where "PTE_W = 2"
definition PTE_U :: nat where "PTE_U = 4"
definition NPDENTRIES :: nat where "NPDENTRIES = 1024"
definition DEVSPACE :: nat where "DEVSPACE = 0xFE000000"

definition PDX :: "nat \<Rightarrow> nat" where "PDX va = va div 4194304 mod 1024"
definition PTX :: "nat \<Rightarrow> nat" where "PTX va = va div 4096 mod 1024"
definition PTE_ADDR :: "nat \<Rightarrow> nat" where "PTE_ADDR pte = pte div 4096 * 4096"
definition PTE_FLAGS :: "nat \<Rightarrow> nat" where "PTE_FLAGS pte = pte mod 4096"

definition present :: "nat \<Rightarrow> bool" where "present pte \<longleftrightarrow> and pte PTE_P \<noteq> 0"
definition user :: "nat \<Rightarrow> bool" where "user pte \<longleftrightarrow> and pte PTE_U \<noteq> 0"

section \<open>Operations\<close>

definition walkpgdir :: "nat \<Rightarrow> nat \<Rightarrow> bool \<Rightarrow> ('x kmem_scheme, nat option) kmon" where
  "walkpgdir pgdir va alloc = (let pde = pgdir + 4 * PDX va in
     kbind (kget (\<lambda>s. le32 (mem s) pde)) (\<lambda>e.
       if present e then kret (Some (P2V (PTE_ADDR e) + 4 * PTX va)) else
       if \<not> alloc then kret None else
       kbind kalloc (\<lambda>pgtab. if pgtab = 0 then kret None else
         kseq (setmem (memset pgtab 0 PGSIZE))
         (kseq (setmem (\<lambda>m. st32 m pde (or (or (or (V2P pgtab) PTE_P) PTE_W) PTE_U)))
            (kret (Some (pgtab + 4 * PTX va)))))))"

text \<open>
  \<^verbatim>\<open>mappages\<close> runs from the page of \<open>va\<close> to the page of \<open>va + sz - 1\<close>; \<open>k\<close> is the number of
  pages left after the current one, so that \<^verbatim>\<open>a == last\<close> is \<open>k = 0\<close>.
\<close>

primrec mappages_loop :: "nat \<Rightarrow> nat \<Rightarrow> nat \<Rightarrow> nat \<Rightarrow> nat \<Rightarrow> ('x kmem_scheme, int) kmon" where
  "mappages_loop 0 pgdir a pa perm = kbind (walkpgdir pgdir a True) (\<lambda>r. case r of None \<Rightarrow> kret (- 1) | Some pte \<Rightarrow>
     kbind (kget (\<lambda>s. le32 (mem s) pte)) (\<lambda>e. if present e then kpanic ''remap'' else
       kseq (setmem (\<lambda>m. st32 m pte (or (or pa perm) PTE_P))) (kret 0)))"
| "mappages_loop (Suc k) pgdir a pa perm = kbind (walkpgdir pgdir a True) (\<lambda>r. case r of None \<Rightarrow> kret (- 1) | Some pte \<Rightarrow>
     kbind (kget (\<lambda>s. le32 (mem s) pte)) (\<lambda>e. if present e then kpanic ''remap'' else
       kseq (setmem (\<lambda>m. st32 m pte (or (or pa perm) PTE_P)))
         (mappages_loop k pgdir (u32 (a + PGSIZE)) (u32 (pa + PGSIZE)) perm)))"

definition mappages :: "nat \<Rightarrow> nat \<Rightarrow> nat \<Rightarrow> nat \<Rightarrow> nat \<Rightarrow> ('x kmem_scheme, int) kmon" where
  "mappages pgdir va sz pa perm = (let a = PGROUNDDOWN va; last = PGROUNDDOWN (u32 (va + sz + (2 ^ 32 - 1)))
     in mappages_loop (u32 (last + (2 ^ 32 - a)) div PGSIZE) pgdir a pa perm)"

text \<open>
  \<^verbatim>\<open>deallocuvm\<close>: where no page table exists the loop continues at the next directory entry. The
  callers pass \<open>oldsz\<close> at most \<open>KERNBASE\<close>, so the address arithmetic does not wrap around.
\<close>

function deallocuvm_loop :: "nat \<Rightarrow> nat \<Rightarrow> nat \<Rightarrow> ('x kmem_scheme, unit) kmon" where
  "deallocuvm_loop pgdir a oldsz = (if \<not> a < oldsz then kret () else
     kbind (walkpgdir pgdir a False) (\<lambda>r. case r of None \<Rightarrow> deallocuvm_loop pgdir ((a div 4194304 + 1) * 4194304) oldsz
       | Some pte \<Rightarrow> kbind (kget (\<lambda>s. le32 (mem s) pte)) (\<lambda>e.
           kseq (if present e then (if PTE_ADDR e = 0 then kpanic ''kfree'' else
                   kseq (kfree (P2V (PTE_ADDR e))) (setmem (\<lambda>m. st32 m pte 0)))
                 else kret ())
             (deallocuvm_loop pgdir (a + PGSIZE) oldsz))))"
  by pat_completeness auto
termination
proof (relation "measure (\<lambda>(pgdir, a, oldsz). oldsz - a)")
  fix a oldsz :: nat
  assume "\<not> \<not> a < oldsz"
  moreover have "a < (a div 4194304 + 1) * 4194304" using div_mult_mod_eq [of a 4194304] mod_less_divisor [of 4194304 a] by simp
  ultimately show "((pgdir, (a div 4194304 + 1) * 4194304, oldsz), pgdir, a, oldsz) \<in> measure (\<lambda>(pgdir, a, oldsz). oldsz - a)" for pgdir :: nat
    by simp
qed (auto simp: PGSIZE_num)

declare deallocuvm_loop.simps [simp del]

definition deallocuvm :: "nat \<Rightarrow> nat \<Rightarrow> nat \<Rightarrow> ('x kmem_scheme, nat) kmon" where
  "deallocuvm pgdir oldsz newsz = (if newsz \<ge> oldsz then kret oldsz
     else kseq (deallocuvm_loop pgdir (PGROUNDUP newsz) oldsz) (kret newsz))"

function allocuvm_loop :: "nat \<Rightarrow> nat \<Rightarrow> nat \<Rightarrow> nat \<Rightarrow> ('x kmem_scheme, nat) kmon" where
  "allocuvm_loop pgdir a oldsz newsz = (if \<not> a < newsz then kret newsz else
     kbind kalloc (\<lambda>page. if page = 0 then kseq (deallocuvm pgdir newsz oldsz) (kret 0) else
       kseq (setmem (memset page 0 PGSIZE))
       (kbind (mappages pgdir a PGSIZE (V2P page) (or PTE_W PTE_U)) (\<lambda>r. if r < 0
          then kseq (deallocuvm pgdir newsz oldsz) (kseq (kfree page) (kret 0))
          else allocuvm_loop pgdir (a + PGSIZE) oldsz newsz))))"
  by pat_completeness auto
termination by (relation "measure (\<lambda>(pgdir, a, oldsz, newsz). newsz - a)") (auto simp: PGSIZE_num)

declare allocuvm_loop.simps [simp del]

definition allocuvm :: "nat \<Rightarrow> nat \<Rightarrow> nat \<Rightarrow> ('x kmem_scheme, nat) kmon" where
  "allocuvm pgdir oldsz newsz = (if newsz \<ge> KERNBASE then kret 0 else if newsz < oldsz then kret oldsz
     else allocuvm_loop pgdir (PGROUNDUP oldsz) oldsz newsz)"

definition freevm :: "nat \<Rightarrow> ('x kmem_scheme, unit) kmon" where
  "freevm pgdir = (if pgdir = 0 then kpanic ''freevm: no pgdir'' else
     kseq (deallocuvm pgdir KERNBASE 0)
     (kseq (kfor [0..<NPDENTRIES] (\<lambda>i. kbind (kget (\<lambda>s. le32 (mem s) (pgdir + 4 * i))) (\<lambda>e.
         if present e then kfree (P2V (PTE_ADDR e)) else kret ())))
       (kfree pgdir)))"

text \<open>The kernel's mappings; \<open>data\<close> is the linker symbol.\<close>

record kmap_entry =
  km_virt :: nat
  km_start :: nat
  km_end :: nat
  km_perm :: nat

definition kmap :: "nat \<Rightarrow> kmap_entry list" where
  "kmap data = [
     \<lparr>km_virt = KERNBASE, km_start = 0, km_end = EXTMEM, km_perm = PTE_W\<rparr>,
     \<lparr>km_virt = KERNBASE + EXTMEM, km_start = V2P (KERNBASE + EXTMEM), km_end = V2P data, km_perm = 0\<rparr>,
     \<lparr>km_virt = data, km_start = V2P data, km_end = PHYSTOP, km_perm = PTE_W\<rparr>,
     \<lparr>km_virt = DEVSPACE, km_start = DEVSPACE, km_end = 0, km_perm = PTE_W\<rparr>]"

definition setupkvm :: "nat \<Rightarrow> ('x kmem_scheme, nat) kmon" where
  "setupkvm data = kbind kalloc (\<lambda>pgdir. if pgdir = 0 then kret 0 else
     kseq (setmem (memset pgdir 0 PGSIZE))
     (if P2V PHYSTOP > DEVSPACE then kpanic ''PHYSTOP too high'' else
      kbind (kfirst (kmap data) (\<lambda>k. kbind (mappages pgdir (km_virt k) (u32 (km_end k + (2 ^ 32 - km_start k))) (km_start k) (km_perm k))
          (\<lambda>r. if r < 0 then kseq (freevm pgdir) (kret (Some 0)) else kret None)))
        (\<lambda>r. case r of Some z \<Rightarrow> kret z | None \<Rightarrow> kret pgdir)))"

definition inituvm :: "nat \<Rightarrow> byte list \<Rightarrow> ('x kmem_scheme, unit) kmon" where
  "inituvm pgdir init = (if length init \<ge> PGSIZE then kpanic ''inituvm: more than a page'' else
     kbind kalloc (\<lambda>page. kseq (setmem (memset page 0 PGSIZE))
       (kbind (mappages pgdir 0 PGSIZE (V2P page) (or PTE_W PTE_U)) (\<lambda>r.
          setmem (\<lambda>m x. if page \<le> x \<and> x < page + length init then init ! (x - page) else m x)))))"

definition clearpteu :: "nat \<Rightarrow> nat \<Rightarrow> ('x kmem_scheme, unit) kmon" where
  "clearpteu pgdir uva = kbind (walkpgdir pgdir uva False) (\<lambda>r. case r of None \<Rightarrow> kpanic ''clearpteu''
     | Some pte \<Rightarrow> setmem (\<lambda>m. st32 m pte (and (le32 m pte) (2 ^ 32 - 1 - PTE_U))))"

function copyuvm_loop :: "nat \<Rightarrow> nat \<Rightarrow> nat \<Rightarrow> nat \<Rightarrow> ('x kmem_scheme, bool) kmon" where
  "copyuvm_loop pgdir d i sz = (if \<not> i < sz then kret True else
     kbind (walkpgdir pgdir i False) (\<lambda>r. case r of None \<Rightarrow> kpanic ''copyuvm: pte should exist'' | Some pte \<Rightarrow>
     kbind (kget (\<lambda>s. le32 (mem s) pte)) (\<lambda>e. if \<not> present e then kpanic ''copyuvm: page not present'' else
     kbind kalloc (\<lambda>page. if page = 0 then kret False else
       kseq (setmem (memmove page (P2V (PTE_ADDR e)) PGSIZE))
       (kbind (mappages d i PGSIZE (V2P page) (PTE_FLAGS e)) (\<lambda>w. if w < 0 then kseq (kfree page) (kret False)
          else copyuvm_loop pgdir d (i + PGSIZE) sz))))))"
  by pat_completeness auto
termination by (relation "measure (\<lambda>(pgdir, d, i, sz). sz - i)") (auto simp: PGSIZE_num)

declare copyuvm_loop.simps [simp del]

definition copyuvm :: "nat \<Rightarrow> nat \<Rightarrow> nat \<Rightarrow> ('x kmem_scheme, nat) kmon" where
  "copyuvm data pgdir sz = kbind (setupkvm data) (\<lambda>d. if d = 0 then kret 0 else
     kbind (copyuvm_loop pgdir d 0 sz) (\<lambda>b. if b then kret d else kseq (freevm d) (kret 0)))"

text \<open>
  \<^verbatim>\<open>uva2ka\<close> reads through the pointer \<^verbatim>\<open>walkpgdir\<close> returns without testing it: where no page table
  exists it reads the entry at address 0.
\<close>

definition uva2ka :: "nat \<Rightarrow> nat \<Rightarrow> ('x kmem_scheme, nat) kmon" where
  "uva2ka pgdir uva = kbind (walkpgdir pgdir uva False) (\<lambda>r.
     kbind (kget (\<lambda>s. le32 (mem s) (case r of None \<Rightarrow> 0 | Some pte \<Rightarrow> pte))) (\<lambda>e.
       if \<not> present e then kret 0 else if \<not> user e then kret 0 else kret (P2V (PTE_ADDR e))))"

text \<open>\<^verbatim>\<open>copyout\<close> with its source given by its bytes.\<close>

function copyout :: "nat \<Rightarrow> nat \<Rightarrow> byte list \<Rightarrow> ('x kmem_scheme, int) kmon" where
  "copyout pgdir va p = (if p = [] then kret 0 else
     (let va0 = PGROUNDDOWN va; n = min (PGSIZE - (va - va0)) (length p) in
      kbind (uva2ka pgdir va0) (\<lambda>pa0. if pa0 = 0 then kret (- 1) else
        kseq (setmem (\<lambda>m x. if pa0 + (va - va0) \<le> x \<and> x < pa0 + (va - va0) + n then p ! (x - (pa0 + (va - va0))) else m x))
          (copyout pgdir (u32 (va0 + PGSIZE)) (drop n p)))))"
  by pat_completeness auto
termination
proof (relation "measure (\<lambda>(pgdir, va, p). length p)", goal_cases)
  case (2 pgdir va p x xa y)
  have "va - PGROUNDDOWN va < PGSIZE"
    using div_mult_mod_eq [of va PGSIZE] mod_less_divisor [of PGSIZE va] by (simp add: PGROUNDDOWN_def PGSIZE_num)
  then show ?case using 2 by (simp add: PGSIZE_num)
qed simp

declare copyout.simps [simp del]

end
