(* ===== verification/VmProps.thy ===== *)
theory VmProps
  imports Vm
begin

text \<open>
  What the page-table functions do to the translation of virtual addresses. \<open>mapping m pgdir va\<close>
  is the entry the hardware would find for \<open>va\<close>; \<open>vm_ok\<close> is the representation invariant: the
  directory and the page tables are distinct pages, none of them on the free list.
\<close>

section \<open>Entries and words\<close>

lemma PTE_nums: "PTE_P = 1" "PTE_W = 2" "PTE_U = 4" "NPDENTRIES = 1024"
  by (simp_all add: PTE_P_def PTE_W_def PTE_U_def NPDENTRIES_def)

lemma present_odd: "present e \<longleftrightarrow> odd e"
  by (simp add: present_def PTE_nums and_one_eq odd_iff_mod_2_eq_one)

lemma or_aligned: "a mod 4096 = 0 \<Longrightarrow> b < 4096 \<Longrightarrow> or a b = a + (b :: nat)"
proof -
  assume a: "a mod 4096 = 0" and b: "b < 4096"
  have "\<not> bit a n \<or> \<not> bit b n" for n
  proof (cases "n < 12")
    case True
    have "take_bit 12 a = 0" using a by (simp add: take_bit_eq_mod)
    then have "\<not> bit a n" using True by (metis bit_0_eq bit_take_bit_iff bot_apply bot_bool_def)
    then show ?thesis ..
  next
    case False
    have "take_bit 12 b = b" using b by (simp add: take_bit_eq_mod)
    then have "\<not> bit b n" using False by (metis bit_take_bit_iff)
    then show ?thesis ..
  qed
  then show ?thesis by (metis disjunctive_add)
qed

lemma pt_bits: "or (or (or a PTE_P) PTE_W) PTE_U = or a 7"
  by (simp add: or.assoc PTE_P_def PTE_W_def PTE_U_def)

lemma V2P_page: "page_ok e p \<Longrightarrow> V2P p = p - KERNBASE \<and> V2P p mod 4096 = 0 \<and> V2P p < PHYSTOP \<and> P2V (V2P p) = p"
proof -
  assume p: "page_ok e p"
  then obtain w where w: "p = KERNBASE + w" "w < PHYSTOP" unfolding page_ok_def by (metis add_less_cancel_left le_iff_add)
  then have "p + (2 ^ 32 - KERNBASE) = w + 2 ^ 32" by (simp add: KERNBASE_num)
  then have v: "V2P p = w" using w(2) by (simp add: V2P_def u32_def PHYSTOP_num)
  have "p = w + 524288 * 4096" using w(1) by (simp add: KERNBASE_num)
  then have "p mod 4096 = w mod 4096" by (simp only: mod_mult_self1)
  then have "w mod 4096 = 0" using p by (simp add: page_ok_def PGSIZE_num)
  then show ?thesis using v w by (simp add: P2V_def u32_def KERNBASE_num PHYSTOP_num)
qed

definition aligned :: "nat \<Rightarrow> bool" where "aligned p \<longleftrightarrow> p mod PGSIZE = 0"

lemma entry_in_page: "k < 1024 \<Longrightarrow> i < 4 \<Longrightarrow> in_page q (q + 4 * k + i)"
  by (simp add: in_page_def PGSIZE_num)

lemma le32_store_entry:
  assumes "aligned q" "aligned q'" "k < 1024" "k' < 1024" "v < 2 ^ 32"
  shows "le32 (st32 m (q + 4 * k) v) (q' + 4 * k') = (if q = q' \<and> k = k' then v else le32 m (q' + 4 * k'))"
proof (cases "q = q' \<and> k = k'")
  case True
  then show ?thesis using assms(5) by (simp add: le32_st32)
next
  case False
  have "q' + 4 * k' + i < q + 4 * k \<or> q + 4 * k + 4 \<le> q' + 4 * k' + i" if i: "i < 4" for i
  proof (cases "q = q'")
    case True
    then show ?thesis using False i by auto
  next
    case False
    then have "\<not> in_page q (q' + 4 * k' + i)"
      using pages_apart [of q' q] assms(1,2) entry_in_page [OF assms(4) i] by (auto simp: aligned_def)
    then show ?thesis using assms(3) by (auto simp: in_page_def PGSIZE_num)
  qed
  then have "le32 (st32 m (q + 4 * k) v) (q' + 4 * k') = le32 m (q' + 4 * k')"
    by (intro le32_cong st32_other) (simp add: add.assoc)
  then show ?thesis using False by auto
qed

lemma le32_zero_page:
  assumes "aligned q" "aligned q'" "k < 1024"
  shows "le32 (memset q 0 PGSIZE m) (q' + 4 * k) = (if q = q' then 0 else le32 m (q' + 4 * k))"
proof -
  have z: "memset q 0 PGSIZE m x = (if in_page q x then 0 else m x)" for x by (simp add: memset_spec in_page_def)
  show ?thesis
  proof (cases "q = q'")
    case True
    have "le32 (memset q 0 PGSIZE m) (q' + 4 * k) = le32 (\<lambda>_. 0) (q' + 4 * k)"
      using True entry_in_page [OF assms(3)] by (intro le32_cong) (simp add: memset_spec in_page_def)
    then show ?thesis using True by (simp add: le32_def)
  next
    case False
    have "le32 (memset q 0 PGSIZE m) (q' + 4 * k) = le32 m (q' + 4 * k)"
      using False entry_in_page [OF assms(3)] pages_apart [of q' q] assms(1,2)
      by (intro le32_cong) (simp add: z aligned_def)
    then show ?thesis using False by simp
  qed
qed

section \<open>Translation\<close>

definition pgtab :: "(nat \<Rightarrow> byte) \<Rightarrow> nat \<Rightarrow> nat \<Rightarrow> nat" where
  "pgtab m pgdir d = P2V (PTE_ADDR (le32 m (pgdir + 4 * d)))"

definition mapping :: "(nat \<Rightarrow> byte) \<Rightarrow> nat \<Rightarrow> nat \<Rightarrow> nat option" where
  "mapping m pgdir va = (if present (le32 m (pgdir + 4 * PDX va)) then
      (let e = le32 m (pgtab m pgdir (PDX va) + 4 * PTX va) in if present e then Some e else None) else None)"

definition vm_ok :: "'x kmem_scheme \<Rightarrow> nat \<Rightarrow> nat list \<Rightarrow> bool" where
  "vm_ok s pgdir ps \<longleftrightarrow> kmem_ready s \<and> free_pages s ps \<and> page_ok (kend s) pgdir \<and> pgdir \<notin> set ps \<and>
     (\<forall>d<1024. present (le32 (mem s) (pgdir + 4 * d)) \<longrightarrow>
        page_ok (kend s) (pgtab (mem s) pgdir d) \<and> pgtab (mem s) pgdir d \<notin> set ps \<and> pgtab (mem s) pgdir d \<noteq> pgdir) \<and>
     (\<forall>d<1024. \<forall>d'<1024. present (le32 (mem s) (pgdir + 4 * d)) \<longrightarrow> present (le32 (mem s) (pgdir + 4 * d')) \<longrightarrow>
        pgtab (mem s) pgdir d = pgtab (mem s) pgdir d' \<longrightarrow> d = d')"

lemma PDX_less [simp]: "PDX va < 1024" and PTX_less [simp]: "PTX va < 1024"
  by (simp_all add: PDX_def PTX_def)

lemma page_aligned: "page_ok e p \<Longrightarrow> aligned p"
  by (simp add: page_ok_def aligned_def)

lemma same_page: "va < 2 ^ 32 \<Longrightarrow> vb < 2 ^ 32 \<Longrightarrow> PDX va = PDX vb \<and> PTX va = PTX vb \<longleftrightarrow> va div 4096 = vb div 4096"
proof -
  assume a: "va < 2 ^ 32" "vb < 2 ^ 32"
  have d: "x div 4194304 = x div 4096 div 1024" for x :: nat by (simp add: div_mult2_eq [symmetric])
  have "x div 4096 div 1024 < 1024" if "x < 2 ^ 32" for x :: nat using that by (simp add: div_mult2_eq [symmetric])
  then have p: "PDX va = va div 4096 div 1024" "PDX vb = vb div 4096 div 1024" using a by (simp_all add: PDX_def d)
  have q: "x = x div 1024 * 1024 + x mod 1024" for x :: nat by simp
  show ?thesis unfolding p PTX_def using q [of "va div 4096"] q [of "vb div 4096"] by metis
qed

lemma vm_okD:
  assumes "vm_ok s pgdir ps"
  shows "kmem_ready s" "free_pages s ps" "page_ok (kend s) pgdir" "pgdir \<notin> set ps" "aligned pgdir"
    and "\<And>d. d < 1024 \<Longrightarrow> present (le32 (mem s) (pgdir + 4 * d)) \<Longrightarrow>
      page_ok (kend s) (pgtab (mem s) pgdir d) \<and> aligned (pgtab (mem s) pgdir d) \<and> pgtab (mem s) pgdir d \<notin> set ps \<and> pgtab (mem s) pgdir d \<noteq> pgdir"
    and "\<And>d d'. d < 1024 \<Longrightarrow> d' < 1024 \<Longrightarrow> present (le32 (mem s) (pgdir + 4 * d)) \<Longrightarrow> present (le32 (mem s) (pgdir + 4 * d')) \<Longrightarrow>
        pgtab (mem s) pgdir d = pgtab (mem s) pgdir d' \<Longrightarrow> d = d'"
  using assms page_aligned unfolding vm_ok_def by blast+

lemma kmem_ready_mem [simp]: "kmem_ready (s\<lparr>mem := m\<rparr>) = kmem_ready s"
  using cli_ok_cong [of "s\<lparr>mem := m\<rparr>" s] by (simp add: kmem_ready_def)

lemma kquiet_mem: "kquiet s t \<Longrightarrow> kquiet s (t\<lparr>mem := m\<rparr>)"
  by (simp add: kquiet_def)

text \<open>Storing into one page keeps the free list when the page is not on it.\<close>

lemma free_pages_store:
  assumes "free_pages s ps" "aligned q" "q \<notin> set ps" "\<And>x. \<not> in_page q x \<Longrightarrow> m x = mem s x"
  shows "free_pages (s\<lparr>mem := m\<rparr>) ps"
proof (rule free_pages_cong [OF assms(1)])
  fix p x assume p: "p \<in> set ps" "in_page p x"
  then have "aligned p" "p \<noteq> q" using assms(1,3) page_aligned by (auto simp: free_pages_def)
  then have "\<not> in_page q x" using p(2) assms(2) pages_apart by (auto simp: aligned_def)
  then show "mem (s\<lparr>mem := m\<rparr>) x = mem s x" using assms(4) by simp
qed simp_all

lemma st32_in_page: "k < 1024 \<Longrightarrow> \<not> in_page q x \<Longrightarrow> st32 m (q + 4 * k) v x = m x"
  by (rule st32_other) (auto simp: in_page_def PGSIZE_num)

lemma memset_in_page: "\<not> in_page q x \<Longrightarrow> memset q c PGSIZE m x = m x"
  by (auto simp: memset_spec in_page_def)

section \<open>Walking and storing\<close>

text \<open>The memory after a page table for directory entry \<open>d\<close> has been installed in page \<open>p\<close>.\<close>

definition new_table :: "nat \<Rightarrow> nat \<Rightarrow> nat \<Rightarrow> (nat \<Rightarrow> byte) \<Rightarrow> nat \<Rightarrow> byte" where
  "new_table pgdir d p m = st32 (memset p 0 PGSIZE m) (pgdir + 4 * d) (or (V2P p) 7)"

lemma new_table_entries:
  assumes p: "page_ok e p" "aligned pgdir" "p \<noteq> pgdir" "d < 1024"
  shows "d' < 1024 \<Longrightarrow> le32 (new_table pgdir d p m) (pgdir + 4 * d') = (if d' = d then or (V2P p) 7 else le32 m (pgdir + 4 * d'))"
    and "aligned q \<Longrightarrow> q \<noteq> pgdir \<Longrightarrow> k < 1024 \<Longrightarrow> le32 (new_table pgdir d p m) (q + 4 * k) = (if q = p then 0 else le32 m (q + 4 * k))"
    and "present (or (V2P p) 7)" "P2V (PTE_ADDR (or (V2P p) 7)) = p"
proof -
  have v: "V2P p mod 4096 = 0" "V2P p < PHYSTOP" "P2V (V2P p) = p" using V2P_page [OF p(1)] by blast+
  have o: "or (V2P p) 7 = V2P p + 7" using v by (intro or_aligned) simp_all
  then have b: "or (V2P p) 7 < 2 ^ 32" using v by (simp add: PHYSTOP_num)
  note al = page_aligned [OF p(1)]
  show "le32 (new_table pgdir d p m) (pgdir + 4 * d') = (if d' = d then or (V2P p) 7 else le32 m (pgdir + 4 * d'))" if "d' < 1024"
    using that p al b by (auto simp: new_table_def le32_store_entry le32_zero_page)
  show "le32 (new_table pgdir d p m) (q + 4 * k) = (if q = p then 0 else le32 m (q + 4 * k))" if "aligned q" "q \<noteq> pgdir" "k < 1024"
    using that p al b by (auto simp: new_table_def le32_store_entry le32_zero_page)
  obtain w where w: "V2P p = 4096 * w" using v(1) by auto
  then have "even (V2P p)" by simp
  then show "present (or (V2P p) 7)" by (simp add: present_odd o)
  have "PTE_ADDR (or (V2P p) 7) = V2P p" unfolding o PTE_ADDR_def unfolding w by simp
  then show "P2V (PTE_ADDR (or (V2P p) 7)) = p" using v by simp
qed

lemma new_table_ok:
  assumes v: "vm_ok s pgdir (p # ps)" and d: "d < 1024" "\<not> present (le32 (mem s) (pgdir + 4 * d))"
    and t: "free_pages t ps" "mem t = mem s" "kquiet s t"
  shows "vm_ok (t\<lparr>mem := new_table pgdir d p (mem s)\<rparr>) pgdir ps" "mapping (new_table pgdir d p (mem s)) pgdir = mapping (mem s) pgdir"
    "present (le32 (new_table pgdir d p (mem s)) (pgdir + 4 * d))" "pgtab (new_table pgdir d p (mem s)) pgdir d = p"
proof -
  let ?m = "new_table pgdir d p (mem s)"
  note vd = vm_okD [OF v]
  have p: "page_ok (kend s) p" "p \<noteq> pgdir" "aligned p" "p \<notin> set ps" using vd(2,4) page_aligned by (auto simp: free_pages_def)
  note e = new_table_entries(1,2) [OF p(1) vd(5) p(2) d(1), where m = "mem s"] and e2 = new_table_entries(3,4) [OF p(1) vd(5) p(2) d(1)]
  have pt: "pgtab ?m pgdir d' = (if d' = d then p else pgtab (mem s) pgdir d')" if "d' < 1024" for d'
    using that e e2 by (simp add: pgtab_def)
  have pr: "present (le32 ?m (pgdir + 4 * d')) \<longleftrightarrow> d' = d \<or> present (le32 (mem s) (pgdir + 4 * d'))" if "d' < 1024" for d'
    using that e e2 by auto
  show "present (le32 ?m (pgdir + 4 * d))" "pgtab ?m pgdir d = p" using pr [OF d(1)] pt [OF d(1)] by simp_all
  have old: "pgtab (mem s) pgdir d' \<noteq> p" if "d' < 1024" "present (le32 (mem s) (pgdir + 4 * d'))" for d'
    using vd(6) [OF that] by auto
  show "mapping ?m pgdir = mapping (mem s) pgdir"
  proof
    fix va
    show "mapping ?m pgdir va = mapping (mem s) pgdir va"
    proof (cases "PDX va = d")
      case True
      then show ?thesis using d p vd(5) e pr [of d] pt [of d] by (simp add: mapping_def Let_def present_odd)
    next
      case False
      then show ?thesis using e vd(6) [of "PDX va"] old [of "PDX va"] pr [of "PDX va"] pt [of "PDX va"]
        by (auto simp: mapping_def Let_def)
    qed
  qed
  have fp: "free_pages (t\<lparr>mem := ?m\<rparr>) ps"
  proof -
    have 1: "free_pages (t\<lparr>mem := memset p 0 PGSIZE (mem s)\<rparr>) ps"
      using t p by (intro free_pages_store [OF t(1), of p]) (simp_all add: memset_in_page)
    have "free_pages (t\<lparr>mem := memset p 0 PGSIZE (mem s), mem := ?m\<rparr>) ps"
      using vd(4,5) d(1) by (intro free_pages_store [OF 1, of pgdir]) (simp_all add: new_table_def st32_in_page)
    then show ?thesis by simp
  qed
  have k: "kend t = kend s" using kquiet_kend [OF t(3)] .
  show "vm_ok (t\<lparr>mem := ?m\<rparr>) pgdir ps" unfolding vm_ok_def
  proof (intro conjI allI impI)
    show "kmem_ready (t\<lparr>mem := ?m\<rparr>)" using kquiet_ready [OF t(3) vd(1)] by simp
  next
    fix d' assume a: "d' < 1024" "present (le32 (mem (t\<lparr>mem := ?m\<rparr>)) (pgdir + 4 * d'))"
    then consider "d' = d" | "d' \<noteq> d" "present (le32 (mem s) (pgdir + 4 * d'))" using pr by auto
    then have "page_ok (kend s) (pgtab ?m pgdir d') \<and> pgtab ?m pgdir d' \<notin> set ps \<and> pgtab ?m pgdir d' \<noteq> pgdir"
      using vd(6) [OF a(1)] p pt [OF a(1)] by cases auto
    then show "page_ok (kend (t\<lparr>mem := ?m\<rparr>)) (pgtab (mem (t\<lparr>mem := ?m\<rparr>)) pgdir d')"
      "pgtab (mem (t\<lparr>mem := ?m\<rparr>)) pgdir d' \<notin> set ps" "pgtab (mem (t\<lparr>mem := ?m\<rparr>)) pgdir d' \<noteq> pgdir" using k by simp_all
  next
    fix d1 d2
    assume a: "d1 < 1024" "d2 < 1024" "present (le32 (mem (t\<lparr>mem := ?m\<rparr>)) (pgdir + 4 * d1))"
      "present (le32 (mem (t\<lparr>mem := ?m\<rparr>)) (pgdir + 4 * d2))" "pgtab (mem (t\<lparr>mem := ?m\<rparr>)) pgdir d1 = pgtab (mem (t\<lparr>mem := ?m\<rparr>)) pgdir d2"
    show "d1 = d2"
    proof (rule ccontr)
      assume n: "d1 \<noteq> d2"
      show False using a n pr pt old vd(7) [OF a(1,2)] by (auto split: if_splits)
    qed
  qed (use fp k vd in auto)
qed

lemma walkpgdir_ok:
  assumes v: "vm_ok s pgdir ps"
  shows "wp (walkpgdir pgdir va alloc) (\<lambda>r t. kquiet s t \<and> mapping (mem t) pgdir = mapping (mem s) pgdir \<and>
     (case r of None \<Rightarrow> mem t = mem s \<and> vm_ok t pgdir ps \<and> \<not> present (le32 (mem s) (pgdir + 4 * PDX va)) \<and> (alloc \<longrightarrow> ps = [])
      | Some pte \<Rightarrow> (\<exists>ps'. vm_ok t pgdir ps' \<and> set ps' \<subseteq> set ps) \<and> present (le32 (mem t) (pgdir + 4 * PDX va)) \<and>
          pte = pgtab (mem t) pgdir (PDX va) + 4 * PTX va \<and> (\<not> alloc \<longrightarrow> t = s))) s"
proof -
  let ?Q = "\<lambda>r t. kquiet s t \<and> mapping (mem t) pgdir = mapping (mem s) pgdir \<and>
     (case r of None \<Rightarrow> mem t = mem s \<and> vm_ok t pgdir ps \<and> \<not> present (le32 (mem s) (pgdir + 4 * PDX va)) \<and> (alloc \<longrightarrow> ps = [])
      | Some pte \<Rightarrow> (\<exists>ps'. vm_ok t pgdir ps' \<and> set ps' \<subseteq> set ps) \<and> present (le32 (mem t) (pgdir + 4 * PDX va)) \<and>
          pte = pgtab (mem t) pgdir (PDX va) + 4 * PTX va \<and> (\<not> alloc \<longrightarrow> t = s))"
  note vd = vm_okD [OF v]
  consider (hit) "present (le32 (mem s) (pgdir + 4 * PDX va))" | (stop) "\<not> present (le32 (mem s) (pgdir + 4 * PDX va))" "\<not> alloc"
    | (fill) "\<not> present (le32 (mem s) (pgdir + 4 * PDX va))" "alloc" by blast
  then show ?thesis
  proof cases
    case hit
    then show ?thesis using v by (auto simp: walkpgdir_def Let_def pgtab_def)
  next
    case stop
    then show ?thesis using v by (simp add: walkpgdir_def Let_def)
  next
    case fill
    have "wp kalloc (\<lambda>p. wp (if p = 0 then kret None else kseq (setmem (memset p 0 PGSIZE))
         (kseq (setmem (\<lambda>m. st32 m (pgdir + 4 * PDX va) (or (or (or (V2P p) PTE_P) PTE_W) PTE_U)))
            (kret (Some (p + 4 * PTX va))))) ?Q) s"
    proof (rule wp_conseq [OF kalloc_ok [OF vd(1,2)]])
      fix p :: nat and t
      assume t: "mem t = mem s \<and> kquiet s t \<and> (case ps of [] \<Rightarrow> p = 0 \<and> free_pages t [] | q # qs \<Rightarrow> p = q \<and> free_pages t qs)"
      show "wp (if p = 0 then kret None else kseq (setmem (memset p 0 PGSIZE))
         (kseq (setmem (\<lambda>m. st32 m (pgdir + 4 * PDX va) (or (or (or (V2P p) PTE_P) PTE_W) PTE_U)))
            (kret (Some (p + 4 * PTX va))))) ?Q t"
      proof (cases ps)
        case Nil
        moreover have "kend t = kend s" "kmem_ready t" using t vd(1) kquiet_ready [of s t] kquiet_kend [of s t] by auto
        then have "vm_ok t pgdir []" using t v Nil by (auto simp: vm_ok_def)
        ultimately show ?thesis using t fill by simp
      next
        case (Cons q qs)
        have "q \<noteq> 0" using vd(2) Cons by (simp add: free_pages_def)
        have c: "vm_ok s pgdir (q # qs)" "free_pages t qs" "mem t = mem s" "kquiet s t" using t v Cons by simp_all
        note n = new_table_ok [OF c(1) PDX_less fill(1) c(2-4)]
        show ?thesis using t Cons n \<open>q \<noteq> 0\<close> kquiet_mem [OF c(4)] fill(2)
          by (auto simp: setmem_def pt_bits new_table_def [symmetric] intro!: exI [of _ qs])
      qed
    qed
    then show ?thesis using fill by (simp add: walkpgdir_def Let_def)
  qed
qed

lemma store_pte_ok:
  assumes v: "vm_ok s pgdir ps" and d: "present (le32 (mem s) (pgdir + 4 * PDX va))" and e: "e < 2 ^ 32"
    and va: "va < 2 ^ 32"
  shows "vm_ok (s\<lparr>mem := st32 (mem s) (pgtab (mem s) pgdir (PDX va) + 4 * PTX va) e\<rparr>) pgdir ps"
    and "x < 2 ^ 32 \<Longrightarrow> mapping (st32 (mem s) (pgtab (mem s) pgdir (PDX va) + 4 * PTX va) e) pgdir x =
       (if x div 4096 = va div 4096 then (if present e then Some e else None) else mapping (mem s) pgdir x)"
proof -
  let ?q = "pgtab (mem s) pgdir (PDX va)"
  let ?m = "st32 (mem s) (?q + 4 * PTX va) e"
  note vd = vm_okD [OF v]
  have q: "aligned ?q" "?q \<notin> set ps" "?q \<noteq> pgdir" using vd(6) [OF PDX_less d] by blast+
  have dir: "le32 ?m (pgdir + 4 * d') = le32 (mem s) (pgdir + 4 * d')" if "d' < 1024" for d'
    using that q vd(5) e by (subst le32_store_entry) auto
  have pt: "pgtab ?m pgdir d' = pgtab (mem s) pgdir d'" if "d' < 1024" for d' using dir [OF that] by (simp add: pgtab_def)
  have "free_pages (s\<lparr>mem := ?m\<rparr>) ps" using q by (intro free_pages_store [OF vd(2), of ?q]) (simp_all add: st32_in_page)
  then show "vm_ok (s\<lparr>mem := ?m\<rparr>) pgdir ps" using v by (simp add: vm_ok_def dir pt)
  show "mapping ?m pgdir x = (if x div 4096 = va div 4096 then (if present e then Some e else None) else mapping (mem s) pgdir x)" if x: "x < 2 ^ 32"
  proof (cases "present (le32 (mem s) (pgdir + 4 * PDX x))")
    case True
    have ax: "aligned (pgtab (mem s) pgdir (PDX x))" using vd(6) [OF PDX_less True] by blast
    have "?q = pgtab (mem s) pgdir (PDX x) \<longleftrightarrow> PDX va = PDX x" using vd(7) [OF PDX_less PDX_less d True] by auto
    then have "le32 ?m (pgtab (mem s) pgdir (PDX x) + 4 * PTX x) =
        (if va div 4096 = x div 4096 then e else le32 (mem s) (pgtab (mem s) pgdir (PDX x) + 4 * PTX x))"
      using le32_store_entry [OF q(1) ax PTX_less PTX_less e, of "mem s" va x] same_page [OF va x] by simp
    then show ?thesis using True by (auto simp: mapping_def Let_def dir pt)
  next
    case False
    then have "x div 4096 \<noteq> va div 4096" using same_page [OF x va] d by metis
    then show ?thesis using False by (simp add: mapping_def dir)
  qed
qed

section \<open>Mapping a range\<close>

text \<open>\<open>mapped m pgdir a n pa perm old\<close>: the \<open>n\<close> pages from \<open>a\<close> are mapped to the pages from \<open>pa\<close>, the rest is as in \<open>old\<close>.\<close>

definition pages_from :: "nat \<Rightarrow> nat \<Rightarrow> nat \<Rightarrow> bool" where
  "pages_from a n x \<longleftrightarrow> a div 4096 \<le> x div 4096 \<and> x div 4096 < a div 4096 + n"

definition mapped :: "(nat \<Rightarrow> byte) \<Rightarrow> nat \<Rightarrow> nat \<Rightarrow> nat \<Rightarrow> nat \<Rightarrow> nat \<Rightarrow> (nat \<Rightarrow> nat option) \<Rightarrow> bool" where
  "mapped m pgdir a n pa perm old \<longleftrightarrow> (\<forall>x<2 ^ 32. mapping m pgdir x =
     (if pages_from a n x then Some (pa + (x div 4096 - a div 4096) * 4096 + or perm 1) else old x))"

lemma pte_value: "pa mod 4096 = 0 \<Longrightarrow> perm < 4096 \<Longrightarrow> or (or pa perm) PTE_P = pa + or perm 1 \<and> or perm 1 < 4096"
proof -
  assume a: "pa mod 4096 = 0" "perm < 4096"
  have "perm \<noteq> 4095" if "even perm" using that by auto
  then have o: "or perm 1 < 4096" using a(2) by (cases "even perm") (auto simp: or_Suc_0_eq)
  have "or (or pa perm) PTE_P = or pa (or perm 1)" by (simp add: PTE_P_def or.assoc)
  then show ?thesis using or_aligned [OF a(1) o] o by simp
qed

lemma mapped_step:
  assumes m: "\<And>x. x < 2 ^ 32 \<Longrightarrow> mapping m pgdir x = (if x div 4096 = a div 4096 then Some (pa + or perm 1) else old x)"
    and r: "mapped m' pgdir (a + 4096) n (pa + 4096) perm (mapping m pgdir)"
  shows "mapped m' pgdir a (Suc n) pa perm old"
  unfolding mapped_def
proof (intro allI impI)
  fix x :: nat assume x: "x < 2 ^ 32"
  have d: "(a + 4096) div 4096 = Suc (a div 4096)" by simp
  consider "x div 4096 = a div 4096" | "pages_from (a + 4096) n x" | "\<not> pages_from a (Suc n) x" "\<not> pages_from (a + 4096) n x" "x div 4096 \<noteq> a div 4096"
    unfolding pages_from_def d by linarith
  then show "mapping m' pgdir x = (if pages_from a (Suc n) x then Some (pa + (x div 4096 - a div 4096) * 4096 + or perm 1) else old x)"
  proof cases
    case 1
    then have "\<not> pages_from (a + 4096) n x" "pages_from a (Suc n) x" unfolding pages_from_def d by simp_all
    then show ?thesis using r m [OF x] x 1 by (simp add: mapped_def)
  next
    case 2
    then have p: "pages_from a (Suc n) x" "x div 4096 - a div 4096 = Suc (x div 4096 - (a + 4096) div 4096)"
      unfolding pages_from_def d by linarith+
    then show ?thesis using r x 2 by (simp add: mapped_def del: d)
  next
    case 3
    then show ?thesis using r m [OF x] x by (simp add: mapped_def)
  qed
qed

text \<open>One page of \<^verbatim>\<open>mappages\<close>, with what follows it as a continuation.\<close>

lemma map_one:
  assumes v: "vm_ok s pgdir ps" and a: "a < 2 ^ 32" "mapping (mem s) pgdir a = None"
    and pa: "pa mod 4096 = 0" "pa + 4096 \<le> 2 ^ 32" "perm < 4096"
    and rest: "\<And>t ps'. kquiet s t \<Longrightarrow> vm_ok t pgdir ps' \<Longrightarrow> set ps' \<subseteq> set ps \<Longrightarrow>
        (\<And>x. x < 2 ^ 32 \<Longrightarrow> mapping (mem t) pgdir x = (if x div 4096 = a div 4096 then Some (pa + or perm 1) else mapping (mem s) pgdir x)) \<Longrightarrow> wp rest Q t"
    and fail: "\<And>t. kquiet s t \<Longrightarrow> vm_ok t pgdir [] \<Longrightarrow> mem t = mem s \<Longrightarrow> Q (- 1) t"
  shows "wp (kbind (walkpgdir pgdir a True) (\<lambda>r. case r of None \<Rightarrow> kret (- 1) | Some pte \<Rightarrow>
     kbind (kget (\<lambda>s. le32 (mem s) pte)) (\<lambda>e. if present e then kpanic ''remap'' else
       kseq (setmem (\<lambda>m. st32 m pte (or (or pa perm) PTE_P))) rest))) Q s"
  unfolding wp_kbind [of "walkpgdir pgdir a True"]
proof (rule wp_conseq [OF walkpgdir_ok [OF v, of a True]], elim conjE)
  fix r :: "nat option" and t
  assume q: "kquiet s t" and mp: "mapping (mem t) pgdir = mapping (mem s) pgdir"
    and c: "case r of None \<Rightarrow> mem t = mem s \<and> vm_ok t pgdir ps \<and> \<not> present (le32 (mem s) (pgdir + 4 * PDX a)) \<and> (True \<longrightarrow> ps = [])
      | Some pte \<Rightarrow> (\<exists>ps'. vm_ok t pgdir ps' \<and> set ps' \<subseteq> set ps) \<and> present (le32 (mem t) (pgdir + 4 * PDX a)) \<and>
          pte = pgtab (mem t) pgdir (PDX a) + 4 * PTX a \<and> (\<not> True \<longrightarrow> t = s)"
  have val: "or (or pa perm) PTE_P = pa + or perm 1" "or perm 1 < 4096" using pte_value [OF pa(1,3)] by blast+
  obtain w where "pa = 4096 * w" using pa(1) by auto
  then have pr: "present (pa + or perm 1)" by (simp add: present_odd even_or_iff)
  show "wp (case r of None \<Rightarrow> kret (- 1) | Some pte \<Rightarrow>
     kbind (kget (\<lambda>s. le32 (mem s) pte)) (\<lambda>e. if present e then kpanic ''remap'' else
       kseq (setmem (\<lambda>m. st32 m pte (or (or pa perm) PTE_P))) rest)) Q t"
  proof (cases r)
    case None
    then show ?thesis using c fail q by auto
  next
    case (Some pte)
    then obtain ps' where ps': "vm_ok t pgdir ps'" "set ps' \<subseteq> set ps" and d: "present (le32 (mem t) (pgdir + 4 * PDX a))"
      and pte: "pte = pgtab (mem t) pgdir (PDX a) + 4 * PTX a" using c by auto
    have "mapping (mem t) pgdir a = None" using a(2) mp by simp
    then have n: "\<not> present (le32 (mem t) pte)" using d pte by (auto simp: mapping_def Let_def split: if_splits)
    have e: "pa + or perm 1 < 2 ^ 32" using val pa(2) by simp
    note st = store_pte_ok [OF ps'(1) d e a(1)]
    let ?u = "t\<lparr>mem := st32 (mem t) pte (pa + or perm 1)\<rparr>"
    have "wp rest Q ?u"
      using st mp pr pte by (intro rest [OF kquiet_mem [OF q] _ ps'(2)]) simp_all
    then show ?thesis using Some n val(1) by (simp add: setmem_def)
  qed
qed

lemma mappages_loop_ok:
  assumes "vm_ok s pgdir ps" "a mod 4096 = 0" "a + (k + 1) * 4096 \<le> 2 ^ 32" "pa mod 4096 = 0" "pa + (k + 1) * 4096 \<le> 2 ^ 32"
    "perm < 4096" "\<forall>x<2 ^ 32. pages_from a (k + 1) x \<longrightarrow> mapping (mem s) pgdir x = None"
  shows "wp (mappages_loop k pgdir a pa perm) (\<lambda>r t. kquiet s t \<and> (\<exists>ps'. vm_ok t pgdir ps' \<and> set ps' \<subseteq> set ps \<and> (r \<noteq> 0 \<longrightarrow> ps' = [])) \<and>
     (r = 0 \<and> mapped (mem t) pgdir a (k + 1) pa perm (mapping (mem s) pgdir) \<or>
      r = - 1 \<and> (\<forall>x<2 ^ 32. \<not> pages_from a (k + 1) x \<longrightarrow> mapping (mem t) pgdir x = mapping (mem s) pgdir x))) s"
  using assms
proof (induction k arbitrary: s ps a pa)
  case 0
  have one: "pages_from a (Suc 0) x \<longleftrightarrow> x div 4096 = a div 4096" for x by (auto simp: pages_from_def)
  have a: "a < 2 ^ 32" "mapping (mem s) pgdir a = None" using "0.prems"(3,7) one by auto
  show ?case unfolding mappages_loop.simps
    using "0.prems" by (intro map_one [OF "0.prems"(1) a]) (auto simp: mapped_def one split: if_splits)
next
  case (Suc k)
  have a: "a < 2 ^ 32" "mapping (mem s) pgdir a = None" using Suc.prems(3,7) by (auto simp: pages_from_def)
  have up: "pages_from (a + 4096) (k + 1) x \<Longrightarrow> pages_from a (Suc k + 1) x \<and> x div 4096 \<noteq> a div 4096" for x
    by (auto simp: pages_from_def)
  show ?case unfolding mappages_loop.simps
  proof (rule map_one [OF Suc.prems(1) a Suc.prems(4) _ Suc.prems(6)])
    fix t ps'
    assume t: "kquiet s t" "vm_ok t pgdir ps'" "set ps' \<subseteq> set ps"
      "\<And>x. x < 2 ^ 32 \<Longrightarrow> mapping (mem t) pgdir x = (if x div 4096 = a div 4096 then Some (pa + or perm 1) else mapping (mem s) pgdir x)"
    have b: "(a + 4096) mod 4096 = 0" "a + 4096 + (k + 1) * 4096 \<le> 2 ^ 32" "(pa + 4096) mod 4096 = 0" "pa + 4096 + (k + 1) * 4096 \<le> 2 ^ 32"
      "u32 (a + PGSIZE) = a + 4096" "u32 (pa + PGSIZE) = pa + 4096" using Suc.prems(2-5) by (simp_all add: PGSIZE_num)
    have fr: "\<forall>x<2 ^ 32. pages_from (a + 4096) (k + 1) x \<longrightarrow> mapping (mem t) pgdir x = None"
      using up t(4) Suc.prems(7) by auto
    have "wp (mappages_loop k pgdir (a + 4096) (pa + 4096) perm) (\<lambda>r u. kquiet t u \<and> (\<exists>ps''. vm_ok u pgdir ps'' \<and> set ps'' \<subseteq> set ps' \<and> (r \<noteq> 0 \<longrightarrow> ps'' = [])) \<and>
     (r = 0 \<and> mapped (mem u) pgdir (a + 4096) (k + 1) (pa + 4096) perm (mapping (mem t) pgdir) \<or>
      r = - 1 \<and> (\<forall>x<2 ^ 32. \<not> pages_from (a + 4096) (k + 1) x \<longrightarrow> mapping (mem u) pgdir x = mapping (mem t) pgdir x))) t"
      by (rule Suc.IH [OF t(2) b(1,2,3,4) Suc.prems(6) fr])
    then show "wp (mappages_loop k pgdir (u32 (a + PGSIZE)) (u32 (pa + PGSIZE)) perm) (\<lambda>r u. kquiet s u \<and> (\<exists>ps''. vm_ok u pgdir ps'' \<and> set ps'' \<subseteq> set ps \<and> (r \<noteq> 0 \<longrightarrow> ps'' = [])) \<and>
     (r = 0 \<and> mapped (mem u) pgdir a (Suc k + 1) pa perm (mapping (mem s) pgdir) \<or>
      r = - 1 \<and> (\<forall>x<2 ^ 32. \<not> pages_from a (Suc k + 1) x \<longrightarrow> mapping (mem u) pgdir x = mapping (mem s) pgdir x))) t"
      unfolding b(5,6)
    proof (rule wp_conseq, elim conjE exE)
      fix r :: int and u ps''
      assume u: "kquiet t u" "vm_ok u pgdir ps''" "set ps'' \<subseteq> set ps'" "r \<noteq> 0 \<longrightarrow> ps'' = []"
        and w: "r = 0 \<and> mapped (mem u) pgdir (a + 4096) (k + 1) (pa + 4096) perm (mapping (mem t) pgdir) \<or>
      r = - 1 \<and> (\<forall>x<2 ^ 32. \<not> pages_from (a + 4096) (k + 1) x \<longrightarrow> mapping (mem u) pgdir x = mapping (mem t) pgdir x)"
      have m: "mapped (mem u) pgdir a (Suc (k + 1)) pa perm (mapping (mem s) pgdir)" if "r = 0"
        using w that by (intro mapped_step [OF t(4)]) auto
      have f: "mapping (mem u) pgdir x = mapping (mem s) pgdir x" if "r = - 1" "x < 2 ^ 32" "\<not> pages_from a (Suc k + 1) x" for x
      proof -
        have "x div 4096 \<noteq> a div 4096" "\<not> pages_from (a + 4096) (k + 1) x" using that(3) up by (auto simp: pages_from_def)
        then show ?thesis using w t(4) [OF that(2)] that by auto
      qed
      show "kquiet s u \<and> (\<exists>ps''. vm_ok u pgdir ps'' \<and> set ps'' \<subseteq> set ps \<and> (r \<noteq> 0 \<longrightarrow> ps'' = [])) \<and>
     (r = 0 \<and> mapped (mem u) pgdir a (Suc k + 1) pa perm (mapping (mem s) pgdir) \<or>
      r = - 1 \<and> (\<forall>x<2 ^ 32. \<not> pages_from a (Suc k + 1) x \<longrightarrow> mapping (mem u) pgdir x = mapping (mem s) pgdir x))"
        using u w t(1,3) m f kquiet_trans by auto
    qed
  qed (use Suc.prems in auto)
qed

lemma PGROUNDDOWN_div: "PGROUNDDOWN a div 4096 = a div 4096" "PGROUNDDOWN a mod 4096 = 0" "PGROUNDDOWN a \<le> a"
  by (simp_all add: PGROUNDDOWN_def PGSIZE_num)

lemma mappages_unfold:
  assumes "0 < n" "va + n \<le> 2 ^ 32"
  shows "mappages pgdir va n pa perm = mappages_loop ((va + n - 1) div 4096 - va div 4096) pgdir (PGROUNDDOWN va) pa perm"
proof -
  obtain j where j: "va + n = Suc j" using assms(1) by (cases "va + n") auto
  then have "va + n + (2 ^ 32 - 1) = j + 2 ^ 32" by simp
  then have "u32 (va + n + (2 ^ 32 - 1)) = j mod 2 ^ 32" by (simp only: u32_def mod_add_self2)
  then have l: "u32 (va + n + (2 ^ 32 - 1)) = va + n - 1" using assms j by simp
  let ?a = "PGROUNDDOWN va" and ?l = "PGROUNDDOWN (va + n - 1)"
  have le: "?a \<le> ?l" using assms(1) by (simp add: PGROUNDDOWN_def PGSIZE_num div_le_mono)
  have "?l < 2 ^ 32" using PGROUNDDOWN_div(3) [of "va + n - 1"] assms by linarith
  then have "?l + (2 ^ 32 - ?a) = (?l - ?a) + 2 ^ 32" using le by linarith
  then have "u32 (?l + (2 ^ 32 - ?a)) = (?l - ?a) mod 2 ^ 32" by (simp only: u32_def mod_add_self2)
  then have "u32 (?l + (2 ^ 32 - ?a)) = ?l - ?a" using \<open>?l < 2 ^ 32\<close> by simp
  moreover have "(?l - ?a) div PGSIZE = (va + n - 1) div 4096 - va div 4096"
    by (simp add: PGROUNDDOWN_def PGSIZE_num flip: diff_mult_distrib)
  ultimately show ?thesis unfolding mappages_def Let_def l by simp
qed

section \<open>Properties\<close>

text \<open>
  C17: \<^verbatim>\<open>mappages\<close> builds exactly the requested mapping. For an unmapped range of virtual addresses,
  page-aligned or not, it either succeeds, and then every page of the range translates to the
  corresponding physical page with the requested permissions while every other translation is
  unchanged, or it returns -1 because no page is left for a page table, and translations outside
  the range are unchanged. Directory, page tables and free list stay disjoint, and no page is
  taken that was not free.
\<close>

theorem mappages_translates:
  assumes v: "vm_ok s pgdir ps" and n: "0 < n" "va + n \<le> 2 ^ 32" and pa: "pa mod 4096 = 0" "perm < 4096"
    and k: "k = (va + n - 1) div 4096 - va div 4096 + 1" and pb: "pa + k * 4096 \<le> 2 ^ 32"
    and free: "\<forall>x<2 ^ 32. pages_from va k x \<longrightarrow> mapping (mem s) pgdir x = None"
  shows "wp (mappages pgdir va n pa perm) (\<lambda>r t. (\<exists>ps'. vm_ok t pgdir ps' \<and> set ps' \<subseteq> set ps \<and> (r \<noteq> 0 \<longrightarrow> ps' = [])) \<and>
     (r = 0 \<and> mapped (mem t) pgdir va k pa perm (mapping (mem s) pgdir) \<or>
      r = - 1 \<and> (\<forall>x<2 ^ 32. \<not> pages_from va k x \<longrightarrow> mapping (mem t) pgdir x = mapping (mem s) pgdir x))) s"
proof -
  let ?a = "PGROUNDDOWN va" and ?k = "(va + n - 1) div 4096 - va div 4096"
  have pf: "pages_from ?a m x = pages_from va m x" for m x by (simp add: pages_from_def PGROUNDDOWN_div)
  have mpf: "mapped m pgdir ?a j pa perm old = mapped m pgdir va j pa perm old" for m j old
    by (simp only: mapped_def pf PGROUNDDOWN_div)
  have "va div 4096 \<le> (va + n - 1) div 4096" using n by (intro div_le_mono) simp
  then have "?a + (?k + 1) * 4096 = ((va + n - 1) div 4096 + 1) * 4096"
    by (simp add: PGROUNDDOWN_def PGSIZE_num algebra_simps diff_mult_distrib)
  moreover have "(va + n - 1) div 4096 < 2 ^ 32 div 4096" using n by (simp add: less_mult_imp_div_less)
  ultimately have b: "?a + (?k + 1) * 4096 \<le> 2 ^ 32" by simp
  have "wp (mappages_loop ?k pgdir ?a pa perm) (\<lambda>r t. kquiet s t \<and> (\<exists>ps'. vm_ok t pgdir ps' \<and> set ps' \<subseteq> set ps \<and> (r \<noteq> 0 \<longrightarrow> ps' = [])) \<and>
     (r = 0 \<and> mapped (mem t) pgdir ?a (?k + 1) pa perm (mapping (mem s) pgdir) \<or>
      r = - 1 \<and> (\<forall>x<2 ^ 32. \<not> pages_from ?a (?k + 1) x \<longrightarrow> mapping (mem t) pgdir x = mapping (mem s) pgdir x))) s"
    using free pb unfolding k by (intro mappages_loop_ok [OF v PGROUNDDOWN_div(2) b pa(1) _ pa(2)]) (simp_all add: pf)
  then show ?thesis unfolding mappages_unfold [OF n] k
    by (rule wp_conseq) (simp only: mpf pf)
qed

text \<open>An empty page directory and one free page.\<close>

definition demo_vm :: kmem where
  "demo_vm = boot_kmem\<lparr>freelist := KERNBASE + 4096\<rparr>"

lemma demo_vm_ok: "vm_ok demo_vm KERNBASE [KERNBASE + 4096]" "mapping (mem demo_vm) KERNBASE x = None"
proof -
  have m: "le32 (mem demo_vm) a = 0" for a by (simp add: demo_vm_def boot_kmem_def one_cpu_def mach.defs le32_def)
  then show "mapping (mem demo_vm) KERNBASE x = None" by (simp add: mapping_def present_odd)
  have "kmem_ready demo_vm" "kend demo_vm = KERNBASE" "freelist demo_vm = KERNBASE + 4096"
    by (simp_all add: demo_vm_def boot_kmem_def kmem_ready_def mach.defs)
  then show "vm_ok demo_vm KERNBASE [KERNBASE + 4096]"
    by (simp add: vm_ok_def m present_odd free_pages_def page_ok_def PGSIZE_num KERNBASE_num PHYSTOP_num)
qed

theorem mappages_translates_witness:
  "wp (mappages KERNBASE 4100 5000 8192 6) (\<lambda>r t.
     (r = 0 \<and> mapped (mem t) KERNBASE 4100 2 8192 6 (mapping (mem demo_vm) KERNBASE) \<or>
      r = - 1 \<and> (\<forall>x<2 ^ 32. \<not> pages_from 4100 2 x \<longrightarrow> mapping (mem t) KERNBASE x = mapping (mem demo_vm) KERNBASE x))) demo_vm"
  by (rule wp_conseq [OF mappages_translates [OF demo_vm_ok(1), of 5000 4100 8192 6 2]]) (simp_all add: demo_vm_ok(2))

section \<open>Copying to user memory\<close>

text \<open>
  \<open>uframe\<close> is the kernel address of the page a user address translates to, \<open>ubyte\<close> the byte a
  process sees there. \<open>ucopy_ok\<close>: the \<open>n\<close> bytes from \<open>va\<close> lie in user-accessible pages whose
  frames are pages distinct from each other, the directory, the page tables and the free list.
\<close>

definition uframe :: "(nat \<Rightarrow> byte) \<Rightarrow> nat \<Rightarrow> nat \<Rightarrow> nat" where
  "uframe m pgdir x = P2V (PTE_ADDR (the (mapping m pgdir x)))"

definition ubyte :: "(nat \<Rightarrow> byte) \<Rightarrow> nat \<Rightarrow> nat \<Rightarrow> byte" where
  "ubyte m pgdir x = m (uframe m pgdir x + x mod 4096)"

definition frame_ok :: "'x kmem_scheme \<Rightarrow> nat \<Rightarrow> nat list \<Rightarrow> nat \<Rightarrow> bool" where
  "frame_ok s pgdir ps x \<longleftrightarrow> (\<exists>e. mapping (mem s) pgdir x = Some e \<and> user e) \<and>
     (let f = uframe (mem s) pgdir x in f \<noteq> 0 \<and> aligned f \<and> f \<noteq> pgdir \<and> f \<notin> set ps \<and>
       (\<forall>d<1024. present (le32 (mem s) (pgdir + 4 * d)) \<longrightarrow> pgtab (mem s) pgdir d \<noteq> f))"

definition ucopy_ok :: "'x kmem_scheme \<Rightarrow> nat \<Rightarrow> nat list \<Rightarrow> nat \<Rightarrow> nat \<Rightarrow> bool" where
  "ucopy_ok s pgdir ps va n \<longleftrightarrow> (\<forall>x. va \<le> x \<and> x < va + n \<longrightarrow> frame_ok s pgdir ps x) \<and>
     (\<forall>x y. va \<le> x \<and> x < va + n \<and> va \<le> y \<and> y < va + n \<longrightarrow>
        uframe (mem s) pgdir x = uframe (mem s) pgdir y \<longrightarrow> x div 4096 = y div 4096)"

lemma le32_other_page: "aligned q \<Longrightarrow> aligned f \<Longrightarrow> q \<noteq> f \<Longrightarrow> k < 1024 \<Longrightarrow> (\<And>x. \<not> in_page f x \<Longrightarrow> m' x = m x) \<Longrightarrow>
    le32 m' (q + 4 * k) = le32 m (q + 4 * k)"
proof -
  assume a: "aligned q" "aligned f" "q \<noteq> f" "k < 1024" "\<And>x. \<not> in_page f x \<Longrightarrow> m' x = m x"
  have "m' (q + 4 * k + i) = m (q + 4 * k + i)" if "i < 4" for i
  proof -
    have "\<not> in_page f (q + 4 * k + i)"
      using pages_apart [of q f] a(1-3) entry_in_page [OF a(4) that] by (auto simp: aligned_def)
    then show ?thesis by (rule a(5))
  qed
  then show ?thesis by (intro le32_cong) (simp add: add.assoc)
qed

text \<open>A store into a user frame changes no translation and keeps the invariant.\<close>

lemma store_frame:
  assumes v: "vm_ok s pgdir ps" and f: "frame_ok s pgdir ps x" and m: "\<And>y. \<not> in_page (uframe (mem s) pgdir x) y \<Longrightarrow> m y = mem s y"
  shows "vm_ok (s\<lparr>mem := m\<rparr>) pgdir ps" "mapping m pgdir = mapping (mem s) pgdir"
    "d < 1024 \<Longrightarrow> le32 m (pgdir + 4 * d) = le32 (mem s) (pgdir + 4 * d)" "d < 1024 \<Longrightarrow> pgtab m pgdir d = pgtab (mem s) pgdir d"
proof -
  let ?f = "uframe (mem s) pgdir x"
  note vd = vm_okD [OF v]
  have a: "aligned ?f" "?f \<noteq> pgdir" "?f \<notin> set ps" "\<And>d. d < 1024 \<Longrightarrow> present (le32 (mem s) (pgdir + 4 * d)) \<Longrightarrow> pgtab (mem s) pgdir d \<noteq> ?f"
    using f by (auto simp: frame_ok_def Let_def)
  have dir: "le32 m (pgdir + 4 * d) = le32 (mem s) (pgdir + 4 * d)" if "d < 1024" for d
    using a that vd(5) m by (intro le32_other_page [of pgdir ?f]) auto
  then show "d < 1024 \<Longrightarrow> le32 m (pgdir + 4 * d) = le32 (mem s) (pgdir + 4 * d)" by blast
  have pt: "pgtab m pgdir d = pgtab (mem s) pgdir d" if "d < 1024" for d using dir that by (simp add: pgtab_def)
  then show "d < 1024 \<Longrightarrow> pgtab m pgdir d = pgtab (mem s) pgdir d" by blast
  have fp: "free_pages (s\<lparr>mem := m\<rparr>) ps" using a m by (intro free_pages_store [OF vd(2), of ?f]) auto
  then show "vm_ok (s\<lparr>mem := m\<rparr>) pgdir ps" using v by (simp add: vm_ok_def dir pt)
  show "mapping m pgdir = mapping (mem s) pgdir"
  proof
    fix va
    show "mapping m pgdir va = mapping (mem s) pgdir va"
    proof (cases "present (le32 (mem s) (pgdir + 4 * PDX va))")
      case True
      then have "aligned (pgtab (mem s) pgdir (PDX va))" "pgtab (mem s) pgdir (PDX va) \<noteq> ?f" using vd(6) [OF PDX_less True] a(4) by auto
      then have "le32 m (pgtab (mem s) pgdir (PDX va) + 4 * PTX va) = le32 (mem s) (pgtab (mem s) pgdir (PDX va) + 4 * PTX va)"
        using a(1) m by (intro le32_other_page [of _ ?f]) auto
      then show ?thesis using True by (simp add: mapping_def dir pt)
    next
      case False
      then show ?thesis by (simp add: mapping_def dir)
    qed
  qed
qed

lemma uva2ka_ok:
  assumes v: "vm_ok s pgdir ps" and f: "frame_ok s pgdir ps x" and p: "PDX x' = PDX x" "PTX x' = PTX x"
  shows "wp (uva2ka pgdir x') (\<lambda>r t. r = uframe (mem s) pgdir x \<and> t = s) s"
proof -
  obtain e where e: "mapping (mem s) pgdir x = Some e" "user e" using f by (auto simp: frame_ok_def)
  then have "present (le32 (mem s) (pgdir + 4 * PDX x))" "e = le32 (mem s) (pgtab (mem s) pgdir (PDX x) + 4 * PTX x)" "present e"
    by (auto simp: mapping_def Let_def split: if_splits)
  then show ?thesis using e p by (simp add: uva2ka_def walkpgdir_def Let_def pgtab_def uframe_def)
qed

definition uaddr :: "(nat \<Rightarrow> byte) \<Rightarrow> nat \<Rightarrow> nat \<Rightarrow> nat" where
  "uaddr m pgdir x = uframe m pgdir x + x mod 4096"

definition copied :: "(nat \<Rightarrow> byte) \<Rightarrow> nat \<Rightarrow> nat \<Rightarrow> byte list \<Rightarrow> (nat \<Rightarrow> byte) \<Rightarrow> bool" where
  "copied m pgdir va p m' \<longleftrightarrow> mapping m' pgdir = mapping m pgdir \<and>
     (\<forall>i<length p. m' (uaddr m pgdir (va + i)) = p ! i) \<and>
     (\<forall>y. (\<forall>x. va \<le> x \<and> x < va + length p \<longrightarrow> y \<noteq> uaddr m pgdir x) \<longrightarrow> m' y = m y)"

lemma uframe_cong: "mapping m' pgdir = mapping m pgdir \<Longrightarrow> uframe m' pgdir = uframe m pgdir \<and> uaddr m' pgdir = uaddr m pgdir"
  by (auto simp: uframe_def uaddr_def fun_eq_iff)

lemma uframe_page: "x < 2 ^ 32 \<Longrightarrow> y < 2 ^ 32 \<Longrightarrow> x div 4096 = y div 4096 \<Longrightarrow> uframe m pgdir x = uframe m pgdir y"
  using same_page [of x y] by (simp add: uframe_def mapping_def)

lemma uaddr_in_page: "in_page (uframe m pgdir x) (uaddr m pgdir x)"
  by (simp add: in_page_def uaddr_def PGSIZE_num)

lemma ucopy_pages: "ucopy_ok s pgdir ps va n \<Longrightarrow> va \<le> x \<Longrightarrow> x < va + n \<Longrightarrow> va \<le> y \<Longrightarrow> y < va + n \<Longrightarrow>
    uframe (mem s) pgdir x = uframe (mem s) pgdir y \<Longrightarrow> x div 4096 = y div 4096"
  unfolding ucopy_ok_def by metis

lemma uaddr_inj:
  assumes c: "ucopy_ok s pgdir ps va n" and x: "va \<le> x" "x < va + n" and y: "va \<le> y" "y < va + n"
    and e: "uaddr (mem s) pgdir x = uaddr (mem s) pgdir y"
  shows "x = y"
proof -
  let ?f = "uframe (mem s) pgdir"
  have al: "aligned (?f x)" "aligned (?f y)" using c x y by (auto simp: ucopy_ok_def frame_ok_def Let_def)
  have "?f x = ?f y"
  proof (rule ccontr)
    assume "?f x \<noteq> ?f y"
    with al have "\<not> in_page (?f y) (uaddr (mem s) pgdir x)"
      unfolding aligned_def by (intro pages_apart [OF _ _ _ uaddr_in_page])
    then show False using uaddr_in_page [of "mem s" pgdir y] e by simp
  qed
  then have "x div 4096 = y div 4096" "x mod 4096 = y mod 4096" using ucopy_pages [OF c x y] e by (simp_all add: uaddr_def)
  then show ?thesis by (metis div_mult_mod_eq)
qed

lemma ucopy_ok_later:
  assumes v: "vm_ok s pgdir ps" and c: "ucopy_ok s pgdir ps va n" and k: "k < n" and x: "va \<le> x" "x < va + n"
    and m: "\<And>y. \<not> in_page (uframe (mem s) pgdir x) y \<Longrightarrow> m y = mem s y"
  shows "ucopy_ok (s\<lparr>mem := m\<rparr>) pgdir ps (va + k) (n - k)"
proof -
  have fx: "frame_ok s pgdir ps x" using c x by (simp add: ucopy_ok_def)
  note st = store_frame [OF v fx m]
  have u: "uframe m pgdir = uframe (mem s) pgdir" using uframe_cong [OF st(2)] by blast
  have "frame_ok (s\<lparr>mem := m\<rparr>) pgdir ps y \<longleftrightarrow> frame_ok s pgdir ps y" for y
    using st by (auto simp: frame_ok_def u Let_def)
  then show ?thesis using c k by (auto simp: ucopy_ok_def u)
qed

lemma copied_outside: "copied m pgdir va p m' \<Longrightarrow> (\<And>x. va \<le> x \<Longrightarrow> x < va + length p \<Longrightarrow> y \<noteq> uaddr m pgdir x) \<Longrightarrow> m' y = m y"
  by (simp add: copied_def)

text \<open>Two consecutive copies are one copy.\<close>

lemma copied_append:
  assumes a: "copied m pgdir va (take n p) m1" and b: "copied m1 pgdir (va + n) (drop n p) m2" and n: "n \<le> length p"
    and inj: "\<And>x y. va \<le> x \<Longrightarrow> x < va + length p \<Longrightarrow> va \<le> y \<Longrightarrow> y < va + length p \<Longrightarrow> uaddr m pgdir x = uaddr m pgdir y \<Longrightarrow> x = y"
  shows "copied m pgdir va p m2"
  unfolding copied_def
proof (intro conjI allI impI)
  have u: "uaddr m1 pgdir = uaddr m pgdir" using a uframe_cong [of m1 pgdir m] by (simp add: copied_def)
  show "mapping m2 pgdir = mapping m pgdir" using a b by (simp add: copied_def)
  show "m2 (uaddr m pgdir (va + i)) = p ! i" if i: "i < length p" for i
  proof (cases "i < n")
    case True
    have "uaddr m pgdir (va + i) \<noteq> uaddr m1 pgdir x" if "va + n \<le> x" "x < va + n + length (drop n p)" for x
    proof
      assume "uaddr m pgdir (va + i) = uaddr m1 pgdir x"
      then have "va + i = x" using that True i n by (intro inj [of "va + i" x]) (simp_all add: u)
      then show False using that(1) True by simp
    qed
    then have "m2 (uaddr m pgdir (va + i)) = m1 (uaddr m pgdir (va + i))" by (rule copied_outside [OF b])
    then show ?thesis using True a n by (simp add: copied_def)
  next
    case False
    then obtain j where j: "i = n + j" by (metis le_iff_add linorder_not_less)
    then have "m2 (uaddr m1 pgdir (va + n + j)) = drop n p ! j" using b i by (simp add: copied_def)
    then show ?thesis using j i u by (simp add: add.assoc)
  qed
  show "m2 y = m y" if y: "\<forall>x. va \<le> x \<and> x < va + length p \<longrightarrow> y \<noteq> uaddr m pgdir x" for y
  proof -
    have "m2 y = m1 y" using b y u n by (auto simp: copied_def)
    moreover have "m1 y = m y" using a y n by (auto simp: copied_def)
    ultimately show ?thesis by simp
  qed
qed

text \<open>One store of \<^verbatim>\<open>copyout\<close>, within a page.\<close>

lemma chunk_copied:
  assumes b: "va + length q \<le> 2 ^ 32" "va mod 4096 + length q \<le> 4096" "q \<noteq> []" and mp: "mapping m' pgdir = mapping m pgdir"
    and m': "m' = (\<lambda>x. if uaddr m pgdir va \<le> x \<and> x < uaddr m pgdir va + length q then q ! (x - uaddr m pgdir va) else m x)"
  shows "copied m pgdir va q m'"
proof -
  have addr: "uaddr m pgdir (va + i) = uaddr m pgdir va + i" if i: "i < length q" for i
  proof -
    have r: "va mod 4096 + i < 4096" using i b(2) by simp
    have "va + i = va div 4096 * 4096 + (va mod 4096 + i)" by simp
    then have "(va + i) div 4096 = va div 4096" "(va + i) mod 4096 = va mod 4096 + i"
      using r by (metis div_mult_self3 div_less add.right_neutral zero_neq_numeral, metis mod_mult_self3 mod_less)
    then show ?thesis using uframe_page [of "va + i" va m pgdir] i b(1) by (simp add: uaddr_def)
  qed
  show ?thesis unfolding copied_def
  proof (intro conjI allI impI mp)
    show "m' (uaddr m pgdir (va + i)) = q ! i" if "i < length q" for i using that addr by (simp add: m')
    show "m' y = m y" if y: "\<forall>x. va \<le> x \<and> x < va + length q \<longrightarrow> y \<noteq> uaddr m pgdir x" for y
    proof -
      have "\<not> (uaddr m pgdir va \<le> y \<and> y < uaddr m pgdir va + length q)"
      proof
        assume "uaddr m pgdir va \<le> y \<and> y < uaddr m pgdir va + length q"
        then obtain i where "y = uaddr m pgdir va + i" "i < length q" by (metis add_less_cancel_left le_iff_add)
        then show False using y [rule_format, of "va + i"] addr [of i] by simp
      qed
      then show ?thesis by (auto simp: m')
    qed
  qed
qed

lemma copyout_ok:
  assumes "vm_ok s pgdir ps" "ucopy_ok s pgdir ps va (length p)" "va + length p \<le> 2 ^ 32"
  shows "wp (copyout pgdir va p) (\<lambda>r t. r = 0 \<and> vm_ok t pgdir ps \<and> copied (mem s) pgdir va p (mem t)) s"
  using assms
proof (induction p arbitrary: s va rule: length_induct)
  case (1 p)
  show ?case
  proof (cases "p = []")
    case True
    then show ?thesis using "1.prems" by (simp add: copyout.simps copied_def)
  next
    case False
    define n where "n = min (PGSIZE - (va - PGROUNDDOWN va)) (length p)"
    have va: "va - PGROUNDDOWN va = va mod 4096" "va mod 4096 < 4096" by (simp_all add: PGROUNDDOWN_def PGSIZE_num minus_div_mult_eq_mod)
    have n: "0 < n" "n \<le> length p" "va mod 4096 + n \<le> 4096" using False va unfolding n_def by (auto simp: PGSIZE_num)
    have b: "va < 2 ^ 32" "PGROUNDDOWN va < 2 ^ 32" using "1.prems"(3) n PGROUNDDOWN_div(3) [of va] by linarith+
    let ?f = "uframe (mem s) pgdir va"
    let ?m = "\<lambda>x. if ?f + (va - PGROUNDDOWN va) \<le> x \<and> x < ?f + (va - PGROUNDDOWN va) + n then p ! (x - (?f + (va - PGROUNDDOWN va))) else mem s x"
    have fo: "frame_ok s pgdir ps va" using "1.prems"(2) False by (simp add: ucopy_ok_def)
    have out: "?m y = mem s y" if "\<not> in_page ?f y" for y using that n(3) va by (auto simp: in_page_def PGSIZE_num)
    note st = store_frame [OF "1.prems"(1) fo out]
    have "copied (mem s) pgdir va (take n p) ?m"
      using "1.prems"(3) n st(2) by (intro chunk_copied) (auto simp: uaddr_def va(1) fun_eq_iff)
    note first = copied_append [OF this _ n(2) uaddr_inj [OF "1.prems"(2)]]
    have rest: "wp (copyout pgdir (u32 (PGROUNDDOWN va + PGSIZE)) (drop n p)) (\<lambda>r t. r = 0 \<and> vm_ok t pgdir ps \<and> copied (mem s) pgdir va p (mem t)) (s\<lparr>mem := ?m\<rparr>)"
    proof (cases "n = length p")
      case True
      then have "copied (mem s) pgdir va p ?m" by (intro first) (simp add: copied_def)
      then show ?thesis using True st(1) by (simp add: copyout.simps)
    next
      case False
      then have k: "n = 4096 - va mod 4096" "n < length p" using n(2) va(1) by (auto simp: n_def PGSIZE_num)
      then have "PGROUNDDOWN va + PGSIZE = va + n" using va PGROUNDDOWN_div(3) [of va] by (simp add: PGSIZE_num)
      then have u: "u32 (PGROUNDDOWN va + PGSIZE) = va + n" using "1.prems"(3) k(2) by simp
      have "ucopy_ok (s\<lparr>mem := ?m\<rparr>) pgdir ps (va + n) (length p - n)"
        using k(2) n(1) by (intro ucopy_ok_later [OF "1.prems"(1,2) k(2), of va] out) auto
      then have "wp (copyout pgdir (va + n) (drop n p)) (\<lambda>r t. r = 0 \<and> vm_ok t pgdir ps \<and> copied ?m pgdir (va + n) (drop n p) (mem t)) (s\<lparr>mem := ?m\<rparr>)"
        using "1.IH" [rule_format, of "drop n p" "s\<lparr>mem := ?m\<rparr>" "va + n"] st(1) n k(2) "1.prems"(3) by simp
      then show ?thesis unfolding u by (rule wp_conseq) (auto intro: first)
    qed
    have "wp (uva2ka pgdir (PGROUNDDOWN va)) (\<lambda>r t. r = ?f \<and> t = s) s"
      using same_page [OF b(2,1)] PGROUNDDOWN_div(1) by (intro uva2ka_ok [OF "1.prems"(1) fo]) auto
    then have "wp (uva2ka pgdir (PGROUNDDOWN va)) (\<lambda>pa0. wp (if pa0 = 0 then kret (- 1) else
        kseq (setmem (\<lambda>m x. if pa0 + (va - PGROUNDDOWN va) \<le> x \<and> x < pa0 + (va - PGROUNDDOWN va) + n then p ! (x - (pa0 + (va - PGROUNDDOWN va))) else m x))
          (copyout pgdir (u32 (PGROUNDDOWN va + PGSIZE)) (drop n p))) (\<lambda>r t. r = 0 \<and> vm_ok t pgdir ps \<and> copied (mem s) pgdir va p (mem t))) s"
      by (rule wp_conseq) (use fo rest in \<open>auto simp: setmem_def frame_ok_def Let_def\<close>)
    then show ?thesis using False unfolding copyout.simps [of pgdir va p] Let_def n_def [symmetric] by simp
  qed
qed

text \<open>
  C18: \<^verbatim>\<open>copyout\<close> delivers the bytes through the page table. When the target range lies in
  user-accessible pages with frames of their own, it returns 0; afterwards the process sees
  exactly the given bytes there, across page boundaries, every other byte of memory is
  unchanged, and so are the translation and the allocator's structures.
\<close>

theorem copyout_delivers:
  assumes v: "vm_ok s pgdir ps" and c: "ucopy_ok s pgdir ps va (length p)" and b: "va + length p \<le> 2 ^ 32"
  shows "wp (copyout pgdir va p) (\<lambda>r t. r = 0 \<and> vm_ok t pgdir ps \<and> mapping (mem t) pgdir = mapping (mem s) pgdir \<and>
     (\<forall>i<length p. ubyte (mem t) pgdir (va + i) = p ! i) \<and>
     (\<forall>y. (\<forall>x. va \<le> x \<and> x < va + length p \<longrightarrow> y \<noteq> uframe (mem s) pgdir x + x mod 4096) \<longrightarrow> mem t y = mem s y)) s"
proof (rule wp_conseq [OF copyout_ok [OF v c b]], elim conjE)
  fix r :: int and t
  assume r: "r = 0" "vm_ok t pgdir ps" and t: "copied (mem s) pgdir va p (mem t)"
  then have "uframe (mem t) pgdir = uframe (mem s) pgdir" using uframe_cong [of "mem t" pgdir "mem s"] by (simp add: copied_def)
  then have "ubyte (mem t) pgdir x = mem t (uaddr (mem s) pgdir x)" for x by (simp add: ubyte_def uaddr_def)
  then show "r = 0 \<and> vm_ok t pgdir ps \<and> mapping (mem t) pgdir = mapping (mem s) pgdir \<and>
     (\<forall>i<length p. ubyte (mem t) pgdir (va + i) = p ! i) \<and>
     (\<forall>y. (\<forall>x. va \<le> x \<and> x < va + length p \<longrightarrow> y \<noteq> uframe (mem s) pgdir x + x mod 4096) \<longrightarrow> mem t y = mem s y)"
    using r t by (simp add: copied_def uaddr_def)
qed

text \<open>
  A directory at \<open>KERNBASE\<close> whose entry 0 is the table in the next page; the table maps user page
  0 to the frame after it.
\<close>

definition user_vm :: kmem where
  "user_vm = boot_kmem\<lparr>mem := st32 (st32 (\<lambda>_. 0) KERNBASE 4103) (KERNBASE + 4096) 8199\<rparr>"

lemma user_vm_dir: "d < 1024 \<Longrightarrow> le32 (mem user_vm) (KERNBASE + 4 * d) = (if d = 0 then 4103 else 0)"
  and user_vm_tab: "k < 1024 \<Longrightarrow> le32 (mem user_vm) (KERNBASE + 4096 + 4 * k) = (if k = 0 then 8199 else 0)"
proof -
  have a: "aligned KERNBASE" "aligned (KERNBASE + 4096)" by (simp_all add: aligned_def KERNBASE_num PGSIZE_num)
  have z: "le32 (\<lambda>_. 0) x = 0" for x by (simp add: le32_def)
  show "le32 (mem user_vm) (KERNBASE + 4 * d) = (if d = 0 then 4103 else 0)" if "d < 1024"
    using le32_store_entry [of "KERNBASE + 4096" KERNBASE 0 d 8199 "st32 (\<lambda>_. 0) KERNBASE 4103"]
      le32_store_entry [of KERNBASE KERNBASE 0 d 4103 "\<lambda>_. 0"] a z that by (auto simp: user_vm_def)
  show "le32 (mem user_vm) (KERNBASE + 4096 + 4 * k) = (if k = 0 then 8199 else 0)" if "k < 1024"
    using le32_store_entry [of "KERNBASE + 4096" "KERNBASE + 4096" 0 k 8199 "st32 (\<lambda>_. 0) KERNBASE 4103"]
      le32_store_entry [of KERNBASE "KERNBASE + 4096" 0 k 4103 "\<lambda>_. 0"] a z that by (auto simp: user_vm_def)
qed

lemma user_vm_ok: "vm_ok user_vm KERNBASE []" "ucopy_ok user_vm KERNBASE [] 5 (length [1, 2, 3 :: byte])"
proof -
  have tab: "pgtab (mem user_vm) KERNBASE 0 = KERNBASE + 4096"
    using user_vm_dir [of 0] by (simp add: pgtab_def PTE_ADDR_def P2V_def u32_def KERNBASE_num)
  have pr: "present (le32 (mem user_vm) (KERNBASE + 4 * d)) \<longleftrightarrow> d = 0" if "d < 1024" for d
    using user_vm_dir [OF that] by (simp add: present_odd)
  have k: "kmem_ready user_vm" "kend user_vm = KERNBASE" "freelist user_vm = 0"
    by (simp_all add: user_vm_def boot_kmem_def kmem_ready_def mach.defs)
  show "vm_ok user_vm KERNBASE []" unfolding vm_ok_def
    using k pr tab by (auto simp: free_pages_def page_ok_def PGSIZE_num KERNBASE_num PHYSTOP_num)
  have mp: "mapping (mem user_vm) KERNBASE x = Some 8199" if "x < 4096" for x
    using that user_vm_dir [of 0] user_vm_tab [of 0] tab by (simp add: mapping_def PDX_def PTX_def present_odd)
  have uf: "uframe (mem user_vm) KERNBASE x = KERNBASE + 8192" if "x < 4096" for x
    using mp [OF that] by (simp add: uframe_def PTE_ADDR_def P2V_def u32_def KERNBASE_num)
  have "frame_ok user_vm KERNBASE [] x" if "x < 4096" for x
    using mp [OF that] uf [OF that] pr tab by (auto simp: frame_ok_def user_def PTE_U_def aligned_def KERNBASE_num PGSIZE_num)
  then show "ucopy_ok user_vm KERNBASE [] 5 (length [1, 2, 3 :: byte])" by (auto simp: ucopy_ok_def)
qed

theorem copyout_delivers_witness:
  "wp (copyout KERNBASE 5 [1, 2, 3]) (\<lambda>r t. r = 0 \<and> ubyte (mem t) KERNBASE 6 = 2) user_vm"
  by (rule wp_conseq [OF copyout_delivers [OF user_vm_ok]]) (simp, elim conjE, drule spec [of _ 1], simp)

end
