(* ===== verification/Ring.thy ===== *)
theory Ring
  imports Prelude
begin

text \<open>
  Ring buffers indexed by free-running 32-bit counters, as the pipe and the console input use
  them: \<open>r\<close> counts bytes taken out, \<open>w\<close> bytes put in, both wrap around at \<open>2\<^sup>3\<^sup>2\<close>, and a byte is at
  its counter modulo the buffer size, which divides \<open>2\<^sup>3\<^sup>2\<close>. The locale \<open>bounded_fifo\<close> is the
  contract of such a buffer towards its clients; the loops that transfer several bytes are
  derived in it once.
\<close>

section \<open>Counters\<close>

definition ring_len :: "uint32 \<Rightarrow> uint32 \<Rightarrow> nat" where
  "ring_len r w = unat (w - r)"

definition ring_list :: "nat \<Rightarrow> (nat \<Rightarrow> byte) \<Rightarrow> uint32 \<Rightarrow> uint32 \<Rightarrow> byte list" where
  "ring_list N d r w = map (\<lambda>k. d (unat (r + of_nat k) mod N)) [0..<ring_len r w]"

lemma length_ring [simp]: "length (ring_list N d r w) = ring_len r w"
  by (simp add: ring_list_def)

lemma ring_empty: "r = w \<longleftrightarrow> ring_len r w = 0"
  by (auto simp: ring_len_def unat_eq_0)

lemma ring_full: "N < 2 ^ 32 \<Longrightarrow> w = r + of_nat N \<longleftrightarrow> ring_len r w = N"
proof
  assume "N < 2 ^ 32" "w = r + of_nat N"
  then show "ring_len r w = N" by (simp add: ring_len_def unat_of_nat)
next
  assume "ring_len r w = N"
  then have "w - r = of_nat N" by (auto simp: ring_len_def)
  then show "w = r + of_nat N" by (simp add: algebra_simps)
qed

lemma ring_index: "N dvd 2 ^ 32 \<Longrightarrow> unat (r + of_nat k :: uint32) mod N = (unat r + k) mod N"
proof -
  assume a: "N dvd 2 ^ 32"
  have "unat (r + of_nat k) = (unat r + k) mod 2 ^ 32"
    by (simp add: unat_word_ariths unat_of_nat mod_simps)
  then show ?thesis using a by (simp add: mod_mod_cancel)
qed

lemma ring_slots_differ:
  assumes "N dvd 2 ^ 32" "j < N" "k < j"
  shows "unat (r + of_nat k :: uint32) mod N \<noteq> unat (r + of_nat j) mod N"
proof
  assume "unat (r + of_nat k :: uint32) mod N = unat (r + of_nat j) mod N"
  then have "(unat r + k) mod N = (unat r + j) mod N" using assms(1) by (simp add: ring_index)
  then have "N dvd j - k" using assms(3) by (metis add_diff_cancel_left less_imp_le mod_eq_dvd_iff_nat nat_add_left_cancel_le)
  then show False using assms(2,3) by (auto dest: dvd_imp_le)
qed

lemma ring_put:
  assumes "N dvd 2 ^ 32" "N < 2 ^ 32" "ring_len r w < N"
  shows "ring_list N (d(unat w mod N := x)) r (w + 1) = ring_list N d r w @ [x]"
    and "ring_len r (w + 1) = Suc (ring_len r w)"
proof -
  let ?n = "ring_len r w"
  have w: "r + of_nat ?n = w" by (simp add: ring_len_def)
  have "unat (w - r + 1) = unat (w - r) + 1"
    using assms by (simp add: unat_word_ariths ring_len_def)
  then show l: "ring_len r (w + 1) = Suc ?n" by (simp add: ring_len_def algebra_simps)
  have "unat (r + of_nat k) mod N \<noteq> unat w mod N" if "k < ?n" for k
    using ring_slots_differ [OF assms(1,3) that, of r] w by simp
  then show "ring_list N (d(unat w mod N := x)) r (w + 1) = ring_list N d r w @ [x]"
    by (simp add: ring_list_def l w)
qed

lemma ring_get:
  assumes "0 < ring_len r w"
  shows "ring_list N d r w = d (unat r mod N) # ring_list N d (r + 1) w"
    and "ring_len r w = Suc (ring_len (r + 1) w)"
proof -
  have "w - r \<noteq> 0" using assms by (auto simp: ring_len_def)
  then have "unat (w - r - 1) = unat (w - r) - 1" by (intro unat_minus_one)
  then show l: "ring_len r w = Suc (ring_len (r + 1) w)" using assms by (simp add: ring_len_def algebra_simps)
  show "ring_list N d r w = d (unat r mod N) # ring_list N d (r + 1) w"
    unfolding ring_list_def l by (simp add: map_upt_Suc algebra_simps del: upt_Suc)
qed

section \<open>The contract of a bounded queue\<close>

locale bounded_fifo =
  fixes ok :: "'s \<Rightarrow> bool" and content :: "'s \<Rightarrow> 'a list" and capacity :: nat
    and put :: "'a \<Rightarrow> 's \<Rightarrow> 's" and get :: "'s \<Rightarrow> 'a \<times> 's"
    and full :: "'s \<Rightarrow> bool" and vacant :: "'s \<Rightarrow> bool"
  assumes bounded: "ok s \<Longrightarrow> length (content s) \<le> capacity"
    and full_iff: "ok s \<Longrightarrow> full s \<longleftrightarrow> length (content s) = capacity"
    and vacant_iff: "ok s \<Longrightarrow> vacant s \<longleftrightarrow> content s = []"
    and put_ok: "ok s \<Longrightarrow> \<not> full s \<Longrightarrow> ok (put x s) \<and> content (put x s) = content s @ [x]"
    and get_ok: "ok s \<Longrightarrow> \<not> vacant s \<Longrightarrow> ok (snd (get s)) \<and> content s = fst (get s) # content (snd (get s))"
begin

text \<open>Put bytes until the queue is full, and take up to \<open>n\<close> bytes: the client's transfer loops.\<close>

primrec put_all :: "'a list \<Rightarrow> 's \<Rightarrow> 's \<times> 'a list" where
  "put_all [] s = (s, [])"
| "put_all (x # xs) s = (if full s then (s, x # xs) else put_all xs (put x s))"

primrec get_all :: "nat \<Rightarrow> 's \<Rightarrow> 'a list \<times> 's" where
  "get_all 0 s = ([], s)"
| "get_all (Suc n) s = (if vacant s then ([], s) else
     (case get s of (x, s') \<Rightarrow> case get_all n s' of (xs, t) \<Rightarrow> (x # xs, t)))"

lemma put_all_spec:
  "ok s \<Longrightarrow> put_all xs s = (t, rest) \<Longrightarrow>
    ok t \<and> content t = content s @ take (capacity - length (content s)) xs \<and> rest = drop (capacity - length (content s)) xs \<and>
    (rest \<noteq> [] \<longrightarrow> full t)"
proof (induction xs arbitrary: s)
  case (Cons x xs)
  show ?case
  proof (cases "full s")
    case True
    then show ?thesis using Cons.prems full_iff [of s] by auto
  next
    case False
    then have p: "ok (put x s)" "content (put x s) = content s @ [x]" using put_ok Cons.prems(1) by auto
    have "length (content s) < capacity" using False Cons.prems(1) full_iff bounded le_neq_implies_less by blast
    then obtain m where m: "capacity - length (content s) = Suc m" by (metis Suc_diff_Suc)
    moreover have "capacity - length (content (put x s)) = m" using m p(2) by simp
    ultimately show ?thesis using Cons.IH [OF p(1)] Cons.prems(2) False p(2) by simp
  qed
qed simp

lemma get_all_spec:
  "ok s \<Longrightarrow> get_all n s = (xs, t) \<Longrightarrow> ok t \<and> xs = take n (content s) \<and> content t = drop n (content s)"
proof (induction n arbitrary: s xs t)
  case (Suc n)
  show ?case
  proof (cases "vacant s")
    case True
    then show ?thesis using Suc.prems vacant_iff [of s] by auto
  next
    case False
    then have g: "ok (snd (get s))" "content s = fst (get s) # content (snd (get s))" using get_ok Suc.prems(1) by auto
    obtain ys u where u: "get_all n (snd (get s)) = (ys, u)" by (metis surj_pair)
    have "xs = fst (get s) # ys" "t = u" using Suc.prems(2) False u by (simp_all split: prod.splits)
    then show ?thesis using Suc.IH [OF g(1) u] g(2) by simp
  qed
qed simp

end

end
