(* ===== verification/Pipe.thy ===== *)
theory Pipe
  imports Ring
begin

text \<open>
  Pipes (\<^verbatim>\<open>pipe.c\<close>). A pipe is a 512-byte ring with 32-bit counters that wrap around. The
  functions run under the pipe's lock; where the code calls \<^verbatim>\<open>sleep\<close>, which releases the lock,
  the model returns the point at which it sleeps (the bytes still to write) and resumes there, as
  the loop of the code does, when the process is woken. The system of processes on one pipe is
  a step relation; the queue contract of \<open>Ring\<close> is interpreted on the pipe's ring.
\<close>

section \<open>State and operations\<close>

definition PIPESIZE :: nat where "PIPESIZE = 512"

lemma PIPESIZE_num: "PIPESIZE = 512" and PIPESIZE_dvd: "PIPESIZE dvd 2 ^ 32"
  by (simp_all add: PIPESIZE_def)

record pipe =
  p_data :: "nat \<Rightarrow> byte"
  p_nread :: uint32
  p_nwrite :: uint32
  readopen :: bool
  writeopen :: bool

text \<open>\<^verbatim>\<open>p->data[p->nwrite++ % PIPESIZE] = c\<close> and \<^verbatim>\<open>p->data[p->nread++ % PIPESIZE]\<close>.\<close>

definition pipe_put :: "byte \<Rightarrow> pipe \<Rightarrow> pipe" where
  "pipe_put c p = p\<lparr>p_data := (p_data p)(unat (p_nwrite p) mod PIPESIZE := c), p_nwrite := p_nwrite p + 1\<rparr>"

definition pipe_get :: "pipe \<Rightarrow> byte \<times> pipe" where
  "pipe_get p = (p_data p (unat (p_nread p) mod PIPESIZE), p\<lparr>p_nread := p_nread p + 1\<rparr>)"

definition pipe_full :: "pipe \<Rightarrow> bool" where
  "pipe_full p \<longleftrightarrow> p_nwrite p = p_nread p + of_nat PIPESIZE"

definition pipe_vacant :: "pipe \<Rightarrow> bool" where
  "pipe_vacant p \<longleftrightarrow> p_nread p = p_nwrite p"

text \<open>
  Outcome of a run of \<^verbatim>\<open>pipewrite\<close> under the lock: it returns \<^verbatim>\<open>n\<close>, it fails (the bytes at its
  loop index are left), or it sleeps on \<^verbatim>\<open>&p->nwrite\<close> with those bytes left.
\<close>

datatype wr_out = WDone | WFail "byte list" | WSleep "byte list"
datatype rd_out = RDone "byte list" | RFail | RSleep

primrec pipewrite :: "bool \<Rightarrow> byte list \<Rightarrow> pipe \<Rightarrow> pipe \<times> wr_out" where
  "pipewrite killed [] p = (p, WDone)"
| "pipewrite killed (c # cs) p =
     (if pipe_full p then (if \<not> readopen p \<or> killed then (p, WFail (c # cs)) else (p, WSleep (c # cs)))
      else pipewrite killed cs (pipe_put c p))"

primrec piperead_copy :: "nat \<Rightarrow> pipe \<Rightarrow> byte list \<times> pipe" where
  "piperead_copy 0 p = ([], p)"
| "piperead_copy (Suc n) p = (if pipe_vacant p then ([], p) else
     (case pipe_get p of (x, p') \<Rightarrow> case piperead_copy n p' of (xs, q) \<Rightarrow> (x # xs, q)))"

definition piperead :: "bool \<Rightarrow> nat \<Rightarrow> pipe \<Rightarrow> pipe \<times> rd_out" where
  "piperead killed n p =
     (if pipe_vacant p \<and> writeopen p then (if killed then (p, RFail) else (p, RSleep))
      else case piperead_copy n p of (xs, q) \<Rightarrow> (q, RDone xs))"

definition pipe_new :: "(nat \<Rightarrow> byte) \<Rightarrow> pipe" where
  "pipe_new d = \<lparr>p_data = d, p_nread = 0, p_nwrite = 0, readopen = True, writeopen = True\<rparr>"

text \<open>\<^verbatim>\<open>pipeclose\<close>: the result says whether the page of the pipe is freed.\<close>

definition pipeclose :: "bool \<Rightarrow> pipe \<Rightarrow> pipe \<times> bool" where
  "pipeclose wrt p = (let q = (if wrt then p\<lparr>writeopen := False\<rparr> else p\<lparr>readopen := False\<rparr>)
     in (q, \<not> readopen q \<and> \<not> writeopen q))"

section \<open>The pipe is a bounded queue\<close>

definition pipe_ok :: "pipe \<Rightarrow> bool" where
  "pipe_ok p \<longleftrightarrow> ring_len (p_nread p) (p_nwrite p) \<le> PIPESIZE"

definition pipe_queue :: "pipe \<Rightarrow> byte list" where
  "pipe_queue p = ring_list PIPESIZE (p_data p) (p_nread p) (p_nwrite p)"

lemma pipe_full_len: "pipe_full p \<longleftrightarrow> ring_len (p_nread p) (p_nwrite p) = PIPESIZE"
  using ring_full [of PIPESIZE "p_nwrite p" "p_nread p"] by (simp add: pipe_full_def PIPESIZE_num)

lemma pipe_put_ok:
  assumes "pipe_ok p" "\<not> pipe_full p"
  shows "pipe_ok (pipe_put c p) \<and> pipe_queue (pipe_put c p) = pipe_queue p @ [c]"
proof -
  have "ring_len (p_nread p) (p_nwrite p) < PIPESIZE" using assms by (simp add: pipe_ok_def pipe_full_len)
  with ring_put [OF PIPESIZE_dvd _ this] show ?thesis
    by (simp add: pipe_ok_def pipe_queue_def pipe_put_def PIPESIZE_num)
qed

lemma pipe_get_ok:
  assumes "pipe_ok p" "\<not> pipe_vacant p"
  shows "pipe_ok (snd (pipe_get p)) \<and> pipe_queue p = fst (pipe_get p) # pipe_queue (snd (pipe_get p))"
proof -
  have "0 < ring_len (p_nread p) (p_nwrite p)" using assms(2) ring_empty by (auto simp: pipe_vacant_def)
  with ring_get [OF this] assms(1) show ?thesis by (simp add: pipe_ok_def pipe_queue_def pipe_get_def)
qed

interpretation pq: bounded_fifo pipe_ok pipe_queue PIPESIZE pipe_put pipe_get pipe_full pipe_vacant
proof unfold_locales
  show "pipe_vacant p \<longleftrightarrow> pipe_queue p = []" if "pipe_ok p" for p
    using ring_empty [of "p_nread p" "p_nwrite p"] by (auto simp: pipe_vacant_def pipe_queue_def simp flip: length_0_conv)
qed (use pipe_put_ok pipe_get_ok in \<open>auto simp: pipe_ok_def pipe_queue_def pipe_full_len\<close>)

text \<open>The transfer loops of the code are the transfer loops of the contract.\<close>

lemma pipe_put_open [simp]: "readopen (pipe_put c p) = readopen p" "writeopen (pipe_put c p) = writeopen p"
  by (simp_all add: pipe_put_def)

lemma pipewrite_put_all:
  "pipewrite killed cs p = (case pq.put_all cs p of (q, rest) \<Rightarrow>
     (q, if rest = [] then WDone else if \<not> readopen p \<or> killed then WFail rest else WSleep rest))"
  by (induction cs arbitrary: p) (simp_all split: prod.splits)

lemma piperead_copy_get_all: "piperead_copy n p = pq.get_all n p"
  by (induction n arbitrary: p) (auto split: prod.splits)

lemma put_all_open: "pq.put_all cs p = (q, rest) \<Longrightarrow> readopen q = readopen p \<and> writeopen q = writeopen p"
  by (induction cs arbitrary: p) (auto split: if_splits)

lemma get_all_open: "pq.get_all n p = (xs, q) \<Longrightarrow> readopen q = readopen p \<and> writeopen q = writeopen p"
  by (induction n arbitrary: p xs) (auto simp: pipe_get_def split: if_splits prod.splits)

lemma pipewrite_spec:
  assumes "pipe_ok p" "pipewrite killed cs p = (q, out)"
  obtains rest where "pipe_ok q" "readopen q = readopen p" "writeopen q = writeopen p"
    "pipe_queue q = pipe_queue p @ take (PIPESIZE - length (pipe_queue p)) cs"
    "rest = drop (PIPESIZE - length (pipe_queue p)) cs" "rest \<noteq> [] \<longrightarrow> pipe_full q"
    "out = (if rest = [] then WDone else if \<not> readopen p \<or> killed then WFail rest else WSleep rest)"
proof -
  obtain q' rest where r: "pq.put_all cs p = (q', rest)" by fastforce
  then have "q = q'" "out = (if rest = [] then WDone else if \<not> readopen p \<or> killed then WFail rest else WSleep rest)"
    using assms(2) by (simp_all add: pipewrite_put_all)
  then show ?thesis using that pq.put_all_spec [OF assms(1) r] put_all_open [OF r] by blast
qed

lemma piperead_spec:
  assumes "pipe_ok p" "piperead killed n p = (q, out)"
  shows "pipe_ok q \<and> readopen q = readopen p \<and> writeopen q = writeopen p \<and>
    (case out of RDone xs \<Rightarrow> xs = take n (pipe_queue p) \<and> pipe_queue q = drop n (pipe_queue p) \<and> (pipe_queue p = [] \<longrightarrow> \<not> writeopen p)
     | RFail \<Rightarrow> q = p \<and> killed | RSleep \<Rightarrow> q = p \<and> pipe_vacant p \<and> writeopen p)"
proof (cases "pipe_vacant p \<and> writeopen p")
  case True
  then show ?thesis using assms by (auto simp: piperead_def split: if_splits)
next
  case False
  obtain xs q' where c: "piperead_copy n p = (xs, q')" by fastforce
  then have "q = q'" "out = RDone xs" using False assms(2) by (auto simp: piperead_def)
  then show ?thesis
    using False c pq.get_all_spec [OF assms(1), of n xs q'] get_all_open [of n p xs q'] pq.vacant_iff [OF assms(1)]
    by (auto simp: piperead_copy_get_all)
qed

section \<open>Processes on a pipe\<close>

text \<open>
  Each process is outside the pipe code, about to run (again) under the lock with bytes to write
  or a number of bytes to read, or asleep on \<^verbatim>\<open>&p->nwrite\<close> or \<^verbatim>\<open>&p->nread\<close>. The lists \<open>sent\<close> and
  \<open>rcvd\<close> record the bytes stored into and copied out of the ring, in order.
\<close>

datatype pstatus = PIdle | PWriting "byte list" | PWriteSleep "byte list" | PReading nat | PReadSleep nat

record psys =
  s_pipe :: pipe
  s_proc :: "nat \<Rightarrow> pstatus"
  s_sent :: "byte list"
  s_rcvd :: "byte list"

definition wake_readers :: "(nat \<Rightarrow> pstatus) \<Rightarrow> nat \<Rightarrow> pstatus" where
  "wake_readers f = (\<lambda>i. case f i of PReadSleep n \<Rightarrow> PReading n | x \<Rightarrow> x)"

definition wake_writers :: "(nat \<Rightarrow> pstatus) \<Rightarrow> nat \<Rightarrow> pstatus" where
  "wake_writers f = (\<lambda>i. case f i of PWriteSleep cs \<Rightarrow> PWriting cs | x \<Rightarrow> x)"

text \<open>
  \<open>run_write\<close> and \<open>run_read\<close> execute one run of \<^verbatim>\<open>pipewrite\<close> or \<^verbatim>\<open>piperead\<close> for process \<open>i\<close> with its
  wake-ups: a full pipe and a completed write wake the readers, a completed read wakes the
  writers, and a failing call wakes nobody.
\<close>

definition run_write :: "bool \<Rightarrow> nat \<Rightarrow> byte list \<Rightarrow> psys \<Rightarrow> psys" where
  "run_write killed i cs s = (case pipewrite killed cs (s_pipe s) of (q, out) \<Rightarrow>
     (case out of
        WDone \<Rightarrow> s\<lparr>s_pipe := q, s_proc := wake_readers ((s_proc s)(i := PIdle)), s_sent := s_sent s @ cs\<rparr>
      | WSleep rest \<Rightarrow> s\<lparr>s_pipe := q, s_proc := (wake_readers (s_proc s))(i := PWriteSleep rest),
          s_sent := s_sent s @ take (length cs - length rest) cs\<rparr>
      | WFail rest \<Rightarrow> s\<lparr>s_pipe := q, s_proc := (s_proc s)(i := PIdle),
          s_sent := s_sent s @ take (length cs - length rest) cs\<rparr>))"

definition run_read :: "bool \<Rightarrow> nat \<Rightarrow> nat \<Rightarrow> psys \<Rightarrow> psys" where
  "run_read killed i n s = (case piperead killed n (s_pipe s) of (q, out) \<Rightarrow>
     (case out of
        RDone xs \<Rightarrow> s\<lparr>s_pipe := q, s_proc := wake_writers ((s_proc s)(i := PIdle)), s_rcvd := s_rcvd s @ xs\<rparr>
      | RSleep \<Rightarrow> s\<lparr>s_proc := (s_proc s)(i := PReadSleep n)\<rparr>
      | RFail \<Rightarrow> s\<lparr>s_proc := (s_proc s)(i := PIdle)\<rparr>))"

text \<open>
  A process inside \<^verbatim>\<open>piperead\<close> or \<^verbatim>\<open>pipewrite\<close> holds a reference to its end of the pipe, so that
  end is closed only when no process is inside. The parameter says whether a process may be
  killed while it writes.
\<close>

definition reading :: "pstatus \<Rightarrow> bool" where
  "reading x \<longleftrightarrow> (case x of PReading n \<Rightarrow> True | PReadSleep n \<Rightarrow> True | _ \<Rightarrow> False)"

definition writing :: "pstatus \<Rightarrow> bool" where
  "writing x \<longleftrightarrow> (case x of PWriting cs \<Rightarrow> True | PWriteSleep cs \<Rightarrow> True | _ \<Rightarrow> False)"

inductive pipe_step :: "bool \<Rightarrow> psys \<Rightarrow> psys \<Rightarrow> bool" for kills where
  call_write: "s_proc s i = PIdle \<Longrightarrow> writeopen (s_pipe s) \<Longrightarrow> pipe_step kills s (s\<lparr>s_proc := (s_proc s)(i := PWriting cs)\<rparr>)"
| call_read: "s_proc s i = PIdle \<Longrightarrow> readopen (s_pipe s) \<Longrightarrow> pipe_step kills s (s\<lparr>s_proc := (s_proc s)(i := PReading n)\<rparr>)"
| do_write: "s_proc s i = PWriting cs \<Longrightarrow> (killed \<Longrightarrow> kills) \<Longrightarrow> pipe_step kills s (run_write killed i cs s)"
| do_read: "s_proc s i = PReading n \<Longrightarrow> pipe_step kills s (run_read killed i n s)"
| wake_writer: "s_proc s i = PWriteSleep cs \<Longrightarrow> pipe_step kills s (s\<lparr>s_proc := (s_proc s)(i := PWriting cs)\<rparr>)"
| wake_reader: "s_proc s i = PReadSleep n \<Longrightarrow> pipe_step kills s (s\<lparr>s_proc := (s_proc s)(i := PReading n)\<rparr>)"
| close_write: "(\<And>i. \<not> writing (s_proc s i)) \<Longrightarrow>
    pipe_step kills s (s\<lparr>s_pipe := fst (pipeclose True (s_pipe s)), s_proc := wake_readers (s_proc s)\<rparr>)"
| close_read: "(\<And>i. \<not> reading (s_proc s i)) \<Longrightarrow>
    pipe_step kills s (s\<lparr>s_pipe := fst (pipeclose False (s_pipe s)), s_proc := wake_writers (s_proc s)\<rparr>)"

definition pipe_start :: "(nat \<Rightarrow> byte) \<Rightarrow> psys" where
  "pipe_start d = \<lparr>s_pipe = pipe_new d, s_proc = \<lambda>_. PIdle, s_sent = [], s_rcvd = []\<rparr>"

text \<open>
  The invariant: the queue is what was sent and not yet received; a writer sleeps only while the
  pipe is full and has a reader; unless writers are killed, a reader sleeps only while the pipe
  is empty and has a writer.
\<close>

definition pipe_inv :: "bool \<Rightarrow> psys \<Rightarrow> bool" where
  "pipe_inv kills s \<longleftrightarrow> pipe_ok (s_pipe s) \<and> s_sent s = s_rcvd s @ pipe_queue (s_pipe s) \<and>
     (\<forall>i. reading (s_proc s i) \<longrightarrow> readopen (s_pipe s)) \<and>
     (\<forall>i cs. s_proc s i = PWriteSleep cs \<longrightarrow> pipe_full (s_pipe s) \<and> readopen (s_pipe s)) \<and>
     (\<not> kills \<longrightarrow> (\<forall>i n. s_proc s i = PReadSleep n \<longrightarrow> pipe_vacant (s_pipe s) \<and> writeopen (s_pipe s)))"

lemma wake_readers_iff: "wake_readers f i = PWriteSleep cs \<longleftrightarrow> f i = PWriteSleep cs" "wake_readers f i \<noteq> PReadSleep n"
  by (simp_all add: wake_readers_def split: pstatus.splits)

lemma wake_writers_iff: "wake_writers f i = PReadSleep n \<longleftrightarrow> f i = PReadSleep n" "wake_writers f i \<noteq> PWriteSleep cs"
  by (simp_all add: wake_writers_def split: pstatus.splits)

lemma not_full_vacant: "pipe_full p \<Longrightarrow> \<not> pipe_vacant p"
  using ring_empty [of "p_nread p" "p_nwrite p"] by (auto simp: pipe_full_len pipe_vacant_def PIPESIZE_num)

lemma reading_wake [simp]: "reading (wake_readers f i) = reading (f i)" "reading (wake_writers f i) = reading (f i)"
  by (simp_all add: reading_def wake_readers_def wake_writers_def split: pstatus.splits)

lemma reading_simps [simp]: "\<not> reading PIdle" "\<not> reading (PWriting cs)" "\<not> reading (PWriteSleep cs)" "reading (PReading n)" "reading (PReadSleep n)"
  by (simp_all add: reading_def)

lemma run_write_inv:
  assumes inv: "pipe_inv kills s" and i: "s_proc s i = PWriting cs" and k: "killed \<longrightarrow> kills"
  shows "pipe_inv kills (run_write killed i cs s)"
proof -
  let ?p = "s_pipe s"
  have ok: "pipe_ok ?p" and sent: "s_sent s = s_rcvd s @ pipe_queue ?p" using inv by (simp_all add: pipe_inv_def)
  obtain q out where w: "pipewrite killed cs ?p = (q, out)" by fastforce
  obtain rest where r: "pipe_ok q" "readopen q = readopen ?p" "writeopen q = writeopen ?p"
    "pipe_queue q = pipe_queue ?p @ take (PIPESIZE - length (pipe_queue ?p)) cs"
    "rest = drop (PIPESIZE - length (pipe_queue ?p)) cs" "rest \<noteq> [] \<longrightarrow> pipe_full q"
    "out = (if rest = [] then WDone else if \<not> readopen ?p \<or> killed then WFail rest else WSleep rest)"
    using pipewrite_spec [OF ok w] by blast
  have tk: "take (length cs - length rest) cs = take (PIPESIZE - length (pipe_queue ?p)) cs"
    unfolding r(5) by (cases "PIPESIZE - length (pipe_queue ?p) \<le> length cs") simp_all
  have idle: "q = ?p" if "pipe_full ?p" "cs \<noteq> []" using w that by (cases cs) (auto split: if_splits)
  consider "rest = []" | "rest \<noteq> []" "\<not> readopen ?p \<or> killed" | "rest \<noteq> []" "readopen ?p" "\<not> killed" by blast
  then show ?thesis
  proof cases
    case 1
    then have q: "pipe_queue q = pipe_queue ?p @ cs" using r(4,5) by simp
    have full: "pipe_full q" if "pipe_full ?p" using idle that w by (cases cs) auto
    show ?thesis using 1 inv r sent i full w q by (auto simp: pipe_inv_def run_write_def wake_readers_iff)
  next
    case 2
    have none: "s_proc s j \<noteq> PReadSleep n" if "\<not> kills" for j n
    proof
      assume "s_proc s j = PReadSleep n"
      then have "reading (s_proc s j)" by simp
      then show False using 2(2) k that inv by (auto simp: pipe_inv_def)
    qed
    show ?thesis using 2 inv r sent i w tk none by (auto simp: pipe_inv_def run_write_def)
  next
    case 3
    then show ?thesis using inv r sent i w tk by (auto simp: pipe_inv_def run_write_def wake_readers_iff)
  qed
qed

lemma run_read_inv:
  assumes inv: "pipe_inv kills s" and i: "s_proc s i = PReading n"
  shows "pipe_inv kills (run_read killed i n s)"
proof -
  let ?p = "s_pipe s"
  have ok: "pipe_ok ?p" and sent: "s_sent s = s_rcvd s @ pipe_queue ?p" using inv by (simp_all add: pipe_inv_def)
  have ro: "readopen ?p" using inv i unfolding pipe_inv_def by (metis reading_simps(4))
  obtain q out where w: "piperead killed n ?p = (q, out)" by fastforce
  note r = piperead_spec [OF ok w]
  show ?thesis
  proof (cases out)
    case (RDone xs)
    have vac: "pipe_vacant q" if "pipe_vacant ?p" using r RDone that ok pq.vacant_iff by auto
    show ?thesis using RDone r inv sent w vac by (auto simp: pipe_inv_def run_read_def wake_writers_iff)
  next
    case RFail
    then show ?thesis using inv w by (auto simp: pipe_inv_def run_read_def)
  next
    case RSleep
    then show ?thesis using inv w r ro by (auto simp: pipe_inv_def run_read_def)
  qed
qed

lemma pipeclose_same [simp]: "pipe_ok (fst (pipeclose w p)) = pipe_ok p" "pipe_queue (fst (pipeclose w p)) = pipe_queue p"
    "pipe_full (fst (pipeclose w p)) = pipe_full p" "pipe_vacant (fst (pipeclose w p)) = pipe_vacant p"
    "readopen (fst (pipeclose w p)) = (readopen p \<and> w)" "writeopen (fst (pipeclose w p)) = (writeopen p \<and> \<not> w)"
  by (simp_all add: pipeclose_def Let_def pipe_ok_def pipe_queue_def pipe_full_def pipe_vacant_def)

lemma pipe_inv_step: "pipe_step kills s t \<Longrightarrow> pipe_inv kills s \<Longrightarrow> pipe_inv kills t"
proof (induction rule: pipe_step.induct)
  case (do_write s i cs killed)
  then show ?case by (intro run_write_inv) auto
next
  case (do_read s i n killed)
  then show ?case by (intro run_read_inv)
next
  case (wake_reader s i n)
  then have "readopen (s_pipe s)" unfolding pipe_inv_def by (metis reading_simps(5))
  with wake_reader show ?case by (auto simp: pipe_inv_def)
qed (auto simp: pipe_inv_def wake_readers_iff wake_writers_iff)

lemma pipe_inv_reachable: "(pipe_step kills)\<^sup>*\<^sup>* (pipe_start d) s \<Longrightarrow> pipe_inv kills s"
proof (induction rule: rtranclp_induct)
  case base
  show ?case by (simp add: pipe_inv_def pipe_start_def pipe_new_def pipe_ok_def pipe_queue_def ring_list_def ring_len_def)
qed (rule pipe_inv_step)

section \<open>Properties\<close>

text \<open>A run: process 0 reads from the empty pipe and sleeps, then process 1 writes.\<close>

definition asleep :: psys where
  "asleep = run_read False 0 1 ((pipe_start (\<lambda>_. 0))\<lparr>s_proc := (\<lambda>_. PIdle)(0 := PReading 1)\<rparr>)"

definition about_to_write :: "byte list \<Rightarrow> psys" where
  "about_to_write cs = asleep\<lparr>s_proc := (s_proc asleep)(1 := PWriting cs)\<rparr>"

lemma asleep_eq: "asleep = (pipe_start (\<lambda>_. 0))\<lparr>s_proc := (\<lambda>_. PIdle)(0 := PReadSleep 1)\<rparr>"
  by (simp add: asleep_def run_read_def piperead_def pipe_start_def pipe_new_def pipe_vacant_def)

lemma about_to_write_reachable: "(pipe_step kills)\<^sup>*\<^sup>* (pipe_start (\<lambda>_. 0)) (about_to_write cs)"
proof -
  let ?a = "(pipe_start (\<lambda>_. 0))\<lparr>s_proc := (\<lambda>_. PIdle)(0 := PReading 1)\<rparr>"
  have "pipe_step kills (pipe_start (\<lambda>_. 0)) ?a"
    using call_read [of "pipe_start (\<lambda>_. 0)" 0 kills 1] by (simp add: pipe_start_def pipe_new_def)
  moreover have "pipe_step kills ?a asleep" unfolding asleep_def by (rule do_read) simp
  moreover have "pipe_step kills asleep (about_to_write cs)" unfolding about_to_write_def
    by (rule call_write) (simp_all add: asleep_eq pipe_start_def pipe_new_def)
  ultimately show ?thesis by (meson rtranclp.rtrancl_into_rtrancl rtranclp.rtrancl_refl)
qed

text \<open>
  C19: A pipe delivers every byte once and in order. Over all interleavings of readers, writers,
  closes and kills, and across the wrap-around of the 32-bit counters, the bytes sent are the
  bytes received followed by the bytes in the ring, of which there are never more than the
  ring's 512.
\<close>

theorem pipe_fifo:
  assumes "(pipe_step kills)\<^sup>*\<^sup>* (pipe_start d) s"
  shows "s_sent s = s_rcvd s @ pipe_queue (s_pipe s) \<and> length (pipe_queue (s_pipe s)) \<le> PIPESIZE"
  using pipe_inv_reachable [OF assms] pq.bounded by (simp add: pipe_inv_def)

theorem pipe_fifo_witness:
  "\<exists>s. (pipe_step True)\<^sup>*\<^sup>* (pipe_start (\<lambda>_. 0)) s \<and> s_sent s = [7, 8] \<and> s_rcvd s @ pipe_queue (s_pipe s) = [7, 8]"
proof -
  let ?s = "run_write False 1 [7, 8] (about_to_write [7, 8])"
  have "pipe_step True (about_to_write [7, 8]) ?s" by (rule do_write) (simp_all add: about_to_write_def)
  with about_to_write_reachable have r: "(pipe_step True)\<^sup>*\<^sup>* (pipe_start (\<lambda>_. 0)) ?s" by (rule rtranclp.rtrancl_into_rtrancl)
  have "s_sent ?s = [7, 8]"
    by (simp add: run_write_def about_to_write_def asleep_eq pipe_start_def pipe_new_def pipe_full_def pipe_put_def PIPESIZE_num)
  with r pipe_fifo [OF r] show ?thesis by (intro exI [of _ ?s]) simp
qed

text \<open>
  C20: No lost wake-ups as long as no writer is killed: a process asleep on the pipe could not
  proceed. A sleeping writer finds the pipe full with a reader open, a sleeping reader finds it
  empty with a writer open.
\<close>

theorem pipe_no_lost_wakeup:
  assumes "(pipe_step False)\<^sup>*\<^sup>* (pipe_start d) s"
  shows "(s_proc s i = PWriteSleep cs \<longrightarrow> length (pipe_queue (s_pipe s)) = PIPESIZE \<and> readopen (s_pipe s)) \<and>
     (s_proc s i = PReadSleep n \<longrightarrow> pipe_queue (s_pipe s) = [] \<and> writeopen (s_pipe s))"
  using pipe_inv_reachable [OF assms] pq.full_iff [of "s_pipe s"] pq.vacant_iff [of "s_pipe s"] by (auto simp: pipe_inv_def)

theorem pipe_no_lost_wakeup_witness:
  "s_proc (about_to_write [7]) 0 = PReadSleep 1 \<and> pipe_queue (s_pipe (about_to_write [7])) = [] \<and> writeopen (s_pipe (about_to_write [7]))"
proof -
  have "s_proc (about_to_write [7]) 0 = PReadSleep 1" by (simp add: about_to_write_def asleep_eq)
  with pipe_no_lost_wakeup [OF about_to_write_reachable, of "[7]" 0 "[]" 1] show ?thesis by simp
qed

text \<open>
  C21: A killed writer can leave a reader asleep on a full pipe. When \<^verbatim>\<open>pipewrite\<close> fills the pipe
  and then finds its process killed, it returns without waking the readers, so a reader that
  went to sleep on the empty pipe stays asleep although 512 bytes are there and a write end is
  open.
\<close>

theorem pipe_killed_writer_strands_reader:
  "\<exists>s. (pipe_step True)\<^sup>*\<^sup>* (pipe_start (\<lambda>_. 0)) s \<and> s_proc s 0 = PReadSleep 1 \<and> s_proc s 1 = PIdle \<and>
     length (pipe_queue (s_pipe s)) = 512 \<and> writeopen (s_pipe s)"
proof -
  let ?cs = "replicate 513 0 :: byte list"
  let ?s = "run_write True 1 ?cs (about_to_write ?cs)"
  let ?p = "s_pipe (about_to_write ?cs)"
  have "pipe_step True (about_to_write ?cs) ?s" by (rule do_write) (simp_all add: about_to_write_def)
  with about_to_write_reachable have r: "(pipe_step True)\<^sup>*\<^sup>* (pipe_start (\<lambda>_. 0)) ?s" by (rule rtranclp.rtrancl_into_rtrancl)
  have p: "?p = pipe_new (\<lambda>_. 0)" by (simp add: about_to_write_def asleep_eq pipe_start_def)
  have q0: "pipe_ok ?p" "pipe_queue ?p = []" by (simp_all add: p pipe_new_def pipe_ok_def pipe_queue_def ring_list_def ring_len_def)
  obtain q out where w: "pipewrite True ?cs ?p = (q, out)" by fastforce
  have res: "out = WFail [0]" "length (pipe_queue q) = 512" "writeopen q = writeopen ?p"
    by (rule pipewrite_spec [OF q0(1) w], simp add: q0(2) PIPESIZE_num)+
  have "s_proc ?s = (\<lambda>_. PIdle)(0 := PReadSleep 1)" "s_pipe ?s = q"
    using w res(1) by (simp_all add: run_write_def) (auto simp: about_to_write_def asleep_eq fun_eq_iff)
  then show ?thesis using r res by (intro exI [of _ ?s]) (simp add: p pipe_new_def)
qed

end
