(* ===== verification/KState.thy ===== *)
theory KState
  imports Fs Vm Pipe
begin

text \<open>
  The state the system-call layer works on: the file system and log below it, the page
  allocator with kernel memory, the file table, the pipes and the process table
  (\<^verbatim>\<open>file.h\<close>, \<^verbatim>\<open>proc.h\<close>, \<^verbatim>\<open>x86.h\<close>). Pointers into tables are indices, a null pointer is \<open>None\<close>.
  Between taking and releasing a table's spin lock a function runs without interleaving, so the
  locks themselves are not in this state (they are modelled in \<open>Spinlock\<close>). The trap frame is
  kept in the process entry instead of on its kernel stack, and a saved kernel context is where
  it resumes. \<open>cwd\<close> and \<open>curpid\<close> of the lower layers are those of the current process.
\<close>

section \<open>Records\<close>

definition NPROC :: nat where "NPROC = 64"
definition NOFILE :: nat where "NOFILE = 16"
definition NFILE :: nat where "NFILE = 100"
definition KSTACKSIZE :: nat where "KSTACKSIZE = 4096"

lemmas table_sizes [sizes] = NPROC_def NOFILE_def NFILE_def

datatype ftype = FD_NONE | FD_PIPE | FD_INODE

record kfile =
  f_type :: ftype
  f_ref :: int
  f_readable :: bool
  f_writable :: bool
  f_pipe :: nat
  f_ip :: nat
  f_off :: nat

record trapframe =
  tf_edi :: nat
  tf_esi :: nat
  tf_ebp :: nat
  tf_oesp :: nat
  tf_ebx :: nat
  tf_edx :: nat
  tf_ecx :: nat
  tf_eax :: nat
  tf_gs :: nat
  tf_fs :: nat
  tf_es :: nat
  tf_ds :: nat
  tf_trapno :: nat
  tf_err :: nat
  tf_eip :: nat
  tf_cs :: nat
  tf_eflags :: nat
  tf_esp :: nat
  tf_ss :: nat

datatype procstate = UNUSED | EMBRYO | SLEEPING | RUNNABLE | RUNNING | ZOMBIE

text \<open>Where a saved kernel context resumes: at the start of \<^verbatim>\<open>forkret\<close>, or after \<^verbatim>\<open>swtch\<close> in \<^verbatim>\<open>sched\<close>.\<close>

datatype kcontext = AtForkret | AfterSwtch

record proc =
  p_sz :: nat
  p_pgdir :: nat
  p_kstack :: nat
  p_state :: procstate
  p_pid :: int
  p_parent :: "nat option"
  p_tf :: trapframe
  p_context :: kcontext
  p_chan :: "chan option"
  p_killed :: bool
  p_ofile :: "nat \<Rightarrow> nat option"
  p_cwd :: "nat option"
  p_name :: "nat \<Rightarrow> byte"

text \<open>\<open>kdata\<close> is the linker symbol \<^verbatim>\<open>data\<close>; \<open>cur\<close> is the process running on this CPU.\<close>

record kstate = fstate +
  km :: kmem
  kdata :: nat
  ftab :: "nat \<Rightarrow> kfile"
  pipes :: "nat \<Rightarrow> pipe"
  procs :: "nat \<Rightarrow> proc"
  initproc :: "nat option"
  nextpid :: int
  cur :: "nat option"
  ticks :: nat

definition setfile :: "nat \<Rightarrow> (kfile \<Rightarrow> kfile) \<Rightarrow> 'x kstate_scheme \<Rightarrow> 'x kstate_scheme" where
  "setfile i f s = s\<lparr>ftab := (ftab s)(i := f (ftab s i))\<rparr>"

definition setproc :: "nat \<Rightarrow> (proc \<Rightarrow> proc) \<Rightarrow> 'x kstate_scheme \<Rightarrow> 'x kstate_scheme" where
  "setproc i f s = s\<lparr>procs := (procs s)(i := f (procs s i))\<rparr>"

definition setpipe :: "nat \<Rightarrow> pipe \<Rightarrow> 'x kstate_scheme \<Rightarrow> 'x kstate_scheme" where
  "setpipe i p s = s\<lparr>pipes := (pipes s)(i := p)\<rparr>"

lemma setfile_sel [simp]: "ftab (setfile i f s) = (ftab s)(i := f (ftab s i))" "procs (setfile i f s) = procs s"
    "pipes (setfile i f s) = pipes s" "km (setfile i f s) = km s" "cur (setfile i f s) = cur s" "icache (setfile i f s) = icache s"
  by (simp_all add: setfile_def)

lemma setproc_sel [simp]: "procs (setproc i f s) = (procs s)(i := f (procs s i))" "ftab (setproc i f s) = ftab s"
    "pipes (setproc i f s) = pipes s" "km (setproc i f s) = km s" "cur (setproc i f s) = cur s" "initproc (setproc i f s) = initproc s"
    "nextpid (setproc i f s) = nextpid s" "icache (setproc i f s) = icache s" "ticks (setproc i f s) = ticks s"
  by (simp_all add: setproc_def)

lemma setpipe_sel [simp]: "pipes (setpipe i p s) = (pipes s)(i := p)" "ftab (setpipe i p s) = ftab s" "procs (setpipe i p s) = procs s"
    "km (setpipe i p s) = km s" "cur (setpipe i p s) = cur s" "icache (setpipe i p s) = icache s"
  by (simp_all add: setpipe_def)

text \<open>A page-allocator or page-table function, run on the kernel's memory.\<close>

definition on_kmem :: "(kmem, 'a) kmon \<Rightarrow> ('x kstate_scheme, 'a) kmon" where
  "on_kmem m = (\<lambda>s. case m (km s) of Done x t \<Rightarrow> Done x (s\<lparr>km := t\<rparr>) | Panic e \<Rightarrow> Panic e | Sleep c t \<Rightarrow> Sleep c (s\<lparr>km := t\<rparr>))"

lemma wp_on_kmem [simp, wp_simps]: "wp (on_kmem m) Q s = wp m (\<lambda>x t. Q x (s\<lparr>km := t\<rparr>)) (km s)"
  by (simp add: wp_def on_kmem_def split: result.splits)

section \<open>The current process and wake-ups\<close>

text \<open>\<^verbatim>\<open>myproc\<close>; the functions that use its result without a test fault on a null pointer.\<close>

definition myproc :: "('x kstate_scheme, nat) kmon" where
  "myproc = kbind (kget cur) (\<lambda>c. case c of Some p \<Rightarrow> kret p | None \<Rightarrow> kpanic ''null process'')"

definition wakeup1 :: "chan \<Rightarrow> (nat \<Rightarrow> proc) \<Rightarrow> nat \<Rightarrow> proc" where
  "wakeup1 c ps = (\<lambda>i. if i < NPROC \<and> p_state (ps i) = SLEEPING \<and> p_chan (ps i) = Some c
     then (ps i)\<lparr>p_state := RUNNABLE\<rparr> else ps i)"

definition wakeup :: "chan \<Rightarrow> ('x kstate_scheme, unit) kmon" where
  "wakeup c = kmod (\<lambda>s. s\<lparr>procs := wakeup1 c (procs s)\<rparr>)"

text \<open>
  \<^verbatim>\<open>sched\<close> switches to the scheduler; the thread goes on after \<^verbatim>\<open>swtch\<close> when it is scheduled again.
  The outcome \<open>Sleep\<close> carries the state at the switch. The tests of the lock state are made in
  \<open>Spinlock\<close>'s model.
\<close>

definition sched :: "chan \<Rightarrow> ('x kstate_scheme, 'a) kmon" where
  "sched c = kbind myproc (\<lambda>p. kbind (kget (\<lambda>s. p_state (procs s p))) (\<lambda>st.
     if st = RUNNING then kpanic ''sched running'' else
     kseq (kmod (setproc p (\<lambda>q. q\<lparr>p_context := AfterSwtch\<rparr>))) (ksleep c)))"

definition sleep :: "chan \<Rightarrow> ('x kstate_scheme, 'a) kmon" where
  "sleep c = kbind (kget cur) (\<lambda>q. case q of None \<Rightarrow> kpanic ''sleep'' | Some p \<Rightarrow>
     kseq (kmod (setproc p (\<lambda>q. q\<lparr>p_chan := Some c, p_state := SLEEPING\<rparr>))) (sched c))"

definition yield :: "('x kstate_scheme, 'a) kmon" where
  "yield = kbind myproc (\<lambda>p. kseq (kmod (setproc p (\<lambda>q. q\<lparr>p_state := RUNNABLE\<rparr>))) (sched ChanFree))"

text \<open>What follows \<^verbatim>\<open>sched\<close> in \<^verbatim>\<open>sleep\<close> when the process runs again.\<close>

definition after_sleep :: "('x kstate_scheme, unit) kmon" where
  "after_sleep = kbind myproc (\<lambda>p. kmod (setproc p (\<lambda>q. q\<lparr>p_chan := None\<rparr>)))"

end
