(* ===== verification/File.thy ===== *)
theory File
  imports KState
begin

text \<open>
  Open files (\<^verbatim>\<open>file.c\<close>) and the pipe functions at the level of the kernel state (\<^verbatim>\<open>pipe.c\<close>). The
  wrappers run the pipe's ring operations of \<open>Pipe\<close> with the wake-ups and sleeps of the code.
\<close>

section \<open>Pipes in the kernel\<close>

definition cur_killed :: "'x kstate_scheme \<Rightarrow> bool" where
  "cur_killed s = (case cur s of Some p \<Rightarrow> p_killed (procs s p) | None \<Rightarrow> False)"

definition kpipewrite :: "nat \<Rightarrow> byte list \<Rightarrow> ('x kstate_scheme, int) kmon" where
  "kpipewrite p bs = (\<lambda>s. case pipewrite (cur_killed s) bs (pipes s p) of (q, out) \<Rightarrow>
     (case out of
        WDone \<Rightarrow> kseq (wakeup (ChanPipeRead p)) (kret (int (length bs))) (setpipe p q s)
      | WFail rest \<Rightarrow> Done (- 1) (setpipe p q s)
      | WSleep rest \<Rightarrow> kseq (wakeup (ChanPipeRead p)) (sleep (ChanPipeWrite p)) (setpipe p q s)))"

definition kpiperead :: "nat \<Rightarrow> int \<Rightarrow> ('x kstate_scheme, int \<times> byte list) kmon" where
  "kpiperead p n = (\<lambda>s. case piperead (cur_killed s) (nat n) (pipes s p) of (q, out) \<Rightarrow>
     (case out of
        RDone xs \<Rightarrow> kseq (wakeup (ChanPipeWrite p)) (kret (int (length xs), xs)) (setpipe p q s)
      | RFail \<Rightarrow> Done (- 1, []) s
      | RSleep \<Rightarrow> sleep (ChanPipeRead p) s))"

definition kpipeclose :: "nat \<Rightarrow> bool \<Rightarrow> ('x kstate_scheme, unit) kmon" where
  "kpipeclose p wrt = kbind (kget (\<lambda>s. pipeclose wrt (pipes s p))) (\<lambda>(q, freed).
     kseq (kmod (setpipe p q)) (kseq (wakeup (if wrt then ChanPipeRead p else ChanPipeWrite p))
       (if freed then on_kmem (kfree p) else kret ())))"

section \<open>The file table\<close>

definition filealloc :: "('x kstate_scheme, nat option) kmon" where
  "filealloc = kbind (kget (\<lambda>s. find (\<lambda>i. f_ref (ftab s i) = 0) [0..<NFILE])) (\<lambda>r. case r of
     None \<Rightarrow> kret None | Some i \<Rightarrow> kseq (kmod (setfile i (\<lambda>f. f\<lparr>f_ref := 1\<rparr>))) (kret (Some i)))"

definition filedup :: "nat \<Rightarrow> ('x kstate_scheme, nat) kmon" where
  "filedup i = kbind (kget (\<lambda>s. f_ref (ftab s i))) (\<lambda>r. if r < 1 then kpanic ''filedup'' else
     kseq (kmod (setfile i (\<lambda>f. f\<lparr>f_ref := f_ref f + 1\<rparr>))) (kret i))"

definition fileclose :: "nat \<Rightarrow> ('x kstate_scheme, unit) kmon" where
  "fileclose i = kbind (kget (\<lambda>s. f_ref (ftab s i))) (\<lambda>r. if r < 1 then kpanic ''fileclose'' else
     kseq (kmod (setfile i (\<lambda>f. f\<lparr>f_ref := f_ref f - 1\<rparr>)))
     (if r - 1 > 0 then kret () else
      kbind (kget (\<lambda>s. ftab s i)) (\<lambda>ff. kseq (kmod (setfile i (\<lambda>f. f\<lparr>f_ref := 0, f_type := FD_NONE\<rparr>)))
        (case f_type ff of FD_PIPE \<Rightarrow> kpipeclose (f_pipe ff) (f_writable ff)
         | FD_INODE \<Rightarrow> kseq begin_op (kseq (iput (f_ip ff)) end_op)
         | FD_NONE \<Rightarrow> kret ()))))"

definition filestat :: "nat \<Rightarrow> ('x kstate_scheme, stat option) kmon" where
  "filestat i = kbind (kget (\<lambda>s. ftab s i)) (\<lambda>f. if f_type f = FD_INODE
     then kseq (ilock (Some (f_ip f))) (kbind (stati (f_ip f)) (\<lambda>st. kseq (iunlock (Some (f_ip f))) (kret (Some st))))
     else kret None)"

definition fileread :: "'x kstate_scheme devsw \<Rightarrow> nat \<Rightarrow> int \<Rightarrow> ('x kstate_scheme, int \<times> byte list) kmon" where
  "fileread dv i n = kbind (kget (\<lambda>s. ftab s i)) (\<lambda>f. if \<not> f_readable f then kret (- 1, []) else
     case f_type f of FD_PIPE \<Rightarrow> kpiperead (f_pipe f) n
     | FD_INODE \<Rightarrow> kseq (ilock (Some (f_ip f))) (kbind (readi dv (f_ip f) (f_off f) (of_s32 n)) (\<lambda>(r, bs).
         kseq (if r > 0 then kmod (setfile i (\<lambda>f. f\<lparr>f_off := u32 (f_off f + nat r)\<rparr>)) else kret ())
           (kseq (iunlock (Some (f_ip f))) (kret (r, bs)))))
     | FD_NONE \<Rightarrow> kpanic ''fileread'')"

text \<open>
  \<^verbatim>\<open>filewrite\<close> writes an inode in transactions of at most \<^verbatim>\<open>max\<close> bytes. \<open>bs\<close> are the bytes at \<^verbatim>\<open>addr\<close>.
\<close>

definition filewrite_max :: nat where "filewrite_max = (MAXOPBLOCKS - 1 - 1 - 2) div 2 * 512"

lemma filewrite_max_num: "filewrite_max = 1536"
  by (simp add: filewrite_max_def MAXOPBLOCKS_num)

function filewrite_loop :: "'x kstate_scheme devsw \<Rightarrow> nat \<Rightarrow> nat \<Rightarrow> nat \<Rightarrow> byte list \<Rightarrow> ('x kstate_scheme, int) kmon" where
  "filewrite_loop dv i ip k bs = (if \<not> k < length bs then kret (int k) else
     (let n1 = min (length bs - k) filewrite_max in
      kseq begin_op (kseq (ilock (Some ip))
      (kbind (kget (\<lambda>s. f_off (ftab s i))) (\<lambda>off. kbind (writei dv ip (take n1 (drop k bs)) off) (\<lambda>r.
       kseq (if r > 0 then kmod (setfile i (\<lambda>f. f\<lparr>f_off := u32 (f_off f + nat r)\<rparr>)) else kret ())
       (kseq (iunlock (Some ip)) (kseq end_op
       (if r < 0 then kret (int k) else if r \<noteq> int n1 then kpanic ''short filewrite''
        else filewrite_loop dv i ip (k + n1) bs)))))))))"
  by pat_completeness auto
termination
  by (relation "measure (\<lambda>(dv, i, ip, k, bs). length bs - k)") (auto simp: filewrite_max_num)

declare filewrite_loop.simps [simp del]

definition filewrite :: "'x kstate_scheme devsw \<Rightarrow> nat \<Rightarrow> byte list \<Rightarrow> int \<Rightarrow> ('x kstate_scheme, int) kmon" where
  "filewrite dv i bs n = kbind (kget (\<lambda>s. ftab s i)) (\<lambda>f. if \<not> f_writable f then kret (- 1) else
     case f_type f of FD_PIPE \<Rightarrow> kbind (kpipewrite (f_pipe f) (take (nat n) bs)) (\<lambda>r. kret (if r < 0 then r else n))
     | FD_INODE \<Rightarrow> kbind (filewrite_loop dv i (f_ip f) 0 (take (nat n) bs)) (\<lambda>k. kret (if k = n then n else - 1))
     | FD_NONE \<Rightarrow> kpanic ''filewrite'')"

section \<open>Creating a pipe\<close>

definition pipealloc_bad :: "nat option \<Rightarrow> nat option \<Rightarrow> ('x kstate_scheme, (nat \<times> nat) option) kmon" where
  "pipealloc_bad f0 f1 = kseq (case f0 of Some i \<Rightarrow> fileclose i | None \<Rightarrow> kret ())
     (kseq (case f1 of Some i \<Rightarrow> fileclose i | None \<Rightarrow> kret ()) (kret None))"

text \<open>The steps of \<^verbatim>\<open>pipealloc\<close> after the page, after the first and after the second file are there.\<close>

definition pipe_wire :: "nat \<Rightarrow> nat \<Rightarrow> nat \<Rightarrow> ('x kstate_scheme, (nat \<times> nat) option) kmon" where
  "pipe_wire i j p = (if p = 0 then pipealloc_bad (Some i) (Some j) else
     kseq (kmod (\<lambda>s. setpipe p (pipe_new (p_data (pipes s p))) s))
     (kseq (kmod (setfile i (\<lambda>f. f\<lparr>f_type := FD_PIPE, f_readable := True, f_writable := False, f_pipe := p\<rparr>)))
     (kseq (kmod (setfile j (\<lambda>f. f\<lparr>f_type := FD_PIPE, f_readable := False, f_writable := True, f_pipe := p\<rparr>)))
       (kret (Some (i, j))))))"

definition pipe_second :: "nat \<Rightarrow> nat option \<Rightarrow> ('x kstate_scheme, (nat \<times> nat) option) kmon" where
  "pipe_second i f1 = (case f1 of None \<Rightarrow> pipealloc_bad (Some i) None | Some j \<Rightarrow> kbind (on_kmem kalloc) (pipe_wire i j))"

definition pipe_first :: "nat option \<Rightarrow> ('x kstate_scheme, (nat \<times> nat) option) kmon" where
  "pipe_first f0 = (case f0 of None \<Rightarrow> pipealloc_bad None None | Some i \<Rightarrow> kbind filealloc (pipe_second i))"

definition pipealloc :: "('x kstate_scheme, (nat \<times> nat) option) kmon" where
  "pipealloc = kbind filealloc pipe_first"

end
