(* ===== verification/Proc.thy ===== *)
theory Proc
  imports File
begin

text \<open>
  Processes (\<^verbatim>\<open>proc.c\<close>): creation, exit, wait, kill, scheduling. A function that switches to the
  scheduler ends with the outcome \<open>Sleep\<close> in the state at the switch; \<open>schedule\<close> is one pick of the
  scheduler's loop. \<open>code\<close> is the embedded \<^verbatim>\<open>initcode\<close> binary.
\<close>

section \<open>Creation\<close>

text \<open>
  \<^verbatim>\<open>allocproc\<close>. The trap frame and the context are the top of the new kernel stack, so their
  content is what the page holds: junk for the former, zero with \<^verbatim>\<open>eip = forkret\<close> for the latter.
\<close>

definition allocproc :: "('x kstate_scheme, nat option) kmon" where
  "allocproc = kbind (kget (\<lambda>s. find (\<lambda>i. p_state (procs s i) = UNUSED) [0..<NPROC])) (\<lambda>r. case r of
     None \<Rightarrow> kret None
   | Some i \<Rightarrow>
     kseq (kmod (\<lambda>s. (setproc i (\<lambda>p. p\<lparr>p_state := EMBRYO, p_pid := nextpid s\<rparr>) s)\<lparr>nextpid := nextpid s + 1\<rparr>))
     (kbind (on_kmem kalloc) (\<lambda>k. kseq (kmod (setproc i (\<lambda>p. p\<lparr>p_kstack := k\<rparr>)))
       (if k = 0 then kseq (kmod (setproc i (\<lambda>p. p\<lparr>p_state := UNUSED\<rparr>))) (kret None)
        else kseq (kmod (setproc i (\<lambda>p. p\<lparr>p_context := AtForkret\<rparr>))) (kret (Some i))))))"

definition SEG_UCODE :: nat where "SEG_UCODE = 3"
definition SEG_UDATA :: nat where "SEG_UDATA = 4"
definition DPL_USER :: nat where "DPL_USER = 3"
definition FL_IF :: nat where "FL_IF = 512"

definition user_tf :: trapframe where
  "user_tf = \<lparr>tf_edi = 0, tf_esi = 0, tf_ebp = 0, tf_oesp = 0, tf_ebx = 0, tf_edx = 0, tf_ecx = 0, tf_eax = 0, tf_gs = 0, tf_fs = 0,
     tf_es = or (8 * SEG_UDATA) DPL_USER, tf_ds = or (8 * SEG_UDATA) DPL_USER, tf_trapno = 0, tf_err = 0, tf_eip = 0,
     tf_cs = or (8 * SEG_UCODE) DPL_USER, tf_eflags = FL_IF, tf_esp = PGSIZE, tf_ss = or (8 * SEG_UDATA) DPL_USER\<rparr>"

definition initcode_name :: "nat \<Rightarrow> byte" where
  "initcode_name i = (if i < 8 then [105, 110, 105, 116, 99, 111, 100, 101] ! i else 0)"

definition userinit :: "'x kstate_scheme devsw \<Rightarrow> byte list \<Rightarrow> ('x kstate_scheme, unit) kmon" where
  "userinit dv code = kbind allocproc (\<lambda>r. case r of None \<Rightarrow> kpanic ''null process'' | Some p \<Rightarrow>
     kseq (kmod (\<lambda>s. s\<lparr>initproc := Some p\<rparr>))
     (kbind (kget kdata) (\<lambda>d. kbind (on_kmem (setupkvm d)) (\<lambda>pg.
       kseq (kmod (setproc p (\<lambda>q. q\<lparr>p_pgdir := pg\<rparr>)))
       (if pg = 0 then kpanic ''userinit: out of memory?'' else
        kseq (on_kmem (inituvm pg code))
        (kseq (kmod (setproc p (\<lambda>q. q\<lparr>p_sz := PGSIZE, p_tf := user_tf, p_name := safestrcpy (p_name q) initcode_name 16\<rparr>)))
        (kbind (namei dv [slash]) (\<lambda>c. kseq (kmod (setproc p (\<lambda>q. q\<lparr>p_cwd := c\<rparr>)))
           (kmod (setproc p (\<lambda>q. q\<lparr>p_state := RUNNABLE\<rparr>)))))))))))"

text \<open>\<^verbatim>\<open>switchuvm\<close> without the segment and control registers: its three checks.\<close>

definition switchuvm :: "nat \<Rightarrow> ('x kstate_scheme, unit) kmon" where
  "switchuvm p = kbind (kget (\<lambda>s. procs s p)) (\<lambda>q.
     if p_kstack q = 0 then kpanic ''switchuvm: no kstack''
     else if p_pgdir q = 0 then kpanic ''switchuvm: no pgdir'' else kret ())"

definition growproc :: "int \<Rightarrow> ('x kstate_scheme, int) kmon" where
  "growproc n = kbind myproc (\<lambda>c. kbind (kget (\<lambda>s. procs s c)) (\<lambda>p.
     let new = of_s32 (int (p_sz p) + n);
         finish = (\<lambda>sz. kseq (kmod (setproc c (\<lambda>q. q\<lparr>p_sz := sz\<rparr>))) (kseq (switchuvm c) (kret 0))) in
     if n > 0 then kbind (on_kmem (allocuvm (p_pgdir p) (p_sz p) new)) (\<lambda>sz. if sz = 0 then kret (- 1) else finish sz)
     else if n < 0 then kbind (on_kmem (deallocuvm (p_pgdir p) (p_sz p) new)) (\<lambda>sz. if sz = 0 then kret (- 1) else finish sz)
     else finish (p_sz p)))"

text \<open>\<^verbatim>\<open>fork\<close>: \<open>fork_copy\<close> is the part after the child's page table is there.\<close>

definition fork_copy :: "nat \<Rightarrow> nat \<Rightarrow> ('x kstate_scheme, int) kmon" where
  "fork_copy c np =
     kseq (kmod (\<lambda>s. setproc np (\<lambda>q. q\<lparr>p_sz := p_sz (procs s c), p_parent := Some c, p_tf := p_tf (procs s c)\<rparr>) s))
     (kseq (kmod (setproc np (\<lambda>q. q\<lparr>p_tf := (p_tf q)\<lparr>tf_eax := 0\<rparr>\<rparr>)))
     (kseq (kfor [0..<NOFILE] (\<lambda>i. kbind (kget (\<lambda>s. p_ofile (procs s c) i)) (\<lambda>fo. case fo of None \<Rightarrow> kret ()
        | Some f \<Rightarrow> kbind (filedup f) (\<lambda>g. kmod (setproc np (\<lambda>q. q\<lparr>p_ofile := (p_ofile q)(i := Some g)\<rparr>))))))
     (kbind (kget (\<lambda>s. p_cwd (procs s c))) (\<lambda>d. case d of None \<Rightarrow> kpanic ''null inode'' | Some ip \<Rightarrow>
       kbind (idup ip) (\<lambda>ip'. kseq (kmod (setproc np (\<lambda>q. q\<lparr>p_cwd := Some ip'\<rparr>)))
       (kseq (kmod (\<lambda>s. setproc np (\<lambda>q. q\<lparr>p_name := safestrcpy (p_name q) (p_name (procs s c)) 16\<rparr>) s))
       (kbind (kget (\<lambda>s. p_pid (procs s np))) (\<lambda>pid.
         kseq (kmod (setproc np (\<lambda>q. q\<lparr>p_state := RUNNABLE\<rparr>))) (kret pid)))))))))"

definition fork_undo :: "nat \<Rightarrow> ('x kstate_scheme, int) kmon" where
  "fork_undo np = kbind (kget (\<lambda>s. p_kstack (procs s np))) (\<lambda>k. kseq (on_kmem (kfree k))
     (kseq (kmod (setproc np (\<lambda>q. q\<lparr>p_kstack := 0, p_state := UNUSED\<rparr>))) (kret (- 1))))"

definition fork :: "('x kstate_scheme, int) kmon" where
  "fork = kbind myproc (\<lambda>c. kbind allocproc (\<lambda>r. case r of None \<Rightarrow> kret (- 1) | Some np \<Rightarrow>
     kbind (kget (\<lambda>s. (kdata s, procs s c))) (\<lambda>(d, p). kbind (on_kmem (copyuvm d (p_pgdir p) (p_sz p))) (\<lambda>pg.
       kseq (kmod (setproc np (\<lambda>q. q\<lparr>p_pgdir := pg\<rparr>)))
         (if pg = 0 then fork_undo np else fork_copy c np)))))"

section \<open>Exit and wait\<close>

definition abandon :: "nat \<Rightarrow> nat option \<Rightarrow> nat \<Rightarrow> (nat \<Rightarrow> proc) \<Rightarrow> nat \<Rightarrow> proc" where
  "abandon c ini i ps = (if p_parent (ps i) = Some c
     then (let ps' = ps(i := (ps i)\<lparr>p_parent := ini\<rparr>) in
       if p_state (ps' i) = ZOMBIE then (case ini of Some q \<Rightarrow> wakeup1 (ChanProc q) ps' | None \<Rightarrow> ps') else ps')
     else ps)"

definition close_all :: "nat \<Rightarrow> ('x kstate_scheme, unit) kmon" where
  "close_all c = kfor [0..<NOFILE] (\<lambda>fd. kbind (kget (\<lambda>s. p_ofile (procs s c) fd)) (\<lambda>fo. case fo of None \<Rightarrow> kret ()
     | Some f \<Rightarrow> kseq (fileclose f) (kmod (setproc c (\<lambda>q. q\<lparr>p_ofile := (p_ofile q)(fd := None)\<rparr>)))))"

definition drop_cwd :: "nat \<Rightarrow> ('x kstate_scheme, unit) kmon" where
  "drop_cwd c = kbind (kget (\<lambda>s. p_cwd (procs s c))) (\<lambda>d. case d of None \<Rightarrow> kpanic ''null inode'' | Some ip \<Rightarrow>
     kseq begin_op (kseq (iput ip) (kseq end_op (kmod (setproc c (\<lambda>q. q\<lparr>p_cwd := None\<rparr>))))))"

text \<open>The part of \<^verbatim>\<open>exit\<close> under the process-table lock, up to the switch.\<close>

definition become_zombie :: "nat \<Rightarrow> 'x kstate_scheme \<Rightarrow> 'x kstate_scheme" where
  "become_zombie c s = (let ps0 = (case p_parent (procs s c) of Some q \<Rightarrow> wakeup1 (ChanProc q) (procs s) | None \<Rightarrow> procs s);
       ps1 = fold (abandon c (initproc s)) [0..<NPROC] ps0
     in s\<lparr>procs := ps1(c := (ps1 c)\<lparr>p_state := ZOMBIE\<rparr>)\<rparr>)"

definition exit :: "('x kstate_scheme, unit) kmon" where
  "exit = kbind myproc (\<lambda>c. kbind (kget initproc) (\<lambda>i. if i = Some c then kpanic ''init exiting'' else
     kseq (close_all c) (kseq (drop_cwd c) (kseq (kmod (become_zombie c)) (sched ChanFree)))))"

text \<open>\<^verbatim>\<open>wait\<close>: one scan of the table; a sleeping parent scans again when it is woken.\<close>

definition reap :: "nat \<Rightarrow> ('x kstate_scheme, int) kmon" where
  "reap i = kbind (kget (\<lambda>s. procs s i)) (\<lambda>p. kseq (on_kmem (kfree (p_kstack p)))
     (kseq (kmod (setproc i (\<lambda>q. q\<lparr>p_kstack := 0\<rparr>)))
     (kseq (on_kmem (freevm (p_pgdir p)))
     (kseq (kmod (setproc i (\<lambda>q. q\<lparr>p_pid := 0, p_parent := None, p_name := (p_name q)(0 := 0), p_killed := False, p_state := UNUSED\<rparr>)))
       (kret (p_pid p))))))"

definition wait :: "('x kstate_scheme, int) kmon" where
  "wait = kbind myproc (\<lambda>c. kbind (kget procs) (\<lambda>ps.
     case find (\<lambda>i. p_parent (ps i) = Some c \<and> p_state (ps i) = ZOMBIE) [0..<NPROC] of
       Some i \<Rightarrow> reap i
     | None \<Rightarrow> if (\<forall>i\<in>set [0..<NPROC]. p_parent (ps i) \<noteq> Some c) \<or> p_killed (ps c) then kret (- 1)
               else sleep (ChanProc c)))"

section \<open>Scheduling and kill\<close>

text \<open>
  The scheduler's scan from index \<open>k\<close>: it runs the first runnable process from there. The result
  is the index of the process switched to, or \<open>None\<close> when the scan ends.
\<close>

definition schedule :: "nat \<Rightarrow> ('x kstate_scheme, nat option) kmon" where
  "schedule k = kbind (kget (\<lambda>s. find (\<lambda>i. p_state (procs s i) = RUNNABLE) [k..<NPROC])) (\<lambda>r. case r of
     None \<Rightarrow> kret None
   | Some i \<Rightarrow> kseq (kmod (\<lambda>s. s\<lparr>cur := Some i\<rparr>)) (kseq (switchuvm i)
       (kseq (kmod (\<lambda>s. (setproc i (\<lambda>p. p\<lparr>p_state := RUNNING\<rparr>) s)\<lparr>curpid := p_pid (procs s i),
            cwd := (case p_cwd (procs s i) of Some c \<Rightarrow> c | None \<Rightarrow> cwd s)\<rparr>))
         (kret (Some i)))))"

text \<open>Back in the scheduler: no process runs on this CPU.\<close>

definition sched_return :: "('x kstate_scheme, unit) kmon" where
  "sched_return = kmod (\<lambda>s. s\<lparr>cur := None\<rparr>)"

definition forkret :: "bool \<Rightarrow> ('x kstate_scheme, bool) kmon" where
  "forkret first = (if first then kseq (iinit ROOTDEV) (kseq (initlog ROOTDEV) (kret False)) else kret False)"

definition kill :: "int \<Rightarrow> ('x kstate_scheme, int) kmon" where
  "kill pid = kbind (kget (\<lambda>s. find (\<lambda>i. p_pid (procs s i) = pid) [0..<NPROC])) (\<lambda>r. case r of
     None \<Rightarrow> kret (- 1)
   | Some i \<Rightarrow> kseq (kmod (setproc i (\<lambda>p. p\<lparr>p_killed := True\<rparr>)))
       (kseq (kmod (setproc i (\<lambda>p. if p_state p = SLEEPING then p\<lparr>p_state := RUNNABLE\<rparr> else p))) (kret 0)))"

end
