(* ===== verification/Syscall.thy ===== *)
theory Syscall
  imports VmProps Proc
begin

text \<open>
  System-call arguments (\<^verbatim>\<open>syscall.c\<close>) and the process system calls (\<^verbatim>\<open>sysproc.c\<close>). The kernel
  reads user memory through the page table of the current process; an access to an address that is
  not mapped, or a store to a page that is not writable, is a page fault in the kernel, which \<^verbatim>\<open>trap\<close>
  turns into a panic. The result -1 of a fetch is \<open>None\<close>. A string argument is its address with
  the bytes before the NUL.
\<close>

section \<open>User memory\<close>

definition curproc :: "('x kstate_scheme, proc) kmon" where
  "curproc = kbind myproc (\<lambda>c. kget (\<lambda>s. procs s c))"

definition uload :: "nat \<Rightarrow> ('x kstate_scheme, byte) kmon" where
  "uload a = kbind curproc (\<lambda>p. kbind (kget (\<lambda>s. mem (km s))) (\<lambda>m. case mapping m (p_pgdir p) a of
       None \<Rightarrow> kpanic ''trap'' | Some e \<Rightarrow> kret (m (P2V (PTE_ADDR e) + a mod PGSIZE))))"

definition ustore :: "nat \<Rightarrow> byte \<Rightarrow> ('x kstate_scheme, unit) kmon" where
  "ustore a b = kbind curproc (\<lambda>p. kbind (kget (\<lambda>s. mem (km s))) (\<lambda>m. case mapping m (p_pgdir p) a of
       None \<Rightarrow> kpanic ''trap''
     | Some e \<Rightarrow> if and e PTE_W = 0 then kpanic ''trap'' else on_kmem (setmem (\<lambda>m. m(P2V (PTE_ADDR e) + a mod PGSIZE := b)))))"

primrec uload_bytes :: "nat \<Rightarrow> nat \<Rightarrow> ('x kstate_scheme, byte list) kmon" where
  "uload_bytes 0 a = kret []"
| "uload_bytes (Suc n) a = kbind (uload a) (\<lambda>b. kbind (uload_bytes n (a + 1)) (\<lambda>bs. kret (b # bs)))"

primrec ustore_bytes :: "byte list \<Rightarrow> nat \<Rightarrow> ('x kstate_scheme, unit) kmon" where
  "ustore_bytes [] a = kret ()"
| "ustore_bytes (b # bs) a = kseq (ustore a b) (ustore_bytes bs (a + 1))"

text \<open>The bytes of a 32-bit word in memory.\<close>

definition word_bytes :: "nat \<Rightarrow> byte list" where
  "word_bytes v = [of_nat v, of_nat (v div 256), of_nat (v div 65536), of_nat (v div 16777216)]"

definition word_of :: "byte list \<Rightarrow> nat" where
  "word_of bs = le32 (\<lambda>i. bs ! i) 0"

section \<open>Arguments\<close>

definition fetchint :: "nat \<Rightarrow> ('x kstate_scheme, nat option) kmon" where
  "fetchint addr = kbind curproc (\<lambda>p. if addr \<ge> p_sz p \<or> u32 (addr + 4) > p_sz p then kret None
     else kbind (uload_bytes 4 addr) (\<lambda>bs. kret (Some (word_of bs))))"

function fetchstr_loop :: "nat \<Rightarrow> nat \<Rightarrow> byte list \<Rightarrow> ('x kstate_scheme, byte list option) kmon" where
  "fetchstr_loop a ep acc = (if \<not> a < ep then kret None else
     kbind (uload a) (\<lambda>b. if b = 0 then kret (Some acc) else fetchstr_loop (a + 1) ep (acc @ [b])))"
  by pat_completeness auto
termination by (relation "measure (\<lambda>(a, ep, acc). ep - a)") auto

declare fetchstr_loop.simps [simp del]

definition fetchstr :: "nat \<Rightarrow> ('x kstate_scheme, byte list option) kmon" where
  "fetchstr addr = kbind curproc (\<lambda>p. if addr \<ge> p_sz p then kret None else fetchstr_loop addr (p_sz p) [])"

definition argint :: "nat \<Rightarrow> ('x kstate_scheme, int option) kmon" where
  "argint n = kbind curproc (\<lambda>p. kbind (fetchint (u32 (tf_esp (p_tf p) + 4 + 4 * n))) (\<lambda>r. kret (map_option s32 r)))"

definition argptr :: "nat \<Rightarrow> int \<Rightarrow> ('x kstate_scheme, nat option) kmon" where
  "argptr n sz = kbind curproc (\<lambda>p. kbind (argint n) (\<lambda>r. case r of None \<Rightarrow> kret None | Some i \<Rightarrow>
     if sz < 0 \<or> of_s32 i \<ge> p_sz p \<or> u32 (of_s32 i + of_s32 sz) > p_sz p then kret None else kret (Some (of_s32 i))))"

definition argstr :: "nat \<Rightarrow> ('x kstate_scheme, byte list option) kmon" where
  "argstr n = kbind (argint n) (\<lambda>r. case r of None \<Rightarrow> kret None | Some addr \<Rightarrow> fetchstr (of_s32 addr))"

section \<open>Process system calls\<close>

definition sys_fork :: "('x kstate_scheme, int) kmon" where "sys_fork = fork"

definition sys_exit :: "('x kstate_scheme, int) kmon" where "sys_exit = kseq exit (kret 0)"

definition sys_wait :: "('x kstate_scheme, int) kmon" where "sys_wait = wait"

definition sys_kill :: "('x kstate_scheme, int) kmon" where
  "sys_kill = kbind (argint 0) (\<lambda>r. case r of None \<Rightarrow> kret (- 1) | Some pid \<Rightarrow> kill pid)"

definition sys_getpid :: "('x kstate_scheme, int) kmon" where
  "sys_getpid = kbind curproc (\<lambda>p. kret (p_pid p))"

definition sys_sbrk :: "('x kstate_scheme, int) kmon" where
  "sys_sbrk = kbind (argint 0) (\<lambda>r. case r of None \<Rightarrow> kret (- 1) | Some n \<Rightarrow>
     kbind curproc (\<lambda>p. kbind (growproc n) (\<lambda>g. if g < 0 then kret (- 1) else kret (s32 (p_sz p)))))"

text \<open>
  The loop of \<^verbatim>\<open>sys_sleep\<close> from its test on: \<^verbatim>\<open>ticks - ticks0 < n\<close> compares unsigned words. When the
  process is woken the loop goes on with the same \<open>ticks0\<close>.
\<close>

definition sleep_done :: "nat \<Rightarrow> int \<Rightarrow> nat \<Rightarrow> bool" where
  "sleep_done ticks0 n now \<longleftrightarrow> \<not> u32 (now + (2 ^ 32 - ticks0)) < of_s32 n"

definition sys_sleep_loop :: "nat \<Rightarrow> int \<Rightarrow> ('x kstate_scheme, int) kmon" where
  "sys_sleep_loop ticks0 n = kbind (kget ticks) (\<lambda>now. if sleep_done ticks0 n now then kret 0
     else kbind curproc (\<lambda>p. if p_killed p then kret (- 1) else sleep ChanTicks))"

definition sys_sleep :: "('x kstate_scheme, int) kmon" where
  "sys_sleep = kbind (argint 0) (\<lambda>r. case r of None \<Rightarrow> kret (- 1) | Some n \<Rightarrow>
     kbind (kget ticks) (\<lambda>ticks0. sys_sleep_loop ticks0 n))"

definition sys_uptime :: "('x kstate_scheme, int) kmon" where
  "sys_uptime = kbind (kget ticks) (\<lambda>x. kret (s32 x))"

end
