(* ===== verification/Sysfile.thy ===== *)
theory Sysfile
  imports Syscall
begin

text \<open>
  The file-system calls of \<^verbatim>\<open>sysfile.c\<close>: arguments, descriptors, and the calls into the file table,
  the file system and the pipes. The bytes a call writes are read from user memory before the call
  into \<^verbatim>\<open>file.c\<close>, the bytes it reads are stored after it; the address range has been checked in
  both cases.
\<close>

section \<open>Descriptors\<close>

definition argfd :: "nat \<Rightarrow> ('x kstate_scheme, (nat \<times> nat) option) kmon" where
  "argfd n = kbind (argint n) (\<lambda>r. case r of None \<Rightarrow> kret None | Some fd \<Rightarrow>
     if fd < 0 \<or> fd \<ge> int NOFILE then kret None
     else kbind curproc (\<lambda>p. kret (map_option (\<lambda>f. (nat fd, f)) (p_ofile p (nat fd)))))"

definition fdalloc :: "nat \<Rightarrow> ('x kstate_scheme, nat option) kmon" where
  "fdalloc f = kbind myproc (\<lambda>c. kbind (kget (\<lambda>s. find (\<lambda>fd. p_ofile (procs s c) fd = None) [0..<NOFILE])) (\<lambda>r. case r of
       None \<Rightarrow> kret None
     | Some fd \<Rightarrow> kseq (kmod (setproc c (\<lambda>p. p\<lparr>p_ofile := (p_ofile p)(fd := Some f)\<rparr>))) (kret (Some fd))))"

definition clearfd :: "nat \<Rightarrow> ('x kstate_scheme, unit) kmon" where
  "clearfd fd = kbind myproc (\<lambda>c. kmod (setproc c (\<lambda>p. p\<lparr>p_ofile := (p_ofile p)(fd := None)\<rparr>)))"

definition sys_dup :: "('x kstate_scheme, int) kmon" where
  "sys_dup = kbind (argfd 0) (\<lambda>r. case r of None \<Rightarrow> kret (- 1) | Some (_, f) \<Rightarrow>
     kbind (fdalloc f) (\<lambda>r. case r of None \<Rightarrow> kret (- 1) | Some fd \<Rightarrow> kseq (filedup f) (kret (int fd))))"

definition sys_read :: "'x kstate_scheme devsw \<Rightarrow> ('x kstate_scheme, int) kmon" where
  "sys_read dv = kbind (argfd 0) (\<lambda>r. case r of None \<Rightarrow> kret (- 1) | Some (_, f) \<Rightarrow>
     kbind (argint 2) (\<lambda>r. case r of None \<Rightarrow> kret (- 1) | Some n \<Rightarrow>
     kbind (argptr 1 n) (\<lambda>r. case r of None \<Rightarrow> kret (- 1) | Some p \<Rightarrow>
       kbind (fileread dv f n) (\<lambda>(k, bs). kseq (ustore_bytes bs p) (kret k)))))"

definition sys_write :: "'x kstate_scheme devsw \<Rightarrow> ('x kstate_scheme, int) kmon" where
  "sys_write dv = kbind (argfd 0) (\<lambda>r. case r of None \<Rightarrow> kret (- 1) | Some (_, f) \<Rightarrow>
     kbind (argint 2) (\<lambda>r. case r of None \<Rightarrow> kret (- 1) | Some n \<Rightarrow>
     kbind (argptr 1 n) (\<lambda>r. case r of None \<Rightarrow> kret (- 1) | Some p \<Rightarrow>
       kbind (uload_bytes (nat n) p) (\<lambda>bs. filewrite dv f bs n))))"

definition sys_close :: "('x kstate_scheme, int) kmon" where
  "sys_close = kbind (argfd 0) (\<lambda>r. case r of None \<Rightarrow> kret (- 1) | Some (fd, f) \<Rightarrow>
     kseq (clearfd fd) (kseq (fileclose f) (kret 0)))"

text \<open>\<^verbatim>\<open>struct stat\<close> in user memory: 20 bytes, with two bytes of padding after \<^verbatim>\<open>type\<close> and \<^verbatim>\<open>nlink\<close>.\<close>

definition ustore_stat :: "stat \<Rightarrow> nat \<Rightarrow> ('x kstate_scheme, unit) kmon" where
  "ustore_stat st a = kseq (ustore_bytes (take 2 (word_bytes (of_s16 (st_type st)))) a)
     (kseq (ustore_bytes (word_bytes (st_dev st) @ word_bytes (st_ino st)) (a + 4))
     (kseq (ustore_bytes (take 2 (word_bytes (of_s16 (st_nlink st)))) (a + 12))
       (ustore_bytes (word_bytes (st_size st)) (a + 16))))"

definition sys_fstat :: "('x kstate_scheme, int) kmon" where
  "sys_fstat = kbind (argfd 0) (\<lambda>r. case r of None \<Rightarrow> kret (- 1) | Some (_, f) \<Rightarrow>
     kbind (argptr 1 20) (\<lambda>r. case r of None \<Rightarrow> kret (- 1) | Some a \<Rightarrow>
     kbind (filestat f) (\<lambda>r. case r of None \<Rightarrow> kret (- 1) | Some st \<Rightarrow> kseq (ustore_stat st a) (kret 0))))"

section \<open>Links\<close>

definition add_nlink :: "nat \<Rightarrow> int \<Rightarrow> ('x kstate_scheme, unit) kmon" where
  "add_nlink ip k = kmod (setinode ip (\<lambda>i. i\<lparr>i_nlink := s16 (of_s16 (i_nlink i + k))\<rparr>))"

definition end_fail :: "('x kstate_scheme, int) kmon" where
  "end_fail = kseq end_op (kret (- 1))"

text \<open>The exit \<^verbatim>\<open>bad\<close> of \<^verbatim>\<open>sys_link\<close>.\<close>

definition link_bad :: "nat \<Rightarrow> ('x kstate_scheme, int) kmon" where
  "link_bad ip = kseq (ilock (Some ip)) (kseq (add_nlink ip (- 1)) (kseq (iupdate ip) (kseq (iunlockput ip) end_fail)))"

definition link_new :: "'x kstate_scheme devsw \<Rightarrow> nat \<Rightarrow> byte list \<Rightarrow> ('x kstate_scheme, int) kmon" where
  "link_new dv ip new = kbind (nameiparent dv new (\<lambda>_. 0)) (\<lambda>r. case r of None \<Rightarrow> link_bad ip | Some (dp, name) \<Rightarrow>
     kseq (ilock (Some dp)) (kbind (kget (\<lambda>s. (icache s dp, icache s ip))) (\<lambda>(d, i).
     kbind (if i_dev d \<noteq> i_dev i then kret (- 1) else dirlink dv dp name (i_inum i)) (\<lambda>r.
       if r < 0 then kseq (iunlockput dp) (link_bad ip)
       else kseq (iunlockput dp) (kseq (iput ip) (kseq end_op (kret 0)))))))"

definition sys_link :: "'x kstate_scheme devsw \<Rightarrow> ('x kstate_scheme, int) kmon" where
  "sys_link dv = kbind (argstr 0) (\<lambda>r. case r of None \<Rightarrow> kret (- 1) | Some old \<Rightarrow>
     kbind (argstr 1) (\<lambda>r. case r of None \<Rightarrow> kret (- 1) | Some new \<Rightarrow>
     kseq begin_op (kbind (namei dv old) (\<lambda>r. case r of None \<Rightarrow> end_fail | Some ip \<Rightarrow>
       kseq (ilock (Some ip)) (kbind (kget (\<lambda>s. i_type (icache s ip))) (\<lambda>t.
       if t = T_DIR then kseq (iunlockput ip) end_fail
       else kseq (add_nlink ip 1) (kseq (iupdate ip) (kseq (iunlock (Some ip)) (link_new dv ip new)))))))))"

definition isdirempty :: "'x kstate_scheme devsw \<Rightarrow> nat \<Rightarrow> ('x kstate_scheme, bool) kmon" where
  "isdirempty dv dp = kbind (kget (\<lambda>s. i_size (icache s dp))) (\<lambda>n.
     kbind (kfirst (map (\<lambda>k. 16 * k) [2..<(n + 15) div 16]) (\<lambda>off. kbind (readi dv dp off 16) (\<lambda>(r, de).
       if r \<noteq> 16 then kpanic ''isdirempty: readi'' else if de_inum de \<noteq> 0 then kret (Some False) else kret None)))
     (\<lambda>r. kret (r = None)))"

definition dot :: arr where "dot = (\<lambda>i. if i = 0 then 46 else 0)"
definition dotdot :: arr where "dotdot = (\<lambda>i. if i < 2 then 46 else 0)"

definition unlink_bad :: "nat \<Rightarrow> ('x kstate_scheme, int) kmon" where
  "unlink_bad dp = kseq (iunlockput dp) end_fail"

text \<open>\<^verbatim>\<open>sys_unlink\<close> after the entry for \<open>ip\<close> has been found at \<open>off\<close> of the directory \<open>dp\<close>.\<close>

definition unlink_entry :: "'x kstate_scheme devsw \<Rightarrow> nat \<Rightarrow> nat \<Rightarrow> nat \<Rightarrow> ('x kstate_scheme, int) kmon" where
  "unlink_entry dv dp ip off = kseq (ilock (Some ip)) (kbind (kget (\<lambda>s. icache s ip)) (\<lambda>i.
     if i_nlink i < 1 then kpanic ''unlink: nlink < 1'' else
     kbind (if i_type i = T_DIR then isdirempty dv ip else kret True) (\<lambda>empty.
     if \<not> empty then kseq (iunlockput ip) (unlink_bad dp) else
     kbind (writei dv dp (replicate 16 0) off) (\<lambda>w. if w \<noteq> 16 then kpanic ''unlink: writei'' else
     kseq (if i_type i = T_DIR then kseq (add_nlink dp (- 1)) (iupdate dp) else kret ())
     (kseq (iunlockput dp) (kseq (add_nlink ip (- 1)) (kseq (iupdate ip) (kseq (iunlockput ip) (kseq end_op (kret 0))))))))))"

definition sys_unlink :: "'x kstate_scheme devsw \<Rightarrow> ('x kstate_scheme, int) kmon" where
  "sys_unlink dv = kbind (argstr 0) (\<lambda>r. case r of None \<Rightarrow> kret (- 1) | Some path \<Rightarrow>
     kseq begin_op (kbind (nameiparent dv path (\<lambda>_. 0)) (\<lambda>r. case r of None \<Rightarrow> end_fail | Some (dp, name) \<Rightarrow>
     kseq (ilock (Some dp))
     (if namecmp name dot = 0 \<or> namecmp name dotdot = 0 then unlink_bad dp else
      kbind (dirlookup dv dp name) (\<lambda>r. case r of None \<Rightarrow> unlink_bad dp | Some (ip, off) \<Rightarrow> unlink_entry dv dp ip off)))))"

section \<open>Creating and opening\<close>

text \<open>\<^verbatim>\<open>create\<close> after the name was not found in the directory \<open>dp\<close>.\<close>

definition create_new :: "'x kstate_scheme devsw \<Rightarrow> nat \<Rightarrow> arr \<Rightarrow> int \<Rightarrow> int \<Rightarrow> int \<Rightarrow> ('x kstate_scheme, nat option) kmon" where
  "create_new dv dp name type major minor = kbind (kget (\<lambda>s. i_dev (icache s dp))) (\<lambda>dev. kbind (ialloc dev type) (\<lambda>ip.
     kseq (ilock (Some ip))
     (kseq (kmod (setinode ip (\<lambda>i. i\<lparr>i_major := major, i_minor := minor, i_nlink := 1\<rparr>)))
     (kseq (iupdate ip)
     (kbind (kget (\<lambda>s. (i_inum (icache s ip), i_inum (icache s dp)))) (\<lambda>(ino, dino).
     kseq (if type = T_DIR then kseq (add_nlink dp 1) (kseq (iupdate dp)
             (kbind (dirlink dv ip dot ino) (\<lambda>r. if r < 0 then kpanic ''create dots'' else
              kbind (dirlink dv ip dotdot dino) (\<lambda>r. if r < 0 then kpanic ''create dots'' else kret ()))))
           else kret ())
     (kbind (dirlink dv dp name ino) (\<lambda>r. if r < 0 then kpanic ''create: dirlink'' else
       kseq (iunlockput dp) (kret (Some ip))))))))))"

definition create :: "'x kstate_scheme devsw \<Rightarrow> byte list \<Rightarrow> int \<Rightarrow> int \<Rightarrow> int \<Rightarrow> ('x kstate_scheme, nat option) kmon" where
  "create dv path type major minor = kbind (nameiparent dv path (\<lambda>_. 0)) (\<lambda>r. case r of None \<Rightarrow> kret None | Some (dp, name) \<Rightarrow>
     kseq (ilock (Some dp)) (kbind (dirlookup dv dp name) (\<lambda>r. case r of
       Some (ip, _) \<Rightarrow> kseq (iunlockput dp) (kseq (ilock (Some ip)) (kbind (kget (\<lambda>s. i_type (icache s ip))) (\<lambda>t.
         if type = T_FILE \<and> t = T_FILE then kret (Some ip) else kseq (iunlockput ip) (kret None))))
     | None \<Rightarrow> create_new dv dp name type major minor)))"

text \<open>\<^verbatim>\<open>sys_open\<close> up to the inode, locked, inside the transaction; and from there on.\<close>

definition open_inode :: "'x kstate_scheme devsw \<Rightarrow> byte list \<Rightarrow> nat \<Rightarrow> ('x kstate_scheme, nat option) kmon" where
  "open_inode dv path omode = (if and omode O_CREATE \<noteq> 0 then create dv path T_FILE 0 0
     else kbind (namei dv path) (\<lambda>r. case r of None \<Rightarrow> kret None | Some ip \<Rightarrow>
       kseq (ilock (Some ip)) (kbind (kget (\<lambda>s. i_type (icache s ip))) (\<lambda>t.
       if t = T_DIR \<and> omode \<noteq> O_RDONLY then kseq (iunlockput ip) (kret None) else kret (Some ip)))))"

definition open_file :: "nat \<Rightarrow> nat \<Rightarrow> ('x kstate_scheme, int) kmon" where
  "open_file ip omode = kbind filealloc (\<lambda>r. case r of None \<Rightarrow> kseq (iunlockput ip) end_fail | Some f \<Rightarrow>
     kbind (fdalloc f) (\<lambda>r. case r of None \<Rightarrow> kseq (fileclose f) (kseq (iunlockput ip) end_fail) | Some fd \<Rightarrow>
     kseq (iunlock (Some ip)) (kseq end_op
     (kseq (kmod (setfile f (\<lambda>x. x\<lparr>f_type := FD_INODE, f_ip := ip, f_off := 0,
          f_readable := (and omode O_WRONLY = 0), f_writable := (and omode O_WRONLY \<noteq> 0 \<or> and omode O_RDWR \<noteq> 0)\<rparr>)))
       (kret (int fd))))))"

definition sys_open :: "'x kstate_scheme devsw \<Rightarrow> ('x kstate_scheme, int) kmon" where
  "sys_open dv = kbind (argstr 0) (\<lambda>r. case r of None \<Rightarrow> kret (- 1) | Some path \<Rightarrow>
     kbind (argint 1) (\<lambda>r. case r of None \<Rightarrow> kret (- 1) | Some m \<Rightarrow>
     kseq begin_op (kbind (open_inode dv path (of_s32 m)) (\<lambda>r. case r of None \<Rightarrow> end_fail | Some ip \<Rightarrow> open_file ip (of_s32 m)))))"

definition made :: "nat option \<Rightarrow> ('x kstate_scheme, int) kmon" where
  "made r = (case r of None \<Rightarrow> end_fail | Some ip \<Rightarrow> kseq (iunlockput ip) (kseq end_op (kret 0)))"

definition sys_mkdir :: "'x kstate_scheme devsw \<Rightarrow> ('x kstate_scheme, int) kmon" where
  "sys_mkdir dv = kseq begin_op (kbind (argstr 0) (\<lambda>r. case r of None \<Rightarrow> end_fail | Some path \<Rightarrow>
     kbind (create dv path T_DIR 0 0) made))"

definition sys_mknod :: "'x kstate_scheme devsw \<Rightarrow> ('x kstate_scheme, int) kmon" where
  "sys_mknod dv = kseq begin_op (kbind (argstr 0) (\<lambda>r. case r of None \<Rightarrow> end_fail | Some path \<Rightarrow>
     kbind (argint 1) (\<lambda>r. case r of None \<Rightarrow> end_fail | Some major \<Rightarrow>
     kbind (argint 2) (\<lambda>r. case r of None \<Rightarrow> end_fail | Some minor \<Rightarrow>
     kbind (create dv path T_DEV (s16 (of_s32 major)) (s16 (of_s32 minor))) made))))"

definition sys_chdir :: "'x kstate_scheme devsw \<Rightarrow> ('x kstate_scheme, int) kmon" where
  "sys_chdir dv = kbind myproc (\<lambda>c. kseq begin_op (kbind (argstr 0) (\<lambda>r. case r of None \<Rightarrow> end_fail | Some path \<Rightarrow>
     kbind (namei dv path) (\<lambda>r. case r of None \<Rightarrow> end_fail | Some ip \<Rightarrow>
     kseq (ilock (Some ip)) (kbind (kget (\<lambda>s. i_type (icache s ip))) (\<lambda>t.
     if t \<noteq> T_DIR then kseq (iunlockput ip) end_fail else
     kseq (iunlock (Some ip)) (kbind (kget (\<lambda>s. p_cwd (procs s c))) (\<lambda>d. case d of None \<Rightarrow> kpanic ''null inode'' | Some old \<Rightarrow>
     kseq (iput old) (kseq end_op
     (kseq (kmod (\<lambda>s. (setproc c (\<lambda>p. p\<lparr>p_cwd := Some ip\<rparr>) s)\<lparr>cwd := ip\<rparr>)) (kret 0)))))))))))"

section \<open>Pipes\<close>

definition pipe_fail :: "nat option \<Rightarrow> nat \<Rightarrow> nat \<Rightarrow> ('x kstate_scheme, int) kmon" where
  "pipe_fail fd0 rf wfile = kseq (case fd0 of Some fd \<Rightarrow> clearfd fd | None \<Rightarrow> kret ())
     (kseq (fileclose rf) (kseq (fileclose wfile) (kret (- 1))))"

definition sys_pipe :: "('x kstate_scheme, int) kmon" where
  "sys_pipe = kbind (argptr 0 8) (\<lambda>r. case r of None \<Rightarrow> kret (- 1) | Some a \<Rightarrow>
     kbind pipealloc (\<lambda>r. case r of None \<Rightarrow> kret (- 1) | Some (rf, wfile) \<Rightarrow>
     kbind (fdalloc rf) (\<lambda>r. case r of None \<Rightarrow> pipe_fail None rf wfile | Some fd0 \<Rightarrow>
     kbind (fdalloc wfile) (\<lambda>r. case r of None \<Rightarrow> pipe_fail (Some fd0) rf wfile | Some fd1 \<Rightarrow>
       kseq (ustore_bytes (word_bytes fd0 @ word_bytes fd1) a) (kret 0)))))"

end
