(* ===== verification/Exec.thy ===== *)
theory Exec
  imports Syscall
begin

text \<open>
  Program loading (\<^verbatim>\<open>exec.c\<close>, \<^verbatim>\<open>loaduvm\<close> in \<^verbatim>\<open>vm.c\<close>, the layout of \<^verbatim>\<open>elf.h\<close>). Argument strings are lists of
  bytes without their NUL; addresses and sizes are 32-bit words with their wrap-around.
\<close>

section \<open>ELF headers\<close>

definition ELF_MAGIC :: nat where "ELF_MAGIC = 0x464C457F"
definition ELF_PROG_LOAD :: nat where "ELF_PROG_LOAD = 1"
definition MAXARG :: nat where "MAXARG = 32"

record elfhdr =
  e_magic :: nat
  e_entry :: nat
  e_phoff :: nat
  e_phnum :: nat

record proghdr =
  ph_type :: nat
  ph_off :: nat
  ph_vaddr :: nat
  ph_filesz :: nat
  ph_memsz :: nat

definition decode_elfhdr :: "byte list \<Rightarrow> elfhdr" where
  "decode_elfhdr bs = (let f = (\<lambda>i. bs ! i) in
     \<lparr>e_magic = le32 f 0, e_entry = le32 f 24, e_phoff = le32 f 28, e_phnum = le16 f 44\<rparr>)"

definition decode_proghdr :: "byte list \<Rightarrow> proghdr" where
  "decode_proghdr bs = (let f = (\<lambda>i. bs ! i) in
     \<lparr>ph_type = le32 f 0, ph_off = le32 f 4, ph_vaddr = le32 f 8, ph_filesz = le32 f 16, ph_memsz = le32 f 20\<rparr>)"

section \<open>Loading segments\<close>

definition store_bytes :: "nat \<Rightarrow> byte list \<Rightarrow> (nat \<Rightarrow> byte) \<Rightarrow> nat \<Rightarrow> byte" where
  "store_bytes p bs m = (\<lambda>x. if p \<le> x \<and> x < p + length bs then bs ! (x - p) else m x)"

function loaduvm_loop :: "'x kstate_scheme devsw \<Rightarrow> nat \<Rightarrow> nat \<Rightarrow> nat \<Rightarrow> nat \<Rightarrow> nat \<Rightarrow> nat \<Rightarrow> ('x kstate_scheme, int) kmon" where
  "loaduvm_loop dv pgdir addr ip off i sz = (if \<not> i < sz then kret 0 else
     kbind (on_kmem (walkpgdir pgdir (addr + i) False)) (\<lambda>r. case r of None \<Rightarrow> kpanic ''loaduvm: address should exist'' | Some pte \<Rightarrow>
     kbind (kget (\<lambda>s. PTE_ADDR (le32 (mem (km s)) pte))) (\<lambda>pa.
     let n = min (sz - i) PGSIZE in
     kbind (readi dv ip (u32 (off + i)) n) (\<lambda>(r, bs). kseq (on_kmem (setmem (store_bytes (P2V pa) bs)))
       (if r \<noteq> int n then kret (- 1) else loaduvm_loop dv pgdir addr ip off (i + PGSIZE) sz)))))"
  by pat_completeness auto
termination by (relation "measure (\<lambda>(dv, pgdir, addr, ip, off, i, sz). sz - i)") (auto simp: PGSIZE_num)

declare loaduvm_loop.simps [simp del]

definition loaduvm :: "'x kstate_scheme devsw \<Rightarrow> nat \<Rightarrow> nat \<Rightarrow> nat \<Rightarrow> nat \<Rightarrow> nat \<Rightarrow> ('x kstate_scheme, int) kmon" where
  "loaduvm dv pgdir addr ip off sz = (if addr mod PGSIZE \<noteq> 0 then kpanic ''loaduvm: addr must be page aligned''
     else loaduvm_loop dv pgdir addr ip off 0 sz)"

text \<open>The loop over the program headers from offset \<open>off\<close>, \<open>k\<close> of them left; \<open>None\<close> is the exit \<^verbatim>\<open>bad\<close>.\<close>

primrec load_segments :: "'x kstate_scheme devsw \<Rightarrow> nat \<Rightarrow> nat \<Rightarrow> nat \<Rightarrow> nat \<Rightarrow> nat \<Rightarrow> ('x kstate_scheme, nat option) kmon" where
  "load_segments dv pgdir ip 0 off sz = kret (Some sz)"
| "load_segments dv pgdir ip (Suc k) off sz = kbind (readi dv ip off 32) (\<lambda>(r, bs). if r \<noteq> 32 then kret None else
     (let ph = decode_proghdr bs; end = u32 (ph_vaddr ph + ph_memsz ph) in
      if ph_type ph \<noteq> ELF_PROG_LOAD then load_segments dv pgdir ip k (u32 (off + 32)) sz
      else if ph_memsz ph < ph_filesz ph then kret None
      else if end < ph_vaddr ph then kret None
      else kbind (on_kmem (allocuvm pgdir sz end)) (\<lambda>sz'. if sz' = 0 then kret None
        else if ph_vaddr ph mod PGSIZE \<noteq> 0 then kret None
        else kbind (loaduvm dv pgdir (ph_vaddr ph) ip (ph_off ph) (ph_filesz ph)) (\<lambda>l. if l < 0 then kret None
          else load_segments dv pgdir ip k (u32 (off + 32)) sz'))))"

section \<open>The argument stack\<close>

text \<open>One argument: the stack pointer below the string and its NUL, rounded down to a word.\<close>

definition push_sp :: "nat \<Rightarrow> byte list \<Rightarrow> nat" where
  "push_sp sp arg = u32 (sp + 2 ^ 32 - (length arg + 1)) div 4 * 4"

text \<open>The loop over \<^verbatim>\<open>argv\<close>: \<open>argc\<close> arguments are done, \<open>ps\<close> are their addresses.\<close>

primrec push_args :: "nat \<Rightarrow> byte list list \<Rightarrow> nat \<Rightarrow> nat \<Rightarrow> nat list \<Rightarrow> ('x kstate_scheme, (nat \<times> nat list) option) kmon" where
  "push_args pgdir [] argc sp ps = kret (Some (sp, ps))"
| "push_args pgdir (a # as) argc sp ps = (if argc \<ge> MAXARG then kret None else
     kbind (on_kmem (copyout pgdir (push_sp sp a) (a @ [0]))) (\<lambda>r. if r < 0 then kret None
       else push_args pgdir as (argc + 1) (push_sp sp a) (ps @ [push_sp sp a])))"

definition ustack :: "nat \<Rightarrow> nat list \<Rightarrow> nat list" where
  "ustack sp ps = [0xffffffff, length ps, u32 (sp + 2 ^ 32 - (length ps + 1) * 4)] @ ps @ [0]"

section \<open>exec\<close>

definition exec_bad :: "nat \<Rightarrow> nat option \<Rightarrow> ('x kstate_scheme, int) kmon" where
  "exec_bad pgdir ipo = kseq (if pgdir \<noteq> 0 then on_kmem (freevm pgdir) else kret ())
     (kseq (case ipo of Some ip \<Rightarrow> kseq (iunlockput ip) end_op | None \<Rightarrow> kret ()) (kret (- 1)))"

definition last_elem :: "byte list \<Rightarrow> byte list" where
  "last_elem path = rev (takeWhile (\<lambda>c. c \<noteq> slash) (rev path))"

definition exec_commit :: "nat \<Rightarrow> nat \<Rightarrow> nat \<Rightarrow> nat \<Rightarrow> nat \<Rightarrow> byte list \<Rightarrow> ('x kstate_scheme, int) kmon" where
  "exec_commit c pgdir sz sp entry path =
     kseq (kmod (setproc c (\<lambda>p. p\<lparr>p_name := safestrcpy (p_name p) (\<lambda>i. (last_elem path @ [0]) ! i) 16\<rparr>)))
     (kbind (kget (\<lambda>s. p_pgdir (procs s c))) (\<lambda>oldpgdir.
     kseq (kmod (setproc c (\<lambda>p. p\<lparr>p_pgdir := pgdir, p_sz := sz, p_tf := (p_tf p)\<lparr>tf_eip := entry, tf_esp := sp\<rparr>\<rparr>)))
     (kseq (switchuvm c) (kseq (on_kmem (freevm oldpgdir)) (kret 0)))))"

text \<open>From the stack pages on: \<open>sz0\<close> is the size after the segments.\<close>

definition exec_stack :: "nat \<Rightarrow> nat \<Rightarrow> nat \<Rightarrow> nat \<Rightarrow> byte list \<Rightarrow> byte list list \<Rightarrow> ('x kstate_scheme, int) kmon" where
  "exec_stack c pgdir sz0 entry path argv = (let sz1 = PGROUNDUP sz0 in
     kbind (on_kmem (allocuvm pgdir sz1 (u32 (sz1 + 2 * PGSIZE)))) (\<lambda>sz. if sz = 0 then exec_bad pgdir None else
     kseq (on_kmem (clearpteu pgdir (sz - 2 * PGSIZE)))
     (kbind (push_args pgdir argv 0 sz []) (\<lambda>r. case r of None \<Rightarrow> exec_bad pgdir None | Some (sp, ps) \<Rightarrow>
      let sp' = u32 (sp + 2 ^ 32 - (3 + length ps + 1) * 4) in
      kbind (on_kmem (copyout pgdir sp' (concat (map word_bytes (ustack sp ps))))) (\<lambda>r.
      if r < 0 then exec_bad pgdir None else exec_commit c pgdir sz sp' entry path)))))"

definition exec :: "'x kstate_scheme devsw \<Rightarrow> byte list \<Rightarrow> byte list list \<Rightarrow> ('x kstate_scheme, int) kmon" where
  "exec dv path argv = kbind myproc (\<lambda>c. kseq begin_op (kbind (namei dv path) (\<lambda>r. case r of
       None \<Rightarrow> kseq end_op (kret (- 1))
     | Some ip \<Rightarrow> kseq (ilock (Some ip)) (kbind (readi dv ip 0 52) (\<lambda>(r, bs). let elf = decode_elfhdr bs in
         if r \<noteq> 52 then exec_bad 0 (Some ip) else if e_magic elf \<noteq> ELF_MAGIC then exec_bad 0 (Some ip) else
         kbind (kget kdata) (\<lambda>d. kbind (on_kmem (setupkvm d)) (\<lambda>pgdir. if pgdir = 0 then exec_bad 0 (Some ip) else
         kbind (load_segments dv pgdir ip (e_phnum elf) (e_phoff elf) 0) (\<lambda>r. case r of None \<Rightarrow> exec_bad pgdir (Some ip)
         | Some sz \<Rightarrow> kseq (iunlockput ip) (kseq end_op (exec_stack c pgdir sz (e_entry elf) path argv))))))))))"

section \<open>The system call\<close>

text \<open>The loop of \<^verbatim>\<open>sys_exec\<close> over the user's \<^verbatim>\<open>argv\<close>, \<open>k\<close> slots of the kernel's array left.\<close>

primrec exec_args :: "nat \<Rightarrow> nat \<Rightarrow> ('x kstate_scheme, byte list list option) kmon" where
  "exec_args 0 u = kret None"
| "exec_args (Suc k) u = kbind (fetchint u) (\<lambda>r. case r of None \<Rightarrow> kret None | Some uarg \<Rightarrow>
     if uarg = 0 then kret (Some []) else
     kbind (fetchstr uarg) (\<lambda>r. case r of None \<Rightarrow> kret None | Some a \<Rightarrow>
     kbind (exec_args k (u32 (u + 4))) (\<lambda>r. kret (map_option (\<lambda>as. a # as) r))))"

definition sys_exec :: "'x kstate_scheme devsw \<Rightarrow> ('x kstate_scheme, int) kmon" where
  "sys_exec dv = kbind (argstr 0) (\<lambda>r. case r of None \<Rightarrow> kret (- 1) | Some path \<Rightarrow>
     kbind (argint 1) (\<lambda>r. case r of None \<Rightarrow> kret (- 1) | Some uargv \<Rightarrow>
     kbind (exec_args MAXARG (of_s32 uargv)) (\<lambda>r. case r of None \<Rightarrow> kret (- 1) | Some argv \<Rightarrow> exec dv path argv)))"

end
