(* ===== verification/Trap.thy ===== *)
theory Trap
  imports Sysfile Exec
begin

text \<open>
  The system-call dispatcher (\<^verbatim>\<open>syscall\<close> in \<^verbatim>\<open>syscall.c\<close>) and the trap handler (\<^verbatim>\<open>trap.c\<close>). The handlers of
  the disk, keyboard and serial interrupts are arguments of \<open>trap\<close>; \<open>cpu0\<close> says whether this is
  processor 0, which keeps the time.
\<close>

section \<open>Dispatch\<close>

definition syscalls :: "'x kstate_scheme devsw \<Rightarrow> (int \<times> ('x kstate_scheme, int) kmon) list" where
  "syscalls dv = [(1, sys_fork), (2, sys_exit), (3, sys_wait), (4, sys_pipe), (5, sys_read dv), (6, sys_kill), (7, sys_exec dv),
     (8, sys_fstat), (9, sys_chdir dv), (10, sys_dup), (11, sys_getpid), (12, sys_sbrk), (13, sys_sleep), (14, sys_uptime),
     (15, sys_open dv), (16, sys_write dv), (17, sys_mknod dv), (18, sys_unlink dv), (19, sys_link dv), (20, sys_mkdir dv), (21, sys_close)]"

definition set_eax :: "nat \<Rightarrow> int \<Rightarrow> ('x kstate_scheme, unit) kmon" where
  "set_eax c r = kmod (setproc c (\<lambda>p. p\<lparr>p_tf := (p_tf p)\<lparr>tf_eax := of_s32 r\<rparr>\<rparr>))"

definition syscall :: "'x kstate_scheme devsw \<Rightarrow> ('x kstate_scheme, unit) kmon" where
  "syscall dv = kbind myproc (\<lambda>c. kbind (kget (\<lambda>s. s32 (tf_eax (p_tf (procs s c))))) (\<lambda>num.
     case map_of (syscalls dv) num of Some h \<Rightarrow> kbind h (set_eax c) | None \<Rightarrow> set_eax c (- 1)))"

section \<open>Traps\<close>

definition T_SYSCALL :: nat where "T_SYSCALL = 64"
definition T_IRQ0 :: nat where "T_IRQ0 = 32"
definition IRQ_TIMER :: nat where "IRQ_TIMER = 0"
definition IRQ_KBD :: nat where "IRQ_KBD = 1"
definition IRQ_COM1 :: nat where "IRQ_COM1 = 4"
definition IRQ_IDE :: nat where "IRQ_IDE = 14"
definition IRQ_SPURIOUS :: nat where "IRQ_SPURIOUS = 31"

lemmas trap_numbers = T_SYSCALL_def T_IRQ0_def IRQ_TIMER_def IRQ_KBD_def IRQ_COM1_def IRQ_IDE_def IRQ_SPURIOUS_def

definition timer_tick :: "bool \<Rightarrow> ('x kstate_scheme, unit) kmon" where
  "timer_tick cpu0 = (if cpu0 then kseq (kmod (\<lambda>s. s\<lparr>ticks := u32_inc (ticks s)\<rparr>)) (wakeup ChanTicks) else kret ())"

definition user_mode :: "trapframe \<Rightarrow> bool" where
  "user_mode tf \<longleftrightarrow> and (tf_cs tf) 3 = DPL_USER"

text \<open>A trap no case names: a bug of the kernel, or of the process, which is marked for killing.\<close>

definition bad_trap :: "trapframe \<Rightarrow> ('x kstate_scheme, unit) kmon" where
  "bad_trap tf = kbind (kget cur) (\<lambda>p. case p of None \<Rightarrow> kpanic ''trap'' | Some c \<Rightarrow>
     if and (tf_cs tf) 3 = 0 then kpanic ''trap'' else kmod (setproc c (\<lambda>p. p\<lparr>p_killed := True\<rparr>)))"

record 's irq_handlers =
  h_ide :: "('s, unit) kmon"
  h_kbd :: "('s, unit) kmon"
  h_uart :: "('s, unit) kmon"

definition dispatch :: "'x kstate_scheme irq_handlers \<Rightarrow> bool \<Rightarrow> trapframe \<Rightarrow> ('x kstate_scheme, unit) kmon" where
  "dispatch h cpu0 tf = (let n = tf_trapno tf in
     if n = T_IRQ0 + IRQ_TIMER then timer_tick cpu0
     else if n = T_IRQ0 + IRQ_IDE then h_ide h
     else if n = T_IRQ0 + IRQ_IDE + 1 then kret ()
     else if n = T_IRQ0 + IRQ_KBD then h_kbd h
     else if n = T_IRQ0 + IRQ_COM1 then h_uart h
     else if n = T_IRQ0 + 7 \<or> n = T_IRQ0 + IRQ_SPURIOUS then kret ()
     else bad_trap tf)"

definition exit_if :: "(proc \<Rightarrow> bool) \<Rightarrow> ('x kstate_scheme, unit) kmon" where
  "exit_if b = kbind (kget (\<lambda>s. case cur s of Some c \<Rightarrow> b (procs s c) | None \<Rightarrow> False)) (\<lambda>k. if k then exit else kret ())"

text \<open>The end of \<^verbatim>\<open>trap\<close>, also what a process does when it comes back from \<^verbatim>\<open>yield\<close> there.\<close>

definition trap_last :: "trapframe \<Rightarrow> ('x kstate_scheme, unit) kmon" where
  "trap_last tf = exit_if (\<lambda>p. p_killed p \<and> user_mode tf)"

definition trap_yield :: "trapframe \<Rightarrow> ('x kstate_scheme, unit) kmon" where
  "trap_yield tf = kbind (kget (\<lambda>s. case cur s of Some c \<Rightarrow> p_state (procs s c) = RUNNING | None \<Rightarrow> False))
     (\<lambda>b. if b \<and> tf_trapno tf = T_IRQ0 + IRQ_TIMER then yield else kret ())"

definition trap :: "'x kstate_scheme devsw \<Rightarrow> 'x kstate_scheme irq_handlers \<Rightarrow> bool \<Rightarrow> trapframe \<Rightarrow> ('x kstate_scheme, unit) kmon" where
  "trap dv h cpu0 tf = (if tf_trapno tf = T_SYSCALL then
     kbind myproc (\<lambda>c. kseq (exit_if p_killed) (kseq (kmod (setproc c (\<lambda>p. p\<lparr>p_tf := tf\<rparr>)))
       (kseq (syscall dv) (kbind myproc (\<lambda>_. exit_if p_killed)))))
   else kseq (dispatch h cpu0 tf) (kseq (trap_last tf) (kseq (trap_yield tf) (trap_last tf))))"

end
