(* ===== verification/Keeps.thy ===== *)
theory Keeps
  imports File
begin

text \<open>
  Partial invariants of kernel functions: \<open>keeps I m\<close> says that \<open>m\<close>, started where \<open>I\<close> holds,
  leaves \<open>I\<close> true where it returns and where it goes to sleep. The rules follow the structure of
  the definitions, so that the lemmas below are one line per function; they show that the file
  system does not touch what the upper layers add to its state.
\<close>

named_theorems keeps_rules \<open>introduction rules for keeps, and the functions that keep a frame\<close>

definition keeps :: "('s \<Rightarrow> bool) \<Rightarrow> ('s, 'a) kmon \<Rightarrow> bool" where
  "keeps I m \<longleftrightarrow> (\<forall>s. I s \<longrightarrow> (case m s of Done x t \<Rightarrow> I t | Panic _ \<Rightarrow> True | Sleep c t \<Rightarrow> I t))"

lemma keepsI: "(\<And>s. I s \<Longrightarrow> case m s of Done x t \<Rightarrow> I t | Panic _ \<Rightarrow> True | Sleep c t \<Rightarrow> I t) \<Longrightarrow> keeps I m"
  by (simp add: keeps_def)

lemma keepsE: "keeps I m \<Longrightarrow> I s \<Longrightarrow> case m s of Done x t \<Rightarrow> I t | Panic _ \<Rightarrow> True | Sleep c t \<Rightarrow> I t"
  by (simp add: keeps_def)

lemma keeps_kret [keeps_rules]: "keeps I (kret x)" and keeps_kget [keeps_rules]: "keeps I (kget f)"
  and keeps_kpanic [keeps_rules]: "keeps I (kpanic e)" and keeps_ksleep [keeps_rules]: "keeps I (ksleep c)"
  by (simp_all add: keeps_def kernel_defs)

lemma keeps_kmod: "(\<And>s. I s \<Longrightarrow> I (f s)) \<Longrightarrow> keeps I (kmod f)"
  by (simp add: keeps_def kernel_defs)

lemma keeps_kbind [keeps_rules]: "keeps I m \<Longrightarrow> (\<And>x. keeps I (k x)) \<Longrightarrow> keeps I (kbind m k)"
proof (rule keepsI)
  fix s assume m: "keeps I m" and k: "\<And>x. keeps I (k x)" and s: "I s"
  show "case kbind m k s of Done x t \<Rightarrow> I t | Panic _ \<Rightarrow> True | Sleep c t \<Rightarrow> I t"
    using keepsE [OF m s] keepsE [OF k] by (cases "m s") (simp_all add: kbind_def)
qed

lemma keeps_kseq [keeps_rules]: "keeps I m \<Longrightarrow> keeps I n \<Longrightarrow> keeps I (kseq m n)"
  unfolding kseq_def by (rule keeps_kbind)

lemma keeps_if [keeps_rules]: "(c \<Longrightarrow> keeps I m) \<Longrightarrow> (\<not> c \<Longrightarrow> keeps I n) \<Longrightarrow> keeps I (if c then m else n)"
  by simp

lemma keeps_option [keeps_rules]: "keeps I m \<Longrightarrow> (\<And>x. keeps I (k x)) \<Longrightarrow> keeps I (case r of None \<Rightarrow> m | Some x \<Rightarrow> k x)"
  by (cases r) simp_all

lemma keeps_prod [keeps_rules]: "(\<And>x y. keeps I (k x y)) \<Longrightarrow> keeps I (case r of (x, y) \<Rightarrow> k x y)"
  by (cases r) simp

lemma keeps_ftype [keeps_rules]: "keeps I a \<Longrightarrow> keeps I b \<Longrightarrow> keeps I c \<Longrightarrow> keeps I (case r of FD_NONE \<Rightarrow> a | FD_PIPE \<Rightarrow> b | FD_INODE \<Rightarrow> c)"
  by (cases r) simp_all

lemma keeps_let [keeps_rules]: "(\<And>x. keeps I (k x)) \<Longrightarrow> keeps I (let x = v in k x)"
  by simp

lemma keeps_kfor [keeps_rules]: "(\<And>i. keeps I (body i)) \<Longrightarrow> keeps I (kfor xs body)"
  by (induction xs) (auto intro!: keeps_rules)

lemma keeps_kfirst [keeps_rules]: "(\<And>i. keeps I (body i)) \<Longrightarrow> keeps I (kfirst xs body)"
  by (induction xs) (auto intro!: keeps_rules)

section \<open>Functions of the lower layers\<close>

text \<open>\<open>lower m\<close>: the function leaves the part of the state above the file system alone.\<close>

definition lower :: "('x fstate_scheme, 'a) kmon \<Rightarrow> bool" where
  "lower m \<longleftrightarrow> (\<forall>v. keeps (\<lambda>s. fstate.more s = v) m)"

lemma lowerI: "(\<And>s. case m s of Done x t \<Rightarrow> fstate.more t = fstate.more s | Panic _ \<Rightarrow> True | Sleep c t \<Rightarrow> fstate.more t = fstate.more s) \<Longrightarrow> lower m"
  by (auto simp: lower_def keeps_def)

lemma lower_kmod [keeps_rules]: "(\<And>s. fstate.more (f s) = fstate.more s) \<Longrightarrow> lower (kmod f)"
  by (simp add: lower_def keeps_kmod)

lemma lower_basic [keeps_rules]: "lower (kret x)" "lower (kget f)" "lower (kpanic e)" "lower (ksleep c)"
  by (simp_all add: lower_def keeps_rules)

lemma lower_kbind [keeps_rules]: "lower m \<Longrightarrow> (\<And>x. lower (k x)) \<Longrightarrow> lower (kbind m k)"
  by (simp add: lower_def keeps_kbind)

lemma lower_kseq [keeps_rules]: "lower m \<Longrightarrow> lower n \<Longrightarrow> lower (kseq m n)"
  by (simp add: lower_def keeps_kseq)

lemma lower_if [keeps_rules]: "(c \<Longrightarrow> lower m) \<Longrightarrow> (\<not> c \<Longrightarrow> lower n) \<Longrightarrow> lower (if c then m else n)"
  by simp

lemma lower_option [keeps_rules]: "lower m \<Longrightarrow> (\<And>x. lower (k x)) \<Longrightarrow> lower (case r of None \<Rightarrow> m | Some x \<Rightarrow> k x)"
  by (cases r) simp_all

lemma lower_let [keeps_rules]: "(\<And>x. lower (k x)) \<Longrightarrow> lower (let x = v in k x)"
  by simp

lemma lower_kfor [keeps_rules]: "(\<And>i. lower (body i)) \<Longrightarrow> lower (kfor xs body)"
  by (simp add: lower_def keeps_kfor)

lemma lower_kfirst [keeps_rules]: "(\<And>i. lower (body i)) \<Longrightarrow> lower (kfirst xs body)"
  by (simp add: lower_def keeps_kfirst)

lemma lower_state_if: "(\<And>s. fstate.more (if c s then f s else s) = fstate.more s) \<Longrightarrow> lower (kmod (\<lambda>s. if c s then f s else s))"
  by (rule lower_kmod)

lemma more_setbuf [simp]: "fstate.more (setbuf i f s) = fstate.more s" and more_setinode [simp]: "fstate.more (setinode j g s) = fstate.more s"
  by (simp_all add: setbuf_def setinode_def)

lemma lower_block_lock [keeps_rules]: "lower (block_lock i)"
  by (rule lowerI) (auto simp: block_lock_def split: option.splits)

lemma lower_bget [keeps_rules]: "lower (bget d b)"
  by (rule lowerI) (auto simp: bget_def block_lock_def split: option.splits)

lemma lower_iderw [keeps_rules]: "lower (iderw i)"
  by (rule lowerI) (auto simp: iderw_def Let_def)

lemma lower_bread [keeps_rules]: "lower (bread d b)"
  unfolding bread_def by (intro keeps_rules)

lemma lower_brelse [keeps_rules]: "lower (brelse i)"
  unfolding brelse_def by (intro keeps_rules) auto

lemma lower_bwrite [keeps_rules]: "lower (bwrite i)"
  unfolding bwrite_def by (intro keeps_rules) auto

lemma lower_bmodify [keeps_rules]: "lower (bmodify i f)" and lower_bdata [keeps_rules]: "lower (bdata i)"
  unfolding bmodify_def bdata_def by (intro keeps_rules; simp)+

lemma lower_log_write [keeps_rules]: "lower (log_write i)"
  by (rule lowerI) (auto simp: log_write_def bpin_def kmod_def log_record_def Let_def)

lemma lower_begin_op [keeps_rules]: "lower begin_op"
  by (rule lowerI) (auto simp: begin_op_def)

lemma lower_commit [keeps_rules]: "lower commit"
  unfolding commit_def write_log_def write_head_def install_trans_def by (intro keeps_rules) auto

lemma lower_end_op [keeps_rules]: "lower end_op"
  unfolding end_op_def by (intro keeps_rules) auto

lemma lower_bzero [keeps_rules]: "lower (bzero d b)"
  unfolding bzero_def by (intro keeps_rules)

lemma lower_bfree [keeps_rules]: "lower (bfree d b)"
  unfolding bfree_def by (intro keeps_rules)

lemma lower_iupdate [keeps_rules]: "lower (iupdate ip)"
  unfolding iupdate_def by (intro keeps_rules)

lemma lower_itrunc [keeps_rules]: "lower (itrunc ip)"
  unfolding itrunc_def by (intro keeps_rules) auto

lemma lower_ilock_sleep [keeps_rules]: "lower (ilock_sleep ip)"
  by (rule lowerI) (auto simp: ilock_sleep_def split: option.splits)

lemma lower_iput [keeps_rules]: "lower (iput ip)"
  unfolding iput_def by (intro keeps_rules) auto

lemma lower_idup [keeps_rules]: "lower (idup ip)"
  unfolding idup_def by (intro keeps_rules) auto

text \<open>An invariant of the upper state is kept by a lower function.\<close>

lemma keeps_lower: "lower m \<Longrightarrow> (\<And>s t. fstate.more s = fstate.more t \<Longrightarrow> I s \<Longrightarrow> I t) \<Longrightarrow> keeps I m"
proof (rule keepsI)
  fix s assume m: "lower m" and I: "\<And>s t. fstate.more s = fstate.more t \<Longrightarrow> I s \<Longrightarrow> I t" and s: "I s"
  have "keeps (\<lambda>t. fstate.more t = fstate.more s) m" using m by (simp add: lower_def)
  then have "case m s of Done x t \<Rightarrow> fstate.more t = fstate.more s | Panic _ \<Rightarrow> True | Sleep c t \<Rightarrow> fstate.more t = fstate.more s"
    by (rule keepsE) simp
  then show "case m s of Done x t \<Rightarrow> I t | Panic _ \<Rightarrow> True | Sleep c t \<Rightarrow> I t"
    using I [OF _ s] by (cases "m s") simp_all
qed

end
