(* ===== verification/FileProps.thy ===== *)
theory FileProps
  imports File FsProps VmProps
begin

text \<open>
  Reference counting of open files, and the life cycle of a pipe: it takes one page and two file
  table slots, and closing both ends gives all of them back.
\<close>

section \<open>Slots\<close>

definition free_slots :: "'x kstate_scheme \<Rightarrow> nat set" where
  "free_slots s = {i. i < NFILE \<and> f_ref (ftab s i) = 0}"

lemma finite_free_slots [simp]: "finite (free_slots s)"
  by (simp add: free_slots_def)

lemma filealloc_ok:
  "wp filealloc (\<lambda>r t. case r of
     None \<Rightarrow> free_slots s = {} \<and> t = s
   | Some i \<Rightarrow> i \<in> free_slots s \<and> (\<forall>j\<in>free_slots s. i \<le> j) \<and> t = setfile i (\<lambda>f. f\<lparr>f_ref := 1\<rparr>) s) s"
proof (cases "find (\<lambda>i. f_ref (ftab s i) = 0) [0..<NFILE]")
  case None
  then have "\<forall>i<NFILE. f_ref (ftab s i) \<noteq> 0" by (auto simp: find_None_iff)
  then show ?thesis by (simp add: filealloc_def None free_slots_def)
next
  case (Some i)
  then obtain k where k: "k < NFILE" "f_ref (ftab s ([0..<NFILE] ! k)) = 0" "i = [0..<NFILE] ! k"
    "\<And>j. j < k \<Longrightarrow> f_ref (ftab s ([0..<NFILE] ! j)) \<noteq> 0" by (auto simp: find_Some_iff)
  then have i: "i = k" "i < NFILE" "f_ref (ftab s i) = 0" by simp_all
  have "\<not> j < i" if "j \<in> free_slots s" for j using that k(4) [of j] i by (auto simp: free_slots_def)
  then show ?thesis using i by (auto simp: filealloc_def Some free_slots_def not_less)
qed

lemma free_slots_setfile: "f_ref (f (ftab s i)) \<noteq> 0 \<Longrightarrow> free_slots (setfile i f s) = free_slots s - {i}"
  "f_ref (f (ftab s i)) = 0 \<Longrightarrow> i < NFILE \<Longrightarrow> free_slots (setfile i f s) = insert i (free_slots s)"
  by (auto simp: free_slots_def split: if_splits)

text \<open>Closing one reference of several only counts down; closing the last one releases what the file refers to.\<close>

lemma fileclose_shared: "1 < f_ref (ftab s i) \<Longrightarrow> wp (fileclose i) (\<lambda>_ t. t = setfile i (\<lambda>f. f\<lparr>f_ref := f_ref f - 1\<rparr>) s) s"
  by (simp add: fileclose_def)

lemma fileclose_pipe:
  assumes "f_ref (ftab s i) = 1" "f_type (ftab s i) = FD_PIPE"
  shows "wp (fileclose i) Q s = wp (kpipeclose (f_pipe (ftab s i)) (f_writable (ftab s i))) Q
     (setfile i (\<lambda>f. f\<lparr>f_ref := 0, f_type := FD_NONE\<rparr>) s)"
proof -
  have "setfile i (\<lambda>f. f\<lparr>f_ref := 0, f_type := FD_NONE\<rparr>) (setfile i (\<lambda>f. f\<lparr>f_ref := f_ref f - 1\<rparr>) s)
      = setfile i (\<lambda>f. f\<lparr>f_ref := 0, f_type := FD_NONE\<rparr>) s" by (simp add: setfile_def)
  then show ?thesis using assms by (simp add: fileclose_def)
qed

section \<open>The life of a pipe\<close>

definition pipe_up :: "nat \<Rightarrow> nat \<Rightarrow> nat \<Rightarrow> 'x kstate_scheme \<Rightarrow> bool" where
  "pipe_up p i j s \<longleftrightarrow> i \<noteq> j \<and> f_ref (ftab s i) = 1 \<and> f_type (ftab s i) = FD_PIPE \<and> f_readable (ftab s i) \<and> \<not> f_writable (ftab s i) \<and> f_pipe (ftab s i) = p \<and>
     f_ref (ftab s j) = 1 \<and> f_type (ftab s j) = FD_PIPE \<and> \<not> f_readable (ftab s j) \<and> f_writable (ftab s j) \<and> f_pipe (ftab s j) = p \<and>
     pipe_ok (pipes s p) \<and> readopen (pipes s p) \<and> writeopen (pipes s p)"

lemma pipe_new_ok: "pipe_ok (pipe_new d)" "pipe_queue (pipe_new d) = []" "readopen (pipe_new d)" "writeopen (pipe_new d)"
  by (simp_all add: pipe_new_def pipe_ok_def pipe_queue_def ring_list_def ring_len_def)

lemma two_slots: "2 \<le> card (free_slots s) \<Longrightarrow> free_slots s - {i} \<noteq> {}"
proof
  assume c: "2 \<le> card (free_slots s)" and "free_slots s - {i} = {}"
  then have "card (free_slots s) \<le> card {i}" by (intro card_mono) auto
  then show False using c by simp
qed

lemma two_slots_set: "2 \<le> card (free_slots s) \<Longrightarrow> f_ref (f (ftab s i)) \<noteq> 0 \<Longrightarrow> free_slots (setfile i f s) \<noteq> {}"
  using two_slots by (simp add: free_slots_setfile)

definition pipe_made :: "nat \<Rightarrow> nat list \<Rightarrow> 'x kstate_scheme \<Rightarrow> (nat \<times> nat) option \<Rightarrow> 'x kstate_scheme \<Rightarrow> bool" where
  "pipe_made p ps s r t \<longleftrightarrow> (\<exists>i j. r = Some (i, j) \<and> pipe_up p i j t \<and> {i, j} \<subseteq> free_slots s \<and> free_slots t = free_slots s - {i, j} \<and>
     kquiet (km s) (km t) \<and> free_pages (km t) ps \<and> procs t = procs s)"

lemma pipe_second_ok:
  assumes k: "kmem_ready (km s)" "free_pages (km s) (p # ps)" and ij: "i \<in> free_slots s" "j \<in> free_slots s" "i \<noteq> j"
  shows "wp (pipe_second i (Some j)) (pipe_made p ps s) (setfile j (\<lambda>f. f\<lparr>f_ref := 1\<rparr>) (setfile i (\<lambda>f. f\<lparr>f_ref := 1\<rparr>) s))"
proof -
  have p: "p \<noteq> 0" using k(2) by (simp add: free_pages_def)
  let ?u = "setfile j (\<lambda>f. f\<lparr>f_ref := 1\<rparr>) (setfile i (\<lambda>f. f\<lparr>f_ref := 1\<rparr>) s)"
  have "wp kalloc (\<lambda>q t. wp (pipe_wire i j q) (pipe_made p ps s) (?u\<lparr>km := t\<rparr>)) (km s)"
  proof (rule wp_conseq [OF kalloc_ok [OF k]])
    fix q :: nat and t
    assume "mem t = mem (km s) \<and> kquiet (km s) t \<and> (case p # ps of [] \<Rightarrow> q = 0 \<and> free_pages t [] | x # qs \<Rightarrow> q = x \<and> free_pages t qs)"
    then show "wp (pipe_wire i j q) (pipe_made p ps s) (?u\<lparr>km := t\<rparr>)"
      using p ij pipe_new_ok by (auto simp: pipe_wire_def pipe_made_def pipe_up_def free_slots_def)
  qed
  then show ?thesis by (simp add: pipe_second_def)
qed

lemma pipealloc_ok:
  assumes k: "kmem_ready (km s)" "free_pages (km s) (p # ps)" and c: "2 \<le> card (free_slots s)"
  shows "wp pipealloc (pipe_made p ps s) s"
  unfolding pipealloc_def wp_kbind
proof (rule wp_conseq [OF filealloc_ok])
  fix f0 :: "nat option" and t
  assume "case f0 of None \<Rightarrow> free_slots s = {} \<and> t = s
    | Some i \<Rightarrow> i \<in> free_slots s \<and> (\<forall>j\<in>free_slots s. i \<le> j) \<and> t = setfile i (\<lambda>f. f\<lparr>f_ref := 1\<rparr>) s"
  then obtain i where i: "f0 = Some i" "i \<in> free_slots s" "t = setfile i (\<lambda>f. f\<lparr>f_ref := 1\<rparr>) s"
    using c by (cases f0) auto
  have fs: "free_slots t = free_slots s - {i}" using i(3) by (simp add: free_slots_setfile)
  have "wp filealloc (\<lambda>f1. wp (pipe_second i f1) (pipe_made p ps s)) t"
  proof (rule wp_conseq [OF filealloc_ok])
    fix f1 :: "nat option" and u
    assume "case f1 of None \<Rightarrow> free_slots t = {} \<and> u = t
      | Some j \<Rightarrow> j \<in> free_slots t \<and> (\<forall>k\<in>free_slots t. j \<le> k) \<and> u = setfile j (\<lambda>f. f\<lparr>f_ref := 1\<rparr>) t"
    then obtain j where "f1 = Some j" "j \<in> free_slots s" "i \<noteq> j" "u = setfile j (\<lambda>f. f\<lparr>f_ref := 1\<rparr>) t"
      using two_slots [OF c, of i] fs by (cases f1) auto
    then show "wp (pipe_second i f1) (pipe_made p ps s) u" using pipe_second_ok [OF k i(2)] i(3) by simp
  qed
  then show "wp (pipe_first f0) (pipe_made p ps s) t" by (simp add: pipe_first_def i(1))
qed

lemma wakeup_ftab: "wp (wakeup c) Q s = Q () (s\<lparr>procs := wakeup1 c (procs s)\<rparr>)"
  by (simp add: wakeup_def)

text \<open>Closing the reading end leaves the pipe half open; closing the writing end then frees its page.\<close>

lemma pipe_close_read:
  assumes "pipe_up p i j s" "i < NFILE"
  shows "wp (fileclose i) (\<lambda>_ t. free_slots t = insert i (free_slots s) \<and> km t = km s \<and>
     ftab t j = ftab s j \<and> \<not> readopen (pipes t p) \<and> writeopen (pipes t p)) s"
proof -
  have "i \<noteq> j" "f_ref (ftab s i) = 1" "f_type (ftab s i) = FD_PIPE" "\<not> f_writable (ftab s i)" "f_pipe (ftab s i) = p" "writeopen (pipes s p)"
    using assms(1) by (simp_all add: pipe_up_def)
  then show ?thesis using assms(2)
    by (auto simp: fileclose_pipe kpipeclose_def pipeclose_def wakeup_ftab free_slots_def)
qed

lemma pipe_close_write:
  assumes f: "f_ref (ftab s j) = 1" "f_type (ftab s j) = FD_PIPE" "f_writable (ftab s j)" "f_pipe (ftab s j) = p" "\<not> readopen (pipes s p)" "j < NFILE"
    and k: "kmem_ready (km s)" "free_pages (km s) ps" "page_ok (kend (km s)) p" "p \<notin> set ps"
  shows "wp (fileclose j) (\<lambda>_ t. free_slots t = insert j (free_slots s) \<and> free_pages (km t) (p # ps) \<and> kquiet (km s) (km t)) s"
proof -
  let ?u = "setpipe p (fst (pipeclose True (pipes s p))) (setfile j (\<lambda>f. f\<lparr>f_ref := 0, f_type := FD_NONE\<rparr>) s)"
  let ?v = "?u\<lparr>procs := wakeup1 (ChanPipeRead p) (procs s)\<rparr>"
  have "wp (kfree p) (\<lambda>_ t. free_slots (?v\<lparr>km := t\<rparr>) = insert j (free_slots s) \<and> free_pages t (p # ps) \<and> kquiet (km s) t) (km s)"
    by (rule wp_conseq [OF kfree_ok [OF k]]) (use f(6) in \<open>auto simp: free_slots_def\<close>)
  then show ?thesis using f by (simp add: fileclose_pipe kpipeclose_def pipeclose_def wakeup_ftab)
qed

section \<open>Properties\<close>

text \<open>
  A pipe gives back what it took. With two free file-table slots and a free page,
  \<open>pipealloc\<close> returns a read end and a write end on an empty open pipe in that page; when both
  ends have been closed, the page is back at the front of the free list, exactly once, and the
  same slots are free as before.
\<close>

theorem pipe_life_cycle:
  assumes k: "kmem_ready (km s)" "free_pages (km s) (p # ps)" and c: "2 \<le> card (free_slots s)"
  shows "wp (kbind pipealloc (\<lambda>r. case r of None \<Rightarrow> kret None | Some (i, j) \<Rightarrow>
       kbind (kget (\<lambda>t. pipe_up p i j t)) (\<lambda>up. kseq (fileclose i) (kseq (fileclose j) (kret (Some up))))))
     (\<lambda>r t. r = Some True \<and> free_pages (km t) (p # ps) \<and> kmem_ready (km t) \<and> free_slots t = free_slots s) s"
  unfolding wp_kbind [of pipealloc]
proof (rule wp_conseq [OF pipealloc_ok [OF k c]])
  fix r and t
  assume "pipe_made p ps s r t"
  then obtain i j where t: "r = Some (i, j)" "pipe_up p i j t" "i \<in> free_slots s" "j \<in> free_slots s" "free_slots t = free_slots s - {i, j}"
    "kquiet (km s) (km t)" "free_pages (km t) ps" by (auto simp: pipe_made_def)
  have b: "i < NFILE" "j < NFILE" using t(3,4) by (simp_all add: free_slots_def)
  have pp: "page_ok (kend (km s)) p" "p \<notin> set ps" using k(2) by (simp_all add: free_pages_def)
  have "wp (fileclose i) (\<lambda>_. wp (fileclose j) (\<lambda>_ v. free_pages (km v) (p # ps) \<and> kmem_ready (km v) \<and> free_slots v = free_slots s)) t"
  proof (rule wp_conseq [OF pipe_close_read [OF t(2) b(1)]], elim conjE)
    fix u
    assume u: "free_slots u = insert i (free_slots t)" "km u = km t" "ftab u j = ftab t j" "\<not> readopen (pipes u p)" "writeopen (pipes u p)"
    have m: "kmem_ready (km u)" "kend (km u) = kend (km s)" using kquiet_ready [OF t(6) k(1)] kquiet_kend [OF t(6)] u(2) by simp_all
    have "wp (fileclose j) (\<lambda>_ v. free_slots v = insert j (free_slots u) \<and> free_pages (km v) (p # ps) \<and> kquiet (km u) (km v)) u"
      using t(2,7) u m b pp by (intro pipe_close_write) (simp_all add: pipe_up_def)
    then show "wp (fileclose j) (\<lambda>_ v. free_pages (km v) (p # ps) \<and> kmem_ready (km v) \<and> free_slots v = free_slots s) u"
      by (rule wp_conseq) (use u(1) t(3-5) m(1) kquiet_ready in auto)
  qed
  then show "wp (case r of None \<Rightarrow> kret None | Some (i, j) \<Rightarrow>
       kbind (kget (\<lambda>t. pipe_up p i j t)) (\<lambda>up. kseq (fileclose i) (kseq (fileclose j) (kret (Some up)))))
     (\<lambda>r t. r = Some True \<and> free_pages (km t) (p # ps) \<and> kmem_ready (km t) \<and> free_slots t = free_slots s) t"
    using t(1,2) by simp
qed

text \<open>A kernel state with no open file, an empty process table and one free page.\<close>

definition no_file :: kfile where
  "no_file = \<lparr>f_type = FD_NONE, f_ref = 0, f_readable = False, f_writable = False, f_pipe = 0, f_ip = 0, f_off = 0\<rparr>"

definition no_tf :: trapframe where
  "no_tf = \<lparr>tf_edi = 0, tf_esi = 0, tf_ebp = 0, tf_oesp = 0, tf_ebx = 0, tf_edx = 0, tf_ecx = 0, tf_eax = 0, tf_gs = 0, tf_fs = 0,
     tf_es = 0, tf_ds = 0, tf_trapno = 0, tf_err = 0, tf_eip = 0, tf_cs = 0, tf_eflags = 0, tf_esp = 0, tf_ss = 0\<rparr>"

definition no_proc :: proc where
  "no_proc = \<lparr>p_sz = 0, p_pgdir = 0, p_kstack = 0, p_state = UNUSED, p_pid = 0, p_parent = None, p_tf = no_tf, p_context = AtForkret,
     p_chan = None, p_killed = False, p_ofile = \<lambda>_. None, p_cwd = None, p_name = \<lambda>_. 0\<rparr>"

definition demo_k :: kstate where
  "demo_k = fstate.extend demo_fs \<lparr>km = demo_vm, kdata = KERNBASE, ftab = \<lambda>_. no_file,
     pipes = \<lambda>_. pipe_new (\<lambda>_. 0), procs = \<lambda>_. no_proc, initproc = None, nextpid = 1, cur = None, ticks = 0\<rparr>"

lemma demo_k_sel: "km demo_k = demo_vm" "ftab demo_k = (\<lambda>_. no_file)" "procs demo_k = (\<lambda>_. no_proc)"
    "cur demo_k = None" "nextpid demo_k = 1" "initproc demo_k = None"
  by (simp_all add: demo_k_def fstate.defs)

theorem pipe_life_cycle_witness:
  "wp (kbind pipealloc (\<lambda>r. case r of None \<Rightarrow> kret None | Some (i, j) \<Rightarrow>
       kbind (kget (\<lambda>t. pipe_up (KERNBASE + 4096) i j t)) (\<lambda>up. kseq (fileclose i) (kseq (fileclose j) (kret (Some up))))))
     (\<lambda>r t. r = Some True \<and> free_pages (km t) [KERNBASE + 4096] \<and> kmem_ready (km t) \<and> free_slots t = free_slots demo_k) demo_k"
proof (rule pipe_life_cycle)
  show "kmem_ready (km demo_k)" "free_pages (km demo_k) [KERNBASE + 4096]"
    using vm_okD(1,2) [OF demo_vm_ok(1)] by (simp_all add: demo_k_sel)
  have "free_slots demo_k = {..<NFILE}" by (auto simp: free_slots_def demo_k_sel no_file_def)
  then show "2 \<le> card (free_slots demo_k)" by (simp add: NFILE_def)
qed

end
