(* ===== verification/ProcProps.thy ===== *)
theory ProcProps
  imports Keeps Proc FileProps
begin

text \<open>
  The process table's invariant and its preservation by every operation of \<^verbatim>\<open>proc.c\<close>: process
  identifiers are unique, every process but init has a live parent that can reap it, and a
  process that sleeps in \<^verbatim>\<open>wait\<close> has no zombie child, that is, no exit is missed. \<open>triple\<close> is
  partial correctness with separate conditions for returning and for switching away.
\<close>

section \<open>Triples\<close>

definition triple :: "('s \<Rightarrow> bool) \<Rightarrow> ('s, 'a) kmon \<Rightarrow> ('a \<Rightarrow> 's \<Rightarrow> bool) \<Rightarrow> ('s \<Rightarrow> bool) \<Rightarrow> bool" where
  "triple P m Q R \<longleftrightarrow> (\<forall>s. P s \<longrightarrow> (case m s of Done x t \<Rightarrow> Q x t | Panic _ \<Rightarrow> True | Sleep c t \<Rightarrow> R t))"

lemma triple_kbind: "triple P m Q R \<Longrightarrow> (\<And>x. triple (Q x) (k x) Q' R) \<Longrightarrow> triple P (kbind m k) Q' R"
proof -
  assume m: "triple P m Q R" and k: "\<And>x. triple (Q x) (k x) Q' R"
  show ?thesis unfolding triple_def
  proof (intro allI impI)
    fix s assume "P s"
    then have "case m s of Done x t \<Rightarrow> Q x t | Panic _ \<Rightarrow> True | Sleep c t \<Rightarrow> R t" using m by (simp add: triple_def)
    then show "case kbind m k s of Done x t \<Rightarrow> Q' x t | Panic _ \<Rightarrow> True | Sleep c t \<Rightarrow> R t"
      using k by (cases "m s") (simp_all add: kbind_def triple_def)
  qed
qed

lemma triple_kseq: "triple P m (\<lambda>_. Q) R \<Longrightarrow> triple Q n Q' R \<Longrightarrow> triple P (kseq m n) Q' R"
  unfolding kseq_def by (rule triple_kbind)

lemma triple_kret: "(\<And>s. P s \<Longrightarrow> Q x s) \<Longrightarrow> triple P (kret x) Q R"
  and triple_kget: "(\<And>s. P s \<Longrightarrow> Q' (f s) s) \<Longrightarrow> triple P (kget f) Q' R"
  and triple_kmod: "(\<And>s. P s \<Longrightarrow> Q'' () (g s)) \<Longrightarrow> triple P (kmod g) Q'' R"
  and triple_kpanic: "triple P (kpanic e) Q R" and triple_ksleep: "(\<And>s. P s \<Longrightarrow> R s) \<Longrightarrow> triple P (ksleep c) Q R"
  by (simp_all add: triple_def kernel_defs)

lemma triple_keeps: "keeps I m \<Longrightarrow> (\<And>s. I s \<Longrightarrow> R s) \<Longrightarrow> triple I m (\<lambda>_. I) R"
proof -
  assume m: "keeps I m" and r: "\<And>s. I s \<Longrightarrow> R s"
  show ?thesis unfolding triple_def
  proof (intro allI impI)
    fix s assume "I s"
    then show "case m s of Done x t \<Rightarrow> I t | Panic _ \<Rightarrow> True | Sleep c t \<Rightarrow> R t"
      using keepsE [OF m, of s] r by (cases "m s") simp_all
  qed
qed

lemma triple_pre: "triple P m Q R \<Longrightarrow> (\<And>s. P' s \<Longrightarrow> P s) \<Longrightarrow> triple P' m Q R"
  by (simp add: triple_def)

lemma triple_post: "triple P m Q R \<Longrightarrow> (\<And>x s. Q x s \<Longrightarrow> Q' x s) \<Longrightarrow> triple P m Q' R"
  by (fastforce simp: triple_def split: result.splits)

lemma triple_switch: "triple P m Q R \<Longrightarrow> (\<And>s. R s \<Longrightarrow> R' s) \<Longrightarrow> triple P m Q R'"
  unfolding triple_def
proof (intro allI impI)
  fix s assume "\<forall>s. P s \<longrightarrow> (case m s of Done x t \<Rightarrow> Q x t | Panic _ \<Rightarrow> True | Sleep c t \<Rightarrow> R t)" and R: "\<And>s. R s \<Longrightarrow> R' s" and "P s"
  then have "case m s of Done x t \<Rightarrow> Q x t | Panic _ \<Rightarrow> True | Sleep c t \<Rightarrow> R t" by blast
  then show "case m s of Done x t \<Rightarrow> Q x t | Panic _ \<Rightarrow> True | Sleep c t \<Rightarrow> R' t" using R by (cases "m s") auto
qed

lemma triple_get_same: "(\<And>x. triple (\<lambda>s. P s \<and> f s = x) (k x) Q R) \<Longrightarrow> triple P (kbind (kget f) k) Q R"
  by (simp add: triple_def kernel_defs)

section \<open>The invariant of the process table\<close>

definition live :: "procstate \<Rightarrow> bool" where
  "live st \<longleftrightarrow> st = SLEEPING \<or> st = RUNNABLE \<or> st = RUNNING"

text \<open>The part of an entry the invariant reads.\<close>

definition pview :: "proc \<Rightarrow> procstate \<times> int \<times> nat option \<times> chan option" where
  "pview p = (p_state p, p_pid p, p_parent p, p_chan p)"

definition waits :: "(nat \<Rightarrow> proc) \<Rightarrow> nat \<Rightarrow> bool" where
  "waits P q \<longleftrightarrow> p_state (P q) = SLEEPING \<and> p_chan (P q) = Some (ChanProc q)"

definition table_ok :: "(nat \<Rightarrow> proc) \<Rightarrow> int \<Rightarrow> nat option \<Rightarrow> bool" where
  "table_ok P n ini \<longleftrightarrow> 0 < n \<and> (\<exists>i<NPROC. ini = Some i \<and> live (p_state (P i)) \<and> p_parent (P i) = None) \<and>
     (\<forall>i<NPROC. p_state (P i) \<noteq> UNUSED \<longrightarrow> 0 < p_pid (P i) \<and> p_pid (P i) < n) \<and>
     (\<forall>i<NPROC. \<forall>j<NPROC. p_state (P i) \<noteq> UNUSED \<longrightarrow> p_state (P j) \<noteq> UNUSED \<longrightarrow> p_pid (P i) = p_pid (P j) \<longrightarrow> i = j) \<and>
     (\<forall>i<NPROC. live (p_state (P i)) \<or> p_state (P i) = ZOMBIE \<longrightarrow> ini \<noteq> Some i \<longrightarrow>
        (\<exists>q<NPROC. p_parent (P i) = Some q \<and> q \<noteq> i \<and> live (p_state (P q)))) \<and>
     (\<forall>i<NPROC. \<forall>q<NPROC. p_state (P i) = ZOMBIE \<longrightarrow> p_parent (P i) = Some q \<longrightarrow> \<not> waits P q)"

lemma table_okI:
  assumes "0 < n" "i0 < NPROC" "ini = Some i0" "live (p_state (P i0))" "p_parent (P i0) = None"
    and "\<And>i. i < NPROC \<Longrightarrow> p_state (P i) \<noteq> UNUSED \<Longrightarrow> 0 < p_pid (P i) \<and> p_pid (P i) < n"
    and "\<And>i j. i < NPROC \<Longrightarrow> j < NPROC \<Longrightarrow> p_state (P i) \<noteq> UNUSED \<Longrightarrow> p_state (P j) \<noteq> UNUSED \<Longrightarrow> p_pid (P i) = p_pid (P j) \<Longrightarrow> i = j"
    and "\<And>i. i < NPROC \<Longrightarrow> live (p_state (P i)) \<or> p_state (P i) = ZOMBIE \<Longrightarrow> i \<noteq> i0 \<Longrightarrow>
      \<exists>q<NPROC. p_parent (P i) = Some q \<and> q \<noteq> i \<and> live (p_state (P q))"
    and "\<And>i q. i < NPROC \<Longrightarrow> q < NPROC \<Longrightarrow> p_state (P i) = ZOMBIE \<Longrightarrow> p_parent (P i) = Some q \<Longrightarrow> \<not> waits P q"
  shows "table_ok P n ini"
  unfolding table_ok_def using assms(1-5)
  by (intro conjI; (intro allI impI)?) (simp, blast, (rule assms(6-9); simp)+)

lemma table_okE:
  assumes "table_ok P n ini"
  obtains r where "0 < n" "r < NPROC" "ini = Some r" "live (p_state (P r))" "p_parent (P r) = None"
    and "\<And>i. i < NPROC \<Longrightarrow> p_state (P i) \<noteq> UNUSED \<Longrightarrow> 0 < p_pid (P i) \<and> p_pid (P i) < n"
    and "\<And>i j. i < NPROC \<Longrightarrow> j < NPROC \<Longrightarrow> p_state (P i) \<noteq> UNUSED \<Longrightarrow> p_state (P j) \<noteq> UNUSED \<Longrightarrow> p_pid (P i) = p_pid (P j) \<Longrightarrow> i = j"
    and "\<And>i. i < NPROC \<Longrightarrow> live (p_state (P i)) \<or> p_state (P i) = ZOMBIE \<Longrightarrow> i \<noteq> r \<Longrightarrow>
      \<exists>q<NPROC. p_parent (P i) = Some q \<and> q \<noteq> i \<and> live (p_state (P q))"
    and "\<And>i q. i < NPROC \<Longrightarrow> q < NPROC \<Longrightarrow> p_state (P i) = ZOMBIE \<Longrightarrow> p_parent (P i) = Some q \<Longrightarrow> \<not> waits P q"
proof -
  obtain r where r: "r < NPROC" "ini = Some r" "live (p_state (P r))" "p_parent (P r) = None" using assms unfolding table_ok_def by blast
  have "0 < n" using assms unfolding table_ok_def by simp
  from that [OF this r] show thesis using assms unfolding table_ok_def r(2) by force
qed

lemma table_ok_view: "(\<And>i. pview (P' i) = pview (P i)) \<Longrightarrow> table_ok P' n ini = table_ok P n ini"
proof -
  assume "\<And>i. pview (P' i) = pview (P i)"
  then have "p_state (P' i) = p_state (P i)" "p_pid (P' i) = p_pid (P i)" "p_parent (P' i) = p_parent (P i)" "p_chan (P' i) = p_chan (P i)" for i
    by (simp_all add: pview_def)
  then show ?thesis by (simp add: table_ok_def waits_def)
qed

text \<open>An update of one entry: what is live, who is whose child, who may be waited for.\<close>

lemma table_ok_update:
  assumes t: "table_ok P n ini" and i: "i < NPROC" and m: "n \<le> m"
    and s: "p_state p' \<noteq> UNUSED \<Longrightarrow> p_state (P i) = UNUSED \<and> p_pid p' = n \<and> n < m \<or> p_state (P i) \<noteq> UNUSED \<and> p_pid p' = p_pid (P i)"
    and l: "live (p_state (P i)) \<Longrightarrow> live (p_state p') \<and> p_parent p' = p_parent (P i)"
    and c: "live (p_state p') \<Longrightarrow> \<not> live (p_state (P i)) \<Longrightarrow> \<exists>q<NPROC. p_parent p' = Some q \<and> q \<noteq> i \<and> live (p_state (P q))"
    and z: "p_state p' \<noteq> ZOMBIE"
    and w: "\<And>j. p_state p' = SLEEPING \<Longrightarrow> p_chan p' = Some (ChanProc i) \<Longrightarrow> j < NPROC \<Longrightarrow> p_parent (P j) = Some i \<Longrightarrow> p_state (P j) \<noteq> ZOMBIE"
  shows "table_ok (P(i := p')) m ini"
proof (rule table_okE [OF t])
  fix r
  assume r: "0 < n" "r < NPROC" "ini = Some r" "live (p_state (P r))" "p_parent (P r) = None"
    and pid: "\<And>i. i < NPROC \<Longrightarrow> p_state (P i) \<noteq> UNUSED \<Longrightarrow> 0 < p_pid (P i) \<and> p_pid (P i) < n"
    and uniq: "\<And>i j. i < NPROC \<Longrightarrow> j < NPROC \<Longrightarrow> p_state (P i) \<noteq> UNUSED \<Longrightarrow> p_state (P j) \<noteq> UNUSED \<Longrightarrow> p_pid (P i) = p_pid (P j) \<Longrightarrow> i = j"
    and par: "\<And>i. i < NPROC \<Longrightarrow> live (p_state (P i)) \<or> p_state (P i) = ZOMBIE \<Longrightarrow> i \<noteq> r \<Longrightarrow>
      \<exists>q<NPROC. p_parent (P i) = Some q \<and> q \<noteq> i \<and> live (p_state (P q))"
    and miss: "\<And>i q. i < NPROC \<Longrightarrow> q < NPROC \<Longrightarrow> p_state (P i) = ZOMBIE \<Longrightarrow> p_parent (P i) = Some q \<Longrightarrow> \<not> waits P q"
  let ?P = "P(i := p')"
  have live: "live (p_state (?P k))" if "live (p_state (P k))" for k using l that by (cases "k = i") simp_all
  have pid': "0 < p_pid (?P k) \<and> p_pid (?P k) < m" if "k < NPROC" "p_state (?P k) \<noteq> UNUSED" for k
    using pid [of k] that s m r(1) by (cases "k = i") auto
  have new: "p_pid (?P i) \<noteq> p_pid (P k)" if "k < NPROC" "k \<noteq> i" "p_state (P k) \<noteq> UNUSED" "p_state p' \<noteq> UNUSED" for k
    using s [OF that(4)] pid [OF that(1,3)] uniq [OF that(1) i that(3)] that(2) by auto
  have uniq': "k = j" if "k < NPROC" "j < NPROC" "p_state (?P k) \<noteq> UNUSED" "p_state (?P j) \<noteq> UNUSED" "p_pid (?P k) = p_pid (?P j)" for k j
    using that uniq [of k j] new [of k] new [of j] by (cases "k = i"; cases "j = i") auto
  have par': "\<exists>q<NPROC. p_parent (?P k) = Some q \<and> q \<noteq> k \<and> live (p_state (?P q))"
    if k: "k < NPROC" "live (p_state (?P k)) \<or> p_state (?P k) = ZOMBIE" "k \<noteq> r" for k
  proof -
    have "\<exists>q<NPROC. p_parent (?P k) = Some q \<and> q \<noteq> k \<and> live (p_state (P q))"
    proof (cases "k = i")
      case True
      then show ?thesis using c l par [of i] k z by (cases "live (p_state (P i))") auto
    next
      case False
      then show ?thesis using par [of k] k by simp
    qed
    then show ?thesis using live by blast
  qed
  have miss': "\<not> waits ?P q" if k: "k < NPROC" "q < NPROC" "p_state (?P k) = ZOMBIE" "p_parent (?P k) = Some q" for k q
  proof -
    have ki: "k \<noteq> i" using k(3) z by auto
    then have pk: "p_state (P k) = ZOMBIE" "p_parent (P k) = Some q" using k by simp_all
    then show ?thesis using miss [OF k(1,2) pk] w [OF _ _ k(1)] by (cases "q = i") (auto simp: waits_def)
  qed
  have r': "live (p_state (?P r))" "p_parent (?P r) = None" using live [OF r(4)] l r(4,5) by (simp, cases "r = i", auto)
  show "table_ok ?P m ini"
    by (rule table_okI [OF _ r(2,3) r' pid' uniq' par' miss']) (use r(1) m in auto)
qed

text \<open>A live process changes between running, runnable and sleeping.\<close>

lemma table_ok_live:
  assumes t: "table_ok P n ini" and i: "i < NPROC" "live (p_state (P i))" "live (p_state p')" "p_pid p' = p_pid (P i)" "p_parent p' = p_parent (P i)"
    and c: "p_state p' = SLEEPING \<Longrightarrow> p_chan p' = Some (ChanProc i) \<Longrightarrow> \<forall>j<NPROC. p_parent (P j) = Some i \<longrightarrow> p_state (P j) \<noteq> ZOMBIE"
  shows "table_ok (P(i := p')) n ini"
  by (rule table_ok_update [OF t i(1)]) (use i c in \<open>auto simp: live_def\<close>)

lemma table_ok_new:
  assumes t: "table_ok P n ini" and i: "i < NPROC" "p_state (P i) = UNUSED" "p_state p' = EMBRYO" "p_pid p' = n"
  shows "table_ok (P(i := p')) (n + 1) ini"
  by (rule table_ok_update [OF t i(1)]) (use i in \<open>simp_all add: live_def\<close>)

lemma table_ok_embryo:
  assumes t: "table_ok P n ini" and i: "i < NPROC" "p_state (P i) = EMBRYO" "p_state p' = EMBRYO" "p_pid p' = p_pid (P i)"
  shows "table_ok (P(i := p')) n ini"
  by (rule table_ok_update [OF t i(1)]) (use i in \<open>simp_all add: live_def\<close>)

lemma table_ok_free:
  assumes t: "table_ok P n ini" and i: "i < NPROC" "\<not> live (p_state (P i))" "p_state p' = UNUSED"
  shows "table_ok (P(i := p')) n ini"
  by (rule table_ok_update [OF t i(1)]) (use i in \<open>simp_all add: live_def\<close>)

lemma table_ok_start:
  assumes t: "table_ok P n ini" and i: "i < NPROC" "p_state (P i) = EMBRYO" "p_state p' = RUNNABLE" "p_pid p' = p_pid (P i)"
    and c: "p_parent p' = Some c" "c < NPROC" "live (p_state (P c))" "c \<noteq> i"
  shows "table_ok (P(i := p')) n ini"
  by (rule table_ok_update [OF t i(1)]) (use i c in \<open>auto simp: live_def\<close>)

section \<open>Wake-ups and exits\<close>

text \<open>\<open>calmer P Q\<close>: from \<open>P\<close> to \<open>Q\<close> some sleepers have become runnable.\<close>

definition calmer :: "(nat \<Rightarrow> proc) \<Rightarrow> (nat \<Rightarrow> proc) \<Rightarrow> bool" where
  "calmer P Q \<longleftrightarrow> (\<forall>i. p_pid (Q i) = p_pid (P i) \<and> p_chan (Q i) = p_chan (P i) \<and>
     (p_state (Q i) = p_state (P i) \<or> p_state (P i) = SLEEPING \<and> p_state (Q i) = RUNNABLE))"

lemma calmerD: "calmer P Q \<Longrightarrow> p_pid (Q i) = p_pid (P i) \<and> p_chan (Q i) = p_chan (P i) \<and>
     (p_state (Q i) = p_state (P i) \<or> p_state (P i) = SLEEPING \<and> p_state (Q i) = RUNNABLE)"
  unfolding calmer_def by (rule spec)

lemma calmer_refl: "calmer P P"
  by (simp add: calmer_def)

lemma calmer_trans: "calmer P Q \<Longrightarrow> calmer Q R \<Longrightarrow> calmer P R"
proof -
  assume c: "calmer P Q" "calmer Q R"
  show ?thesis unfolding calmer_def using calmerD [OF c(1)] calmerD [OF c(2)] by (metis procstate.distinct(19))
qed

lemma calmer_states: "calmer P Q \<Longrightarrow> live (p_state (Q i)) = live (p_state (P i)) \<and> (p_state (Q i) = ZOMBIE) = (p_state (P i) = ZOMBIE) \<and>
    (p_state (Q i) = UNUSED) = (p_state (P i) = UNUSED) \<and> p_pid (Q i) = p_pid (P i)"
  using calmerD [of P Q i] by (auto simp: live_def)

lemma calmer_waits: "calmer P Q \<Longrightarrow> waits Q q \<Longrightarrow> waits P q"
  using calmerD [of P Q q] by (auto simp: waits_def)

lemma wakeup1_calmer: "calmer P (wakeup1 c P)" and wakeup1_parent: "p_parent (wakeup1 c P i) = p_parent (P i)"
  by (simp_all add: calmer_def wakeup1_def)

lemma wakeup1_waits: "q < NPROC \<Longrightarrow> \<not> waits (wakeup1 (ChanProc q) P) q"
  by (simp add: waits_def wakeup1_def)

lemma table_ok_waits: "table_ok P n ini \<Longrightarrow> i < NPROC \<Longrightarrow> q < NPROC \<Longrightarrow> p_state (P i) = ZOMBIE \<Longrightarrow> p_parent (P i) = Some q \<Longrightarrow> \<not> waits P q"
  by (simp add: table_ok_def waits_def)

lemma table_ok_calmer:
  assumes "table_ok P n ini" "calmer P Q" "\<And>i. p_parent (Q i) = p_parent (P i)"
  shows "table_ok Q n ini"
proof (rule table_okE [OF assms(1)])
  fix r
  note c = calmer_states [OF assms(2)]
  assume r: "0 < n" "r < NPROC" "ini = Some r" "live (p_state (P r))" "p_parent (P r) = None"
    and p: "\<And>i. i < NPROC \<Longrightarrow> p_state (P i) \<noteq> UNUSED \<Longrightarrow> 0 < p_pid (P i) \<and> p_pid (P i) < n"
      "\<And>i j. i < NPROC \<Longrightarrow> j < NPROC \<Longrightarrow> p_state (P i) \<noteq> UNUSED \<Longrightarrow> p_state (P j) \<noteq> UNUSED \<Longrightarrow> p_pid (P i) = p_pid (P j) \<Longrightarrow> i = j"
      "\<And>i. i < NPROC \<Longrightarrow> live (p_state (P i)) \<or> p_state (P i) = ZOMBIE \<Longrightarrow> i \<noteq> r \<Longrightarrow>
        \<exists>q<NPROC. p_parent (P i) = Some q \<and> q \<noteq> i \<and> live (p_state (P q))"
    and m: "\<And>i q. i < NPROC \<Longrightarrow> q < NPROC \<Longrightarrow> p_state (P i) = ZOMBIE \<Longrightarrow> p_parent (P i) = Some q \<Longrightarrow> \<not> waits P q"
  show ?thesis
  proof (rule table_okI [OF r(1,2,3)]; (unfold c [THEN conjunct1] assms(3))?)
    show "0 < p_pid (Q i) \<and> p_pid (Q i) < n" if "i < NPROC" "p_state (Q i) \<noteq> UNUSED" for i using p(1) [OF that(1)] that(2) c [of i] by simp
    show "i = j" if "i < NPROC" "j < NPROC" "p_state (Q i) \<noteq> UNUSED" "p_state (Q j) \<noteq> UNUSED" "p_pid (Q i) = p_pid (Q j)" for i j
      using p(2) [OF that(1,2)] that(3-5) c [of i] c [of j] by simp
    show "\<exists>q<NPROC. p_parent (P i) = Some q \<and> q \<noteq> i \<and> live (p_state (P q))"
      if "i < NPROC" "live (p_state (P i)) \<or> p_state (Q i) = ZOMBIE" "i \<noteq> r" for i
      using p(3) [OF that(1) _ that(3)] that(2) c [of i] by simp
    show "\<not> waits Q q" if "i < NPROC" "q < NPROC" "p_state (Q i) = ZOMBIE" "p_parent (P i) = Some q" for i q
      using m [OF that(1,2) _ that(4)] that(3) c [of i] calmer_waits [OF assms(2), of q] by blast
  qed (rule r)+
qed

lemma table_ok_wakeup: "table_ok P n ini \<Longrightarrow> table_ok (wakeup1 c P) n ini"
  by (rule table_ok_calmer) (simp_all add: wakeup1_calmer wakeup1_parent)

lemma abandon_effect:
  assumes "ini = Some r" "r \<noteq> c" "r < NPROC"
  shows "calmer P (abandon c ini i P)" "p_parent (abandon c ini i P j) = (if j = i \<and> p_parent (P j) = Some c then ini else p_parent (P j))"
    "p_parent (P i) = Some c \<Longrightarrow> p_state (P i) = ZOMBIE \<Longrightarrow> \<not> waits (abandon c ini i P) r"
proof -
  let ?P = "P(i := (P i)\<lparr>p_parent := ini\<rparr>)"
  have u: "calmer P ?P" by (simp add: calmer_def)
  show "calmer P (abandon c ini i P)"
    using calmer_refl u calmer_trans [OF u wakeup1_calmer] by (simp add: abandon_def Let_def assms(1))
  show "p_parent (abandon c ini i P j) = (if j = i \<and> p_parent (P j) = Some c then ini else p_parent (P j))"
    by (auto simp: abandon_def Let_def assms(1) wakeup1_parent)
  show "p_parent (P i) = Some c \<Longrightarrow> p_state (P i) = ZOMBIE \<Longrightarrow> \<not> waits (abandon c ini i P) r"
    using wakeup1_waits [OF assms(3)] by (simp add: abandon_def Let_def assms(1))
qed

lemma fold_abandon:
  assumes r: "ini = Some r" "r \<noteq> c" "r < NPROC"
  shows "calmer P (fold (abandon c ini) xs P) \<and>
    (\<forall>j. p_parent (fold (abandon c ini) xs P j) = (if j \<in> set xs \<and> p_parent (P j) = Some c then ini else p_parent (P j))) \<and>
    (\<forall>j\<in>set xs. p_parent (P j) = Some c \<longrightarrow> p_state (P j) = ZOMBIE \<longrightarrow> \<not> waits (fold (abandon c ini) xs P) r)"
proof (induction xs arbitrary: P)
  case Nil
  show ?case by (simp add: calmer_refl)
next
  case (Cons i xs)
  let ?P = "abandon c ini i P"
  note a = abandon_effect [OF r, where P = P and i = i]
  have c: "calmer ?P (fold (abandon c ini) xs ?P)" using Cons.IH by blast
  have w: "\<not> waits (fold (abandon c ini) xs ?P) r" if "j \<in> set (i # xs)" "p_parent (P j) = Some c" "p_state (P j) = ZOMBIE" for j
  proof (cases "j = i")
    case True
    then show ?thesis using a(3) that calmer_waits [OF c] by blast
  next
    case False
    have "p_parent (?P j) = Some c" "p_state (?P j) = ZOMBIE" using False that a(2) [of j] calmer_states [OF a(1)] by simp_all
    then show ?thesis using Cons.IH [of ?P] False that(1) by auto
  qed
  have "p_parent (fold (abandon c ini) xs ?P j) = (if j \<in> set (i # xs) \<and> p_parent (P j) = Some c then ini else p_parent (P j))" for j
    using Cons.IH [of ?P] a(2) [of j] r by auto
  then show ?case using w calmer_trans [OF a(1) c] by auto
qed

lemma table_ok_zombie:
  assumes t: "table_ok (procs s) n (initproc s)" and c: "c < NPROC" "initproc s \<noteq> Some c" "live (p_state (procs s c))"
  shows "table_ok (procs (become_zombie c s)) n (initproc (become_zombie c s))"
proof (rule table_okE [OF t])
  let ?P = "procs s" and ?ini = "initproc s"
  fix r
  assume r: "0 < n" "r < NPROC" "?ini = Some r" "live (p_state (?P r))" "p_parent (?P r) = None"
    and pid: "\<And>i. i < NPROC \<Longrightarrow> p_state (?P i) \<noteq> UNUSED \<Longrightarrow> 0 < p_pid (?P i) \<and> p_pid (?P i) < n"
    and uniq: "\<And>i j. i < NPROC \<Longrightarrow> j < NPROC \<Longrightarrow> p_state (?P i) \<noteq> UNUSED \<Longrightarrow> p_state (?P j) \<noteq> UNUSED \<Longrightarrow> p_pid (?P i) = p_pid (?P j) \<Longrightarrow> i = j"
    and parent: "\<And>i. i < NPROC \<Longrightarrow> live (p_state (?P i)) \<or> p_state (?P i) = ZOMBIE \<Longrightarrow> i \<noteq> r \<Longrightarrow>
      \<exists>q<NPROC. p_parent (?P i) = Some q \<and> q \<noteq> i \<and> live (p_state (?P q))"
    and miss: "\<And>i q. i < NPROC \<Longrightarrow> q < NPROC \<Longrightarrow> p_state (?P i) = ZOMBIE \<Longrightarrow> p_parent (?P i) = Some q \<Longrightarrow> \<not> waits ?P q"
  have rc: "r \<noteq> c" using c(2) r(3) by auto
  obtain q where q: "p_parent (?P c) = Some q" "q < NPROC" "q \<noteq> c" using parent [OF c(1)] c(3) rc by auto
  define P0 where "P0 = wakeup1 (ChanProc q) ?P"
  define P1 where "P1 = fold (abandon c ?ini) [0..<NPROC] P0"
  have z: "procs (become_zombie c s) = P1(c := (P1 c)\<lparr>p_state := ZOMBIE\<rparr>)" "initproc (become_zombie c s) = ?ini"
    by (simp_all add: become_zombie_def Let_def q(1) P0_def P1_def)
  note f = fold_abandon [OF r(3) rc r(2), where P = P0 and xs = "[0..<NPROC]", folded P1_def]
  have c01: "calmer ?P P0" "calmer P0 P1" using f by (simp_all add: wakeup1_calmer P0_def)
  note cm = calmer_trans [OF c01]
  note cs = calmer_states [OF cm] and cs0 = calmer_states [OF c01(1)]
  have par: "p_parent (P1 j) = (if j < NPROC \<and> p_parent (?P j) = Some c then ?ini else p_parent (?P j))" for j
    using f by (simp add: P0_def wakeup1_parent)
  have wq: "\<not> waits P1 q" using calmer_waits [OF c01(2), of q] wakeup1_waits [OF q(2)] unfolding P0_def by blast
  have wr: "\<not> waits P1 r" if "j < NPROC" "p_parent (?P j) = Some c" "p_state (?P j) = ZOMBIE" for j
    using f that cs0 [of j] by (simp add: P0_def wakeup1_parent)
  have w: "\<not> waits P1 k" if "i < NPROC" "k < NPROC" "p_state (?P i) = ZOMBIE \<or> i = c" "p_parent (P1 i) = Some k" for i k
  proof (cases "i = c")
    case True
    then show ?thesis using that(4) par [of c] q(1,3) wq by simp
  next
    case False
    then have i: "p_state (?P i) = ZOMBIE" using that(3) by simp
    show ?thesis
    proof (cases "p_parent (?P i) = Some c")
      case True
      then show ?thesis using wr [OF that(1) True i] par [of i] that(1,4) r(3) by simp
    next
      case False
      then show ?thesis using miss [OF that(1,2) i] calmer_waits [OF cm, of k] par [of i] that(4) by auto
    qed
  qed
  let ?Q = "P1(c := (P1 c)\<lparr>p_state := ZOMBIE\<rparr>)"
  have st: "p_state (?Q i) = ZOMBIE \<longleftrightarrow> p_state (?P i) = ZOMBIE \<or> i = c" "p_state (?Q i) = UNUSED \<longleftrightarrow> p_state (?P i) = UNUSED"
    "live (p_state (?Q i)) \<longleftrightarrow> live (p_state (?P i)) \<and> i \<noteq> c" "p_pid (?Q i) = p_pid (?P i)" "p_parent (?Q i) = p_parent (P1 i)"
    "waits ?Q k \<Longrightarrow> waits P1 k" for i k
    using cs [of i] c(3) by (cases "i = c"; auto simp: live_def waits_def split: if_splits)+
  have "table_ok ?Q n ?ini"
  proof (rule table_okI [OF r(1,2,3)])
    show "live (p_state (?Q r))" "p_parent (?Q r) = None" unfolding st using r rc par [of r] by simp_all
    show "0 < p_pid (?Q i) \<and> p_pid (?Q i) < n" if "i < NPROC" "p_state (?Q i) \<noteq> UNUSED" for i using pid [OF that(1)] that(2) st by simp
    show "i = j" if "i < NPROC" "j < NPROC" "p_state (?Q i) \<noteq> UNUSED" "p_state (?Q j) \<noteq> UNUSED" "p_pid (?Q i) = p_pid (?Q j)" for i j
      using uniq [OF that(1,2)] that(3-5) unfolding st by simp
    show "\<not> waits ?Q k" if "i < NPROC" "k < NPROC" "p_state (?Q i) = ZOMBIE" "p_parent (?Q i) = Some k" for i k
      using w [OF that(1,2)] that(3,4) st(6) [of k] unfolding st(1,5) by blast
    show "\<exists>k<NPROC. p_parent (?Q i) = Some k \<and> k \<noteq> i \<and> live (p_state (?Q k))"
      if i: "i < NPROC" "live (p_state (?Q i)) \<or> p_state (?Q i) = ZOMBIE" "i \<noteq> r" for i
    proof -
      have "live (p_state (?P i)) \<or> p_state (?P i) = ZOMBIE" using i(2) c(3) unfolding st by auto
      then obtain k where k: "k < NPROC" "p_parent (?P i) = Some k" "k \<noteq> i" "live (p_state (?P k))" using parent [OF i(1) _ i(3)] by blast
      show ?thesis
      proof (cases "k = c")
        case True
        then show ?thesis using par [of i] k(2) i(1,3) r(2,3,4) rc unfolding st by simp
      next
        case False
        then show ?thesis using par [of i] k unfolding st by simp
      qed
    qed
  qed
  then show ?thesis using z by simp
qed

section \<open>Every operation keeps the table\<close>

definition proc_ok :: "'x kstate_scheme \<Rightarrow> bool" where
  "proc_ok s \<longleftrightarrow> table_ok (procs s) (nextpid s) (initproc s) \<and> (case cur s of None \<Rightarrow> True | Some c \<Rightarrow> c < NPROC \<and> p_state (procs s c) = RUNNING)"

definition on_cpu :: "nat \<Rightarrow> 'x kstate_scheme \<Rightarrow> bool" where
  "on_cpu c s \<longleftrightarrow> proc_ok s \<and> cur s = Some c"

definition embryo :: "nat \<Rightarrow> nat \<Rightarrow> 'x kstate_scheme \<Rightarrow> bool" where
  "embryo i c s \<longleftrightarrow> on_cpu c s \<and> i < NPROC \<and> p_state (procs s i) = EMBRYO"

definition child :: "nat \<Rightarrow> nat \<Rightarrow> 'x kstate_scheme \<Rightarrow> bool" where
  "child i c s \<longleftrightarrow> embryo i c s \<and> p_parent (procs s i) = Some c"

definition corpse :: "nat \<Rightarrow> nat \<Rightarrow> 'x kstate_scheme \<Rightarrow> bool" where
  "corpse i c s \<longleftrightarrow> on_cpu c s \<and> i < NPROC \<and> p_state (procs s i) = ZOMBIE"

lemmas proc_inv_defs = child_def embryo_def corpse_def on_cpu_def proc_ok_def

text \<open>An invariant that reads only what \<open>pview\<close> shows of the table.\<close>

definition view_inv :: "('x kstate_scheme \<Rightarrow> bool) \<Rightarrow> bool" where
  "view_inv I \<longleftrightarrow> (\<forall>s t. (\<forall>i. pview (procs t i) = pview (procs s i)) \<longrightarrow> nextpid t = nextpid s \<longrightarrow> initproc t = initproc s \<longrightarrow> cur t = cur s \<longrightarrow> I s \<longrightarrow> I t)"

lemma view_invD: "view_inv I \<Longrightarrow> (\<And>i. pview (procs t i) = pview (procs s i)) \<Longrightarrow> nextpid t = nextpid s \<Longrightarrow> initproc t = initproc s \<Longrightarrow> cur t = cur s \<Longrightarrow> I s \<Longrightarrow> I t"
  unfolding view_inv_def by blast

lemma pview_fields: "pview p = pview q \<Longrightarrow> p_state p = p_state q \<and> p_parent p = p_parent q \<and> p_pid p = p_pid q \<and> p_chan p = p_chan q"
  by (simp add: pview_def)

lemma view_inv_proc_ok: "view_inv (proc_ok :: 'x kstate_scheme \<Rightarrow> bool)"
  unfolding view_inv_def
proof (intro allI impI)
  fix s t :: "'x kstate_scheme"
  assume v: "\<forall>i. pview (procs t i) = pview (procs s i)" and e: "nextpid t = nextpid s" "initproc t = initproc s" "cur t = cur s" and s: "proc_ok s"
  have "table_ok (procs t) (nextpid t) (initproc t)" using s e table_ok_view [of "procs t" "procs s"] v by (simp add: proc_ok_def)
  moreover have "p_state (procs t c) = p_state (procs s c)" for c using pview_fields [OF v [rule_format]] by simp
  ultimately show "proc_ok t" using s e by (simp add: proc_ok_def split: option.splits)
qed

lemma view_inv_on_cpu: "view_inv (on_cpu c)"
  unfolding view_inv_def on_cpu_def
proof (intro allI impI, elim conjE)
  fix s t :: "'x kstate_scheme"
  assume v: "\<forall>i. pview (procs t i) = pview (procs s i)" and e: "nextpid t = nextpid s" "initproc t = initproc s" "cur t = cur s" "proc_ok s" "cur s = Some c"
  show "proc_ok t \<and> cur t = Some c" using view_invD [OF view_inv_proc_ok v [rule_format] e(1-4)] e(3,5) by simp
qed

lemma view_inv_and: "view_inv I \<Longrightarrow> view_inv (\<lambda>s. I s \<and> p_state (procs s i) = st)"
  unfolding view_inv_def using pview_fields by metis

lemma view_inv_parent: "view_inv I \<Longrightarrow> view_inv (\<lambda>s. I s \<and> p_parent (procs s i) = st)"
  unfolding view_inv_def using pview_fields by metis

lemma view_inv_const: "view_inv I \<Longrightarrow> view_inv (\<lambda>s. I s \<and> (b::bool))"
  unfolding view_inv_def by blast

lemma view_inv_embryo: "view_inv (embryo i c)" and view_inv_corpse: "view_inv (corpse i c)"
  using view_inv_and [OF view_inv_const [OF view_inv_on_cpu [of c], of "i < NPROC"], of i]
  by (simp_all add: embryo_def [abs_def] corpse_def [abs_def] conj_ac)

lemma view_inv_child: "view_inv (child i c)"
  using view_inv_parent [OF view_inv_embryo] by (simp add: child_def [abs_def])

lemmas view_invs = view_inv_proc_ok view_inv_on_cpu view_inv_embryo view_inv_child view_inv_corpse

lemma keeps_view_lower: "view_inv (I :: 'x kstate_scheme \<Rightarrow> bool) \<Longrightarrow> lower m \<Longrightarrow> keeps I m"
proof (rule keeps_lower)
  fix s t :: "'x kstate_scheme"
  assume "view_inv I" "fstate.more s = fstate.more t" "I s"
  moreover have "procs s = procs t" "nextpid s = nextpid t" "initproc s = initproc t" "cur s = cur t"
    using \<open>fstate.more s = fstate.more t\<close> by (cases s, cases t, simp)+
  ultimately show "I t" using view_invD [of I t s] by simp
qed

lemma keeps_view_kmem: "view_inv I \<Longrightarrow> keeps I (on_kmem m)"
proof (rule keepsI)
  fix s assume I: "view_inv I" "I s"
  have "I (s\<lparr>km := t\<rparr>)" for t by (rule view_invD [OF I(1) _ _ _ _ I(2)]) simp_all
  then show "case on_kmem m s of Done x t \<Rightarrow> I t | Panic _ \<Rightarrow> True | Sleep c t \<Rightarrow> I t"
    by (simp add: on_kmem_def split: result.splits)
qed

lemma keeps_view_setproc: "view_inv I \<Longrightarrow> (\<And>p. pview (f p) = pview p) \<Longrightarrow> keeps I (kmod (setproc i f))"
  by (rule keeps_kmod, erule view_invD) auto

lemma keeps_view_setproc': "view_inv I \<Longrightarrow> (\<And>s p. pview (f s p) = pview p) \<Longrightarrow> keeps I (kmod (\<lambda>s. setproc i (f s) s))"
  by (rule keeps_kmod, erule view_invD) auto

lemma keeps_view_setfile: "view_inv I \<Longrightarrow> keeps I (kmod (setfile i f))" and keeps_view_setpipe: "view_inv I \<Longrightarrow> keeps I (kmod (setpipe j q))"
  by (rule keeps_kmod; erule view_invD; simp add: setfile_def setpipe_def)+

lemmas keeps_view = keeps_view_lower keeps_view_kmem keeps_view_setproc keeps_view_setproc' keeps_view_setfile keeps_view_setpipe

lemma proc_ok_wakeup: "proc_ok s \<Longrightarrow> proc_ok (s\<lparr>procs := wakeup1 c (procs s)\<rparr>)"
proof -
  assume s: "proc_ok s"
  have "p_state (wakeup1 c (procs s) k) = RUNNING" if "p_state (procs s k) = RUNNING" for k using that by (simp add: wakeup1_def)
  then show ?thesis using s table_ok_wakeup [of "procs s"] by (simp add: proc_ok_def split: option.splits)
qed

lemma on_cpu_wakeup: "on_cpu c' s \<Longrightarrow> on_cpu c' (s\<lparr>procs := wakeup1 c (procs s)\<rparr>)"
  using proc_ok_wakeup [of s c] by (simp add: on_cpu_def)

lemma keeps_wakeup: "keeps proc_ok (wakeup c)" "keeps (on_cpu c') (wakeup c)"
  unfolding wakeup_def by (rule keeps_kmod; simp add: proc_ok_wakeup on_cpu_wakeup)+

lemma keeps_filedup: "view_inv I \<Longrightarrow> keeps I (filedup i)"
  unfolding filedup_def by (intro keeps_rules keeps_view_setfile) auto

text \<open>The invariant of \<^verbatim>\<open>exit\<close>: a process other than init runs.\<close>

definition exiting :: "nat \<Rightarrow> 'x kstate_scheme \<Rightarrow> bool" where
  "exiting c s \<longleftrightarrow> on_cpu c s \<and> initproc s \<noteq> Some c"

lemma view_inv_exiting: "view_inv (exiting c)"
  unfolding view_inv_def exiting_def
proof (intro allI impI, elim conjE)
  fix s t :: "'x kstate_scheme"
  assume v: "\<forall>i. pview (procs t i) = pview (procs s i)" and e: "nextpid t = nextpid s" "initproc t = initproc s" "cur t = cur s" "on_cpu c s" "initproc s \<noteq> Some c"
  show "on_cpu c t \<and> initproc t \<noteq> Some c" using view_invD [OF view_inv_on_cpu v [rule_format] e(1-4)] e(2,5) by simp
qed

lemma keeps_wakeup_exiting: "keeps (exiting c) (wakeup ch)"
  unfolding wakeup_def exiting_def by (rule keeps_kmod) (simp add: on_cpu_wakeup)

lemma keeps_fileclose: "view_inv I \<Longrightarrow> (\<And>ch. keeps I (wakeup ch)) \<Longrightarrow> keeps I (fileclose i)"
  unfolding fileclose_def kpipeclose_def
  by (intro keeps_rules keeps_view_setfile keeps_view_setpipe keeps_view_kmem keeps_view_lower [OF _ lower_begin_op]
      keeps_view_lower [OF _ lower_end_op] keeps_view_lower [OF _ lower_iput])

text \<open>\<^verbatim>\<open>allocproc\<close> gives a fresh entry, or leaves the table as good as it was.\<close>

lemma triple_allocproc: "triple (on_cpu c) allocproc (\<lambda>r s. case r of None \<Rightarrow> on_cpu c s | Some i \<Rightarrow> embryo i c s) proc_ok"
proof -
  have find: "i < NPROC \<and> p_state (procs s i) = UNUSED" if "find (\<lambda>i. p_state (procs s i) = UNUSED) [0..<NPROC] = Some i" for s :: "'a kstate_scheme" and i
    using that by (auto simp: find_Some_iff)
  have new: "embryo i c ((setproc i (\<lambda>p. p\<lparr>p_state := EMBRYO, p_pid := nextpid s\<rparr>) s)\<lparr>nextpid := nextpid s + 1\<rparr>)"
    if s: "on_cpu c s" and i: "i < NPROC" "p_state (procs s i) = UNUSED" for s :: "'a kstate_scheme" and i
    using s i table_ok_new [of "procs s" "nextpid s" "initproc s" i] by (auto simp: proc_inv_defs)
  have undo: "on_cpu c (setproc i (\<lambda>p. p\<lparr>p_state := UNUSED\<rparr>) s)" if "embryo i c s" for s :: "'a kstate_scheme" and i
    using that table_ok_free [of "procs s" "nextpid s" "initproc s" i] by (auto simp: proc_inv_defs live_def)
  have w: "proc_ok s" if "embryo i c s" for s :: "'a kstate_scheme" and i using that by (simp add: embryo_def on_cpu_def)
  show ?thesis unfolding allocproc_def
    apply (rule triple_get_same)
    subgoal for r
      apply (cases r; simp)
       apply (rule triple_kret, simp)
      subgoal for i
        apply (rule triple_kseq [OF triple_kmod [where Q'' = "\<lambda>_. embryo i c"]])
        using new find apply blast
        apply (rule triple_kbind [OF triple_keeps [OF keeps_view_kmem [OF view_inv_embryo] w]], assumption)
        apply (rule triple_kseq [OF triple_keeps [OF keeps_view_setproc [OF view_inv_embryo] w]], simp add: pview_def, assumption)
        subgoal for k
          apply (cases "k = 0"; simp)
           apply (rule triple_kseq [OF triple_kmod [where Q'' = "\<lambda>_. on_cpu c"]], erule undo, rule triple_kret, simp)
          apply (rule triple_kseq [OF triple_keeps [OF keeps_view_setproc [OF view_inv_embryo] w]], simp add: pview_def, assumption)
          apply (rule triple_kret, simp)
          done
        done
      done
    done
qed

lemma on_cpu_ok: "on_cpu c s \<Longrightarrow> proc_ok s" and embryo_ok: "embryo i c s \<Longrightarrow> proc_ok s" and child_ok: "child i c s \<Longrightarrow> proc_ok s"
  and corpse_ok: "corpse i c s \<Longrightarrow> proc_ok s"
  by (auto simp: child_def embryo_def corpse_def on_cpu_def)

lemma triple_myproc: "(\<And>c. triple (on_cpu c) (k c) Q R) \<Longrightarrow> triple proc_ok (kbind myproc k) Q R"
  unfolding myproc_def triple_def on_cpu_def by (auto simp: kernel_defs split: option.splits)

lemma triple_fork_copy: "triple (embryo i c) (fork_copy c i) (\<lambda>_. proc_ok) proc_ok"
proof -
  have parent: "child i c (setproc i (\<lambda>q. q\<lparr>p_sz := p_sz (procs s c), p_parent := Some c, p_tf := p_tf (procs s c)\<rparr>) s)" if "embryo i c s" for s :: "'a kstate_scheme"
    using that table_ok_embryo [of "procs s" "nextpid s" "initproc s" i] by (auto simp: proc_inv_defs live_def)
  have start: "proc_ok (setproc i (\<lambda>q. q\<lparr>p_state := RUNNABLE\<rparr>) s)" if "child i c s" for s :: "'a kstate_scheme"
    using that table_ok_start [of "procs s" "nextpid s" "initproc s" i _ c] by (auto simp: proc_inv_defs live_def)
  have files: "keeps (child i c) (kfor [0..<NOFILE] (\<lambda>fd. kbind (kget (\<lambda>s. p_ofile (procs s c) fd)) (\<lambda>fo. case fo of None \<Rightarrow> kret ()
        | Some f \<Rightarrow> kbind (filedup f) (\<lambda>g. kmod (setproc i (\<lambda>q. q\<lparr>p_ofile := (p_ofile q)(fd := Some g)\<rparr>))))) :: ('a kstate_scheme, unit) kmon)"
    by (intro keeps_rules keeps_filedup keeps_view_setproc view_invs) (simp_all add: pview_def)
  note step = triple_kseq [OF triple_keeps [OF _ child_ok]] and bind = triple_kbind [OF triple_keeps [OF _ child_ok]]
  show ?thesis unfolding fork_copy_def
    apply (rule triple_kseq [OF triple_kmod [where Q'' = "\<lambda>_. child i c"]], erule parent)
    apply (rule step [OF keeps_view_setproc [OF view_inv_child]], simp add: pview_def, assumption)
    apply (rule step [OF files], assumption)
    apply (rule bind [OF keeps_kget], assumption)
    subgoal for d
      apply (cases d; simp add: triple_kpanic)
      apply (rule bind [OF keeps_view_lower [OF view_inv_child lower_idup]], assumption)
      apply (rule step [OF keeps_view_setproc [OF view_inv_child]], simp add: pview_def, assumption)
      apply (rule step [OF keeps_view_setproc' [OF view_inv_child]], simp add: pview_def, assumption)
      apply (rule bind [OF keeps_kget], assumption)
      apply (rule triple_kseq [OF triple_kmod], erule start, rule triple_kret, simp)
      done
    done
qed

lemma triple_fork: "triple proc_ok fork (\<lambda>_. proc_ok) proc_ok"
proof -
  have undo: "proc_ok (setproc i (\<lambda>q. q\<lparr>p_kstack := 0, p_state := UNUSED\<rparr>) s)" if "embryo i c s" for s :: "'a kstate_scheme" and i c
    using that table_ok_free [of "procs s" "nextpid s" "initproc s" i] by (auto simp: proc_inv_defs live_def)
  have u: "triple (embryo i c) (fork_undo i :: ('a kstate_scheme, int) kmon) (\<lambda>_. proc_ok) proc_ok" for i c
    unfolding fork_undo_def
    by (rule triple_kbind [OF triple_keeps [OF keeps_kget embryo_ok]], assumption,
        rule triple_kseq [OF triple_keeps [OF keeps_view_kmem [OF view_inv_embryo] embryo_ok]], assumption,
        rule triple_kseq [OF triple_kmod], erule undo, rule triple_kret, assumption)
  note bind = triple_kbind [OF triple_keeps [OF _ embryo_ok]]
  show ?thesis unfolding fork_def
    apply (rule triple_myproc)
    apply (rule triple_kbind [OF triple_allocproc])
    subgoal for c r
      apply (cases r; simp)
       apply (rule triple_kret, erule on_cpu_ok)
      apply (rule bind [OF keeps_kget], assumption)
      apply (split prod.split, intro allI impI)
      apply (rule bind [OF keeps_view_kmem [OF view_inv_embryo]], assumption)
      apply (rule triple_kseq [OF triple_keeps [OF keeps_view_setproc [OF view_inv_embryo] embryo_ok]], simp add: pview_def, assumption)
      apply (simp add: u triple_fork_copy)
      done
    done
qed

lemma triple_sched: "triple P (sched ch) Q R" if "\<And>s c. P s \<Longrightarrow> cur s = Some c \<Longrightarrow> p_state (procs s c) \<noteq> RUNNING \<Longrightarrow> R (setproc c (\<lambda>q. q\<lparr>p_context := AfterSwtch\<rparr>) s)"
  using that unfolding triple_def sched_def myproc_def by (auto simp: kernel_defs split: option.splits)

text \<open>Between \<^verbatim>\<open>exit\<close>'s last step and the switch the current entry is not running any more.\<close>

definition tab_ok :: "'x kstate_scheme \<Rightarrow> bool" where
  "tab_ok s \<longleftrightarrow> table_ok (procs s) (nextpid s) (initproc s)"

lemma tab_ok_context: "tab_ok s \<Longrightarrow> tab_ok (setproc c (\<lambda>q. q\<lparr>p_context := AfterSwtch\<rparr>) s)"
  unfolding tab_ok_def using table_ok_view [of "procs (setproc c (\<lambda>q. q\<lparr>p_context := AfterSwtch\<rparr>) s)" "procs s"] by (simp add: pview_def)

lemma proc_ok_tab: "proc_ok s \<Longrightarrow> tab_ok s"
  by (simp add: proc_ok_def tab_ok_def)

lemma triple_exit: "triple proc_ok exit (\<lambda>_. proc_ok) tab_ok"
proof -
  have t: "tab_ok s" if "exiting c s" for s :: "'a kstate_scheme" and c using that by (simp add: exiting_def on_cpu_def proc_ok_tab)
  have close: "keeps (exiting c) (close_all c :: ('a kstate_scheme, unit) kmon)" for c
    unfolding close_all_def by (intro keeps_rules keeps_fileclose keeps_wakeup_exiting keeps_view_setproc view_inv_exiting) (simp_all add: pview_def)
  have drop: "keeps (exiting c) (drop_cwd c :: ('a kstate_scheme, unit) kmon)" for c
    unfolding drop_cwd_def
    by (intro keeps_rules keeps_view_lower [OF _ lower_begin_op] keeps_view_lower [OF _ lower_end_op] keeps_view_lower [OF _ lower_iput]
        keeps_view_setproc view_inv_exiting) (simp_all add: pview_def)
  have zombie: "tab_ok (become_zombie c s)" if "exiting c s" for s :: "'a kstate_scheme" and c
  proof -
    have "nextpid (become_zombie c s) = nextpid s" by (simp add: become_zombie_def Let_def)
    then show ?thesis using that table_ok_zombie [of s "nextpid s" c] by (auto simp: exiting_def on_cpu_def proc_ok_def tab_ok_def live_def)
  qed
  show ?thesis unfolding exit_def
    apply (rule triple_myproc)
    apply (rule triple_get_same)
    subgoal for c i
      apply (cases "i = Some c"; simp add: triple_kpanic)
      apply (rule triple_kseq [OF triple_pre [OF triple_keeps [OF close [of c]]]], erule t, auto simp: exiting_def) []
      apply (rule triple_kseq [OF triple_keeps [OF drop]], erule t)
      apply (rule triple_kseq [OF triple_kmod], erule zombie)
      apply (rule triple_sched, erule tab_ok_context)
      done
    done
qed

lemma find_slot: "find p [0..<n] = Some i \<Longrightarrow> i < n \<and> p i" and find_slot_None: "find p [0..<n] = None \<Longrightarrow> i < n \<Longrightarrow> \<not> p i"
  by (auto simp: find_Some_iff find_None_iff)

lemma triple_reap: "triple (corpse i c) (reap i) (\<lambda>_. on_cpu c) tab_ok"
proof -
  have t: "tab_ok s" if "corpse i c s" for s :: "'a kstate_scheme" using that by (simp add: corpse_def on_cpu_def proc_ok_tab)
  have free: "on_cpu c (setproc i (\<lambda>q. q\<lparr>p_pid := 0, p_parent := None, p_name := (p_name q)(0 := 0), p_killed := False, p_state := UNUSED\<rparr>) s)"
    if "corpse i c s" for s :: "'a kstate_scheme"
    using that table_ok_free [of "procs s" "nextpid s" "initproc s" i] by (auto simp: proc_inv_defs live_def)
  show ?thesis unfolding reap_def
    apply (rule triple_kbind [OF triple_keeps [OF keeps_kget]], erule t)
    apply (rule triple_kseq [OF triple_keeps [OF keeps_view_kmem [OF view_inv_corpse]]], erule t)
    apply (rule triple_kseq [OF triple_keeps [OF keeps_view_setproc [OF view_inv_corpse]]], simp add: pview_def, erule t)
    apply (rule triple_kseq [OF triple_keeps [OF keeps_view_kmem [OF view_inv_corpse]]], erule t)
    apply (rule triple_kseq [OF triple_kmod], erule free, rule triple_kret, assumption)
    done
qed

text \<open>A process goes to sleep on a channel of its own only when it has no zombie child.\<close>

lemma triple_sleep:
  assumes "\<And>s. P s \<Longrightarrow> proc_ok s"
    and "\<And>s c j. P s \<Longrightarrow> cur s = Some c \<Longrightarrow> ch = ChanProc c \<Longrightarrow> j < NPROC \<Longrightarrow> p_parent (procs s j) = Some c \<Longrightarrow> p_state (procs s j) \<noteq> ZOMBIE"
  shows "triple P (sleep ch) Q tab_ok"
proof -
  have st: "tab_ok (setproc c (\<lambda>q. q\<lparr>p_chan := Some ch, p_state := SLEEPING\<rparr>) s)" if s: "P s" "cur s = Some c" for s c
  proof -
    have "table_ok ((procs s)(c := (procs s c)\<lparr>p_chan := Some ch, p_state := SLEEPING\<rparr>)) (nextpid s) (initproc s)"
      by (rule table_ok_live) (use assms(1) [OF s(1)] assms(2) [OF s] s in \<open>auto simp: proc_ok_def live_def\<close>)
    then show ?thesis by (simp add: tab_ok_def)
  qed
  show ?thesis unfolding sleep_def
    apply (rule triple_get_same)
    subgoal for c
      apply (cases c; simp add: triple_kpanic)
      apply (rule triple_kseq [OF triple_kmod [where Q'' = "\<lambda>_. tab_ok"]])
      using st apply blast
      apply (rule triple_sched, erule tab_ok_context)
      done
    done
qed

lemma triple_wait: "triple proc_ok wait (\<lambda>_. proc_ok) tab_ok"
  unfolding wait_def
proof (rule triple_myproc, rule triple_get_same)
  fix c ps
  let ?P = "\<lambda>s. on_cpu c s \<and> procs s = ps" and ?f = "find (\<lambda>i. p_parent (ps i) = Some c \<and> p_state (ps i) = ZOMBIE) [0..<NPROC]"
  show "triple ?P (case ?f of Some i \<Rightarrow> reap i
     | None \<Rightarrow> if (\<forall>i\<in>set [0..<NPROC]. p_parent (ps i) \<noteq> Some c) \<or> p_killed (ps c) then kret (- 1) else sleep (ChanProc c)) (\<lambda>_. proc_ok) tab_ok"
  proof (cases ?f)
    case None
    have "triple ?P (sleep (ChanProc c)) (\<lambda>_. proc_ok) tab_ok"
      by (rule triple_sleep) (use find_slot_None [OF None] in \<open>auto simp: on_cpu_def\<close>)
    then show ?thesis using None by (auto intro: triple_kret on_cpu_ok)
  next
    case (Some i)
    have "triple ?P (reap i) (\<lambda>_. proc_ok) tab_ok"
      by (rule triple_pre [OF triple_post [OF triple_reap [of i c]]]) (use find_slot [OF Some] in \<open>auto simp: corpse_def intro: on_cpu_ok\<close>)
    then show ?thesis using Some by simp
  qed
qed

lemma proc_ok_live:
  assumes s: "proc_ok s" and i: "i < NPROC" "live (p_state (procs s i))" "p_state (f (procs s i)) = RUNNABLE \<or> p_state (f (procs s i)) = RUNNING"
    "p_pid (f (procs s i)) = p_pid (procs s i)" "p_parent (f (procs s i)) = p_parent (procs s i)"
  shows "tab_ok (setproc i f s)"
proof -
  have "table_ok ((procs s)(i := f (procs s i))) (nextpid s) (initproc s)"
    by (rule table_ok_live) (use assms in \<open>auto simp: proc_ok_def live_def\<close>)
  then show ?thesis by (simp add: tab_ok_def)
qed

lemma triple_kill: "triple proc_ok (kill pid) (\<lambda>_. proc_ok) tab_ok"
proof -
  have wake: "proc_ok (setproc i (\<lambda>p. if p_state p = SLEEPING then p\<lparr>p_state := RUNNABLE\<rparr> else p) s)"
    if "proc_ok s \<and> i < NPROC" for s :: "'a kstate_scheme" and i
  proof (cases "p_state (procs s i) = SLEEPING")
    case True
    then have "tab_ok (setproc i (\<lambda>p. if p_state p = SLEEPING then p\<lparr>p_state := RUNNABLE\<rparr> else p) s)"
      by (intro proc_ok_live) (use that in \<open>auto simp: live_def\<close>)
    then show ?thesis using that True by (auto simp: proc_ok_def tab_ok_def split: option.splits)
  next
    case False
    then have "pview (procs (setproc i (\<lambda>p. if p_state p = SLEEPING then p\<lparr>p_state := RUNNABLE\<rparr> else p) s) k) = pview (procs s k)" for k by simp
    from view_invD [OF view_inv_proc_ok this] show ?thesis using that by simp
  qed
  have t: "tab_ok s" if "proc_ok s \<and> i < NPROC" for s :: "'a kstate_scheme" and i using that proc_ok_tab by blast
  show ?thesis unfolding kill_def
    apply (rule triple_get_same)
    subgoal for r
      apply (cases r; simp)
       apply (rule triple_kret, simp)
      subgoal for i
        apply (rule triple_kseq [OF triple_pre [OF triple_keeps [OF keeps_view_setproc [OF view_inv_const [OF view_inv_proc_ok, of "i < NPROC"]]]]])
           apply (simp add: pview_def)
          apply (erule t)
         apply (auto dest: find_slot) []
        apply (rule triple_kseq [OF triple_kmod], erule wake, rule triple_kret, assumption)
        done
      done
    done
qed

lemma triple_yield: "triple proc_ok yield Q tab_ok"
  unfolding yield_def
  apply (rule triple_myproc)
  apply (rule triple_kseq [OF triple_kmod [where Q'' = "\<lambda>_. tab_ok"]])
   apply (rule proc_ok_live; auto simp: on_cpu_def proc_ok_def live_def)
  apply (rule triple_sched, erule tab_ok_context)
  done

section \<open>All runs of the processes\<close>

text \<open>
  What a process can ask of the process layer; \<open>CSleep\<close> is the sleep of another layer, on a channel
  that is not a process. A step is a call of the running process or a pick of the scheduler; a
  call that ends in \<open>Sleep\<close> has gone back to the scheduler.
\<close>

datatype proc_call = CFork | CExit | CWait | CKill int | CYield | CSleep chan | CWakeup chan | CGrow int | CResume

definition run_call :: "proc_call \<Rightarrow> ('x kstate_scheme, unit) kmon" where
  "run_call r = (case r of CFork \<Rightarrow> kbind fork (\<lambda>_. kret ()) | CExit \<Rightarrow> exit | CWait \<Rightarrow> kbind wait (\<lambda>_. kret ())
     | CKill pid \<Rightarrow> kbind (kill pid) (\<lambda>_. kret ()) | CYield \<Rightarrow> yield | CSleep c \<Rightarrow> (if \<exists>p. c = ChanProc p then kret () else sleep c)
     | CWakeup c \<Rightarrow> wakeup c | CGrow n \<Rightarrow> kbind (growproc n) (\<lambda>_. kret ()) | CResume \<Rightarrow> after_sleep)"

inductive proc_step :: "'x kstate_scheme \<Rightarrow> 'x kstate_scheme \<Rightarrow> bool" where
  call_done: "cur s = Some c \<Longrightarrow> run_call r s = Done () t \<Longrightarrow> proc_step s t"
| call_switch: "cur s = Some c \<Longrightarrow> run_call r s = Sleep ch t \<Longrightarrow> sched_return t = Done () u \<Longrightarrow> proc_step s u"
| pick: "cur s = None \<Longrightarrow> schedule k s = Done r t \<Longrightarrow> proc_step s t"

lemma keeps_growproc: "view_inv I \<Longrightarrow> keeps I (growproc n)"
  unfolding growproc_def myproc_def switchuvm_def Let_def by (intro keeps_rules keeps_view_kmem keeps_view_setproc) (simp_all add: pview_def)

lemma keeps_after_sleep: "keeps proc_ok after_sleep"
proof -
  have "proc_ok (setproc c (\<lambda>q. q\<lparr>p_chan := None\<rparr>) s)" if "on_cpu c s" for s :: "'a kstate_scheme" and c
    using that table_ok_live [of "procs s" "nextpid s" "initproc s" c "(procs s c)\<lparr>p_chan := None\<rparr>"]
    by (auto simp: on_cpu_def proc_ok_def live_def)
  then show ?thesis by (auto simp: after_sleep_def myproc_def keeps_def kernel_defs on_cpu_def split: option.splits)
qed

lemma triple_unit: "triple P m (\<lambda>_. Q) R \<Longrightarrow> triple P (kbind m (\<lambda>_. kret ())) (\<lambda>_. Q) R"
  by (erule triple_kbind) (rule triple_kret)

lemma triple_calls: "triple proc_ok (run_call r) (\<lambda>_. proc_ok) tab_ok"
proof -
  have f: "triple proc_ok (fork :: ('a kstate_scheme, int) kmon) (\<lambda>_. proc_ok) tab_ok"
    by (rule triple_switch [OF triple_fork proc_ok_tab])
  have s: "triple proc_ok (sleep c :: ('a kstate_scheme, unit) kmon) (\<lambda>_. proc_ok) tab_ok" if "\<And>p. c \<noteq> ChanProc p" for c
    by (rule triple_sleep) (use that in auto)
  show ?thesis
  proof (cases r)
    case CFork
    then show ?thesis using triple_unit [OF f] by (simp add: run_call_def)
  next
    case CExit
    then show ?thesis using triple_exit by (simp add: run_call_def)
  next
    case CWait
    then show ?thesis using triple_unit [OF triple_wait] by (simp add: run_call_def)
  next
    case (CKill pid)
    then show ?thesis using triple_unit [OF triple_kill] by (simp add: run_call_def)
  next
    case CYield
    then show ?thesis using triple_yield by (simp add: run_call_def)
  next
    case (CSleep c)
    then show ?thesis using s [of c] triple_kret by (auto simp: run_call_def)
  next
    case (CWakeup c)
    then show ?thesis using triple_keeps [OF keeps_wakeup(1) proc_ok_tab] by (simp add: run_call_def)
  next
    case (CGrow n)
    then show ?thesis using triple_unit [OF triple_keeps [OF keeps_growproc [OF view_inv_proc_ok] proc_ok_tab]] by (simp add: run_call_def)
  next
    case CResume
    then show ?thesis using triple_keeps [OF keeps_after_sleep proc_ok_tab] by (simp add: run_call_def)
  qed
qed

lemma schedule_ok: "cur s = None \<Longrightarrow> proc_ok s \<Longrightarrow> schedule k s = Done r t \<Longrightarrow> proc_ok t"
proof -
  assume c: "cur s = None" and s: "proc_ok s" and r: "schedule k s = Done r t"
  show ?thesis
  proof (cases "find (\<lambda>i. p_state (procs s i) = RUNNABLE) [k..<NPROC]")
    case None
    then show ?thesis using s r by (simp add: schedule_def kernel_defs)
  next
    case (Some i)
    then have i: "i < NPROC" "p_state (procs s i) = RUNNABLE" by (auto simp: find_Some_iff nth_append)
    then have "tab_ok (setproc i (\<lambda>p. p\<lparr>p_state := RUNNING\<rparr>) s)" using s by (intro proc_ok_live) (auto simp: live_def)
    then show ?thesis using r i unfolding schedule_def by (auto simp: Some switchuvm_def kernel_defs tab_ok_def proc_ok_def split: if_splits)
  qed
qed

lemma proc_step_ok: "proc_step s t \<Longrightarrow> proc_ok s \<Longrightarrow> proc_ok t"
proof (induction rule: proc_step.induct)
  case (call_done s c r t)
  then show ?case using triple_calls [of r] by (auto simp: triple_def split: result.splits)
next
  case (call_switch s c r ch t u)
  then have "tab_ok t" using triple_calls [of r] by (force simp: triple_def split: result.splits)
  then show ?case using call_switch by (auto simp: sched_return_def kernel_defs proc_ok_def tab_ok_def)
next
  case (pick s k r t)
  then show ?case using schedule_ok by blast
qed


text \<open>Init, asleep in \<^verbatim>\<open>wait\<close>, and a child that runs: the child kills init, which wakes it up.\<close>

definition demo_procs :: kstate where
  "demo_procs = demo_k\<lparr>procs := (\<lambda>i. if i = 0 then no_proc\<lparr>p_state := SLEEPING, p_pid := 1, p_chan := Some (ChanProc 0)\<rparr>
      else if i = 1 then no_proc\<lparr>p_state := RUNNING, p_pid := 2, p_parent := Some 0\<rparr> else no_proc),
     nextpid := 3, initproc := Some 0, cur := Some 1\<rparr>"

lemma demo_procs_ok: "table_ok (procs demo_procs) (nextpid demo_procs) (initproc demo_procs)"
  by (rule table_okI [of _ 0]) (auto simp: demo_procs_def no_proc_def live_def NPROC_def waits_def split: if_splits)


text \<open>
  \<^verbatim>\<open>kill(0)\<close> finds a free entry, whose identifier is 0, marks it killed and reports success;
  \<^verbatim>\<open>allocproc\<close> hands that entry out without clearing the mark, so the next process is born killed.
\<close>

theorem kill_zero_marks_free_entry:
  assumes s: "find (\<lambda>i. p_state (procs s i) = UNUSED) [0..<NPROC] = Some i" "p_pid (procs s i) = 0" "\<forall>j<i. p_pid (procs s j) \<noteq> 0"
    and m: "kmem_ready (km s)" "free_pages (km s) (q # qs)"
  shows "wp (kbind (kill 0) (\<lambda>r. kbind allocproc (\<lambda>a. kret (r, a)))) (\<lambda>(r, a) t. r = 0 \<and> a = Some i \<and> p_killed (procs t i)) s"
proof -
  have i: "i < NPROC" "p_state (procs s i) = UNUSED" using find_slot [OF s(1)] by simp_all
  have k: "find (\<lambda>i. p_pid (procs s i) = 0) [0..<NPROC] = Some i"
    unfolding find_Some_iff by (rule exI [of _ i]) (simp add: i s(2,3) less_trans [OF _ i(1)])
  let ?s = "setproc i (\<lambda>p. p\<lparr>p_killed := True\<rparr>) s"
  let ?t = "(setproc i (\<lambda>p. p\<lparr>p_state := EMBRYO, p_pid := nextpid ?s\<rparr>) ?s)\<lparr>nextpid := nextpid ?s + 1\<rparr>"
  have "kill 0 s = Done 0 (setproc i (\<lambda>p. if p_state p = SLEEPING then p\<lparr>p_state := RUNNABLE\<rparr> else p) ?s)"
    by (simp add: kill_def k kernel_defs)
  then have kz: "kill 0 s = Done 0 ?s"
  proof -
    have "setproc i (\<lambda>p. if p_state p = SLEEPING then p\<lparr>p_state := RUNNABLE\<rparr> else p) ?s = ?s"
      using i(2) by (simp add: setproc_def)
    then show ?thesis using \<open>kill 0 s = _\<close> by simp
  qed
  have f: "find (\<lambda>i. p_state (procs ?s i) = UNUSED) [0..<NPROC] = Some i" 
  proof -
    have "(\<lambda>k. p_state (procs ?s k) = UNUSED) = (\<lambda>k. p_state (procs s k) = UNUSED)" by (rule ext) simp
    then show ?thesis using s(1) by simp
  qed
  have a: "wp (on_kmem kalloc) (\<lambda>k t. k \<noteq> 0 \<and> procs t = procs ?t) ?t"
    using kalloc_ok [OF m] m(2) page_ok_32 by (auto simp: free_pages_def elim!: wp_conseq)
  have "wp allocproc (\<lambda>a t. a = Some i \<and> p_killed (procs t i)) ?s"
    unfolding allocproc_def wp_kbind wp_kget f option.case wp_kseq wp_kmod
    by (rule wp_conseq [OF a]) simp
  then show ?thesis unfolding wp_kbind wp_kret by (simp only: wp_def [of "kill 0"] kz result.case) simp
qed

theorem kill_zero_marks_free_entry_witness:
  "wp (kbind (kill 0) (\<lambda>r. kbind allocproc (\<lambda>a. kret (r, a)))) (\<lambda>(r, a) t. r = 0 \<and> a = Some 0 \<and> p_killed (procs t 0)) demo_k"
proof (rule kill_zero_marks_free_entry)
  show "find (\<lambda>i. p_state (procs demo_k i) = UNUSED) [0..<NPROC] = Some 0"
    by (simp add: demo_k_sel no_proc_def NPROC_def upt_conv_Cons)
  show "p_pid (procs demo_k 0) = 0" by (simp add: demo_k_sel no_proc_def)
  show "kmem_ready (km demo_k)" "free_pages (km demo_k) [KERNBASE + 4096]"
    using vm_okD(1,2) [OF demo_vm_ok(1)] by (simp_all add: demo_k_sel)
qed simp

end
