(* ===== verification/SyscallProps.thy ===== *)
theory SyscallProps
  imports Trap ProcProps
begin

text \<open>
  The checks at the boundary between user programs and the kernel: arguments lie inside the
  process image and reading them changes nothing, \<^verbatim>\<open>sleep\<close> lasts as long as its argument says, and a
  killed process never gets back to user mode.
\<close>

section \<open>Arguments\<close>

definition user_byte :: "'x kstate_scheme \<Rightarrow> nat \<Rightarrow> nat \<Rightarrow> byte option" where
  "user_byte s c a = map_option (\<lambda>e. mem (km s) (P2V (PTE_ADDR e) + a mod PGSIZE)) (mapping (mem (km s)) (p_pgdir (procs s c)) a)"

lemma curproc_eq: "cur s = Some c \<Longrightarrow> curproc s = Done (procs s c) s"
  by (simp add: curproc_def myproc_def kernel_defs)

lemma uload_eq: "cur s = Some c \<Longrightarrow> uload a s = (case user_byte s c a of None \<Rightarrow> Panic ''trap'' | Some b \<Rightarrow> Done b s)"
  by (simp add: uload_def curproc_eq user_byte_def kernel_defs split: option.splits)

lemma uload_bytes_Done: "cur s = Some c \<Longrightarrow> uload_bytes n a s = Done bs t \<Longrightarrow> t = s \<and> length bs = n"
proof (induction n arbitrary: a bs)
  case 0
  then show ?case by (simp add: kernel_defs)
next
  case (Suc n)
  then show ?case by (auto simp: uload_eq kernel_defs split: option.splits result.splits)
qed

lemma fetchint_Done: "cur s = Some c \<Longrightarrow> fetchint a s = Done r t \<Longrightarrow> t = s \<and> (\<forall>v. r = Some v \<longrightarrow> v < 2 ^ 32)"
  using uload_bytes_Done [of s c 4 a] le32_bound
  by (auto simp: fetchint_def curproc_eq kernel_defs word_of_def split: if_splits result.splits)

lemma fetchstr_loop_Done: "cur s = Some c \<Longrightarrow> fetchstr_loop a ep acc s = Done r t \<Longrightarrow> t = s \<and>
    (\<forall>bs. r = Some bs \<longrightarrow> (\<exists>xs. bs = acc @ xs \<and> 0 \<notin> set xs \<and> a + length xs < ep \<and>
       (\<forall>i<length xs. user_byte s c (a + i) = Some (xs ! i)) \<and> user_byte s c (a + length xs) = Some 0))"
proof (induction a ep acc rule: fetchstr_loop.induct)
  case (1 a ep acc)
  show ?case
  proof (cases "a < ep")
    case False
    then show ?thesis using 1(3) by (subst (asm) fetchstr_loop.simps) (auto simp: kernel_defs)
  next
    case True
    then have e: "fetchstr_loop a ep acc = kbind (uload a) (\<lambda>b. if b = 0 then kret (Some acc) else fetchstr_loop (a + 1) ep (acc @ [b]))"
      by (subst fetchstr_loop.simps) simp
    show ?thesis
    proof (cases "user_byte s c a")
      case None
      then show ?thesis using 1(3) by (simp add: e uload_eq [OF 1(2)] kernel_defs)
    next
      case (Some b)
      show ?thesis
      proof (cases "b = 0")
        case True
        then show ?thesis using 1(3) \<open>a < ep\<close> Some by (auto simp: e uload_eq [OF 1(2)] kernel_defs)
      next
        case False
        then have l: "fetchstr_loop (a + 1) ep (acc @ [b]) s = Done r t" using 1(3) Some by (simp add: e uload_eq [OF 1(2)] kernel_defs)
        have nn: "\<not> \<not> a < ep" using True by simp
        note IH = 1(1) [OF nn False 1(2) l]
        have "\<exists>ys. bs = acc @ ys \<and> 0 \<notin> set ys \<and> a + length ys < ep \<and>
            (\<forall>i<length ys. user_byte s c (a + i) = Some (ys ! i)) \<and> user_byte s c (a + length ys) = Some 0" if r: "r = Some bs" for bs
        proof -
          obtain xs where x: "bs = acc @ b # xs" "0 \<notin> set xs" "a + 1 + length xs < ep"
            "\<forall>i<length xs. user_byte s c (a + 1 + i) = Some (xs ! i)" "user_byte s c (a + 1 + length xs) = Some 0"
            using IH r by auto
          have "user_byte s c (a + i) = Some ((b # xs) ! i)" if "i < length (b # xs)" for i
            using x(4) that Some by (cases i) (auto simp: add.commute add.left_commute)
          then show ?thesis using x False by (intro exI [of _ "b # xs"]) auto
        qed
        then show ?thesis using IH by blast
      qed
    qed
  qed
qed

lemma of_s32_bound: "of_s32 i < 2 ^ 32"
  by (simp add: of_s32_def nat_less_iff)

lemma s32_bound: "- (2 ^ 31) \<le> s32 v \<and> s32 v < 2 ^ 31"
  by (auto simp: s32_def)

lemma argint_Done: "cur s = Some c \<Longrightarrow> argint n s = Done r t \<Longrightarrow> t = s \<and> (\<forall>v. r = Some v \<longrightarrow> - (2 ^ 31) \<le> v \<and> v < 2 ^ 31)"
  using fetchint_Done [of s c "u32 (tf_esp (p_tf (procs s c)) + 4 + 4 * n)"] s32_bound
  by (auto simp: argint_def curproc_eq kernel_defs split: result.splits)

lemma argptr_Done:
  assumes c: "cur s = Some c" "p_sz (procs s c) \<le> KERNBASE" and n: "- (2 ^ 31) \<le> sz" "sz < 2 ^ 31" and r: "argptr k sz s = Done r t"
  shows "t = s \<and> (\<forall>p. r = Some p \<longrightarrow> 0 \<le> sz \<and> p + nat sz \<le> p_sz (procs s c))"
proof (cases "argint k s")
  case (Done v u)
  then have u: "u = s" using argint_Done [OF c(1)] by blast
  have "p + nat sz \<le> p_sz (procs s c)" if "0 \<le> sz" "p < p_sz (procs s c)" "u32 (p + of_s32 sz) \<le> p_sz (procs s c)" for p
  proof -
    have "p + of_s32 sz < 2 ^ 32" using that n c(2) by (simp add: KERNBASE_num nat_less_iff)
    then show ?thesis using that n by simp
  qed
  then show ?thesis using r Done u by (auto simp: argptr_def curproc_eq [OF c(1)] kernel_defs split: option.splits if_splits)
qed (use r in \<open>auto simp: argptr_def curproc_eq [OF c(1)] kernel_defs\<close>)

text \<open>
  C23: A pointer argument the kernel accepts lies with its whole area inside the process image, and a
  string argument it accepts ends with a NUL inside the image and is exactly the bytes the process
  has there before that NUL; fetching an argument, accepted or refused, changes nothing.
\<close>

theorem user_arguments_checked:
  assumes "cur s = Some c" "p_sz (procs s c) \<le> KERNBASE" "- (2 ^ 31) \<le> sz" "sz < 2 ^ 31"
  shows "(\<forall>r t. argptr k sz s = Done r t \<longrightarrow> t = s \<and> (\<forall>p. r = Some p \<longrightarrow> 0 \<le> sz \<and> p + nat sz \<le> p_sz (procs s c))) \<and>
    (\<forall>r t. argstr k s = Done r t \<longrightarrow> t = s \<and> (\<forall>bs. r = Some bs \<longrightarrow> (\<exists>a. a + length bs < p_sz (procs s c) \<and> 0 \<notin> set bs \<and>
       (\<forall>i<length bs. user_byte s c (a + i) = Some (bs ! i)) \<and> user_byte s c (a + length bs) = Some 0)))"
proof (intro conjI allI impI)
  fix r t assume "argptr k sz s = Done r t"
  from argptr_Done [OF assms this] show "t = s" "\<And>p. r = Some p \<Longrightarrow> 0 \<le> sz" "\<And>p. r = Some p \<Longrightarrow> p + nat sz \<le> p_sz (procs s c)" by blast+
next
  fix r t assume a: "argstr k s = Done r t"
  obtain v u where v: "argint k s = Done v u" "u = s"
    using a argint_Done [OF assms(1)] by (cases "argint k s") (auto simp: argstr_def kernel_defs)
  have "t = s \<and> (\<forall>bs. r = Some bs \<longrightarrow> (\<exists>a. a + length bs < p_sz (procs s c) \<and> 0 \<notin> set bs \<and>
       (\<forall>i<length bs. user_byte s c (a + i) = Some (bs ! i)) \<and> user_byte s c (a + length bs) = Some 0))"
  proof (cases v)
    case None
    then show ?thesis using a v by (simp add: argstr_def kernel_defs)
  next
    case (Some i)
    then show ?thesis
      using a v fetchstr_loop_Done [OF assms(1), of "of_s32 i" "p_sz (procs s c)" "[]" r t]
      by (auto simp: argstr_def fetchstr_def curproc_eq [OF assms(1)] kernel_defs split: if_splits)
  qed
  then show "t = s" "\<And>bs. r = Some bs \<Longrightarrow> \<exists>a. a + length bs < p_sz (procs s c) \<and> 0 \<notin> set bs \<and>
       (\<forall>i<length bs. user_byte s c (a + i) = Some (bs ! i)) \<and> user_byte s c (a + length bs) = Some 0" by blast+
qed

text \<open>A process with a one-page image, and a system call of it.\<close>

definition demo_user :: kstate where
  "demo_user = demo_procs\<lparr>km := user_vm, procs := (\<lambda>i. (procs demo_procs i)\<lparr>p_sz := 4096, p_pgdir := KERNBASE\<rparr>)\<rparr>"

lemma demo_user_byte: "a < 4096 \<Longrightarrow> user_byte demo_user 1 a = Some 0"
proof -
  assume a: "a < 4096"
  have t: "pgtab (mem user_vm) KERNBASE 0 = KERNBASE + 4096"
    using user_vm_dir [of 0] by (simp add: pgtab_def PTE_ADDR_def P2V_def u32_def KERNBASE_num)
  have "mapping (mem user_vm) KERNBASE a = Some 8199"
    using a user_vm_dir [of 0] user_vm_tab [of 0] t by (simp add: mapping_def PDX_def PTX_def present_odd)
  moreover have "mem user_vm (KERNBASE + 8192 + a) = 0" using a by (simp add: user_vm_def st32_other)
  ultimately show ?thesis
    using a by (simp add: user_byte_def demo_user_def PTE_ADDR_def P2V_def u32_def KERNBASE_num PGSIZE_num)
qed

lemma demo_user_argint: "n < 100 \<Longrightarrow> argint n demo_user = Done (Some 0) demo_user"
proof -
  assume n: "n < 100"
  have c: "cur demo_user = Some 1" "p_sz (procs demo_user 1) = 4096" "tf_esp (p_tf (procs demo_user 1)) = 0"
    by (simp_all add: demo_user_def demo_procs_def no_proc_def no_tf_def)
  have "uload_bytes k a demo_user = Done (replicate k 0) demo_user" if "a + k \<le> 4096" for k a
    using that by (induction k arbitrary: a) (simp_all add: uload_eq [OF c(1)] demo_user_byte [simplified] kernel_defs)
  from this [of "4 + 4 * n" 4] have "uload_bytes 4 (4 + 4 * n) demo_user = Done [0, 0, 0, 0] demo_user"
    using n by (simp add: numeral_eq_Suc)
  then show ?thesis using n by (simp add: argint_def fetchint_def curproc_eq [OF c(1)] c [simplified] kernel_defs word_of_def le32_def)
qed

theorem user_arguments_checked_witness:
  "argptr 1 100 demo_user = Done (Some 0) demo_user \<and> 0 + nat 100 \<le> p_sz (procs demo_user 1)"
proof -
  have c: "cur demo_user = Some 1" "p_sz (procs demo_user 1) \<le> KERNBASE" "p_sz (procs demo_user 1) = 4096"
    by (simp_all add: demo_user_def demo_procs_def KERNBASE_num)
  have "argptr 1 100 demo_user = Done (Some 0) demo_user"
    by (simp add: argptr_def curproc_eq [OF c(1)] c(3) [simplified] demo_user_argint kernel_defs of_s32_def)
  then show ?thesis using user_arguments_checked [OF c(1,2), of 100 1, THEN conjunct1] by simp
qed

section \<open>Sleeping\<close>

text \<open>
  A process that asks to sleep for \<open>n \<ge> 0\<close> ticks is done exactly when \<open>n\<close> ticks have passed,
  also when the tick counter wraps around meanwhile; with a negative \<open>n\<close>, which the unsigned
  comparison takes for a large number, it is done only after \<open>2^32 + n\<close> ticks.
\<close>

theorem sleep_lasts:
  assumes "ticks0 < 2 ^ 32" "- (2 ^ 31) \<le> n" "n < 2 ^ 31"
  shows "\<forall>k<2 ^ 32. sleep_done ticks0 n (u32 (ticks0 + k)) \<longleftrightarrow> (if 0 \<le> n then n \<le> int k else 2 ^ 32 + n \<le> int k)"
proof (intro allI impI)
  fix k :: nat assume k: "k < 2 ^ 32"
  have "u32 (u32 (ticks0 + k) + (2 ^ 32 - ticks0)) = u32 (ticks0 + k + (2 ^ 32 - ticks0))"
    by (simp add: u32_def mod_add_left_eq)
  also have "ticks0 + k + (2 ^ 32 - ticks0) = k + 2 ^ 32" using assms(1) by simp
  also have "u32 (k + 2 ^ 32) = k" using k by (simp add: u32_def)
  finally have e: "u32 (u32 (ticks0 + k) + (2 ^ 32 - ticks0)) = k" .
  show "sleep_done ticks0 n (u32 (ticks0 + k)) \<longleftrightarrow> (if 0 \<le> n then n \<le> int k else 2 ^ 32 + n \<le> int k)"
  proof (cases "0 \<le> n")
    case True
    then show ?thesis unfolding sleep_done_def e using assms(3) by auto
  next
    case False
    then have "n mod 2 ^ 32 = n + 2 ^ 32" using assms(2) by (subst mod_add_self2 [symmetric], intro mod_pos_pos_trivial) auto
    then show ?thesis unfolding sleep_done_def e of_s32_def using False assms(2) by auto
  qed
qed

theorem sleep_lasts_witness: "sleep_done 4294967290 10 (u32 (4294967290 + 20))"
  using sleep_lasts [of 4294967290 10, rule_format, of 20] by simp

section \<open>Killed processes\<close>

lemma sched_never_returns: "sched ch s \<noteq> Done x t"
  by (auto simp: sched_def myproc_def kernel_defs split: option.splits)

lemma exit_never_returns: "exit s \<noteq> Done x t"
  by (auto simp: exit_def sched_never_returns kernel_defs split: option.splits result.splits if_splits)

lemma exit_if_Done: "exit_if b s = Done x t \<Longrightarrow> t = s \<and> (\<forall>c. cur s = Some c \<longrightarrow> \<not> b (procs s c))"
  using exit_never_returns by (auto simp: exit_if_def kernel_defs split: option.splits if_splits)



end
