(* ===== verification/Console.thy ===== *)
theory Console
  imports File
begin

text \<open>
  The console (\<^verbatim>\<open>console.c\<close>): formatted output to the serial line and the screen, and the line
  discipline of its input, with the keyboard decoder (\<^verbatim>\<open>kbd.c\<close>, \<^verbatim>\<open>kbd.h\<close>), the serial line's
  \<^verbatim>\<open>uartputc\<close> and \<^verbatim>\<open>procdump\<close> of \<^verbatim>\<open>proc.c\<close>. The screen is the array \<open>crt\<close> of character cells with the
  cursor the display controller keeps in its registers 14 and 15; what is sent on the serial line
  is the list \<open>uart_out\<close>. A processor that is stopped for ever is the outcome \<open>Panic\<close>. A key press
  arrives as a list of values that the driver's \<^verbatim>\<open>getc\<close> returns.
\<close>

section \<open>State\<close>

definition INPUT_BUF :: nat where "INPUT_BUF = 128"
definition BACKSPACE :: int where "BACKSPACE = 256"

lemma INPUT_BUF_num [simp]: "INPUT_BUF = 128" and INPUT_BUF_dvd: "INPUT_BUF dvd 2 ^ 32"
  by (simp_all add: INPUT_BUF_def)

record input =
  in_buf :: "nat \<Rightarrow> byte"
  in_r :: uint32
  in_w :: uint32
  in_e :: uint32

record console = input +
  crt :: "nat \<Rightarrow> 16 word"
  cursor :: nat
  uart_on :: bool
  uart_out :: "byte list"
  panicked :: bool

record con_state = kstate +
  con :: console

definition on_con :: "(console, 'a) kmon \<Rightarrow> ('x con_state_scheme, 'a) kmon" where
  "on_con m = (\<lambda>s. case m (con s) of Done x t \<Rightarrow> Done x (s\<lparr>con := t\<rparr>) | Panic e \<Rightarrow> Panic e | Sleep c t \<Rightarrow> Sleep c (s\<lparr>con := t\<rparr>))"

lemma wp_on_con [simp, wp_simps]: "wp (on_con m) Q s = wp m (\<lambda>x t. Q x (s\<lparr>con := t\<rparr>)) (con s)"
  by (simp add: wp_def on_con_def split: result.splits)

section \<open>Output\<close>

text \<open>\<^verbatim>\<open>uartputc\<close> waits for the transmitter at most 128 times and then sends in any case.\<close>

definition uartputc :: "int \<Rightarrow> (console, unit) kmon" where
  "uartputc c = kmod (\<lambda>s. if uart_on s then s\<lparr>uart_out := uart_out s @ [of_int c]\<rparr> else s)"

definition cell :: "int \<Rightarrow> 16 word" where
  "cell c = or (and (of_int c) 0xff) 0x0700"

text \<open>\<^verbatim>\<open>cgaputc\<close>: where the cursor goes, the scrolling, and the whole.\<close>

definition cga_advance :: "int \<Rightarrow> nat \<Rightarrow> nat" where
  "cga_advance c pos = (if c = 10 then pos + (80 - pos mod 80) else if c = BACKSPACE then (if 0 < pos then pos - 1 else pos) else pos + 1)"

definition cga_scroll :: "nat \<Rightarrow> (nat \<Rightarrow> 16 word) \<Rightarrow> nat \<Rightarrow> 16 word" where
  "cga_scroll pos v = (\<lambda>i. if pos \<le> i \<and> i < pos + (24 * 80 - pos) then 0 else if i < 23 * 80 then v (i + 80) else v i)"

definition cgaputc :: "int \<Rightarrow> (console, unit) kmon" where
  "cgaputc c = kbind (kget cursor) (\<lambda>pos0. kbind (kget crt) (\<lambda>v0.
     let pos = cga_advance c pos0;
         v = (if c = 10 \<or> c = BACKSPACE then v0 else v0(pos0 := cell c)) in
     kseq (kmod (\<lambda>s. s\<lparr>crt := v\<rparr>))
     (if 25 * 80 < pos then kpanic ''pos under/overflow''
      else let pos' = (if 24 \<le> pos div 80 then pos - 80 else pos);
               v' = (if 24 \<le> pos div 80 then cga_scroll pos' v else v) in
        kmod (\<lambda>s. s\<lparr>cursor := pos', crt := v'(pos' := cell 32)\<rparr>))))"

definition consputc :: "int \<Rightarrow> (console, unit) kmon" where
  "consputc c = kbind (kget panicked) (\<lambda>p. if p then kpanic '''' else
     kseq (if c = BACKSPACE then kseq (uartputc 8) (kseq (uartputc 32) (uartputc 8)) else uartputc c) (cgaputc c))"

text \<open>
  \<^verbatim>\<open>printint\<close>: the digits of \<open>x\<close> as the loop produces them, the last one first. Callers pass the
  bases 10 and 16; the test of the base only makes the recursion end for a base the code would not
  survive.
\<close>

definition digit_code :: "nat \<Rightarrow> int" where
  "digit_code d = of_char (''0123456789abcdef'' ! d)"

function print_digits :: "nat \<Rightarrow> nat \<Rightarrow> int list" where
  "print_digits base x = digit_code (x mod base) # (if x div base = 0 \<or> base < 2 then [] else print_digits base (x div base))"
  by auto
termination by (relation "measure snd") (auto simp: div_eq_0_iff intro!: div_less_dividend)

declare print_digits.simps [simp del]

definition int_chars :: "nat \<Rightarrow> nat \<Rightarrow> bool \<Rightarrow> int list" where
  "int_chars xx base sign = (let neg = sign \<and> s32 xx < 0; x = (if neg then of_s32 (- s32 xx) else xx) in
     (if neg then [of_char CHR ''-''] else []) @ rev (print_digits base x))"

definition cputs :: "int list \<Rightarrow> (console, unit) kmon" where
  "cputs cs = kfor cs consputc"

definition printint :: "nat \<Rightarrow> nat \<Rightarrow> bool \<Rightarrow> (console, unit) kmon" where
  "printint xx base sign = cputs (int_chars xx base sign)"

text \<open>
  The arguments of \<^verbatim>\<open>cprintf\<close>: words, and pointers to strings (\<open>CStr None\<close> is a null pointer). A
  string is printed up to its terminator; without one the loop does not end. Too few arguments or
  one of the wrong kind is undefined in C.
\<close>

datatype carg = CInt nat | CStr "arr option"

definition cputstr :: "arr \<Rightarrow> (console, unit) kmon" where
  "cputstr s = (case strlen s of None \<Rightarrow> kpanic '''' | Some n \<Rightarrow> cputs (map (\<lambda>i. sint (s i)) [0..<n]))"

definition chars :: "string \<Rightarrow> int list" where
  "chars = map of_char"

fun cprintf :: "int list \<Rightarrow> carg list \<Rightarrow> (console, unit) kmon" where
  "cprintf [] as = kret ()"
| "cprintf (c # fmt) as = (if c \<noteq> of_char CHR ''%'' then kseq (consputc c) (cprintf fmt as) else
     (case fmt of [] \<Rightarrow> kret () | c # fmt \<Rightarrow>
       if c = of_char CHR ''d'' then (case as of CInt x # as \<Rightarrow> kseq (printint x 10 True) (cprintf fmt as) | _ \<Rightarrow> kpanic ''undefined'')
       else if c = of_char CHR ''x'' \<or> c = of_char CHR ''p'' then
         (case as of CInt x # as \<Rightarrow> kseq (printint x 16 False) (cprintf fmt as) | _ \<Rightarrow> kpanic ''undefined'')
       else if c = of_char CHR ''s'' then
         (case as of CStr None # as \<Rightarrow> kseq (cputs (chars ''(null)'')) (cprintf fmt as)
          | CStr (Some s) # as \<Rightarrow> kseq (cputstr s) (cprintf fmt as) | _ \<Rightarrow> kpanic ''undefined'')
       else if c = of_char CHR ''%'' then kseq (consputc (of_char CHR ''%'')) (cprintf fmt as)
       else kseq (consputc (of_char CHR ''%'')) (kseq (consputc c) (cprintf fmt as))))"

definition strarr :: "string \<Rightarrow> arr" where
  "strarr s = (\<lambda>i. if i < length s then of_char (s ! i) else 0)"

text \<open>What \<^verbatim>\<open>panic\<close> prints before it stops the machine; \<open>pcs\<close> is what \<^verbatim>\<open>getcallerpcs\<close> found.\<close>

definition panic_message :: "nat \<Rightarrow> arr \<Rightarrow> nat list \<Rightarrow> (console, unit) kmon" where
  "panic_message lapic msg pcs =
     kseq (cprintf (chars ''lapicid %d: panic: '') [CInt lapic])
     (kseq (case strlen msg of None \<Rightarrow> kpanic '''' | Some n \<Rightarrow> cprintf (map (\<lambda>i. uint (msg i)) [0..<n]) [])
     (kseq (cprintf [10] [])
     (kseq (kfor (take 10 pcs) (\<lambda>pc. cprintf (chars '' %p'') [CInt pc]))
       (kmod (\<lambda>s. s\<lparr>panicked := True\<rparr>)))))"

definition state_name :: "procstate \<Rightarrow> string" where
  "state_name st = (case st of UNUSED \<Rightarrow> ''unused'' | EMBRYO \<Rightarrow> ''embryo'' | SLEEPING \<Rightarrow> ''sleep ''
     | RUNNABLE \<Rightarrow> ''runble'' | RUNNING \<Rightarrow> ''run   '' | ZOMBIE \<Rightarrow> ''zombie'')"

text \<open>\<^verbatim>\<open>procdump\<close>; \<open>pcs p\<close> are the ten words \<^verbatim>\<open>getcallerpcs\<close> stores for a process.\<close>

definition procdump :: "(nat \<Rightarrow> nat list) \<Rightarrow> ('x con_state_scheme, unit) kmon" where
  "procdump pcs = kfor [0..<NPROC] (\<lambda>p. kbind (kget (\<lambda>s. procs s p)) (\<lambda>q.
     if p_state q = UNUSED then kret () else
     kseq (on_con (cprintf (chars ''%d %s %s'') [CInt (of_s32 (p_pid q)), CStr (Some (strarr (state_name (p_state q)))), CStr (Some (p_name q))]))
     (kseq (if p_state q = SLEEPING then kfor (takeWhile (\<lambda>pc. pc \<noteq> 0) (take 10 (pcs p))) (\<lambda>pc. on_con (cprintf (chars '' %p'') [CInt pc])) else kret ())
       (on_con (cprintf [10] [])))))"

section \<open>Input\<close>

definition erase :: "(console, unit) kmon" where
  "erase = kseq (kmod (\<lambda>s. s\<lparr>in_e := in_e s - 1\<rparr>)) (consputc BACKSPACE)"

text \<open>The loop of \<^verbatim>\<open>C('U')\<close>, which moves \<open>in_e\<close> down to \<open>in_w\<close> at most.\<close>

primrec kill_loop :: "nat \<Rightarrow> (console, unit) kmon" where
  "kill_loop 0 = kret ()"
| "kill_loop (Suc k) = kbind (kget (\<lambda>s. in_e s \<noteq> in_w s \<and> in_buf s (unat (in_e s - 1) mod INPUT_BUF) \<noteq> 10)) (\<lambda>b.
     if b then kseq erase (kill_loop k) else kret ())"

definition kill_line :: "(console, unit) kmon" where
  "kill_line = kbind (kget (\<lambda>s. ring_len (in_w s) (in_e s))) kill_loop"

definition backspace :: "(console, unit) kmon" where
  "backspace = kbind (kget (\<lambda>s. in_e s \<noteq> in_w s)) (\<lambda>b. if b then erase else kret ())"

text \<open>The \<^verbatim>\<open>default\<close> case of \<^verbatim>\<open>consoleintr\<close>; the result says whether readers are woken.\<close>

definition input_char :: "int \<Rightarrow> (console, bool) kmon" where
  "input_char c = kbind (kget (\<lambda>s. unat (in_e s - in_r s))) (\<lambda>n.
     if c \<noteq> 0 \<and> n < INPUT_BUF then
       let c = (if c = 13 then 10 else c) in
       kseq (kmod (\<lambda>s. s\<lparr>in_buf := (in_buf s)(unat (in_e s) mod INPUT_BUF := of_int c), in_e := in_e s + 1\<rparr>))
       (kseq (consputc c)
       (kbind (kget (\<lambda>s. in_e s = in_r s + of_nat INPUT_BUF)) (\<lambda>full.
         if c = 10 \<or> c = 4 \<or> full then kseq (kmod (\<lambda>s. s\<lparr>in_w := in_e s\<rparr>)) (kret True) else kret False)))
     else kret False)"

primrec consoleintr_keys :: "int list \<Rightarrow> bool \<Rightarrow> ('x con_state_scheme, bool) kmon" where
  "consoleintr_keys [] dump = kret dump"
| "consoleintr_keys (c # cs) dump = (if c < 0 then kret dump
     else if c = 16 then consoleintr_keys cs True
     else if c = 21 then kseq (on_con kill_line) (consoleintr_keys cs dump)
     else if c = 8 \<or> c = 127 then kseq (on_con backspace) (consoleintr_keys cs dump)
     else kbind (on_con (input_char c)) (\<lambda>w. kseq (if w then wakeup ChanInput else kret ()) (consoleintr_keys cs dump)))"

definition consoleintr :: "(nat \<Rightarrow> nat list) \<Rightarrow> int list \<Rightarrow> ('x con_state_scheme, unit) kmon" where
  "consoleintr pcs cs = kbind (consoleintr_keys cs False) (\<lambda>dump. if dump then procdump pcs else kret ())"

text \<open>
  The loop of \<^verbatim>\<open>consoleread\<close> under the lock: \<open>n\<close> bytes are wanted, \<open>acc\<close> are stored already. It
  returns, fails because the process is killed, or sleeps with the bytes it has.
\<close>

datatype cr_out = CDone "byte list" | CFail "byte list" | CSleep "byte list"

primrec cread_loop :: "bool \<Rightarrow> nat \<Rightarrow> byte list \<Rightarrow> 'x input_scheme \<Rightarrow> 'x input_scheme \<times> cr_out" where
  "cread_loop killed 0 acc s = (s, CDone acc)"
| "cread_loop killed (Suc n) acc s =
     (if in_r s = in_w s then (s, if killed then CFail acc else CSleep acc) else
      let c = in_buf s (unat (in_r s) mod INPUT_BUF); t = s\<lparr>in_r := in_r s + 1\<rparr> in
      if c = 4 then (if acc \<noteq> [] then t\<lparr>in_r := in_r t - 1\<rparr> else t, CDone acc)
      else if c = 10 then (t, CDone (acc @ [c]))
      else cread_loop killed n (acc @ [c]) t)"

definition consoleread_from :: "nat \<Rightarrow> nat \<Rightarrow> byte list \<Rightarrow> ('x con_state_scheme, int \<times> byte list) kmon" where
  "consoleread_from ip n acc = (\<lambda>s. case cread_loop (cur_killed s) n acc (con s) of (c, out) \<Rightarrow>
     (case out of CDone bs \<Rightarrow> kseq (ilock (Some ip)) (kret (int (length bs), bs)) (s\<lparr>con := c\<rparr>)
      | CFail bs \<Rightarrow> kseq (ilock (Some ip)) (kret (- 1, bs)) (s\<lparr>con := c\<rparr>)
      | CSleep bs \<Rightarrow> sleep ChanInput (s\<lparr>con := c\<rparr>)))"

definition consoleread :: "nat \<Rightarrow> nat \<Rightarrow> ('x con_state_scheme, int \<times> byte list) kmon" where
  "consoleread ip n = kseq (iunlock (Some ip)) (consoleread_from ip (nat (s32 n)) [])"

definition consolewrite :: "nat \<Rightarrow> byte list \<Rightarrow> ('x con_state_scheme, int) kmon" where
  "consolewrite ip bs = kseq (iunlock (Some ip)) (kseq (on_con (cputs (map uint bs)))
     (kseq (ilock (Some ip)) (kret (int (length bs)))))"

text \<open>\<^verbatim>\<open>consoleinit\<close> installs the driver in the device switch.\<close>

definition CONSOLE :: int where "CONSOLE = 1"

definition consoleinit :: "'x con_state_scheme devsw \<Rightarrow> 'x con_state_scheme devsw" where
  "consoleinit dv = dv\<lparr>dev_read := (dev_read dv)(CONSOLE \<mapsto> consoleread), dev_write := (dev_write dv)(CONSOLE \<mapsto> consolewrite)\<rparr>"

section \<open>The keyboard\<close>

text \<open>
  The key maps: the initialised entries from 0 on, and the named entries, which the three maps share
  except for the codes of the keypad's Enter and slash. \<^verbatim>\<open>C('/')\<close> is negative and wraps to 239.
\<close>

definition keymap :: "nat list \<Rightarrow> nat \<Rightarrow> nat \<Rightarrow> nat \<Rightarrow> nat" where
  "keymap row ent div_key k = (if k < length row then row ! k else
     case map_of [(156, ent), (181, div_key), (200, 226), (208, 227), (201, 230), (209, 231), (203, 228), (205, 229),
       (151, 224), (207, 225), (210, 232), (211, 233)] k of Some c \<Rightarrow> c | None \<Rightarrow> 0)"

definition normalmap :: "nat \<Rightarrow> nat" where
  "normalmap = keymap
   [0, 27, 49, 50, 51, 52, 53, 54,
    55, 56, 57, 48, 45, 61, 8, 9,
    113, 119, 101, 114, 116, 121, 117, 105,
    111, 112, 91, 93, 10, 0, 97, 115,
    100, 102, 103, 104, 106, 107, 108, 59,
    39, 96, 0, 92, 122, 120, 99, 118,
    98, 110, 109, 44, 46, 47, 0, 42,
    0, 32, 0, 0, 0, 0, 0, 0,
    0, 0, 0, 0, 0, 0, 0, 55,
    56, 57, 45, 52, 53, 54, 43, 49,
    50, 51, 48, 46, 0, 0, 0, 0] 10 47"

definition shiftmap :: "nat \<Rightarrow> nat" where
  "shiftmap = keymap
   [0, 27, 33, 64, 35, 36, 37, 94,
    38, 42, 40, 41, 95, 43, 8, 9,
    81, 87, 69, 82, 84, 89, 85, 73,
    79, 80, 123, 125, 10, 0, 65, 83,
    68, 70, 71, 72, 74, 75, 76, 58,
    34, 126, 0, 124, 90, 88, 67, 86,
    66, 78, 77, 60, 62, 63, 0, 42,
    0, 32, 0, 0, 0, 0, 0, 0,
    0, 0, 0, 0, 0, 0, 0, 55,
    56, 57, 45, 52, 53, 54, 43, 49,
    50, 51, 48, 46, 0, 0, 0, 0] 10 47"

definition ctlmap :: "nat \<Rightarrow> nat" where
  "ctlmap = keymap
   [0, 0, 0, 0, 0, 0, 0, 0,
    0, 0, 0, 0, 0, 0, 0, 0,
    17, 23, 5, 18, 20, 25, 21, 9,
    15, 16, 0, 0, 13, 0, 1, 19,
    4, 6, 7, 8, 10, 11, 12, 0,
    0, 0, 0, 28, 26, 24, 3, 22,
    2, 14, 13, 0, 0, 239, 0, 0] 13 239"

definition shiftcode :: "nat \<Rightarrow> uint32" where
  "shiftcode k = (if k = 0x1D \<or> k = 0x9D then 2 else if k = 0x2A \<or> k = 0x36 then 1 else if k = 0x38 \<or> k = 0xB8 then 4 else 0)"

definition togglecode :: "nat \<Rightarrow> uint32" where
  "togglecode k = (if k = 0x3A then 8 else if k = 0x45 then 16 else if k = 0x46 then 32 else 0)"

definition charcode :: "nat \<Rightarrow> nat \<Rightarrow> nat" where
  "charcode i = [normalmap, shiftmap, ctlmap, ctlmap] ! i"

text \<open>
  \<^verbatim>\<open>kbdgetc\<close> with its static variable \<^verbatim>\<open>shift\<close>. The controller's port gives the next scan code, or
  reports that there is none.
\<close>

definition kbd_data :: "nat \<Rightarrow> uint32 \<Rightarrow> int \<times> uint32" where
  "kbd_data data shift =
    (if data = 0xE0 then (0, or shift 64)
     else if and data 0x80 \<noteq> 0 then
       (let k = (if and shift 64 \<noteq> 0 then data else and data 0x7F) in (0, and shift (not (or (shiftcode k) 64))))
     else let k = (if and shift 64 \<noteq> 0 then or data 0x80 else data);
              sh = (if and shift 64 \<noteq> 0 then and shift (not 64) else shift);
              sh = xor (or sh (shiftcode k)) (togglecode k);
              c = charcode (unat (and sh 3)) k in
       (int (if and sh 8 = 0 then c else if 97 \<le> c \<and> c \<le> 122 then c - 32 else if 65 \<le> c \<and> c \<le> 90 then c + 32 else c), sh))"

definition kbdgetc :: "nat list \<times> uint32 \<Rightarrow> int \<times> nat list \<times> uint32" where
  "kbdgetc = (\<lambda>(port, shift). case port of [] \<Rightarrow> (- 1, [], shift)
     | d # ds \<Rightarrow> (case kbd_data d shift of (c, sh) \<Rightarrow> (c, ds, sh)))"

text \<open>What \<^verbatim>\<open>consoleintr\<close> gets from \<^verbatim>\<open>kbdgetc\<close> while scan codes are pending.\<close>

primrec kbd_chars :: "nat list \<Rightarrow> uint32 \<Rightarrow> int list \<times> uint32" where
  "kbd_chars [] shift = ([], shift)"
| "kbd_chars (d # ds) shift = (case kbd_data d shift of (c, sh) \<Rightarrow> case kbd_chars ds sh of (cs, t) \<Rightarrow> (c # cs, t))"

definition kbdintr :: "(nat \<Rightarrow> nat list) \<Rightarrow> nat list \<Rightarrow> uint32 \<Rightarrow> ('x con_state_scheme, unit) kmon" where
  "kbdintr pcs ds shift = consoleintr pcs (fst (kbd_chars ds shift))"

end
