(* ===== verification/ConsoleProps.thy ===== *)
theory ConsoleProps
  imports Console FileProps
begin

text \<open>
  The console seen through a queue of lines. What has been typed is two byte lists: the bytes readers
  may have, and the line being edited. Key presses and reads do to these lists what a line-buffered
  terminal promises, and the echo of the keys is what the serial line gets; the screen is written
  within its 24 lines only.
\<close>

section \<open>Rings with an edit end\<close>

lemma ring_append:
  assumes "ring_len r w + ring_len w e = ring_len r e"
  shows "ring_list N d r e = ring_list N d r w @ ring_list N d w e"
proof -
  have "r + of_nat (ring_len r w) = w" by (simp add: ring_len_def)
  then have "map (\<lambda>k. d (unat (r + of_nat k) mod N)) [ring_len r w..<ring_len r w + n] = map (\<lambda>k. d (unat (w + of_nat k) mod N)) [0..<n]" for n
    by (intro nth_equalityI) (simp_all add: add.assoc [symmetric])
  then show ?thesis by (simp add: ring_list_def assms [symmetric] upt_add_eq_append [OF le0])
qed

lemma ring_unput:
  assumes "0 < ring_len w e"
  shows "ring_list N d w (e - 1) = butlast (ring_list N d w e)" and "Suc (ring_len w (e - 1)) = ring_len w e"
    and "last (ring_list N d w e) = d (unat (e - 1) mod N)"
proof -
  have "e - w \<noteq> 0" using assms by (auto simp: ring_len_def)
  then have u: "unat (e - w - 1) = unat (e - w) - 1" by (intro unat_minus_one)
  then show l: "Suc (ring_len w (e - 1)) = ring_len w e" using assms by (simp add: ring_len_def diff_right_commute)
  then show "ring_list N d w (e - 1) = butlast (ring_list N d w e)" by (simp add: ring_list_def l [symmetric])
  have "w + of_nat (ring_len w (e - 1)) = e - 1" by (simp add: ring_len_def)
  then show "last (ring_list N d w e) = d (unat (e - 1) mod N)" by (simp add: ring_list_def l [symmetric])
qed

lemma ring_other_slot:
  assumes "N dvd 2 ^ 32" "ring_len r w \<le> ring_len r e" "ring_len r e < N"
  shows "ring_list N (d(unat e mod N := x)) r w = ring_list N d r w"
proof -
  have "r + of_nat (ring_len r e) = e" by (simp add: ring_len_def)
  then have "unat (r + of_nat k :: uint32) mod N \<noteq> unat e mod N" if "k < ring_len r w" for k
    using ring_slots_differ [OF assms(1,3), of k r] that assms(2) by simp
  then show ?thesis by (simp add: ring_list_def)
qed

section \<open>Lines\<close>

definition ready :: "'x input_scheme \<Rightarrow> byte list" where
  "ready s = ring_list INPUT_BUF (in_buf s) (in_r s) (in_w s)"

definition edited :: "'x input_scheme \<Rightarrow> byte list" where
  "edited s = ring_list INPUT_BUF (in_buf s) (in_w s) (in_e s)"

definition input_ok :: "'x input_scheme \<Rightarrow> bool" where
  "input_ok s \<longleftrightarrow> ring_len (in_r s) (in_w s) + ring_len (in_w s) (in_e s) = ring_len (in_r s) (in_e s) \<and>
     ring_len (in_r s) (in_e s) \<le> INPUT_BUF \<and> 10 \<notin> set (edited s)"

type_synonym lines = "byte list \<times> byte list"

definition lines_of :: "'x input_scheme \<Rightarrow> lines" where
  "lines_of s = (ready s, edited s)"

text \<open>What a key does to the lines, and what it echoes.\<close>

definition key_char :: "int \<Rightarrow> byte" where
  "key_char c = (if c = 13 then 10 else of_int c)"

definition key_lines :: "int \<Rightarrow> lines \<Rightarrow> lines" where
  "key_lines c = (\<lambda>(r, e).
     if c = 16 \<or> c = 0 then (r, e) else if c = 21 then (r, []) else if c = 8 \<or> c = 127 then (r, butlast e)
     else if length r + length e < INPUT_BUF then
       (let e' = e @ [key_char c] in
        if key_char c = 10 \<or> key_char c = 4 \<or> length r + length e' = INPUT_BUF then (r @ e', []) else (r, e'))
     else (r, e))"

definition rubout :: "byte list" where "rubout = [8, 32, 8]"

definition key_echo :: "int \<Rightarrow> lines \<Rightarrow> byte list" where
  "key_echo c = (\<lambda>(r, e).
     if c = 16 \<or> c = 0 then [] else if c = 21 then concat (replicate (length e) rubout)
     else if c = 8 \<or> c = 127 then (if e = [] then [] else rubout)
     else if length r + length e < INPUT_BUF then [key_char c] else [])"

primrec keys_lines :: "int list \<Rightarrow> lines \<Rightarrow> lines" where
  "keys_lines [] q = q"
| "keys_lines (c # cs) q = keys_lines cs (key_lines c q)"

primrec keys_echo :: "int list \<Rightarrow> lines \<Rightarrow> byte list" where
  "keys_echo [] q = []"
| "keys_echo (c # cs) q = key_echo c q @ keys_echo cs (key_lines c q)"

text \<open>A read of at most \<open>n\<close> bytes when \<open>acc\<close> has been read before: the outcome and what is left.\<close>

definition line_read :: "bool \<Rightarrow> nat \<Rightarrow> byte list \<Rightarrow> byte list \<Rightarrow> cr_out \<times> byte list" where
  "line_read killed n acc r =
    (let l = takeWhile (\<lambda>b. b \<noteq> 10 \<and> b \<noteq> 4) (take n r); rest = drop (length l) r in
     if length l = n then (CDone (acc @ l), rest)
     else case rest of [] \<Rightarrow> (if killed then CFail (acc @ l) else CSleep (acc @ l), [])
       | b # later \<Rightarrow> if b = 10 then (CDone (acc @ l @ [10]), later)
           else (CDone (acc @ l), if acc @ l = [] then later else b # later))"

section \<open>Output\<close>

definition serial :: "int \<Rightarrow> byte list" where
  "serial c = (if c = BACKSPACE then rubout else [of_int c])"

definition screen_only :: "console \<Rightarrow> console \<Rightarrow> bool" where
  "screen_only s t \<longleftrightarrow> cursor t < 24 * 80 \<and> (\<forall>i \<ge> 24 * 80. crt t i = crt s i) \<and> t = s\<lparr>crt := crt t, cursor := cursor t\<rparr>"

definition shown :: "byte list \<Rightarrow> console \<Rightarrow> console \<Rightarrow> bool" where
  "shown out s = screen_only (s\<lparr>uart_out := uart_out s @ (if uart_on s then out else [])\<rparr>)"

definition output_ok :: "console \<Rightarrow> bool" where
  "output_ok s \<longleftrightarrow> \<not> panicked s \<and> cursor s < 24 * 80"

lemma cga_advance_bound: "pos < 24 * 80 \<Longrightarrow> cga_advance c pos \<le> 24 * 80"
proof -
  assume "pos < 24 * 80"
  then have "pos div 80 < 24" by (simp add: less_mult_imp_div_less)
  moreover have "pos + (80 - pos mod 80) = 80 * (pos div 80) + 80"
    using mult_div_mod_eq [of 80 pos] mod_less_divisor [of 80 pos] by linarith
  ultimately show ?thesis using \<open>pos < 24 * 80\<close> by (auto simp: cga_advance_def)
qed

lemma cga_scroll_out: "24 * 80 \<le> i \<Longrightarrow> pos \<le> 24 * 80 \<Longrightarrow> cga_scroll pos v i = v i"
  by (simp add: cga_scroll_def)

lemma cgaputc_screen: "cursor s < 24 * 80 \<Longrightarrow> wp (cgaputc c) (\<lambda>_. screen_only s) s"
proof -
  assume p: "cursor s < 24 * 80"
  let ?p = "cga_advance c (cursor s)"
  have b: "?p \<le> 24 * 80" by (rule cga_advance_bound [OF p])
  have "24 \<le> ?p div 80 \<longleftrightarrow> ?p = 24 * 80" using b by (auto simp: div_le_mono less_eq_div_iff_mult_less_eq)
  then show ?thesis using p b by (simp add: cgaputc_def Let_def screen_only_def cga_scroll_out)
qed

lemma consputc_shown: "output_ok s \<Longrightarrow> wp (consputc c) (\<lambda>_. shown (serial c) s) s"
proof -
  assume s: "output_ok s"
  let ?t = "s\<lparr>uart_out := uart_out s @ (if uart_on s then serial c else [])\<rparr>"
  have "wp (cgaputc c) (\<lambda>_. screen_only ?t) ?t" using s cgaputc_screen [of ?t] by (simp add: output_ok_def)
  then show ?thesis using s
    by (auto simp: consputc_def output_ok_def shown_def serial_def rubout_def uartputc_def split: if_splits)
qed

lemma shown_ok: "shown out s t \<Longrightarrow> output_ok s \<Longrightarrow> output_ok t"
  unfolding shown_def screen_only_def output_ok_def by (elim conjE, erule ssubst) simp

lemma shown_trans: "shown a s t \<Longrightarrow> shown b t u \<Longrightarrow> shown (a @ b) s u"
  by (cases s; cases t; cases u) (auto simp: shown_def screen_only_def)


section \<open>Keys\<close>

text \<open>A console operation that leaves the lines \<open>q\<close> and has echoed \<open>out\<close>.\<close>

definition typed :: "lines \<Rightarrow> byte list \<Rightarrow> console \<Rightarrow> console \<Rightarrow> bool" where
  "typed q out s t \<longleftrightarrow> input_ok t \<and> output_ok t \<and> lines_of t = q \<and> uart_on t = uart_on s \<and>
     uart_out t = uart_out s @ (if uart_on s then out else []) \<and> (\<forall>i \<ge> 24 * 80. crt t i = crt s i)"

lemma typed_refl: "input_ok s \<Longrightarrow> output_ok s \<Longrightarrow> typed (lines_of s) [] s s"
  by (simp add: typed_def)

lemma typed_trans: "typed q a s t \<Longrightarrow> typed q' b t u \<Longrightarrow> typed q' (a @ b) s u"
  by (simp add: typed_def)

lemma shownD:
  assumes "shown out s t"
  shows "in_buf t = in_buf s" "in_r t = in_r s" "in_w t = in_w s" "in_e t = in_e s" "uart_on t = uart_on s"
    "uart_out t = uart_out s @ (if uart_on s then out else [])" "24 * 80 \<le> i \<Longrightarrow> crt t i = crt s i"
proof -
  let ?s = "s\<lparr>uart_out := uart_out s @ (if uart_on s then out else [])\<rparr>"
  have t: "t = ?s\<lparr>crt := crt t, cursor := cursor t\<rparr>" and v: "\<forall>i \<ge> 24 * 80. crt t i = crt s i"
    using assms by (simp_all add: shown_def screen_only_def)
  show "in_buf t = in_buf s" "in_r t = in_r s" "in_w t = in_w s" "in_e t = in_e s" "uart_on t = uart_on s"
    "uart_out t = uart_out s @ (if uart_on s then out else [])"
    by (subst t, simp)+
  show "24 * 80 \<le> i \<Longrightarrow> crt t i = crt s i" using v by blast
qed

lemma echo_typed:
  assumes "output_ok s" "input_ok s'" "s' = s\<lparr>in_buf := b, in_e := e\<rparr>" "lines_of s' = q"
  shows "wp (consputc c) (\<lambda>_. typed q (serial c) s) s'"
proof (rule wp_conseq)
  have "output_ok s'" using assms(1,3) by (simp add: output_ok_def)
  then show "wp (consputc c) (\<lambda>_ t. shown (serial c) s' t \<and> output_ok t) s'"
    using consputc_shown shown_ok by (blast intro: wp_conseq)
  show "typed q (serial c) s t" if t: "shown (serial c) s' t \<and> output_ok t" for t
  proof -
    note d = shownD [OF conjunct1 [OF t]]
    show ?thesis using assms t d by (simp add: typed_def input_ok_def lines_of_def ready_def edited_def)
  qed
qed

lemma edited_iff: "in_e s \<noteq> in_w s \<longleftrightarrow> edited s \<noteq> []"
  using ring_empty [of "in_w s" "in_e s"] by (auto simp: edited_def simp flip: length_0_conv)

lemma erase_typed:
  assumes "input_ok s" "output_ok s" "edited s \<noteq> []"
  shows "wp erase (\<lambda>_. typed (ready s, butlast (edited s)) rubout s) s"
proof -
  let ?t = "s\<lparr>in_e := in_e s - 1\<rparr>"
  have "0 < ring_len (in_w s) (in_e s)" using assms(3) by (simp add: edited_def flip: length_greater_0_conv)
  note u = ring_unput [OF this]
  have "0 < ring_len (in_r s) (in_e s)" using u(2) assms(1) by (simp add: input_ok_def)
  note v = ring_unput [OF this]
  have l: "lines_of ?t = (ready s, butlast (edited s))" by (simp add: lines_of_def ready_def edited_def u(1))
  moreover have "input_ok ?t" using assms(1) u v in_set_butlastD [of 10 "edited s"]
    by (auto simp: input_ok_def edited_def)
  ultimately have "wp (consputc BACKSPACE) (\<lambda>_. typed (ready s, butlast (edited s)) (serial BACKSPACE) s) ?t"
    by (intro echo_typed [OF assms(2), where b = "in_buf s" and e = "in_e s - 1"]) simp_all
  then show ?thesis by (simp add: erase_def serial_def)
qed

lemma kill_loop_typed:
  "input_ok s \<Longrightarrow> output_ok s \<Longrightarrow> length (edited s) \<le> k \<Longrightarrow>
    wp (kill_loop k) (\<lambda>_. typed (ready s, []) (concat (replicate (length (edited s)) rubout)) s) s"
proof (induction k arbitrary: s)
  case 0
  then show ?case using typed_refl [of s] by (simp add: lines_of_def)
next
  case (Suc k)
  show ?case
  proof (cases "edited s = []")
    case True
    then show ?thesis using Suc.prems typed_refl [of s] edited_iff [of s] by (simp add: lines_of_def)
  next
    case False
    then have "last (edited s) \<noteq> 10" using Suc.prems(1) last_in_set by (metis input_ok_def)
    moreover have "0 < ring_len (in_w s) (in_e s)" using False by (simp add: edited_def flip: length_greater_0_conv)
    ultimately have b: "in_buf s (unat (in_e s - 1) mod INPUT_BUF) \<noteq> 10" using ring_unput(3) by (metis edited_def)
    have n: "concat (replicate (length (edited s)) rubout) = rubout @ concat (replicate (length (butlast (edited s))) rubout)"
      using False by (cases "edited s" rule: rev_cases) simp_all
    have "wp (kill_loop k) (\<lambda>_. typed (ready s, []) (concat (replicate (length (edited s)) rubout)) s) t"
      if t: "typed (ready s, butlast (edited s)) rubout s t" for t
    proof -
      have "wp (kill_loop k) (\<lambda>_. typed (ready t, []) (concat (replicate (length (edited t)) rubout)) t) t"
        using t Suc.prems(3) by (intro Suc.IH) (auto simp: typed_def lines_of_def)
      then show ?thesis using typed_trans [OF t] n t by (auto simp: typed_def lines_of_def elim!: wp_conseq)
    qed
    then have "wp erase (\<lambda>_. wp (kill_loop k) (\<lambda>_. typed (ready s, []) (concat (replicate (length (edited s)) rubout)) s)) s"
      by (rule wp_conseq [OF erase_typed [OF Suc.prems(1,2) False]])
    then show ?thesis using edited_iff [of s] False b by simp
  qed
qed


lemma kill_line_typed:
  assumes "input_ok s" "output_ok s"
  shows "wp kill_line (\<lambda>_. typed (key_lines 21 (lines_of s)) (key_echo 21 (lines_of s)) s) s"
  using kill_loop_typed [OF assms, of "ring_len (in_w s) (in_e s)"]
  by (simp add: kill_line_def edited_def lines_of_def key_lines_def key_echo_def)

lemma backspace_typed:
  assumes "input_ok s" "output_ok s" "c = 8 \<or> c = 127"
  shows "wp backspace (\<lambda>_. typed (key_lines c (lines_of s)) (key_echo c (lines_of s)) s) s"
  using assms erase_typed [OF assms(1,2)] typed_refl [OF assms(1,2)] edited_iff [of s]
  by (auto simp: backspace_def lines_of_def key_lines_def key_echo_def)

text \<open>Storing a byte at the edit end, and handing the edited line to the readers.\<close>

definition stored :: "byte \<Rightarrow> 'x input_scheme \<Rightarrow> 'x input_scheme" where
  "stored b s = s\<lparr>in_buf := (in_buf s)(unat (in_e s) mod INPUT_BUF := b), in_e := in_e s + 1\<rparr>"

lemma stored_lines:
  assumes "input_ok s" "ring_len (in_r s) (in_e s) < INPUT_BUF"
  shows "ready (stored b s) = ready s" "edited (stored b s) = edited s @ [b]"
    "ring_len (in_r s) (in_e s + 1) = Suc (ring_len (in_r s) (in_e s))"
    "ring_len (in_w s) (in_e s + 1) = Suc (ring_len (in_w s) (in_e s))"
proof -
  note p = ring_put [OF INPUT_BUF_dvd]
  show "ready (stored b s) = ready s" using assms ring_other_slot [OF INPUT_BUF_dvd, of "in_r s" "in_w s" "in_e s"]
    by (simp add: stored_def ready_def input_ok_def)
  show "edited (stored b s) = edited s @ [b]" using assms p(1) [of "in_w s" "in_e s"]
    by (simp add: stored_def edited_def input_ok_def)
  show "ring_len (in_r s) (in_e s + 1) = Suc (ring_len (in_r s) (in_e s))"
    "ring_len (in_w s) (in_e s + 1) = Suc (ring_len (in_w s) (in_e s))"
    using assms p(2) [of "in_r s" "in_e s"] p(2) [of "in_w s" "in_e s"] by (simp_all add: input_ok_def)
qed

lemma commit_lines:
  assumes "ring_len (in_r s) (in_w s) + ring_len (in_w s) (in_e s) = ring_len (in_r s) (in_e s)" "ring_len (in_r s) (in_e s) \<le> INPUT_BUF"
  shows "lines_of (s\<lparr>in_w := in_e s\<rparr>) = (ready s @ edited s, [])" "input_ok (s\<lparr>in_w := in_e s\<rparr>)"
  using assms(2) ring_append [OF assms(1)]
  by (simp_all add: lines_of_def ready_def edited_def input_ok_def ring_list_def ring_len_def)

lemma input_char_typed:
  assumes "input_ok s" "output_ok s" "c < 256" "0 \<le> c" "c \<notin> {16, 21, 8, 127}"
  shows "wp (input_char c) (\<lambda>w t. typed (key_lines c (lines_of s)) (key_echo c (lines_of s)) s t \<and> (w \<longleftrightarrow> ready t \<noteq> ready s)) s"
proof (cases "c \<noteq> 0 \<and> ring_len (in_r s) (in_e s) < INPUT_BUF")
  case True
  let ?d = "if c = 13 then 10 else c" and ?b = "key_char c" and ?u = "stored (key_char c) s"
  have len: "length (ready s) + length (edited s) = ring_len (in_r s) (in_e s)"
    using assms(1) by (simp add: ready_def edited_def input_ok_def)
  note st = stored_lines(1,2) [OF assms(1) conjunct2 [OF True], of ?b] stored_lines(3,4) [OF assms(1) conjunct2 [OF True]]
  have i: "(of_int ?d :: byte) = of_int k \<longleftrightarrow> ?d = k" if "0 \<le> k" "k < 256" for k
    using assms(3,4) that by (simp add: word_of_int_eq_iff take_bit_eq_mod)
  have b: "of_int ?d = ?b" "?d = 10 \<longleftrightarrow> ?b = 10" "?d = 4 \<longleftrightarrow> ?b = 4" "serial ?d = [?b]"
    using i [of 10] i [of 4] assms(3) by (auto simp: key_char_def serial_def BACKSPACE_def)
  let ?q = "key_lines c (lines_of s)"
  have q: "?q = (if ?b = 10 \<or> ?b = 4 \<or> Suc (ring_len (in_r s) (in_e s)) = INPUT_BUF
      then (ready s @ edited s @ [?b], []) else (ready s, edited s @ [?b]))"
    using assms(5) True len by (auto simp: key_lines_def lines_of_def)
  have o: "output_ok ?u" using assms(2) by (simp add: output_ok_def stored_def)
  have fin: "wp (kbind (kget (\<lambda>s. in_e s = in_r s + of_nat INPUT_BUF)) (\<lambda>full. if ?d = 10 \<or> ?d = 4 \<or> full
        then kseq (kmod (\<lambda>s. s\<lparr>in_w := in_e s\<rparr>)) (kret True) else kret False))
      (\<lambda>w t. typed ?q (key_echo c (lines_of s)) s t \<and> (w \<longleftrightarrow> ready t \<noteq> ready s)) t"
    if t: "shown (serial ?d) ?u t" "output_ok t" for t
  proof -
    note d = shownD [OF t(1)]
    have full: "in_e t = in_r t + of_nat INPUT_BUF \<longleftrightarrow> Suc (ring_len (in_r s) (in_e s)) = INPUT_BUF"
      using ring_full [of INPUT_BUF "in_e t" "in_r t"] st(3) by (simp add: d stored_def)
    have lt: "ready t = ready s" "edited t = edited s @ [?b]" using st(1,2) by (simp_all add: ready_def edited_def d)
    have rt: "ring_len (in_r t) (in_w t) + ring_len (in_w t) (in_e t) = ring_len (in_r t) (in_e t)" "ring_len (in_r t) (in_e t) \<le> INPUT_BUF"
      using assms(1) True st(3,4) by (simp_all add: d stored_def input_ok_def)
    have e: "key_echo c (lines_of s) = [?b]" using assms(5) True len by (simp add: key_echo_def lines_of_def)
    have out: "uart_on t = uart_on s" "uart_out t = uart_out s @ (if uart_on s then [?b] else [])" "\<forall>i \<ge> 24 * 80. crt t i = crt s i"
      using d(5,6,7) b(4) by (simp_all add: stored_def)
    show ?thesis
    proof (cases "?b = 10 \<or> ?b = 4 \<or> Suc (ring_len (in_r s) (in_e s)) = INPUT_BUF")
      case c: True
      let ?v = "t\<lparr>in_w := in_e t\<rparr>"
      have v: "lines_of ?v = ?q" "input_ok ?v" using commit_lines [OF rt] lt c by (simp_all add: q)
      have "typed ?q [?b] s ?v" unfolding typed_def using v out t(2) by (simp add: output_ok_def)
      moreover have "lines_of ?v = (ready s @ edited s @ [?b], [])" using v(1) c by (simp add: q)
      then have "ready ?v \<noteq> ready s" by (simp add: lines_of_def)
      moreover have "?d = 10 \<or> ?d = 4 \<or> in_e t = in_r t + of_nat INPUT_BUF" using c b(2,3) full by blast
      ultimately show ?thesis by (simp only: wp_kbind wp_kget wp_if wp_kseq wp_kmod wp_kret if_True e simp_thms)
    next
      case c: False
      have "10 \<notin> set (edited t)" using assms(1) c lt by (auto simp: input_ok_def)
      then have "input_ok t" using rt by (simp add: input_ok_def)
      moreover have "lines_of t = ?q" using lt c by (simp add: q lines_of_def [of t])
      ultimately have "typed ?q [?b] s t" unfolding typed_def using out t(2) by simp
      moreover have "\<not> (?d = 10 \<or> ?d = 4 \<or> in_e t = in_r t + of_nat INPUT_BUF)" using c b(2,3) full by blast
      ultimately show ?thesis using lt by (simp only: wp_kbind wp_kget wp_if wp_kseq wp_kmod wp_kret if_False e simp_thms)
    qed
  qed
  have "wp (consputc ?d) (\<lambda>_. wp (kbind (kget (\<lambda>s. in_e s = in_r s + of_nat INPUT_BUF)) (\<lambda>full. if ?d = 10 \<or> ?d = 4 \<or> full
        then kseq (kmod (\<lambda>s. s\<lparr>in_w := in_e s\<rparr>)) (kret True) else kret False))
      (\<lambda>w t. typed ?q (key_echo c (lines_of s)) s t \<and> (w \<longleftrightarrow> ready t \<noteq> ready s))) ?u"
    by (rule wp_conseq [OF consputc_shown [OF o]]) (use fin shown_ok o in blast)
  then show ?thesis using True b(1) by (simp add: input_char_def Let_def stored_def ring_len_def split del: if_split)
next
  case False
  then show ?thesis using assms typed_refl [OF assms(1,2)]
    by (auto simp: input_char_def ring_len_def key_lines_def key_echo_def lines_of_def ready_def edited_def input_ok_def)
qed


section \<open>The line discipline\<close>

lemma key_lines_grow: "\<exists>x. fst (key_lines c q) = fst q @ x"
  by (auto simp: key_lines_def Let_def split: prod.splits)

lemma keys_lines_grow: "\<exists>x. fst (keys_lines cs q) = fst q @ x"
proof (induction cs arbitrary: q)
  case (Cons c cs)
  then show ?case using key_lines_grow [of c q] by (metis append.assoc keys_lines.simps(2))
qed simp

lemma wakeup1_twice [simp]: "wakeup1 c (wakeup1 c P) = wakeup1 c P"
  by (auto simp: wakeup1_def fun_eq_iff)

text \<open>One key, as \<^verbatim>\<open>consoleintr\<close> treats it before it goes on with the next.\<close>

definition one_key :: "int \<Rightarrow> ('x con_state_scheme, unit) kmon" where
  "one_key c = (if c = 16 then kret () else if c = 21 then on_con kill_line else if c = 8 \<or> c = 127 then on_con backspace
     else kbind (on_con (input_char c)) (\<lambda>w. if w then wakeup ChanInput else kret ()))"

lemma keys_one: "0 \<le> c \<Longrightarrow> wp (consoleintr_keys (c # cs) dump) Q s = wp (one_key c) (\<lambda>_. wp (consoleintr_keys cs (dump \<or> c = 16)) Q) s"
  by (auto simp: one_key_def)

definition key_post :: "lines \<Rightarrow> byte list \<Rightarrow> 'x con_state_scheme \<Rightarrow> 'x con_state_scheme \<Rightarrow> bool" where
  "key_post q out s t \<longleftrightarrow> typed q out (con s) (con t) \<and>
     procs t = (if ready (con t) = ready (con s) then procs s else wakeup1 ChanInput (procs s))"

lemma one_key_typed:
  assumes "input_ok (con s)" "output_ok (con s)" "0 \<le> c" "c < 256"
  shows "wp (one_key c) (\<lambda>_. key_post (key_lines c (lines_of (con s))) (key_echo c (lines_of (con s))) s) s"
proof -
  let ?q = "lines_of (con s)"
  have same: "typed (key_lines c ?q) out (con s) t \<Longrightarrow> c \<in> {16, 21, 8, 127} \<Longrightarrow> ready t = ready (con s)" for t out
    by (auto simp: typed_def lines_of_def key_lines_def)
  consider "c = 16" | "c = 21" | "c = 8 \<or> c = 127" | "c \<notin> {16, 21, 8, 127}" by blast
  then show ?thesis
  proof cases
    case 1
    then show ?thesis using typed_refl [OF assms(1,2)] by (simp add: one_key_def key_post_def key_lines_def key_echo_def split: prod.splits)
  next
    case 2
    then show ?thesis using kill_line_typed [OF assms(1,2)] same by (auto simp: one_key_def key_post_def elim!: wp_conseq)
  next
    case 3
    then show ?thesis using backspace_typed [OF assms(1,2), of c] same by (auto simp: one_key_def key_post_def elim!: wp_conseq)
  next
    case 4
    show ?thesis using 4 input_char_typed [OF assms(1,2,4,3) 4]
      by (auto simp: one_key_def key_post_def wakeup_def elim!: wp_conseq)
  qed
qed

lemma keys_typed:
  "input_ok (con s) \<Longrightarrow> output_ok (con s) \<Longrightarrow> \<forall>c \<in> set cs. 0 \<le> c \<and> c < 256 \<Longrightarrow>
    wp (consoleintr_keys cs dump) (\<lambda>d t. key_post (keys_lines cs (lines_of (con s))) (keys_echo cs (lines_of (con s))) s t \<and>
      (d \<longleftrightarrow> dump \<or> 16 \<in> set cs)) s"
proof (induction cs arbitrary: s dump)
  case Nil
  then show ?case by (simp add: key_post_def typed_refl)
next
  case (Cons c cs)
  let ?q = "lines_of (con s)"
  have step: "wp (one_key c) (\<lambda>_. key_post (key_lines c ?q) (key_echo c ?q) s) s"
    using Cons.prems by (intro one_key_typed) auto
  have "wp (consoleintr_keys cs (dump \<or> c = 16)) (\<lambda>d u. key_post (keys_lines (c # cs) ?q) (keys_echo (c # cs) ?q) s u \<and>
      (d \<longleftrightarrow> dump \<or> 16 \<in> set (c # cs))) t" if t: "key_post (key_lines c ?q) (key_echo c ?q) s t" for t
  proof (rule wp_conseq [OF Cons.IH])
    have l: "lines_of (con t) = key_lines c ?q" "typed (key_lines c ?q) (key_echo c ?q) (con s) (con t)"
      using t by (simp_all add: key_post_def typed_def)
    show "input_ok (con t)" "output_ok (con t)" "\<forall>c \<in> set cs. 0 \<le> c \<and> c < 256"
      using t Cons.prems(3) by (simp_all add: key_post_def typed_def)
    fix d u
    assume u: "key_post (keys_lines cs (lines_of (con t))) (keys_echo cs (lines_of (con t))) t u \<and> (d \<longleftrightarrow> (dump \<or> c = 16) \<or> 16 \<in> set cs)"
    then have tu: "typed (keys_lines (c # cs) ?q) (keys_echo (c # cs) ?q) (con s) (con u)"
      using typed_trans [OF l(2)] by (auto simp: key_post_def l(1))
    have ru: "ready (con u) = fst (keys_lines cs (key_lines c ?q))" "ready (con t) = fst (key_lines c ?q)" "ready (con s) = fst ?q"
      using tu l(1) by (simp_all add: typed_def lines_of_def) (metis fst_conv)+
    obtain x y where "ready (con t) = ready (con s) @ x" "ready (con u) = ready (con t) @ y"
      using key_lines_grow keys_lines_grow ru by metis
    then have "procs u = (if ready (con u) = ready (con s) then procs s else wakeup1 ChanInput (procs s))"
      using t u by (auto simp: key_post_def)
    then show "key_post (keys_lines (c # cs) ?q) (keys_echo (c # cs) ?q) s u \<and> (d \<longleftrightarrow> dump \<or> 16 \<in> set (c # cs))"
      using tu u by (auto simp: key_post_def)
  qed
  then show ?case using Cons.prems(3) by (subst keys_one) (auto intro: wp_conseq [OF step])
qed

lemma take_line:
  assumes "input_ok s" "in_r s \<noteq> in_w s"
  shows "ready s = in_buf s (unat (in_r s) mod INPUT_BUF) # ready (s\<lparr>in_r := in_r s + 1\<rparr>)"
    "input_ok (s\<lparr>in_r := in_r s + 1\<rparr>)" "edited (s\<lparr>in_r := in_r s + 1\<rparr>) = edited s"
proof -
  have r: "0 < ring_len (in_r s) (in_w s)" using assms(2) ring_empty by auto
  then have "0 < ring_len (in_r s) (in_e s)" using assms(1) by (simp add: input_ok_def)
  from ring_get [OF r] ring_get(2) [OF this] assms(1)
  show "ready s = in_buf s (unat (in_r s) mod INPUT_BUF) # ready (s\<lparr>in_r := in_r s + 1\<rparr>)"
    "input_ok (s\<lparr>in_r := in_r s + 1\<rparr>)" "edited (s\<lparr>in_r := in_r s + 1\<rparr>) = edited s"
    by (simp_all add: ready_def edited_def input_ok_def)
qed

lemma line_read_Nil [simp]: "line_read k (Suc n) acc [] = (if k then CFail acc else CSleep acc, [])"
  by (simp add: line_read_def)

lemma line_read_0 [simp]: "line_read k 0 acc r = (CDone acc, r)"
  by (simp add: line_read_def)

lemma line_read_Cons: "line_read k (Suc n) acc (b # r) =
    (if b = 10 then (CDone (acc @ [10]), r) else if b = 4 then (CDone acc, if acc = [] then r else b # r)
     else line_read k n (acc @ [b]) r)"
  by (simp add: line_read_def Let_def split: list.split)

lemma cread_lines:
  "input_ok s \<Longrightarrow> cread_loop killed n acc s = (t, out) \<Longrightarrow>
    input_ok t \<and> edited t = edited s \<and> (out, ready t) = line_read killed n acc (ready s)"
proof (induction n arbitrary: acc s)
  case (Suc n)
  show ?case
  proof (cases "in_r s = in_w s")
    case True
    then have "ready s = []" using ring_empty by (simp add: ready_def flip: length_0_conv)
    then show ?thesis using Suc.prems True by auto
  next
    case False
    note l = take_line [OF Suc.prems(1) False]
    show ?thesis using Suc.prems False l Suc.IH [of "s\<lparr>in_r := in_r s + 1\<rparr>"]
      by (auto simp: line_read_Cons Let_def split: if_splits)
  qed
qed auto

text \<open>Everything the keyboard driver hands over is a byte.\<close>

lemma keymap_byte: "\<forall>c \<in> set row. c < 256 \<Longrightarrow> ent < 256 \<Longrightarrow> sl < 256 \<Longrightarrow> keymap row ent sl k < 256"
  by (auto simp: keymap_def dest: map_of_SomeD split: option.splits)

lemma charcode_byte: "i < 4 \<Longrightarrow> charcode i k < 256"
proof -
  have "normalmap k < 256" "shiftmap k < 256" "ctlmap k < 256"
    unfolding normalmap_def shiftmap_def ctlmap_def by (rule keymap_byte; simp)+
  moreover assume "i < 4"
  then have "i = 0 \<or> i = 1 \<or> i = 2 \<or> i = 3" by linarith
  ultimately show ?thesis by (auto simp: charcode_def)
qed

lemma kbd_data_byte: "0 \<le> fst (kbd_data d sh) \<and> fst (kbd_data d sh) < 256"
proof -
  have "charcode (unat (and t 3)) k < 256" for t :: uint32 and k
    by (rule charcode_byte) (use word_and_le1 [of t 3] in \<open>simp add: word_le_nat_alt\<close>)
  then show ?thesis by (auto simp: kbd_data_def Let_def)
qed

lemma kbd_chars_bytes: "\<forall>c \<in> set (fst (kbd_chars ds sh)). 0 \<le> c \<and> c < 256"
proof (induction ds arbitrary: sh)
  case (Cons d ds)
  then show ?case using kbd_data_byte [of d sh] by (auto split: prod.splits) (metis fst_conv)+
qed simp

section \<open>Numbers\<close>

definition digit_value :: "int \<Rightarrow> int" where
  "digit_value c = (if c < 58 then c - 48 else c - 87)"

definition digits_value :: "nat \<Rightarrow> int list \<Rightarrow> int" where
  "digits_value base cs = foldl (\<lambda>v c. v * int base + digit_value c) 0 cs"

definition numeral_value :: "nat \<Rightarrow> int list \<Rightarrow> int" where
  "numeral_value base cs = (if cs \<noteq> [] \<and> hd cs = 45 then - digits_value base (tl cs) else digits_value base cs)"

lemma digit_char_value: "d < 16 \<Longrightarrow> digit_value (digit_code d) = int d \<and> 48 \<le> digit_code d \<and> digit_code d < 128"
proof -
  have "list_all (\<lambda>d. digit_value (digit_code d) = int d \<and> 48 \<le> digit_code d \<and> digit_code d < 128) [0..<16]" by code_simp
  moreover assume "d < 16"
  ultimately show ?thesis by (simp add: list_all_iff)
qed

lemma print_digits_value: "2 \<le> base \<Longrightarrow> base \<le> 16 \<Longrightarrow>
    digits_value base (rev (print_digits base x)) = int x \<and> (\<forall>c \<in> set (print_digits base x). 48 \<le> c \<and> c < 128)"
proof (induction base x rule: print_digits.induct)
  case (1 base x)
  have m: "x mod base < 16" using 1(2,3) by (metis le_trans less_le_trans mod_less_divisor not_gr0 not_numeral_le_zero)
  show ?case
  proof (cases "x div base = 0")
    case True
    moreover from this have "x mod base = x" using mult_div_mod_eq [of base x] by simp
    ultimately show ?thesis using 1(2,3) digit_char_value [OF m] by (simp add: print_digits.simps [of base x] digits_value_def)
  next
    case False
    then have "digits_value base (rev (print_digits base (x div base))) = int (x div base)"
      "\<forall>c \<in> set (print_digits base (x div base)). 48 \<le> c \<and> c < 128" using 1 by auto
    then show ?thesis using False 1(2) digit_char_value [OF m]
      by (simp add: print_digits.simps [of base x] digits_value_def flip: of_nat_mult of_nat_add)
  qed
qed

lemma print_digits_length: "2 \<le> base \<Longrightarrow> x < base ^ Suc n \<Longrightarrow> length (print_digits base x) \<le> Suc n"
proof (induction n arbitrary: x)
  case 0
  then show ?case by (simp add: print_digits.simps [of base x])
next
  case (Suc n)
  then have "x div base < base ^ Suc n" by (simp add: less_mult_imp_div_less mult.commute)
  then show ?case using Suc by (simp add: print_digits.simps [of base x])
qed


lemma int_chars_value:
  assumes "xx < 2 ^ 32" "base = 10 \<or> base = 16"
  shows "numeral_value base (int_chars xx base sign) = (if sign then s32 xx else int xx) \<and> length (int_chars xx base sign) \<le> 16"
proof -
  let ?neg = "sign \<and> s32 xx < 0"
  let ?x = "if ?neg then of_s32 (- s32 xx) else xx"
  have b: "2 \<le> base" "base \<le> 16" using assms(2) by auto
  have x: "int ?x = (if ?neg then - s32 xx else int xx)" "?x < 2 ^ 32"
    using assms(1) by (auto simp: s32_def of_s32_def split: if_splits)
  note d = print_digits_value [OF b, of ?x]
  have len: "length (print_digits base ?x) \<le> 10"
    using print_digits_length [of base ?x 9] print_digits_length [of base ?x 7] assms(2) x(2) by auto
  have "rev (print_digits base ?x) \<noteq> []" by (simp add: print_digits.simps)
  then have "hd (rev (print_digits base ?x)) \<in> set (print_digits base ?x)" using hd_in_set by fastforce
  then have "hd (rev (print_digits base ?x)) \<noteq> 45" using d by force
  moreover have "\<not> ?neg \<Longrightarrow> sign \<Longrightarrow> s32 xx = int xx" using assms(1) by (auto simp: s32_def split: if_splits)
  ultimately show ?thesis using d x(1) len
    by (cases ?neg) (auto simp: int_chars_def Let_def numeral_value_def)
qed

lemma serial_plain: "\<forall>c \<in> set cs. c < 128 \<Longrightarrow> concat (map serial cs) = map of_int cs"
  by (induction cs) (auto simp: serial_def BACKSPACE_def)

lemma cputs_shown: "output_ok s \<Longrightarrow> wp (cputs cs) (\<lambda>_. shown (concat (map serial cs)) s) s"
proof (induction cs arbitrary: s)
  case Nil
  then show ?case by (cases s) (simp add: cputs_def shown_def screen_only_def output_ok_def)
next
  case (Cons c cs)
  have "wp (cputs cs) (\<lambda>_. shown (concat (map serial (c # cs))) s) t" if t: "shown (serial c) s t" for t
    using Cons.IH [of t] shown_ok [OF t Cons.prems] shown_trans [OF t] by (auto elim!: wp_conseq)
  then show ?case using wp_conseq [OF consputc_shown [OF Cons.prems]] by (simp add: cputs_def)
qed


section \<open>The properties\<close>

text \<open>
  C29: The console input refines a line editor. Whatever keys arrive in one interrupt, from the keyboard
  or the serial line, they do to the bytes that readers may have and to the line being edited what a
  line editor does: characters are appended while fewer than 128 bytes are pending, backspace and
  kill-line affect the unfinished line only, and a newline, an end of file or a full buffer hands the
  line to the readers and wakes them; readers are woken exactly then. The serial line gets exactly the echo of
  the keys. A read takes the bytes of one line in order, across the wrap-around of the 32-bit
  counters, keeps an end of file for the next read unless it comes first, and sleeps or fails only
  when no byte is left.
\<close>

theorem console_refines_lines:
  assumes "input_ok (con s)" "output_ok (con s)" "\<forall>c \<in> set cs. 0 \<le> c \<and> c < 256"
  shows "wp (consoleintr_keys cs False) (\<lambda>dump t. input_ok (con t) \<and> output_ok (con t) \<and>
      lines_of (con t) = keys_lines cs (lines_of (con s)) \<and> (dump \<longleftrightarrow> 16 \<in> set cs) \<and>
      uart_out (con t) = uart_out (con s) @ (if uart_on (con s) then keys_echo cs (lines_of (con s)) else []) \<and>
      procs t = (if ready (con t) = ready (con s) then procs s else wakeup1 ChanInput (procs s))) s \<and>
    (case cread_loop killed n acc (con s) of (t, out) \<Rightarrow>
      input_ok t \<and> edited t = edited (con s) \<and> (out, ready t) = line_read killed n acc (ready (con s)))"
proof
  show "wp (consoleintr_keys cs False) (\<lambda>dump t. input_ok (con t) \<and> output_ok (con t) \<and>
      lines_of (con t) = keys_lines cs (lines_of (con s)) \<and> (dump \<longleftrightarrow> 16 \<in> set cs) \<and>
      uart_out (con t) = uart_out (con s) @ (if uart_on (con s) then keys_echo cs (lines_of (con s)) else []) \<and>
      procs t = (if ready (con t) = ready (con s) then procs s else wakeup1 ChanInput (procs s))) s"
    using keys_typed [OF assms, of False] by (rule wp_conseq) (simp add: key_post_def typed_def)
qed (use cread_lines [OF assms(1)] in \<open>auto split: prod.split\<close>)

definition demo_con :: console where
  "demo_con = \<lparr>in_buf = \<lambda>_. 0, in_r = 4294967294, in_w = 4294967294, in_e = 4294967294, crt = \<lambda>_. 0, cursor = 1919,
     uart_on = True, uart_out = [], panicked = False\<rparr>"

definition demo_cons :: con_state where
  "demo_cons = kstate.extend demo_k (con_state.fields demo_con)"

lemma demo_cons_sel [simp]: "con demo_cons = demo_con"
  by (simp add: demo_cons_def kstate.defs con_state.defs)

lemma demo_con_ok: "input_ok demo_con" "output_ok demo_con" "lines_of demo_con = ([], [])"
  by (simp_all add: demo_con_def input_ok_def output_ok_def lines_of_def ready_def edited_def ring_list_def ring_len_def)

theorem console_refines_lines_witness:
  "wp (consoleintr_keys [104, 120, 8, 105, 13] False) (\<lambda>_ t. lines_of (con t) = ([104, 105, 10], []) \<and>
     uart_out (con t) = [104, 120, 8, 32, 8, 105, 10] \<and> procs t = wakeup1 ChanInput (procs demo_cons)) demo_cons"
proof (rule wp_conseq [OF conjunct1 [OF console_refines_lines [where s = demo_cons and killed = False and n = 0 and acc = "[]"]]])
  have r: "ready demo_con = []" using demo_con_ok(3) by (simp add: lines_of_def)
  show "lines_of (con t) = ([104, 105, 10], []) \<and> uart_out (con t) = [104, 120, 8, 32, 8, 105, 10] \<and> procs t = wakeup1 ChanInput (procs demo_cons)"
    if t: "input_ok (con t) \<and> output_ok (con t) \<and> lines_of (con t) = keys_lines [104, 120, 8, 105, 13] (lines_of (con demo_cons)) \<and>
      (dump \<longleftrightarrow> 16 \<in> set [104, 120, 8, 105, 13 :: int]) \<and>
      uart_out (con t) = uart_out (con demo_cons) @ (if uart_on (con demo_cons) then keys_echo [104, 120, 8, 105, 13] (lines_of (con demo_cons)) else []) \<and>
      procs t = (if ready (con t) = ready (con demo_cons) then procs demo_cons else wakeup1 ChanInput (procs demo_cons))" for dump t
  proof -
    have l: "lines_of (con t) = ([104, 105, 10], [])" using t by (simp add: demo_con_ok(3) key_lines_def key_char_def)
    moreover from l have "ready (con t) = [104, 105, 10]" by (simp add: lines_of_def)
    ultimately show ?thesis using t r
      by (simp add: demo_con_ok(3) key_lines_def key_echo_def key_char_def rubout_def) (simp add: demo_con_def)
  qed
qed (simp_all add: demo_con_ok)

text \<open>
  Console output stays in bounds and prints numbers faithfully. While the machine has not panicked and
  the cursor is in the 24 lines of the screen, printing a number never panics, writes no cell outside these
  lines, leaves the cursor inside them, and sends on the serial line a numeral, of at most the 16
  characters the buffer of \<^verbatim>\<open>printint\<close> holds, whose value is the argument read as a signed or an
  unsigned 32-bit number, in base 10 or 16.
\<close>

theorem printint_in_bounds:
  assumes "output_ok s" "xx < 2 ^ 32" "base = 10 \<or> base = 16"
  shows "wp (printint xx base sign) (\<lambda>_ t. output_ok t \<and> (\<forall>i \<ge> 24 * 80. crt t i = crt s i) \<and>
      (\<exists>cs. uart_out t = uart_out s @ (if uart_on s then map of_int cs else []) \<and> length cs \<le> 16 \<and>
        numeral_value base cs = (if sign then s32 xx else int xx))) s"
proof -
  let ?cs = "int_chars xx base sign"
  have "\<forall>c \<in> set ?cs. c < 128"
    using print_digits_value [of base] assms(3) by (auto simp: int_chars_def Let_def)
  then have ser: "concat (map serial ?cs) = map of_int ?cs" by (rule serial_plain)
  have "wp (cputs ?cs) (\<lambda>_. shown (map of_int ?cs) s) s" using cputs_shown [OF assms(1), of ?cs] by (simp add: ser)
  then show ?thesis unfolding printint_def
  proof (rule wp_conseq, intro conjI exI [where x = ?cs])
    fix t assume t: "shown (map of_int ?cs) s t"
    show "output_ok t" "\<forall>i \<ge> 24 * 80. crt t i = crt s i"
      "uart_out t = uart_out s @ (if uart_on s then map of_int ?cs else [])"
      using shown_ok [OF t assms(1)] shownD [OF t] by blast+
  qed (use int_chars_value [OF assms(2,3)] in simp_all)
qed

theorem printint_in_bounds_witness:
  "wp (printint 4294967254 10 True) (\<lambda>_ t. output_ok t \<and>
      (\<exists>cs. uart_out t = map of_int cs \<and> numeral_value 10 cs = - 42)) demo_con"
  by (rule wp_conseq [OF printint_in_bounds]) (auto simp: demo_con_ok, auto simp: demo_con_def s32_def)

end
