(* ===== verification/Calculator.thy ===== *)
theory Calculator
  imports "HOL-Library.Word" "HOL-Library.Signed_Division"
begin

text \<open>
  The expression evaluator of \<^verbatim>\<open>programming_language/HW2/clang.c\<close>. The state is the input from
  \<^verbatim>\<open>iterator\<close> on (past the end the buffer holds NULs) and \<^verbatim>\<open>error_flag\<close>. \<open>long\<close> is a 64-bit word. A
  division that traps is the outcome \<open>Crash\<close>. The recursion is bounded by fuel; enough of it always
  exists (\<open>expr_enough\<close>), and \<open>calc\<close> uses that much.
\<close>

section \<open>The parser's monad\<close>

datatype 'r outcome = Ok 'r | Crash | NoFuel

type_synonym cstate = "string \<times> bool"
type_synonym long = "64 word"

fun obind :: "('a \<times> cstate) outcome \<Rightarrow> ('a \<Rightarrow> cstate \<Rightarrow> ('b \<times> cstate) outcome) \<Rightarrow> ('b \<times> cstate) outcome" where
  "obind (Ok (x, s)) k = k x s"
| "obind Crash k = Crash"
| "obind NoFuel k = NoFuel"

section \<open>Characters\<close>

definition is_valid :: "char \<Rightarrow> bool" where
  "is_valid a \<longleftrightarrow> a \<in> set ''+-*/()0123456789 $'' \<or> a = CHR 0x09"

fun getCurChar :: "cstate \<Rightarrow> char" where
  "getCurChar ([], e) = CHR 0x00"
| "getCurChar (c # cs, e) = c"

fun moveNext :: "cstate \<Rightarrow> cstate" where
  "moveNext (cs, e) = (tl cs, e)"

fun ffSpace :: "cstate \<Rightarrow> cstate" where
  "ffSpace (cs, e) = (dropWhile (\<lambda>c. c = CHR '' '' \<or> c = CHR 0x09) cs, e)"

fun set_error :: "cstate \<Rightarrow> cstate" where
  "set_error (cs, e) = (cs, True)"

text \<open>\<^verbatim>\<open>digit\<close>: \<open>None\<close> is -1.\<close>

definition digit :: "cstate \<Rightarrow> nat option \<times> cstate" where
  "digit s = (let c = getCurChar s in
     if \<not> is_valid c then (None, set_error s)
     else let d = of_char c - 48 :: int in if d < 0 \<or> d > 9 then (None, s) else (Some (nat d), s))"

fun number_loop :: "long \<Rightarrow> string \<Rightarrow> bool \<Rightarrow> long \<times> cstate" where
  "number_loop res [] e = (res, snd (digit ([], e)))"
| "number_loop res (c # cs) e = (case digit (c # cs, e) of
     (Some d, s) \<Rightarrow> number_loop (res * 10 + of_nat d) cs e
   | (None, s) \<Rightarrow> (res, s))"

definition number :: "cstate \<Rightarrow> long \<times> cstate" where
  "number s = (case ffSpace s of (cs, e) \<Rightarrow> number_loop 0 cs e)"

section \<open>Expressions\<close>

definition ldiv :: "long \<Rightarrow> long \<Rightarrow> long option" where
  "ldiv a b = (if b = 0 \<or> (sint a = - (2 ^ 63) \<and> b = - 1) then None else Some (of_int (sint a sdiv sint b)))"

text \<open>
  The functions call one another in a circle that is cut at \<^verbatim>\<open>factor\<close>'s call of \<^verbatim>\<open>expr\<close>: each takes
  the function it calls as an argument, and \<open>expr\<close> ties the knot with one unit of fuel per nesting
  level. The loops of \<^verbatim>\<open>term\<close> and \<^verbatim>\<open>expr\<close> use one unit per round.
\<close>

type_synonym parser = "cstate \<Rightarrow> (long \<times> cstate) outcome"

definition factor :: "parser \<Rightarrow> parser" where
  "factor expr s = (let s = ffSpace s in
     if getCurChar s = CHR ''('' then
       obind (expr (ffSpace (moveNext s))) (\<lambda>res s. Ok (res, moveNext (if getCurChar s = CHR '')'' then s else set_error s)))
     else if getCurChar s = CHR ''-'' then
       (case number (ffSpace (moveNext s)) of (n, s) \<Rightarrow> Ok (- 1 * n, s))
     else (case number s of (n, s) \<Rightarrow> Ok (1 * n, s)))"

primrec term_loop :: "nat \<Rightarrow> parser \<Rightarrow> long \<Rightarrow> parser" where
  "term_loop 0 fac res s = NoFuel"
| "term_loop (Suc n) fac res s = (if snd s then Ok (res, s) else
     let c = getCurChar s in
     if c = CHR ''*'' then obind (fac (ffSpace (moveNext s))) (\<lambda>t s. term_loop n fac (res * t) s)
     else if c = CHR ''/'' then obind (fac (ffSpace (moveNext s))) (\<lambda>t s.
       case ldiv res t of None \<Rightarrow> Crash | Some q \<Rightarrow> term_loop n fac q s)
     else Ok (res, s))"

definition term_expr :: "nat \<Rightarrow> parser \<Rightarrow> parser" where
  "term_expr n fac s = (if snd s then Ok (- 1, s) else obind (fac s) (\<lambda>res s. term_loop n fac res (ffSpace s)))"

primrec expr_loop :: "nat \<Rightarrow> parser \<Rightarrow> long \<Rightarrow> parser" where
  "expr_loop 0 trm res s = NoFuel"
| "expr_loop (Suc n) trm res s = (if snd s then Ok (res, s) else
     let c = getCurChar s in
     if c = CHR ''+'' then obind (trm (ffSpace (moveNext s))) (\<lambda>t s. expr_loop n trm (res + t) (ffSpace s))
     else if c = CHR ''-'' then obind (trm (ffSpace (moveNext s))) (\<lambda>t s. expr_loop n trm (res - t) (ffSpace s))
     else Ok (res, s))"

primrec expr :: "nat \<Rightarrow> parser" where
  "expr 0 s = NoFuel"
| "expr (Suc f) s = (if snd s then Ok (- 1, s) else
     obind (term_expr (Suc f) (factor (expr f)) s) (\<lambda>res s. expr_loop (Suc f) (term_expr (Suc f) (factor (expr f))) res (ffSpace s)))"

section \<open>One input line\<close>

datatype answer = Printed long | Syntax_error | Killed

definition enough :: "string \<Rightarrow> nat" where
  "enough cs = length cs + 1"

definition getInputString :: "string \<Rightarrow> string" where
  "getInputString cs = cs @ ''$''"

text \<open>The body of \<^verbatim>\<open>main\<close>'s loop for the line \<open>cs\<close>.\<close>

definition calc :: "string \<Rightarrow> answer option" where
  "calc cs = (case expr (enough (getInputString cs)) (getInputString cs, False) of
     NoFuel \<Rightarrow> None | Crash \<Rightarrow> Some Killed
   | Ok (res, s) \<Rightarrow> Some (if getCurChar s \<noteq> CHR ''$'' \<or> snd s then Syntax_error else Printed res))"

section \<open>Termination\<close>

definition shrinks :: "nat \<Rightarrow> ('a \<times> cstate) outcome \<Rightarrow> bool" where
  "shrinks n r \<longleftrightarrow> (case r of Ok (x, cs, e) \<Rightarrow> length cs \<le> n | Crash \<Rightarrow> True | NoFuel \<Rightarrow> False)"

lemma shrinks_obind: "shrinks n r \<Longrightarrow> (\<And>x cs e. length cs \<le> n \<Longrightarrow> shrinks m (k x (cs, e))) \<Longrightarrow> shrinks m (obind r k)"
  by (cases "(r, k)" rule: obind.cases) (auto simp: shrinks_def split: prod.splits)

lemma number_loop_length: "length (fst (snd (number_loop res cs e))) \<le> length cs"
  by (induction cs arbitrary: res) (auto simp: digit_def Let_def intro: le_SucI split: option.splits prod.splits)

lemma number_length: "length (fst (snd (number s))) \<le> length (fst s)"
proof (cases s)
  case (Pair cs e)
  then show ?thesis using number_loop_length [of 0 "dropWhile (\<lambda>c. c = CHR '' '' \<or> c = CHR 0x09) cs" e]
    length_dropWhile_le [of "\<lambda>c. c = CHR '' '' \<or> c = CHR 0x09" cs] by (simp add: number_def)
qed

lemma ffSpace_length: "length (fst (ffSpace s)) \<le> length (fst s)"
  by (cases s) (simp add: length_dropWhile_le)

lemma moveNext_length: "getCurChar s \<noteq> CHR 0x00 \<Longrightarrow> length (fst (moveNext s)) < length (fst s)"
  by (cases s rule: getCurChar.cases) auto

text \<open>Fuel for every character left is enough, and no function moves backwards.\<close>

definition total_upto :: "nat \<Rightarrow> parser \<Rightarrow> bool" where
  "total_upto m p \<longleftrightarrow> (\<forall>s. length (fst s) \<le> m \<longrightarrow> shrinks (length (fst s)) (p s))"

lemma total_uptoD: "total_upto m p \<Longrightarrow> length (fst s) \<le> m \<Longrightarrow> shrinks (length (fst s)) (p s)"
  unfolding total_upto_def by blast

lemma shrinks_Ok: "shrinks (length (fst s)) (Ok (x, s))"
  by (cases s) (simp add: shrinks_def)

lemma shrinks_if: "shrinks n a \<Longrightarrow> shrinks n b \<Longrightarrow> shrinks n (if c then a else b)"
  by simp

lemma shrinks_le: "shrinks n r \<Longrightarrow> n \<le> m \<Longrightarrow> shrinks m r"
  by (auto simp: shrinks_def split: outcome.splits)

lemma step_length: "getCurChar s \<noteq> CHR 0x00 \<Longrightarrow> length (fst (ffSpace (moveNext s))) < length (fst s)"
  using moveNext_length ffSpace_length order.strict_trans1 by blast

lemma factor_total: "(0 < m \<Longrightarrow> total_upto (m - 1) ex) \<Longrightarrow> total_upto m (factor ex)"
proof (unfold total_upto_def, intro allI impI)
  fix s :: cstate assume ex: "0 < m \<Longrightarrow> \<forall>s. length (fst s) \<le> m - 1 \<longrightarrow> shrinks (length (fst s)) (ex s)" and m: "length (fst s) \<le> m"
  let ?s = "ffSpace s"
  have l: "length (fst ?s) \<le> length (fst s)" by (rule ffSpace_length)
  have n: "shrinks (length (fst s)) (case number t of (n, s) \<Rightarrow> Ok (g n, s))" if "length (fst t) \<le> length (fst s)" for t and g :: "long \<Rightarrow> long"
    using number_length [of t] that by (auto simp: shrinks_def split: prod.splits)
  show "shrinks (length (fst s)) (factor ex s)"
  proof (cases "getCurChar ?s = CHR ''(''")
    case True
    then have t: "length (fst (ffSpace (moveNext ?s))) < length (fst s)" using step_length [of ?s] l by simp
    then have "shrinks (length (fst (ffSpace (moveNext ?s)))) (ex (ffSpace (moveNext ?s)))" using ex m by (cases "ffSpace (moveNext ?s)") simp
    then show ?thesis unfolding factor_def Let_def using True t
      by simp (rule shrinks_obind, assumption, auto simp: shrinks_def)
  next
    case False
    have "getCurChar ?s = CHR ''-'' \<Longrightarrow> length (fst (ffSpace (moveNext ?s))) \<le> length (fst s)" using step_length [of ?s] l by simp
    then show ?thesis unfolding factor_def Let_def using False n [where g = "\<lambda>n. - 1 * n"] n [where g = "\<lambda>n. 1 * n"] l by simp
  qed
qed

text \<open>One round of a loop: an operator, then a call \<open>p\<close>, then the rest of the loop.\<close>

lemma round_total:
  assumes "total_upto m p" "length (fst s) \<le> m" "getCurChar s \<noteq> CHR 0x00"
    and "\<And>t u. length (fst u) < length (fst s) \<Longrightarrow> shrinks (length (fst s)) (k t u)"
  shows "shrinks (length (fst s)) (obind (p (ffSpace (moveNext s))) k)"
proof (rule shrinks_obind)
  show "shrinks (length (fst (ffSpace (moveNext s)))) (p (ffSpace (moveNext s)))"
    using assms(1) [unfolded total_upto_def, rule_format, of "ffSpace (moveNext s)"] assms(2) step_length [OF assms(3)] by simp
  show "shrinks (length (fst s)) (k x (cs, e))" if "length cs \<le> length (fst (ffSpace (moveNext s)))" for x cs e
    using that step_length [OF assms(3)] assms(4) [of "(cs, e)" x] by simp
qed

lemma term_loop_total: "total_upto m fac \<Longrightarrow> length (fst s) \<le> m \<Longrightarrow> length (fst s) < n \<Longrightarrow> shrinks (length (fst s)) (term_loop n fac res s)"
proof (induction n arbitrary: s res)
  case (Suc n)
  have IH: "shrinks (length (fst s)) (term_loop n fac r u)" if "length (fst u) < length (fst s)" for r u
    using Suc.IH [OF Suc.prems(1), of u r] that Suc.prems shrinks_le by fastforce
  have stop: "shrinks (length (fst s)) (Ok (res, s))" by (cases s) (simp add: shrinks_def)
  have mult: "shrinks (length (fst s)) (obind (fac (ffSpace (moveNext s))) (\<lambda>t s. term_loop n fac (res * t) s))" if "getCurChar s = CHR ''*''"
    by (rule round_total [OF Suc.prems(1,2)]) (use that IH in simp_all)
  have dv: "shrinks (length (fst s)) (obind (fac (ffSpace (moveNext s))) (\<lambda>t s. case ldiv res t of None \<Rightarrow> Crash | Some q \<Rightarrow> term_loop n fac q s))"
    if "getCurChar s = CHR ''/''"
    by (rule round_total [OF Suc.prems(1,2)]) (use that IH in \<open>auto simp: shrinks_def [of _ Crash] split: option.split\<close>)
  show ?case using stop mult dv by (simp add: Let_def)
qed simp

lemma expr_loop_total: "total_upto m trm \<Longrightarrow> length (fst s) \<le> m \<Longrightarrow> length (fst s) < n \<Longrightarrow> shrinks (length (fst s)) (expr_loop n trm res s)"
proof (induction n arbitrary: s res)
  case (Suc n)
  have IH: "shrinks (length (fst s)) (expr_loop n trm r (ffSpace u))" if "length (fst u) < length (fst s)" for r u
    using Suc.IH [OF Suc.prems(1), of "ffSpace u" r] that ffSpace_length [of u] Suc.prems shrinks_le by fastforce
  have stop: "shrinks (length (fst s)) (Ok (res, s))" by (cases s) (simp add: shrinks_def)
  have op: "shrinks (length (fst s)) (obind (trm (ffSpace (moveNext s))) (\<lambda>t s. expr_loop n trm (f t) (ffSpace s)))"
    if "getCurChar s \<noteq> CHR 0x00" for f
    by (rule round_total [OF Suc.prems(1,2) that]) (rule IH)
  show ?case using stop op [of "\<lambda>t. res + t"] op [of "\<lambda>t. res - t"] by (simp add: Let_def)
qed simp

lemma term_total: "total_upto m fac \<Longrightarrow> m < n \<Longrightarrow> total_upto m (term_expr n fac)"
proof (unfold total_upto_def [of m "term_expr n fac"], intro allI impI)
  fix s :: cstate assume fac: "total_upto m fac" and m: "m < n" "length (fst s) \<le> m"
  have "shrinks (length (fst s)) (obind (fac s) (\<lambda>res s. term_loop n fac res (ffSpace s)))"
  proof (rule shrinks_obind)
    show "shrinks (length (fst s)) (fac s)" using fac m(2) by (rule total_uptoD)
    show "shrinks (length (fst s)) (term_loop n fac x (ffSpace (cs, e)))" if "length cs \<le> length (fst s)" for x cs e
      using term_loop_total [OF fac, of "ffSpace (cs, e)" n x] ffSpace_length [of "(cs, e)"] that m shrinks_le by fastforce
  qed
  then show "shrinks (length (fst s)) (term_expr n fac s)" unfolding term_expr_def by (rule shrinks_if [OF shrinks_Ok])
qed

lemma expr_total: "m < f \<Longrightarrow> total_upto m (expr f)"
proof (induction f arbitrary: m)
  case (Suc f)
  have "total_upto (m - 1) (expr f)" if "0 < m" using Suc that by (intro Suc.IH) simp
  then have fac: "total_upto m (factor (expr f))" by (rule factor_total)
  note trm = term_total [OF fac Suc.prems]
  show ?case unfolding total_upto_def
  proof (intro allI impI)
    fix s :: cstate assume s: "length (fst s) \<le> m"
    have "shrinks (length (fst s)) (obind (term_expr (Suc f) (factor (expr f)) s) (\<lambda>res s. expr_loop (Suc f) (term_expr (Suc f) (factor (expr f))) res (ffSpace s)))"
    proof (rule shrinks_obind)
      show "shrinks (length (fst s)) (term_expr (Suc f) (factor (expr f)) s)" using trm s by (rule total_uptoD)
      show "shrinks (length (fst s)) (expr_loop (Suc f) (term_expr (Suc f) (factor (expr f))) x (ffSpace (cs, e)))" if "length cs \<le> length (fst s)" for x cs e
        using expr_loop_total [OF trm, of "ffSpace (cs, e)" "Suc f" x] ffSpace_length [of "(cs, e)"] that s Suc.prems shrinks_le by fastforce
    qed
    then show "shrinks (length (fst s)) (expr (Suc f) s)" unfolding expr.simps by (rule shrinks_if [OF shrinks_Ok])
  qed
qed simp

section \<open>More fuel changes nothing\<close>

definition better :: "parser \<Rightarrow> parser \<Rightarrow> bool" where
  "better p q \<longleftrightarrow> (\<forall>s. p s \<noteq> NoFuel \<longrightarrow> q s = p s)"

lemma betterI: "(\<And>s. p s \<noteq> NoFuel \<Longrightarrow> q s = p s) \<Longrightarrow> better p q"
  by (simp only: better_def) blast

lemma betterD: "better p q \<Longrightarrow> p s \<noteq> NoFuel \<Longrightarrow> q s = p s"
  by (simp only: better_def) blast

lemma obind_better: "(r \<noteq> NoFuel \<Longrightarrow> r' = r) \<Longrightarrow> (\<And>x s. k x s \<noteq> NoFuel \<Longrightarrow> k' x s = k x s) \<Longrightarrow> obind r k \<noteq> NoFuel \<Longrightarrow> obind r' k' = obind r k"
  by (cases "(r, k)" rule: obind.cases) auto

lemma factor_better: "better ex ex' \<Longrightarrow> better (factor ex) (factor ex')"
  by (rule betterI) (auto simp: factor_def Let_def intro!: obind_better betterD [of ex ex'] split: if_splits prod.splits simp del: ffSpace.simps)

lemma term_loop_better: "better fac fac' \<Longrightarrow> n \<le> n' \<Longrightarrow> better (term_loop n fac r) (term_loop n' fac' r)"
proof (induction n arbitrary: n' r)
  case (Suc n)
  then obtain k where k: "n' = Suc k" "n \<le> k" by (cases n') auto
  show ?case unfolding k
    by (rule betterI) (auto simp: Let_def intro!: obind_better betterD [OF Suc.IH [OF Suc.prems(1) k(2)]] betterD [OF Suc.prems(1)] split: if_splits option.splits)
qed (rule betterI, simp)

lemma term_better: "better fac fac' \<Longrightarrow> n \<le> n' \<Longrightarrow> better (term_expr n fac) (term_expr n' fac')"
  by (rule betterI) (auto simp: term_expr_def intro!: obind_better betterD [OF term_loop_better] betterD [of fac fac'] split: if_splits)

lemma expr_loop_better: "better trm trm' \<Longrightarrow> n \<le> n' \<Longrightarrow> better (expr_loop n trm r) (expr_loop n' trm' r)"
proof (induction n arbitrary: n' r)
  case (Suc n)
  then obtain k where k: "n' = Suc k" "n \<le> k" by (cases n') auto
  show ?case unfolding k
    by (rule betterI) (auto simp: Let_def intro!: obind_better betterD [OF Suc.IH [OF Suc.prems(1) k(2)]] betterD [OF Suc.prems(1)] split: if_splits)
qed (rule betterI, simp)

lemma expr_better: "f \<le> g \<Longrightarrow> better (expr f) (expr g)"
proof (induction f arbitrary: g)
  case (Suc f)
  then obtain k where k: "g = Suc k" "f \<le> k" by (cases g) auto
  have trm: "better (term_expr (Suc f) (factor (expr f))) (term_expr (Suc k) (factor (expr k)))"
    using k(2) by (intro term_better factor_better Suc.IH) simp_all
  then have l: "better (expr_loop (Suc f) (term_expr (Suc f) (factor (expr f))) r) (expr_loop (Suc k) (term_expr (Suc k) (factor (expr k))) r)" for r
    using k(2) by (intro expr_loop_better) simp_all
  show ?case unfolding k
    by (rule betterI) (auto simp del: expr_loop.simps intro!: obind_better betterD [OF trm] betterD [OF l] split: if_splits)
qed (rule betterI, simp)

section \<open>The grammar, its meaning and its spelling\<close>

text \<open>
  The syntax trees of the grammar in the source's comment, with \<open>Neg\<close> only on numbers: the code
  does not accept the grammar's \<^verbatim>\<open>-(<expr>)\<close>.
\<close>

datatype ex = Tm tm | Add ex tm | Sub ex tm
and tm = Fc fc | Mul tm fc | Div tm fc
and fc = Num nat | Neg nat | Par ex

definition digit_of :: "nat \<Rightarrow> char" where
  "digit_of d = ''0123456789'' ! d"

fun show_nat :: "nat \<Rightarrow> string" where
  "show_nat n = (if n < 10 then [digit_of n] else show_nat (n div 10) @ [digit_of (n mod 10)])"

declare show_nat.simps [simp del]

primrec show_ex :: "ex \<Rightarrow> string" and show_tm :: "tm \<Rightarrow> string" and show_fc :: "fc \<Rightarrow> string" where
  "show_ex (Tm t) = show_tm t"
| "show_ex (Add e t) = show_ex e @ CHR ''+'' # show_tm t"
| "show_ex (Sub e t) = show_ex e @ CHR ''-'' # show_tm t"
| "show_tm (Fc f) = show_fc f"
| "show_tm (Mul t f) = show_tm t @ CHR ''*'' # show_fc f"
| "show_tm (Div t f) = show_tm t @ CHR ''/'' # show_fc f"
| "show_fc (Num n) = show_nat n"
| "show_fc (Neg n) = CHR ''-'' # show_nat n"
| "show_fc (Par e) = CHR ''('' # show_ex e @ '')''"

definition both :: "(long \<Rightarrow> long \<Rightarrow> long option) \<Rightarrow> long option \<Rightarrow> long option \<Rightarrow> long option" where
  "both g x y = (case (x, y) of (Some a, Some b) \<Rightarrow> g a b | _ \<Rightarrow> None)"

primrec eval_ex :: "ex \<Rightarrow> long option" and eval_tm :: "tm \<Rightarrow> long option" and eval_fc :: "fc \<Rightarrow> long option" where
  "eval_ex (Tm t) = eval_tm t"
| "eval_ex (Add e t) = both (\<lambda>a b. Some (a + b)) (eval_ex e) (eval_tm t)"
| "eval_ex (Sub e t) = both (\<lambda>a b. Some (a - b)) (eval_ex e) (eval_tm t)"
| "eval_tm (Fc f) = eval_fc f"
| "eval_tm (Mul t f) = both (\<lambda>a b. Some (a * b)) (eval_tm t) (eval_fc f)"
| "eval_tm (Div t f) = both ldiv (eval_tm t) (eval_fc f)"
| "eval_fc (Num n) = Some (of_nat n)"
| "eval_fc (Neg n) = Some (- of_nat n)"
| "eval_fc (Par e) = eval_ex e"

section \<open>Numbers\<close>

lemma digit_char: "d < 10 \<Longrightarrow> digit (digit_of d # cs, e) = (Some d, digit_of d # cs, e) \<and> digit_of d \<noteq> CHR '' '' \<and> digit_of d \<noteq> CHR 0x09 \<and>
    digit_of d \<noteq> CHR ''('' \<and> digit_of d \<noteq> CHR ''-''"
proof -
  assume "d < 10"
  then have "d = 0 \<or> d = 1 \<or> d = 2 \<or> d = 3 \<or> d = 4 \<or> d = 5 \<or> d = 6 \<or> d = 7 \<or> d = 8 \<or> d = 9" by arith
  then show ?thesis by (elim disjE) (simp_all add: digit_of_def digit_def is_valid_def Let_def)
qed

lemma show_nat_first: "\<exists>d<10. \<exists>w. show_nat n = digit_of d # w"
proof (induction n rule: show_nat.induct)
  case (1 n)
  then show ?case by (cases "n < 10") (auto simp: show_nat.simps [of n])
qed

lemma number_loop_show: "number_loop res (show_nat n @ cs) e = number_loop (res * 10 ^ length (show_nat n) + of_nat n) cs e"
proof (induction n arbitrary: cs rule: show_nat.induct)
  case (1 n)
  show ?case
  proof (cases "n < 10")
    case True
    then show ?thesis by (simp add: show_nat.simps [of n] digit_char)
  next
    case False
    have "of_nat n = (of_nat (n div 10 * 10 + n mod 10) :: long)" by simp
    then have "of_nat n = of_nat (n div 10) * (10::long) + of_nat (n mod 10)" by (simp only: of_nat_add of_nat_mult of_nat_numeral)
    then show ?thesis using False 1 [of "digit_of (n mod 10) # cs"] by (simp add: show_nat.simps [of n] digit_char algebra_simps)
  qed
qed

definition ends :: "string \<Rightarrow> string \<Rightarrow> bool" where
  "ends ops cs \<longleftrightarrow> (\<exists>c r. cs = c # r \<and> c \<in> set ops)"

lemma number_show: "ends ''+-*/)$'' cs \<Longrightarrow> number (show_nat n @ cs, False) = (of_nat n, cs, False)"
proof -
  assume "ends ''+-*/)$'' cs"
  then obtain c r where c: "cs = c # r" "c \<in> set ''+-*/)$''" by (auto simp: ends_def)
  obtain d w where d: "show_nat n = digit_of d # w" "d < 10" using show_nat_first by blast
  have "number_loop x cs False = (x, cs, False)" for x
    using c by (auto simp: digit_def is_valid_def)
  then show ?thesis using number_loop_show [of 0 n cs False] d digit_char [OF d(2)] by (simp add: number_def)
qed

section \<open>Results with any fuel that is large enough\<close>

definition exprs :: "cstate \<Rightarrow> (long \<times> cstate) outcome \<Rightarrow> bool" where
  "exprs s r \<longleftrightarrow> (\<exists>F. \<forall>g\<ge>F. expr g s = r)"

definition facs :: "cstate \<Rightarrow> (long \<times> cstate) outcome \<Rightarrow> bool" where
  "facs s r \<longleftrightarrow> (\<exists>F. \<forall>g\<ge>F. factor (expr g) s = r)"

definition tloop :: "long \<Rightarrow> cstate \<Rightarrow> (long \<times> cstate) outcome \<Rightarrow> bool" where
  "tloop v s r \<longleftrightarrow> (\<exists>F. \<forall>g\<ge>F. \<forall>n\<ge>F. term_loop n (factor (expr g)) v s = r)"

definition terms :: "cstate \<Rightarrow> (long \<times> cstate) outcome \<Rightarrow> bool" where
  "terms s r \<longleftrightarrow> (\<exists>F. \<forall>g\<ge>F. \<forall>n\<ge>F. term_expr n (factor (expr g)) s = r)"

definition eloop :: "long \<Rightarrow> cstate \<Rightarrow> (long \<times> cstate) outcome \<Rightarrow> bool" where
  "eloop v s r \<longleftrightarrow> (\<exists>F. \<forall>g\<ge>F. \<forall>n\<ge>F. \<forall>k\<ge>F. expr_loop k (term_expr n (factor (expr g))) v s = r)"

lemma Suc_max_le: "Suc (max a b) \<le> k \<Longrightarrow> \<exists>k'. k = Suc k' \<and> a \<le> k' \<and> b \<le> k'"
  by (cases k) auto

lemma tloop_stop: "getCurChar (cs, False) \<noteq> CHR ''*'' \<Longrightarrow> getCurChar (cs, False) \<noteq> CHR ''/'' \<Longrightarrow> tloop v (cs, False) (Ok (v, cs, False))"
  unfolding tloop_def by (rule exI [of _ 1]) (auto simp: Suc_le_eq gr0_conv_Suc)

lemma eloop_stop: "getCurChar (cs, False) \<noteq> CHR ''+'' \<Longrightarrow> getCurChar (cs, False) \<noteq> CHR ''-'' \<Longrightarrow> eloop v (cs, False) (Ok (v, cs, False))"
  unfolding eloop_def by (rule exI [of _ 1]) (auto simp: Suc_le_eq gr0_conv_Suc)

lemma facs_par: "exprs (ffSpace (cs, False)) (case x of None \<Rightarrow> Crash | Some v \<Rightarrow> Ok (v, CHR '')'' # ds, False)) \<Longrightarrow>
    facs (CHR ''('' # cs, False) (case x of None \<Rightarrow> Crash | Some v \<Rightarrow> Ok (v, ds, False))"
  unfolding exprs_def facs_def by (elim exE) (rule exI, auto simp: factor_def split: option.splits)

lemma terms_step: "facs (cs, False) (case x of None \<Rightarrow> Crash | Some v \<Rightarrow> Ok (v, ds, False)) \<Longrightarrow>
    (\<And>v. x = Some v \<Longrightarrow> tloop v (ffSpace (ds, False)) r) \<Longrightarrow> (x = None \<Longrightarrow> r = Crash) \<Longrightarrow> terms (cs, False) r"
proof -
  assume f: "facs (cs, False) (case x of None \<Rightarrow> Crash | Some v \<Rightarrow> Ok (v, ds, False))"
    and l: "\<And>v. x = Some v \<Longrightarrow> tloop v (ffSpace (ds, False)) r" and c: "x = None \<Longrightarrow> r = Crash"
  obtain F where F: "\<And>g. F \<le> g \<Longrightarrow> factor (expr g) (cs, False) = (case x of None \<Rightarrow> Crash | Some v \<Rightarrow> Ok (v, ds, False))"
    using f unfolding facs_def by blast
  show ?thesis
  proof (cases x)
    case None
    then show ?thesis using F c unfolding terms_def by (intro exI [of _ F]) (simp add: term_expr_def)
  next
    case (Some v)
    obtain F' where "\<And>g n. F' \<le> g \<Longrightarrow> F' \<le> n \<Longrightarrow> term_loop n (factor (expr g)) v (ffSpace (ds, False)) = r"
      using l [OF Some] unfolding tloop_def by blast
    then show ?thesis using F Some unfolding terms_def by (intro exI [of _ "max F F'"]) (simp add: term_expr_def)
  qed
qed

lemma tloop_step: "facs (ffSpace (cs, False)) (case x of None \<Rightarrow> Crash | Some t \<Rightarrow> Ok (t, ds, False)) \<Longrightarrow>
    c = CHR ''*'' \<and> g = (\<lambda>a b. Some (a * b)) \<or> c = CHR ''/'' \<and> g = ldiv \<Longrightarrow>
    (\<And>w. both g (Some v) x = Some w \<Longrightarrow> tloop w (ds, False) r) \<Longrightarrow> (both g (Some v) x = None \<Longrightarrow> r = Crash) \<Longrightarrow> tloop v (c # cs, False) r"
proof -
  assume f: "facs (ffSpace (cs, False)) (case x of None \<Rightarrow> Crash | Some t \<Rightarrow> Ok (t, ds, False))"
    and c: "c = CHR ''*'' \<and> g = (\<lambda>a b. Some (a * b)) \<or> c = CHR ''/'' \<and> g = ldiv"
    and l: "\<And>w. both g (Some v) x = Some w \<Longrightarrow> tloop w (ds, False) r" and n: "both g (Some v) x = None \<Longrightarrow> r = Crash"
  obtain F where F: "\<And>h. F \<le> h \<Longrightarrow> factor (expr h) (ffSpace (cs, False)) = (case x of None \<Rightarrow> Crash | Some t \<Rightarrow> Ok (t, ds, False))"
    using f unfolding facs_def by blast
  obtain F' where F': "\<And>h n w. both g (Some v) x = Some w \<Longrightarrow> F' \<le> h \<Longrightarrow> F' \<le> n \<Longrightarrow> term_loop n (factor (expr h)) w (ds, False) = r"
    using l unfolding tloop_def by (cases "both g (Some v) x") auto
  have "term_loop (Suc k) (factor (expr h)) v (c # cs, False) = r" if "F \<le> h" "F' \<le> h" "F' \<le> k" for h k
    using F [OF that(1)] F' [OF _ that(2,3)] c n by (cases x; cases "both g (Some v) x") (auto simp: both_def split: option.splits)
  then show ?thesis unfolding tloop_def by (intro exI [of _ "Suc (max F F')"] allI impI) (auto dest!: Suc_max_le)
qed

lemma exprs_step: "terms (cs, False) (case x of None \<Rightarrow> Crash | Some v \<Rightarrow> Ok (v, ds, False)) \<Longrightarrow>
    (\<And>v. x = Some v \<Longrightarrow> eloop v (ffSpace (ds, False)) r) \<Longrightarrow> (x = None \<Longrightarrow> r = Crash) \<Longrightarrow> exprs (cs, False) r"
proof -
  assume f: "terms (cs, False) (case x of None \<Rightarrow> Crash | Some v \<Rightarrow> Ok (v, ds, False))"
    and l: "\<And>v. x = Some v \<Longrightarrow> eloop v (ffSpace (ds, False)) r" and c: "x = None \<Longrightarrow> r = Crash"
  obtain F where F: "\<And>g n. F \<le> g \<Longrightarrow> F \<le> n \<Longrightarrow> term_expr n (factor (expr g)) (cs, False) = (case x of None \<Rightarrow> Crash | Some v \<Rightarrow> Ok (v, ds, False))"
    using f unfolding terms_def by blast
  obtain F' where F': "\<And>g n k v. x = Some v \<Longrightarrow> F' \<le> g \<Longrightarrow> F' \<le> n \<Longrightarrow> F' \<le> k \<Longrightarrow> expr_loop k (term_expr n (factor (expr g))) v (ffSpace (ds, False)) = r"
    using l unfolding eloop_def by (cases x) auto
  have "expr (Suc h) (cs, False) = r" if "F \<le> h" "F' \<le> h" for h
    using F [of h "Suc h"] F' [of _ h "Suc h" "Suc h"] that c by (cases x) (simp_all del: expr_loop.simps)
  then show ?thesis unfolding exprs_def by (intro exI [of _ "Suc (max F F')"] allI impI) (auto dest!: Suc_max_le simp del: expr.simps)
qed

lemma eloop_step: "terms (ffSpace (cs, False)) (case x of None \<Rightarrow> Crash | Some t \<Rightarrow> Ok (t, ds, False)) \<Longrightarrow>
    c = CHR ''+'' \<and> g = (\<lambda>a b. a + b) \<or> c = CHR ''-'' \<and> g = (\<lambda>a b. a - b) \<Longrightarrow>
    (\<And>t. x = Some t \<Longrightarrow> eloop (g v t) (ffSpace (ds, False)) r) \<Longrightarrow> (x = None \<Longrightarrow> r = Crash) \<Longrightarrow> eloop v (c # cs, False) r"
proof -
  assume f: "terms (ffSpace (cs, False)) (case x of None \<Rightarrow> Crash | Some t \<Rightarrow> Ok (t, ds, False))"
    and c: "c = CHR ''+'' \<and> g = (\<lambda>a b. a + b) \<or> c = CHR ''-'' \<and> g = (\<lambda>a b. a - b)"
    and l: "\<And>t. x = Some t \<Longrightarrow> eloop (g v t) (ffSpace (ds, False)) r" and n: "x = None \<Longrightarrow> r = Crash"
  obtain F where F: "\<And>h n. F \<le> h \<Longrightarrow> F \<le> n \<Longrightarrow> term_expr n (factor (expr h)) (ffSpace (cs, False)) = (case x of None \<Rightarrow> Crash | Some t \<Rightarrow> Ok (t, ds, False))"
    using f unfolding terms_def by blast
  obtain F' where F': "\<And>h n k t. x = Some t \<Longrightarrow> F' \<le> h \<Longrightarrow> F' \<le> n \<Longrightarrow> F' \<le> k \<Longrightarrow> expr_loop k (term_expr n (factor (expr h))) (g v t) (ffSpace (ds, False)) = r"
    using l unfolding eloop_def by (cases x) auto
  have "expr_loop (Suc k) (term_expr n (factor (expr h))) v (c # cs, False) = r" if "F \<le> h" "F' \<le> h" "F \<le> n" "F' \<le> n" "F' \<le> k" for h n k
    using F [OF that(1,3)] F' [OF _ that(2,4,5)] c n by (cases x) auto
  then show ?thesis unfolding eloop_def by (intro exI [of _ "Suc (max F F')"] allI impI) (auto dest!: Suc_max_le)
qed

section \<open>The evaluator computes the value\<close>

lemma show_first:
  "\<exists>c w. show_ex e = c # w \<and> c \<noteq> CHR '' '' \<and> c \<noteq> CHR 0x09" "\<exists>c w. show_tm t = c # w \<and> c \<noteq> CHR '' '' \<and> c \<noteq> CHR 0x09"
  "\<exists>c w. show_fc f = c # w \<and> c \<noteq> CHR '' '' \<and> c \<noteq> CHR 0x09"
proof (induction e and t and f)
  case (Num n)
  then show ?case using show_nat_first [of n] digit_char by fastforce
qed auto

lemma no_space: "ffSpace (show_ex e @ cs, b) = (show_ex e @ cs, b)" "ffSpace (show_tm t @ cs, b) = (show_tm t @ cs, b)"
    "ffSpace (show_fc f @ cs, b) = (show_fc f @ cs, b)"
  using show_first(1) [of e] show_first(2) [of t] show_first(3) [of f] by auto

lemma ends_no_space: "ends ''+-*/)$'' cs \<Longrightarrow> ffSpace (cs, b) = (cs, b)"
  by (auto simp: ends_def)

lemma ends_mono: "ends ''+-)$'' cs \<Longrightarrow> ends ''+-*/)$'' cs"
  by (auto simp: ends_def)

lemma facs_number: "ends ''+-*/)$'' cs \<Longrightarrow> facs (show_nat n @ cs, False) (Ok (of_nat n, cs, False))"
  and facs_neg: "ends ''+-*/)$'' cs \<Longrightarrow> facs (CHR ''-'' # show_nat n @ cs, False) (Ok (- of_nat n, cs, False))"
proof -
  assume e: "ends ''+-*/)$'' cs"
  obtain d w where d: "show_nat n = digit_of d # w" "d < 10" using show_nat_first by blast
  have s: "ffSpace (show_nat n @ cs, False) = (show_nat n @ cs, False)" using d digit_char [OF d(2)] by simp
  have c: "getCurChar (show_nat n @ cs, False) \<noteq> CHR ''(''" "getCurChar (show_nat n @ cs, False) \<noteq> CHR ''-''"
    using d digit_char [OF d(2)] by simp_all
  show "facs (show_nat n @ cs, False) (Ok (of_nat n, cs, False))"
    unfolding facs_def factor_def s Let_def using c number_show [OF e] by simp
  show "facs (CHR ''-'' # show_nat n @ cs, False) (Ok (- of_nat n, cs, False))"
    unfolding facs_def factor_def Let_def using s number_show [OF e] by simp
qed

lemma evaluates:
  "\<And>cs r. ends ''+-)$'' cs \<Longrightarrow> (\<And>v. eval_ex e = Some v \<Longrightarrow> eloop v (cs, False) r) \<Longrightarrow> (eval_ex e = None \<Longrightarrow> r = Crash) \<Longrightarrow>
     exprs (show_ex e @ cs, False) r"
  "\<And>cs r. ends ''+-*/)$'' cs \<Longrightarrow> (\<And>v. eval_tm t = Some v \<Longrightarrow> tloop v (cs, False) r) \<Longrightarrow> (eval_tm t = None \<Longrightarrow> r = Crash) \<Longrightarrow>
     terms (show_tm t @ cs, False) r"
  "\<And>cs. ends ''+-*/)$'' cs \<Longrightarrow> facs (show_fc f @ cs, False) (case eval_fc f of None \<Rightarrow> Crash | Some v \<Rightarrow> Ok (v, cs, False))"
proof (induction e and t and f)
  case (Tm t)
  have e: "ends ''+-*/)$'' cs" using Tm.prems(1) by (rule ends_mono)
  have "terms (show_tm t @ cs, False) (case eval_tm t of None \<Rightarrow> Crash | Some v \<Rightarrow> Ok (v, cs, False))"
    by (rule Tm.IH [OF e]) (use Tm.prems(1) in \<open>auto simp: ends_def intro!: tloop_stop\<close>)
  then show ?case unfolding show_ex.simps
    by (rule exprs_step) (use Tm.prems ends_no_space [OF e] in simp_all)
next
  case (Add e t)
  have t: "terms (ffSpace (show_tm t @ cs, False)) (case eval_tm t of None \<Rightarrow> Crash | Some v \<Rightarrow> Ok (v, cs, False))"
    unfolding no_space
    by (rule Add.IH(2) [OF ends_mono [OF Add.prems(1)]]) (use Add.prems(1) in \<open>auto simp: ends_def intro!: tloop_stop\<close>)
  have "exprs (show_ex e @ CHR ''+'' # show_tm t @ cs, False) r"
  proof (rule Add.IH(1))
    show "eloop v (CHR ''+'' # show_tm t @ cs, False) r" if "eval_ex e = Some v" for v
      by (rule eloop_step [OF t]) (use that Add.prems ends_no_space [OF ends_mono [OF Add.prems(1)]] in \<open>auto simp: both_def\<close>)
    show "r = Crash" if "eval_ex e = None" using that Add.prems(3) by (simp add: both_def)
  qed (simp add: ends_def)
  then show ?case by simp
next
  case (Sub e t)
  have t: "terms (ffSpace (show_tm t @ cs, False)) (case eval_tm t of None \<Rightarrow> Crash | Some v \<Rightarrow> Ok (v, cs, False))"
    unfolding no_space
    by (rule Sub.IH(2) [OF ends_mono [OF Sub.prems(1)]]) (use Sub.prems(1) in \<open>auto simp: ends_def intro!: tloop_stop\<close>)
  have "exprs (show_ex e @ CHR ''-'' # show_tm t @ cs, False) r"
  proof (rule Sub.IH(1))
    show "eloop v (CHR ''-'' # show_tm t @ cs, False) r" if "eval_ex e = Some v" for v
      by (rule eloop_step [OF t]) (use that Sub.prems ends_no_space [OF ends_mono [OF Sub.prems(1)]] in \<open>auto simp: both_def\<close>)
    show "r = Crash" if "eval_ex e = None" using that Sub.prems(3) by (simp add: both_def)
  qed (simp add: ends_def)
  then show ?case by simp
next
  case (Fc f)
  show ?case unfolding show_tm.simps
    by (rule terms_step [OF Fc.IH [OF Fc.prems(1)]]) (use Fc.prems ends_no_space [OF Fc.prems(1)] in simp_all)
next
  case (Mul t f)
  note f = Mul.IH(2) [OF Mul.prems(1)]
  have "terms (show_tm t @ CHR ''*'' # show_fc f @ cs, False) r"
  proof (rule Mul.IH(1))
    show "tloop v (CHR ''*'' # show_fc f @ cs, False) r" if "eval_tm t = Some v" for v
      by (rule tloop_step [where x = "eval_fc f" and ds = cs and g = "\<lambda>a b. Some (a * b)"])
        (use that Mul.prems f in \<open>auto simp: no_space both_def simp del: ffSpace.simps\<close>)
    show "r = Crash" if "eval_tm t = None" using that Mul.prems(3) by (simp add: both_def)
  qed (simp add: ends_def)
  then show ?case by simp
next
  case (Div t f)
  note f = Div.IH(2) [OF Div.prems(1)]
  have "terms (show_tm t @ CHR ''/'' # show_fc f @ cs, False) r"
  proof (rule Div.IH(1))
    show "tloop v (CHR ''/'' # show_fc f @ cs, False) r" if "eval_tm t = Some v" for v
      by (rule tloop_step [where x = "eval_fc f" and ds = cs and g = ldiv])
        (use that Div.prems f in \<open>auto simp: no_space simp del: ffSpace.simps\<close>)
    show "r = Crash" if "eval_tm t = None" using that Div.prems(3) by (simp add: both_def)
  qed (simp add: ends_def)
  then show ?case by simp
next
  case (Num n)
  then show ?case using facs_number by simp
next
  case (Neg n)
  then show ?case using facs_neg by simp
next
  case (Par e)
  have "exprs (ffSpace (show_ex e @ CHR '')'' # cs, False)) (case eval_ex e of None \<Rightarrow> Crash | Some v \<Rightarrow> Ok (v, CHR '')'' # cs, False))"
    unfolding no_space by (rule Par.IH) (auto simp: ends_def intro!: eloop_stop)
  then show ?case using facs_par [where cs = "show_ex e @ CHR '')'' # cs" and x = "eval_ex e" and ds = cs] by simp
qed

text \<open>
  C26: The evaluator terminates on every input line: with fuel for every character of the line and one
  more it never runs out, and any larger amount gives the same result.
\<close>

theorem calc_terminates:
  "\<forall>cs e k. expr (length cs + 1 + k) (cs, e) \<noteq> NoFuel \<and> expr (length cs + 1 + k) (cs, e) = expr (enough cs) (cs, e)"
proof (intro allI)
  fix cs :: string and e k
  have "expr (enough cs) (cs, e) \<noteq> NoFuel"
    using total_uptoD [OF expr_total [of "length cs" "enough cs"], of "(cs, e)"] by (auto simp: enough_def shrinks_def)
  then show "expr (length cs + 1 + k) (cs, e) \<noteq> NoFuel \<and> expr (length cs + 1 + k) (cs, e) = expr (enough cs) (cs, e)"
    using betterD [OF expr_better [of "enough cs" "length cs + 1 + k"], of "(cs, e)"] by (simp add: enough_def)
qed


text \<open>Lines the comment's grammar derives, or does not derive, and what the code does with them.\<close>

lemma calc_departs_from_grammar:
  "calc ''-(1)'' = Some Syntax_error" "calc ''1*2 *3'' = Some Syntax_error" "calc ''1 *2*3'' = Some (Printed 6)"
  "calc ''1+'' = Some (Printed 1)" "calc ''1/'' = Some Killed"
  by code_simp+

end
