(* ===== verification/Grep.thy ===== *)
theory Grep
  imports Main
begin

text \<open>
  The user program \<^verbatim>\<open>grep.c\<close>: the regular-expression matcher and the line buffer. A C string is the
  list of its characters before the NUL. The input arrives as the list of what the calls of
  \<^verbatim>\<open>read\<close> return; \<open>grep_read\<close> is one round of the read loop on the bytes left over in \<^verbatim>\<open>buf\<close>.
\<close>

section \<open>The matcher\<close>

function matchhere :: "string \<Rightarrow> string \<Rightarrow> bool" and matchstar :: "char \<Rightarrow> string \<Rightarrow> string \<Rightarrow> bool" where
  "matchhere re text = (if re = [] then True
     else if tl re \<noteq> [] \<and> hd (tl re) = CHR ''*'' then matchstar (hd re) (drop 2 re) text
     else if hd re = CHR ''$'' \<and> tl re = [] then text = []
     else if text \<noteq> [] \<and> (hd re = CHR ''.'' \<or> hd re = hd text) then matchhere (tl re) (tl text)
     else False)"
| "matchstar c re text = (if matchhere re text then True
     else if text \<noteq> [] \<and> (hd text = c \<or> c = CHR ''.'') then matchstar c re (tl text) else False)"
  by pat_completeness auto
termination
  by (relation "measures [\<lambda>x. case x of Inl (re, t) \<Rightarrow> length re | Inr (c, re, t) \<Rightarrow> Suc (length re),
      \<lambda>x. case x of Inl (re, t) \<Rightarrow> 0 | Inr (c, re, t) \<Rightarrow> length t]") (auto simp: neq_Nil_conv)

declare matchhere.simps [simp del] matchstar.simps [simp del]

text \<open>\<^verbatim>\<open>match\<close>: the loop over the suffixes of the text, the empty one included.\<close>

fun match_loop :: "string \<Rightarrow> string \<Rightarrow> bool" where
  "match_loop re [] = matchhere re []"
| "match_loop re (c # text) = (if matchhere re (c # text) then True else match_loop re text)"

definition match :: "string \<Rightarrow> string \<Rightarrow> bool" where
  "match re text = (if re \<noteq> [] \<and> hd re = CHR ''^'' then matchhere (tl re) text else match_loop re text)"

section \<open>The buffer\<close>

definition newline :: char where "newline = CHR 0x0A"

text \<open>\<^verbatim>\<open>strchr(p, '\n')\<close> on the bytes of the buffer from \<open>p\<close>, which end with a NUL: the bytes before and after.\<close>

fun split_line :: "string \<Rightarrow> (string \<times> string) option" where
  "split_line [] = None"
| "split_line (c # cs) = (if c = newline then Some ([], cs) else if c = CHR 0x00 then None
     else map_option (\<lambda>(l, r). (c # l, r)) (split_line cs))"

lemma split_line_app: "split_line p = Some (l, r) \<Longrightarrow> p = l @ newline # r"
  by (induction p arbitrary: l) (auto split: if_splits)

text \<open>The inner loop: what is printed, and the bytes from the last \<open>p\<close> on.\<close>

function grep_lines :: "string \<Rightarrow> string \<Rightarrow> string \<times> string" where
  "grep_lines re p = (case split_line p of None \<Rightarrow> ([], p)
     | Some (l, r) \<Rightarrow> (case grep_lines re r of (out, q) \<Rightarrow> ((if match re l then l @ [newline] else []) @ out, q)))"
  by pat_completeness auto
termination by (relation "measure (\<lambda>(re, p). length p)") (auto dest: split_line_app)

declare grep_lines.simps [simp del]

text \<open>One round: \<open>left\<close> are the \<^verbatim>\<open>m\<close> bytes kept in the buffer, \<open>chunk\<close> what \<^verbatim>\<open>read\<close> stores after them.\<close>

definition grep_read :: "string \<Rightarrow> string \<Rightarrow> string \<Rightarrow> string \<times> string" where
  "grep_read re left chunk = (let buf = left @ chunk; (out, p) = grep_lines re buf
     in (out, if length p = length buf then [] else p))"

fun grep_loop :: "string \<Rightarrow> string \<Rightarrow> string list \<Rightarrow> string" where
  "grep_loop re left [] = []"
| "grep_loop re left (chunk # chunks) = (if chunk = [] then [] else
     case grep_read re left chunk of (out, left') \<Rightarrow> out @ grep_loop re left' chunks)"

definition grep :: "string \<Rightarrow> string list \<Rightarrow> string" where
  "grep re chunks = grep_loop re [] chunks"

section \<open>What a pattern means\<close>

text \<open>
  The items of a pattern, the words each stands for, and when a pattern matches at the start of a
  text: the text starts with a word of each item in turn, up to its end where the pattern says so.
\<close>

datatype item = One char | Star char | End

fun items :: "string \<Rightarrow> item list" where
  "items [] = []"
| "items [c] = (if c = CHR ''$'' then [End] else [One c])"
| "items (c # d # re) = (if d = CHR ''*'' then Star c # items re else One c # items (d # re))"

definition fits :: "char \<Rightarrow> char \<Rightarrow> bool" where
  "fits c x \<longleftrightarrow> c = CHR ''.'' \<or> x = c"

fun words :: "item \<Rightarrow> string set" where
  "words (One c) = {[x] | x. fits c x}"
| "words (Star c) = {w. \<forall>x\<in>set w. fits c x}"
| "words End = {[]}"

definition starts :: "item list \<Rightarrow> string \<Rightarrow> bool" where
  "starts its t \<longleftrightarrow> (\<exists>ws rest. list_all2 (\<lambda>it w. w \<in> words it) its ws \<and> t = concat ws @ rest \<and> (End \<in> set its \<longrightarrow> rest = []))"

definition matches :: "string \<Rightarrow> string \<Rightarrow> bool" where
  "matches re t \<longleftrightarrow> (case re of CHR ''^'' # re' \<Rightarrow> starts (items re') t | _ \<Rightarrow> \<exists>u v. t = u @ v \<and> starts (items re) v)"

lemma starts_Nil: "starts [] t"
  by (simp add: starts_def)

lemma starts_End: "starts [End] t \<longleftrightarrow> t = []"
  by (auto simp: starts_def list_all2_Cons1)

lemma starts_One: "starts (One c # its) t \<longleftrightarrow> (\<exists>x u. t = x # u \<and> fits c x \<and> starts its u)"
  unfolding starts_def list_all2_Cons1 by fastforce

lemma starts_Star: "starts (Star c # its) t \<longleftrightarrow> starts its t \<or> (\<exists>x u. t = x # u \<and> fits c x \<and> starts (Star c # its) u)"
proof
  assume "starts (Star c # its) t"
  then obtain w ws rest where w: "\<forall>x\<in>set w. fits c x" "list_all2 (\<lambda>it w. w \<in> words it) its ws" "t = w @ concat ws @ rest" "End \<in> set its \<longrightarrow> rest = []"
    unfolding starts_def list_all2_Cons1 by auto
  show "starts its t \<or> (\<exists>x u. t = x # u \<and> fits c x \<and> starts (Star c # its) u)"
  proof (cases w)
    case Nil
    then show ?thesis using w unfolding starts_def by auto
  next
    case (Cons x w')
    then have "starts (Star c # its) (w' @ concat ws @ rest)" unfolding starts_def list_all2_Cons1 using w by fastforce
    then show ?thesis using w Cons by auto
  qed
next
  assume "starts its t \<or> (\<exists>x u. t = x # u \<and> fits c x \<and> starts (Star c # its) u)"
  then show "starts (Star c # its) t"
  proof
    assume "starts its t"
    then obtain ws rest where "list_all2 (\<lambda>it w. w \<in> words it) its ws" "t = concat ws @ rest" "End \<in> set its \<longrightarrow> rest = []" unfolding starts_def by blast
    then show ?thesis unfolding starts_def by (intro exI [of _ "[] # ws"]) auto
  next
    assume "\<exists>x u. t = x # u \<and> fits c x \<and> starts (Star c # its) u"
    then obtain x u vs rest where t: "t = x # u" "fits c x" "list_all2 (\<lambda>it w. w \<in> words it) (Star c # its) vs" "u = concat vs @ rest"
      "End \<in> set its \<longrightarrow> rest = []" unfolding starts_def by auto
    then obtain w ws where x: "vs = w # ws" "\<forall>x\<in>set w. fits c x" "list_all2 (\<lambda>it w. w \<in> words it) its ws" by (auto simp: list_all2_Cons1)
    then show ?thesis unfolding starts_def using t by (intro exI [of _ "(x # w) # ws"] exI [of _ rest]) auto
  qed
qed

lemma match_starts: "matchhere re t \<longleftrightarrow> starts (items re) t" "matchstar c re t \<longleftrightarrow> starts (Star c # items re) t"
proof (induction re t and c re t rule: matchhere_matchstar.induct)
  case (1 re t)
  note IH = 1
  show ?case
  proof (cases re rule: items.cases)
    case 1
    then show ?thesis by (simp add: matchhere.simps starts_Nil)
  next
    case (2 c)
    then show ?thesis using IH(2) by (subst matchhere.simps) (auto simp: starts_End starts_One fits_def neq_Nil_conv)
  next
    case (3 c d r)
    then show ?thesis using IH by (subst matchhere.simps) (auto simp: starts_One fits_def neq_Nil_conv)
  qed
next
  case (2 c re t)
  then show ?case by (subst matchstar.simps, subst starts_Star) (auto simp: fits_def neq_Nil_conv)
qed

lemma match_loop_suffix: "match_loop re t \<longleftrightarrow> (\<exists>u v. t = u @ v \<and> matchhere re v)"
proof (induction t)
  case (Cons c t)
  have "(\<exists>u v. c # t = u @ v \<and> matchhere re v) \<longleftrightarrow> matchhere re (c # t) \<or> (\<exists>u v. t = u @ v \<and> matchhere re v)"
    by (metis append_Cons append_Nil list.inject neq_Nil_conv)
  then show ?case using Cons by simp
qed simp

lemma match_matches: "match re t \<longleftrightarrow> matches re t"
  by (auto simp: match_def matches_def match_loop_suffix match_starts split: list.splits char.splits bool.splits)

section \<open>What is printed\<close>

abbreviation printed :: "string list \<Rightarrow> string" where
  "printed ls \<equiv> concat (map (\<lambda>l. l @ [newline]) ls)"

lemma split_line_plain: "newline \<notin> set l \<Longrightarrow> CHR 0x00 \<notin> set l \<Longrightarrow> split_line (l @ newline # r) = Some (l, r)"
  by (induction l) auto

lemma split_line_none: "newline \<notin> set l \<Longrightarrow> split_line l = None"
  by (induction l) auto

lemma grep_lines_printed:
  "\<forall>l\<in>set ls. newline \<notin> set l \<and> CHR 0x00 \<notin> set l \<Longrightarrow> newline \<notin> set tail \<Longrightarrow>
    grep_lines re (printed ls @ tail) = (printed (filter (match re) ls), tail)"
  by (induction ls) (subst grep_lines.simps, simp add: split_line_none split_line_plain)+

lemma split_line_append: "split_line s = Some (l, r) \<Longrightarrow> split_line (s @ t) = Some (l, r @ t)"
  by (induction s arbitrary: l) (auto split: if_splits)

lemma split_line_found: "newline \<in> set s \<Longrightarrow> CHR 0x00 \<notin> set s \<Longrightarrow> split_line s \<noteq> None"
  by (induction s) auto

lemma grep_lines_induct [case_names None Some]:
  assumes "\<And>p. split_line p = None \<Longrightarrow> P p" and "\<And>p l r. split_line p = Some (l, r) \<Longrightarrow> P r \<Longrightarrow> P p"
  shows "P p"
proof (induction p rule: length_induct)
  case (1 p)
  show ?case
  proof (cases "split_line p")
    case None
    then show ?thesis by (rule assms(1))
  next
    case (Some lr)
    obtain l r where lr: "split_line p = Some (l, r)" using Some by force
    then show ?thesis using 1 split_line_app [OF lr] by (intro assms(2) [OF lr]) auto
  qed
qed

lemma grep_lines_none: "split_line p = None \<Longrightarrow> grep_lines re p = ([], p)"
  by (simp add: grep_lines.simps)

lemma grep_lines_some: "split_line p = Some (l, r) \<Longrightarrow> grep_lines re p = (case grep_lines re r of (out, q) \<Rightarrow> ((if match re l then l @ [newline] else []) @ out, q))"
  by (subst grep_lines.simps) simp

lemma grep_lines_append:
  "grep_lines re (s @ t) = (case grep_lines re s of (out, p) \<Rightarrow> case grep_lines re (p @ t) of (out', q) \<Rightarrow> (out @ out', q))"
proof (induction s rule: grep_lines_induct)
  case (None p)
  then show ?case by (simp add: grep_lines_none split: prod.split)
next
  case (Some p l r)
  then show ?case using split_line_append [OF Some(1), of t] by (simp add: grep_lines_some split: prod.splits)
qed

lemma grep_lines_rest:
  "set (snd (grep_lines re p)) \<subseteq> set p \<and> length (snd (grep_lines re p)) \<le> length p \<and> grep_lines re (snd (grep_lines re p)) = ([], snd (grep_lines re p))"
proof (induction p rule: grep_lines_induct)
  case (None p)
  then show ?case by (simp add: grep_lines_none)
next
  case (Some p l r)
  then show ?case using split_line_app [OF Some(1)] by (auto simp: grep_lines_some split: prod.splits)
qed

lemma grep_lines_shorter: "newline \<in> set p \<Longrightarrow> CHR 0x00 \<notin> set p \<Longrightarrow> length (snd (grep_lines re p)) < length p"
proof -
  assume "newline \<in> set p" "CHR 0x00 \<notin> set p"
  then obtain l r where s: "split_line p = Some (l, r)" using split_line_found by fastforce
  then show ?thesis using grep_lines_rest [of re r] split_line_app [OF s] by (auto simp: grep_lines_some split: prod.split)
qed

lemma grep_loop_lines:
  "\<forall>c\<in>set chunks. newline \<in> set c \<and> CHR 0x00 \<notin> set c \<Longrightarrow> CHR 0x00 \<notin> set left \<Longrightarrow>
    snd (grep_lines re left) = left \<and> fst (grep_lines re left) = [] \<Longrightarrow> grep_loop re left chunks = fst (grep_lines re (left @ concat chunks))"
proof (induction chunks arbitrary: left)
  case (Cons c chunks)
  obtain out p where g: "grep_lines re (left @ c) = (out, p)" by force
  have p: "length p < length (left @ c)" "CHR 0x00 \<notin> set p"
    using grep_lines_shorter [of "left @ c" re] grep_lines_rest [of re "left @ c"] Cons.prems g by auto
  have q: "grep_lines re p = ([], p)" using grep_lines_rest [of re "left @ c"] g by simp
  have "grep_loop re left (c # chunks) = out @ grep_loop re p chunks"
    using g p Cons.prems by (auto simp: grep_read_def)
  also have "grep_loop re p chunks = fst (grep_lines re (p @ concat chunks))"
    by (rule Cons.IH) (use Cons.prems p q in auto)
  finally show ?case using grep_lines_append [of re "left @ c" "concat chunks"] g by (auto split: prod.splits)
qed simp

text \<open>
  C27: However the input is cut into reads, as long as each brings a newline: \<^verbatim>\<open>grep\<close> prints exactly the
  lines a part of which the pattern describes, in order, and not an unterminated last line. A read
  after which the buffer holds no newline is thrown away with what the buffer held.
\<close>

theorem grep_prints_matching_lines:
  assumes "concat chunks = printed ls @ tail" "\<forall>l\<in>set ls. newline \<notin> set l \<and> CHR 0x00 \<notin> set l" "newline \<notin> set tail"
    and "\<forall>c\<in>set chunks. newline \<in> set c \<and> CHR 0x00 \<notin> set c"
  shows "grep re chunks = printed (filter (matches re) ls) \<and>
    (\<forall>left chunk. newline \<notin> set (left @ chunk) \<longrightarrow> grep_read re left chunk = ([], []))"
proof
  have "grep re chunks = fst (grep_lines re (concat chunks))"
    unfolding grep_def using grep_loop_lines [OF assms(4), of "[]" re] by (simp add: grep_lines_none)
  also have "\<dots> = printed (filter (match re) ls)" using grep_lines_printed [OF assms(2,3)] by (simp add: assms(1))
  also have "filter (match re) ls = filter (matches re) ls" by (simp add: match_matches cong: filter_cong)
  finally show "grep re chunks = printed (filter (matches re) ls)" .
  show "\<forall>left chunk. newline \<notin> set (left @ chunk) \<longrightarrow> grep_read re left chunk = ([], [])"
    using split_line_none by (auto simp: grep_read_def grep_lines_none Let_def)
qed

text \<open>The pattern \<^verbatim>\<open>^a.*c$\<close> on three lines that arrive in two reads.\<close>

theorem grep_prints_matching_lines_witness:
  "grep ''^a.*c$'' [''abc'' @ newline # ''xab'', ''c'' @ newline # ''ac'' @ newline # ''a''] = printed (filter (matches ''^a.*c$'') [''abc'', ''xabc'', ''ac'']) \<and>
   grep ''^a.*c$'' [''abc'' @ newline # ''xab'', ''c'' @ newline # ''ac'' @ newline # ''a''] = ''abc'' @ newline # ''ac'' @ [newline]"
proof
  show "grep ''^a.*c$'' [''abc'' @ newline # ''xab'', ''c'' @ newline # ''ac'' @ newline # ''a''] = printed (filter (matches ''^a.*c$'') [''abc'', ''xabc'', ''ac''])"
    by (rule grep_prints_matching_lines [where tail = "''a''", THEN conjunct1]) (auto simp: newline_def)
  show "grep ''^a.*c$'' [''abc'' @ newline # ''xab'', ''c'' @ newline # ''ac'' @ newline # ''a''] = ''abc'' @ newline # ''ac'' @ [newline]"
    by code_simp
qed

end
