(* ===== verification/Ftl.thy ===== *)
theory Ftl
  imports "HOL-Library.Word"
begin

text \<open>
  The block-mapping flash translation layer of \<^verbatim>\<open>FileStructure/Project3\<close> (\<^verbatim>\<open>ftl.c\<close>, the device of
  \<^verbatim>\<open>devicedriver.h\<close>, the sizes of \<^verbatim>\<open>blkmap.h\<close>). A page is its sector and the \<^verbatim>\<open>lsn\<close> of its spare area;
  the rest of the spare area is never read. The device is a file with a position: a seek to a
  negative offset fails and leaves the position. \<open>None\<close> is undefined behaviour: \<^verbatim>\<open>saved_page\<close> has
  \<^verbatim>\<open>SECTORS_PER_PAGE\<close> rows, so storing at a later sector offset runs over the array.
\<close>

section \<open>The device\<close>

type_synonym sector = "8 word list"

definition SECTOR_SIZE :: nat where "SECTOR_SIZE = 512"
definition SECTORS_PER_PAGE :: nat where "SECTORS_PER_PAGE = 1"
definition PAGES_PER_BLOCK :: nat where "PAGES_PER_BLOCK = 32"
definition SECTORS_PER_BLOCK :: nat where "SECTORS_PER_BLOCK = SECTORS_PER_PAGE * PAGES_PER_BLOCK"
definition BLOCKS_PER_DEVICE :: nat where "BLOCKS_PER_DEVICE = 1024"
definition DATABLKS_PER_DEVICE :: nat where "DATABLKS_PER_DEVICE = BLOCKS_PER_DEVICE - 1"

lemmas ftl_sizes = SECTORS_PER_PAGE_def PAGES_PER_BLOCK_def SECTORS_PER_BLOCK_def BLOCKS_PER_DEVICE_def DATABLKS_PER_DEVICE_def

record page =
  pg_data :: sector
  pg_lsn :: int

definition erased :: page where
  "erased = \<lparr>pg_data = replicate SECTOR_SIZE (- 1), pg_lsn = - 1\<rparr>"

record ftl =
  dev :: "nat \<Rightarrow> page"
  fpos :: nat
  pbn :: "nat \<Rightarrow> int"
  reserved_empty_blk :: nat

definition seek_page :: "int \<Rightarrow> ftl \<Rightarrow> nat" where
  "seek_page ppn s = (if ppn < 0 then fpos s else nat ppn)"

definition dd_read :: "int \<Rightarrow> ftl \<Rightarrow> page option \<times> ftl" where
  "dd_read ppn s = (let p = seek_page ppn s in
     if p < BLOCKS_PER_DEVICE * PAGES_PER_BLOCK then (Some (dev s p), s\<lparr>fpos := p + 1\<rparr>) else (None, s\<lparr>fpos := p\<rparr>))"

definition dd_write :: "int \<Rightarrow> page \<Rightarrow> ftl \<Rightarrow> ftl" where
  "dd_write ppn pg s = (let p = seek_page ppn s in s\<lparr>dev := (dev s)(p := pg), fpos := p + 1\<rparr>)"

definition dd_erase :: "nat \<Rightarrow> ftl \<Rightarrow> ftl" where
  "dd_erase b s = s\<lparr>dev := (\<lambda>p. if p div PAGES_PER_BLOCK = b then erased else dev s p), fpos := (b + 1) * PAGES_PER_BLOCK\<rparr>"

section \<open>Pages\<close>

definition cal_sector_offset :: "nat \<Rightarrow> nat" where "cal_sector_offset lsn = lsn mod SECTORS_PER_BLOCK"
definition cal_lbn :: "nat \<Rightarrow> nat" where "cal_lbn lsn = lsn div SECTORS_PER_BLOCK"
definition cal_ppn :: "int \<Rightarrow> nat \<Rightarrow> int" where "cal_ppn b off = b * int PAGES_PER_BLOCK + int off"

definition create_page :: "sector \<Rightarrow> int \<Rightarrow> page" where
  "create_page d lsn = \<lparr>pg_data = d, pg_lsn = lsn\<rparr>"

text \<open>\<^verbatim>\<open>is_used\<close> with the page it has read, which is only defined when the read succeeds.\<close>

definition is_used :: "int \<Rightarrow> ftl \<Rightarrow> int \<times> ftl" where
  "is_used ppn s = (case dd_read ppn s of (None, t) \<Rightarrow> (- 1, t)
     | (Some pg, t) \<Rightarrow> (if pg_lsn pg \<ge> 0 then (1, t) else if pg_lsn pg = - 1 then (0, t) else (- 2, t)))"

text \<open>
  The copy loops: the pages of block \<open>b\<close> that are in use are read into \<^verbatim>\<open>saved_page\<close>, with a bit for
  each in \<^verbatim>\<open>saved_element\<close>; then they are written to another block.
\<close>

definition save_pages :: "int \<Rightarrow> nat list \<Rightarrow> ftl \<Rightarrow> ((nat \<times> page) list \<times> ftl) option" where
  "save_pages b offs s = fold (\<lambda>off r. case r of None \<Rightarrow> None | Some (saved, s) \<Rightarrow>
       (case dd_read (cal_ppn b off) s of (None, t) \<Rightarrow> None
        | (Some pg, t) \<Rightarrow> if pg_lsn pg > 0 then (if off < SECTORS_PER_PAGE then Some (saved @ [(off, pg)], t) else None)
            else Some (saved, t))) offs (Some ([], s))"

definition write_saved :: "int \<Rightarrow> (nat \<times> page) list \<Rightarrow> ftl \<Rightarrow> ftl" where
  "write_saved b saved s = fold (\<lambda>(off, pg). dd_write (cal_ppn b off) pg) saved s"

definition remap :: "int \<Rightarrow> int \<Rightarrow> ftl \<Rightarrow> ftl" where
  "remap old new s = (case find (\<lambda>l. pbn s l = old) [0..<DATABLKS_PER_DEVICE] of
     None \<Rightarrow> s | Some l \<Rightarrow> s\<lparr>pbn := (pbn s)(l := new)\<rparr>)"

text \<open>\<^verbatim>\<open>move_block\<close> erases \<^verbatim>\<open>reserved_empty_blk\<close>, which its caller passes as \<^verbatim>\<open>new_pbn\<close>.\<close>

definition move_block :: "nat \<Rightarrow> int \<Rightarrow> nat \<Rightarrow> ftl \<Rightarrow> ftl option" where
  "move_block new_pbn old_pbn except s =
     (case save_pages old_pbn (filter (\<lambda>off. off \<noteq> except) [0..<SECTORS_PER_BLOCK]) s of None \<Rightarrow> None
      | Some (saved, t) \<Rightarrow> Some (dd_erase (reserved_empty_blk t) (remap old_pbn (int new_pbn) (write_saved (int new_pbn) saved t))))"

section \<open>The interface\<close>

definition ftl_open :: "ftl \<Rightarrow> ftl" where
  "ftl_open s = s\<lparr>pbn := (\<lambda>i. if i < DATABLKS_PER_DEVICE then - 1 else pbn s i)\<rparr>"

definition print_addrmaptbl_info :: "nat \<Rightarrow> ftl \<Rightarrow> ftl" where
  "print_addrmaptbl_info lsn s = snd (dd_read (cal_ppn (pbn s (cal_lbn lsn)) (cal_sector_offset lsn)) s)"

text \<open>The search for a block: the first with a free page at the offset, and the last with a deleted one.\<close>

fun find_block :: "nat list \<Rightarrow> nat \<Rightarrow> int \<Rightarrow> ftl \<Rightarrow> nat option \<times> int \<times> ftl" where
  "find_block [] off unused s = (None, unused, s)"
| "find_block (b # bs) off unused s = (if b = reserved_empty_blk s then find_block bs off unused s
     else case is_used (cal_ppn (int b) off) s of (state, t) \<Rightarrow>
       if state = 0 then (Some b, unused, t)
       else find_block bs off (if state < - 1 then int b else unused) t)"

text \<open>The branch without a free page: \<^verbatim>\<open>unused_pbn\<close> is compacted, the new sector is not stored.\<close>

definition compact :: "int \<Rightarrow> ftl \<Rightarrow> ftl option" where
  "compact unused s = (case save_pages unused [0..<SECTORS_PER_BLOCK] s of None \<Rightarrow> None
     | Some (saved, t) \<Rightarrow> let u = remap unused (int (reserved_empty_blk t)) (write_saved (int (reserved_empty_blk t)) saved t)
         in Some (dd_erase (nat unused) (u\<lparr>reserved_empty_blk := nat unused\<rparr>)))"

definition ftl_write :: "nat \<Rightarrow> sector \<Rightarrow> ftl \<Rightarrow> ftl option" where
  "ftl_write lsn d s0 = (if lsn \<ge> DATABLKS_PER_DEVICE * SECTORS_PER_BLOCK then Some s0 else
     let s = print_addrmaptbl_info lsn s0; off = cal_sector_offset lsn; lbn = cal_lbn lsn; pg = create_page d (int lsn) in
     if pbn s lbn \<noteq> - 1 then
       (case is_used (cal_ppn (pbn s lbn) off) s of (used, t) \<Rightarrow>
         if used = 0 then Some (dd_write (cal_ppn (pbn t lbn) off) pg t)
         else let old = pbn t lbn in (case move_block (reserved_empty_blk t) old off t of None \<Rightarrow> None
           | Some u \<Rightarrow> Some ((dd_write (cal_ppn (int (reserved_empty_blk u)) off) pg u)\<lparr>reserved_empty_blk := nat old\<rparr>)))
     else (case find_block [0..<BLOCKS_PER_DEVICE] off (- 1) s of
         (Some b, _, t) \<Rightarrow> Some (dd_write (cal_ppn (int b) off) pg (t\<lparr>pbn := (pbn t)(lbn := int b)\<rparr>))
       | (None, unused, t) \<Rightarrow> if unused \<noteq> - 1 then compact unused t else Some t))"

definition ftl_read :: "nat \<Rightarrow> ftl \<Rightarrow> sector option \<times> ftl" where
  "ftl_read lsn s0 = (if lsn \<ge> DATABLKS_PER_DEVICE * SECTORS_PER_BLOCK then (None, s0) else
     let s = print_addrmaptbl_info lsn s0 in
     (case dd_read (cal_ppn (pbn s (cal_lbn lsn)) (cal_sector_offset lsn)) s of (r, t) \<Rightarrow> (map_option pg_data r, t)))"

section \<open>What the operations do to pages and mapping\<close>

definition ftl_ok :: "ftl \<Rightarrow> bool" where
  "ftl_ok s \<longleftrightarrow> reserved_empty_blk s < BLOCKS_PER_DEVICE \<and>
     (\<forall>l<DATABLKS_PER_DEVICE. pbn s l = - 1 \<or> 0 \<le> pbn s l \<and> pbn s l < int BLOCKS_PER_DEVICE \<and> pbn s l \<noteq> int (reserved_empty_blk s))"

definition page_at :: "ftl \<Rightarrow> nat \<Rightarrow> nat" where
  "page_at s lsn = nat (pbn s (cal_lbn lsn)) * PAGES_PER_BLOCK + cal_sector_offset lsn"

text \<open>States that differ in the file position only.\<close>

definition moved :: "ftl \<Rightarrow> ftl \<Rightarrow> bool" where
  "moved s t \<longleftrightarrow> dev t = dev s \<and> pbn t = pbn s \<and> reserved_empty_blk t = reserved_empty_blk s"

lemma moved_refl: "moved s s" and moved_trans: "moved s t \<Longrightarrow> moved t u \<Longrightarrow> moved s u"
  by (simp_all add: moved_def)

lemma moved_dd_read: "moved s (snd (dd_read ppn s))"
  by (simp add: moved_def dd_read_def Let_def)

lemma moved_print: "moved s (print_addrmaptbl_info lsn s)"
  by (simp add: print_addrmaptbl_info_def moved_dd_read)

lemma cal_ppn_page: "0 \<le> b \<Longrightarrow> cal_ppn b off = int (nat b * PAGES_PER_BLOCK + off)"
  by (simp add: cal_ppn_def)

lemma seek_page_int: "seek_page (int p) s = p"
  by (simp add: seek_page_def)

lemma dd_read_page: "0 \<le> b \<Longrightarrow> b < int BLOCKS_PER_DEVICE \<Longrightarrow> off < PAGES_PER_BLOCK \<Longrightarrow> fst (dd_read (cal_ppn b off) s) = Some (dev s (nat b * PAGES_PER_BLOCK + off))"
  by (simp add: cal_ppn_page dd_read_def seek_page_int Let_def ftl_sizes del: of_nat_add of_nat_mult)

lemma dd_write_page: "0 \<le> b \<Longrightarrow> dev (dd_write (cal_ppn b off) pg s) = (dev s)(nat b * PAGES_PER_BLOCK + off := pg) \<and>
    pbn (dd_write (cal_ppn b off) pg s) = pbn s \<and> reserved_empty_blk (dd_write (cal_ppn b off) pg s) = reserved_empty_blk s"
  by (simp add: cal_ppn_page dd_write_def seek_page_int Let_def del: of_nat_add of_nat_mult)

lemma is_used_page: "0 \<le> b \<Longrightarrow> b < int BLOCKS_PER_DEVICE \<Longrightarrow> off < PAGES_PER_BLOCK \<Longrightarrow>
    moved s (snd (is_used (cal_ppn b off) s)) \<and> (fst (is_used (cal_ppn b off) s) = 0 \<longleftrightarrow> pg_lsn (dev s (nat b * PAGES_PER_BLOCK + off)) = - 1)"
  using dd_read_page [of b off s] moved_dd_read [of s "cal_ppn b off"]
  by (auto simp: is_used_def split: prod.splits option.splits)

lemma save_pages_moved: "save_pages b offs s = Some (saved, t) \<Longrightarrow> moved s t"
proof -
  let ?f = "\<lambda>off r. case r of None \<Rightarrow> None | Some (saved, s) \<Rightarrow>
       (case dd_read (cal_ppn b off) s of (None, t) \<Rightarrow> None
        | (Some pg, t) \<Rightarrow> if pg_lsn pg > 0 then (if off < SECTORS_PER_PAGE then Some (saved @ [(off, pg)], t) else None)
            else Some (saved, t))"
  have none: "fold ?f xs None = None" for xs by (induction xs) simp_all
  have "fold ?f offs (Some (sv, u)) = Some (saved, t) \<Longrightarrow> moved u t" for sv u
  proof (induction offs arbitrary: sv u)
    case (Cons off offs)
    have m: "moved u (snd (dd_read (cal_ppn b off) u))" by (rule moved_dd_read)
    obtain sv' u' where n: "?f off (Some (sv, u)) = Some (sv', u')"
      using Cons.prems none by (cases "?f off (Some (sv, u))") auto
    then have "u' = snd (dd_read (cal_ppn b off) u)" by (auto split: prod.splits option.splits if_splits)
    then show ?case using Cons.IH [of sv' u'] Cons.prems n m moved_trans by auto
  qed (simp add: moved_refl)
  then show "save_pages b offs s = Some (saved, t) \<Longrightarrow> moved s t" unfolding save_pages_def .
qed

text \<open>The copy is defined when no page beyond the array's rows is in use.\<close>

lemma save_pages_defined:
  assumes b: "0 \<le> b" "b < int BLOCKS_PER_DEVICE" and o: "\<forall>off\<in>set offs. off < PAGES_PER_BLOCK \<and>
    (pg_lsn (dev s (nat b * PAGES_PER_BLOCK + off)) > 0 \<longrightarrow> off < SECTORS_PER_PAGE)"
  shows "save_pages b offs s \<noteq> None"
proof -
  let ?f = "\<lambda>off r. case r of None \<Rightarrow> None | Some (saved, s) \<Rightarrow>
       (case dd_read (cal_ppn b off) s of (None, t) \<Rightarrow> None
        | (Some pg, t) \<Rightarrow> if pg_lsn pg > 0 then (if off < SECTORS_PER_PAGE then Some (saved @ [(off, pg)], t) else None)
            else Some (saved, t))"
  have "moved s u \<Longrightarrow> fold ?f offs (Some (sv, u)) \<noteq> None" for sv u
    using o
  proof (induction offs arbitrary: sv u)
    case (Cons off offs)
    let ?u = "snd (dd_read (cal_ppn b off) u)"
    have r: "fst (dd_read (cal_ppn b off) u) = Some (dev s (nat b * PAGES_PER_BLOCK + off))"
      using dd_read_page [OF b, of off u] Cons.prems by (simp add: moved_def)
    have "\<exists>sv'. ?f off (Some (sv, u)) = Some (sv', ?u)"
      using r Cons.prems(2) by (cases "dd_read (cal_ppn b off) u") auto
    then show ?case using Cons.IH [OF moved_trans [OF Cons.prems(1) moved_dd_read]] Cons.prems(2) by auto
  qed simp
  then show ?thesis unfolding save_pages_def using moved_refl by blast
qed

lemma write_saved_frame: "0 \<le> b \<Longrightarrow> pbn (write_saved b saved s) = pbn s \<and> reserved_empty_blk (write_saved b saved s) = reserved_empty_blk s"
  unfolding write_saved_def by (induction saved arbitrary: s) (auto simp: dd_write_page)

lemma write_saved_dev: "0 \<le> b \<Longrightarrow> \<forall>(off, pg)\<in>set saved. off < PAGES_PER_BLOCK \<Longrightarrow> p div PAGES_PER_BLOCK \<noteq> nat b \<Longrightarrow> dev (write_saved b saved s) p = dev s p"
  unfolding write_saved_def by (induction saved arbitrary: s) (auto simp: dd_write_page)

lemma find_block_found: "\<exists>b\<in>set bs. b \<noteq> reserved_empty_blk s \<and> pg_lsn (dev s (b * PAGES_PER_BLOCK + off)) = - 1 \<Longrightarrow>
    \<forall>b\<in>set bs. b < BLOCKS_PER_DEVICE \<Longrightarrow> off < PAGES_PER_BLOCK \<Longrightarrow>
    \<exists>b n t. find_block bs off u s = (Some b, n, t) \<and> moved s t \<and> b \<in> set bs \<and> b \<noteq> reserved_empty_blk s \<and> pg_lsn (dev s (b * PAGES_PER_BLOCK + off)) = - 1"
proof (induction bs arbitrary: u s)
  case (Cons b bs)
  show ?case
  proof (cases "b = reserved_empty_blk s")
    case True
    then show ?thesis using Cons.IH [of s u] Cons.prems by auto
  next
    case False
    obtain st t where u: "is_used (cal_ppn (int b) off) s = (st, t)" by force
    have m: "moved s t" "st = 0 \<longleftrightarrow> pg_lsn (dev s (b * PAGES_PER_BLOCK + off)) = - 1"
      using is_used_page [of "int b" off s] Cons.prems(2,3) u by simp_all
    show ?thesis
    proof (cases "st = 0")
      case True
      then show ?thesis using False u m by auto
    next
      case nz: False
      have "\<exists>b\<in>set bs. b \<noteq> reserved_empty_blk t \<and> pg_lsn (dev t (b * PAGES_PER_BLOCK + off)) = - 1"
        using Cons.prems(1) m nz by (auto simp: moved_def)
      then obtain b' n' t' where "find_block bs off (if st < - 1 then int b else u) t = (Some b', n', t')" "moved t t'" "b' \<in> set bs" "b' \<noteq> reserved_empty_blk t"
        "pg_lsn (dev t (b' * PAGES_PER_BLOCK + off)) = - 1"
        using Cons.IH [of t "if st < - 1 then int b else u"] Cons.prems(2,3) by auto
      then show ?thesis using False u nz m moved_trans [of s t t'] by (auto simp: moved_def)
    qed
  qed
qed simp

lemma ftl_read_page: "lsn < DATABLKS_PER_DEVICE * SECTORS_PER_BLOCK \<Longrightarrow> 0 \<le> pbn s (cal_lbn lsn) \<Longrightarrow> pbn s (cal_lbn lsn) < int BLOCKS_PER_DEVICE \<Longrightarrow>
    fst (ftl_read lsn s) = Some (pg_data (dev s (page_at s lsn)))"
proof -
  assume a: "lsn < DATABLKS_PER_DEVICE * SECTORS_PER_BLOCK" "0 \<le> pbn s (cal_lbn lsn)" "pbn s (cal_lbn lsn) < int BLOCKS_PER_DEVICE"
  let ?s = "print_addrmaptbl_info lsn s"
  have m: "dev ?s = dev s" "pbn ?s = pbn s" using moved_print [of s lsn] by (simp_all add: moved_def)
  have "cal_sector_offset lsn < PAGES_PER_BLOCK" by (simp add: cal_sector_offset_def ftl_sizes)
  then have "fst (dd_read (cal_ppn (pbn ?s (cal_lbn lsn)) (cal_sector_offset lsn)) ?s) = Some (dev s (page_at s lsn))"
    using dd_read_page [OF a(2,3)] m by (simp add: page_at_def)
  then show ?thesis using a(1) by (auto simp: ftl_read_def Let_def split: prod.split)
qed

lemma find_lbn: "find P [0..<n] = Some k" if "k < n" "P k" "\<forall>j<k. \<not> P j"
  unfolding find_Some_iff using that by (intro exI [of _ k]) simp

text \<open>
  Writing over a used sector: the mapping moves to the reserved block, which holds nothing but the
  new sector.
\<close>

lemma overwrite_effect:
  assumes ok: "ftl_ok s" and l: "lbn < DATABLKS_PER_DEVICE" "pbn s lbn \<noteq> - 1" "\<forall>j<lbn. pbn s j \<noteq> pbn s lbn"
    and off: "off < PAGES_PER_BLOCK" and m: "move_block (reserved_empty_blk s) (pbn s lbn) off s = Some u"
  shows "pbn u = (pbn s)(lbn := int (reserved_empty_blk s)) \<and> reserved_empty_blk u = reserved_empty_blk s \<and>
    (\<forall>p. p div PAGES_PER_BLOCK = reserved_empty_blk s \<longrightarrow> dev u p = erased)"
proof -
  obtain saved t where sp: "save_pages (pbn s lbn) (filter (\<lambda>x. x \<noteq> off) [0..<SECTORS_PER_BLOCK]) s = Some (saved, t)"
    and u: "u = dd_erase (reserved_empty_blk t) (remap (pbn s lbn) (int (reserved_empty_blk s)) (write_saved (int (reserved_empty_blk s)) saved t))"
    using m by (auto simp: move_block_def split: option.splits)
  have mt: "moved s t" using save_pages_moved [OF sp] .
  let ?w = "write_saved (int (reserved_empty_blk s)) saved t"
  have w: "pbn ?w = pbn s" "reserved_empty_blk ?w = reserved_empty_blk s" using write_saved_frame mt by (simp_all add: moved_def)
  have "find (\<lambda>j. pbn ?w j = pbn s lbn) [0..<DATABLKS_PER_DEVICE] = Some lbn"
    by (rule find_lbn) (use l w in auto)
  then show ?thesis using u w mt by (simp add: remap_def dd_erase_def moved_def)
qed

lemma lsn_parts: "lsn < DATABLKS_PER_DEVICE * SECTORS_PER_BLOCK \<Longrightarrow> cal_lbn lsn < DATABLKS_PER_DEVICE \<and> cal_sector_offset lsn < PAGES_PER_BLOCK"
  by (simp add: cal_lbn_def cal_sector_offset_def ftl_sizes)

lemma page_block: "off < PAGES_PER_BLOCK \<Longrightarrow> (b * PAGES_PER_BLOCK + off) div PAGES_PER_BLOCK = b"
  by (simp add: PAGES_PER_BLOCK_def)

text \<open>The three ways a write ends when there is room for it.\<close>

lemma ftl_write_effect:
  assumes ok: "ftl_ok s" and lsn: "lsn < DATABLKS_PER_DEVICE * SECTORS_PER_BLOCK" and w: "ftl_write lsn d s = Some t"
    and first: "pbn s (cal_lbn lsn) \<noteq> - 1 \<longrightarrow> (\<forall>j<cal_lbn lsn. pbn s j \<noteq> pbn s (cal_lbn lsn))"
    and room: "pbn s (cal_lbn lsn) = - 1 \<longrightarrow> (\<exists>b<BLOCKS_PER_DEVICE. b \<noteq> reserved_empty_blk s \<and> pg_lsn (dev s (b * PAGES_PER_BLOCK + cal_sector_offset lsn)) = - 1)"
  obtains (fresh) b where "0 \<le> b" "b < int BLOCKS_PER_DEVICE" "pg_lsn (dev s (nat b * PAGES_PER_BLOCK + cal_sector_offset lsn)) = - 1"
      "pbn t = (pbn s)(cal_lbn lsn := b)" "dev t = (dev s)(nat b * PAGES_PER_BLOCK + cal_sector_offset lsn := create_page d (int lsn))"
      "pbn s (cal_lbn lsn) = - 1 \<or> pg_lsn (dev s (page_at s lsn)) = - 1" "pbn s (cal_lbn lsn) = - 1 \<or> b = pbn s (cal_lbn lsn)"
  | (over) u where "pbn s (cal_lbn lsn) \<noteq> - 1" "pg_lsn (dev s (page_at s lsn)) \<noteq> - 1" "pbn t = (pbn s)(cal_lbn lsn := int (reserved_empty_blk s))"
      "\<forall>p. p div PAGES_PER_BLOCK = reserved_empty_blk s \<longrightarrow> u p = erased"
      "dev t = u(reserved_empty_blk s * PAGES_PER_BLOCK + cal_sector_offset lsn := create_page d (int lsn))"
proof -
  let ?s = "print_addrmaptbl_info lsn s" and ?off = "cal_sector_offset lsn" and ?l = "cal_lbn lsn"
  have m: "moved s ?s" by (rule moved_print)
  note p = lsn_parts [OF lsn]
  show thesis
  proof (cases "pbn s ?l = - 1")
    case True
    have "\<exists>b\<in>set [0..<BLOCKS_PER_DEVICE]. b \<noteq> reserved_empty_blk ?s \<and> pg_lsn (dev ?s (b * PAGES_PER_BLOCK + ?off)) = - 1"
      using room True m by (auto simp: moved_def)
    then obtain b n u where b: "find_block [0..<BLOCKS_PER_DEVICE] ?off (- 1) ?s = (Some b, n, u)" "moved ?s u" "b < BLOCKS_PER_DEVICE"
      "pg_lsn (dev ?s (b * PAGES_PER_BLOCK + ?off)) = - 1"
      using find_block_found [of "[0..<BLOCKS_PER_DEVICE]" ?s ?off "- 1"] p by auto
    have "t = dd_write (cal_ppn (int b) ?off) (create_page d (int lsn)) (u\<lparr>pbn := (pbn u)(?l := int b)\<rparr>)"
      using w lsn True m b(1) by (simp add: ftl_write_def Let_def moved_def)
    then show thesis using b m True dd_write_page [of "int b" ?off] by (intro fresh [of "int b"]) (simp_all add: moved_def)
  next
    case False
    then have bl: "0 \<le> pbn s ?l" "pbn s ?l < int BLOCKS_PER_DEVICE" using ok p by (auto simp: ftl_ok_def)
    obtain st u where u: "is_used (cal_ppn (pbn s ?l) ?off) ?s = (st, u)" by force
    have mu: "moved ?s u" "st = 0 \<longleftrightarrow> pg_lsn (dev s (page_at s lsn)) = - 1"
      using is_used_page [OF bl, of ?off ?s] p m u by (simp_all add: moved_def page_at_def)
    have same: "dev u = dev s" "pbn u = pbn s" "reserved_empty_blk u = reserved_empty_blk s" using moved_trans [OF m mu(1)] by (simp_all add: moved_def)
    show thesis
    proof (cases "st = 0")
      case True
      then have "t = dd_write (cal_ppn (pbn s ?l) ?off) (create_page d (int lsn)) u"
        using w lsn False m u same by (simp add: ftl_write_def Let_def moved_def)
      then show thesis using bl True mu same dd_write_page [OF bl(1), of ?off _ u] by (intro fresh [of "pbn s ?l"]) (simp_all add: page_at_def)
    next
      case nz: False
      then obtain v where v: "move_block (reserved_empty_blk u) (pbn u ?l) ?off u = Some v"
        "t = (dd_write (cal_ppn (int (reserved_empty_blk v)) ?off) (create_page d (int lsn)) v)\<lparr>reserved_empty_blk := nat (pbn s ?l)\<rparr>"
        using w lsn False m u same by (auto simp: ftl_write_def Let_def moved_def split: option.splits)
      have "ftl_ok u" using ok same by (simp add: ftl_ok_def)
      from overwrite_effect [OF this, of ?l ?off v]
      have "pbn v = (pbn s)(?l := int (reserved_empty_blk s))" "reserved_empty_blk v = reserved_empty_blk s"
        "\<forall>p. p div PAGES_PER_BLOCK = reserved_empty_blk s \<longrightarrow> dev v p = erased"
        using v(1) p False first same by simp_all
      then show thesis using v(2) nz mu False dd_write_page [of "int (reserved_empty_blk s)" ?off _ v] by (intro over [of "dev v"]) simp_all
    qed
  qed
qed


text \<open>Block 0 holds sectors 32 and 33; sector 33 is written again.\<close>

definition demo_ftl :: ftl where
  "demo_ftl = \<lparr>dev = (\<lambda>p. if p = 0 then create_page [1] 32 else if p = 1 then create_page [2] 33 else erased), fpos = 0,
     pbn = (\<lambda>l. if l = 1 then 0 else - 1), reserved_empty_blk = 1023\<rparr>"


end
