(* ===== verification/Shell.thy ===== *)
theory Shell
  imports Prelude
begin

text \<open>
  The command parser of the shell (\<^verbatim>\<open>sh.c\<close>). A command line is a string without NULs; positions in it
  stand for the pointers of the code, and the character behind the end is the terminator. A command
  holds the words of the line as pairs of the positions of their first character and of the one behind
  their last. \<^verbatim>\<open>panic\<close> in the parser is the left summand, with its message; memory for commands is
  always had. The functions that call one another take fuel.
\<close>

section \<open>Commands\<close>

datatype 'f cmd =
    EXEC "'f list"
  | REDIR "'f cmd" (rfile: 'f) (rmode: nat) (rfd: nat)
  | PIPE "'f cmd" "'f cmd"
  | LIST "'f cmd" "'f cmd"
  | BACK "'f cmd"

type_synonym span = "nat \<times> nat"

definition MAXARGS :: nat where "MAXARGS = 10"

text \<open>
  \<^verbatim>\<open>parseexec\<close> keeps a pointer to the \<^verbatim>\<open>execcmd\<close> it fills while redirections are put around it: the
  arguments go to the command below the redirections.
\<close>

primrec set_argv :: "'f list \<Rightarrow> 'f cmd \<Rightarrow> 'f cmd" where
  "set_argv as (EXEC bs) = EXEC as"
| "set_argv as (REDIR c f m d) = REDIR (set_argv as c) f m d"
| "set_argv as (PIPE l r) = PIPE l r"
| "set_argv as (LIST l r) = LIST l r"
| "set_argv as (BACK c) = BACK c"

section \<open>Tokens\<close>

definition NUL :: char where "NUL = CHR 0x00"

definition whitespace :: string where
  "whitespace = [CHR '' '', CHR 0x09, CHR 0x0D, CHR 0x0A, CHR 0x0B]"

definition symbols :: string where
  "symbols = ''<|>&;()''"

definition chr :: "string \<Rightarrow> nat \<Rightarrow> char" where
  "chr b i = (if i < length b then b ! i else NUL)"

text \<open>The scanning loops \<^verbatim>\<open>while(s < es && ...) s++\<close>.\<close>

function scan :: "(char \<Rightarrow> bool) \<Rightarrow> string \<Rightarrow> nat \<Rightarrow> nat" where
  "scan P b s = (if s < length b \<and> P (b ! s) then scan P b (s + 1) else s)"
  by auto
termination by (relation "measure (\<lambda>(P, b, s). length b - s)") auto

declare scan.simps [simp del]

definition is_white :: "char \<Rightarrow> bool" where "is_white c \<longleftrightarrow> c \<in> set whitespace"
definition in_word :: "char \<Rightarrow> bool" where "in_word c \<longleftrightarrow> c \<notin> set whitespace \<and> c \<notin> set symbols"

text \<open>\<^verbatim>\<open>gettoken\<close>: the kind of token, its span, and where the next one is looked for.\<close>

definition token_end :: "string \<Rightarrow> nat \<Rightarrow> char \<times> nat" where
  "token_end b q = (let c = chr b q in
     if c = NUL then (c, q)
     else if c \<in> set ''|();&<'' then (c, q + 1)
     else if c = CHR ''>'' then (if chr b (q + 1) = CHR ''>'' then (CHR ''+'', q + 2) else (c, q + 1))
     else (CHR ''a'', scan in_word b q))"

definition gettoken :: "string \<Rightarrow> nat \<Rightarrow> char \<times> span \<times> nat" where
  "gettoken b s = (let q = scan is_white b s; t = token_end b q in (fst t, (q, snd t), scan is_white b (snd t)))"

definition peek :: "string \<Rightarrow> nat \<Rightarrow> string \<Rightarrow> bool \<times> nat" where
  "peek b s toks = (let s = scan is_white b s in (chr b s \<noteq> NUL \<and> chr b s \<in> set toks, s))"

lemma scan_ge: "s \<le> scan P b s"
  by (induction P b s rule: scan.induct) (subst scan.simps, auto)

lemma scan_le: "s \<le> length b \<Longrightarrow> scan P b s \<le> length b"
  by (induction P b s rule: scan.induct) (subst scan.simps, auto)

lemma scan_gt: "s < length b \<Longrightarrow> P (b ! s) \<Longrightarrow> s < scan P b s"
  using scan_ge [of "s + 1" P b] by (subst scan.simps) simp

lemma chr_NUL: "chr b i \<noteq> NUL \<Longrightarrow> i < length b"
  by (simp add: chr_def split: if_splits)

lemma scan_stop: "scan P b s < length b \<Longrightarrow> \<not> P (b ! scan P b s)"
proof (induction P b s rule: scan.induct)
  case (1 P b s)
  then show ?case by (subst scan.simps, subst (asm) scan.simps) (auto split: if_splits)
qed

text \<open>A token other than the end of the line is not empty.\<close>

lemma token_end_gt:
  assumes "chr b q \<noteq> NUL" "\<not> is_white (chr b q)"
  shows "q < snd (token_end b q)"
proof -
  have "chr b q = b ! q" "q < length b" using chr_NUL [OF assms(1)] by (simp_all add: chr_def)
  then have "chr b q \<notin> set symbols \<Longrightarrow> q < scan in_word b q" using assms(2) by (intro scan_gt) (simp_all add: in_word_def is_white_def)
  then show ?thesis using assms(1) by (auto simp: token_end_def symbols_def Let_def)
qed

lemma gettoken_gt:
  assumes "gettoken b s = (t, x, s')" "t \<noteq> NUL"
  shows "s < s' \<and> s < length b"
proof -
  let ?q = "scan is_white b s"
  have q: "chr b ?q \<noteq> NUL" using assms by (auto simp: gettoken_def token_end_def Let_def)
  then have l: "?q < length b" by (rule chr_NUL)
  then have "\<not> is_white (chr b ?q)" using scan_stop [of is_white b s] by (simp add: chr_def)
  then have "?q < s'" using token_end_gt [OF q] scan_ge [of "snd (token_end b ?q)" is_white b] assms(1) by (auto simp: gettoken_def Let_def)
  then show ?thesis using scan_ge [of s is_white b] l by simp
qed

lemma peek_gettoken:
  assumes "peek b s ts = (True, s1)" "gettoken b s1 = (t, x, s')"
  shows "s < s' \<and> s < length b"
proof -
  have "s1 = scan is_white b s" "chr b s1 \<noteq> NUL" using assms(1) by (auto simp: peek_def Let_def)
  moreover have "scan is_white b s1 = s1" if "\<not> (s1 < length b \<and> is_white (b ! s1))" using that by (subst scan.simps) auto
  ultimately have "fst (token_end b (scan is_white b s1)) \<noteq> NUL"
    using scan_stop [of is_white b s] by (auto simp: token_end_def Let_def NUL_def chr_def)
  then have "t \<noteq> NUL" using assms(2) by (auto simp: gettoken_def Let_def)
  then show ?thesis using gettoken_gt [OF assms(2)] scan_ge [of s is_white b] \<open>s1 = _\<close> by auto
qed

lemma peek_ge: "peek b s ts = (r, s1) \<Longrightarrow> s \<le> s1"
  using scan_ge [of s is_white b] by (auto simp: peek_def Let_def)

lemma gettoken_ge: "gettoken b s = (t, x, s') \<Longrightarrow> s \<le> s'"
proof -
  assume g: "gettoken b s = (t, x, s')"
  have "q \<le> snd (token_end b q)" for q using scan_ge [of q in_word b] by (auto simp: token_end_def Let_def)
  then show ?thesis using g scan_ge [of s is_white b] scan_ge [of _ is_white b] unfolding gettoken_def Let_def by (metis Pair_inject le_trans)
qed

lemma peek_dec:
  assumes "(True, s1) = peek b s ts" "(t, x, s2) = gettoken b s1"
  shows "length b - s2 < length b - s"
  using peek_gettoken [OF assms(1) [symmetric] assms(2) [symmetric]] by linarith

lemma redir_dec:
  assumes "(True, s1) = peek b s ts" "(t, x, s2) = gettoken b s1" "(t', x', s3) = gettoken b s2"
  shows "length b - s3 < length b - s"
  using peek_dec [OF assms(1,2)] gettoken_ge [OF assms(3) [symmetric]] by linarith

section \<open>The parser\<close>

definition redir_of :: "char \<Rightarrow> 'f \<Rightarrow> 'f cmd \<Rightarrow> 'f cmd" where
  "redir_of tok f c = (if tok = CHR ''<'' then REDIR c f O_RDONLY 0
     else if tok = CHR ''>'' \<or> tok = CHR ''+'' then REDIR c f (or O_WRONLY O_CREATE) 1 else c)"

function parseredirs :: "string \<Rightarrow> span cmd \<Rightarrow> nat \<Rightarrow> string + span cmd \<times> nat" where
  "parseredirs b c s = (case peek b s ''<>'' of (more_redirs, s) \<Rightarrow>
     if \<not> more_redirs then Inr (c, s) else
     (case gettoken b s of (tok, _, s) \<Rightarrow> (case gettoken b s of (tok2, f, s) \<Rightarrow>
        if tok2 \<noteq> CHR ''a'' then Inl ''missing file for redirection'' else parseredirs b (redir_of tok f c) s)))"
  by auto
termination
  by (relation "measure (\<lambda>(b, c, s). length b - s)") (use redir_dec in \<open>auto 0 3\<close>)

declare parseredirs.simps [simp del]

function exec_loop :: "string \<Rightarrow> span cmd \<Rightarrow> span list \<Rightarrow> nat \<Rightarrow> string + span cmd \<times> nat" where
  "exec_loop b ret args s = (case peek b s ''|)&;'' of (stop, s) \<Rightarrow>
     if stop then Inr (set_argv args ret, s) else
     (case gettoken b s of (tok, w, s) \<Rightarrow>
       if tok = NUL then Inr (set_argv args ret, s)
       else if tok \<noteq> CHR ''a'' then Inl ''syntax''
       else if MAXARGS \<le> length (args @ [w]) then Inl ''too many args''
       else (case parseredirs b ret s of Inl e \<Rightarrow> Inl e | Inr (ret, s) \<Rightarrow> exec_loop b ret (args @ [w]) s)))"
  by auto
termination
  by (relation "measure (\<lambda>(b, ret, args, s). MAXARGS - length args)") (auto simp: MAXARGS_def)

declare exec_loop.simps [simp del]

function back_loop :: "string \<Rightarrow> span cmd \<Rightarrow> nat \<Rightarrow> span cmd \<times> nat" where
  "back_loop b c s = (case peek b s ''&'' of (amp, s) \<Rightarrow> if \<not> amp then (c, s) else
     (case gettoken b s of (_, _, s) \<Rightarrow> back_loop b (BACK c) s))"
  by auto
termination
  by (relation "measure (\<lambda>(b, c, s). length b - s)") (use peek_dec in \<open>auto 0 3\<close>)

declare back_loop.simps [simp del]

text \<open>The functions in a circle; \<open>None\<close> is that the fuel is used up.\<close>

type_synonym parsed = "(string + span cmd \<times> nat) option"

fun parseline :: "nat \<Rightarrow> string \<Rightarrow> nat \<Rightarrow> parsed"
  and parsepipe :: "nat \<Rightarrow> string \<Rightarrow> nat \<Rightarrow> parsed"
  and parseexec :: "nat \<Rightarrow> string \<Rightarrow> nat \<Rightarrow> parsed"
  and parseblock :: "nat \<Rightarrow> string \<Rightarrow> nat \<Rightarrow> parsed" where
  "parseline 0 b s = None"
| "parseline (Suc n) b s = (case parsepipe n b s of None \<Rightarrow> None | Some (Inl e) \<Rightarrow> Some (Inl e) | Some (Inr (c, s)) \<Rightarrow>
     (case back_loop b c s of (c, s) \<Rightarrow> (case peek b s '';'' of (semi, s) \<Rightarrow> if \<not> semi then Some (Inr (c, s)) else
       (case gettoken b s of (_, _, s) \<Rightarrow> (case parseline n b s of None \<Rightarrow> None | Some (Inl e) \<Rightarrow> Some (Inl e)
         | Some (Inr (d, s)) \<Rightarrow> Some (Inr (LIST c d, s)))))))"
| "parsepipe 0 b s = None"
| "parsepipe (Suc n) b s = (case parseexec n b s of None \<Rightarrow> None | Some (Inl e) \<Rightarrow> Some (Inl e) | Some (Inr (c, s)) \<Rightarrow>
     (case peek b s ''|'' of (bar, s) \<Rightarrow> if \<not> bar then Some (Inr (c, s)) else
       (case gettoken b s of (_, _, s) \<Rightarrow> (case parsepipe n b s of None \<Rightarrow> None | Some (Inl e) \<Rightarrow> Some (Inl e)
         | Some (Inr (d, s)) \<Rightarrow> Some (Inr (PIPE c d, s))))))"
| "parseexec 0 b s = None"
| "parseexec (Suc n) b s = (case peek b s ''('' of (paren, s) \<Rightarrow> if paren then parseblock n b s else
     (case parseredirs b (EXEC []) s of Inl e \<Rightarrow> Some (Inl e) | Inr (ret, s) \<Rightarrow> Some (exec_loop b ret [] s)))"
| "parseblock 0 b s = None"
| "parseblock (Suc n) b s = (case peek b s ''('' of (paren, s) \<Rightarrow> if \<not> paren then Some (Inl ''parseblock'') else
     (case gettoken b s of (_, _, s) \<Rightarrow> (case parseline n b s of None \<Rightarrow> None | Some (Inl e) \<Rightarrow> Some (Inl e) | Some (Inr (c, s)) \<Rightarrow>
       (case peek b s '')'' of (paren, s) \<Rightarrow> if \<not> paren then Some (Inl ''syntax - missing )'') else
         (case gettoken b s of (_, _, s) \<Rightarrow> Some (parseredirs b c s))))))"

text \<open>\<^verbatim>\<open>nulterminate\<close> puts a NUL behind every word; behind the last character of the line there is one.\<close>

definition end_word :: "span \<Rightarrow> string \<Rightarrow> string" where
  "end_word f b = b[snd f := NUL]"

primrec nulterminate :: "span cmd \<Rightarrow> string \<Rightarrow> string" where
  "nulterminate (EXEC as) b = fold end_word as b"
| "nulterminate (REDIR c f m d) b = end_word f (nulterminate c b)"
| "nulterminate (PIPE l r) b = nulterminate r (nulterminate l b)"
| "nulterminate (LIST l r) b = nulterminate r (nulterminate l b)"
| "nulterminate (BACK c) b = nulterminate c b"

definition parsecmd :: "string \<Rightarrow> (string + span cmd \<times> string) option" where
  "parsecmd b = (case parseline (4 * length b + 4) b 0 of None \<Rightarrow> None | Some (Inl e) \<Rightarrow> Some (Inl e) | Some (Inr (c, s)) \<Rightarrow>
     (case peek b s [] of (_, s) \<Rightarrow> if s \<noteq> length b then Some (Inl ''syntax'') else Some (Inr (c, nulterminate c b))))"

text \<open>A word of a command as a C string of the terminated buffer.\<close>

definition c_string :: "string \<Rightarrow> span \<Rightarrow> string" where
  "c_string b f = takeWhile (\<lambda>c. c \<noteq> NUL) (drop (fst f) b)"

end
