(* ===== verification/ShellProps.thy ===== *)
theory ShellProps
  imports Shell
begin

text \<open>
  The shell's parser against a grammar: the tokens of a line, the command lines of the shell as an
  inductive definition over tokens, and that the parser finds the command of a line exactly when it has
  one, never looping, and that the terminated buffer holds its words.
\<close>

section \<open>The grammar\<close>

datatype tok = Sym char | Word string

function lex :: "string \<Rightarrow> tok list" where
  "lex [] = []"
| "lex (c # cs) = (if is_white c then lex cs
     else if c = CHR ''>'' \<and> cs \<noteq> [] \<and> hd cs = CHR ''>'' then Sym (CHR ''+'') # lex (tl cs)
     else if c \<in> set symbols then Sym c # lex cs
     else Word (takeWhile in_word (c # cs)) # lex (dropWhile in_word cs))"
  by pat_completeness auto
termination by (relation "measure length") (auto simp: less_Suc_eq_le length_dropWhile_le)

type_synonym redir = "char \<times> string"

definition redir_ops :: "char set" where
  "redir_ops = {CHR ''<'', CHR ''>'', CHR ''+''}"

definition flat_redir :: "redir \<Rightarrow> tok list" where
  "flat_redir r = [Sym (fst r), Word (snd r)]"

definition flat_redirs :: "redir list \<Rightarrow> tok list" where
  "flat_redirs rs = concat (map flat_redir rs)"

definition redirs_ok :: "redir list \<Rightarrow> bool" where
  "redirs_ok rs \<longleftrightarrow> fst ` set rs \<subseteq> redir_ops"

definition wrap :: "redir list \<Rightarrow> string cmd \<Rightarrow> string cmd" where
  "wrap rs c = fold (\<lambda>(op, f). redir_of op f) rs c"

text \<open>A simple command: redirections, then words with redirections behind each.\<close>

definition flat_args :: "(string \<times> redir list) list \<Rightarrow> tok list" where
  "flat_args as = concat (map (\<lambda>(w, rs). Word w # flat_redirs rs) as)"

definition args_redirs :: "(string \<times> redir list) list \<Rightarrow> redir list" where
  "args_redirs as = concat (map snd as)"

text \<open>
  \<open>line\<close> and \<open>pipeline\<close> are the commands of \<^verbatim>\<open>parseline\<close> and \<^verbatim>\<open>parsepipe\<close>, \<open>single\<close> those of \<^verbatim>\<open>parseexec\<close>. The
  simple command may be empty.
\<close>

inductive line :: "string cmd \<Rightarrow> tok list \<Rightarrow> bool"
  and pipeline :: "string cmd \<Rightarrow> tok list \<Rightarrow> bool"
  and single :: "string cmd \<Rightarrow> tok list \<Rightarrow> bool" where
  line_end: "pipeline c ts \<Longrightarrow> line ((BACK ^^ k) c) (ts @ replicate k (Sym CHR ''&''))"
| line_list: "pipeline c ts \<Longrightarrow> line d us \<Longrightarrow> line (LIST ((BACK ^^ k) c) d) (ts @ replicate k (Sym CHR ''&'') @ Sym CHR '';'' # us)"
| pipe_end: "single c ts \<Longrightarrow> pipeline c ts"
| pipe_more: "single c ts \<Longrightarrow> pipeline d us \<Longrightarrow> pipeline (PIPE c d) (ts @ Sym CHR ''|'' # us)"
| simple: "redirs_ok rs \<Longrightarrow> redirs_ok (args_redirs as) \<Longrightarrow> length as < MAXARGS \<Longrightarrow>
    single (wrap (rs @ args_redirs as) (EXEC (map fst as))) (flat_redirs rs @ flat_args as)"
| block: "line c ts \<Longrightarrow> redirs_ok rs \<Longrightarrow> single (wrap rs c) (Sym CHR ''('' # ts @ Sym CHR '')'' # flat_redirs rs)"

section \<open>Tokens of the buffer\<close>

definition toks :: "string \<Rightarrow> nat \<Rightarrow> tok list" where
  "toks b s = lex (drop s b)"

definition text_of :: "string \<Rightarrow> span \<Rightarrow> string" where
  "text_of b f = take (snd f - fst f) (drop (fst f) b)"

definition span_ok :: "string \<Rightarrow> span \<Rightarrow> bool" where
  "span_ok b f \<longleftrightarrow> fst f < snd f \<and> snd f \<le> length b \<and> (\<forall>i. fst f \<le> i \<and> i < snd f \<longrightarrow> in_word (b ! i)) \<and>
     (snd f < length b \<longrightarrow> \<not> in_word (b ! snd f))"

definition clean :: "string \<Rightarrow> bool" where
  "clean b \<longleftrightarrow> NUL \<notin> set b"

lemma drop_scan: "drop (scan P b s) b = dropWhile P (drop s b)"
proof (induction P b s rule: scan.induct)
  case (1 P b s)
  show ?case
  proof (cases "s < length b \<and> P (b ! s)")
    case True
    then show ?thesis using 1 by (subst scan.simps) (simp add: Cons_nth_drop_Suc [symmetric])
  next
    case False
    then show ?thesis by (subst scan.simps) (cases "s < length b"; simp add: Cons_nth_drop_Suc [symmetric])
  qed
qed

lemma take_scan: "take (scan P b s - s) (drop s b) = takeWhile P (drop s b)"
proof (induction P b s rule: scan.induct)
  case (1 P b s)
  show ?case
  proof (cases "s < length b \<and> P (b ! s)")
    case True
    then have "scan P b s = scan P b (s + 1)" by (subst scan.simps) simp
    moreover have "s + 1 \<le> scan P b (s + 1)" by (rule scan_ge)
    ultimately show ?thesis using 1 True by (simp add: Cons_nth_drop_Suc [symmetric] Suc_diff_le take_Cons')
  next
    case False
    then show ?thesis by (subst scan.simps) (cases "s < length b"; simp add: Cons_nth_drop_Suc [symmetric])
  qed
qed

lemma scan_all: "s \<le> i \<Longrightarrow> i < scan P b s \<Longrightarrow> P (b ! i)"
proof (induction P b s rule: scan.induct)
  case (1 P b s)
  show ?case
  proof (cases "s < length b \<and> P (b ! s)")
    case True
    then show ?thesis using 1 by (cases "i = s") (simp_all add: scan.simps [of P b s])
  qed (use 1(2,3) in \<open>auto simp: scan.simps [of P b s]\<close>)
qed

lemma lex_white [simp]: "lex (dropWhile is_white cs) = lex cs"
  by (induction cs) auto

lemma toks_scan [simp]: "toks b (scan is_white b s) = toks b s"
  by (simp add: toks_def drop_scan)

lemma in_word_white: "is_white c \<Longrightarrow> \<not> in_word c"
  by (simp add: is_white_def in_word_def)

text \<open>\<^verbatim>\<open>gettoken\<close> takes the first token.\<close>

lemma token_end_toks:
  assumes "clean b" "\<not> (q < length b \<and> is_white (b ! q))" "token_end b q = (t, e)"
  shows "if t = NUL then toks b q = [] \<and> e = q \<and> length b \<le> q
    else if t = CHR ''a'' then toks b q = Word (text_of b (q, e)) # toks b e \<and> span_ok b (q, e)
    else toks b q = Sym t # toks b e"
proof (cases "q < length b")
  case False
  then show ?thesis using assms(3) by (auto simp: token_end_def chr_def toks_def)
next
  case True
  then have d: "drop q b = b ! q # drop (Suc q) b" by (simp add: Cons_nth_drop_Suc)
  have c: "chr b q = b ! q" "b ! q \<noteq> NUL" "\<not> is_white (b ! q)"
    using True assms(1,2) by (auto simp: chr_def clean_def) (metis nth_mem)
  have hd2: "chr b (q + 1) = CHR ''>'' \<longleftrightarrow> drop (Suc q) b \<noteq> [] \<and> hd (drop (Suc q) b) = CHR ''>''"
    by (simp add: chr_def hd_drop_conv_nth NUL_def)
  show ?thesis
  proof (cases "b ! q \<in> set symbols")
    case True
    then consider "b ! q = CHR ''>''" | "b ! q \<in> set ''|();&<''" "b ! q \<noteq> CHR ''>''" unfolding symbols_def by auto
    then show ?thesis
    proof cases
      case 1
      show ?thesis
      proof (cases "chr b (q + 1) = CHR ''>''")
        case True
        then have t: "t = CHR ''+''" "e = q + 2" using assms(3) c 1 by (simp_all add: token_end_def NUL_def)
        have "drop e b = tl (drop (Suc q) b)" unfolding t by (simp add: tl_drop drop_Suc [symmetric])
        then show ?thesis using True hd2 c(3) 1 unfolding toks_def d t(1) by (simp add: NUL_def)
      next
        case False
        then have "t = CHR ''>''" "e = q + 1" using assms(3) c 1 by (simp_all add: token_end_def NUL_def)
        then show ?thesis using False hd2 c(3) 1 \<open>b ! q \<in> set symbols\<close> unfolding toks_def d by (simp add: NUL_def)
      qed
    next
      case 2
      then have "t = b ! q" "e = q + 1" using assms(3) c by (simp_all add: token_end_def Let_def del: list.set insert_iff)
      then show ?thesis using 2 c(2,3) \<open>b ! q \<in> set symbols\<close> unfolding toks_def d by (auto simp del: insert_iff)
    qed
  next
    case False
    let ?e = "scan in_word b q"
    have w: "in_word (b ! q)" using c(3) False by (simp add: in_word_def is_white_def)
    have e: "t = CHR ''a''" "e = ?e" using assms(3) c False by (auto simp: token_end_def symbols_def Let_def)
    have "span_ok b (q, ?e)" using scan_gt [OF \<open>q < length b\<close>, of in_word] scan_le [of q b in_word] scan_all [of q _ in_word b] scan_stop [of in_word b q] w \<open>q < length b\<close>
      by (auto simp: span_ok_def)
    moreover have "toks b q = Word (takeWhile in_word (drop q b)) # toks b ?e"
      unfolding toks_def drop_scan unfolding d using c False w by (auto simp: symbols_def)
    ultimately show ?thesis unfolding e by (simp add: text_of_def take_scan NUL_def)
  qed
qed

lemma gettoken_toks:
  assumes "clean b" "gettoken b s = (t, f, s')"
  shows "if t = NUL then toks b s = [] \<and> toks b s' = []
    else if t = CHR ''a'' then toks b s = Word (text_of b f) # toks b s' \<and> span_ok b f
    else toks b s = Sym t # toks b s'"
proof -
  let ?q = "scan is_white b s"
  obtain t' e where e: "token_end b ?q = (t', e)" by (cases "token_end b ?q")
  then have g: "t' = t" "f = (?q, e)" "s' = scan is_white b e" using assms(2) by (simp_all add: gettoken_def)
  show ?thesis using token_end_toks [OF assms(1) _ e] scan_stop [of is_white b s] unfolding g by auto
qed

text \<open>\<^verbatim>\<open>peek\<close> looks at the first character of the first token.\<close>

definition first_char :: "tok \<Rightarrow> char" where
  "first_char t = (case t of Sym c \<Rightarrow> if c = CHR ''+'' then CHR ''>'' else c | Word w \<Rightarrow> CHR ''a'')"

definition starts :: "string \<Rightarrow> tok list \<Rightarrow> bool" where
  "starts cs ts \<longleftrightarrow> ts \<noteq> [] \<and> first_char (hd ts) \<in> set cs"

lemma peek_toks:
  assumes "clean b" "peek b s cs = (r, s')" "set cs \<subseteq> set symbols"
  shows "r \<longleftrightarrow> starts cs (toks b s)" "toks b s' = toks b s"
proof -
  let ?q = "scan is_white b s"
  have r: "r \<longleftrightarrow> chr b ?q \<noteq> NUL \<and> chr b ?q \<in> set cs" "s' = ?q" using assms(2) by (auto simp: peek_def Let_def)
  show "toks b s' = toks b s" by (simp add: r(2))
  have nw: "\<not> (?q < length b \<and> is_white (b ! ?q))" using scan_stop [of is_white b s] by blast
  obtain t e where e: "token_end b ?q = (t, e)" by (cases "token_end b ?q")
  have f: "first_char (Sym t) = chr b ?q" if "t \<noteq> NUL" "t \<noteq> CHR ''a''"
    using that e by (auto simp: first_char_def token_end_def Let_def split: if_splits)
  have a: "chr b ?q \<notin> set symbols \<and> chr b ?q \<noteq> NUL" if "t = CHR ''a''"
    using that e by (auto simp: token_end_def Let_def symbols_def NUL_def split: if_splits)
  have "CHR ''a'' \<notin> set cs" using assms(3) by (auto simp: symbols_def)
  moreover have "chr b ?q = NUL \<longleftrightarrow> t = NUL" using e by (auto simp: token_end_def Let_def NUL_def split: if_splits)
  ultimately show "r \<longleftrightarrow> starts cs (toks b s)"
    using token_end_toks [OF assms(1) nw e] r(1) f a assms(3) by (auto simp: starts_def first_char_def split: if_splits)
qed

lemma peek_take:
  assumes "clean b" "peek b s cs = (True, s1)" "set cs \<subseteq> set symbols" "gettoken b s1 = (t, f, s2)"
  shows "toks b s = Sym t # toks b s2" "first_char (Sym t) \<in> set cs"
proof -
  have p: "starts cs (toks b s1)" "toks b s1 = toks b s" using peek_toks [OF assms(1-3)] by simp_all
  obtain x xs where x: "toks b s = x # xs" "first_char x \<in> set cs" using p by (cases "toks b s") (auto simp: starts_def)
  have "CHR ''a'' \<notin> set cs" using assms(3) by (auto simp: symbols_def)
  then have "toks b s = Sym t # toks b s2 \<and> first_char (Sym t) \<in> set cs"
    using gettoken_toks [OF assms(1,4)] p(2) x by (auto simp: first_char_def split: if_splits)
  then show "toks b s = Sym t # toks b s2" "first_char (Sym t) \<in> set cs" by simp_all
qed

lemma peek_one:
  assumes "clean b" "peek b s [c] = (True, s1)" "c \<in> set symbols" "c \<noteq> CHR ''>''" "gettoken b s1 = (t, f, s2)"
  shows "toks b s = Sym c # toks b s2"
  using peek_take [OF assms(1,2) _ assms(5)] assms(3,4) by (auto simp: first_char_def split: if_splits)

lemma peek_not: "clean b \<Longrightarrow> peek b s cs = (False, s') \<Longrightarrow> set cs \<subseteq> set symbols \<Longrightarrow> \<not> starts cs (toks b s') \<and> toks b s' = toks b s"
  using peek_toks by metis

lemma symbols_mem [simp]: "CHR ''<'' \<in> set symbols" "CHR ''>'' \<in> set symbols" "CHR ''|'' \<in> set symbols" "CHR '')'' \<in> set symbols"
  "CHR ''('' \<in> set symbols" "CHR ''&'' \<in> set symbols" "CHR '';'' \<in> set symbols"
  by (simp_all add: symbols_def)

section \<open>Redirections\<close>

definition words :: "string \<Rightarrow> span cmd \<Rightarrow> string cmd" where
  "words b = map_cmd (text_of b)"

definition good :: "string \<Rightarrow> span cmd \<Rightarrow> bool" where
  "good b c \<longleftrightarrow> (\<forall>f \<in> set_cmd c. span_ok b f)"

lemma words_simps [simp]:
  "words b (EXEC as) = EXEC (map (text_of b) as)" "words b (LIST c d) = LIST (words b c) (words b d)"
  "words b (PIPE c d) = PIPE (words b c) (words b d)" "words b (BACK c) = BACK (words b c)"
  "words b (redir_of op f c) = redir_of op (text_of b f) (words b c)"
  "words b (set_argv as c) = set_argv (map (text_of b) as) (words b c)"
proof -
  show "words b (set_argv as c) = set_argv (map (text_of b) as) (words b c)" by (induction c) (simp_all add: words_def)
qed (simp_all add: words_def redir_of_def)

lemma good_simps [simp]:
  "good b (EXEC as) \<longleftrightarrow> (\<forall>f \<in> set as. span_ok b f)" "good b (LIST c d) \<longleftrightarrow> good b c \<and> good b d"
  "good b (PIPE c d) \<longleftrightarrow> good b c \<and> good b d" "good b (BACK c) \<longleftrightarrow> good b c"
  by (auto simp: good_def)

lemma good_redir: "span_ok b f \<Longrightarrow> good b c \<Longrightarrow> good b (redir_of op f c)"
  by (auto simp: good_def redir_of_def)

lemma set_argv_set: "set_cmd (set_argv as c) \<subseteq> set as \<union> set_cmd c"
  by (induction c) auto

lemma good_argv: "\<forall>f \<in> set as. span_ok b f \<Longrightarrow> good b c \<Longrightarrow> good b (set_argv as c)"
  unfolding good_def using set_argv_set [of as c] by blast

lemma wrap_simps [simp]: "wrap [] c = c" "wrap ((op, f) # rs) c = wrap rs (redir_of op f c)" "wrap (rs @ rs') c = wrap rs' (wrap rs c)"
  by (simp_all add: wrap_def)

lemma argv_wrap: "set_argv as (wrap rs c) = wrap rs (set_argv as c)"
  by (induction rs arbitrary: c) (auto simp: wrap_def redir_of_def)

lemma argv_argv [simp]: "set_argv as (set_argv bs c) = set_argv as c"
  by (induction c) simp_all

lemma flat_redirs_simps [simp]: "flat_redirs [] = []" "flat_redirs ((op, f) # rs) = Sym op # Word f # flat_redirs rs"
  "flat_redirs (rs @ rs') = flat_redirs rs @ flat_redirs rs'"
  by (simp_all add: flat_redirs_def flat_redir_def)

lemma redirs_ok_simps [simp]: "redirs_ok []" "redirs_ok ((op, f) # rs) \<longleftrightarrow> op \<in> redir_ops \<and> redirs_ok rs"
  "redirs_ok (rs @ rs') \<longleftrightarrow> redirs_ok rs \<and> redirs_ok rs'"
  by (auto simp: redirs_ok_def)

lemma first_redir: "first_char (Sym t) \<in> set ''<>'' \<longleftrightarrow> t \<in> redir_ops"
  by (auto simp: first_char_def redir_ops_def)

lemma parseredirs_sound:
  "parseredirs b c s = Inr (c', s') \<Longrightarrow> clean b \<Longrightarrow> good b c \<Longrightarrow>
    \<exists>rs. redirs_ok rs \<and> toks b s = flat_redirs rs @ toks b s' \<and> words b c' = wrap rs (words b c) \<and> good b c'"
proof (induction b c s rule: parseredirs.induct)
  case (1 b c s)
  obtain m s1 where p: "peek b s ''<>'' = (m, s1)" by (cases "peek b s ''<>''")
  obtain t x s2 where g: "gettoken b s1 = (t, x, s2)" by (cases "gettoken b s1")
  obtain t2 f s3 where g2: "gettoken b s2 = (t2, f, s3)" by (cases "gettoken b s2")
  show ?case
  proof (cases m)
    case False
    then have "c' = c" "s' = s1" using 1(2) p by (simp_all add: parseredirs.simps [of b c s])
    then show ?thesis using peek_not [OF 1(3), of s "''<>''" s1] p False 1(4) by (intro exI [of _ "[]"]) simp
  next
    case True
    have t2: "t2 = CHR ''a''" using 1(2) p g g2 True by (simp add: parseredirs.simps [of b c s] split: if_splits)
    have r: "parseredirs b (redir_of t f c) s3 = Inr (c', s')" using 1(2) p g g2 True t2 by (simp add: parseredirs.simps [of b c s])
    have f: "toks b s2 = Word (text_of b f) # toks b s3" "span_ok b f" using gettoken_toks [OF 1(3) g2] t2 by (simp_all add: NUL_def)
    have o: "toks b s = Sym t # toks b s2" "first_char (Sym t) \<in> set ''<>''" using peek_take [OF 1(3) _ _ g, of s "''<>''"] p True by simp_all
    have "\<exists>rs. redirs_ok rs \<and> toks b s3 = flat_redirs rs @ toks b s' \<and> words b c' = wrap rs (words b (redir_of t f c)) \<and> good b c'"
      using 1(1) [OF p [symmetric] _ g [symmetric] refl g2 [symmetric] refl _ r 1(3) good_redir [OF f(2) 1(4)]] True t2 by simp
    then obtain rs where "redirs_ok rs" "toks b s3 = flat_redirs rs @ toks b s'" "words b c' = wrap rs (words b (redir_of t f c))" "good b c'" by blast
    then show ?thesis using o f first_redir [of t] by (intro exI [of _ "(t, text_of b f) # rs"]) simp
  qed
qed

lemma parseredirs_complete:
  "toks b s = flat_redirs rs @ rest \<Longrightarrow> redirs_ok rs \<Longrightarrow> \<not> starts ''<>'' rest \<Longrightarrow> clean b \<Longrightarrow>
    \<exists>c' s'. parseredirs b c s = Inr (c', s') \<and> toks b s' = rest \<and> words b c' = wrap rs (words b c)"
proof (induction rs arbitrary: c s)
  case Nil
  obtain m s1 where p: "peek b s ''<>'' = (m, s1)" by (cases "peek b s ''<>''")
  then have "\<not> m" "toks b s1 = rest" using peek_toks [OF Nil(4) p] Nil by simp_all
  then show ?case using p by (simp add: parseredirs.simps [of b c s])
next
  case (Cons r rs)
  obtain op w where r: "r = (op, w)" by (cases r)
  obtain m s1 where p: "peek b s ''<>'' = (m, s1)" by (cases "peek b s ''<>''")
  obtain t x s2 where g: "gettoken b s1 = (t, x, s2)" by (cases "gettoken b s1")
  obtain t2 f s3 where g2: "gettoken b s2 = (t2, f, s3)" by (cases "gettoken b s2")
  have m: m using peek_toks(1) [OF Cons.prems(4) p] Cons.prems(1,2) first_redir [of op] unfolding r by (simp add: starts_def)
  then have "toks b s = Sym t # toks b s2" using peek_take(1) [OF Cons.prems(4) _ _ g, of s "''<>''"] p by simp
  then have t: "t = op" "toks b s2 = Word w # flat_redirs rs @ rest" using Cons.prems(1) unfolding r by simp_all
  then have f: "t2 = CHR ''a''" "text_of b f = w" "toks b s3 = flat_redirs rs @ rest"
    using gettoken_toks [OF Cons.prems(4) g2] by (simp_all split: if_splits)
  obtain c' s' where "parseredirs b (redir_of t f c) s3 = Inr (c', s')" "toks b s' = rest" "words b c' = wrap rs (words b (redir_of t f c))"
    using Cons.IH [OF f(3) _ Cons.prems(3,4), of "redir_of t f c"] Cons.prems(2) unfolding r by auto
  then show ?case using p g g2 m f t unfolding r by (simp add: parseredirs.simps [of b c s])
qed

section \<open>Simple commands\<close>

lemma flat_args_simps [simp]: "flat_args [] = []" "flat_args ((w, rs) # as) = Word w # flat_redirs rs @ flat_args as"
  "args_redirs [] = []" "args_redirs ((w, rs) # as) = rs @ args_redirs as"
  by (simp_all add: flat_args_def args_redirs_def)

lemma words_EXEC_argv: "words b c = wrap rs x \<Longrightarrow> words b (set_argv as c) = wrap rs (set_argv (map (text_of b) as) x)"
  by (simp add: argv_wrap)

lemma exec_loop_sound:
  "exec_loop b ret args s = Inr (c, s') \<Longrightarrow> clean b \<Longrightarrow> good b ret \<Longrightarrow> \<forall>f \<in> set args. span_ok b f \<Longrightarrow> length args < MAXARGS \<Longrightarrow>
    \<exists>as. redirs_ok (args_redirs as) \<and> length args + length as < MAXARGS \<and> toks b s = flat_args as @ toks b s' \<and>
      words b c = wrap (args_redirs as) (set_argv (map (text_of b) args @ map fst as) (words b ret)) \<and> good b c"
proof (induction b ret args s rule: exec_loop.induct)
  case (1 b ret args s)
  obtain m s1 where p: "peek b s ''|)&;'' = (m, s1)" by (cases "peek b s ''|)&;''")
  obtain t w s2 where g: "gettoken b s1 = (t, w, s2)" by (cases "gettoken b s1")
  have s1: "toks b s1 = toks b s" using peek_toks(2) [OF 1(3) p] by simp
  show ?case
  proof (cases "m \<or> t = NUL")
    case True
    then have c: "c = set_argv args ret" "s' = (if m then s1 else s2)" using 1(2) p g by (auto simp: exec_loop.simps [of b ret args s] split: if_splits)
    have "toks b s = toks b s'" using c(2) s1 True gettoken_toks [OF 1(3) g] by (auto split: if_splits)
    then show ?thesis using c(1) 1(4-6) good_argv by (intro exI [of _ "[]"]) simp
  next
    case False
    have t: "t = CHR ''a''" "length (args @ [w]) < MAXARGS" using 1(2) p g False by (auto simp: exec_loop.simps [of b ret args s] split: if_splits)
    obtain ret' s3 where r: "parseredirs b ret s2 = Inr (ret', s3)"
      using 1(2) p g False t by (auto simp: exec_loop.simps [of b ret args s] split: sum.splits if_splits)
    have e: "exec_loop b ret' (args @ [w]) s3 = Inr (c, s')" using 1(2) p g False t r by (simp add: exec_loop.simps [of b ret args s])
    have w: "toks b s = Word (text_of b w) # toks b s2" "span_ok b w" using gettoken_toks [OF 1(3) g] t(1) s1 by (simp_all add: NUL_def)
    obtain rs where rs: "redirs_ok rs" "toks b s2 = flat_redirs rs @ toks b s3" "words b ret' = wrap rs (words b ret)" "good b ret'"
      using parseredirs_sound [OF r 1(3,4)] by blast
    have n: "\<not> MAXARGS \<le> length (args @ [w])" "\<forall>f \<in> set (args @ [w]). span_ok b f" using t(2) w(2) 1(5) by auto
    obtain as where "redirs_ok (args_redirs as)" "length (args @ [w]) + length as < MAXARGS" "toks b s3 = flat_args as @ toks b s'"
      "words b c = wrap (args_redirs as) (set_argv (map (text_of b) (args @ [w]) @ map fst as) (words b ret'))" "good b c"
      using 1(1) [OF p [symmetric] _ g [symmetric] refl _ _ n(1) r refl e 1(3) rs(4) n(2) t(2)] False t(1) by auto
    then show ?thesis using w(1) rs by (intro exI [of _ "(text_of b w, rs) # as"]) (simp add: argv_wrap)
  qed
qed

lemma follow_args: "rest = [] \<or> starts ''|)&;'' rest \<Longrightarrow> \<not> starts ''<>'' (flat_args as @ rest)"
  by (cases as; cases rest) (auto simp: starts_def first_char_def split: tok.splits if_splits)

lemma exec_loop_complete:
  "toks b s = flat_args as @ rest \<Longrightarrow> redirs_ok (args_redirs as) \<Longrightarrow> length args + length as < MAXARGS \<Longrightarrow>
    rest = [] \<or> starts ''|)&;'' rest \<Longrightarrow> clean b \<Longrightarrow>
    \<exists>c s'. exec_loop b ret args s = Inr (c, s') \<and> toks b s' = rest \<and>
      words b c = wrap (args_redirs as) (set_argv (map (text_of b) args @ map fst as) (words b ret))"
proof (induction as arbitrary: args ret s)
  case Nil
  obtain m s1 where p: "peek b s ''|)&;'' = (m, s1)" by (cases "peek b s ''|)&;''")
  obtain t w s2 where g: "gettoken b s1 = (t, w, s2)" by (cases "gettoken b s1")
  have m: "m \<longleftrightarrow> starts ''|)&;'' rest" "toks b s1 = rest" using peek_toks [OF Nil(5) p] Nil(1) by simp_all
  have "t = NUL \<and> toks b s2 = rest" if "\<not> m" using that m Nil(4) gettoken_toks [OF Nil(5) g] by (auto split: if_splits)
  then show ?case using p g m by (cases m) (auto simp: exec_loop.simps [of b ret args s])
next
  case (Cons a as)
  obtain v rs where a: "a = (v, rs)" by (cases a)
  obtain m s1 where p: "peek b s ''|)&;'' = (m, s1)" by (cases "peek b s ''|)&;''")
  obtain t w s2 where g: "gettoken b s1 = (t, w, s2)" by (cases "gettoken b s1")
  have "\<not> m" "toks b s1 = Word v # flat_redirs rs @ flat_args as @ rest"
    using peek_toks [OF Cons.prems(5) p] Cons.prems(1) unfolding a by (auto simp: starts_def first_char_def)
  moreover from this have t: "t = CHR ''a''" "text_of b w = v" "toks b s2 = flat_redirs rs @ flat_args as @ rest"
    using gettoken_toks [OF Cons.prems(5) g] by (auto split: if_splits)
  ultimately show ?case using parseredirs_complete [OF t(3) _ follow_args [OF Cons.prems(4)] Cons.prems(5), of ret]
      Cons.IH [of _ "args @ [w]"] Cons.prems(2-5) p g unfolding a
    by (fastforce simp: exec_loop.simps [of b ret args s] argv_wrap NUL_def)
qed

section \<open>Background commands\<close>

lemma back_loop_sound:
  "back_loop b c s = (c', s') \<Longrightarrow> clean b \<Longrightarrow> \<exists>k. toks b s = replicate k (Sym CHR ''&'') @ toks b s' \<and> c' = (BACK ^^ k) c \<and> \<not> starts ''&'' (toks b s')"
proof (induction b c s rule: back_loop.induct)
  case (1 b c s)
  obtain m s1 where p: "peek b s ''&'' = (m, s1)" by (cases "peek b s ''&''")
  obtain t w s2 where g: "gettoken b s1 = (t, w, s2)" by (cases "gettoken b s1")
  show ?case
  proof (cases m)
    case False
    then show ?thesis using 1(2) p peek_toks [OF 1(3) p] by (intro exI [of _ 0]) (simp add: back_loop.simps [of b c s])
  next
    case True
    then have a: "toks b s = Sym CHR ''&'' # toks b s2" using peek_one [OF 1(3) _ _ _ g] p by simp
    have "back_loop b (BACK c) s2 = (c', s')" using 1(2) p g True by (simp add: back_loop.simps [of b c s])
    then obtain k where "toks b s2 = replicate k (Sym CHR ''&'') @ toks b s'" "c' = (BACK ^^ k) (BACK c)" "\<not> starts ''&'' (toks b s')"
      using 1(1) [OF p [symmetric] _ g [symmetric] refl _ 1(3)] True by auto
    then show ?thesis using a by (intro exI [of _ "Suc k"]) (simp add: funpow_swap1)
  qed
qed

lemma words_BACK [simp]: "words b ((BACK ^^ k) c) = (BACK ^^ k) (words b c)" "good b ((BACK ^^ k) c) = good b c"
  by (induction k) simp_all

lemma replicate_starts: "replicate k x @ us = replicate j x @ vs \<Longrightarrow> us = [] \<or> hd us \<noteq> x \<Longrightarrow> vs = [] \<or> hd vs \<noteq> x \<Longrightarrow> k = j \<and> us = vs"
proof (induction k arbitrary: j)
  case 0
  then show ?case by (cases j) auto
next
  case (Suc k)
  then show ?case by (cases j) auto
qed

lemma back_loop_complete:
  assumes "toks b s = replicate k (Sym CHR ''&'') @ rest" "\<not> starts ''&'' rest" "clean b"
  shows "\<exists>s'. back_loop b c s = ((BACK ^^ k) c, s') \<and> toks b s' = rest"
proof -
  obtain c' s' where l: "back_loop b c s = (c', s')" by (cases "back_loop b c s")
  obtain j where j: "toks b s = replicate j (Sym CHR ''&'') @ toks b s'" "c' = (BACK ^^ j) c" "\<not> starts ''&'' (toks b s')"
    using back_loop_sound [OF l assms(3)] by blast
  have "k = j \<and> rest = toks b s'"
    by (rule replicate_starts [of _ "Sym CHR ''&''"]) (use assms j in \<open>auto simp: starts_def first_char_def\<close>)
  then show ?thesis using l j by simp
qed

section \<open>The parser accepts only the grammar\<close>

definition sound :: "string \<Rightarrow> (nat \<Rightarrow> string \<Rightarrow> nat \<Rightarrow> parsed) \<Rightarrow> (string cmd \<Rightarrow> tok list \<Rightarrow> bool) \<Rightarrow> nat \<Rightarrow> bool" where
  "sound b pf gram n \<longleftrightarrow> (\<forall>s c s'. pf n b s = Some (Inr (c, s')) \<longrightarrow> (\<exists>ts. toks b s = ts @ toks b s' \<and> gram (words b c) ts \<and> good b c))"

lemma soundD: "sound b pf gram n \<Longrightarrow> pf n b s = Some (Inr (c, s')) \<Longrightarrow> \<exists>ts. toks b s = ts @ toks b s' \<and> gram (words b c) ts \<and> good b c"
  unfolding sound_def by blast

lemma parseline_sound:
  assumes "clean b" "sound b parsepipe pipeline n" "sound b parseline line n"
  shows "sound b parseline line (Suc n)"
  unfolding sound_def
proof (intro allI impI)
  fix s c s' assume r: "parseline (Suc n) b s = Some (Inr (c, s'))"
  obtain d s1 where d: "parsepipe n b s = Some (Inr (d, s1))" using r by (auto split: option.splits sum.splits)
  obtain e s2 where e: "back_loop b d s1 = (e, s2)" by (cases "back_loop b d s1")
  obtain m s3 where m: "peek b s2 '';'' = (m, s3)" by (cases "peek b s2 '';''")
  obtain t w s4 where g: "gettoken b s3 = (t, w, s4)" by (cases "gettoken b s3")
  obtain ts where ts: "toks b s = ts @ toks b s1" "pipeline (words b d) ts" "good b d" using soundD [OF assms(2) d] by blast
  obtain k where k: "toks b s1 = replicate k (Sym CHR ''&'') @ toks b s2" "e = (BACK ^^ k) d" using back_loop_sound [OF e assms(1)] by blast
  show "\<exists>ts. toks b s = ts @ toks b s' \<and> line (words b c) ts \<and> good b c"
  proof (cases m)
    case False
    then have c: "c = e" "toks b s' = toks b s2" using r d e m peek_toks(2) [OF assms(1) m] by simp_all
    then show ?thesis using ts k line_end [OF ts(2), of k] by (intro exI [of _ "ts @ replicate k (Sym CHR ''&'')"]) simp
  next
    case True
    obtain x s5 where x: "parseline n b s4 = Some (Inr (x, s5))" using r d e m g True by (auto split: option.splits sum.splits)
    then have c: "c = LIST e x" "s' = s5" using r d e m g True by simp_all
    have semi: "toks b s2 = Sym CHR '';'' # toks b s4" using peek_one [OF assms(1) _ _ _ g] m True by simp
    obtain us where us: "toks b s4 = us @ toks b s5" "line (words b x) us" "good b x" using soundD [OF assms(3) x] by blast
    show ?thesis using ts k semi us c line_list [OF ts(2) us(2), of k]
      by (intro exI [of _ "ts @ replicate k (Sym CHR ''&'') @ Sym CHR '';'' # us"]) simp
  qed
qed

lemma parsepipe_sound:
  assumes "clean b" "sound b parseexec single n" "sound b parsepipe pipeline n"
  shows "sound b parsepipe pipeline (Suc n)"
  unfolding sound_def
proof (intro allI impI)
  fix s c s' assume r: "parsepipe (Suc n) b s = Some (Inr (c, s'))"
  obtain d s2 where d: "parseexec n b s = Some (Inr (d, s2))" using r by (auto split: option.splits sum.splits)
  obtain m s3 where m: "peek b s2 ''|'' = (m, s3)" by (cases "peek b s2 ''|''")
  obtain t w s4 where g: "gettoken b s3 = (t, w, s4)" by (cases "gettoken b s3")
  obtain ts where ts: "toks b s = ts @ toks b s2" "single (words b d) ts" "good b d" using soundD [OF assms(2) d] by blast
  show "\<exists>ts. toks b s = ts @ toks b s' \<and> pipeline (words b c) ts \<and> good b c"
  proof (cases m)
    case False
    then have "c = d" "toks b s' = toks b s2" using r d m peek_toks(2) [OF assms(1) m] by simp_all
    then show ?thesis using ts pipe_end by auto
  next
    case True
    obtain x s5 where x: "parsepipe n b s4 = Some (Inr (x, s5))" using r d m g True by (auto split: option.splits sum.splits)
    then have c: "c = PIPE d x" "s' = s5" using r d m g True by simp_all
    have bar: "toks b s2 = Sym CHR ''|'' # toks b s4" using peek_one [OF assms(1) _ _ _ g] m True by simp
    obtain us where us: "toks b s4 = us @ toks b s5" "pipeline (words b x) us" "good b x" using soundD [OF assms(3) x] by blast
    show ?thesis using ts bar us c pipe_more [OF ts(2) us(2)] by (intro exI [of _ "ts @ Sym CHR ''|'' # us"]) simp
  qed
qed

lemma parseexec_sound:
  assumes "clean b" "sound b parseblock single n"
  shows "sound b parseexec single (Suc n)"
  unfolding sound_def
proof (intro allI impI)
  fix s c s' assume r: "parseexec (Suc n) b s = Some (Inr (c, s'))"
  obtain m s1 where m: "peek b s ''('' = (m, s1)" by (cases "peek b s ''(''")
  have s1: "toks b s1 = toks b s" using peek_toks(2) [OF assms(1) m] by simp
  show "\<exists>ts. toks b s = ts @ toks b s' \<and> single (words b c) ts \<and> good b c"
  proof (cases m)
    case True
    then have "parseblock n b s1 = Some (Inr (c, s'))" using r m by simp
    then show ?thesis using soundD [OF assms(2)] s1 by metis
  next
    case False
    obtain ret s2 where p: "parseredirs b (EXEC []) s1 = Inr (ret, s2)" using r m False by (auto split: sum.splits)
    then have e: "exec_loop b ret [] s2 = Inr (c, s')" using r m False by simp
    obtain rs where rs: "redirs_ok rs" "toks b s1 = flat_redirs rs @ toks b s2" "words b ret = wrap rs (EXEC [])" "good b ret"
      using parseredirs_sound [OF p assms(1)] by auto
    obtain as where as: "redirs_ok (args_redirs as)" "length as < MAXARGS" "toks b s2 = flat_args as @ toks b s'"
      "words b c = wrap (args_redirs as) (set_argv (map fst as) (words b ret))" "good b c"
      using exec_loop_sound [OF e assms(1) rs(4)] by (auto simp: MAXARGS_def)
    have "words b c = wrap (rs @ args_redirs as) (EXEC (map fst as))" by (simp add: as(4) rs(3) argv_wrap)
    then show ?thesis using rs(2) as(3,5) s1 simple [OF rs(1) as(1,2)] by (intro exI [of _ "flat_redirs rs @ flat_args as"]) simp
  qed
qed

lemma parseblock_sound:
  assumes "clean b" "sound b parseline line n"
  shows "sound b parseblock single (Suc n)"
  unfolding sound_def
proof (intro allI impI)
  fix s c s' assume r: "parseblock (Suc n) b s = Some (Inr (c, s'))"
  obtain m s1 where m: "peek b s ''('' = (m, s1)" by (cases "peek b s ''(''")
  then have m': "peek b s ''('' = (True, s1)" using r by (cases m) auto
  obtain t w s2 where g: "gettoken b s1 = (t, w, s2)" by (cases "gettoken b s1")
  obtain d s3 where d: "parseline n b s2 = Some (Inr (d, s3))" using r m' g by (auto split: option.splits sum.splits)
  obtain k s4 where k: "peek b s3 '')'' = (k, s4)" by (cases "peek b s3 '')''")
  then have k': "peek b s3 '')'' = (True, s4)" using r m' g d by (cases k) auto
  obtain t2 w2 s5 where g2: "gettoken b s4 = (t2, w2, s5)" by (cases "gettoken b s4")
  have p: "parseredirs b d s5 = Inr (c, s')" using r m' g d k' g2 by simp
  have "toks b s = Sym CHR ''('' # toks b s2" "toks b s3 = Sym CHR '')'' # toks b s5"
    using peek_one [OF assms(1) m' _ _ g] peek_one [OF assms(1) k' _ _ g2] by simp_all
  moreover obtain ts where ts: "toks b s2 = ts @ toks b s3" "line (words b d) ts" "good b d" using soundD [OF assms(2) d] by blast
  moreover obtain rs where rs: "redirs_ok rs" "toks b s5 = flat_redirs rs @ toks b s'" "words b c = wrap rs (words b d)" "good b c"
    using parseredirs_sound [OF p assms(1) ts(3)] by blast
  ultimately show "\<exists>ts. toks b s = ts @ toks b s' \<and> single (words b c) ts \<and> good b c"
    using block [OF ts(2) rs(1)] by (intro exI [of _ "Sym CHR ''('' # ts @ Sym CHR '')'' # flat_redirs rs"]) simp
qed

lemma parser_sound:
  "clean b \<Longrightarrow> sound b parseline line n \<and> sound b parsepipe pipeline n \<and> sound b parseexec single n \<and> sound b parseblock single n"
proof (induction n)
  case 0
  show ?case by (simp add: sound_def)
next
  case (Suc n)
  then show ?case using parseline_sound parsepipe_sound parseexec_sound parseblock_sound by blast
qed

section \<open>The fuel is enough\<close>

lemma back_loop_toks: "clean b \<Longrightarrow> back_loop b c s = (c', s') \<Longrightarrow> length (toks b s') \<le> length (toks b s)"
  using back_loop_sound by fastforce

lemma sound_toks: "sound b pf gram n \<Longrightarrow> pf n b s = Some (Inr (c, s')) \<Longrightarrow> length (toks b s') \<le> length (toks b s)"
  using soundD by fastforce

lemma peek_one_toks: "clean b \<Longrightarrow> peek b s [c] = (True, s1) \<Longrightarrow> gettoken b s1 = (t, f, s2) \<Longrightarrow> c \<in> set symbols \<Longrightarrow> c \<noteq> CHR ''>'' \<Longrightarrow>
    length (toks b s) = Suc (length (toks b s2))"
  using peek_one by fastforce

lemma parser_ends:
  assumes "clean b"
  shows "(\<forall>s. 4 * length (toks b s) + 4 \<le> n \<longrightarrow> parseline n b s \<noteq> None) \<and> (\<forall>s. 4 * length (toks b s) + 3 \<le> n \<longrightarrow> parsepipe n b s \<noteq> None) \<and>
    (\<forall>s. 4 * length (toks b s) + 2 \<le> n \<longrightarrow> parseexec n b s \<noteq> None) \<and> (\<forall>s. 4 * length (toks b s) + 1 \<le> n \<longrightarrow> parseblock n b s \<noteq> None)"
proof (induction n)
  case 0
  show ?case by simp
next
  case (Suc n)
  note snd = parser_sound [OF assms, of n]
  have 1: "parseline (Suc n) b s \<noteq> None" if l: "4 * length (toks b s) + 4 \<le> Suc n" for s
  proof (cases "parsepipe n b s")
    case None
    then show ?thesis using Suc l by auto
  next
    case (Some r)
    show ?thesis
    proof (cases r)
      case (Inr x)
      obtain c s1 where x: "x = (c, s1)" by (cases x)
      obtain e s2 where e: "back_loop b c s1 = (e, s2)" by (cases "back_loop b c s1")
      obtain m s3 where m: "peek b s2 '';'' = (m, s3)" by (cases "peek b s2 '';''")
      obtain t w s4 where g: "gettoken b s3 = (t, w, s4)" by (cases "gettoken b s3")
      have "parseline n b s4 \<noteq> None" if m
      proof -
        have "length (toks b s2) = Suc (length (toks b s4))" using peek_one_toks [OF assms _ g] m that by simp
        moreover have "length (toks b s2) \<le> length (toks b s)"
          using back_loop_toks [OF assms e] sound_toks [of b parsepipe pipeline n s c s1] snd Some Inr x by simp
        ultimately show ?thesis using Suc l by simp
      qed
      then show ?thesis using Some Inr x e m g by (auto split: option.splits sum.splits)
    qed (use Some in simp)
  qed
  have 2: "parsepipe (Suc n) b s \<noteq> None" if l: "4 * length (toks b s) + 3 \<le> Suc n" for s
  proof (cases "parseexec n b s")
    case None
    then show ?thesis using Suc l by auto
  next
    case (Some r)
    show ?thesis
    proof (cases r)
      case (Inr x)
      obtain c s2 where x: "x = (c, s2)" by (cases x)
      obtain m s3 where m: "peek b s2 ''|'' = (m, s3)" by (cases "peek b s2 ''|''")
      obtain t w s4 where g: "gettoken b s3 = (t, w, s4)" by (cases "gettoken b s3")
      have "parsepipe n b s4 \<noteq> None" if m
      proof -
        have "length (toks b s2) = Suc (length (toks b s4))" using peek_one_toks [OF assms _ g] m that by simp
        moreover have "length (toks b s2) \<le> length (toks b s)" using sound_toks [of b parseexec single n s c s2] snd Some Inr x by simp
        ultimately show ?thesis using Suc l by simp
      qed
      then show ?thesis using Some Inr x m g by (auto split: option.splits sum.splits)
    qed (use Some in simp)
  qed
  have 3: "parseexec (Suc n) b s \<noteq> None" if l: "4 * length (toks b s) + 2 \<le> Suc n" for s
  proof -
    obtain m s1 where m: "peek b s ''('' = (m, s1)" by (cases "peek b s ''(''")
    then have "toks b s1 = toks b s" using peek_toks(2) [OF assms m] by simp
    then show ?thesis using Suc l m by (auto split: sum.splits)
  qed
  have 4: "parseblock (Suc n) b s \<noteq> None" if l: "4 * length (toks b s) + 1 \<le> Suc n" for s
  proof -
    obtain m s1 where m: "peek b s ''('' = (m, s1)" by (cases "peek b s ''(''")
    obtain t w s2 where g: "gettoken b s1 = (t, w, s2)" by (cases "gettoken b s1")
    have "parseline n b s2 \<noteq> None" if m using peek_one_toks [OF assms _ g] m that Suc l by simp
    then show ?thesis using m g by (auto split: option.splits sum.splits prod.splits)
  qed
  show ?case using 1 2 3 4 by blast
qed

section \<open>The parser accepts the whole grammar\<close>

text \<open>What the parser does on a derivation, unless its fuel is used up.\<close>

definition finds :: "string \<Rightarrow> parsed \<Rightarrow> string cmd \<Rightarrow> tok list \<Rightarrow> bool" where
  "finds b r a rest \<longleftrightarrow> r = None \<or> (\<exists>c s'. r = Some (Inr (c, s')) \<and> toks b s' = rest \<and> words b c = a)"

definition follow :: "string \<Rightarrow> tok list \<Rightarrow> bool" where
  "follow cs rest \<longleftrightarrow> rest = [] \<or> starts cs rest"

lemma follow_cons: "follow cs (t # ts) \<longleftrightarrow> first_char t \<in> set cs" "follow cs []"
  by (simp_all add: follow_def starts_def)

lemma follow_not: "follow cs rest \<Longrightarrow> c \<notin> set cs \<Longrightarrow> \<not> starts [c] rest"
  by (auto simp: follow_def starts_def)

lemma follow_mono: "follow cs rest \<Longrightarrow> set cs \<subseteq> set ds \<Longrightarrow> follow ds rest"
  by (auto simp: follow_def starts_def)

lemma peek_is:
  assumes "clean b" "toks b s = Sym c # us" "c \<in> set symbols" "c \<noteq> CHR ''>''"
  shows "\<exists>s1 t f s2. peek b s [c] = (True, s1) \<and> gettoken b s1 = (t, f, s2) \<and> toks b s2 = us"
proof -
  obtain m s1 where m: "peek b s [c] = (m, s1)" by (cases "peek b s [c]")
  obtain t f s2 where g: "gettoken b s1 = (t, f, s2)" by (cases "gettoken b s1")
  have "c \<noteq> CHR ''+''" using assms(3) by (auto simp: symbols_def)
  then have m: "peek b s [c] = (True, s1)" using m peek_toks(1) [OF assms(1) m] assms(2,3) by (simp add: starts_def first_char_def)
  then show ?thesis using g peek_one [OF assms(1) m assms(3,4) g] assms(2) by simp
qed

lemma peek_isnt:
  assumes "clean b" "\<not> starts [c] (toks b s)" "c \<in> set symbols"
  shows "\<exists>s1. peek b s [c] = (False, s1) \<and> toks b s1 = toks b s"
proof -
  obtain m s1 where m: "peek b s [c] = (m, s1)" by (cases "peek b s [c]")
  then show ?thesis using peek_toks [OF assms(1) m] assms(2,3) by auto
qed

lemma parseline_after:
  assumes "clean b" "finds b (parsepipe n b s) c (replicate k (Sym CHR ''&'') @ rest)" "\<not> starts ''&'' rest"
  shows "parseline (Suc n) b s = None \<or> (\<exists>e s2. words b e = (BACK ^^ k) c \<and> toks b s2 = rest \<and> parseline (Suc n) b s =
    (case peek b s2 '';'' of (semi, s) \<Rightarrow> if \<not> semi then Some (Inr (e, s)) else
       (case gettoken b s of (_, _, s) \<Rightarrow> (case parseline n b s of None \<Rightarrow> None | Some (Inl e) \<Rightarrow> Some (Inl e)
         | Some (Inr (d, s)) \<Rightarrow> Some (Inr (LIST e d, s))))))"
proof (cases "parsepipe n b s")
  case (Some r)
  then obtain d s1 where d: "r = Inr (d, s1)" "toks b s1 = replicate k (Sym CHR ''&'') @ rest" "words b d = c" using assms(2) by (auto simp: finds_def)
  obtain s2 where s2: "back_loop b d s1 = ((BACK ^^ k) d, s2)" "toks b s2 = rest" using back_loop_complete [OF d(2) assms(3,1)] by blast
  then show ?thesis using Some d by (intro disjI2 exI [of _ "(BACK ^^ k) d"] exI [of _ s2]) simp
qed simp

lemma replicate_follow: "follow cs rest \<Longrightarrow> CHR ''&'' \<in> set cs \<Longrightarrow> follow cs (replicate k (Sym CHR ''&'') @ rest)"
  by (cases k) (auto simp: follow_cons first_char_def)

definition accepts :: "string \<Rightarrow> (nat \<Rightarrow> string \<Rightarrow> nat \<Rightarrow> parsed) \<Rightarrow> string \<Rightarrow> string cmd \<Rightarrow> tok list \<Rightarrow> bool" where
  "accepts b pf cs a ts \<longleftrightarrow> (\<forall>n s rest. toks b s = ts @ rest \<longrightarrow> follow cs rest \<longrightarrow> finds b (pf n b s) a rest)"

lemma acceptsI:
  assumes "\<And>s. pf 0 b s = None" "\<And>n s rest. toks b s = ts @ rest \<Longrightarrow> follow cs rest \<Longrightarrow> finds b (pf (Suc n) b s) a rest"
  shows "accepts b pf cs a ts"
proof -
  have "finds b (pf n b s) a rest" if "toks b s = ts @ rest" "follow cs rest" for n s rest
    using assms that by (cases n) (simp_all add: finds_def)
  then show ?thesis unfolding accepts_def by blast
qed

lemma acceptsD: "accepts b pf cs a ts \<Longrightarrow> toks b s = ts @ rest \<Longrightarrow> follow cs rest \<Longrightarrow> finds b (pf n b s) a rest"
  unfolding accepts_def by blast

lemma accepts_line_end:
  assumes "clean b" "accepts b parsepipe '')&;'' c ts"
  shows "accepts b parseline '')'' ((BACK ^^ k) c) (ts @ replicate k (Sym CHR ''&''))"
proof (rule acceptsI)
  fix n s rest assume t: "toks b s = (ts @ replicate k (Sym CHR ''&'')) @ rest" "follow '')'' rest"
  then have "follow '')&;'' (replicate k (Sym CHR ''&'') @ rest)" by (intro replicate_follow follow_mono [OF t(2)]) simp_all
  then have "finds b (parsepipe n b s) c (replicate k (Sym CHR ''&'') @ rest)" using acceptsD [OF assms(2)] t(1) by simp
  note after = parseline_after [OF assms(1) this follow_not [OF t(2)]]
  show "finds b (parseline (Suc n) b s) ((BACK ^^ k) c) rest"
  proof (cases "parseline (Suc n) b s = None")
    case False
    then obtain e s2 where e: "words b e = (BACK ^^ k) c" "toks b s2 = rest" "parseline (Suc n) b s =
      (case peek b s2 '';'' of (semi, s) \<Rightarrow> if \<not> semi then Some (Inr (e, s)) else
       (case gettoken b s of (_, _, s) \<Rightarrow> (case parseline n b s of None \<Rightarrow> None | Some (Inl e) \<Rightarrow> Some (Inl e)
         | Some (Inr (d, s)) \<Rightarrow> Some (Inr (LIST e d, s)))))" using after by auto
    obtain s3 where "peek b s2 '';'' = (False, s3)" "toks b s3 = rest" using peek_isnt [OF assms(1), of "CHR '';''" s2] follow_not [OF t(2), of "CHR '';''"] e(2) by auto
    then show ?thesis using e by (simp add: finds_def)
  qed (simp add: finds_def)
qed simp

lemma accepts_line_list:
  assumes "clean b" "accepts b parsepipe '')&;'' c ts" "accepts b parseline '')'' d us"
  shows "accepts b parseline '')'' (LIST ((BACK ^^ k) c) d) (ts @ replicate k (Sym CHR ''&'') @ Sym CHR '';'' # us)"
proof (rule acceptsI)
  fix n s rest assume t: "toks b s = (ts @ replicate k (Sym CHR ''&'') @ Sym CHR '';'' # us) @ rest" "follow '')'' rest"
  have "follow '')&;'' (replicate k (Sym CHR ''&'') @ Sym CHR '';'' # us @ rest)" by (rule replicate_follow) (simp_all add: follow_cons first_char_def)
  then have f: "finds b (parsepipe n b s) c (replicate k (Sym CHR ''&'') @ Sym CHR '';'' # us @ rest)" using acceptsD [OF assms(2)] t(1) by simp
  have "\<not> starts ''&'' (Sym CHR '';'' # us @ rest)" by (simp add: starts_def first_char_def)
  note after = parseline_after [OF assms(1) f this]
  show "finds b (parseline (Suc n) b s) (LIST ((BACK ^^ k) c) d) rest"
  proof (cases "parseline (Suc n) b s = None")
    case False
    then obtain e s2 where e: "words b e = (BACK ^^ k) c" "toks b s2 = Sym CHR '';'' # us @ rest" "parseline (Suc n) b s =
      (case peek b s2 '';'' of (semi, s) \<Rightarrow> if \<not> semi then Some (Inr (e, s)) else
       (case gettoken b s of (_, _, s) \<Rightarrow> (case parseline n b s of None \<Rightarrow> None | Some (Inl e) \<Rightarrow> Some (Inl e)
         | Some (Inr (d, s)) \<Rightarrow> Some (Inr (LIST e d, s)))))" using after by auto
    obtain s3 v f s4 where p: "peek b s2 '';'' = (True, s3)" "gettoken b s3 = (v, f, s4)" "toks b s4 = us @ rest" using peek_is [OF assms(1) e(2)] by auto
    have "finds b (parseline n b s4) d rest" using acceptsD [OF assms(3) p(3) t(2)] .
    then show ?thesis using e p False by (auto simp: finds_def)
  qed (simp add: finds_def)
qed simp

lemma accepts_pipe_end:
  assumes "clean b" "accepts b parseexec ''|)&;'' c ts"
  shows "accepts b parsepipe '')&;'' c ts"
proof (rule acceptsI)
  fix n s rest assume t: "toks b s = ts @ rest" "follow '')&;'' rest"
  have f: "finds b (parseexec n b s) c rest" using acceptsD [OF assms(2) t(1) follow_mono [OF t(2)]] by simp
  have "\<exists>s1. peek b s2 ''|'' = (False, s1) \<and> toks b s1 = rest" if "toks b s2 = rest" for s2
    using peek_isnt [OF assms(1), of "CHR ''|''" s2] follow_not [OF t(2), of "CHR ''|''"] that by auto
  then show "finds b (parsepipe (Suc n) b s) c rest" using f by (fastforce simp: finds_def)
qed simp

lemma accepts_pipe_more:
  assumes "clean b" "accepts b parseexec ''|)&;'' c ts" "accepts b parsepipe '')&;'' d us"
  shows "accepts b parsepipe '')&;'' (PIPE c d) (ts @ Sym CHR ''|'' # us)"
proof (rule acceptsI)
  fix n s rest assume t: "toks b s = (ts @ Sym CHR ''|'' # us) @ rest" "follow '')&;'' rest"
  have f: "finds b (parseexec n b s) c (Sym CHR ''|'' # us @ rest)" using acceptsD [OF assms(2)] t(1) by (simp add: follow_cons first_char_def)
  show "finds b (parsepipe (Suc n) b s) (PIPE c d) rest"
  proof (cases "parseexec n b s")
    case None
    then show ?thesis by (simp add: finds_def)
  next
    case (Some r)
    then obtain e s2 where e: "r = Inr (e, s2)" "toks b s2 = Sym CHR ''|'' # us @ rest" "words b e = c" using f by (auto simp: finds_def)
    obtain s3 v f s4 where p: "peek b s2 ''|'' = (True, s3)" "gettoken b s3 = (v, f, s4)" "toks b s4 = us @ rest" using peek_is [OF assms(1) e(2)] by auto
    have "finds b (parsepipe n b s4) d rest" using acceptsD [OF assms(3) p(3) t(2)] .
    then show ?thesis using Some e p by (auto simp: finds_def)
  qed
qed simp

lemma accepts_simple:
  assumes "clean b" "redirs_ok rs" "redirs_ok (args_redirs as)" "length as < MAXARGS"
  shows "accepts b parseexec ''|)&;'' (wrap (rs @ args_redirs as) (EXEC (map fst as))) (flat_redirs rs @ flat_args as)"
proof (rule acceptsI)
  fix n s rest assume t: "toks b s = (flat_redirs rs @ flat_args as) @ rest" "follow ''|)&;'' rest"
  have fol: "rest = [] \<or> starts ''|)&;'' rest" using t(2) by (simp add: follow_def)
  have "\<not> starts ''('' ((flat_redirs rs @ flat_args as) @ rest)"
    using assms(2) fol by (cases rs; cases as; cases rest) (auto simp: starts_def first_char_def redir_ops_def split: tok.splits if_splits)
  then obtain s1 where s1: "peek b s ''('' = (False, s1)" "toks b s1 = flat_redirs rs @ flat_args as @ rest"
    using peek_isnt [OF assms(1), of "CHR ''(''" s] t(1) by auto
  obtain ret s2 where r: "parseredirs b (EXEC []) s1 = Inr (ret, s2)" "toks b s2 = flat_args as @ rest" "words b ret = wrap rs (EXEC [])"
    using parseredirs_complete [OF s1(2) assms(2) follow_args [OF fol] assms(1), of "EXEC []"] by auto
  obtain c s3 where "exec_loop b ret [] s2 = Inr (c, s3)" "toks b s3 = rest" "words b c = wrap (args_redirs as) (set_argv (map fst as) (words b ret))"
    using exec_loop_complete [OF r(2) assms(3) _ fol assms(1), of "[]" ret] assms(4) by auto
  then show "finds b (parseexec (Suc n) b s) (wrap (rs @ args_redirs as) (EXEC (map fst as))) rest"
    using s1(1) r by (simp add: finds_def argv_wrap)
qed simp

lemma accepts_block:
  assumes "clean b" "accepts b parseline '')'' c ts" "redirs_ok rs"
  shows "accepts b parseexec ''|)&;'' (wrap rs c) (Sym CHR ''('' # ts @ Sym CHR '')'' # flat_redirs rs)"
proof (rule acceptsI)
  fix n s rest assume t: "toks b s = (Sym CHR ''('' # ts @ Sym CHR '')'' # flat_redirs rs) @ rest" "follow ''|)&;'' rest"
  then have t': "toks b s = Sym CHR ''('' # ts @ Sym CHR '')'' # flat_redirs rs @ rest" by simp
  obtain s1 where s1: "peek b s ''('' = (True, s1)" "toks b s1 = toks b s" using peek_is [OF assms(1) t'] peek_toks(2) [OF assms(1)] by fastforce
  have nr: "\<not> starts ''<>'' rest" using follow_args [of rest "[]"] t(2) by (simp add: follow_def)
  show "finds b (parseexec (Suc n) b s) (wrap rs c) rest"
  proof (cases n)
    case 0
    then show ?thesis using s1 by (simp add: finds_def)
  next
    case (Suc n')
    obtain s2 v f s3 where p: "peek b s1 ''('' = (True, s2)" "gettoken b s2 = (v, f, s3)" "toks b s3 = ts @ Sym CHR '')'' # flat_redirs rs @ rest"
      using peek_is [OF assms(1) trans [OF s1(2) t']] by auto
    have f: "finds b (parseline n' b s3) c (Sym CHR '')'' # flat_redirs rs @ rest)" using acceptsD [OF assms(2) p(3)] by (simp add: follow_cons first_char_def)
    show ?thesis
    proof (cases "parseline n' b s3")
      case None
      then show ?thesis using Suc s1(1) p by (simp add: finds_def)
    next
      case (Some r)
      then obtain e s4 where e: "r = Inr (e, s4)" "toks b s4 = Sym CHR '')'' # flat_redirs rs @ rest" "words b e = c" using f by (auto simp: finds_def)
      obtain s5 v' f' s6 where q: "peek b s4 '')'' = (True, s5)" "gettoken b s5 = (v', f', s6)" "toks b s6 = flat_redirs rs @ rest"
        using peek_is [OF assms(1) e(2)] by auto
      show ?thesis using parseredirs_complete [OF q(3) assms(3) nr assms(1), of e] Suc s1(1) p Some e q by (auto simp: finds_def)
    qed
  qed
qed simp

lemma parser_complete:
  assumes "clean b"
  shows "(line a ts \<longrightarrow> accepts b parseline '')'' a ts) \<and> (pipeline a' ts' \<longrightarrow> accepts b parsepipe '')&;'' a' ts') \<and>
    (single a'' ts'' \<longrightarrow> accepts b parseexec ''|)&;'' a'' ts'')"
  by (rule line_pipeline_single.induct)
    (blast intro: accepts_line_end accepts_line_list accepts_pipe_end accepts_pipe_more accepts_simple accepts_block assms)+

section \<open>Positions stay in the line\<close>

lemma gettoken_le: "gettoken b s = (t, f, s') \<Longrightarrow> s \<le> length b \<Longrightarrow> s' \<le> length b"
proof -
  assume g: "gettoken b s = (t, f, s')" "s \<le> length b"
  have e: "snd (token_end b q) \<le> length b" if "q \<le> length b" for q
  proof -
    have "q < length b" if "chr b q \<noteq> NUL" using that by (rule chr_NUL)
    moreover have "q + 1 < length b" if "chr b (q + 1) = CHR ''>''" using chr_NUL [of b "q + 1"] that by (simp add: NUL_def)
    ultimately show ?thesis using that scan_le [OF that, of in_word] unfolding token_end_def Let_def by (auto simp del: insert_iff)
  qed
  show "s' \<le> length b" using g e [OF scan_le [OF g(2)]] by (auto simp: gettoken_def Let_def intro: scan_le)
qed

lemma peek_le: "peek b s cs = (m, s') \<Longrightarrow> s \<le> length b \<Longrightarrow> s' \<le> length b"
  by (auto simp: peek_def Let_def intro: scan_le)

lemma parseredirs_le: "parseredirs b c s = Inr (c', s') \<Longrightarrow> s \<le> length b \<Longrightarrow> s' \<le> length b"
proof (induction b c s rule: parseredirs.induct)
  case (1 b c s)
  obtain m s1 where p: "peek b s ''<>'' = (m, s1)" by (cases "peek b s ''<>''")
  obtain t x s2 where g: "gettoken b s1 = (t, x, s2)" by (cases "gettoken b s1")
  obtain t2 f s3 where g2: "gettoken b s2 = (t2, f, s3)" by (cases "gettoken b s2")
  have l: "s1 \<le> length b" "s3 \<le> length b" using peek_le [OF p 1(3)] gettoken_le [OF g] gettoken_le [OF g2] by auto
  show ?case
  proof (cases m)
    case False
    then show ?thesis using 1(2) p l by (simp add: parseredirs.simps [of b c s])
  next
    case True
    then show ?thesis using 1(2) p g g2 1(1) [OF p [symmetric] _ g [symmetric] refl g2 [symmetric] refl _ _ l(2)]
      by (simp add: parseredirs.simps [of b c s] split: if_splits)
  qed
qed

lemma exec_loop_le: "exec_loop b ret args s = Inr (c, s') \<Longrightarrow> s \<le> length b \<Longrightarrow> s' \<le> length b"
proof (induction b ret args s rule: exec_loop.induct)
  case (1 b ret args s)
  obtain m s1 where p: "peek b s ''|)&;'' = (m, s1)" by (cases "peek b s ''|)&;''")
  obtain t w s2 where g: "gettoken b s1 = (t, w, s2)" by (cases "gettoken b s1")
  have l: "s1 \<le> length b" "s2 \<le> length b" using peek_le [OF p 1(3)] gettoken_le [OF g] by auto
  show ?case
  proof (cases "m \<or> t = NUL")
    case True
    then show ?thesis using 1(2) p g l by (auto simp: exec_loop.simps [of b ret args s] split: if_splits)
  next
    case False
    then obtain ret' s3 where r: "parseredirs b ret s2 = Inr (ret', s3)" "exec_loop b ret' (args @ [w]) s3 = Inr (c, s')"
      "t = CHR ''a''" "\<not> MAXARGS \<le> length (args @ [w])"
      using 1(2) p g by (auto simp: exec_loop.simps [of b ret args s] split: sum.splits if_splits)
    then show ?thesis using 1(1) [OF p [symmetric] _ g [symmetric] refl _ _ r(4) r(1) refl r(2)] parseredirs_le [OF r(1) l(2)] False by simp
  qed
qed

lemma back_loop_le: "back_loop b c s = (c', s') \<Longrightarrow> s \<le> length b \<Longrightarrow> s' \<le> length b"
proof (induction b c s rule: back_loop.induct)
  case (1 b c s)
  obtain m s1 where p: "peek b s ''&'' = (m, s1)" by (cases "peek b s ''&''")
  obtain t w s2 where g: "gettoken b s1 = (t, w, s2)" by (cases "gettoken b s1")
  have l: "s1 \<le> length b" "s2 \<le> length b" using peek_le [OF p 1(3)] gettoken_le [OF g] by auto
  then show ?case using 1(2) p g 1(1) [OF p [symmetric] _ g [symmetric] refl _ l(2)] by (simp add: back_loop.simps [of b c s] split: if_splits)
qed

lemma parser_le:
  "(\<forall>s c s'. parseline n b s = Some (Inr (c, s')) \<longrightarrow> s \<le> length b \<longrightarrow> s' \<le> length b) \<and>
   (\<forall>s c s'. parsepipe n b s = Some (Inr (c, s')) \<longrightarrow> s \<le> length b \<longrightarrow> s' \<le> length b) \<and>
   (\<forall>s c s'. parseexec n b s = Some (Inr (c, s')) \<longrightarrow> s \<le> length b \<longrightarrow> s' \<le> length b) \<and>
   (\<forall>s c s'. parseblock n b s = Some (Inr (c, s')) \<longrightarrow> s \<le> length b \<longrightarrow> s' \<le> length b)"
proof (induction n)
  case (Suc n)
  note le = peek_le gettoken_le back_loop_le parseredirs_le exec_loop_le
  show ?case
  proof (intro conjI allI impI)
    fix s c s' assume "parseline (Suc n) b s = Some (Inr (c, s'))" "s \<le> length b"
    then show "s' \<le> length b" using Suc by (auto split: option.splits sum.splits prod.splits if_splits) (meson le)+
  next
    fix s c s' assume "parsepipe (Suc n) b s = Some (Inr (c, s'))" "s \<le> length b"
    then show "s' \<le> length b" using Suc by (auto split: option.splits sum.splits prod.splits if_splits) (meson le)+
  next
    fix s c s' assume "parseexec (Suc n) b s = Some (Inr (c, s'))" "s \<le> length b"
    then show "s' \<le> length b" using Suc by (auto split: option.splits sum.splits prod.splits if_splits) (meson le)+
  next
    fix s c s' assume "parseblock (Suc n) b s = Some (Inr (c, s'))" "s \<le> length b"
    then show "s' \<le> length b" using Suc by (auto split: option.splits sum.splits prod.splits if_splits) (meson le)+
  qed
qed simp

section \<open>The terminated buffer\<close>

lemma nth_end_words: "i < length b \<Longrightarrow> fold end_word fs b ! i = (if i \<in> snd ` set fs then NUL else b ! i)" "length (fold end_word fs b) = length b"
  by (induction fs arbitrary: b) (auto simp: end_word_def nth_list_update)

lemma nulterminate_nth:
  "length (nulterminate c b) = length b \<and> (i < length b \<longrightarrow> nulterminate c b ! i = (if i \<in> snd ` set_cmd c then NUL else b ! i))"
proof (induction c arbitrary: b)
  case (EXEC as)
  then show ?case using nth_end_words(1) [of i b as] nth_end_words(2) [of as b] by simp
next
  case (REDIR c f m d)
  show ?case using REDIR [of b] by (cases "i = snd f") (auto simp: end_word_def)
next
  case (PIPE l r)
  show ?case using PIPE(1) [of b] PIPE(2) [of "nulterminate l b"] by (simp add: image_Un)
next
  case (LIST l r)
  show ?case using LIST(1) [of b] LIST(2) [of "nulterminate l b"] by (simp add: image_Un)
qed simp

lemma c_string_word:
  assumes "clean b" "good b c" "f \<in> set_cmd c"
  shows "c_string (nulterminate c b) f = text_of b f"
proof -
  obtain q e where f: "f = (q, e)" by (cases f)
  have ok: "q < e" "e \<le> length b" "\<forall>i. q \<le> i \<and> i < e \<longrightarrow> in_word (b ! i)" using assms(2,3) f by (auto simp: good_def span_ok_def)
  let ?b = "nulterminate c b"
  have l: "length ?b = length b" using nulterminate_nth [of c b] by blast
  have keep: "?b ! i = b ! i \<and> b ! i \<noteq> NUL" if "q \<le> i" "i < e" for i
  proof -
    have "i < length b" "in_word (b ! i)" using that ok by auto
    then have "i \<notin> snd ` set_cmd c" using assms(2) by (auto simp: good_def span_ok_def)
    then show ?thesis using nulterminate_nth [of c b i] \<open>i < length b\<close> assms(1) by (metis clean_def nth_mem)
  qed
  have z: "?b ! e = NUL" if "e < length b" using nulterminate_nth [of c b e] that assms(3) f by (force simp: image_iff)
  have "takeWhile (\<lambda>c. c \<noteq> NUL) (drop q ?b) = take (e - q) (drop q ?b)"
    by (rule takeWhile_eq_take_P_nth) (use keep z ok l in \<open>auto simp: nth_drop\<close>)
  also have "\<dots> = take (e - q) (drop q b)" by (rule nth_equalityI) (use keep ok l in auto)
  finally show ?thesis by (simp add: c_string_def text_of_def f)
qed

lemma toks_end: "scan is_white b s = length b \<longleftrightarrow> toks b s = []" if "s \<le> length b"
proof -
  have "toks b s = lex (drop (scan is_white b s) b)" by (metis toks_def toks_scan)
  moreover have "scan is_white b s \<le> length b" using that by (rule scan_le)
  moreover have "lex (drop (scan is_white b s) b) \<noteq> []" if "scan is_white b s < length b"
    using that scan_stop [of is_white b s] by (simp add: Cons_nth_drop_Suc [symmetric])
  ultimately show ?thesis by (cases "scan is_white b s = length b") simp_all
qed

lemma length_lex: "length (lex cs) \<le> length cs"
proof (induction cs rule: lex.induct)
  case (2 c cs)
  have "length (dropWhile in_word cs) \<le> length cs" "length (tl cs) \<le> length cs" by (simp_all add: length_dropWhile_le)
  then show ?case using 2 by (auto intro: le_trans le_SucI)
qed simp

text \<open>The parsed command, with the words in the text of the line and in the terminated buffer.\<close>

lemma parsecmd_words:
  assumes "clean b" "parsecmd b = Some (Inr (c, b'))"
  shows "b' = nulterminate c b" "good b c" "line (words b c) (lex b)" "map_cmd (c_string b') c = words b c"
proof -
  obtain s where s: "parseline (4 * length b + 4) b 0 = Some (Inr (c, s))" "scan is_white b s = length b" "b' = nulterminate c b"
    using assms(2) by (auto simp: parsecmd_def peek_def Let_def split: option.splits sum.splits prod.splits if_splits)
  then have "s \<le> length b" using parser_le [of "4 * length b + 4" b] by (meson le0)
  then have "toks b s = []" using toks_end s(2) by simp
  then show "line (words b c) (lex b)" "good b c" using parser_sound [OF assms(1), of "4 * length b + 4"] s(1) soundD by (fastforce simp: toks_def)+
  then show "map_cmd (c_string b') c = words b c" unfolding s(3) words_def by (intro cmd.map_cong0) (rule c_string_word [OF assms(1)])
  show "b' = nulterminate c b" by (rule s(3))
qed

section \<open>The properties\<close>

text \<open>
  C30: The shell's parser is the grammar. On any line it ends with a command or an error. It finds a
  command exactly when the tokens of the line are a command line of the grammar, and the command it
  builds, with its words read as C strings from the terminated buffer, is the one the grammar gives; so
  no line has two readings, and terminating one word never cuts another.
\<close>

theorem shell_parses_grammar:
  assumes "NUL \<notin> set b"
  shows "parsecmd b \<noteq> None \<and> (line a (lex b) \<longleftrightarrow> (\<exists>c b'. parsecmd b = Some (Inr (c, b')) \<and> map_cmd (c_string b') c = a))"
proof (intro conjI iffI)
  have cl: "clean b" using assms by (simp add: clean_def)
  have "4 * length (toks b 0) + 4 \<le> 4 * length b + 4" using length_lex [of b] by (simp add: toks_def)
  then have p: "parseline (4 * length b + 4) b 0 \<noteq> None" using parser_ends [OF cl, of "4 * length b + 4"] by blast
  then show "parsecmd b \<noteq> None" by (auto simp: parsecmd_def split: sum.splits prod.splits)
  show "line a (lex b)" if "\<exists>c b'. parsecmd b = Some (Inr (c, b')) \<and> map_cmd (c_string b') c = a"
    using that parsecmd_words(3,4) [OF cl] by metis
  assume "line a (lex b)"
  then have "accepts b parseline '')'' a (lex b)" using parser_complete [OF cl] by blast
  then have "finds b (parseline (4 * length b + 4) b 0) a []" by (rule acceptsD) (simp_all add: toks_def follow_def)
  then obtain c s where s: "parseline (4 * length b + 4) b 0 = Some (Inr (c, s))" "toks b s = []" "words b c = a" using p by (auto simp: finds_def)
  then have "s \<le> length b" using parser_le [of "4 * length b + 4" b] by (meson le0)
  then have "parsecmd b = Some (Inr (c, nulterminate c b))" using s toks_end by (simp add: parsecmd_def peek_def)
  then show "\<exists>c b'. parsecmd b = Some (Inr (c, b')) \<and> map_cmd (c_string b') c = a" using parsecmd_words(4) [OF cl] s(3) by blast
qed

text \<open>The shapes \<^verbatim>\<open>runcmd\<close> relies on.\<close>

primrec well_formed :: "'f cmd \<Rightarrow> bool" where
  "well_formed (EXEC as) \<longleftrightarrow> length as < MAXARGS"
| "well_formed (REDIR c f m d) \<longleftrightarrow> well_formed c \<and> (m = O_RDONLY \<and> d = 0 \<or> m = or O_WRONLY O_CREATE \<and> d = 1)"
| "well_formed (PIPE l r) \<longleftrightarrow> well_formed l \<and> well_formed r"
| "well_formed (LIST l r) \<longleftrightarrow> well_formed l \<and> well_formed r"
| "well_formed (BACK c) \<longleftrightarrow> well_formed c"

lemma well_formed_map [simp]: "well_formed (map_cmd g c) = well_formed c"
  by (induction c) simp_all

lemma well_formed_wrap: "redirs_ok rs \<Longrightarrow> well_formed (wrap rs c) = well_formed c"
proof (induction rs arbitrary: c)
  case (Cons r rs)
  then show ?case by (cases r) (auto simp: redir_of_def redir_ops_def)
qed simp

lemma well_formed_back [simp]: "well_formed ((BACK ^^ k) c) = well_formed c"
  by (induction k) simp_all

lemma grammar_well_formed:
  "(line a ts \<longrightarrow> well_formed a) \<and> (pipeline a' ts' \<longrightarrow> well_formed a') \<and> (single a'' ts'' \<longrightarrow> well_formed a'')"
  by (rule line_pipeline_single.induct) (simp_all add: well_formed_wrap)

text \<open>
  C31: The commands the parser builds are well typed: every simple command has at most nine words and so
  a null pointer behind them in its array, a redirection is standard input opened for reading or standard
  output opened for writing, and every word is a non-empty stretch of the line without blanks and
  symbols that the line does not continue.
\<close>

theorem shell_commands_well_formed:
  assumes "NUL \<notin> set b" "parsecmd b = Some (Inr (c, b'))"
  shows "well_formed c \<and> (\<forall>f \<in> set_cmd c. span_ok b f) \<and> length b' = length b"
proof -
  have cl: "clean b" using assms(1) by (simp add: clean_def)
  note p = parsecmd_words [OF cl assms(2)]
  have "well_formed (words b c)" using grammar_well_formed p(3) by blast
  then show ?thesis using p(1,2) nulterminate_nth [of c b] by (simp add: words_def good_def)
qed

text \<open>One line for both properties: \<^verbatim>\<open>(a>f;b)|c&\<close>.\<close>

definition demo_line :: string where "demo_line = ''(a>f;b)|c&''"
definition demo_cmd :: "string cmd" where
  "demo_cmd = BACK (PIPE (LIST (REDIR (EXEC [''a'']) ''f'' (or O_WRONLY O_CREATE) 1) (EXEC [''b''])) (EXEC [''c'']))"

lemma demo_parse: "\<exists>c b'. parsecmd demo_line = Some (Inr (c, b')) \<and> map_cmd (c_string b') c = demo_cmd"
proof -
  have "case parsecmd demo_line of Some (Inr (c, b')) \<Rightarrow> map_cmd (c_string b') c = demo_cmd | _ \<Rightarrow> False" by code_simp
  then show ?thesis by (auto split: option.splits sum.splits)
qed

lemma shell_parses_grammar_witness: "line demo_cmd (lex demo_line)"
  using shell_parses_grammar [of demo_line demo_cmd] demo_parse by (simp add: demo_line_def NUL_def)

lemma shell_commands_well_formed_witness: "\<exists>c b'. parsecmd demo_line = Some (Inr (c, b')) \<and> well_formed c \<and> (\<forall>f \<in> set_cmd c. span_ok demo_line f)"
proof -
  obtain c b' where "parsecmd demo_line = Some (Inr (c, b'))" using demo_parse by blast
  moreover have "NUL \<notin> set demo_line" by (simp add: demo_line_def NUL_def)
  ultimately show ?thesis using shell_commands_well_formed by blast
qed

end
