(* ===== verification/ShellRun.thy ===== *)
theory ShellRun
  imports ShellProps
begin

text \<open>
  Running commands (\<^verbatim>\<open>runcmd\<close> of \<^verbatim>\<open>sh.c\<close>). A process of the shell is a script of the system calls that
  matter to others, computed from the command and the table of open files it starts with; descriptors are
  given out lowest first, as the kernel does. What opens, pipes and forks can fail is a parameter.
\<close>

section \<open>Descriptors\<close>

datatype stream = Inherited nat | Opened string nat | PipeIn "nat list" | PipeOut "nat list"

type_synonym fds = "stream option list"

fun lowest_free :: "fds \<Rightarrow> nat option" where
  "lowest_free [] = None"
| "lowest_free (None # t) = Some 0"
| "lowest_free (Some x # t) = map_option Suc (lowest_free t)"

definition sh_close :: "nat \<Rightarrow> fds \<Rightarrow> fds" where
  "sh_close d t = t[d := None]"

definition sh_alloc :: "stream \<Rightarrow> fds \<Rightarrow> (nat \<times> fds) option" where
  "sh_alloc x t = map_option (\<lambda>d. (d, t[d := Some x])) (lowest_free t)"

text \<open>\<^verbatim>\<open>dup\<close>, whose failure the shell does not look at.\<close>

definition sh_dup :: "nat \<Rightarrow> fds \<Rightarrow> fds" where
  "sh_dup d t = (case if d < length t then t ! d else None of None \<Rightarrow> t
     | Some x \<Rightarrow> (case sh_alloc x t of None \<Rightarrow> t | Some (_, t) \<Rightarrow> t))"

text \<open>\<^verbatim>\<open>pipe\<close>: the pipe is named by the place of its command.\<close>

definition sh_pipe :: "nat list \<Rightarrow> fds \<Rightarrow> (nat \<times> nat \<times> fds) option" where
  "sh_pipe pos t = (case sh_alloc (PipeIn pos) t of None \<Rightarrow> None | Some (a, t) \<Rightarrow>
     (case sh_alloc (PipeOut pos) t of None \<Rightarrow> None | Some (b, t) \<Rightarrow> Some (a, b, t)))"

section \<open>Scripts\<close>

text \<open>
  \<open>Fork child parent\<close> is a fork that succeeds; \<open>Die\<close> is an exit after a message; \<open>Run\<close> is \<^verbatim>\<open>exec\<close>, which does
  not return, or fails and exits; \<open>Wait\<close> carries the files the process holds while it sh_waits.
\<close>

datatype sh_script = Done_ok | Die string | Run "string list" fds | Fork sh_script sh_script | Wait fds sh_script

record shell_env =
  can_open :: "string \<Rightarrow> nat \<Rightarrow> bool"
  can_pipe :: "nat list \<Rightarrow> bool"
  can_fork :: "nat list \<Rightarrow> bool"

definition fork1 :: "shell_env \<Rightarrow> nat list \<Rightarrow> sh_script \<Rightarrow> sh_script \<Rightarrow> sh_script" where
  "fork1 env pos child parent = (if can_fork env pos then Fork child parent else Die ''fork'')"

primrec runcmd :: "shell_env \<Rightarrow> string cmd \<Rightarrow> nat list \<Rightarrow> fds \<Rightarrow> sh_script" where
  "runcmd env (EXEC as) pos t = (if as = [] then Done_ok else Run as t)"
| "runcmd env (REDIR c f m d) pos t = (let t = sh_close d t in
     case if can_open env f m then sh_alloc (Opened f m) t else None of
       None \<Rightarrow> Die (''open '' @ f @ '' failed'') | Some (_, t) \<Rightarrow> runcmd env c (0 # pos) t)"
| "runcmd env (LIST l r) pos t = fork1 env pos (runcmd env l (0 # pos) t) (Wait t (runcmd env r (1 # pos) t))"
| "runcmd env (PIPE l r) pos t = (case if can_pipe env pos then sh_pipe pos t else None of
     None \<Rightarrow> Die ''pipe''
   | Some (a, b, t) \<Rightarrow> fork1 env (0 # pos) (runcmd env l (0 # pos) (sh_close b (sh_close a (sh_dup b (sh_close 1 t)))))
       (fork1 env (1 # pos) (runcmd env r (1 # pos) (sh_close b (sh_close a (sh_dup a (sh_close 0 t)))))
         (let t = sh_close b (sh_close a t) in Wait t (Wait t Done_ok))))"
| "runcmd env (BACK c) pos t = fork1 env pos (runcmd env c (0 # pos) t) Done_ok"

text \<open>The programs a script runs, with their files, and the files held at each wait.\<close>

primrec runs :: "sh_script \<Rightarrow> (string list \<times> fds) list" where
  "runs Done_ok = []"
| "runs (Die e) = []"
| "runs (Run as t) = [(as, t)]"
| "runs (Fork c p) = runs c @ runs p"
| "runs (Wait t s) = runs s"

primrec sh_waits :: "sh_script \<Rightarrow> fds set" where
  "sh_waits Done_ok = {}"
| "sh_waits (Die e) = {}"
| "sh_waits (Run as t) = {}"
| "sh_waits (Fork c p) = sh_waits c \<union> sh_waits p"
| "sh_waits (Wait t s) = insert t (sh_waits s)"

section \<open>Plumbing\<close>

text \<open>What each program of a command should have as its standard input and output.\<close>

primrec plumbing :: "string cmd \<Rightarrow> nat list \<Rightarrow> stream \<Rightarrow> stream \<Rightarrow> (string list \<times> stream \<times> stream) list" where
  "plumbing (EXEC as) pos i o' = (if as = [] then [] else [(as, i, o')])"
| "plumbing (REDIR c f m d) pos i o' = (if d = 0 then plumbing c (0 # pos) (Opened f m) o' else plumbing c (0 # pos) i (Opened f m))"
| "plumbing (LIST l r) pos i o' = plumbing l (0 # pos) i o' @ plumbing r (1 # pos) i o'"
| "plumbing (PIPE l r) pos i o' = plumbing l (0 # pos) i (PipeOut pos) @ plumbing r (1 # pos) (PipeIn pos) o'"
| "plumbing (BACK c) pos i o' = plumbing c (0 # pos) i o'"

definition helpful :: "shell_env \<Rightarrow> bool" where
  "helpful env \<longleftrightarrow> (\<forall>f m. can_open env f m) \<and> (\<forall>p. can_pipe env p) \<and> (\<forall>p. can_fork env p)"

definition open_slots :: "fds \<Rightarrow> nat" where
  "open_slots t = length (filter (\<lambda>x. x = None) t)"

lemma lowest_freeD: "lowest_free t = Some d \<Longrightarrow> d < length t \<and> t ! d = None"
  by (induction t arbitrary: d rule: lowest_free.induct) auto

lemma lowest_free_Some: "0 < open_slots t \<Longrightarrow> \<exists>d. lowest_free t = Some d"
  by (induction t rule: lowest_free.induct) (auto simp: open_slots_def)

lemma open_slots_alloc: "lowest_free t = Some d \<Longrightarrow> open_slots t = Suc (open_slots (t[d := Some x]))"
  by (induction t arbitrary: d rule: lowest_free.induct) (auto simp: open_slots_def)

lemma alloc_in_rest: "sh_alloc x (Some i # Some o' # r) = map_option (\<lambda>d. (Suc (Suc d), Some i # Some o' # r[d := Some x])) (lowest_free r)"
  by (cases "lowest_free r") (simp_all add: sh_alloc_def)

text \<open>A pipe takes two slots behind the standard streams, and closing its ends gives the table back.\<close>

lemma pipe_slots:
  assumes "2 \<le> open_slots r"
  shows "\<exists>a b. sh_pipe pos (Some i # Some o' # r) = Some (Suc (Suc a), Suc (Suc b), Some i # Some o' # r[a := Some (PipeIn pos), b := Some (PipeOut pos)]) \<and>
    a < length r \<and> b < length r \<and> a \<noteq> b \<and> r[a := None, b := None] = r"
proof -
  obtain a where a: "lowest_free r = Some a" using lowest_free_Some [of r] assms by auto
  let ?r = "r[a := Some (PipeIn pos)]"
  obtain b where b: "lowest_free ?r = Some b" using lowest_free_Some [of ?r] open_slots_alloc [OF a, of "PipeIn pos"] assms by auto
  have ab: "a < length r" "r ! a = None" "b < length r" "?r ! b = None" using lowest_freeD [OF a] lowest_freeD [OF b] by auto
  then have "a \<noteq> b" by auto
  then show ?thesis using a b ab by (auto simp: sh_pipe_def alloc_in_rest) (metis list_update_id list_update_swap nth_list_update_neq)
qed

lemma close_slots:
  assumes "a < length r" "b < length r" "a \<noteq> b" "r[a := None, b := None] = r"
  shows "sh_close (Suc (Suc b)) (sh_close (Suc (Suc a)) (x # y # r[a := p, b := q])) = x # y # r"
  using assms by (simp add: sh_close_def) (metis list_update_overwrite list_update_swap)


definition easy_env :: shell_env where
  "easy_env = \<lparr>can_open = \<lambda>_ _. True, can_pipe = \<lambda>_. True, can_fork = \<lambda>_. True\<rparr>"

definition shell_fds :: fds where
  "shell_fds = map Some [Inherited 0, Inherited 1, Inherited 2] @ replicate 13 None"


end
