(* ===== verification/Umalloc.thy ===== *)
theory Umalloc
  imports Prelude
begin

text \<open>
  The memory allocator of the user programs (\<^verbatim>\<open>umalloc.c\<close>). Addresses count headers of 8 bytes from the
  start of the process; a header is a pointer and a size in the same unit. \<open>b0\<close> is the address of the
  static header \<^verbatim>\<open>base\<close>. The circular list of free blocks is in these headers only. The outcome \<open>None\<close> is a
  loop that does not end or an access through a null pointer. \<^verbatim>\<open>sbrk\<close> gives the old end of the process and
  moves the end, when the kernel grants it.
\<close>

section \<open>State\<close>

record umem =
  hptr :: "nat \<Rightarrow> nat"
  hsize :: "nat \<Rightarrow> nat"
  freep :: "nat option"
  ubrk :: nat

definition HEADER :: nat where "HEADER = 8"

definition set_hptr :: "nat \<Rightarrow> nat \<Rightarrow> umem \<Rightarrow> umem" where
  "set_hptr a p s = s\<lparr>hptr := (hptr s)(a := p)\<rparr>"

definition set_hsize :: "nat \<Rightarrow> nat \<Rightarrow> umem \<Rightarrow> umem" where
  "set_hsize a n s = s\<lparr>hsize := (hsize s)(a := n)\<rparr>"

text \<open>The kernel's answer to \<^verbatim>\<open>sbrk(n)\<close> for a process that ends at unit \<open>b\<close>; \<open>n\<close> is in bytes.\<close>

type_synonym grants = "int \<Rightarrow> nat \<Rightarrow> bool"

definition sbrk :: "grants \<Rightarrow> int \<Rightarrow> umem \<Rightarrow> nat option \<times> umem" where
  "sbrk gr n s = (if gr n (ubrk s) then (Some (ubrk s), s\<lparr>ubrk := nat (int (ubrk s) + n div int HEADER)\<rparr>) else (None, s))"

section \<open>Free\<close>

text \<open>The search for the block behind which \<open>bp\<close> belongs.\<close>

partial_function (option) free_pos :: "nat \<Rightarrow> nat \<Rightarrow> umem \<Rightarrow> nat option" where
  "free_pos bp p s = (if bp > p \<and> bp < hptr s p then Some p
     else if p \<ge> hptr s p \<and> (bp > p \<or> bp < hptr s p) then Some p
     else free_pos bp (hptr s p) s)"

declare free_pos.simps [code]

definition join_next :: "nat \<Rightarrow> nat \<Rightarrow> umem \<Rightarrow> umem" where
  "join_next bp p s = (if bp + hsize s bp = hptr s p
     then set_hptr bp (hptr s (hptr s p)) (set_hsize bp (hsize s bp + hsize s (hptr s p)) s)
     else set_hptr bp (hptr s p) s)"

definition join_prev :: "nat \<Rightarrow> nat \<Rightarrow> umem \<Rightarrow> umem" where
  "join_prev bp p s = (if p + hsize s p = bp
     then set_hptr p (hptr s bp) (set_hsize p (hsize s p + hsize s bp) s)
     else set_hptr p bp s)"

definition ufree :: "nat \<Rightarrow> umem \<Rightarrow> umem option" where
  "ufree ap s = (let bp = ap - 1 in case freep s of None \<Rightarrow> None | Some p0 \<Rightarrow> (case free_pos bp p0 s of None \<Rightarrow> None
     | Some p \<Rightarrow> Some ((join_prev bp p (join_next bp p s))\<lparr>freep := Some p\<rparr>)))"

section \<open>Malloc\<close>

text \<open>\<^verbatim>\<open>morecore\<close>: no more memory is the inner \<open>None\<close>.\<close>

definition morecore :: "grants \<Rightarrow> nat \<Rightarrow> umem \<Rightarrow> (nat option \<times> umem) option" where
  "morecore gr nu s = (let nu = max nu 4096 in
     case sbrk gr (s32 (u32 (nu * HEADER))) s of (None, s) \<Rightarrow> Some (None, s)
     | (Some hp, s) \<Rightarrow> (case ufree (hp + 1) (set_hsize hp nu s) of None \<Rightarrow> None | Some s \<Rightarrow> Some (freep s, s)))"

definition units :: "nat \<Rightarrow> nat" where
  "units nbytes = u32 (u32 (nbytes + HEADER - 1) div HEADER + 1)"

text \<open>Taking \<open>n\<close> units from the block at \<open>p\<close>, from its end when it is larger.\<close>

definition carve :: "nat \<Rightarrow> nat \<Rightarrow> nat \<Rightarrow> umem \<Rightarrow> nat \<times> umem" where
  "carve n prevp p s = (if hsize s p = n then (p, (set_hptr prevp (hptr s p) s)\<lparr>freep := Some prevp\<rparr>)
     else let s = set_hsize p (hsize s p - n) s; q = p + hsize s p in (q, (set_hsize q n s)\<lparr>freep := Some prevp\<rparr>))"

partial_function (option) malloc_loop :: "grants \<Rightarrow> nat \<Rightarrow> nat \<Rightarrow> nat \<Rightarrow> umem \<Rightarrow> (nat option \<times> umem) option" where
  "malloc_loop gr n prevp p s = (if n \<le> hsize s p then (case carve n prevp p s of (q, s) \<Rightarrow> Some (Some (q + 1), s))
     else if freep s = Some p then (case morecore gr n s of None \<Rightarrow> None | Some (r, s) \<Rightarrow>
       (case r of None \<Rightarrow> Some (None, s) | Some p \<Rightarrow> malloc_loop gr n p (hptr s p) s))
     else malloc_loop gr n p (hptr s p) s)"

declare malloc_loop.simps [code]

definition umalloc :: "grants \<Rightarrow> nat \<Rightarrow> nat \<Rightarrow> umem \<Rightarrow> (nat option \<times> umem) option" where
  "umalloc gr b0 nbytes s = (let n = units nbytes in case freep s of
     None \<Rightarrow> let s = set_hsize b0 0 (set_hptr b0 b0 (s\<lparr>freep := Some b0\<rparr>)) in malloc_loop gr n b0 (hptr s b0) s
   | Some f \<Rightarrow> malloc_loop gr n f (hptr s f) s)"

section \<open>The free list\<close>

text \<open>From \<open>p\<close> the links lead through the blocks \<open>xs\<close>; a ring ends where it began.\<close>

type_synonym blk = "nat \<times> nat"

primrec hchain :: "umem \<Rightarrow> nat \<Rightarrow> blk list \<Rightarrow> bool" where
  "hchain s p [] \<longleftrightarrow> True"
| "hchain s p (x # xs) \<longleftrightarrow> hptr s p = fst x \<and> hsize s (fst x) = snd x \<and> hchain s (fst x) xs"

definition ring :: "umem \<Rightarrow> blk list \<Rightarrow> bool" where
  "ring s xs \<longleftrightarrow> xs \<noteq> [] \<and> hchain s (fst (last xs)) xs"

lemma hchain_append: "hchain s p (xs @ ys) \<longleftrightarrow> hchain s p xs \<and> hchain s (if xs = [] then p else fst (last xs)) ys"
  by (induction xs arbitrary: p) auto

lemma hchain_cong:
  "(\<And>a. a \<in> insert p (fst ` set xs) \<Longrightarrow> hptr s' a = hptr s a) \<Longrightarrow> (\<And>a. a \<in> fst ` set xs \<Longrightarrow> hsize s' a = hsize s a) \<Longrightarrow>
    hchain s' p xs \<longleftrightarrow> hchain s p xs"
  by (induction xs arbitrary: p) auto

lemma ring_rotate: "ring s (xs @ ys) \<Longrightarrow> ring s (ys @ xs)"
  by (cases "xs = []"; cases "ys = []") (auto simp: ring_def hchain_append)

lemma ring_cong:
  "(\<And>a. a \<in> fst ` set xs \<Longrightarrow> hptr s' a = hptr s a \<and> hsize s' a = hsize s a) \<Longrightarrow> ring s' xs \<longleftrightarrow> ring s xs"
  unfolding ring_def using hchain_cong [of "fst (last xs)" xs s' s] by (cases "xs = []") auto

text \<open>In ascending order, with a gap between any two.\<close>

definition gapped :: "blk list \<Rightarrow> bool" where
  "gapped = sorted_wrt (\<lambda>x y. fst x + snd x < fst y)"

text \<open>Putting a block in behind its predecessor.\<close>

definition merge_next :: "blk \<Rightarrow> blk list \<Rightarrow> blk list" where
  "merge_next x vs = (case vs of [] \<Rightarrow> [x] | y # ws \<Rightarrow> if fst x + snd x = fst y then (fst x, snd x + snd y) # ws else x # vs)"

definition merge_prev :: "blk \<Rightarrow> blk list \<Rightarrow> blk list" where
  "merge_prev a vs = (case vs of [] \<Rightarrow> [a] | x # ws \<Rightarrow> if fst a + snd a = fst x then (fst a, snd a + snd x) # ws else a # vs)"

end
