(* ===== verification/UmallocProps.thy ===== *)
theory UmallocProps
  imports Umalloc
begin

text \<open>
  The allocator of the user programs over all its uses: the free list stays a ring of blocks in ascending
  order with gaps between them, blocks handed out never overlap, nothing is lost, and neither function
  gets stuck.
\<close>

section \<open>Areas\<close>

definition area :: "blk \<Rightarrow> nat set" where
  "area x = {fst x..<fst x + snd x}"

definition areas :: "blk list \<Rightarrow> nat set" where
  "areas xs = (\<Union>x \<in> set xs. area x)"

lemma areas_simps [simp]: "areas [] = {}" "areas (x # xs) = area x \<union> areas xs" "areas (xs @ ys) = areas xs \<union> areas ys"
  by (auto simp: areas_def)

lemma gapped_simps [simp]: "gapped []" "gapped (x # xs) \<longleftrightarrow> (\<forall>y \<in> set xs. fst x + snd x < fst y) \<and> gapped xs"
  by (simp_all add: gapped_def)

lemma gapped_append: "gapped (xs @ ys) \<longleftrightarrow> gapped xs \<and> gapped ys \<and> (\<forall>x \<in> set xs. \<forall>y \<in> set ys. fst x + snd x < fst y)"
  by (simp add: gapped_def sorted_wrt_append)

lemma gapped_nth: "gapped xs \<Longrightarrow> i < j \<Longrightarrow> j < length xs \<Longrightarrow> fst (xs ! i) + snd (xs ! i) < fst (xs ! j)"
  by (simp add: gapped_def sorted_wrt_iff_nth_less)

lemma gapped_apart: "gapped xs \<Longrightarrow> x \<in> set xs \<Longrightarrow> y \<in> set xs \<Longrightarrow> x \<noteq> y \<Longrightarrow> fst x + snd x < fst y \<or> fst y + snd y < fst x"
  by (induction xs) auto

section \<open>The search of free\<close>

lemma chain_nth: "hchain s p xs \<Longrightarrow> i < length xs \<Longrightarrow> hptr s (if i = 0 then p else fst (xs ! (i - 1))) = fst (xs ! i) \<and> hsize s (fst (xs ! i)) = snd (xs ! i)"
proof (induction xs arbitrary: p i)
  case (Cons x xs)
  show ?case
  proof (cases i)
    case (Suc j)
    have "fst ((x # xs) ! j) = (if j = 0 then fst x else fst (xs ! (j - 1)))" by (cases j) simp_all
    then show ?thesis using Cons.IH [of "fst x" j] Cons.prems Suc by simp
  qed (use Cons.prems in simp)
qed simp

lemma chain_other: "c \<notin> insert p (fst ` set xs) \<Longrightarrow> (\<And>b. b \<noteq> c \<Longrightarrow> hptr s' b = hptr s b \<and> hsize s' b = hsize s b) \<Longrightarrow> hchain s' p xs \<longleftrightarrow> hchain s p xs"
  by (rule hchain_cong) (metis insertCI)+

lemma ring_next:
  assumes "ring s xs" "i < length xs"
  shows "hptr s (fst (xs ! i)) = fst (xs ! (if i + 1 < length xs then i + 1 else 0))"
proof (cases "i + 1 < length xs")
  case True
  then show ?thesis using chain_nth [of s "fst (last xs)" xs "i + 1"] assms by (simp add: ring_def)
next
  case False
  then have "i = length xs - 1" using assms(2) by simp
  then show ?thesis using chain_nth [of s "fst (last xs)" xs 0] assms by (auto simp: ring_def last_conv_nth)
qed

lemma ring_size: "ring s xs \<Longrightarrow> x \<in> set xs \<Longrightarrow> hsize s (fst x) = snd x"
  unfolding ring_def by (metis chain_nth in_set_conv_nth)

lemma free_pos_ok:
  assumes "ring s cs" "gapped cs" "k < length cs" "fst (cs ! 0) < bp" "fst (cs ! k) < bp"
    "k + 1 < length cs \<longrightarrow> bp < fst (cs ! (k + 1))" "i < length cs"
  shows "free_pos bp (fst (cs ! i)) s = Some (fst (cs ! k))"
proof -
  have lt: "fst (cs ! x) < fst (cs ! y)" if "x < y" "y < length cs" for x y using gapped_nth [OF assms(2) that] by simp
  have le: "fst (cs ! x) \<le> fst (cs ! y)" if "x \<le> y" "y < length cs" for x y using lt [of x y] that by (cases "x = y") auto
  have up: "free_pos bp (fst (cs ! i)) s = Some (fst (cs ! k))" if "i \<le> k" for i
    using that
  proof (induction "k - i" arbitrary: i)
    case 0
    then have i: "i = k" by simp
    show ?case
    proof (cases "k + 1 < length cs")
      case True
      then show ?thesis using assms(5,6) ring_next [OF assms(1,3)] i by (subst free_pos.simps) simp
    next
      case False
      then have "hptr s (fst (cs ! k)) \<le> fst (cs ! k)" using ring_next [OF assms(1,3)] le [of 0 k] assms(3) by simp
      then show ?thesis using assms(5) i by (subst free_pos.simps) simp
    qed
  next
    case (Suc d)
    have i: "i + 1 \<le> k" "i < length cs" "i + 1 < length cs" using Suc.hyps(2) Suc.prems assms(3) by auto
    have n: "hptr s (fst (cs ! i)) = fst (cs ! (i + 1))" using ring_next [OF assms(1) i(2)] i(3) by simp
    have "fst (cs ! (i + 1)) < bp" using le [OF i(1) assms(3)] assms(5) by simp
    moreover have "fst (cs ! i) < fst (cs ! (i + 1))" using lt i(3) by simp
    moreover have "free_pos bp (fst (cs ! (i + 1))) s = Some (fst (cs ! k))" using Suc.hyps(1) [of "i + 1"] Suc.hyps(2) i(1) by simp
    ultimately show ?case by (subst free_pos.simps) (simp add: n)
  qed
  have down: "free_pos bp (fst (cs ! i)) s = Some (fst (cs ! k))" if "k < i" "i < length cs" for i
    using that
  proof (induction "length cs - i" arbitrary: i)
    case 0
    then show ?case by simp
  next
    case (Suc d)
    have b: "bp < fst (cs ! i)" using assms(6) le [of "k + 1" i] Suc.prems by simp
    show ?case
    proof (cases "i + 1 < length cs")
      case True
      then have "hptr s (fst (cs ! i)) = fst (cs ! (i + 1))" "fst (cs ! i) < fst (cs ! (i + 1))" using ring_next [OF assms(1) Suc.prems(2)] lt by simp_all
      moreover have "free_pos bp (fst (cs ! (i + 1))) s = Some (fst (cs ! k))" using Suc.hyps True Suc.prems by simp
      ultimately show ?thesis using b by (subst free_pos.simps) simp
    next
      case False
      then have "hptr s (fst (cs ! i)) = fst (cs ! 0)" using ring_next [OF assms(1) Suc.prems(2)] by simp
      then show ?thesis using b assms(4) up [of 0] by (subst free_pos.simps) simp
    qed
  qed
  show ?thesis using up down assms(7) by (cases "i \<le> k") auto
qed

section \<open>Linking a block in\<close>

lemma join_next_ok:
  assumes "hchain s pa (vs @ ws)" "ws \<noteq> []" "bp \<notin> fst ` set (vs @ ws)" "vs = [] \<longrightarrow> bp + n \<noteq> fst (hd ws)" "hsize s bp = n"
  shows "\<exists>x rest. merge_next (bp, n) vs = x # rest \<and> fst x = bp \<and> hsize (join_next bp pa s) bp = snd x \<and> hchain (join_next bp pa s) bp (rest @ ws) \<and>
    (\<forall>a. a \<noteq> bp \<longrightarrow> hptr (join_next bp pa s) a = hptr s a \<and> hsize (join_next bp pa s) a = hsize s a)"
proof (cases vs)
  case Nil
  then obtain w ws' where w: "ws = w # ws'" using assms(2) by (cases ws) auto
  have "hchain (join_next bp pa s) bp ws"
    using assms Nil w chain_other [of bp "fst w" ws' "join_next bp pa s" s]
    by (auto simp: join_next_def set_hptr_def set_hsize_def)
  then show ?thesis using assms Nil w by (auto simp: merge_next_def join_next_def set_hptr_def set_hsize_def)
next
  case (Cons v vs')
  have v: "hptr s pa = fst v" "hsize s (fst v) = snd v" "hchain s (fst v) (vs' @ ws)" "fst v \<noteq> bp" "bp \<notin> fst ` set (vs' @ ws)"
    using assms(1,3) Cons by auto
  show ?thesis
  proof (cases "bp + n = fst v")
    case True
    obtain y ys where y: "vs' @ ws = y # ys" using assms(2) by (cases "vs' @ ws") auto
    have "hchain (join_next bp pa s) bp (y # ys)"
      using v assms(5) True chain_other [of bp "fst y" ys "join_next bp pa s" s] unfolding y
      by (auto simp: join_next_def set_hptr_def set_hsize_def)
    then show ?thesis using Cons True v assms(5) y
      by (auto simp: merge_next_def join_next_def set_hptr_def set_hsize_def)
  next
    case False
    have "hchain (join_next bp pa s) bp (v # vs' @ ws)"
      using v assms(5) False chain_other [of bp "fst v" "vs' @ ws" "join_next bp pa s" s]
      by (auto simp: join_next_def set_hptr_def set_hsize_def)
    then show ?thesis using Cons False v assms(5)
      by (auto simp: merge_next_def join_next_def set_hptr_def set_hsize_def)
  qed
qed

lemma join_prev_ok:
  assumes "hchain s bp (rest @ us @ [a])" "hsize s bp = snd x" "fst x = bp" "fst a \<noteq> bp" "fst a \<notin> fst ` set (rest @ us)" "bp \<notin> fst ` set (rest @ us)"
  shows "ring (join_prev bp (fst a) s) (us @ merge_prev a (x # rest))"
proof (cases "fst a + snd a = bp")
  case True
  have a: "hsize s (fst a) = snd a" using assms(1) by (auto simp: hchain_append)
  let ?s = "join_prev bp (fst a) s" and ?a = "(fst a, snd a + snd x)"
  have s: "hptr ?s (fst a) = hptr s bp" "hsize ?s (fst a) = snd a + snd x" "\<And>b. b \<noteq> fst a \<Longrightarrow> hptr ?s b = hptr s b \<and> hsize ?s b = hsize s b"
    using True a assms(2) by (auto simp: join_prev_def set_hptr_def set_hsize_def)
  have "hchain ?s (fst a) (rest @ us @ [?a])"
  proof (cases "rest @ us")
    case Nil
    then show ?thesis using assms(1) s by simp
  next
    case (Cons y ys)
    have "fst y \<noteq> fst a" "fst a \<notin> fst ` set ys" using assms(5) Cons by auto
    moreover have "hchain s (fst y) ys" "hptr s bp = fst y" "hsize s (fst y) = snd y" "hptr s (if ys = [] then fst y else fst (last ys)) = fst a"
      using assms(1) Cons by (auto simp: append_assoc [symmetric] hchain_append simp del: append_assoc split: if_splits)
    moreover have "hchain ?s (fst y) ys \<longleftrightarrow> hchain s (fst y) ys" using s(3) calculation(1,2) by (intro chain_other [of "fst a"]) auto
    moreover have "hptr ?s (if ys = [] then fst y else fst (last ys)) = hptr s (if ys = [] then fst y else fst (last ys))"
      using s calculation(1,2) by (metis image_eqI last_in_set)
    ultimately show ?thesis using s Cons by (simp add: append_assoc [symmetric] hchain_append del: append_assoc)
  qed
  then have "ring ?s ((rest @ us) @ [?a])" by (simp add: ring_def)
  then have "ring ?s (rest @ (us @ [?a]))" by simp
  then have "ring ?s ((us @ [?a]) @ rest)" by (rule ring_rotate)
  then show ?thesis using True assms(3) by (simp add: merge_prev_def)
next
  case False
  let ?s = "join_prev bp (fst a) s"
  have s: "hptr ?s (fst a) = bp" "hsize ?s = hsize s" "\<And>b. b \<noteq> fst a \<Longrightarrow> hptr ?s b = hptr s b"
    using False assms(1) by (auto simp: join_prev_def set_hptr_def hchain_append)
  have "hchain ?s (fst a) (x # rest @ us @ [a])"
  proof -
    have "hchain ?s bp (rest @ us) \<longleftrightarrow> hchain s bp (rest @ us)" using s(2,3) assms(4,5) by (intro chain_other [of "fst a"]) auto
    moreover have "hptr ?s (if rest @ us = [] then bp else fst (last (rest @ us))) = hptr s (if rest @ us = [] then bp else fst (last (rest @ us)))"
    proof (rule s(3))
      show "(if rest @ us = [] then bp else fst (last (rest @ us))) \<noteq> fst a"
      proof (cases "rest @ us = []")
        case False
        then have "fst (last (rest @ us)) \<in> fst ` set (rest @ us)" using last_in_set by blast
        then show ?thesis using assms(5) False by metis
      qed (use assms(4) in simp)
    qed
    moreover have "hchain s bp ((rest @ us) @ [a])" using assms(1) by simp
    ultimately have "hchain ?s bp ((rest @ us) @ [a])" using s(2) unfolding hchain_append by simp
    then show ?thesis using s(1,2) assms(2,3) by simp
  qed
  then have "ring ?s ((x # rest) @ (us @ [a]))" by (simp add: ring_def)
  then have "ring ?s ((us @ [a]) @ x # rest)" by (rule ring_rotate)
  then show ?thesis using False assms(3) by (simp add: merge_prev_def)
qed

section \<open>The free list as a whole\<close>

definition free_list :: "nat \<Rightarrow> umem \<Rightarrow> blk list \<Rightarrow> bool" where
  "free_list b0 s fs \<longleftrightarrow> ring s ((b0, 0) # fs) \<and> gapped ((b0, 0) # fs) \<and> (\<forall>x \<in> set fs. 0 < snd x) \<and>
     (\<exists>f. freep s = Some f \<and> f \<in> insert b0 (fst ` set fs))"

lemma area_mem: "0 < snd x \<Longrightarrow> fst x \<in> area x"
  by (simp add: area_def)

lemma areas_mem: "x \<in> set xs \<Longrightarrow> 0 < snd x \<Longrightarrow> fst x \<in> areas xs"
  unfolding areas_def using area_mem by blast

lemma area_before:
  assumes "area x \<inter> area y = {}" "0 < snd x" "0 < snd y" "fst x < fst y"
  shows "fst x + snd x \<le> fst y"
proof (rule ccontr)
  assume "\<not> ?thesis"
  then have "fst y \<in> area x" "fst y \<in> area y" using assms by (auto simp: area_def)
  then show False using assms(1) by blast
qed

lemma area_apart: "area x \<inter> area y = {} \<Longrightarrow> 0 < snd x \<Longrightarrow> 0 < snd y \<Longrightarrow> fst x + snd x \<le> fst y \<or> fst y + snd y \<le> fst x"
  using area_before [of x y] area_before [of y x] by (cases "fst x = fst y") (auto simp: area_def Int_commute)

lemma sorted_wrt_apart:
  "sorted_wrt (\<lambda>x y. area x \<inter> area y = {}) xs \<Longrightarrow> x \<in> set xs \<Longrightarrow> y \<in> set xs \<Longrightarrow> x \<noteq> y \<Longrightarrow> area x \<inter> area y = {}"
  by (induction xs) (auto simp: Int_commute)

lemma merge_next_ok:
  assumes "gapped vs" "\<forall>y \<in> set vs. fst x + snd x \<le> fst y" "0 < snd x" "\<forall>y \<in> set vs. 0 < snd y"
  shows "\<exists>x' rest. merge_next x vs = x' # rest \<and> fst x' = fst x \<and> gapped (x' # rest) \<and> set rest \<subseteq> set vs \<and> areas (x' # rest) = area x \<union> areas vs \<and> 0 < snd x'"
proof (cases vs)
  case Nil
  then show ?thesis using assms(3) by (simp add: merge_next_def)
next
  case (Cons y ws)
  show ?thesis
  proof (cases "fst x + snd x = fst y")
    case True
    have "area (fst x, snd x + snd y) = area x \<union> area y" using True by (auto simp: area_def)
    then show ?thesis using Cons True assms by (auto simp: merge_next_def add.assoc)
  next
    case False
    then have "\<forall>z \<in> set vs. fst x + snd x < fst z" using Cons assms(1,2) by fastforce
    then show ?thesis using Cons False assms(1,3) by (simp add: merge_next_def)
  qed
qed

lemma merge_prev_gapped:
  assumes "gapped (us @ [a])" "gapped (x # rest)" "fst a + snd a \<le> fst x" "\<forall>u \<in> set us. \<forall>y \<in> set (x # rest). fst u + snd u < fst y"
  shows "gapped (us @ merge_prev a (x # rest))" "areas (us @ merge_prev a (x # rest)) = areas us \<union> area a \<union> areas (x # rest)"
proof -
  have "\<forall>y \<in> set rest. fst a + snd a < fst y" using assms(2,3) by fastforce
  moreover have "\<forall>u \<in> set us. fst u + snd u < fst a" using assms(1) by (simp add: gapped_append)
  ultimately show "gapped (us @ merge_prev a (x # rest))" using assms by (auto simp: merge_prev_def gapped_append)
  have "area (fst a, snd a + snd x) = area a \<union> area x" if "fst a + snd a = fst x" using that by (auto simp: area_def)
  then show "areas (us @ merge_prev a (x # rest)) = areas us \<union> area a \<union> areas (x # rest)" by (auto simp: merge_prev_def)
qed

lemma split_at:
  assumes "gapped ((b0, 0) # fs)" "b0 < bp"
  obtains us a vs where "(b0, 0) # fs = us @ a # vs" "fst a < bp" "\<forall>v \<in> set vs. bp \<le> fst v"
proof -
  let ?c = "(b0, 0) # fs" and ?P = "\<lambda>y. fst y < bp"
  have "takeWhile ?P ?c \<noteq> []" using assms(2) by simp
  then obtain us a where u: "takeWhile ?P ?c = us @ [a]" by (cases "takeWhile ?P ?c" rule: rev_cases) auto
  then have c: "?c = us @ a # dropWhile ?P ?c" by (metis append.assoc append_Cons append_Nil takeWhile_dropWhile_id)
  have "a \<in> set (takeWhile ?P ?c)" unfolding u by simp
  then have a: "fst a < bp" using set_takeWhileD by fastforce
  have "bp \<le> fst v" if v: "v \<in> set (dropWhile ?P ?c)" for v
  proof -
    obtain d ds where d: "dropWhile ?P ?c = d # ds" using v by (cases "dropWhile ?P ?c") auto
    then have "\<not> fst d < bp" by (metis dropWhile_eq_Cons_conv)
    have "gapped (us @ a # d # ds)" using assms(1) c d by metis
    then have "gapped (d # ds)" by (simp add: gapped_append)
    then have "fst d + snd d < fst v \<or> v = d" using v d by auto
    then show ?thesis using \<open>\<not> fst d < bp\<close> by auto
  qed
  then show ?thesis using that [OF c a] by blast
qed

lemma ufree_ok:
  assumes "free_list b0 s fs" "hsize s bp = n" "0 < n" "b0 < bp" "area (bp, n) \<inter> areas fs = {}"
  shows "\<exists>fs' s'. ufree (bp + 1) s = Some s' \<and> free_list b0 s' fs' \<and> areas fs' = areas fs \<union> area (bp, n) \<and> ubrk s' = ubrk s \<and>
    (\<forall>a. a \<notin> insert b0 (areas fs') \<longrightarrow> hsize s' a = hsize s a)"
proof -
  have r: "ring s ((b0, 0) # fs)" "gapped ((b0, 0) # fs)" "\<forall>x \<in> set fs. 0 < snd x" using assms(1) by (simp_all add: free_list_def)
  obtain f where f: "freep s = Some f" "f \<in> insert b0 (fst ` set fs)" using assms(1) by (auto simp: free_list_def)
  obtain us a vs where c: "(b0, 0) # fs = us @ a # vs" "fst a < bp" "\<forall>v \<in> set vs. bp \<le> fst v" using split_at [OF r(2) assms(4)] .
  have sub: "set vs \<subseteq> set fs" "set us \<union> {a} \<subseteq> insert (b0, 0) (set fs)" using c(1) by (cases us; auto)+
  have bp: "bp \<notin> fst ` set fs" using assms(3,5) areas_mem r(3) by (force simp: area_def)
  have vs: "bp + n \<le> fst v" if "v \<in> set vs" for v
  proof -
    have "v \<in> set fs" "fst v \<noteq> bp" using that sub(1) bp by auto
    then show ?thesis using area_before [of "(bp, n)" v] assms(3,5) r(3) c(3) that by (fastforce simp: areas_def)
  qed
  have a: "fst a + snd a \<le> bp"
  proof (cases "a \<in> set fs")
    case True
    then show ?thesis using area_before [of a "(bp, n)"] assms(3,5) r(3) c(2) by (fastforce simp: areas_def)
  qed (use sub(2) c(2) in auto)
  let ?k = "length us" and ?cs = "(b0, 0) # fs"
  have k: "?k < length ?cs" "?cs ! ?k = a" "?k + 1 < length ?cs \<longrightarrow> bp < fst (?cs ! (?k + 1))"
    unfolding c(1) using vs [of "hd vs"] assms(3) by (cases vs; simp add: nth_append)+
  have "f \<in> fst ` set ?cs" using f(2) by simp
  then obtain y where "y \<in> set ?cs" "f = fst y" by blast
  then obtain i where i: "i < length ?cs" "f = fst (?cs ! i)" by (metis in_set_conv_nth)
  have ka: "fst (?cs ! 0) < bp" "fst (?cs ! ?k) < bp" using k(2) c(2) assms(4) by simp_all
  have fp: "free_pos bp f s = Some (fst a)" using free_pos_ok [OF r(1,2) k(1) ka k(3) i(1)] k(2) i(2) by simp
  have ab: "fst a \<noteq> bp" "bp \<notin> fst ` set ?cs" using c(2) bp assms(4) by auto
  have "ring s ((us @ [a]) @ vs)" using r(1) unfolding c(1) by simp
  then have "ring s (vs @ us @ [a])" using ring_rotate by blast
  then have ch: "hchain s (fst a) (vs @ us @ [a])" by (simp add: ring_def)
  have hd: "fst (hd (us @ [a])) = b0" using c(1) by (cases us) auto
  have notin: "bp \<notin> fst ` set (vs @ us @ [a])" using ab(2) unfolding c(1) by auto
  obtain x rest where x: "merge_next (bp, n) vs = x # rest" "fst x = bp" "hsize (join_next bp (fst a) s) bp = snd x"
    "hchain (join_next bp (fst a) s) bp (rest @ us @ [a])"
    "\<forall>b. b \<noteq> bp \<longrightarrow> hptr (join_next bp (fst a) s) b = hptr s b \<and> hsize (join_next bp (fst a) s) b = hsize s b"
    using join_next_ok [OF ch _ notin _ assms(2)] hd assms(4) by auto
  have gv: "gapped vs" "gapped (us @ [a])" "\<forall>u \<in> set (us @ [a]). \<forall>v \<in> set vs. fst u + snd u < fst v"
    using r(2) unfolding c(1) by (auto simp: gapped_append)
  obtain x' rest' where m: "merge_next (bp, n) vs = x' # rest'" "gapped (x' # rest')" "set rest' \<subseteq> set vs" "areas (x' # rest') = area (bp, n) \<union> areas vs" "0 < snd x'"
  proof -
    have "\<forall>y \<in> set vs. 0 < snd y" using r(3) sub(1) by blast
    moreover have "\<forall>y \<in> set vs. fst (bp, n) + snd (bp, n) \<le> fst y" using vs by simp
    ultimately show ?thesis using merge_next_ok [OF gv(1), of "(bp, n)"] that assms(3) by auto
  qed
  have [simp]: "x' = x" "rest' = rest" using x(1) m(1) by simp_all
  have us: "fst u + snd u < bp" if "u \<in> set us" for u using gv(2) that c(2) by (auto simp: gapped_append)
  have un: "\<forall>u \<in> set us. \<forall>y \<in> set (x # rest). fst u + snd u < fst y"
  proof (intro ballI)
    fix u y assume u: "u \<in> set us" and y: "y \<in> set (x # rest)"
    show "fst u + snd u < fst y"
    proof (cases "y = x")
      case False
      then have "y \<in> set vs" using y m(3) by auto
      then show ?thesis using gv(3) u by auto
    qed (use us [OF u] x(2) in simp)
  qed
  have dist: "fst a \<notin> fst ` set (rest @ us)"
  proof -
    have "fst a < fst v" if "v \<in> set vs" for v using gv(3) that by fastforce
    moreover have "fst u < fst a" if "u \<in> set us" for u using gv(2) that by (fastforce simp: gapped_append)
    ultimately show ?thesis using m(3) by fastforce
  qed
  let ?s = "join_prev bp (fst a) (join_next bp (fst a) s)" and ?new = "us @ merge_prev a (x # rest)"
  have ring: "ring ?s ?new" using join_prev_ok [OF x(4,3,2) ab(1) dist] notin m(3) by auto
  have gx: "gapped (x # rest)" "fst a + snd a \<le> fst x" using m(2) a x(2) by simp_all
  note g = merge_prev_gapped [OF gv(2) gx un]
  obtain fs' where fs': "?new = (b0, 0) # fs'"
  proof (cases us)
    case Nil
    then have "a = (b0, 0)" using c(1) by simp
    then show ?thesis using that Nil x(2) assms(4) by (auto simp: merge_prev_def)
  next
    case (Cons u us')
    then show ?thesis using that c(1) by auto
  qed
  have ar: "areas fs' = areas fs \<union> area (bp, n)"
  proof -
    have "areas ((b0, 0) # fs') = areas ((b0, 0) # fs) \<union> area (bp, n)"
      unfolding fs' [symmetric] g(2) c(1) using m(4) by auto
    then show ?thesis by (simp add: area_def)
  qed
  have pos: "\<forall>y \<in> set fs'. 0 < snd y"
  proof
    fix y assume y: "y \<in> set fs'"
    have b: "b0 < fst y" using g(1) y unfolding fs' by auto
    have "y \<in> set us \<or> y \<in> set (merge_prev a (x # rest))" using y fs' by (metis Un_iff list.set_intros(2) set_append)
    then consider "y = x" | "y = (fst a, snd a + snd x)" | "y \<in> set us \<union> {a} \<union> set vs" using m(3) by (auto simp: merge_prev_def split: if_splits)
    then show "0 < snd y"
    proof cases
      case 3
      then have "y \<in> insert (b0, 0) (set fs)" using sub by blast
      then show ?thesis using r(3) b by auto
    qed (use m(5) in simp_all)
  qed
  have fa: "fst a \<in> insert b0 (fst ` set fs')"
  proof -
    have "fst a \<in> fst ` set ?new" by (auto simp: merge_prev_def)
    then show ?thesis unfolding fs' by simp
  qed
  have frame: "hsize ?s b = hsize s b" if "b \<notin> insert b0 (areas fs')" for b
  proof -
    have "b \<noteq> bp" using that ar assms(3) by (auto simp: area_def)
    moreover have "b \<noteq> fst a" using that fa areas_mem pos by fastforce
    ultimately show ?thesis using x(5) by (simp add: join_prev_def set_hptr_def set_hsize_def)
  qed
  have "ufree (bp + 1) s = Some (?s\<lparr>freep := Some (fst a)\<rparr>)" using f(1) fp by (simp add: ufree_def Let_def)
  moreover have "free_list b0 (?s\<lparr>freep := Some (fst a)\<rparr>) fs'"
    using ring g(1) pos fa ring_cong [of "(b0, 0) # fs'" "?s\<lparr>freep := Some (fst a)\<rparr>" ?s] unfolding fs' free_list_def by simp
  moreover have "ubrk (?s\<lparr>freep := Some (fst a)\<rparr>) = ubrk s" by (simp add: join_prev_def join_next_def set_hptr_def set_hsize_def)
  ultimately show ?thesis using ar frame by (intro exI [of _ fs'] exI) auto
qed

section \<open>The scan of malloc\<close>

lemma scan_hit:
  "hchain s p (us @ x # vs) \<Longrightarrow> \<forall>u \<in> set us. snd u < n \<and> freep s \<noteq> Some (fst u) \<Longrightarrow> n \<le> snd x \<Longrightarrow>
    malloc_loop gr n p (hptr s p) s = (case carve n (if us = [] then p else fst (last us)) (fst x) s of (q, s) \<Rightarrow> Some (Some (q + 1), s))"
proof (induction us arbitrary: p)
  case Nil
  then show ?case by (subst malloc_loop.simps) simp
next
  case (Cons u us)
  have "malloc_loop gr n p (hptr s p) s = malloc_loop gr n (fst u) (hptr s (fst u)) s"
    using Cons.prems by (subst malloc_loop.simps) simp
  then show ?case using Cons.IH [of "fst u"] Cons.prems by simp
qed

lemma scan_miss:
  "hchain s p (us @ [x]) \<Longrightarrow> \<forall>u \<in> set us. snd u < n \<and> freep s \<noteq> Some (fst u) \<Longrightarrow> snd x < n \<Longrightarrow> freep s = Some (fst x) \<Longrightarrow>
    malloc_loop gr n p (hptr s p) s = (case morecore gr n s of None \<Rightarrow> None | Some (r, s) \<Rightarrow>
       (case r of None \<Rightarrow> Some (None, s) | Some p \<Rightarrow> malloc_loop gr n p (hptr s p) s))"
proof (induction us arbitrary: p)
  case Nil
  then show ?case by (subst malloc_loop.simps) simp
next
  case (Cons u us)
  have "malloc_loop gr n p (hptr s p) s = malloc_loop gr n (fst u) (hptr s (fst u)) s"
    using Cons.prems by (subst malloc_loop.simps) simp
  then show ?case using Cons.IH [of "fst u"] Cons.prems by simp
qed

lemma gapped_distinct: "gapped xs \<Longrightarrow> distinct (map fst xs)"
  by (induction xs) fastforce+

lemma chain_snoc: "hchain s p (xs @ [y]) \<longleftrightarrow> hchain s p xs \<and> hptr s (if xs = [] then p else fst (last xs)) = fst y \<and> hsize s (fst y) = snd y"
  by (simp add: hchain_append)

text \<open>Taking a whole block out of the ring, and the front part of one.\<close>

lemma unlink_ok:
  assumes "ring s (us @ x # vs)" "us \<noteq> []" "distinct (map fst (us @ x # vs))"
  shows "ring (set_hptr (fst (last us)) (hptr s (fst x)) s) (us @ vs)"
proof -
  let ?p = "fst (last us)" and ?s = "set_hptr (fst (last us)) (hptr s (fst x)) s"
  obtain ws l where us: "us = ws @ [l]" using assms(2) by (cases us rule: rev_cases) auto
  have "ring s ((ws @ [l, x]) @ vs)" using assms(1) us by simp
  then have "ring s (vs @ ws @ [l, x])" by (metis ring_rotate append.assoc)
  then have c: "hchain s (fst x) ((vs @ ws) @ [l])" by (simp add: ring_def hchain_append)
  have n: "fst l \<notin> fst ` set (vs @ ws)" using assms(3) us by auto
  have "hchain ?s (fst l) ((vs @ ws) @ [l])"
  proof (cases "vs @ ws")
    case Nil
    then show ?thesis using c us by (simp add: set_hptr_def)
  next
    case (Cons y ys)
    have y: "fst l \<noteq> fst y" "fst l \<notin> fst ` set ys" using n Cons by auto
    have "hchain ?s (fst y) ys \<longleftrightarrow> hchain s (fst y) ys" using y us by (intro chain_other [of "fst l"]) (auto simp: set_hptr_def)
    moreover have "fst l \<noteq> (if ys = [] then fst y else fst (last ys))" using y by (metis image_eqI last_in_set)
    ultimately show ?thesis using c us Cons y by (auto simp: chain_snoc set_hptr_def)
  qed
  then have "ring ?s (vs @ (ws @ [l]))" by (simp add: ring_def)
  then have "ring ?s ((ws @ [l]) @ vs)" by (rule ring_rotate)
  then show ?thesis using us by simp
qed

lemma ring_pred:
  assumes "ring s (us @ x # vs)" "distinct (map fst (us @ x # vs))" "us \<noteq> []" "p \<in> fst ` set (us @ x # vs)" "hptr s p = fst x"
  shows "p = fst (last us)"
proof -
  let ?cs = "us @ x # vs" and ?k = "length us"
  obtain y where y: "y \<in> set ?cs" "p = fst y" using assms(4) by blast
  obtain i where i: "i < length ?cs" "?cs ! i = y" using y(1) by (metis in_set_conv_nth)
  define n where "n = (if i + 1 < length ?cs then i + 1 else 0)"
  have n: "n < length (map fst ?cs)" "?k < length (map fst ?cs)" using i(1) unfolding n_def by auto
  have "fst (?cs ! n) = fst x" using ring_next [OF assms(1) i(1)] assms(5) y(2) i(2) unfolding n_def by simp
  then have "map fst ?cs ! n = map fst ?cs ! ?k" using n nth_map [of n ?cs fst] nth_map [of ?k ?cs fst] by simp
  then have "n = ?k" using nth_eq_iff_index_eq [OF assms(2) n] by simp
  then have "i + 1 = ?k" using assms(3) unfolding n_def by (auto split: if_splits)
  then have "?cs ! i = last us" using assms(3) by (simp add: nth_append last_conv_nth flip: \<open>i + 1 = ?k\<close>)
  then show ?thesis using y(2) i(2) by simp
qed

lemma shrink_ok:
  assumes "ring s (us @ x # vs)" "distinct (map fst (us @ x # vs))" "\<And>a. hptr s' a = hptr s a"
    "\<And>y. y \<in> set us \<union> set vs \<Longrightarrow> hsize s' (fst y) = hsize s (fst y)" "hsize s' (fst x) = m"
  shows "ring s' (us @ (fst x, m) # vs)"
proof -
  have l: "fst (last (us @ x # vs)) = fst (last (us @ (fst x, m) # vs))" by simp
  have c: "hchain s' p zs \<longleftrightarrow> hchain s p zs" if "set zs \<subseteq> set us \<union> set vs" for p zs
    using that assms(3,4) by (intro hchain_cong) auto
  show ?thesis using assms(1,3,5) c [of us] c [of vs] unfolding ring_def l by (auto simp: hchain_append)
qed

lemma carve_ok:
  assumes "free_list b0 s fs" "x \<in> set fs" "0 < n" "n \<le> snd x" "prev \<in> fst ` set ((b0, 0) # fs)" "hptr s prev = fst x" "b0 \<notin> areas fs"
  shows "\<exists>q s' fs'. carve n prev (fst x) s = (q, s') \<and> free_list b0 s' fs' \<and> area (q, n) \<subseteq> areas fs \<and> areas fs' = areas fs - area (q, n) \<and>
    hsize s' q = n \<and> ubrk s' = ubrk s \<and> (\<forall>a. a \<notin> insert b0 (areas fs) \<longrightarrow> hsize s' a = hsize s a)"
proof -
  have r: "ring s ((b0, 0) # fs)" "gapped ((b0, 0) # fs)" "\<forall>x \<in> set fs. 0 < snd x" using assms(1) by (simp_all add: free_list_def)
  obtain us vs where fs: "fs = us @ x # vs" using assms(2) by (metis split_list)
  let ?us = "(b0, 0) # us"
  have c: "(b0, 0) # fs = ?us @ x # vs" using fs by simp
  have d: "distinct (map fst ((b0, 0) # fs))" using gapped_distinct r(2) by blast
  have xs: "hsize s (fst x) = snd x" using ring_size [OF r(1)] assms(2) by simp
  have p: "prev \<in> fst ` set (?us @ x # vs)" using assms(5) c by simp
  have prev: "prev = fst (last ?us)" using ring_pred [OF _ _ _ p assms(6)] r(1) d unfolding c by simp
  have prev_in: "prev \<in> insert b0 (fst ` set us)" unfolding prev using last_in_set [of ?us] by auto
  have gap: "gapped ((b0, 0) # us @ (fst x, m) # vs)" if "m \<le> snd x" for m using r(2) that unfolding fs by (fastforce simp: gapped_append)
  have gap': "gapped ((b0, 0) # us @ vs)" using r(2) unfolding fs by (auto simp: gapped_append)
  have dis: "area x \<inter> areas us = {}" "area x \<inter> areas vs = {}" using r(2) unfolding fs by (fastforce simp: gapped_append area_def areas_def)+
  show ?thesis
  proof (cases "snd x = n")
    case True
    let ?s = "(set_hptr prev (hptr s (fst x)) s)\<lparr>freep := Some prev\<rparr>"
    have "ring (set_hptr prev (hptr s (fst x)) s) (?us @ vs)" unfolding prev by (rule unlink_ok) (use r(1) d c in simp_all)
    then have "ring ?s ((b0, 0) # us @ vs)" using ring_cong [of "(b0, 0) # us @ vs" ?s "set_hptr prev (hptr s (fst x)) s"] by simp
    then have "free_list b0 ?s (us @ vs)" using gap' prev_in r(3) unfolding free_list_def fs by auto
    moreover have "carve n prev (fst x) s = (fst x, ?s)" using True xs by (simp add: carve_def)
    moreover have "areas (us @ vs) = areas fs - area (fst x, n)" "area (fst x, n) \<subseteq> areas fs" using dis True unfolding fs by auto
    ultimately show ?thesis using xs True by (intro exI [of _ "fst x"] exI [of _ ?s] exI [of _ "us @ vs"]) (simp add: set_hptr_def)
  next
    case False
    let ?m = "snd x - n" and ?q = "fst x + (snd x - n)"
    let ?s = "(set_hsize ?q n (set_hsize (fst x) ?m s))\<lparr>freep := Some prev\<rparr>"
    have m: "0 < ?m" "?m + n = snd x" using False assms(4) by simp_all
    have q: "?q \<in> area x" "?q \<noteq> fst x" using m assms(3) by (auto simp: area_def)
    have qn: "?q \<noteq> fst y" if "y \<in> set ?us \<union> set vs" for y
    proof (cases "y \<in> set us \<union> set vs")
      case True
      then have "0 < snd y" using r(3) unfolding fs by auto
      then have "fst y \<in> areas us \<union> areas vs" using True areas_mem by blast
      then show ?thesis using q(1) dis by auto
    next
      case False
      then have "fst y = b0" using that by auto
      then show ?thesis using q(1) assms(7) unfolding fs by auto
    qed
    have xn: "fst x \<noteq> fst y" if "y \<in> set ?us \<union> set vs" for y using d that unfolding c by auto
    have r': "ring ?s (?us @ (fst x, ?m) # vs)"
    proof (rule shrink_ok)
      show "ring s (?us @ x # vs)" "distinct (map fst (?us @ x # vs))" using r(1) d unfolding c by simp_all
      show "hsize ?s (fst y) = hsize s (fst y)" if "y \<in> set ?us \<union> set vs" for y using qn [OF that] xn [OF that] by (simp add: set_hsize_def)
    qed (use q(2) m in \<open>auto simp: set_hsize_def\<close>)
    have "carve n prev (fst x) s = (?q, ?s)" using False xs by (simp add: carve_def set_hsize_def Let_def)
    moreover have "free_list b0 ?s (us @ (fst x, ?m) # vs)" using r' gap [of ?m] prev_in r(3) m(1) unfolding free_list_def fs by auto
    moreover have "area x = area (fst x, ?m) \<union> area (?q, n)" "area (fst x, ?m) \<inter> area (?q, n) = {}" using m(2) by (auto simp: area_def)
    then have "areas (us @ (fst x, ?m) # vs) = areas fs - area (?q, n)" "area (?q, n) \<subseteq> areas fs" using dis unfolding fs by auto
    moreover have "hsize ?s a = hsize s a" if "a \<notin> insert b0 (areas fs)" for a
    proof -
      have "fst x \<in> areas fs" "?q \<in> areas fs" using q(1) area_mem [of x] r(3) assms(2) unfolding fs by auto
      then show ?thesis using that by (auto simp: set_hsize_def)
    qed
    ultimately show ?thesis by (intro exI [of _ ?q] exI [of _ ?s] exI [of _ "us @ (fst x, ?m) # vs"]) (auto simp: set_hsize_def)
  qed
qed

section \<open>Malloc as a whole\<close>

lemma area_in_one:
  assumes "gapped fs" "0 < k" "area (a, k) \<subseteq> areas fs"
  shows "\<exists>x \<in> set fs. area (a, k) \<subseteq> area x"
  using assms(2,3)
proof (induction k)
  case (Suc k)
  show ?case
  proof (cases "k = 0")
    case True
    then show ?thesis using Suc.prems(2) by (auto simp: area_def areas_def)
  next
    case False
    have "area (a, k) \<subseteq> areas fs" using Suc.prems(2) by (auto simp: area_def)
    then obtain x where x: "x \<in> set fs" "area (a, k) \<subseteq> area x" using Suc.IH False by auto
    have "a + k \<in> areas fs" using Suc.prems(2) by (auto simp: area_def)
    then obtain y where y: "y \<in> set fs" "a + k \<in> area y" by (auto simp: areas_def)
    have e: "fst x \<le> a" "a + k \<le> fst x + snd x"
    proof -
      have "a \<in> area (a, k)" "a + (k - 1) \<in> area (a, k)" using False by (auto simp: area_def)
      then have "a \<in> area x" "a + (k - 1) \<in> area x" using x(2) by auto
      then show "fst x \<le> a" "a + k \<le> fst x + snd x" using False by (auto simp: area_def)
    qed
    have "x = y"
    proof (rule ccontr)
      assume "x \<noteq> y"
      then have "fst x + snd x < fst y \<or> fst y + snd y < fst x" using gapped_apart [OF assms(1) x(1) y(1)] by blast
      then show False using e y(2) by (auto simp: area_def)
    qed
    then have "a + k < fst x + snd x" using y(2) by (simp add: area_def)
    then show ?thesis using x(1) e(1) by (intro bexI [of _ x]) (auto simp: area_def)
  qed
qed simp

text \<open>The ring as the scan of \<^verbatim>\<open>malloc\<close> goes through it: from \<^verbatim>\<open>freep\<close> back to \<^verbatim>\<open>freep\<close>.\<close>

lemma scan_order:
  assumes "free_list b0 s fs" "freep s = Some f"
  obtains ws m where "hchain s f (ws @ [(f, m)])" "set (ws @ [(f, m)]) = set ((b0, 0) # fs)" "f \<notin> fst ` set ws"
proof -
  have r: "ring s ((b0, 0) # fs)" "distinct (map fst ((b0, 0) # fs))" "f \<in> fst ` set ((b0, 0) # fs)"
    using assms gapped_distinct unfolding free_list_def by auto
  obtain y where y: "y \<in> set ((b0, 0) # fs)" "f = fst y" using r(3) by blast
  obtain us vs where c: "(b0, 0) # fs = us @ y # vs" using y(1) by (metis split_list)
  have "ring s ((us @ [y]) @ vs)" using r(1) c by simp
  then have "ring s (vs @ us @ [y])" by (rule ring_rotate)
  then have "hchain s f ((vs @ us) @ [y])" using y(2) by (simp add: ring_def)
  moreover have "set ((vs @ us) @ [y]) = set ((b0, 0) # fs)" unfolding c by auto
  moreover have "f \<notin> fst ` set (vs @ us)" using r(2) y(2) unfolding c by auto
  moreover have "y = (f, snd y)" using y(2) by simp
  ultimately show ?thesis using that [of "vs @ us" "snd y"] by simp
qed

lemma malloc_hit:
  assumes "free_list b0 s fs" "freep s = Some f" "0 < n" "y \<in> set fs" "n \<le> snd y" "b0 \<notin> areas fs"
  shows "\<exists>q s' fs'. malloc_loop gr n f (hptr s f) s = Some (Some (q + 1), s') \<and> free_list b0 s' fs' \<and> area (q, n) \<subseteq> areas fs \<and>
    areas fs' = areas fs - area (q, n) \<and> hsize s' q = n \<and> ubrk s' = ubrk s \<and> (\<forall>a. a \<notin> insert b0 (areas fs) \<longrightarrow> hsize s' a = hsize s a)"
proof -
  obtain ws m where w: "hchain s f (ws @ [(f, m)])" "set (ws @ [(f, m)]) = set ((b0, 0) # fs)" "f \<notin> fst ` set ws"
    using scan_order [OF assms(1,2)] .
  have "y \<in> set (ws @ [(f, m)])" using w(2) assms(4) by simp
  then obtain us x vs where s: "ws @ [(f, m)] = us @ x # vs" "n \<le> snd x" "\<forall>u \<in> set us. \<not> n \<le> snd u"
    using split_list_first_prop [of "ws @ [(f, m)]" "\<lambda>x. n \<le> snd x"] assms(5) by blast
  have us: "set us \<subseteq> set ws" using s(1) by (metis butlast_append butlast_snoc list.distinct(1) set_append sup_ge1)
  have x: "x \<in> set fs"
  proof -
    have "x \<in> set (ws @ [(f, m)])" unfolding s(1) by simp
    then show ?thesis unfolding w(2) using assms(3) s(2) by auto
  qed
  let ?p = "if us = [] then f else fst (last us)"
  have ne: "freep s \<noteq> Some (fst u)" if "u \<in> set us" for u using us w(3) assms(2) that by auto
  have c: "hchain s f (us @ x # vs)" using w(1) s(1) by simp
  then have hp: "hptr s ?p = fst x" by (simp add: hchain_append)
  have "?p \<in> insert f (fst ` set us)" by simp
  also have "\<dots> \<subseteq> fst ` set (ws @ [(f, m)])" using us by auto
  finally have pin: "?p \<in> fst ` set ((b0, 0) # fs)" unfolding w(2) .
  have "malloc_loop gr n f (hptr s f) s = (case carve n ?p (fst x) s of (q, s) \<Rightarrow> Some (Some (q + 1), s))"
    using scan_hit [OF c _ s(2)] s(3) ne by (simp add: not_le)
  then show ?thesis using carve_ok [OF assms(1) x assms(3) s(2) pin hp assms(6)] by auto
qed

lemma malloc_miss:
  assumes "free_list b0 s fs" "freep s = Some f" "0 < n" "\<forall>y \<in> set fs. snd y < n"
  shows "malloc_loop gr n f (hptr s f) s = (case morecore gr n s of None \<Rightarrow> None | Some (r, s) \<Rightarrow>
       (case r of None \<Rightarrow> Some (None, s) | Some p \<Rightarrow> malloc_loop gr n p (hptr s p) s))"
proof -
  obtain ws m where w: "hchain s f (ws @ [(f, m)])" "set (ws @ [(f, m)]) = set ((b0, 0) # fs)" "f \<notin> fst ` set ws"
    using scan_order [OF assms(1,2)] .
  have lt: "snd u < n" if "u \<in> set (ws @ [(f, m)])" for u using that assms(3,4) unfolding w(2) by auto
  have "\<forall>u \<in> set ws. snd u < n \<and> freep s \<noteq> Some (fst u)" using lt w(3) assms(2) by auto
  then show ?thesis using scan_miss [OF w(1)] lt [of "(f, m)"] assms(2) by simp
qed

lemma morecore_ok:
  assumes "free_list b0 s fs" "areas fs \<subseteq> {..<ubrk s}" "b0 < ubrk s" "n < 2 ^ 28" "gr (int (max n 4096 * HEADER)) (ubrk s)"
  shows "\<exists>s' fs' f. morecore gr n s = Some (Some f, s') \<and> freep s' = Some f \<and> free_list b0 s' fs' \<and>
    areas fs' = areas fs \<union> area (ubrk s, max n 4096) \<and> ubrk s' = ubrk s + max n 4096 \<and>
    (\<forall>a. a \<notin> insert b0 (areas fs') \<longrightarrow> hsize s' a = hsize s a)"
proof -
  let ?n = "max n 4096"
  let ?s = "set_hsize (ubrk s) ?n (s\<lparr>ubrk := ubrk s + ?n\<rparr>)"
  have b: "s32 (u32 (?n * HEADER)) = int (?n * HEADER)" using assms(4) by (simp add: HEADER_def)
  have sb: "sbrk gr (int (?n * HEADER)) s = (Some (ubrk s), s\<lparr>ubrk := ubrk s + ?n\<rparr>)"
    using assms(5) by (simp add: sbrk_def HEADER_def nat_add_distrib del: of_nat_mult max_def)
  have r: "ring s ((b0, 0) # fs)" "\<forall>x \<in> set fs. 0 < snd x" using assms(1) by (auto simp: free_list_def)
  have ne: "fst x \<noteq> ubrk s" if "x \<in> set ((b0, 0) # fs)" for x
  proof (cases "x \<in> set fs")
    case True
    then have "fst x \<in> areas fs" using areas_mem r(2) by blast
    then show ?thesis using assms(2) by auto
  qed (use that assms(3) in auto)
  have "hptr ?s a = hptr s a \<and> hsize ?s a = hsize s a" if "a \<in> fst ` set ((b0, 0) # fs)" for a
    using ne that unfolding set_hsize_def by (metis (no_types, lifting) fun_upd_apply imageE umem.select_convs(1,2) umem.surjective umem.update_convs(2,4))
  then have "ring ?s ((b0, 0) # fs)" using r(1) ring_cong by blast
  then have fl: "free_list b0 ?s fs" using assms(1) by (simp add: free_list_def set_hsize_def)
  have dis: "area (ubrk s, ?n) \<inter> areas fs = {}" using assms(2) by (auto simp: area_def)
  have hs: "hsize ?s (ubrk s) = ?n" "0 < ?n" by (simp_all add: set_hsize_def)
  obtain fs' s' where u: "ufree (ubrk s + 1) ?s = Some s'" "free_list b0 s' fs'" "areas fs' = areas fs \<union> area (ubrk s, ?n)" "ubrk s' = ubrk ?s"
    "\<forall>a. a \<notin> insert b0 (areas fs') \<longrightarrow> hsize s' a = hsize ?s a"
    using ufree_ok [OF fl hs(1,2) assms(3) dis] by blast
  obtain f where f: "freep s' = Some f" using u(2) by (auto simp: free_list_def)
  have "morecore gr n s = Some (Some f, s')" unfolding morecore_def Let_def b sb using u(1) f by simp
  moreover have "hsize s' a = hsize s a" if "a \<notin> insert b0 (areas fs')" for a
  proof -
    have "a \<noteq> ubrk s" using that hs(2) unfolding u(3) by (auto simp: area_def)
    then show ?thesis using u(5) that by (simp add: set_hsize_def)
  qed
  ultimately show ?thesis using u f by (intro exI) (auto simp: set_hsize_def)
qed

lemma morecore_refused:
  assumes "n < 2 ^ 28" "\<not> gr (int (max n 4096 * HEADER)) (ubrk s)"
  shows "morecore gr n s = Some (None, s)"
proof -
  have "s32 (u32 (max n 4096 * HEADER)) = int (max n 4096 * HEADER)" using assms(1) by (simp add: HEADER_def)
  then show ?thesis unfolding morecore_def Let_def using assms(2) by (simp add: sbrk_def del: of_nat_mult max_def)
qed

text \<open>A request on a heap with a free list: a block from the free units, old or new, or a refusal by the kernel.\<close>

lemma malloc_loop_ok:
  assumes "free_list b0 s fs" "freep s = Some f" "0 < n" "n < 2 ^ 28" "areas fs \<subseteq> {..<ubrk s}" "b0 < ubrk s" "b0 \<notin> areas fs"
  shows "malloc_loop gr n f (hptr s f) s = Some (None, s) \<and> (\<forall>y \<in> set fs. snd y < n) \<and> \<not> gr (int (max n 4096 * HEADER)) (ubrk s) \<or>
    (\<exists>q s' fs' h. malloc_loop gr n f (hptr s f) s = Some (Some (q + 1), s') \<and> free_list b0 s' fs' \<and> ubrk s' = ubrk s + h \<and>
      area (q, n) \<subseteq> areas fs \<union> area (ubrk s, h) \<and> areas fs' = areas fs \<union> area (ubrk s, h) - area (q, n) \<and> hsize s' q = n \<and>
      (\<forall>a. a \<notin> insert b0 (areas fs \<union> area (ubrk s, h)) \<longrightarrow> hsize s' a = hsize s a))"
proof (cases "\<exists>y \<in> set fs. n \<le> snd y")
  case True
  then obtain y where "y \<in> set fs" "n \<le> snd y" by blast
  then obtain q s' fs' where "malloc_loop gr n f (hptr s f) s = Some (Some (q + 1), s')" "free_list b0 s' fs'" "area (q, n) \<subseteq> areas fs"
    "areas fs' = areas fs - area (q, n)" "hsize s' q = n" "ubrk s' = ubrk s" "\<forall>a. a \<notin> insert b0 (areas fs) \<longrightarrow> hsize s' a = hsize s a"
    using malloc_hit [OF assms(1-3) _ _ assms(7)] by blast
  moreover have "area (ubrk s, 0) = {}" by (simp add: area_def)
  ultimately show ?thesis by (intro disjI2 exI [of _ q] exI [of _ s'] exI [of _ fs'] exI [of _ 0]) simp
next
  case False
  then have miss: "\<forall>y \<in> set fs. snd y < n" by (meson not_le)
  note m = malloc_miss [OF assms(1-3) miss]
  show ?thesis
  proof (cases "gr (int (max n 4096 * HEADER)) (ubrk s)")
    case gr: True
    obtain s1 fs1 f1 where c: "morecore gr n s = Some (Some f1, s1)" "freep s1 = Some f1" "free_list b0 s1 fs1"
      "areas fs1 = areas fs \<union> area (ubrk s, max n 4096)" "ubrk s1 = ubrk s + max n 4096"
      "\<forall>a. a \<notin> insert b0 (areas fs1) \<longrightarrow> hsize s1 a = hsize s a"
      using morecore_ok [where gr = gr, OF assms(1,5,6,4) gr] by blast
    have "gapped fs1" using c(3) by (simp add: free_list_def)
    moreover have "area (ubrk s, max n 4096) \<subseteq> areas fs1" using c(4) by blast
    ultimately obtain y where y: "y \<in> set fs1" "area (ubrk s, max n 4096) \<subseteq> area y"
      using area_in_one [of fs1 "max n 4096" "ubrk s"] by (meson less_max_iff_disj zero_less_numeral)
    have ny: "n \<le> snd y"
    proof -
      have "ubrk s \<in> area y" "ubrk s + (max n 4096 - 1) \<in> area y" using y(2) by (auto simp: area_def)
      then have "fst y \<le> ubrk s" "ubrk s + (max n 4096 - 1) < fst y + snd y" by (simp_all add: area_def)
      moreover have "n \<le> max n 4096" "1 \<le> max n (4096 :: nat)" by simp_all
      ultimately show ?thesis by linarith
    qed
    have "b0 \<notin> areas fs1" using assms(6,7) c(4) by (simp add: area_def)
    then obtain q s' fs' where h: "malloc_loop gr n f1 (hptr s1 f1) s1 = Some (Some (q + 1), s')" "free_list b0 s' fs'" "area (q, n) \<subseteq> areas fs1"
      "areas fs' = areas fs1 - area (q, n)" "hsize s' q = n" "ubrk s' = ubrk s1" "\<forall>a. a \<notin> insert b0 (areas fs1) \<longrightarrow> hsize s' a = hsize s1 a"
      using malloc_hit [OF c(3,2) assms(3) y(1) ny, of gr] by blast
    have "malloc_loop gr n f (hptr s f) s = Some (Some (q + 1), s')" unfolding m c(1) using h(1) by simp
    then show ?thesis using h c(4-6) by (intro disjI2 exI [of _ q] exI [of _ s'] exI [of _ fs'] exI [of _ "max n 4096"]) simp
  next
    case False
    then show ?thesis using m miss morecore_refused [where gr = gr, OF assms(4) False] by simp
  qed
qed

lemma units_ok:
  assumes "nb < 2 ^ 31 - 16"
  shows "units nb = (nb + 7) div 8 + 1" "0 < units nb" "units nb < 2 ^ 28" "nb \<le> 8 * (units nb - 1)"
proof -
  have "u32 (nb + HEADER - 1) = nb + 7" using assms by (simp add: HEADER_def)
  moreover have "(nb + 7) div 8 + 1 < 2 ^ 28" using assms by simp
  ultimately show "units nb = (nb + 7) div 8 + 1" "0 < units nb" "units nb < 2 ^ 28" "nb \<le> 8 * (units nb - 1)"
    by (simp_all add: units_def HEADER_def)
qed

section \<open>A program over the allocator\<close>

text \<open>
  The blocks a program holds, with their headers: it asks for one, gives one back, or writes what it
  likes between the header of a block it holds and the block's end.
\<close>

inductive uses :: "grants \<Rightarrow> nat \<Rightarrow> umem \<times> blk list \<Rightarrow> umem \<times> blk list \<Rightarrow> bool" for gr :: grants and b0 :: nat where
  alloc: "nb < 2 ^ 31 - 16 \<Longrightarrow> umalloc gr b0 nb s = Some (Some p, s') \<Longrightarrow> uses gr b0 (s, A) (s', (p - 1, units nb) # A)"
| refused: "nb < 2 ^ 31 - 16 \<Longrightarrow> umalloc gr b0 nb s = Some (None, s') \<Longrightarrow> uses gr b0 (s, A) (s', A)"
| free: "(p, n) \<in> set A \<Longrightarrow> ufree (p + 1) s = Some s' \<Longrightarrow> uses gr b0 (s, A) (s', remove1 (p, n) A)"
| write_ptr: "(p, n) \<in> set A \<Longrightarrow> p < a \<Longrightarrow> a < p + n \<Longrightarrow> uses gr b0 (s, A) (set_hptr a v s, A)"
| write_size: "(p, n) \<in> set A \<Longrightarrow> p < a \<Longrightarrow> a < p + n \<Longrightarrow> uses gr b0 (s, A) (set_hsize a v s, A)"

definition held :: "umem \<Rightarrow> blk list \<Rightarrow> bool" where
  "held s A \<longleftrightarrow> sorted_wrt (\<lambda>x y. area x \<inter> area y = {}) A \<and> (\<forall>x \<in> set A. 0 < snd x \<and> hsize s (fst x) = snd x)"

definition heap_inv :: "nat \<Rightarrow> nat \<Rightarrow> umem \<times> blk list \<Rightarrow> bool" where
  "heap_inv b0 h0 = (\<lambda>(s, A). b0 < h0 \<and> h0 \<le> ubrk s \<and> held s A \<and> (case freep s of None \<Rightarrow> A = [] \<and> ubrk s = h0
     | Some f \<Rightarrow> \<exists>fs. free_list b0 s fs \<and> areas fs \<union> areas A = {h0..<ubrk s} \<and> areas fs \<inter> areas A = {}))"

lemma heap_invI:
  "free_list b0 s fs \<Longrightarrow> areas fs \<union> areas A = {h0..<ubrk s} \<Longrightarrow> areas fs \<inter> areas A = {} \<Longrightarrow> held s A \<Longrightarrow> b0 < h0 \<Longrightarrow> h0 \<le> ubrk s \<Longrightarrow>
    heap_inv b0 h0 (s, A)"
  unfolding heap_inv_def free_list_def by (cases "freep s") auto

lemma held_Cons: "held s (x # A) \<longleftrightarrow> held s A \<and> area x \<inter> areas A = {} \<and> 0 < snd x \<and> hsize s (fst x) = snd x"
  unfolding held_def areas_def by auto

lemma held_in: "held s A \<Longrightarrow> x \<in> set A \<Longrightarrow> area x \<subseteq> areas A \<and> fst x \<in> areas A \<and> 0 < snd x \<and> hsize s (fst x) = snd x"
  using areas_mem unfolding held_def areas_def by blast

lemma held_cong: "held s A \<Longrightarrow> (\<And>x. x \<in> set A \<Longrightarrow> hsize s' (fst x) = hsize s (fst x)) \<Longrightarrow> held s' A"
  by (simp add: held_def)

lemma held_remove: "held s A \<Longrightarrow> x \<in> set A \<Longrightarrow> held s (remove1 x A) \<and> areas (remove1 x A) = areas A - area x"
proof (induction A)
  case (Cons y A)
  show ?case
  proof (cases "x = y")
    case False
    then have x: "x \<in> set A" using Cons.prems(2) by simp
    then have "held s (remove1 x A)" "areas (remove1 x A) = areas A - area x" "area x \<subseteq> areas A"
      using Cons.IH Cons.prems(1) held_in [of s A x] by (auto simp: held_Cons)
    then show ?thesis using False Cons.prems(1) by (auto simp: held_Cons)
  qed (use Cons.prems(1) in \<open>auto simp: held_Cons\<close>)
qed simp

text \<open>What a request does to a heap in order.\<close>

lemma umalloc_ok:
  assumes "heap_inv b0 h0 (s, A)" "nb < 2 ^ 31 - 16"
  shows "(\<exists>s'. umalloc gr b0 nb s = Some (None, s') \<and> heap_inv b0 h0 (s', A) \<and> \<not> gr (int (max (units nb) 4096 * HEADER)) (ubrk s) \<and>
      (\<forall>q. \<not> (area (q, units nb) \<subseteq> {h0..<ubrk s} - areas A))) \<or>
    (\<exists>q s'. umalloc gr b0 nb s = Some (Some (q + 1), s') \<and> heap_inv b0 h0 (s', (q, units nb) # A))"
proof -
  note u = units_ok [OF assms(2)]
  obtain f s1 fs where s1: "umalloc gr b0 nb s = malloc_loop gr (units nb) f (hptr s1 f) s1" "freep s1 = Some f" "free_list b0 s1 fs"
    "areas fs \<union> areas A = {h0..<ubrk s1}" "areas fs \<inter> areas A = {}" "held s1 A" "b0 < h0" "h0 \<le> ubrk s1" "ubrk s1 = ubrk s"
  proof (cases "freep s")
    case None
    let ?s = "set_hsize b0 0 (set_hptr b0 b0 (s\<lparr>freep := Some b0\<rparr>))"
    have "umalloc gr b0 nb s = malloc_loop gr (units nb) b0 (hptr ?s b0) ?s" using None by (simp add: umalloc_def Let_def)
    moreover have "free_list b0 ?s []" by (simp add: free_list_def ring_def set_hptr_def set_hsize_def)
    moreover have "A = []" "ubrk s = h0" "b0 < h0" using assms(1) None by (simp_all add: heap_inv_def)
    ultimately show ?thesis using that [of b0 ?s "[]"] by (simp add: held_def set_hptr_def set_hsize_def)
  next
    case (Some f)
    moreover have "umalloc gr b0 nb s = malloc_loop gr (units nb) f (hptr s f) s" using Some by (simp add: umalloc_def)
    ultimately show ?thesis using that [of f s] assms(1) by (auto simp: heap_inv_def)
  qed
  have "areas fs \<subseteq> {h0..<ubrk s1}" using s1(4) by blast
  then have sub: "areas fs \<subseteq> {..<ubrk s1}" "b0 < ubrk s1" "b0 \<notin> areas fs" using s1(7,8) by auto
  consider "malloc_loop gr (units nb) f (hptr s1 f) s1 = Some (None, s1)" "\<forall>y \<in> set fs. snd y < units nb" "\<not> gr (int (max (units nb) 4096 * HEADER)) (ubrk s1)"
    | q s' fs' h where "malloc_loop gr (units nb) f (hptr s1 f) s1 = Some (Some (q + 1), s')" "free_list b0 s' fs'" "ubrk s' = ubrk s1 + h"
      "area (q, units nb) \<subseteq> areas fs \<union> area (ubrk s1, h)" "areas fs' = areas fs \<union> area (ubrk s1, h) - area (q, units nb)" "hsize s' q = units nb"
      "\<forall>a. a \<notin> insert b0 (areas fs \<union> area (ubrk s1, h)) \<longrightarrow> hsize s' a = hsize s1 a"
    using malloc_loop_ok [OF s1(3,2) u(2,3) sub, of gr] by blast
  then show ?thesis
  proof cases
    case 1
    have "heap_inv b0 h0 (s1, A)" using heap_invI s1(3-8) by blast
    moreover have "\<not> area (q, units nb) \<subseteq> {h0..<ubrk s} - areas A" for q
    proof
      assume "area (q, units nb) \<subseteq> {h0..<ubrk s} - areas A"
      then have "area (q, units nb) \<subseteq> areas fs" using s1(4,9) by auto
      then obtain y where y: "y \<in> set fs" "area (q, units nb) \<subseteq> area y" using area_in_one [OF _ u(2)] s1(3) by (metis free_list_def gapped_simps(2))
      have "card (area (q, units nb)) \<le> card (area y)" using y(2) by (intro card_mono) (simp_all add: area_def)
      then show False using 1(2) y(1) by (fastforce simp: area_def)
    qed
    ultimately show ?thesis using s1(1,9) 1 by auto
  next
    case 2
    let ?h = "area (ubrk s1, h)" and ?x = "(q, units nb)"
    have "areas A \<subseteq> {h0..<ubrk s1}" using s1(4) by blast
    moreover have "?h \<inter> {h0..<ubrk s1} = {}" "{h0..<ubrk s1} \<union> ?h = {h0..<ubrk s'}" using s1(8) 2(3) by (auto simp: area_def)
    ultimately have A: "areas A \<subseteq> {h0..<ubrk s1}" "?h \<inter> {h0..<ubrk s1} = {}" "{h0..<ubrk s1} \<union> ?h = {h0..<ubrk s'}" .
    have fr: "(areas fs \<union> ?h) \<inter> areas A = {}" using A(1,2) s1(5) by blast
    have x: "area ?x \<inter> areas A = {}" using fr 2(4) by blast
    have "hsize s' (fst y) = hsize s1 (fst y)" if "y \<in> set A" for y
    proof -
      have "fst y \<in> areas A" using held_in [OF s1(6) that] by blast
      then have "fst y \<notin> areas fs \<union> ?h" "fst y \<noteq> b0" using fr A(1) s1(7) by auto
      then show ?thesis using 2(7) by blast
    qed
    then have "held s' A" using held_cong s1(6) by blast
    then have "held s' (?x # A)" using x u(2) 2(6) by (simp add: held_Cons)
    moreover have "areas fs' \<union> areas (?x # A) = {h0..<ubrk s'}" "areas fs' \<inter> areas (?x # A) = {}"
    proof -
      have "areas fs' \<union> area ?x = areas fs \<union> ?h" unfolding 2(5) using 2(4) by blast
      then show "areas fs' \<union> areas (?x # A) = {h0..<ubrk s'}" using s1(4) A(3) by auto
      show "areas fs' \<inter> areas (?x # A) = {}" unfolding 2(5) using fr by auto
    qed
    ultimately have "heap_inv b0 h0 (s', ?x # A)" using heap_invI [OF 2(2)] s1(7,8) 2(3) by simp
    then show ?thesis using s1(1) 2(1) by auto
  qed
qed

text \<open>Giving a block back.\<close>

lemma ufree_heap:
  assumes "heap_inv b0 h0 (s, A)" "(p, n) \<in> set A"
  shows "\<exists>s'. ufree (p + 1) s = Some s' \<and> heap_inv b0 h0 (s', remove1 (p, n) A)"
proof -
  have h: "b0 < h0" "h0 \<le> ubrk s" "held s A" using assms(1) by (simp_all add: heap_inv_def)
  have "freep s \<noteq> None" using assms by (cases "freep s") (auto simp: heap_inv_def)
  then obtain fs where fs: "free_list b0 s fs" "areas fs \<union> areas A = {h0..<ubrk s}" "areas fs \<inter> areas A = {}"
    using assms(1) by (auto simp: heap_inv_def)
  have x: "area (p, n) \<subseteq> areas A" "p \<in> areas A" "0 < n" "hsize s p = n" using held_in [OF h(3) assms(2)] by auto
  have "b0 < p" "area (p, n) \<inter> areas fs = {}" using x(1,2) fs(2,3) h(1) by auto
  then obtain fs' s' where f: "ufree (p + 1) s = Some s'" "free_list b0 s' fs'" "areas fs' = areas fs \<union> area (p, n)" "ubrk s' = ubrk s"
    "\<forall>a. a \<notin> insert b0 (areas fs') \<longrightarrow> hsize s' a = hsize s a"
    using ufree_ok [OF fs(1) x(4,3)] by blast
  let ?A = "remove1 (p, n) A"
  have r: "held s ?A" "areas ?A = areas A - area (p, n)" using held_remove [OF h(3) assms(2)] by auto
  have "hsize s' (fst y) = hsize s (fst y)" if "y \<in> set ?A" for y
  proof -
    have "fst y \<in> areas ?A" using held_in [OF r(1) that] by blast
    then have "fst y \<notin> areas fs'" "fst y \<noteq> b0" using r(2) f(3) fs(2,3) h(1) by auto
    then show ?thesis using f(5) by blast
  qed
  then have "held s' ?A" using held_cong r(1) by blast
  moreover have "areas fs' \<union> areas ?A = {h0..<ubrk s'}" "areas fs' \<inter> areas ?A = {}" using r(2) f(3,4) fs(2,3) x(1) by auto
  ultimately have "heap_inv b0 h0 (s', ?A)" using heap_invI f(2,4) h(1,2) by metis
  then show ?thesis using f(1) by blast
qed

lemma heap_write:
  assumes "heap_inv b0 h0 (s, A)" "(p, n) \<in> set A" "p < a" "a < p + n" "ubrk s' = ubrk s" "freep s' = freep s"
    "\<And>b. b \<noteq> a \<Longrightarrow> hptr s' b = hptr s b \<and> hsize s' b = hsize s b"
  shows "heap_inv b0 h0 (s', A)"
proof -
  have h: "b0 < h0" "h0 \<le> ubrk s" "held s A" using assms(1) by (simp_all add: heap_inv_def)
  have "freep s \<noteq> None" using assms by (cases "freep s") (auto simp: heap_inv_def)
  then obtain fs where fs: "free_list b0 s fs" "areas fs \<union> areas A = {h0..<ubrk s}" "areas fs \<inter> areas A = {}"
    using assms(1) by (auto simp: heap_inv_def)
  have a: "a \<in> area (p, n)" "a \<in> areas A" using assms(3,4) held_in [OF h(3) assms(2)] by (auto simp: area_def)
  have "fst x \<noteq> a" if x: "x \<in> set A" for x
  proof (cases "x = (p, n)")
    case False
    then have "area x \<inter> area (p, n) = {}" using h(3) x assms(2) sorted_wrt_apart [of A x "(p, n)"] by (auto simp: held_def)
    then show ?thesis using a(1) area_mem [of x] held_in [OF h(3) x] by auto
  qed (use assms(3) in simp)
  then have held: "held s' A" using held_cong [OF h(3)] assms(7) by blast
  have "fst x \<noteq> a" if "x \<in> set ((b0, 0) # fs)" for x
  proof (cases "x \<in> set fs")
    case True
    then have "fst x \<in> areas fs" using areas_mem fs(1) by (auto simp: free_list_def)
    then show ?thesis using a(2) fs(3) by auto
  next
    case False
    have "areas A \<subseteq> {h0..<ubrk s}" using fs(2) by blast
    then have "b0 \<noteq> a" using a(2) h(1) by auto
    then show ?thesis using that False by auto
  qed
  then have "ring s' ((b0, 0) # fs) \<longleftrightarrow> ring s ((b0, 0) # fs)" using assms(7) by (intro ring_cong) blast
  then have "free_list b0 s' fs" using fs(1) assms(6) by (simp add: free_list_def)
  then show ?thesis using heap_invI held fs(2,3) h(1,2) assms(5) by metis
qed

theorem uses_inv:
  assumes "uses gr b0 c c'" "heap_inv b0 h0 c"
  shows "heap_inv b0 h0 c'"
  using assms(1)
proof (cases rule: uses.cases)
  case (alloc nb s p s' A)
  then show ?thesis using umalloc_ok [of b0 h0 s A nb gr] assms(2) by auto
next
  case (refused nb s s' A)
  then show ?thesis using umalloc_ok [of b0 h0 s A nb gr] assms(2) by auto
next
  case (free p n A s s')
  then show ?thesis using ufree_heap [of b0 h0 s A p n] assms(2) by auto
next
  case (write_ptr p n A a s v)
  then show ?thesis using heap_write [of b0 h0 s A p n a "set_hptr a v s"] assms(2) by (simp add: set_hptr_def)
next
  case (write_size p n A a s v)
  then show ?thesis using heap_write [of b0 h0 s A p n a "set_hsize a v s"] assms(2) by (simp add: set_hsize_def)
qed

definition fresh_heap :: "nat \<Rightarrow> nat \<Rightarrow> umem \<Rightarrow> bool" where
  "fresh_heap b0 h0 s \<longleftrightarrow> b0 < h0 \<and> freep s = None \<and> ubrk s = h0"

lemma reachable_heap:
  assumes "fresh_heap b0 h0 s0" "(uses gr b0)\<^sup>*\<^sup>* (s0, []) c"
  shows "heap_inv b0 h0 c"
  using assms(2)
proof (induction rule: rtranclp_induct)
  case base
  then show ?case using assms(1) by (simp add: fresh_heap_def heap_inv_def held_def)
qed (rule uses_inv)

lemma one_block:
  assumes "gapped fs" "\<forall>x \<in> set fs. 0 < snd x" "areas fs = area (a, k)" "0 < k"
  shows "fs = [(a, k)]"
proof -
  obtain x where x: "x \<in> set fs" "area (a, k) \<subseteq> area x" using area_in_one [OF assms(1,4)] assms(3) by blast
  have sub: "area y \<subseteq> area (a, k)" if "y \<in> set fs" for y using that assms(3) by (auto simp: areas_def)
  have one: "y = x" if y: "y \<in> set fs" for y
  proof (rule ccontr)
    assume "y \<noteq> x"
    then have "fst x + snd x < fst y \<or> fst y + snd y < fst x" using gapped_apart [OF assms(1) x(1) y] by blast
    moreover have "fst y \<in> area y" using area_mem assms(2) y by blast
    then have "fst y \<in> area x" using sub [OF y] x(2) by blast
    ultimately show False by (auto simp: area_def)
  qed
  have "distinct fs" using gapped_distinct [OF assms(1)] distinct_map by blast
  have "fs = [x]"
  proof (cases fs)
    case (Cons z zs)
    have "z = x" "\<forall>y \<in> set zs. y = x" using one Cons by simp_all
    then have "zs = []" using Cons \<open>distinct fs\<close> by (cases zs) auto
    then show ?thesis using one Cons by simp
  qed (use x(1) in simp)
  moreover have "area x = area (a, k)" using x sub by blast
  then have "{fst x..<fst x + snd x} = {a..<a + k}" by (simp add: area_def)
  then have "fst x = a" "fst x + snd x = a + k" using atLeastLessThan_inj [of "fst x" "fst x + snd x" a "a + k"] assms(2,4) x(1) by auto
  then have "x = (a, k)" by (cases x) simp
  ultimately show ?thesis by simp
qed

text \<open>A run: two requests, and both blocks given back, the older one first.\<close>

definition heap_start :: umem where
  "heap_start = \<lparr>hptr = \<lambda>_. 0, hsize = \<lambda>_. 0, freep = None, ubrk = 2\<rparr>"

definition heap_grants :: grants where "heap_grants n b = True"

definition heap1 :: umem where "heap1 = snd (the (umalloc heap_grants 1 100 heap_start))"
definition heap2 :: umem where "heap2 = snd (the (umalloc heap_grants 1 50 heap1))"
definition heap3 :: umem where "heap3 = the (ufree 4085 heap2)"
definition heap4 :: umem where "heap4 = the (ufree 4077 heap3)"

lemmas heap_eval = heap1_def heap2_def heap3_def heap4_def heap_start_def umalloc_def units_def HEADER_def u32_def Let_def malloc_loop.simps carve_def
  morecore_def sbrk_def heap_grants_def set_hptr_def set_hsize_def ufree_def free_pos.simps join_next_def join_prev_def

lemma heap_run:
  "umalloc heap_grants 1 100 heap_start = Some (Some 4085, heap1)" "umalloc heap_grants 1 50 heap1 = Some (Some 4077, heap2)"
  "ufree 4085 heap2 = Some heap3" "ufree 4077 heap3 = Some heap4" "ubrk heap4 = 4098"
proof -
  have e: "r = Some (q, snd (the r))" if "map_option fst r = Some q" for r :: "(nat option \<times> umem) option" and q using that by auto
  have "map_option fst (umalloc heap_grants 1 100 heap_start) = Some (Some 4085)" by (simp add: heap_eval)
  then show "umalloc heap_grants 1 100 heap_start = Some (Some 4085, heap1)" unfolding heap1_def by (rule e)
  have "map_option fst (umalloc heap_grants 1 50 heap1) = Some (Some 4077)" by (simp add: heap_eval)
  then show "umalloc heap_grants 1 50 heap1 = Some (Some 4077, heap2)" unfolding heap2_def by (rule e)
  have "map_option freep (ufree 4085 heap2) \<noteq> None" by (simp add: heap_eval)
  then show "ufree 4085 heap2 = Some heap3" by (auto simp: heap3_def)
  have "map_option freep (ufree 4077 heap3) \<noteq> None" by (simp add: heap_eval)
  then show "ufree 4077 heap3 = Some heap4" by (auto simp: heap4_def)
  show "ubrk heap4 = 4098" by (simp add: heap_eval)
qed

lemma heap_reach:
  "fresh_heap 1 2 heap_start" "(uses heap_grants 1)\<^sup>*\<^sup>* (heap_start, []) (heap3, [(4076, 8)])"
  "(uses heap_grants 1)\<^sup>*\<^sup>* (heap_start, []) (heap4, [])"
proof -
  have u: "units 100 = 14" "units 50 = 8" by (simp_all add: units_ok)
  have 1: "uses heap_grants 1 (heap_start, []) (heap1, [(4084, 14)])" using uses.alloc [OF _ heap_run(1), of "[]"] u by simp
  have 2: "uses heap_grants 1 (heap1, [(4084, 14)]) (heap2, [(4076, 8), (4084, 14)])"
    using uses.alloc [OF _ heap_run(2), of "[(4084, 14)]"] u by simp
  have 3: "uses heap_grants 1 (heap2, [(4076, 8), (4084, 14)]) (heap3, [(4076, 8)])"
    using uses.free [of 4084 14 "[(4076, 8), (4084, 14)]" heap2 heap3] heap_run(3) by simp
  have 4: "uses heap_grants 1 (heap3, [(4076, 8)]) (heap4, [])"
    using uses.free [of 4076 8 "[(4076, 8)]" heap3 heap4] heap_run(4) by simp
  show "fresh_heap 1 2 heap_start" by (simp add: fresh_heap_def heap_start_def)
  show 5: "(uses heap_grants 1)\<^sup>*\<^sup>* (heap_start, []) (heap3, [(4076, 8)])"
    using 1 2 3 by (meson rtranclp.rtrancl_into_rtrancl rtranclp.rtrancl_refl)
  then show "(uses heap_grants 1)\<^sup>*\<^sup>* (heap_start, []) (heap4, [])" using 4 by (rule rtranclp.rtrancl_into_rtrancl)
qed

text \<open>
  C33: In every state a program can bring the allocator to, \<^verbatim>\<open>free\<close> returns for every block the program
  holds, and \<^verbatim>\<open>malloc\<close> returns for every size that a program can have. It hands out a block inside the
  heap, large enough, that overlaps no block held, or it refuses, and then the kernel refused memory and no
  stretch between the blocks held was long enough.
\<close>

theorem user_allocator_sound:
  assumes "fresh_heap b0 h0 s0" "(uses gr b0)\<^sup>*\<^sup>* (s0, []) (s, A)" "nb < 2 ^ 31 - 16"
  shows "(\<forall>x \<in> set A. ufree (fst x + 1) s \<noteq> None) \<and>
    ((\<exists>s'. umalloc gr b0 nb s = Some (None, s') \<and> \<not> gr (int (8 * max (units nb) 4096)) (ubrk s) \<and>
        \<not> (\<exists>q. h0 \<le> q \<and> q + units nb \<le> ubrk s \<and> (\<forall>x \<in> set A. fst x + snd x \<le> q \<or> q + units nb \<le> fst x))) \<or>
     (\<exists>q s'. umalloc gr b0 nb s = Some (Some (q + 1), s') \<and> h0 \<le> q \<and> q + units nb \<le> ubrk s' \<and> nb \<le> 8 * (units nb - 1) \<and>
        (\<forall>x \<in> set A. fst x + snd x \<le> q \<or> q + units nb \<le> fst x)))"
proof -
  note inv = reachable_heap [OF assms(1,2)]
  have "ufree (fst x + 1) s \<noteq> None" if "x \<in> set A" for x using ufree_heap [OF inv, of "fst x" "snd x"] that by auto
  moreover from umalloc_ok [OF inv assms(3), of gr] consider
    s' where "umalloc gr b0 nb s = Some (None, s')" "\<not> gr (int (max (units nb) 4096 * HEADER)) (ubrk s)"
      "\<forall>q. \<not> area (q, units nb) \<subseteq> {h0..<ubrk s} - areas A"
    | q s' where "umalloc gr b0 nb s = Some (Some (q + 1), s')" "heap_inv b0 h0 (s', (q, units nb) # A)" by blast
  then have "(\<exists>s'. umalloc gr b0 nb s = Some (None, s') \<and> \<not> gr (int (8 * max (units nb) 4096)) (ubrk s) \<and>
        \<not> (\<exists>q. h0 \<le> q \<and> q + units nb \<le> ubrk s \<and> (\<forall>x \<in> set A. fst x + snd x \<le> q \<or> q + units nb \<le> fst x))) \<or>
     (\<exists>q s'. umalloc gr b0 nb s = Some (Some (q + 1), s') \<and> h0 \<le> q \<and> q + units nb \<le> ubrk s' \<and> nb \<le> 8 * (units nb - 1) \<and>
        (\<forall>x \<in> set A. fst x + snd x \<le> q \<or> q + units nb \<le> fst x))"
  proof cases
    case 1
    have "False" if q: "h0 \<le> q" "q + units nb \<le> ubrk s" "\<forall>x \<in> set A. fst x + snd x \<le> q \<or> q + units nb \<le> fst x" for q
    proof -
      have "area (q, units nb) \<inter> areas A = {}" using q(3) by (fastforce simp: area_def areas_def)
      moreover have "area (q, units nb) \<subseteq> {h0..<ubrk s}" using q(1,2) by (auto simp: area_def)
      ultimately have "area (q, units nb) \<subseteq> {h0..<ubrk s} - areas A" by blast
      then show False using 1(3) by blast
    qed
    then show ?thesis using 1(1,2) by (auto simp: HEADER_def mult.commute)
  next
    case 2
    have h: "held s' ((q, units nb) # A)" using 2(2) by (simp add: heap_inv_def)
    then have d: "area (q, units nb) \<inter> area x = {}" "0 < snd x" if "x \<in> set A" for x using that by (auto simp: held_def)
    have out: "fst x + snd x \<le> q \<or> q + units nb \<le> fst x" if "x \<in> set A" for x
      using area_apart [OF d(1) [OF that] _ d(2) [OF that]] units_ok(2) [OF assms(3)] by auto
    have "area (q, units nb) \<subseteq> {h0..<ubrk s'}" using 2(2) by (auto simp: heap_inv_def split: option.splits)
    then have "h0 \<le> q \<and> q + units nb \<le> ubrk s'" using units_ok(2) [OF assms(3)] by (simp add: area_def)
    then show ?thesis using 2(1) out units_ok(4) [OF assms(3)] by blast
  qed
  ultimately show ?thesis by blast
qed

lemma user_allocator_sound_witness:
  "ufree 4077 heap3 \<noteq> None \<and> (\<exists>q s'. umalloc heap_grants 1 200 heap3 = Some (Some (q + 1), s') \<and> q + 26 \<le> ubrk s' \<and> (4084 \<le> q \<or> q + 26 \<le> 4076))"
proof -
  have u: "units 200 = 26" by (simp add: units_ok)
  show ?thesis using user_allocator_sound [OF heap_reach(1,2), of 200] unfolding u by (auto simp: heap_grants_def)
qed

text \<open>
  C34: When a program has given back every block, in whatever order, the free list is one block: all the
  memory the allocator ever got from the kernel.
\<close>

theorem user_free_coalesces:
  assumes "fresh_heap b0 h0 s0" "(uses gr b0)\<^sup>*\<^sup>* (s0, []) (s, [])" "h0 < ubrk s"
  shows "hptr s b0 = h0 \<and> hsize s h0 = ubrk s - h0 \<and> hptr s h0 = b0 \<and> freep s \<in> {Some b0, Some h0}"
proof -
  note inv = reachable_heap [OF assms(1,2)]
  have "freep s \<noteq> None" using inv assms(3) by (cases "freep s") (auto simp: heap_inv_def)
  then obtain fs where fs: "free_list b0 s fs" "areas fs = {h0..<ubrk s}" using inv by (auto simp: heap_inv_def)
  have "fs = [(h0, ubrk s - h0)]"
  proof (rule one_block)
    show "areas fs = area (h0, ubrk s - h0)" using fs(2) assms(3) by (simp add: area_def)
  qed (use fs(1) assms(3) in \<open>auto simp: free_list_def\<close>)
  then show ?thesis using fs(1) by (auto simp: free_list_def ring_def)
qed

lemma user_free_coalesces_witness: "hptr heap4 1 = 2 \<and> hsize heap4 2 = 4096 \<and> hptr heap4 2 = 1"
  using user_free_coalesces [OF heap_reach(1,3)] heap_run(5) by simp

end
