(* ===== verification/Mkfs.thy ===== *)
theory Mkfs
  imports FsAlloc
begin

text \<open>
  The program that builds the file system image on the host (\<^verbatim>\<open>mkfs.c\<close>). The image is a map from sectors to
  blocks and its length; \<open>Panic\<close> is an exit with an error: a failed assertion, a file that does not open, a
  read past the end of the image. A file to copy is its name and the pieces the host's \<^verbatim>\<open>read\<close> returns, or
  no pieces when it does not open. The host is little-endian.
\<close>

section \<open>State\<close>

definition NINODES :: nat where "NINODES = 200"
definition nbitmap :: nat where "nbitmap = FSSIZE div (BSIZE * 8) + 1"
definition ninodeblocks :: nat where "ninodeblocks = NINODES div IPB + 1"
definition nlog :: nat where "nlog = LOGSIZE"
definition nmeta :: nat where "nmeta = 2 + nlog + ninodeblocks + nbitmap"
definition nblocks :: nat where "nblocks = FSSIZE - nmeta"

record dinode =
  d_type :: nat
  d_major :: nat
  d_minor :: nat
  d_nlink :: nat
  d_size :: nat
  d_addrs :: "nat \<Rightarrow> nat"

record mkimg =
  img :: "nat \<Rightarrow> block"
  img_len :: nat
  mk_sb :: superblock
  freeinode :: nat
  freeblock :: nat

type_synonym 'a mk = "(mkimg, 'a) kmon"

type_synonym hostfile = "byte list \<times> byte list list option"

text \<open>The conversions to the byte order of the disk, which a little-endian host reads back as the value.\<close>

definition xshort :: "nat \<Rightarrow> nat" where
  "xshort x = x mod 256 + 256 * (x div 256 mod 256)"

definition xint :: "nat \<Rightarrow> nat" where
  "xint x = x mod 256 + 256 * (x div 256 mod 256) + 65536 * (x div 65536 mod 256) + 16777216 * (x div 16777216 mod 256)"

section \<open>Sectors\<close>

definition mk_sector :: "nat \<Rightarrow> nat" where
  "mk_sector sec = u32 (sec * BSIZE) div BSIZE"

definition wsect :: "nat \<Rightarrow> block \<Rightarrow> unit mk" where
  "wsect sec b = kmod (\<lambda>s. s\<lparr>img := (img s)(mk_sector sec := b), img_len := max (img_len s) (mk_sector sec + 1)\<rparr>)"

definition rsect :: "nat \<Rightarrow> block mk" where
  "rsect sec = (\<lambda>s. if mk_sector sec < img_len s then Done (img s (mk_sector sec)) s else Panic ''read'')"

section \<open>Inodes\<close>

definition put_dinode :: "dinode \<Rightarrow> nat \<Rightarrow> block \<Rightarrow> block" where
  "put_dinode d k b = fold (\<lambda>j b. put32 b (k + 12 + 4 * j) (d_addrs d j)) [0..<NDIRECT + 1]
     (put32 (put16 (put16 (put16 (put16 b k (d_type d)) (k + 2) (d_major d)) (k + 4) (d_minor d)) (k + 6) (d_nlink d)) (k + 8) (d_size d))"

definition get_dinode :: "block \<Rightarrow> nat \<Rightarrow> dinode" where
  "get_dinode b k = \<lparr>d_type = le16 (rd b) k, d_major = le16 (rd b) (k + 2), d_minor = le16 (rd b) (k + 4), d_nlink = le16 (rd b) (k + 6),
     d_size = le32 (rd b) (k + 8), d_addrs = (\<lambda>j. if j \<le> NDIRECT then le32 (rd b) (k + 12 + 4 * j) else 0)\<rparr>"

definition winode :: "nat \<Rightarrow> dinode \<Rightarrow> unit mk" where
  "winode inum ip = kbind (kget mk_sb) (\<lambda>sb. let bn = IBLOCK inum sb in
     kbind (rsect bn) (\<lambda>buf. wsect bn (put_dinode ip (dinode_off inum) buf)))"

definition rinode :: "nat \<Rightarrow> dinode mk" where
  "rinode inum = kbind (kget mk_sb) (\<lambda>sb. kbind (rsect (IBLOCK inum sb)) (\<lambda>buf. kret (get_dinode buf (dinode_off inum))))"

definition zero_dinode :: dinode where
  "zero_dinode = \<lparr>d_type = 0, d_major = 0, d_minor = 0, d_nlink = 0, d_size = 0, d_addrs = \<lambda>_. 0\<rparr>"

definition mk_ialloc :: "nat \<Rightarrow> nat mk" where
  "mk_ialloc type = kbind (kget freeinode) (\<lambda>inum. kseq (kmod (\<lambda>s. s\<lparr>freeinode := u32 (freeinode s + 1)\<rparr>))
     (kseq (winode inum (zero_dinode\<lparr>d_type := xshort type, d_nlink := xshort 1, d_size := xint 0\<rparr>)) (kret inum)))"

definition mk_balloc :: "nat \<Rightarrow> unit mk" where
  "mk_balloc used = (if \<not> used < BSIZE * 8 then kpanic ''used < BSIZE*8''
     else kbind (kget mk_sb) (\<lambda>sb. wsect (sb_bmapstart sb) (fold set_map_bit [0..<used] zero_block)))"

section \<open>Appending\<close>

definition next_block :: "nat mk" where
  "next_block = (\<lambda>s. Done (freeblock s) (s\<lparr>freeblock := u32 (freeblock s + 1)\<rparr>))"

text \<open>The block of the file at index \<open>fbn\<close>, taken from the free ones when there is none yet.\<close>

definition direct_block :: "nat \<Rightarrow> dinode \<Rightarrow> dinode mk" where
  "direct_block j din = (if xint (d_addrs din j) = 0
     then kbind next_block (\<lambda>b. kret (din\<lparr>d_addrs := (d_addrs din)(j := xint b)\<rparr>)) else kret din)"

definition indirect_block :: "nat \<Rightarrow> nat \<Rightarrow> nat mk" where
  "indirect_block ind j = kbind (rsect ind) (\<lambda>indirect. if le32 (rd indirect) (4 * j) = 0
     then kbind next_block (\<lambda>b. kseq (wsect ind (put32 indirect (4 * j) (xint b))) (kret (xint (xint b))))
     else kret (xint (le32 (rd indirect) (4 * j))))"

definition file_block :: "nat \<Rightarrow> dinode \<Rightarrow> (nat \<times> dinode) mk" where
  "file_block fbn din = (if fbn < NDIRECT then kbind (direct_block fbn din) (\<lambda>din. kret (xint (d_addrs din fbn), din))
     else kbind (direct_block NDIRECT din) (\<lambda>din. kbind (indirect_block (xint (d_addrs din NDIRECT)) (fbn - NDIRECT)) (\<lambda>x. kret (x, din))))"

function iappend_loop :: "nat \<Rightarrow> byte list \<Rightarrow> dinode \<Rightarrow> (nat \<times> dinode) mk" where
  "iappend_loop off bs din = (if bs = [] then kret (off, din)
     else if \<not> off div BSIZE < MAXFILE then kpanic ''fbn < MAXFILE''
     else kbind (file_block (off div BSIZE) din) (\<lambda>(x, din). let n1 = span off (length bs) in
       kbind (rsect x) (\<lambda>buf. kseq (wsect x (put_bytes (off - off div BSIZE * BSIZE) (take n1 bs) buf))
         (iappend_loop (u32 (off + n1)) (drop n1 bs) din))))"
  by auto
termination
  by (relation "measure (\<lambda>(_, bs, _). length bs)") (use span_pos in \<open>auto simp: diff_less\<close>)

declare iappend_loop.simps [simp del]

definition iappend :: "nat \<Rightarrow> byte list \<Rightarrow> unit mk" where
  "iappend inum bs = kbind (rinode inum) (\<lambda>din. kbind (iappend_loop (xint (d_size din)) bs din) (\<lambda>(off, din).
     winode inum (din\<lparr>d_size := xint off\<rparr>)))"

section \<open>The program\<close>

definition mk_dirent :: "nat \<Rightarrow> byte list \<Rightarrow> byte list" where
  "mk_dirent inum name = [of_nat (xshort inum), of_nat (xshort inum div 256)] @ take DIRSIZ (name @ replicate DIRSIZ 0)"

definition strip :: "byte list \<Rightarrow> byte list" where
  "strip name = (if name \<noteq> [] \<and> hd name = 95 then tl name else name)"

definition mk_superblock :: superblock where
  "mk_superblock = \<lparr>sb_size = xint FSSIZE, sb_nblocks = xint nblocks, sb_ninodes = xint NINODES, sb_nlog = xint nlog,
     sb_logstart = xint 2, sb_inodestart = xint (2 + nlog), sb_bmapstart = xint (2 + nlog + ninodeblocks)\<rparr>"

definition encode_sb :: "superblock \<Rightarrow> block \<Rightarrow> block" where
  "encode_sb sp b = put32 (put32 (put32 (put32 (put32 (put32 (put32 b 0 (sb_size sp)) 4 (sb_nblocks sp)) 8 (sb_ninodes sp)) 12 (sb_nlog sp))
     16 (sb_logstart sp)) 20 (sb_inodestart sp)) 24 (sb_bmapstart sp)"

definition add_file :: "nat \<Rightarrow> hostfile \<Rightarrow> unit mk" where
  "add_file rootino = (\<lambda>(name, pieces). if slash \<in> set name then kpanic ''index(argv[i], '/') == 0''
     else case pieces of None \<Rightarrow> kpanic ''open'' | Some cs \<Rightarrow>
       kbind (mk_ialloc 2) (\<lambda>inum. kseq (iappend rootino (mk_dirent inum (strip name))) (kfor cs (iappend inum))))"

definition fix_size :: "nat \<Rightarrow> unit mk" where
  "fix_size inum = kbind (rinode inum) (\<lambda>din. let off = xint (d_size din); off = u32 ((off div BSIZE + 1) * BSIZE) in
     winode inum (din\<lparr>d_size := xint off\<rparr>))"

text \<open>\<open>opens\<close> says whether the image opens; \<open>None\<close> is a call without arguments.\<close>

definition mkfs :: "bool option \<Rightarrow> hostfile list \<Rightarrow> unit mk" where
  "mkfs opens files = (case opens of None \<Rightarrow> kpanic ''Usage: mkfs fs.img files...'' | Some False \<Rightarrow> kpanic ''open'' | Some True \<Rightarrow>
     kseq (kmod (\<lambda>s. s\<lparr>mk_sb := mk_superblock, freeblock := nmeta\<rparr>))
     (kseq (kfor [0..<FSSIZE] (\<lambda>i. wsect i zero_block))
     (kseq (wsect 1 (encode_sb mk_superblock zero_block))
     (kbind (mk_ialloc 1) (\<lambda>rootino. if rootino \<noteq> ROOTINO then kpanic ''rootino == ROOTINO'' else
      kseq (iappend rootino (mk_dirent rootino [46]))
      (kseq (iappend rootino (mk_dirent rootino [46, 46]))
      (kseq (kfor files (add_file rootino))
      (kseq (fix_size rootino)
      (kbind (kget freeblock) mk_balloc)))))))))"

definition mk_start :: mkimg where
  "mk_start = \<lparr>img = \<lambda>_. zero_block, img_len = 0, mk_sb = \<lparr>sb_size = 0, sb_nblocks = 0, sb_ninodes = 0, sb_nlog = 0, sb_logstart = 0,
     sb_inodestart = 0, sb_bmapstart = 0\<rparr>, freeinode = 1, freeblock = 0\<rparr>"

end
