(* ===== verification/MkfsProps.thy ===== *)
theory MkfsProps
  imports Mkfs FsDir
begin

text \<open>
  What \<^verbatim>\<open>mkfs\<close> builds: the blocks of the files are disjoint and marked in the bit map, and the kernel's file
  system reads back from the image the files and the directory that went in.
\<close>

section \<open>Conversions, sectors, inodes\<close>

lemma xint_id [simp]: "x < 2 ^ 32 \<Longrightarrow> xint x = x"
proof -
  assume "x < 2 ^ 32"
  then have "x div 16777216 mod 256 = x div 16777216" by simp
  then show ?thesis using bytes32 [of x] by (simp add: xint_def)
qed

lemma xshort_id [simp]: "x < 65536 \<Longrightarrow> xshort x = x"
  by (simp add: xshort_def)

lemma mk_sector_id: "n < 2 ^ 23 \<Longrightarrow> mk_sector n = n"
  by (simp add: mk_sector_def BSIZE_num)

lemma wp_rsect: "sec < img_len s \<Longrightarrow> img_len s \<le> FSSIZE \<Longrightarrow> wp (rsect sec) Q s = Q (img s sec) s"
  by (simp add: wp_def rsect_def mk_sector_id FSSIZE_def)

lemma wp_wsect: "sec < img_len s \<Longrightarrow> img_len s \<le> FSSIZE \<Longrightarrow> wp (wsect sec b) Q s = Q () (s\<lparr>img := (img s)(sec := b)\<rparr>)"
  by (simp add: wsect_def mk_sector_id FSSIZE_def max_absorb1)

definition dino_fits :: "dinode \<Rightarrow> bool" where
  "dino_fits d \<longleftrightarrow> d_type d < 65536 \<and> d_major d < 65536 \<and> d_minor d < 65536 \<and> d_nlink d < 65536 \<and> d_size d < 2 ^ 32 \<and>
     (\<forall>j \<le> NDIRECT. d_addrs d j < 2 ^ 32) \<and> (\<forall>j > NDIRECT. d_addrs d j = 0)"

lemma put_dinode_other: "x < k \<or> k + 64 \<le> x \<Longrightarrow> rd (put_dinode d k b) x = rd b x"
  using fold_put32_out [of x "k + 12" "NDIRECT + 1"]
  by (auto simp: put_dinode_def rd_put32 rd_put16 NDIRECT_num)

lemma get_put_dinode:
  assumes "dino_fits d" "k + 64 \<le> BSIZE"
  shows "get_dinode (put_dinode d k b) k = d"
proof -
  let ?h = "put32 (put16 (put16 (put16 (put16 b k (d_type d)) (k + 2) (d_major d)) (k + 4) (d_minor d)) (k + 6) (d_nlink d)) (k + 8) (d_size d)"
  let ?e = "fold (\<lambda>j b. put32 b (k + 12 + 4 * j) (d_addrs d j)) [0..<NDIRECT + 1] ?h"
  note lo = fold_put32_le16 [where k = "k + 12" and g = "d_addrs d" and n = "NDIRECT + 1" and d = ?h]
  have "le16 (rd ?e) k = d_type d" "le16 (rd ?e) (k + 2) = d_major d" "le16 (rd ?e) (k + 4) = d_minor d" "le16 (rd ?e) (k + 6) = d_nlink d"
    using assms by (simp_all only: lo) (simp_all add: le16_put32 le16_put16_other le16_put16_same dino_fits_def)
  moreover have "le32 (rd ?e) (k + 8) = d_size d"
    using assms fold_put32_le32 [of "k + 8" "k + 12" "d_addrs d" "NDIRECT + 1" ?h] by (simp add: le32_put32_same dino_fits_def)
  moreover have "(\<lambda>j. if j \<le> NDIRECT then le32 (rd ?e) (k + 12 + 4 * j) else 0) = d_addrs d"
  proof
    fix j
    show "(if j \<le> NDIRECT then le32 (rd ?e) (k + 12 + 4 * j) else 0) = d_addrs d j"
    proof (cases "j \<le> NDIRECT")
      case True
      then show ?thesis using assms fold_put32_in [of j "NDIRECT + 1" "k + 12" "d_addrs d" ?h] by (simp add: dino_fits_def sizes)
    qed (use assms(1) in \<open>simp add: dino_fits_def\<close>)
  qed
  ultimately have "get_dinode ?e k = \<lparr>d_type = d_type d, d_major = d_major d, d_minor = d_minor d, d_nlink = d_nlink d, d_size = d_size d, d_addrs = d_addrs d\<rparr>"
    by (simp only: get_dinode_def)
  then show ?thesis unfolding put_dinode_def by simp
qed

lemma get_dinode_cong: "(\<And>x. x < 64 \<Longrightarrow> rd a (k + x) = rd b (k + x)) \<Longrightarrow> get_dinode a k = get_dinode b k"
proof -
  assume a: "\<And>x. x < 64 \<Longrightarrow> rd a (k + x) = rd b (k + x)"
  have b: "rd a (k + x + y) = rd b (k + x + y)" if "x + y < 64" for x y using a [of "x + y"] that by (simp add: add.assoc)
  have 1: "le16 (rd a) (k + x) = le16 (rd b) (k + x)" if "x + 1 < 64" for x
    using that b [of x 0] b [of x 1] by (simp add: le16_def)
  have 4: "le32 (rd a) (k + x) = le32 (rd b) (k + x)" if "x + 3 < 64" for x
    using that b [of x 0] b [of x 1] b [of x 2] b [of x 3] by (simp add: le32_def)
  have "le32 (rd a) (k + 12 + 4 * j) = le32 (rd b) (k + 12 + 4 * j)" if "j \<le> NDIRECT" for j
    using 4 [of "12 + 4 * j"] that by (simp add: sizes add.assoc)
  then show ?thesis using 1 [of 0] 1 [of 2] 1 [of 4] 1 [of 6] 4 [of 8] by (auto simp: get_dinode_def)
qed

text \<open>The image in use: its superblock, its length, and nothing in the blocks not given out.\<close>

definition mk_ok :: "mkimg \<Rightarrow> bool" where
  "mk_ok m \<longleftrightarrow> mk_sb m = mk_superblock \<and> img_len m = FSSIZE \<and> nmeta \<le> freeblock m \<and> freeblock m \<le> FSSIZE \<and>
     (\<forall>b \<ge> freeblock m. img m b = zero_block)"

definition ino_block :: "nat \<Rightarrow> nat" where
  "ino_block i = i div 8 + 32"

definition ino :: "mkimg \<Rightarrow> nat \<Rightarrow> dinode" where
  "ino m i = get_dinode (img m (ino_block i)) (dinode_off i)"

lemma mk_consts: "nmeta = 59" "FSSIZE = 1000" "nlog = 30" "ninodeblocks = 26" "nblocks = 941"
  "mk_superblock = \<lparr>sb_size = 1000, sb_nblocks = 941, sb_ninodes = 200, sb_nlog = 30, sb_logstart = 2, sb_inodestart = 32, sb_bmapstart = 58\<rparr>"
  by (simp_all add: mk_superblock_def nmeta_def FSSIZE_def NINODES_def nlog_def ninodeblocks_def nbitmap_def nblocks_def sizes)

lemma ino_block_sb: "i < 208 \<Longrightarrow> IBLOCK i mk_superblock = ino_block i" "i < 208 \<Longrightarrow> ino_block i < 58"
  by (simp_all add: IBLOCK_def ino_block_def mk_consts IPB_num)

lemma dinode_off_mod: "dinode_off i = 64 * (i mod 8)"
  by (simp add: dinode_off_def IPB_num)

lemma ino_other:
  assumes "j \<noteq> i" "img m' = (img m)(ino_block i := put_dinode d (dinode_off i) (img m (ino_block i)))"
  shows "ino m' j = ino m j"
proof (cases "ino_block j = ino_block i")
  case True
  then have "j mod 8 \<noteq> i mod 8" using assms(1) by (metis add_right_cancel div_mult_mod_eq ino_block_def)
  then have "dinode_off i + 64 \<le> dinode_off j \<or> dinode_off j + 64 \<le> dinode_off i" unfolding dinode_off_mod by arith
  then have "rd (put_dinode d (dinode_off i) (img m (ino_block i))) (dinode_off j + x) = rd (img m (ino_block j)) (dinode_off j + x)" if "x < 64" for x
    using put_dinode_other [of "dinode_off j + x" "dinode_off i"] that True by auto
  then show ?thesis unfolding ino_def assms(2) True by (auto intro: get_dinode_cong)
qed (simp add: ino_def assms(2))

lemma wp_rinode: "mk_ok m \<Longrightarrow> i < 208 \<Longrightarrow> wp (rinode i) Q m = Q (ino m i) m"
  using ino_block_sb [of i] by (simp add: rinode_def mk_ok_def wp_rsect mk_consts(2) ino_def)

lemma wp_winode:
  assumes "mk_ok m" "i < 208"
  shows "wp (winode i d) Q m = Q () (m\<lparr>img := (img m)(ino_block i := put_dinode d (dinode_off i) (img m (ino_block i)))\<rparr>)"
  using assms ino_block_sb [of i] by (simp add: winode_def mk_ok_def wp_rsect wp_wsect mk_consts(2) Let_def)

section \<open>The blocks of one file\<close>

definition haddr :: "mkimg \<Rightarrow> dinode \<Rightarrow> nat \<Rightarrow> nat" where
  "haddr m d b = (if b < NDIRECT then d_addrs d b else le32 (rd (img m (d_addrs d NDIRECT))) (4 * (b - NDIRECT)))"

definition blks :: "mkimg \<Rightarrow> dinode \<Rightarrow> nat \<Rightarrow> nat list" where
  "blks m d k = map (haddr m d) [0..<k] @ (if NDIRECT < k then [d_addrs d NDIRECT] else [])"

definition nblk :: "nat \<Rightarrow> nat" where
  "nblk n = (n + BSIZE - 1) div BSIZE"

definition nslots :: "nat \<Rightarrow> nat" where
  "nslots k = k + (if NDIRECT < k then 1 else 0)"

text \<open>The first \<open>k\<close> blocks of the file are there, each its own, and no more.\<close>

definition fmapped :: "mkimg \<Rightarrow> dinode \<Rightarrow> nat \<Rightarrow> bool" where
  "fmapped m d k \<longleftrightarrow> k \<le> MAXFILE \<and> distinct (blks m d k) \<and> set (blks m d k) \<subseteq> {nmeta..<freeblock m} \<and>
     (\<forall>b. k \<le> b \<longrightarrow> b < NDIRECT \<longrightarrow> d_addrs d b = 0) \<and> (k \<le> NDIRECT \<longrightarrow> d_addrs d NDIRECT = 0) \<and> (\<forall>b > NDIRECT. d_addrs d b = 0) \<and>
     (NDIRECT < k \<longrightarrow> (\<forall>b. k \<le> b \<longrightarrow> b < MAXFILE \<longrightarrow> haddr m d b = 0))"

definition ext :: "mkimg \<Rightarrow> dinode \<Rightarrow> nat \<Rightarrow> mkimg \<Rightarrow> dinode \<Rightarrow> nat \<Rightarrow> bool" where
  "ext m d k m' d' k' \<longleftrightarrow> k \<le> k' \<and> mk_ok m' \<and> fmapped m' d' k' \<and> freeinode m' = freeinode m \<and> d' = d\<lparr>d_addrs := d_addrs d'\<rparr> \<and>
     freeblock m' + nslots k = freeblock m + nslots k' \<and> (\<forall>b < freeblock m. b \<notin> set (blks m d k) \<longrightarrow> img m' b = img m b) \<and>
     set (blks m' d' k') \<subseteq> set (blks m d k) \<union> {freeblock m..<freeblock m'} \<and> (\<forall>b < k. haddr m' d' b = haddr m d b)"

lemma nslots_mono: "k \<le> k' \<Longrightarrow> nslots k \<le> nslots k'"
  by (simp add: nslots_def)

lemma length_blks [simp]: "length (blks m d k) = nslots k"
  by (simp add: blks_def nslots_def)

lemma haddr_in: "b < k \<Longrightarrow> haddr m d b \<in> set (blks m d k)"
  by (simp add: blks_def)

lemma ind_in: "NDIRECT < k \<Longrightarrow> d_addrs d NDIRECT \<in> set (blks m d k)"
  by (simp add: blks_def)

lemma haddr_ne_ind: "fmapped m d k \<Longrightarrow> b < k \<Longrightarrow> NDIRECT < k \<Longrightarrow> haddr m d b \<noteq> d_addrs d NDIRECT"
  unfolding fmapped_def blks_def by (simp add: image_iff) (metis atLeastLessThan_iff le0)

lemma haddr_pos: "fmapped m d k \<Longrightarrow> b < k \<Longrightarrow> nmeta \<le> haddr m d b \<and> haddr m d b < freeblock m"
  using haddr_in [of b k m d] unfolding fmapped_def by auto

lemma ind_pos: "fmapped m d k \<Longrightarrow> NDIRECT < k \<Longrightarrow> nmeta \<le> d_addrs d NDIRECT \<and> d_addrs d NDIRECT < freeblock m"
  using ind_in [of k d m] unfolding fmapped_def by auto

lemma ext_refl: "mk_ok m \<Longrightarrow> fmapped m d k \<Longrightarrow> ext m d k m d k"
  by (simp add: ext_def)

lemma ext_trans:
  assumes "ext m d k m1 d1 k1" "ext m1 d1 k1 m2 d2 k2"
  shows "ext m d k m2 d2 k2"
proof -
  have k: "nslots k \<le> nslots k1" "nslots k1 \<le> nslots k2" using assms nslots_mono by (auto simp: ext_def)
  then have f: "freeblock m \<le> freeblock m1" "freeblock m1 \<le> freeblock m2" using assms by (auto simp: ext_def)
  have "img m2 b = img m b" if "b < freeblock m" "b \<notin> set (blks m d k)" for b
  proof -
    have "b \<notin> set (blks m1 d1 k1)" using assms(1) that by (auto simp: ext_def)
    then show ?thesis using assms that f by (simp add: ext_def)
  qed
  moreover have "set (blks m2 d2 k2) \<subseteq> set (blks m d k) \<union> {freeblock m..<freeblock m2}" using assms f by (fastforce simp: ext_def)
  moreover have "d2 = d\<lparr>d_addrs := d_addrs d2\<rparr>" using assms by (metis dinode.surjective dinode.update_convs(6) ext_def)
  moreover have "\<forall>b < k. haddr m2 d2 b = haddr m d b" using assms by (auto simp: ext_def)
  ultimately show ?thesis using assms k by (simp add: ext_def)
qed

lemma wp_next_block: "freeblock s < FSSIZE \<Longrightarrow> wp next_block Q s = Q (freeblock s) (s\<lparr>freeblock := freeblock s + 1\<rparr>)"
  by (simp add: wp_def next_block_def FSSIZE_def)

lemma small: "mk_ok m \<Longrightarrow> freeblock m \<le> 1000" "fmapped m d k \<Longrightarrow> mk_ok m \<Longrightarrow> b < k \<Longrightarrow> haddr m d b < 1000"
  using haddr_pos [of m d k b] by (auto simp: mk_ok_def mk_consts(2))

lemma file_block_old:
  assumes "mk_ok m" "fmapped m d k" "b < k"
  shows "wp (file_block b d) Q m = Q (haddr m d b, d) m"
proof (cases "b < NDIRECT")
  case True
  then have "haddr m d b = d_addrs d b" by (simp add: haddr_def)
  then show ?thesis using True haddr_pos [OF assms(2,3)] small(2) [OF assms(2,1,3)] by (simp add: file_block_def direct_block_def mk_consts(1))
next
  case False
  then have k: "NDIRECT < k" using assms(3) by simp
  have i: "d_addrs d NDIRECT \<noteq> 0" "d_addrs d NDIRECT < 1000" using ind_pos [OF assms(2) k] small(1) [OF assms(1)] by (simp_all add: mk_consts(1))
  have h: "haddr m d b = le32 (rd (img m (d_addrs d NDIRECT))) (4 * (b - NDIRECT))" "haddr m d b \<noteq> 0"
    using False haddr_pos [OF assms(2,3)] by (simp_all add: haddr_def mk_consts(1))
  show ?thesis using False i h small(2) [OF assms(2,1,3)] assms(1)
    by (simp add: file_block_def direct_block_def indirect_block_def wp_rsect mk_ok_def mk_consts(2))
qed

text \<open>The next block, with the indirect block when it is the first behind the direct ones.\<close>

lemma extI:
  assumes "mk_ok m" "fmapped m d k" "k < MAXFILE" "mk_ok m'" "freeinode m' = freeinode m" "d' = d\<lparr>d_addrs := d_addrs d'\<rparr>"
    "freeblock m' + nslots k = freeblock m + nslots (k + 1)" "\<forall>b < freeblock m. b \<notin> set (blks m d k) \<longrightarrow> img m' b = img m b"
    "\<forall>b < k. haddr m' d' b = haddr m d b" "haddr m' d' k = x" "freeblock m \<le> x" "x < freeblock m'"
    "NDIRECT < k \<Longrightarrow> d_addrs d' NDIRECT = d_addrs d NDIRECT"
    "k = NDIRECT \<Longrightarrow> freeblock m \<le> d_addrs d' NDIRECT \<and> d_addrs d' NDIRECT < freeblock m' \<and> d_addrs d' NDIRECT \<noteq> x"
    "\<forall>b. k + 1 \<le> b \<longrightarrow> b < NDIRECT \<longrightarrow> d_addrs d' b = 0" "k + 1 \<le> NDIRECT \<longrightarrow> d_addrs d' NDIRECT = 0" "\<forall>b > NDIRECT. d_addrs d' b = 0"
    "NDIRECT < k + 1 \<longrightarrow> (\<forall>b. k + 1 \<le> b \<longrightarrow> b < MAXFILE \<longrightarrow> haddr m' d' b = 0)"
  shows "ext m d k m' d' (k + 1)"
proof -
  have old: "map (haddr m' d') [0..<k] = map (haddr m d) [0..<k]" using assms(9) by simp
  have b: "blks m' d' (k + 1) = map (haddr m d) [0..<k] @ [x] @ (if NDIRECT \<le> k then [d_addrs d' NDIRECT] else [])"
    using old assms(10) by (simp add: blks_def)
  have lt: "y < freeblock m" "nmeta \<le> y" if "y \<in> set (blks m d k)" for y using assms(2) that by (auto simp: fmapped_def)
  have f: "freeblock m \<le> freeblock m'" "nmeta \<le> freeblock m" using assms(1,11,12) by (simp_all add: mk_ok_def)
  have "distinct (blks m' d' (k + 1)) \<and> set (blks m' d' (k + 1)) \<subseteq> set (blks m d k) \<union> {freeblock m..<freeblock m'}"
  proof (cases "NDIRECT < k")
    case True
    then have e: "blks m d k = map (haddr m d) [0..<k] @ [d_addrs d NDIRECT]" by (simp add: blks_def)
    have "x \<notin> set (blks m d k)" using lt assms(11) by fastforce
    then show ?thesis using True b e assms(2,11-13) by (auto simp: fmapped_def)
  next
    case False
    then have e: "blks m d k = map (haddr m d) [0..<k]" by (simp add: blks_def)
    have "x \<notin> set (blks m d k)" using lt assms(11) by fastforce
    moreover have "d_addrs d' NDIRECT \<notin> set (blks m d k)" if "k = NDIRECT" using lt assms(14) that by fastforce
    ultimately show ?thesis using False b e assms(2,11,12,14) by (auto simp: fmapped_def)
  qed
  moreover from this have "set (blks m' d' (k + 1)) \<subseteq> {nmeta..<freeblock m'}" using lt f by fastforce
  ultimately have "fmapped m' d' (k + 1)" using assms(3,15-18) by (simp add: fmapped_def)
  then show ?thesis using assms(4-9) \<open>distinct _ \<and> _\<close> by (simp add: ext_def)
qed

lemma le32_zero [simp]: "le32 (rd zero_block) k = 0"
  by (simp add: le32_def)

lemma file_block_new:
  assumes "mk_ok m" "fmapped m d k" "k < MAXFILE" "freeblock m + nslots (k + 1) \<le> FSSIZE + nslots k"
  shows "wp (file_block k d) (\<lambda>(x, d') m'. ext m d k m' d' (k + 1) \<and> x = haddr m' d' k \<and>
    (\<forall>b < k. img m' (haddr m d b) = img m (haddr m d b))) m"
proof -
  have f: "freeblock m < FSSIZE" "img_len m = FSSIZE" "\<forall>b \<ge> freeblock m. img m b = zero_block" "nmeta \<le> freeblock m"
    using assms(1,4) by (auto simp: mk_ok_def nslots_def split: if_splits)
  have f32: "freeblock m < 1000" using f(1) by (simp add: mk_consts(2))
  have z: "\<forall>b. k \<le> b \<longrightarrow> b < NDIRECT \<longrightarrow> d_addrs d b = 0" "k \<le> NDIRECT \<longrightarrow> d_addrs d NDIRECT = 0" "\<forall>b > NDIRECT. d_addrs d b = 0"
    using assms(2) by (simp_all add: fmapped_def)
  have hp: "\<forall>b < k. haddr m d b \<noteq> freeblock m" using haddr_pos [OF assms(2)] by fastforce
  consider "k < NDIRECT" | "k = NDIRECT" | "NDIRECT < k" by linarith
  then show ?thesis
  proof cases
    case 1
    let ?d = "d\<lparr>d_addrs := (d_addrs d)(k := freeblock m)\<rparr>" and ?m = "m\<lparr>freeblock := freeblock m + 1\<rparr>"
    have "ext m d k ?m ?d (k + 1)"
      by (rule extI [OF assms(1-3), where x = "freeblock m"]) (use 1 f z assms(1) in \<open>auto simp: mk_ok_def nslots_def haddr_def\<close>)
    moreover have "haddr ?m ?d k = freeblock m" using 1 by (simp add: haddr_def)
    ultimately show ?thesis using 1 z(1) f f32 by (simp add: file_block_def direct_block_def wp_next_block)
  next
    case 2
    let ?b = "freeblock m"
    let ?d = "d\<lparr>d_addrs := (d_addrs d)(NDIRECT := ?b)\<rparr>" and ?m = "m\<lparr>freeblock := ?b + 2, img := (img m)(?b := put32 zero_block 0 (?b + 1))\<rparr>"
    have fb: "?b + 1 < FSSIZE" using assms(4) 2 by (simp add: nslots_def)
    have h: "le32 (rd (put32 zero_block 0 (?b + 1))) (4 * j) = (if j = 0 then ?b + 1 else 0)" if "j < 128" for j
      using f32 by (simp add: le32_put32_same le32_put32_other BSIZE_num)
    have "ext m d k ?m ?d (k + 1)"
    proof (rule extI [OF assms(1-3), where x = "?b + 1"])
      show "haddr ?m ?d k = ?b + 1" using 2 h [of 0] by (simp add: haddr_def)
      show "NDIRECT < k + 1 \<longrightarrow> (\<forall>b. k + 1 \<le> b \<longrightarrow> b < MAXFILE \<longrightarrow> haddr ?m ?d b = 0)"
        using 2 h by (auto simp: haddr_def sizes)
    qed (use 2 f fb z assms(1) in \<open>auto simp: mk_ok_def nslots_def haddr_def\<close>)
    moreover have "haddr ?m ?d k = ?b + 1" using 2 h [of 0] by (simp add: haddr_def)
    ultimately show ?thesis using 2 z(2) f f32 fb hp
      by (simp add: file_block_def direct_block_def indirect_block_def wp_next_block wp_rsect wp_wsect)
  next
    case 3
    let ?b = "freeblock m" and ?i = "d_addrs d NDIRECT" and ?j = "4 * (k - NDIRECT)"
    let ?m = "m\<lparr>freeblock := ?b + 1, img := (img m)(?i := put32 (img m ?i) ?j ?b)\<rparr>"
    have i: "nmeta \<le> ?i" "?i < freeblock m" using ind_pos [OF assms(2) 3] by auto
    have j: "?j + 3 < BSIZE" using 3 assms(3) by (simp add: sizes)
    have hk: "le32 (rd (img m ?i)) ?j = 0" using assms(2,3) 3 by (simp add: fmapped_def haddr_def)
    have h: "haddr ?m d b = (if b = k then ?b else haddr m d b)" for b
    proof (cases "b = k \<or> b < NDIRECT")
      case True
      then show ?thesis using 3 j f32 by (auto simp: haddr_def le32_put32_same)
    next
      case False
      then have "?j + 3 < 4 * (b - NDIRECT) \<or> 4 * (b - NDIRECT) + 3 < ?j" using 3 by arith
      then show ?thesis using False by (simp add: haddr_def le32_put32_other)
    qed
    have "ext m d k ?m d (k + 1)"
    proof (rule extI [OF assms(1-3), where x = ?b])
      show "NDIRECT < k + 1 \<longrightarrow> (\<forall>b. k + 1 \<le> b \<longrightarrow> b < MAXFILE \<longrightarrow> haddr ?m d b = 0)"
        using assms(2) 3 h by (auto simp: fmapped_def)
      show "\<forall>b < ?b. b \<notin> set (blks m d k) \<longrightarrow> img ?m b = img m b" using ind_in [OF 3] by auto
      show "mk_ok ?m" using assms(1) i f by (auto simp: mk_ok_def)
    qed (use 3 h f z in \<open>auto simp: nslots_def\<close>)
    moreover have "haddr ?m d k = ?b" using h [of k] by simp
    ultimately show ?thesis using 3 i f f32 hk haddr_ne_ind [OF assms(2) _ 3]
      by (simp add: file_block_def direct_block_def indirect_block_def wp_next_block wp_rsect wp_wsect mk_consts(1))
  qed
qed

section \<open>Appending\<close>

definition holds_bytes :: "mkimg \<Rightarrow> dinode \<Rightarrow> byte list \<Rightarrow> bool" where
  "holds_bytes m d bs \<longleftrightarrow> (\<forall>off < length bs. rd (img m (haddr m d (off div BSIZE))) (off mod BSIZE) = bs ! off)"

lemma nblk_bound: "off < n \<Longrightarrow> off div BSIZE < nblk n" "nblk n \<le> k \<longleftrightarrow> n \<le> k * BSIZE"
proof -
  have e: "nblk n = (n + 511) div 512" by (simp add: nblk_def BSIZE_num)
  show "off < n \<Longrightarrow> off div BSIZE < nblk n" unfolding e BSIZE_num by linarith
  show "nblk n \<le> k \<longleftrightarrow> n \<le> k * BSIZE" unfolding e BSIZE_num by linarith
qed

text \<open>Writing bytes behind the end, into a block of the file.\<close>

lemma store_piece:
  assumes "mk_ok m" "fmapped m d k" "holds_bytes m d bs" "b < k" "length bs div BSIZE = b" "length bs mod BSIZE + length cs \<le> BSIZE"
    "nblk (length bs) \<le> k"
  defines "x \<equiv> haddr m d b"
  defines "m' \<equiv> m\<lparr>img := (img m)(x := put_bytes (length bs mod BSIZE) cs (img m x))\<rparr>"
  shows "ext m d k m' d k \<and> holds_bytes m' d (bs @ cs)"
proof -
  have x: "nmeta \<le> x" "x < freeblock m" "x \<in> set (blks m d k)" using haddr_pos [OF assms(2,4)] haddr_in [OF assms(4)] by (auto simp: x_def)
  have h: "haddr m' d c = haddr m d c" if "c < NDIRECT \<or> NDIRECT < k" for c
  proof (cases "c < NDIRECT")
    case False
    then have "x \<noteq> d_addrs d NDIRECT" using haddr_ne_ind [OF assms(2,4)] that by (simp add: x_def)
    then show ?thesis using False by (simp add: haddr_def m'_def)
  qed (simp add: haddr_def)
  have hk: "haddr m' d c = haddr m d c" if "c < k" for c using h [of c] that by linarith
  have b: "blks m' d k = blks m d k" unfolding blks_def using hk by simp
  have "fmapped m' d k" using assms(2) b h unfolding fmapped_def by (simp add: m'_def)
  moreover have "mk_ok m'" using assms(1) x(1,2) by (auto simp: mk_ok_def m'_def)
  moreover have "holds_bytes m' d (bs @ cs)"
    unfolding holds_bytes_def
  proof (intro allI impI)
    fix off assume off: "off < length (bs @ cs)"
    have q: "length bs = b * BSIZE + length bs mod BSIZE" using assms(5) by (metis div_mult_mod_eq)
    show "rd (img m' (haddr m' d (off div BSIZE))) (off mod BSIZE) = (bs @ cs) ! off"
    proof (cases "off < length bs")
      case True
      then have c: "off div BSIZE < k" using nblk_bound(1) [of off "length bs"] assms(7) by simp
      have old: "rd (img m (haddr m d (off div BSIZE))) (off mod BSIZE) = bs ! off" using assms(3) True by (simp add: holds_bytes_def)
      have "rd (img m' (haddr m d (off div BSIZE))) (off mod BSIZE) = rd (img m (haddr m d (off div BSIZE))) (off mod BSIZE)"
      proof (cases "haddr m d (off div BSIZE) = x")
        case e: True
        have "off div BSIZE = b"
        proof -
          have "distinct (map (haddr m d) [0..<k])" using assms(2) by (simp add: fmapped_def blks_def)
          then have "inj_on (haddr m d) {0..<k}" by (simp add: distinct_map)
          then show ?thesis using e c assms(4) unfolding x_def by (auto dest: inj_onD)
        qed
        then have "off mod BSIZE < length bs mod BSIZE" using True q by (metis div_mult_mod_eq nat_add_left_cancel_less)
        then show ?thesis using e by (simp add: m'_def put_bytes_def BSIZE_num)
      qed (simp add: m'_def)
      then show ?thesis using True hk [OF c] old by (simp add: nth_append)
    next
      case False
      define r where "r = off - length bs"
      have r: "off = b * BSIZE + (length bs mod BSIZE + r)" "r < length cs" using False off q by (simp_all add: r_def)
      then have "off div BSIZE = b" "off mod BSIZE = length bs mod BSIZE + r" using assms(6) by (simp_all add: BSIZE_num)
      moreover have "(bs @ cs) ! off = cs ! r" using False by (simp add: nth_append r_def)
      moreover have "rd (img m' x) (length bs mod BSIZE + r) = cs ! r" using r(2) assms(6) by (simp add: m'_def put_bytes_def)
      ultimately show ?thesis using hk [OF assms(4)] by (simp add: x_def)
    qed
  qed
  ultimately show ?thesis using x(3) b hk assms(2) unfolding ext_def by (auto simp: m'_def fmapped_def)
qed

lemma span_nblk:
  assumes "0 < n"
  shows "nblk (off + span off n) = off div BSIZE + 1"
proof -
  let ?n = "span off n"
  have s: "0 < ?n" "off mod 512 + ?n \<le> 512" using assms span_pos span_bounds(2) by (simp_all add: BSIZE_num)
  have "(off + ?n + 511) div 512 = off div 512 + 1"
  proof (rule div_nat_eqI)
    define q r where "q = off div 512" and "r = off mod 512"
    then have q: "off = 512 * q + r" by simp
    show "512 * (off div 512 + 1) \<le> off + ?n + 511" unfolding q_def [symmetric] using s(1) q by simp
    show "off + ?n + 511 < 512 * Suc (off div 512 + 1)" unfolding q_def [symmetric] using s(2) q unfolding r_def [symmetric] by simp
  qed
  then show ?thesis by (simp add: nblk_def BSIZE_num)
qed

lemma nblk_mono: "m \<le> n \<Longrightarrow> nblk m \<le> nblk n"
  by (simp add: nblk_def div_le_mono)

lemma nblk_whole: "off div BSIZE < nblk off \<or> nblk off = off div BSIZE"
  unfolding nblk_def BSIZE_num by linarith

lemma file_block_step:
  assumes "mk_ok m" "fmapped m d (nblk off)" "off div BSIZE < MAXFILE" "freeblock m + nslots (off div BSIZE + 1) \<le> FSSIZE + nslots (nblk off)"
  shows "wp (file_block (off div BSIZE) d) (\<lambda>(x, d') m'. ext m d (nblk off) m' d' (off div BSIZE + 1) \<and> x = haddr m' d' (off div BSIZE) \<and>
     (\<forall>b < nblk off. img m' (haddr m d b) = img m (haddr m d b))) m"
proof (cases "off div BSIZE < nblk off")
  case True
  then have "nblk off = off div BSIZE + 1" unfolding nblk_def BSIZE_num by linarith
  then show ?thesis using file_block_old [OF assms(1,2) True] ext_refl [OF assms(1,2)] by simp
next
  case False
  then have k: "nblk off = off div BSIZE" using nblk_whole [of off] by simp
  show ?thesis using file_block_new [OF assms(1,2)] assms(3,4) unfolding k by simp
qed

lemma iappend_loop_ok:
  assumes "mk_ok m" "fmapped m d (nblk (length bs))" "holds_bytes m d bs" "length bs + length cs \<le> MAXFILE * BSIZE"
    "freeblock m + nslots (nblk (length bs + length cs)) \<le> FSSIZE + nslots (nblk (length bs))"
  shows "wp (iappend_loop (length bs) cs d) (\<lambda>(off, d') m'. off = length (bs @ cs) \<and> holds_bytes m' d' (bs @ cs) \<and>
    ext m d (nblk (length bs)) m' d' (nblk (length (bs @ cs)))) m"
  using assms
proof (induction "length cs" arbitrary: m d bs cs rule: less_induct)
  case less
  show ?case
  proof (cases "cs = []")
    case True
    then show ?thesis using less.prems ext_refl by (simp add: iappend_loop.simps)
  next
    case False
    let ?b = "length bs div BSIZE" and ?n = "span (length bs) (length cs)"
    let ?cs1 = "take ?n cs" and ?cs2 = "drop ?n cs" and ?k = "nblk (length bs)"
    have n: "0 < ?n" "?n \<le> length cs" "length bs mod BSIZE + ?n \<le> BSIZE" using False span_pos span_bounds by auto
    have nb: "nblk (length bs + ?n) = ?b + 1" using False by (simp add: span_nblk)
    have b: "?b < MAXFILE" proof -
      have "0 < length cs" using False by simp
      then have "length bs < MAXFILE * BSIZE" using less.prems(4) by linarith
      then show ?thesis by (rule less_mult_imp_div_less)
    qed
    have room: "freeblock m + nslots (?b + 1) \<le> FSSIZE + nslots ?k"
    proof -
      have "?b + 1 \<le> nblk (length bs + length cs)" using nblk_mono [of "length bs + ?n" "length bs + length cs"] n(2) nb by simp
      then show ?thesis using nslots_mono less.prems(5) by (meson add_le_mono1 le_trans nat_add_left_cancel_le)
    qed
    have small: "length bs + ?n < 2 ^ 32" using less.prems(4) n(2) by (simp add: sizes)
    have step: "wp (case r of (x, d1) \<Rightarrow> let n1 = ?n in kbind (rsect x) (\<lambda>buf. kseq (wsect x (put_bytes (length bs - ?b * BSIZE) (take n1 cs) buf))
         (iappend_loop (u32 (length bs + n1)) (drop n1 cs) d1)))
       (\<lambda>(off, d') m'. off = length (bs @ cs) \<and> holds_bytes m' d' (bs @ cs) \<and> ext m d ?k m' d' (nblk (length (bs @ cs)))) m1"
      if r: "case r of (x, d1) \<Rightarrow> ext m d ?k m1 d1 (?b + 1) \<and> x = haddr m1 d1 ?b \<and> (\<forall>b < ?k. img m1 (haddr m d b) = img m (haddr m d b))" for r m1
    proof -
      obtain x d1 where rx: "r = (x, d1)" by (cases r)
      then have e: "ext m d ?k m1 d1 (?b + 1)" "x = haddr m1 d1 ?b" "\<forall>b < ?k. img m1 (haddr m d b) = img m (haddr m d b)" using r by auto
      have m1: "mk_ok m1" "fmapped m1 d1 (?b + 1)" "?k \<le> ?b + 1" "\<forall>b < ?k. haddr m1 d1 b = haddr m d b"
        "freeblock m1 + nslots ?k = freeblock m + nslots (?b + 1)" using e(1) by (simp_all add: ext_def)
      have h1: "holds_bytes m1 d1 bs" unfolding holds_bytes_def
      proof (intro allI impI)
        fix off assume "off < length bs"
        then show "rd (img m1 (haddr m1 d1 (off div BSIZE))) (off mod BSIZE) = bs ! off"
          using less.prems(3) nblk_bound(1) m1(4) e(3) by (simp add: holds_bytes_def)
      qed
      let ?m2 = "m1\<lparr>img := (img m1)(x := put_bytes (length bs mod BSIZE) ?cs1 (img m1 x))\<rparr>"
      have s: "ext m1 d1 (?b + 1) ?m2 d1 (?b + 1)" "holds_bytes ?m2 d1 (bs @ ?cs1)"
        using store_piece [OF m1(1,2) h1, of ?b ?cs1] m1(3) n(2,3) e(2) by simp_all
      have x: "x < FSSIZE" using haddr_pos [OF m1(2), of ?b] e(2) m1(1) by (simp add: mk_ok_def)
      have e2: "ext m d ?k ?m2 d1 (nblk (length (bs @ ?cs1)))" using ext_trans [OF e(1) s(1)] nb n(2) by simp
      have m2: "mk_ok ?m2" "fmapped ?m2 d1 (nblk (length (bs @ ?cs1)))" using e2 by (simp_all add: ext_def)
      have l: "length (bs @ ?cs1) + length ?cs2 = length bs + length cs" "length (bs @ ?cs1) = length bs + ?n" using n(2) by simp_all
      have "freeblock ?m2 + nslots (nblk (length (bs @ ?cs1) + length ?cs2)) \<le> FSSIZE + nslots (nblk (length (bs @ ?cs1)))"
        unfolding l(1) unfolding l(2) nb using less.prems(5) m1(5) by simp
      moreover have "length (bs @ ?cs1) + length ?cs2 \<le> MAXFILE * BSIZE" unfolding l(1) using less.prems(4) .
      moreover have "length ?cs2 < length cs" using n(1) False by simp
      ultimately have IH: "wp (iappend_loop (length (bs @ ?cs1)) ?cs2 d1) (\<lambda>(off, d') m'. off = length ((bs @ ?cs1) @ ?cs2) \<and> holds_bytes m' d' ((bs @ ?cs1) @ ?cs2) \<and>
         ext ?m2 d1 (nblk (length (bs @ ?cs1))) m' d' (nblk (length ((bs @ ?cs1) @ ?cs2)))) ?m2"
        using less.hyps m2 s(2) by blast
      have "wp (iappend_loop (length bs + ?n) ?cs2 d1) (\<lambda>(off, d') m'. off = length (bs @ cs) \<and> holds_bytes m' d' (bs @ cs) \<and>
         ext m d ?k m' d' (nblk (length (bs @ cs)))) ?m2"
        by (rule wp_conseq [OF IH [unfolded l(2)]]) (use ext_trans [OF e2 [unfolded l(2)]] in auto)
      moreover have "length bs - ?b * BSIZE = length bs mod BSIZE" by (simp add: minus_div_mult_eq_mod)
      moreover have "img_len m1 = FSSIZE" using m1(1) by (simp add: mk_ok_def)
      ultimately show ?thesis using rx x small by (simp add: Let_def wp_rsect wp_wsect)
    qed
    show ?thesis unfolding iappend_loop.simps [of "length bs"] using False b
    proof (simp only: if_False not_True_eq_False not_False_eq_True wp_kbind, intro wp_conseq [OF file_block_step [OF less.prems(1,2) b room]])
      fix r m1
      assume r: "(case r of (x, d') \<Rightarrow> \<lambda>m'. ext m d ?k m' d' (?b + 1) \<and> x = haddr m' d' ?b \<and> (\<forall>b < ?k. img m' (haddr m d b) = img m (haddr m d b))) m1"
      show "wp (case r of (x, d1) \<Rightarrow> let n1 = ?n in kbind (rsect x) (\<lambda>buf. kseq (wsect x (put_bytes (length bs - ?b * BSIZE) (take n1 cs) buf))
         (iappend_loop (u32 (length bs + n1)) (drop n1 cs) d1)))
       (\<lambda>(off, d') m'. off = length (bs @ cs) \<and> holds_bytes m' d' (bs @ cs) \<and> ext m d ?k m' d' (nblk (length (bs @ cs)))) m1"
        by (rule step) (use r in \<open>cases r; simp\<close>)
    qed
  qed
qed

lemma haddr_d_size: "haddr m (d\<lparr>d_size := n\<rparr>) = haddr m d"
  by (simp add: haddr_def fun_eq_iff)

lemma d_size_irrelevant:
  "blks m (d\<lparr>d_size := n\<rparr>) k = blks m d k" "fmapped m (d\<lparr>d_size := n\<rparr>) k \<longleftrightarrow> fmapped m d k" "holds_bytes m (d\<lparr>d_size := n\<rparr>) bs \<longleftrightarrow> holds_bytes m d bs"
proof -
  show b: "blks m (d\<lparr>d_size := n\<rparr>) k = blks m d k" by (simp add: blks_def haddr_d_size)
  show "fmapped m (d\<lparr>d_size := n\<rparr>) k \<longleftrightarrow> fmapped m d k" by (simp add: fmapped_def b haddr_d_size)
  show "holds_bytes m (d\<lparr>d_size := n\<rparr>) bs \<longleftrightarrow> holds_bytes m d bs" by (simp add: holds_bytes_def haddr_d_size)
qed

section \<open>All files\<close>

definition file_on :: "mkimg \<Rightarrow> nat \<Rightarrow> byte list \<Rightarrow> bool" where
  "file_on m i bs \<longleftrightarrow> d_size (ino m i) = length bs \<and> length bs \<le> MAXFILE * BSIZE \<and> fmapped m (ino m i) (nblk (length bs)) \<and> holds_bytes m (ino m i) bs"

definition own :: "mkimg \<Rightarrow> nat \<Rightarrow> byte list \<Rightarrow> nat set" where
  "own m i bs = set (blks m (ino m i) (nblk (length bs)))"

definition mk_head :: "dinode \<Rightarrow> nat \<Rightarrow> bool" where
  "mk_head d i \<longleftrightarrow> d_type d = (if i = 1 then 1 else 2) \<and> d_major d = 0 \<and> d_minor d = 0 \<and> d_nlink d = 1"

definition slots_of :: "byte list \<Rightarrow> nat" where
  "slots_of bs = nslots (nblk (length bs))"

text \<open>The inodes 1 to \<open>n\<close> are files with the contents \<open>C\<close>; what is taken is what they need.\<close>

definition mk_inv :: "mkimg \<Rightarrow> (nat \<Rightarrow> byte list) \<Rightarrow> nat \<Rightarrow> bool" where
  "mk_inv m C n \<longleftrightarrow> mk_ok m \<and> freeinode m = n + 1 \<and> n < 208 \<and> (\<forall>i. 1 \<le> i \<longrightarrow> i \<le> n \<longrightarrow> file_on m i (C i) \<and> mk_head (ino m i) i) \<and>
     (\<forall>i. n < i \<longrightarrow> i < 208 \<longrightarrow> ino m i = zero_dinode) \<and>
     (\<forall>i j. 1 \<le> i \<longrightarrow> i \<le> n \<longrightarrow> 1 \<le> j \<longrightarrow> j \<le> n \<longrightarrow> i \<noteq> j \<longrightarrow> own m i (C i) \<inter> own m j (C j) = {}) \<and>
     freeblock m = nmeta + (\<Sum>i = 1..n. slots_of (C i)) \<and> img m 1 = encode_sb mk_superblock zero_block \<and> (\<forall>b. 2 \<le> b \<longrightarrow> b < 32 \<longrightarrow> img m b = zero_block)"

lemma slots_mono: "length a \<le> length b \<Longrightarrow> slots_of a \<le> slots_of b"
  by (simp add: slots_of_def nslots_mono nblk_mono)

lemma haddr_frame:
  "(NDIRECT < k \<Longrightarrow> img m' (d_addrs d NDIRECT) = img m (d_addrs d NDIRECT)) \<Longrightarrow> c < NDIRECT \<or> NDIRECT < k \<Longrightarrow> haddr m' d c = haddr m d c"
  by (auto simp: haddr_def)

lemma blks_frame: "\<forall>b \<in> set (blks m d k). img m' b = img m b \<Longrightarrow> blks m' d k = blks m d k"
proof -
  assume a: "\<forall>b \<in> set (blks m d k). img m' b = img m b"
  have "haddr m' d c = haddr m d c" if "c < k" for c
    by (rule haddr_frame [of k]) (use a ind_in [of k d m] that in auto)
  then show ?thesis by (simp add: blks_def)
qed

lemma mapped_frame:
  assumes "fmapped m d k" "\<forall>b \<in> set (blks m d k). img m' b = img m b" "freeblock m \<le> freeblock m'"
  shows "fmapped m' d k"
proof -
  have "haddr m' d c = haddr m d c" if "NDIRECT < k" for c
    by (rule haddr_frame [of k]) (use assms(2) ind_in [of k d m] that in auto)
  then show ?thesis using assms(1,3) unfolding fmapped_def blks_frame [OF assms(2)] by auto
qed

lemma holds_frame:
  assumes "holds_bytes m d bs" "\<forall>b \<in> set (blks m d (nblk (length bs))). img m' b = img m b"
  shows "holds_bytes m' d bs"
  unfolding holds_bytes_def
proof (intro allI impI)
  fix off assume off: "off < length bs"
  then have k: "off div BSIZE < nblk (length bs)" by (rule nblk_bound)
  have "haddr m' d (off div BSIZE) = haddr m d (off div BSIZE)"
    by (rule haddr_frame [of "nblk (length bs)"]) (use assms(2) ind_in [of "nblk (length bs)" d m] k in auto)
  then show "rd (img m' (haddr m' d (off div BSIZE))) (off mod BSIZE) = bs ! off"
    using assms off haddr_in [OF k] by (simp add: holds_bytes_def)
qed

lemma own_bounds: "file_on m j bs \<Longrightarrow> b \<in> own m j bs \<Longrightarrow> nmeta \<le> b \<and> b < freeblock m"
  by (auto simp: file_on_def fmapped_def own_def)

lemma file_frame:
  assumes "file_on m i bs" "ino m' i = ino m i" "\<forall>b \<in> own m i bs. img m' b = img m b" "freeblock m \<le> freeblock m'"
  shows "file_on m' i bs" "own m' i bs = own m i bs"
proof -
  let ?d = "ino m i" and ?k = "nblk (length bs)"
  have f: "d_size ?d = length bs" "length bs \<le> MAXFILE * BSIZE" "fmapped m ?d ?k" "holds_bytes m ?d bs" using assms(1) by (simp_all add: file_on_def)
  have e: "\<forall>b \<in> set (blks m ?d ?k). img m' b = img m b" using assms(3) by (simp add: own_def)
  show "file_on m' i bs" unfolding file_on_def assms(2) using f mapped_frame [OF f(3) e assms(4)] holds_frame [OF f(4) e] by simp
  show "own m' i bs = own m i bs" unfolding own_def assms(2) using blks_frame [OF e] by simp
qed

text \<open>An inode is not in the data area, so writing one leaves the files' blocks alone.\<close>

lemma write_inode:
  assumes "mk_ok m" "i < 208" "dino_fits d" "m' = m\<lparr>img := (img m)(ino_block i := put_dinode d (dinode_off i) (img m (ino_block i)))\<rparr>"
  shows "mk_ok m'" "ino m' i = d" "\<And>j. j \<noteq> i \<Longrightarrow> ino m' j = ino m j" "\<And>b. nmeta \<le> b \<or> b < 32 \<Longrightarrow> img m' b = img m b"
    "freeblock m' = freeblock m" "freeinode m' = freeinode m"
proof -
  have b: "ino_block i < nmeta" "32 \<le> ino_block i" using ino_block_sb(2) [OF assms(2)] by (simp_all add: mk_consts(1) ino_block_def)
  show "mk_ok m'" using assms(1) b(1) by (auto simp: mk_ok_def assms(4))
  show "ino m' i = d" using get_put_dinode [OF assms(3) dinode_off_bound] by (simp add: ino_def assms(4))
  show "ino m' j = ino m j" if "j \<noteq> i" for j using ino_other [OF that, of m' m d] by (simp add: assms(4))
  show "img m' b = img m b" if "nmeta \<le> b \<or> b < 32" for b using b that by (auto simp: assms(4))
qed (simp_all add: assms(4))

lemma mapped_fits:
  assumes "mk_ok m" "fmapped m d k" "j \<le> NDIRECT"
  shows "d_addrs d j < 2 ^ 32"
proof -
  have "d_addrs d j < 1000 \<or> d_addrs d j = 0"
  proof (cases "j < NDIRECT")
    case True
    then show ?thesis using small(2) [OF assms(2,1), of j] assms(2) by (cases "j < k") (auto simp: haddr_def fmapped_def)
  next
    case False
    then show ?thesis using ind_pos [OF assms(2)] small(1) [OF assms(1)] assms(2,3) by (cases "NDIRECT < k") (auto simp: fmapped_def)
  qed
  then show ?thesis by auto
qed

lemma iappend_ok:
  assumes inv: "mk_inv m C n" and i: "1 \<le> i" "i \<le> n" and len: "length (C i) + length bs \<le> MAXFILE * BSIZE"
    and room: "nmeta + (\<Sum>j = 1..n. slots_of ((C(i := C i @ bs)) j)) \<le> FSSIZE"
  shows "wp (iappend i bs) (\<lambda>_ m'. mk_inv m' (C(i := C i @ bs)) n) m"
proof -
  let ?d = "ino m i" and ?k = "nblk (length (C i))" and ?C = "C(i := C i @ bs)"
  have ok: "mk_ok m" "i < 208" and f: "file_on m i (C i)" "mk_head ?d i" using inv i by (auto simp: mk_inv_def)
  have d: "d_size ?d = length (C i)" "fmapped m ?d ?k" "holds_bytes m ?d (C i)" using f(1) by (simp_all add: file_on_def)
  have sum: "(\<Sum>j = 1..n. slots_of (?C j)) + slots_of (C i) = (\<Sum>j = 1..n. slots_of (C j)) + slots_of (C i @ bs)"
  proof -
    have "(\<Sum>j = 1..n. slots_of (?C j)) = slots_of (C i @ bs) + (\<Sum>j \<in> {1..n} - {i}. slots_of (C j))" using i by (simp add: sum.remove [of _ i])
    moreover have "(\<Sum>j = 1..n. slots_of (C j)) = slots_of (C i) + (\<Sum>j \<in> {1..n} - {i}. slots_of (C j))" using i by (simp add: sum.remove [of _ i])
    ultimately show ?thesis by simp
  qed
  have fb: "freeblock m = nmeta + (\<Sum>j = 1..n. slots_of (C j))" using inv by (simp add: mk_inv_def)
  have r: "freeblock m + nslots (nblk (length (C i) + length bs)) \<le> FSSIZE + nslots ?k"
    using room sum unfolding fb by (simp add: slots_of_def)
  have sz: "length (C i) < 2 ^ 32" "length (C i @ bs) < 2 ^ 32" using len by (simp_all add: sizes)
  have fin: "wp (case r of (off, d') \<Rightarrow> winode i (d'\<lparr>d_size := xint off\<rparr>)) (\<lambda>_ m'. mk_inv m' ?C n) m1"
    if r: "case r of (off, d') \<Rightarrow> off = length (C i @ bs) \<and> holds_bytes m1 d' (C i @ bs) \<and> ext m ?d ?k m1 d' (nblk (length (C i @ bs)))" for r m1
  proof -
    obtain off d' where rx: "r = (off, d')" by (cases r)
    then have h: "off = length (C i @ bs)" "holds_bytes m1 d' (C i @ bs)" "ext m ?d ?k m1 d' (nblk (length (C i @ bs)))" using r by auto
    have m1: "mk_ok m1" "fmapped m1 d' (nblk (length (C i @ bs)))" "d' = ?d\<lparr>d_addrs := d_addrs d'\<rparr>" "freeinode m1 = freeinode m"
      "freeblock m1 + slots_of (C i) = freeblock m + slots_of (C i @ bs)" "\<forall>b < freeblock m. b \<notin> own m i (C i) \<longrightarrow> img m1 b = img m b"
      "set (blks m1 d' (nblk (length (C i @ bs)))) \<subseteq> own m i (C i) \<union> {freeblock m..<freeblock m1}"
      using h(3) by (simp_all add: ext_def own_def slots_of_def)
    let ?e = "d'\<lparr>d_size := length (C i @ bs)\<rparr>"
    have hd: "d_type d' = d_type ?d \<and> d_major d' = d_major ?d \<and> d_minor d' = d_minor ?d \<and> d_nlink d' = d_nlink ?d"
      using m1(3) by (metis dinode.select_convs(1-4) dinode.surjective dinode.update_convs(6))
    have "\<forall>j > NDIRECT. d_addrs d' j = 0" using m1(2) by (simp add: fmapped_def)
    then have fits: "dino_fits ?e" using f(2) hd mapped_fits [OF m1(1,2)] sz(2) by (auto simp: dino_fits_def mk_head_def)
    define m2 where "m2 = m1\<lparr>img := (img m1)(ino_block i := put_dinode ?e (dinode_off i) (img m1 (ino_block i)))\<rparr>"
    note w = write_inode [OF m1(1) ok(2) fits m2_def]
    have data: "img m2 b = img m b" if "b < freeblock m" "b \<notin> own m i (C i)" "nmeta \<le> b \<or> b < 32" for b using w(4) that m1(6) by simp
    have own_lo: "nmeta \<le> b \<and> b < freeblock m" if "b \<in> own m j (C j)" "1 \<le> j" "j \<le> n" for b j
    proof -
      have "file_on m j (C j)" using inv that by (simp add: mk_inv_def)
      then show ?thesis using own_bounds that(1) by blast
    qed
    have fbm: "freeblock m \<le> freeblock m1" using m1(5) slots_mono [of "C i" "C i @ bs"] by simp
    have ino1: "ino m1 j = ino m j" if "j < 208" for j
    proof -
      have lt: "ino_block j < nmeta" using ino_block_sb(2) [OF that] by (simp add: mk_consts(1))
      have "ino_block j \<notin> own m i (C i)" using own_lo [of "ino_block j" i] i lt by linarith
      moreover have "ino_block j < freeblock m" using ok(1) lt by (simp add: mk_ok_def)
      ultimately show ?thesis using m1(6) by (simp add: ino_def)
    qed
    have dataeq: "\<forall>b \<in> set (blks m1 d' (nblk (length (C i @ bs)))). img m2 b = img m1 b"
    proof
      fix b assume "b \<in> set (blks m1 d' (nblk (length (C i @ bs))))"
      then have "nmeta \<le> b" using m1(2) unfolding fmapped_def by (meson atLeastLessThan_iff subsetD)
      then show "img m2 b = img m1 b" using w(4) by simp
    qed
    have fi: "file_on m2 i (C i @ bs)" unfolding file_on_def w(2) d_size_irrelevant
      using len mapped_frame [OF m1(2) dataeq] holds_frame [OF h(2) dataeq] w(5) by simp
    have oi: "own m2 i (C i @ bs) \<subseteq> own m i (C i) \<union> {freeblock m..<freeblock m1}"
      unfolding own_def [of m2] w(2) d_size_irrelevant blks_frame [OF dataeq] using m1(7) .
    have fj: "file_on m2 j (C j)" "own m2 j (C j) = own m j (C j)" "ino m2 j = ino m j" if "j \<noteq> i" "1 \<le> j" "j \<le> n" for j
    proof -
      have j: "j < 208" "file_on m j (C j)" using inv that by (auto simp: mk_inv_def)
      show e: "ino m2 j = ino m j" using w(3) [OF that(1)] ino1 [OF j(1)] by simp
      have "own m j (C j) \<inter> own m i (C i) = {}" using inv that i by (simp add: mk_inv_def)
      then have "\<forall>b \<in> own m j (C j). img m2 b = img m b" using own_lo [OF _ that(2,3)] data by blast
      then show "file_on m2 j (C j)" "own m2 j (C j) = own m j (C j)" using file_frame [OF j(2) e] w(5) fbm by auto
    qed
    have "mk_inv m2 ?C n" unfolding mk_inv_def
    proof (intro conjI allI impI)
      show "mk_ok m2" "freeinode m2 = n + 1" "n < 208" using w(1,6) m1(4) inv by (simp_all add: mk_inv_def)
      show "file_on m2 j (?C j)" if "1 \<le> j" "j \<le> n" for j using fi fj that by simp
      show "mk_head (ino m2 j) j" if "1 \<le> j" "j \<le> n" for j
        using fj(3) [of j] that w(2) hd f(2) inv by (cases "j = i") (simp_all add: mk_head_def mk_inv_def)
      show "ino m2 j = zero_dinode" if "n < j" "j < 208" for j using w(3) [of j] ino1 that i inv by (simp add: mk_inv_def)
      show "own m2 j (?C j) \<inter> own m2 l (?C l) = {}" if "1 \<le> j" "j \<le> n" "1 \<le> l" "l \<le> n" "j \<noteq> l" for j l
      proof -
        have old: "own m j (C j) \<inter> own m l (C l) = {}" using inv that by (simp add: mk_inv_def)
        have new: "own m2 i (C i @ bs) \<inter> own m p (C p) = {}" if "p \<noteq> i" "1 \<le> p" "p \<le> n" for p
        proof -
          have "own m i (C i) \<inter> own m p (C p) = {}" using inv that i by (simp add: mk_inv_def)
          then show ?thesis using oi own_lo [OF _ that(2,3)] by fastforce
        qed
        consider "j = i" | "l = i" | "j \<noteq> i" "l \<noteq> i" by blast
        then show ?thesis using old new fj(2) that by cases (simp_all add: Int_commute)
      qed
      show "freeblock m2 = nmeta + (\<Sum>j = 1..n. slots_of (?C j))" using w(5) m1(5) fb sum by simp
      have nm: "nmeta \<le> freeblock m" "(32 :: nat) \<le> nmeta" using ok(1) by (simp_all add: mk_ok_def mk_consts(1))
      have lo: "img m2 b = img m b" if "b < 32" for b using data [of b] own_lo [of b i] i that nm by fastforce
      show "img m2 1 = encode_sb mk_superblock zero_block" using lo [of 1] inv by (simp add: mk_inv_def)
      show "img m2 b = zero_block" if "2 \<le> b" "b < 32" for b using lo that inv by (simp add: mk_inv_def)
    qed
    then show ?thesis using rx h(1) sz(2) wp_winode [OF m1(1) ok(2)] by (simp add: m2_def)
  qed
  have "wp (iappend_loop (length (C i)) bs ?d) (\<lambda>r. wp (case r of (off, d') \<Rightarrow> winode i (d'\<lparr>d_size := xint off\<rparr>)) (\<lambda>_ m'. mk_inv m' ?C n)) m"
    by (rule wp_conseq [OF iappend_loop_ok [OF ok(1) d(2,3) len r]], rule fin) auto
  then show ?thesis using sz(1) d(1) by (simp add: iappend_def wp_rinode [OF ok])
qed

end
