(* ===== verification/MkfsKernel.thy ===== *)
theory MkfsKernel
  imports MkfsProps
begin

text \<open>
  The whole run of \<^verbatim>\<open>mkfs\<close>, and what the kernel finds on the image it leaves.
\<close>

section \<open>The run\<close>

definition dir_bytes :: "byte list list \<Rightarrow> byte list" where
  "dir_bytes names = mk_dirent 1 [46] @ mk_dirent 1 [46, 46] @ concat (map (\<lambda>j. mk_dirent (j + 2) (strip (names ! j))) [0..<length names])"

text \<open>The content of each inode: 1 is the root directory, the files follow.\<close>

definition content :: "hostfile list \<Rightarrow> nat \<Rightarrow> byte list" where
  "content files i = (if i = 1 then dir_bytes (map fst files)
     else if 2 \<le> i \<and> i < length files + 2 then concat (the (snd (files ! (i - 2)))) else [])"

text \<open>The files can be read, their names have no slash, there are inodes for them, and they fit.\<close>

definition mk_fits :: "hostfile list \<Rightarrow> bool" where
  "mk_fits files \<longleftrightarrow> (\<forall>f \<in> set files. slash \<notin> set (fst f) \<and> snd f \<noteq> None \<and> length (concat (the (snd f))) \<le> MAXFILE * BSIZE) \<and>
     length files \<le> 198 \<and> nmeta + (\<Sum>i = 1..length files + 1. slots_of (content files i)) \<le> FSSIZE"

lemma slots_of_Nil: "slots_of [] = 0"
  by (simp add: slots_of_def nslots_def nblk_def BSIZE_num NDIRECT_num)

lemma mk_ialloc_ok:
  assumes inv: "mk_inv m C n" and n: "n + 1 < 208" "C (n + 1) = []" "ty = (if n = 0 then 1 else 2)"
  shows "wp (mk_ialloc ty) (\<lambda>inum m'. inum = n + 1 \<and> mk_inv m' C (n + 1)) m"
proof -
  let ?i = "n + 1"
  let ?d = "zero_dinode\<lparr>d_type := ty, d_nlink := 1, d_size := 0\<rparr>" and ?m1 = "m\<lparr>freeinode := n + 2\<rparr>"
  have ok: "mk_ok ?m1" "?i < 208" "dino_fits ?d" using inv n by (simp_all add: mk_inv_def mk_ok_def dino_fits_def zero_dinode_def)
  define m2 where "m2 = ?m1\<lparr>img := (img ?m1)(ino_block ?i := put_dinode ?d (dinode_off ?i) (img ?m1 (ino_block ?i)))\<rparr>"
  note w = write_inode [OF ok m2_def]
  have w3: "ino m2 j = ino m j" if "j \<noteq> ?i" for j using w(3) [OF that] by (simp add: ino_def)
  have old: "file_on m2 j (C j)" "own m2 j (C j) = own m j (C j)" if "1 \<le> j" "j \<le> n" for j
  proof -
    have f: "file_on m j (C j)" using inv that by (simp add: mk_inv_def)
    have "\<forall>b \<in> own m j (C j). img m2 b = img m b" using own_bounds [OF f] w(4) by simp
    then show "file_on m2 j (C j)" "own m2 j (C j) = own m j (C j)" using file_frame [OF f w3] that w(5) by simp_all
  qed
  have k: "nblk 0 = 0" by (simp add: nblk_def BSIZE_num)
  have new: "file_on m2 ?i []" "own m2 ?i [] = {}"
    by (simp_all add: file_on_def own_def w(2)[simplified] k fmapped_def blks_def holds_bytes_def zero_dinode_def)
  have "mk_inv m2 C (n + 1)" unfolding mk_inv_def
  proof (intro conjI allI impI)
    show "mk_ok m2" "freeinode m2 = n + 1 + 1" "n + 1 < 208" using w(1,6) n by simp_all
    show "file_on m2 j (C j)" if "1 \<le> j" "j \<le> n + 1" for j using old(1) new(1) n(2) that by (cases "j = n + 1") auto
    show "mk_head (ino m2 j) j" if "1 \<le> j" "j \<le> n + 1" for j
    proof (cases "j = n + 1")
      case True
      then show ?thesis using w(2) n(3) by (simp add: mk_head_def zero_dinode_def)
    next
      case False
      then show ?thesis using w3 [OF False] inv that by (simp add: mk_inv_def)
    qed
    show "ino m2 j = zero_dinode" if "n + 1 < j" "j < 208" for j using w3 [of j] inv that by (simp add: mk_inv_def)
    show "own m2 i (C i) \<inter> own m2 j (C j) = {}" if "1 \<le> i" "i \<le> n + 1" "1 \<le> j" "j \<le> n + 1" "i \<noteq> j" for i j
    proof (cases "i = n + 1 \<or> j = n + 1")
      case True
      then show ?thesis using new(2) n(2) by auto
    next
      case False
      then show ?thesis using old(2) inv that by (simp add: mk_inv_def)
    qed
    show "freeblock m2 = nmeta + (\<Sum>i = 1..n + 1. slots_of (C i))" using w(5) inv n(2) slots_of_Nil by (simp add: mk_inv_def)
    show "img m2 1 = encode_sb mk_superblock zero_block" using w(4) [of 1] inv by (simp add: mk_inv_def)
    show "img m2 b = zero_block" if "2 \<le> b" "b < 32" for b using w(4) [of b] inv that by (simp add: mk_inv_def)
  qed
  moreover have "freeinode m = n + 1" using inv by (simp add: mk_inv_def)
  ultimately show ?thesis using ok(2) wp_winode [OF ok(1,2)] n(3) unfolding m2_def by (simp add: mk_ialloc_def)
qed

lemma length_dirent [simp]: "length (mk_dirent i name) = 16"
  by (simp add: mk_dirent_def DIRSIZ_num)

lemma length_dir_bytes: "length (dir_bytes names) = 16 * (length names + 2)"
proof -
  have "length (concat (map (\<lambda>j. mk_dirent (j + 2) (strip (names ! j))) [0..<n])) = 16 * n" for n by (induction n) simp_all
  then show ?thesis by (simp add: dir_bytes_def)
qed

lemma dir_bytes_snoc: "dir_bytes (names @ [x]) = dir_bytes names @ mk_dirent (length names + 2) (strip x)"
proof -
  have m: "map (\<lambda>j. mk_dirent (j + 2) (strip ((names @ [x]) ! j))) [0..<length names] = map (\<lambda>j. mk_dirent (j + 2) (strip (names ! j))) [0..<length names]"
    by (simp add: nth_append)
  have u: "[0..<length (names @ [x])] = [0..<length names] @ [length names]" by simp
  show ?thesis unfolding dir_bytes_def u map_append concat_append m by simp
qed

text \<open>Contents under way are no longer than in the end, so the space is enough at every step.\<close>

definition mk_below :: "(nat \<Rightarrow> byte list) \<Rightarrow> nat \<Rightarrow> hostfile list \<Rightarrow> bool" where
  "mk_below C n files \<longleftrightarrow> n \<le> length files + 1 \<and> (\<forall>i. 1 \<le> i \<longrightarrow> i \<le> n \<longrightarrow> length (C i) \<le> length (content files i))"

lemma below_room: "mk_below C n files \<Longrightarrow> mk_fits files \<Longrightarrow> nmeta + (\<Sum>i = 1..n. slots_of (C i)) \<le> FSSIZE"
proof -
  assume b: "mk_below C n files" and f: "mk_fits files"
  have "(\<Sum>i = 1..n. slots_of (C i)) \<le> (\<Sum>i = 1..n. slots_of (content files i))" using b by (intro sum_mono slots_mono) (simp add: mk_below_def)
  also have "\<dots> \<le> (\<Sum>i = 1..length files + 1. slots_of (content files i))" using b by (intro sum_mono2) (auto simp: mk_below_def)
  finally show ?thesis using f by (simp add: mk_fits_def)
qed

lemma content_max: "mk_fits files \<Longrightarrow> length (content files i) \<le> MAXFILE * BSIZE"
proof -
  assume f: "mk_fits files"
  have "length (concat (the (snd (files ! (i - 2))))) \<le> MAXFILE * BSIZE" if "2 \<le> i" "i < length files + 2"
    using f that by (simp add: mk_fits_def)
  then show ?thesis using f by (auto simp: content_def length_dir_bytes mk_fits_def sizes)
qed

lemma append_ok:
  assumes "mk_inv m C n" "1 \<le> i" "i \<le> n" "mk_below (C(i := C i @ bs)) n files" "mk_fits files"
  shows "wp (iappend i bs) (\<lambda>_ m'. mk_inv m' (C(i := C i @ bs)) n) m"
proof (rule iappend_ok [OF assms(1-3)])
  have "length ((C(i := C i @ bs)) i) \<le> length (content files i)" using assms(2-4) unfolding mk_below_def by blast
  then show "length (C i) + length bs \<le> MAXFILE * BSIZE" using content_max [OF assms(5), of i] by simp
  show "nmeta + (\<Sum>j = 1..n. slots_of ((C(i := C i @ bs)) j)) \<le> FSSIZE" using below_room [OF assms(4,5)] .
qed

lemma copy_ok:
  assumes "mk_inv m C n" "1 \<le> i" "i \<le> n" "mk_below (C(i := C i @ concat cs)) n files" "mk_fits files"
  shows "wp (kfor cs (iappend i)) (\<lambda>_ m'. mk_inv m' (C(i := C i @ concat cs)) n) m"
  using assms
proof (induction cs arbitrary: m C)
  case (Cons c cs)
  let ?C = "C(i := C i @ c)"
  have b: "mk_below ?C n files" using Cons.prems(4) by (auto simp: mk_below_def split: if_splits)
  have e: "?C(i := ?C i @ concat cs) = C(i := C i @ concat (c # cs))" by simp
  have "wp (iappend i c) (\<lambda>_. wp (kfor cs (iappend i)) (\<lambda>_ m'. mk_inv m' (C(i := C i @ concat (c # cs))) n)) m"
  proof (rule wp_conseq [OF append_ok [OF Cons.prems(1-3) b Cons.prems(5)]])
    fix m' assume "mk_inv m' ?C n"
    then show "wp (kfor cs (iappend i)) (\<lambda>_ m'. mk_inv m' (C(i := C i @ concat (c # cs))) n) m'"
      using Cons.IH [of m' ?C] Cons.prems(2-5) unfolding e by blast
  qed
  then show ?case by (simp only: kfor.simps wp_kseq)
qed (simp add: fun_upd_idem)

lemma content_snoc:
  assumes "snd f = Some cs"
  shows "content (fs @ [f]) = ((content fs)(1 := content fs 1 @ mk_dirent (length fs + 2) (strip (fst f)), length fs + 2 := concat cs))"
proof
  fix i
  consider "i = 1" | "i = length fs + 2" | "2 \<le> i" "i < length fs + 2" | "i = 0 \<or> length fs + 2 < i" by linarith
  then show "content (fs @ [f]) i = ((content fs)(1 := content fs 1 @ mk_dirent (length fs + 2) (strip (fst f)), length fs + 2 := concat cs)) i"
    by cases (use assms dir_bytes_snoc [of "map fst fs" "fst f"] in \<open>auto simp: content_def nth_append\<close>)
qed

lemma content_prefix: "1 \<le> i \<Longrightarrow> i \<le> length fs + 1 \<Longrightarrow> length (content fs i) \<le> length (content (fs @ gs) i)"
  by (auto simp: content_def length_dir_bytes nth_append)

lemma mk_add_file_ok:
  assumes inv: "mk_inv m (content fs) (length fs + 1)" and f: "mk_fits (fs @ f # gs)"
  shows "wp (add_file 1 f) (\<lambda>_ m'. mk_inv m' (content (fs @ [f])) (length fs + 2)) m"
proof -
  obtain name cs where fe: "f = (name, Some cs)" "slash \<notin> set name" using f by (cases f) (auto simp: mk_fits_def)
  let ?i = "length fs + 2" and ?C = "content fs"
  let ?C1 = "?C(1 := ?C 1 @ mk_dirent ?i (strip name))"
  let ?C2 = "?C1(?i := ?C1 ?i @ concat cs)"
  have i: "length fs + 1 + 1 = ?i" "?i < 208" "?C ?i = []" using f by (simp_all add: mk_fits_def content_def)
  have e: "content (fs @ [f]) = ?C2" using content_snoc [of f cs fs] fe i(3) by simp
  have b2: "mk_below ?C2 ?i (fs @ f # gs)" unfolding mk_below_def e [symmetric]
    using content_prefix [of _ "fs @ [f]" gs] by simp
  have "length (?C1 j) \<le> length (?C2 j)" for j by simp
  then have b1: "mk_below ?C1 ?i (fs @ f # gs)" using b2 unfolding mk_below_def by (meson le_trans)
  have a: "wp (mk_ialloc 2) (\<lambda>inum m'. inum = ?i \<and> mk_inv m' ?C ?i) m"
    using mk_ialloc_ok [OF inv, of 2] i by simp
  have "wp (iappend 1 (mk_dirent ?i (strip name))) (\<lambda>_. wp (kfor cs (iappend ?i)) (\<lambda>_ m'. mk_inv m' ?C2 ?i)) m1" if "mk_inv m1 ?C ?i" for m1
    by (rule wp_conseq [OF append_ok [OF that _ _ b1 f]]) (use copy_ok [OF _ _ _ b2 f] in auto)
  then have "wp (mk_ialloc 2) (\<lambda>inum. wp (iappend 1 (mk_dirent inum (strip name))) (\<lambda>_. wp (kfor cs (iappend inum)) (\<lambda>_ m'. mk_inv m' ?C2 ?i))) m"
    by (intro wp_conseq [OF a]) auto
  then show ?thesis unfolding e using fe by (simp add: add_file_def)
qed

lemma add_files_ok:
  assumes "mk_inv m (content fs) (length fs + 1)" "mk_fits (fs @ gs)"
  shows "wp (kfor gs (add_file 1)) (\<lambda>_ m'. mk_inv m' (content (fs @ gs)) (length (fs @ gs) + 1)) m"
  using assms
proof (induction gs arbitrary: fs m)
  case (Cons f gs)
  have "wp (add_file 1 f) (\<lambda>_. wp (kfor gs (add_file 1)) (\<lambda>_ m'. mk_inv m' (content (fs @ f # gs)) (length (fs @ f # gs) + 1))) m"
    by (rule wp_conseq [OF mk_add_file_ok [OF Cons.prems]]) (use Cons.IH [of _ "fs @ [f]"] Cons.prems(2) in auto)
  then show ?case by simp
qed simp

definition shared_less :: "mkimg \<Rightarrow> hostfile list \<Rightarrow> bool" where
  "shared_less m files \<longleftrightarrow> (\<forall>i j. 1 \<le> i \<longrightarrow> i \<le> length files + 1 \<longrightarrow> 1 \<le> j \<longrightarrow> j \<le> length files + 1 \<longrightarrow> i \<noteq> j \<longrightarrow>
     own m i (content files i) \<inter> own m j (content files j) = {})"

text \<open>The image at the end: the size of the root directory is rounded up, and the bit map is there.\<close>

definition built :: "mkimg \<Rightarrow> hostfile list \<Rightarrow> bool" where
  "built m files \<longleftrightarrow> mk_sb m = mk_superblock \<and> (\<forall>i. 2 \<le> i \<longrightarrow> i \<le> length files + 1 \<longrightarrow> file_on m i (content files i) \<and> mk_head (ino m i) i) \<and>
     mk_head (ino m 1) 1 \<and> d_size (ino m 1) = (length (content files 1) div BSIZE + 1) * BSIZE \<and>
     fmapped m (ino m 1) (nblk (length (content files 1))) \<and> holds_bytes m (ino m 1) (content files 1) \<and>
     (\<forall>i. length files + 1 < i \<longrightarrow> i < 208 \<longrightarrow> ino m i = zero_dinode) \<and> shared_less m files \<and>
     freeblock m = nmeta + (\<Sum>i = 1..length files + 1. slots_of (content files i)) \<and> freeblock m \<le> FSSIZE \<and>
     img m 1 = encode_sb mk_superblock zero_block \<and> (\<forall>b. 2 \<le> b \<longrightarrow> b < 32 \<longrightarrow> img m b = zero_block) \<and>
     (\<forall>b < BPB. map_bit (img m 58) b \<longleftrightarrow> b < freeblock m)"

definition mk_blank :: mkimg where
  "mk_blank = \<lparr>img = (\<lambda>_. zero_block)(1 := encode_sb mk_superblock zero_block), img_len = FSSIZE, mk_sb = mk_superblock, freeinode = 1, freeblock = nmeta\<rparr>"

lemma blank_inv: "mk_inv mk_blank (\<lambda>_. []) 0"
proof -
  have "get_dinode zero_block k = zero_dinode" for k by (auto simp: get_dinode_def zero_dinode_def le16_def)
  then have "ino mk_blank i = zero_dinode" for i by (simp add: ino_def mk_blank_def ino_block_def)
  moreover have "mk_ok mk_blank" by (simp add: mk_ok_def mk_blank_def mk_consts)
  ultimately show ?thesis by (simp add: mk_inv_def) (simp add: mk_blank_def)
qed

lemma wipe_ok:
  "wp (kfor [0..<FSSIZE] (\<lambda>i. wsect i zero_block)) (\<lambda>_ s. s = s0\<lparr>img := \<lambda>_. zero_block, img_len := FSSIZE\<rparr>) (s0\<lparr>img := \<lambda>_. zero_block, img_len := 0\<rparr>)"
proof -
  have "wp (kfor [0..<FSSIZE] (\<lambda>i. wsect i zero_block)) (\<lambda>_ s. s = s0\<lparr>img := \<lambda>_. zero_block, img_len := length [0..<FSSIZE]\<rparr>)
     (s0\<lparr>img := \<lambda>_. zero_block, img_len := 0\<rparr>)"
  proof (rule wp_kfor [where I = "\<lambda>xs s. s = s0\<lparr>img := \<lambda>_. zero_block, img_len := length xs\<rparr>"])
    fix xs i rest s
    assume e: "[0..<FSSIZE] = xs @ i # rest" and s: "s = s0\<lparr>img := \<lambda>_. zero_block, img_len := length xs\<rparr>"
    have l: "length xs < FSSIZE" using arg_cong [OF e, of length] by simp
    have "i = [0..<FSSIZE] ! length xs" unfolding e by simp
    then have "i = length xs" using l by simp
    then show "wp (wsect i zero_block) (\<lambda>_ s. s = s0\<lparr>img := \<lambda>_. zero_block, img_len := length (xs @ [i])\<rparr>) s"
      using l unfolding s by (simp add: wsect_def mk_sector_id mk_consts(2) fun_upd_idem)
  qed simp
  then show ?thesis by simp
qed

lemma map_bit_zero [simp]: "\<not> map_bit zero_block b"
  by (simp add: map_bit_def)

lemma map_bits_upto: "n \<le> BPB \<Longrightarrow> map_bit (fold set_map_bit [0..<n] zero_block) b \<longleftrightarrow> b < n"
  by (induction n) (auto simp: set_map_bit_self)

lemma finish_ok:
  assumes inv: "mk_inv m (content files) (length files + 1)" and f: "mk_fits files"
  shows "wp (kseq (fix_size 1) (kbind (kget freeblock) mk_balloc)) (\<lambda>_ m'. built m' files) m"
proof -
  let ?C = "content files" and ?d = "ino m 1" and ?k = "nblk (length (content files 1))"
  define d where "d = ?d\<lparr>d_size := (length (?C 1) div BSIZE + 1) * BSIZE\<rparr>"
  have ok: "mk_ok m" "(1 :: nat) < 208" "file_on m 1 (?C 1)" "mk_head ?d 1" using inv by (simp_all add: mk_inv_def)
  have r: "d_size ?d = length (?C 1)" "fmapped m ?d ?k" "holds_bytes m ?d (?C 1)" using ok(3) by (simp_all add: file_on_def)
  have len: "length (?C 1) \<le> 3200" using f by (simp add: content_def length_dir_bytes mk_fits_def)
  then have sz: "(length (?C 1) div BSIZE + 1) * BSIZE < 2 ^ 32" by (simp add: BSIZE_num)
  have "\<forall>j > NDIRECT. d_addrs ?d j = 0" using r(2) by (simp add: fmapped_def)
  then have fits: "dino_fits d" using ok(4) sz mapped_fits [OF ok(1) r(2)] by (auto simp: dino_fits_def mk_head_def d_def)
  define m1 where "m1 = m\<lparr>img := (img m)(ino_block 1 := put_dinode d (dinode_off 1) (img m (ino_block 1)))\<rparr>"
  note w = write_inode [OF ok(1,2) fits m1_def]
  define m2 where "m2 = m1\<lparr>img := (img m1)(58 := fold set_map_bit [0..<freeblock m] zero_block)\<rparr>"
  have fb: "freeblock m \<le> FSSIZE" "nmeta \<le> freeblock m" using ok(1) by (simp_all add: mk_ok_def)
  have ino2: "ino m2 j = ino m1 j" if "j < 208" for j using ino_block_sb(2) [OF that] by (simp add: ino_def m2_def)
  have data: "img m2 b = img m b" if "nmeta \<le> b \<or> b < 32" for b using w(4) [OF that] that by (auto simp: m2_def mk_consts(1))
  have root: "\<forall>b \<in> set (blks m ?d ?k). img m2 b = img m b" using own_bounds [OF ok(3)] data by (simp add: own_def)
  have fj: "file_on m2 j (?C j)" "own m2 j (?C j) = own m j (?C j)" "ino m2 j = ino m j" if "2 \<le> j" "j \<le> length files + 1" for j
  proof -
    have j: "j < 208" "file_on m j (?C j)" using inv that by (auto simp: mk_inv_def)
    show e: "ino m2 j = ino m j" using w(3) [of j] ino2 [OF j(1)] that by simp
    have "\<forall>b \<in> own m j (?C j). img m2 b = img m b" using own_bounds [OF j(2)] data by blast
    then show "file_on m2 j (?C j)" "own m2 j (?C j) = own m j (?C j)" using file_frame [OF j(2) e] w(5) by (simp_all add: m2_def)
  qed
  have root2: "ino m2 1 = d" using w(2) ino2 [of 1] by simp
  have own1: "own m2 1 (?C 1) = own m 1 (?C 1)" using blks_frame [OF root] unfolding own_def root2 by (simp add: d_def d_size_irrelevant)
  have own: "own m2 j (?C j) = own m j (?C j)" if "1 \<le> j" "j \<le> length files + 1" for j using own1 fj(2) [of j] that by (cases "j = 1") auto
  have "built m2 files" unfolding built_def
  proof (intro conjI allI impI)
    show "mk_sb m2 = mk_superblock" using w(1) by (simp add: m2_def mk_ok_def)
    show "file_on m2 i (?C i)" "mk_head (ino m2 i) i" if "2 \<le> i" "i \<le> length files + 1" for i using fj [OF that] inv that by (simp_all add: mk_inv_def)
    show "mk_head (ino m2 1) 1" using ok(4) unfolding root2 by (simp add: mk_head_def d_def)
    show "d_size (ino m2 1) = (length (?C 1) div BSIZE + 1) * BSIZE" unfolding root2 by (simp add: d_def)
    show "fmapped m2 (ino m2 1) ?k" unfolding root2 d_def d_size_irrelevant by (rule mapped_frame [OF r(2) root]) (simp add: m2_def w(5))
    show "holds_bytes m2 (ino m2 1) (?C 1)" unfolding root2 d_def d_size_irrelevant by (rule holds_frame [OF r(3) root])
    show "ino m2 i = zero_dinode" if "length files + 1 < i" "i < 208" for i using ino2 [OF that(2)] w(3) [of i] inv that by (simp add: mk_inv_def)
    show "shared_less m2 files" using inv own unfolding shared_less_def by (simp add: mk_inv_def)
    show "freeblock m2 = nmeta + (\<Sum>i = 1..length files + 1. slots_of (?C i))" "freeblock m2 \<le> FSSIZE" using w(5) inv fb by (simp_all add: m2_def mk_inv_def)
    show "img m2 1 = encode_sb mk_superblock zero_block" using data [of 1] inv by (simp add: mk_inv_def)
    show "img m2 b = zero_block" if "2 \<le> b" "b < 32" for b using data [of b] inv that by (simp add: mk_inv_def)
    show "map_bit (img m2 58) b \<longleftrightarrow> b < freeblock m2" for b
      using map_bits_upto [of "freeblock m" b] fb w(5) by (simp add: m2_def mk_consts(2) BPB_num)
  qed
  moreover have "wp (fix_size 1) Q m = Q () m1" for Q
    using r(1) len sz wp_winode [OF ok(1,2)] by (simp add: fix_size_def wp_rinode [OF ok(1,2)] Let_def m1_def d_def del: One_nat_def)
  moreover have "wp (mk_balloc (freeblock m1)) Q m1 = Q () m2" for Q
    using fb w(1,5) by (simp add: mk_balloc_def mk_ok_def mk_consts wp_wsect m2_def BSIZE_num)
  ultimately show ?thesis by simp
qed

lemma mkfs_ok:
  assumes "mk_fits files"
  shows "wp (mkfs (Some True) files) (\<lambda>_ m. built m files) mk_start"
proof -
  let ?d1 = "mk_dirent 1 [46]" and ?d2 = "mk_dirent 1 [46, 46]"
  let ?C1 = "(\<lambda>_ :: nat. [] :: byte list)(1 := [] @ ?d1)"
  let ?C2 = "?C1(1 := ?C1 1 @ ?d2)"
  have c: "?C2 = content []" by (auto simp: content_def dir_bytes_def)
  have b: "mk_below ?C1 1 files" "mk_below ?C2 1 files" by (simp_all add: mk_below_def content_def length_dir_bytes)
  have a: "wp (mk_ialloc 1) (\<lambda>inum m'. inum = 1 \<and> mk_inv m' (\<lambda>_. []) 1) mk_blank" using mk_ialloc_ok [OF blank_inv, of 1] by simp
  have rest: "wp (kseq (kfor files (add_file 1)) (kseq (fix_size 1) (kbind (kget freeblock) mk_balloc))) (\<lambda>_ m. built m files) m"
    if "mk_inv m ?C2 1" for m
  proof -
    have "wp (kfor files (add_file 1)) (\<lambda>_ m'. mk_inv m' (content files) (length files + 1)) m"
      using add_files_ok [of m "[]" files] that assms unfolding c by simp
    then have "wp (kfor files (add_file 1)) (\<lambda>_. wp (kseq (fix_size 1) (kbind (kget freeblock) mk_balloc)) (\<lambda>_ m. built m files)) m"
      by (rule wp_conseq) (rule finish_ok [OF _ assms])
    then show ?thesis by simp
  qed
  have two: "wp (iappend 1 ?d1) (\<lambda>_. wp (iappend 1 ?d2) (\<lambda>_. wp (kseq (kfor files (add_file 1)) (kseq (fix_size 1) (kbind (kget freeblock) mk_balloc))) (\<lambda>_ m. built m files))) m"
    if "mk_inv m (\<lambda>_. []) 1" for m
  proof (rule wp_conseq [OF append_ok [OF that order_refl order_refl b(1) assms]])
    fix m' assume "mk_inv m' ?C1 1"
    then show "wp (iappend 1 ?d2) (\<lambda>_. wp (kseq (kfor files (add_file 1)) (kseq (fix_size 1) (kbind (kget freeblock) mk_balloc))) (\<lambda>_ m. built m files)) m'"
      by (rule wp_conseq [OF append_ok [OF _ order_refl order_refl b(2) assms]]) (rule rest)
  qed
  have body: "wp (kbind (mk_ialloc 1) (\<lambda>rootino. if rootino \<noteq> ROOTINO then kpanic ''rootino == ROOTINO'' else
      kseq (iappend rootino (mk_dirent rootino [46])) (kseq (iappend rootino (mk_dirent rootino [46, 46]))
      (kseq (kfor files (add_file rootino)) (kseq (fix_size rootino) (kbind (kget freeblock) mk_balloc)))))) (\<lambda>_ m. built m files) mk_blank"
    unfolding wp_kbind by (rule wp_conseq [OF a]) (use two in \<open>auto simp: ROOTINO_def\<close>)
  let ?s = "mk_start\<lparr>mk_sb := mk_superblock, freeblock := nmeta\<rparr>"
  have s: "?s = ?s\<lparr>img := \<lambda>_. zero_block, img_len := 0\<rparr>" by (simp add: mk_start_def)
  have bl: "(?s\<lparr>img := \<lambda>_. zero_block, img_len := FSSIZE\<rparr>)\<lparr>img := (\<lambda>_. zero_block)(1 := encode_sb mk_superblock zero_block)\<rparr> = mk_blank"
    by (simp add: mk_start_def mk_blank_def)
  have "wp (kfor [0..<FSSIZE] (\<lambda>i. wsect i zero_block)) (\<lambda>_. wp (wsect 1 (encode_sb mk_superblock zero_block))
    (\<lambda>_. wp (kbind (mk_ialloc 1) (\<lambda>rootino. if rootino \<noteq> ROOTINO then kpanic ''rootino == ROOTINO'' else
      kseq (iappend rootino (mk_dirent rootino [46])) (kseq (iappend rootino (mk_dirent rootino [46, 46]))
      (kseq (kfor files (add_file rootino)) (kseq (fix_size rootino) (kbind (kget freeblock) mk_balloc)))))) (\<lambda>_ m. built m files))) ?s"
    by (subst s, rule wp_conseq [OF wipe_ok]) (use body bl in \<open>simp add: wp_wsect mk_consts(2)\<close>)
  then show ?thesis by (simp only: mkfs_def option.case bool.case wp_kseq wp_kmod)
qed

section \<open>The kernel on the image\<close>

text \<open>A kernel at rest on the image, with its superblock read, and an inode it has loaded.\<close>

definition on_image :: "'x fstate_scheme \<Rightarrow> mkimg \<Rightarrow> bool" where
  "on_image s m \<longleftrightarrow> idle s \<and> view s = img m \<and> disksize s = FSSIZE \<and> sb s = decode_sb (img m 1)"

definition has_inode :: "'x fstate_scheme \<Rightarrow> nat \<Rightarrow> nat \<Rightarrow> bool" where
  "has_inode s ip inum \<longleftrightarrow> i_dev (icache s ip) = 1 \<and>
     icache s ip = decode_dinode (view s (IBLOCK inum (sb s))) (dinode_off inum) (icache s ip)"

lemma decode_encode_sb: "decode_sb (encode_sb mk_superblock zero_block) = mk_superblock"
  by (simp add: decode_sb_def encode_sb_def mk_consts(6) le32_put32_same le32_put32_other BSIZE_num)

lemma image_sb: "built m files \<Longrightarrow> on_image s m \<Longrightarrow> sb s = mk_superblock"
  by (simp add: built_def on_image_def decode_encode_sb)

lemma inode_fields:
  assumes "built m files" "on_image s m" "has_inode s ip i" "i < 208"
  shows "i_type (icache s ip) = s16 (d_type (ino m i))" "i_nlink (icache s ip) = s16 (d_nlink (ino m i))" "i_size (icache s ip) = d_size (ino m i)"
    "j \<le> NDIRECT \<Longrightarrow> i_addrs (icache s ip) j = d_addrs (ino m i) j" "i_dev (icache s ip) = 1"
proof -
  have v: "view s (IBLOCK i (sb s)) = img m (ino_block i)" using image_sb [OF assms(1,2)] assms(2) ino_block_sb(1) [OF assms(4)] by (simp add: on_image_def)
  have e: "icache s ip = decode_dinode (img m (ino_block i)) (dinode_off i) (icache s ip)" using assms(3) v by (simp add: has_inode_def)
  show "i_type (icache s ip) = s16 (d_type (ino m i))" "i_nlink (icache s ip) = s16 (d_nlink (ino m i))" "i_size (icache s ip) = d_size (ino m i)"
    by (subst e; simp add: decode_dinode_def ino_def get_dinode_def)+
  show "i_addrs (icache s ip) j = d_addrs (ino m i) j" if "j \<le> NDIRECT"
    using that by (subst e) (simp add: decode_dinode_def ino_def get_dinode_def)
  show "i_dev (icache s ip) = 1" using assms(3) by (simp add: has_inode_def)
qed

lemma kernel_file:
  assumes "built m files" "on_image s m" "has_inode s ip i" "i < 208" "fmapped m (ino m i) k" "n \<le> k * BSIZE"
  shows "faddr s ip b = haddr m (ino m i) b" "file_ok s ip n"
proof -
  note l = inode_fields [OF assms(1-4)]
  have a: "faddr s ip b = haddr m (ino m i) b" for b using l(4) assms(2) by (simp add: faddr_def haddr_def on_image_def)
  then show "faddr s ip b = haddr m (ino m i) b" .
  have fb: "freeblock m \<le> disksize s" using assms(1,2) by (simp add: built_def on_image_def)
  have k: "k \<le> MAXFILE" using assms(5) by (simp add: fmapped_def)
  have "b < k" if "b * BSIZE < n" for b
  proof -
    have "b * BSIZE < k * BSIZE" using that assms(6) by linarith
    then show ?thesis by simp
  qed
  then have b: "b < k \<and> haddr m (ino m i) b \<noteq> 0 \<and> haddr m (ino m i) b < disksize s" if "b * BSIZE < n" for b
    using haddr_pos [OF assms(5)] fb that by (fastforce simp: mk_consts(1))
  have "n \<le> MAXFILE * BSIZE" using k assms(6) by (meson le_trans mult_le_mono1)
  moreover have "i_addrs (icache s ip) NDIRECT \<noteq> 0 \<and> i_addrs (icache s ip) NDIRECT < disksize s" if "b * BSIZE < n" "NDIRECT \<le> b" for b
    using ind_pos [OF assms(5)] b [OF that(1)] that(2) fb l(4) by (fastforce simp: mk_consts(1))
  ultimately show "file_ok s ip n" using a b l(5) by (simp add: file_ok_def)
qed

lemma kernel_bytes:
  assumes "built m files" "on_image s m" "has_inode s ip i" "i < 208" "fmapped m (ino m i) (nblk (length bs))" "holds_bytes m (ino m i) bs" "off < length bs"
  shows "fbyte s ip off = bs ! off"
proof -
  have "faddr s ip (off div BSIZE) = haddr m (ino m i) (off div BSIZE)"
    by (rule kernel_file(1) [OF assms(1-5)]) (use nblk_bound(2) [of "length bs" "nblk (length bs)"] in simp)
  then show ?thesis using assms(2,6,7) by (simp add: fbyte_def holds_bytes_def on_image_def)
qed

lemma s16_low: "v < 32768 \<Longrightarrow> s16 v = int v"
  by (simp add: s16_def)

text \<open>
  C11: When the files can be read and fit, \<^verbatim>\<open>mkfs\<close> finishes, and the kernel that runs on the image reads from
  the inodes 2, 3, ... exactly the files given, in their order, as regular files with one link.
\<close>

theorem mkfs_files_read_back:
  assumes "mk_fits files"
  shows "\<exists>m. mkfs (Some True) files mk_start = Done () m \<and>
    (\<forall>k < length files. \<forall>(s :: 'x fstate_scheme) ip off n. on_image s m \<longrightarrow> has_inode s ip (k + 2) \<longrightarrow> off \<le> length (concat (the (snd (files ! k)))) \<longrightarrow>
      off + n < 2 ^ 32 \<longrightarrow> i_type (icache s ip) = T_FILE \<and> i_nlink (icache s ip) = 1 \<and> i_size (icache s ip) = length (concat (the (snd (files ! k)))) \<and>
      wp (readi dv ip off n) (\<lambda>(r, bs) t. bs = take n (drop off (concat (the (snd (files ! k))))) \<and> r = int (length bs) \<and> same s t) s)"
proof -
  obtain m where m: "mkfs (Some True) files mk_start = Done () m" "built m files" using mkfs_ok [OF assms] by (auto simp: wp_Done)
  have "i_type (icache s ip) = T_FILE \<and> i_nlink (icache s ip) = 1 \<and> i_size (icache s ip) = length (concat (the (snd (files ! k)))) \<and>
      wp (readi dv ip off n) (\<lambda>(r, bs) t. bs = take n (drop off (concat (the (snd (files ! k))))) \<and> r = int (length bs) \<and> same s t) s"
    if a: "k < length files" "on_image s m" "has_inode s ip (k + 2)" "off \<le> length (concat (the (snd (files ! k))))" "off + n < 2 ^ 32"
    for k ip off n and s :: "'x fstate_scheme"
  proof -
    let ?c = "concat (the (snd (files ! k)))"
    have c: "content files (k + 2) = ?c" using a(1) by (simp add: content_def)
    have i: "k + 2 < 208" using a(1) assms by (simp add: mk_fits_def)
    have "file_on m (k + 2) (content files (k + 2)) \<and> mk_head (ino m (k + 2)) (k + 2)" using m(2) a(1) by (simp add: built_def)
    then have f: "file_on m (k + 2) ?c" "mk_head (ino m (k + 2)) (k + 2)" unfolding c by blast+
    have fo: "d_size (ino m (k + 2)) = length ?c" "fmapped m (ino m (k + 2)) (nblk (length ?c))" "holds_bytes m (ino m (k + 2)) ?c" using f(1) by (simp_all add: file_on_def)
    note l = inode_fields [OF m(2) a(2,3) i]
    have h: "i_type (icache s ip) = T_FILE" "i_nlink (icache s ip) = 1" "i_size (icache s ip) = length ?c"
      using l(1-3) f(2) fo(1) by (simp_all add: mk_head_def s16_low T_FILE_def)
    have ok: "file_ok s ip (i_size (icache s ip))" unfolding h(3)
      by (rule kernel_file(2) [OF m(2) a(2,3) i fo(2)]) (use nblk_bound(2) [of "length ?c" "nblk (length ?c)"] in simp)
    have e: "map (fbyte s ip) [off..<off + min n (length ?c - off)] = take n (drop off ?c)"
      using kernel_bytes [OF m(2) a(2,3) i fo(2,3)] a(4) by (intro nth_equalityI) (auto simp: min_def split: if_splits)
    have "wp (readi dv ip off n) (\<lambda>(r, bs) t. r = int (min n (length ?c - off)) \<and> bs = take n (drop off ?c) \<and> same s t) s"
      using readi_ok [of s ip off n dv] ok a(2,4,5) h e by (simp add: on_image_def T_FILE_def T_DEV_def)
    then have "wp (readi dv ip off n) (\<lambda>(r, bs) t. bs = take n (drop off ?c) \<and> r = int (length bs) \<and> same s t) s"
      by (rule wp_conseq) (auto simp: min.commute)
    then show ?thesis using h by blast
  qed
  then show ?thesis using m(1) by blast
qed

text \<open>A program of six bytes and one that reaches past the direct blocks, on a kernel that has loaded inode \<open>k + 2\<close>.\<close>

definition demo_files :: "hostfile list" where
  "demo_files = [([95, 99, 97, 116], Some [[1, 2, 3], [4, 5, 6]]), ([108, 115], Some (replicate 14 (replicate 512 7)))]"

lemma demo_fits: "mk_fits demo_files"
proof -
  have c: "length (content demo_files 1) = 64" by (simp add: content_def length_dir_bytes demo_files_def)
  have c2: "length (content demo_files 2) = 6" by (simp add: content_def demo_files_def)
  have c3: "length (content demo_files 3) = 7168" by (simp add: content_def demo_files_def length_concat sum_list_replicate)
  have "slots_of (content demo_files 1) = 1" "slots_of (content demo_files 2) = 1" "slots_of (content demo_files 3) = 15"
    by (simp_all add: slots_of_def c [simplified] c2 c3 nslots_def nblk_def sizes)
  moreover have "(\<Sum>i = 1..length demo_files + 1. f i) = f 1 + (f 2 + f 3)" for f :: "nat \<Rightarrow> nat"
    by (simp add: demo_files_def numeral_3_eq_3 numeral_2_eq_2)
  then have "(\<Sum>i = 1..length demo_files + 1. slots_of (content demo_files i)) = slots_of (content demo_files 1) + (slots_of (content demo_files 2) + slots_of (content demo_files 3))" .
  ultimately have "nmeta + (\<Sum>i = 1..length demo_files + 1. slots_of (content demo_files i)) \<le> FSSIZE" by (simp add: mk_consts)
  moreover have "length (concat (the (snd f))) \<le> MAXFILE * BSIZE" if "f \<in> set demo_files" for f
    using that by (auto simp: demo_files_def length_concat sum_list_replicate sizes)
  ultimately show ?thesis unfolding mk_fits_def by (auto simp: demo_files_def)
qed

lemma decode_again: "decode_dinode d k ((decode_dinode d k i)\<lparr>i_ref := r\<rparr>) = (decode_dinode d k i)\<lparr>i_ref := r\<rparr>"
  by (cases i) (simp add: decode_dinode_def fun_eq_iff)

definition image_kernel :: "mkimg \<Rightarrow> nat \<Rightarrow> fstate" where
  "image_kernel m i = cold_fs (img m) (\<lambda>_. (decode_dinode (img m (ino_block i)) (dinode_off i) demo_inode)\<lparr>i_ref := 0\<rparr>)"

lemma image_kernel_ok:
  assumes "built m files" "i < 208"
  shows "on_image (image_kernel m i) m" "has_inode (image_kernel m i) 0 i"
proof -
  have sb: "sb (image_kernel m i) = mk_superblock" by (simp add: image_kernel_def cold_fs_def mk_consts(6))
  show "on_image (image_kernel m i) m" unfolding on_image_def idle_def using assms(1) sb
    by (simp add: image_kernel_def cold_fs_sel cold_fs_cache(1) built_def decode_encode_sb mk_consts(2) NBUF_num)
  show "has_inode (image_kernel m i) 0 i" unfolding has_inode_def sb ino_block_sb(1) [OF assms(2)]
    by (simp add: image_kernel_def cold_fs_sel decode_again) (simp add: decode_dinode_def demo_inode_def)
qed

lemma mkfs_files_read_back_witness:
  "\<exists>m (s :: fstate). mkfs (Some True) demo_files mk_start = Done () m \<and> on_image s m \<and>
     (\<forall>dv. wp (readi dv 0 2 3) (\<lambda>(r, bs) t. bs = [3, 4, 5] \<and> r = 3 \<and> same s t) s)"
proof -
  obtain m where m: "mkfs (Some True) demo_files mk_start = Done () m" "built m demo_files" using mkfs_ok [OF demo_fits] by (auto simp: wp_Done)
  let ?s = "image_kernel m 2"
  have s: "on_image ?s m" "has_inode ?s 0 2" using image_kernel_ok [OF m(2), of 2] by simp_all
  have "wp (readi dv 0 2 3) (\<lambda>(r, bs) t. bs = [3, 4, 5] \<and> r = 3 \<and> same ?s t) ?s" for dv
  proof -
    obtain m' where m': "mkfs (Some True) demo_files mk_start = Done () m'"
      "\<forall>k < length demo_files. \<forall>(s :: fstate) ip off n. on_image s m' \<longrightarrow> has_inode s ip (k + 2) \<longrightarrow> off \<le> length (concat (the (snd (demo_files ! k)))) \<longrightarrow>
        off + n < 2 ^ 32 \<longrightarrow> i_type (icache s ip) = T_FILE \<and> i_nlink (icache s ip) = 1 \<and> i_size (icache s ip) = length (concat (the (snd (demo_files ! k)))) \<and>
        wp (readi dv ip off n) (\<lambda>(r, bs) t. bs = take n (drop off (concat (the (snd (demo_files ! k))))) \<and> r = int (length bs) \<and> same s t) s"
      using mkfs_files_read_back [OF demo_fits, where dv = dv] by blast
    have e: "m' = m" using m(1) m'(1) by simp
    have s0: "has_inode ?s 0 (0 + 2)" using s(2) by (simp only: add_0)
    have d: "0 < length demo_files" "concat (the (snd (demo_files ! 0))) = [1, 2, 3, 4, 5, 6]" by (simp_all add: demo_files_def)
    have "wp (readi dv 0 2 3) (\<lambda>(r, bs) t. bs = take 3 (drop 2 [1, 2, 3, 4, 5, 6]) \<and> r = int (length bs) \<and> same ?s t) ?s"
      using m'(2) [unfolded e, rule_format, OF d(1) s(1) s0, of 2 3] unfolding d(2) by simp
    then show ?thesis by (rule wp_conseq) auto
  qed
  then show ?thesis using m(1) s(1) by blast
qed

section \<open>The root directory\<close>

definition name_arr :: "byte list \<Rightarrow> arr" where
  "name_arr xs = (\<lambda>i. if i < length xs then xs ! i else 0)"

lemma cstr_name: "0 \<notin> set xs \<Longrightarrow> cstr DIRSIZ (name_arr xs) = take DIRSIZ xs"
  using cstr_full [of xs DIRSIZ "name_arr xs"] cstr_list [of xs "name_arr xs" DIRSIZ]
  by (cases "DIRSIZ \<le> length xs") (auto simp: name_arr_def DIRSIZ_num)

lemma dirent_inum: "i < 65536 \<Longrightarrow> de_inum (mk_dirent i name) = i"
  by (simp add: de_inum_def mk_dirent_def le16_def unat_of_nat8 del: unat_of_nat)

lemma dirent_name: "0 \<notin> set name \<Longrightarrow> cstr DIRSIZ (de_name (mk_dirent i name)) = take DIRSIZ name"
proof -
  assume z: "0 \<notin> set name"
  have "cstr DIRSIZ (de_name (mk_dirent i name)) = cstr DIRSIZ (name_arr name)"
    by (rule cstr_cong) (auto simp: de_name_def mk_dirent_def name_arr_def nth_append)
  then show ?thesis using cstr_name [OF z] by simp
qed

lemma dirent_match: "0 \<notin> set x \<Longrightarrow> 0 \<notin> set y \<Longrightarrow> namecmp (name_arr x) (de_name (mk_dirent i y)) = 0 \<longleftrightarrow> take DIRSIZ x = take DIRSIZ y"
  by (simp add: namecmp_def strncmp_eq_iff cstr_name dirent_name)

lemma piece_of_concat: "\<forall>x \<in> set xs. length x = c \<Longrightarrow> k < length xs \<Longrightarrow> take c (drop (c * k) (concat xs)) = xs ! k"
proof (induction xs arbitrary: k)
  case (Cons x xs)
  then show ?case by (cases k) (simp_all add: add.commute)
qed simp

definition dir_entries_of :: "byte list list \<Rightarrow> byte list list" where
  "dir_entries_of names = mk_dirent 1 [46] # mk_dirent 1 [46, 46] # map (\<lambda>j. mk_dirent (j + 2) (strip (names ! j))) [0..<length names]"

lemma dir_bytes_entry: "k < length names + 2 \<Longrightarrow> take 16 (drop (16 * k) (dir_bytes names)) = dir_entries_of names ! k"
proof -
  assume k: "k < length names + 2"
  have "dir_bytes names = concat (dir_entries_of names)" by (simp add: dir_bytes_def dir_entries_of_def)
  then show ?thesis using piece_of_concat [of "dir_entries_of names" 16 k] k by (auto simp: dir_entries_of_def)
qed

lemma nblk_partial: "n mod 512 \<noteq> 0 \<Longrightarrow> nblk n = n div BSIZE + 1"
proof -
  define q r where "q = n div 512" and "r = n mod 512"
  then have n: "n = 512 * q + r" "r < 512" by simp_all
  assume "n mod 512 \<noteq> 0"
  then have "0 < r" by (simp add: r_def)
  then have "(n + 511) div 512 = q + 1" using n by (intro div_nat_eqI) auto
  then show ?thesis by (simp add: nblk_def BSIZE_num q_def)
qed



section \<open>The bit map\<close>

text \<open>
  C13: The bit map that \<^verbatim>\<open>mkfs\<close> writes is exact for the kernel: a block is free just when it is a data block
  that no file or directory of the image uses, and no block is used twice.
\<close>

theorem mkfs_map_exact:
  assumes "mk_fits files"
  shows "\<exists>m. mkfs (Some True) files mk_start = Done () m \<and> shared_less m files \<and>
    (\<forall>(s :: 'x fstate_scheme) b. on_image s m \<longrightarrow> b < FSSIZE \<longrightarrow>
       (blk_free s b \<longleftrightarrow> nmeta \<le> b \<and> (\<forall>i. 1 \<le> i \<longrightarrow> i \<le> length files + 1 \<longrightarrow> b \<notin> own m i (content files i))))"
proof -
  obtain m where m: "mkfs (Some True) files mk_start = Done () m" "built m files" using mkfs_ok [OF assms] by (auto simp: wp_Done)
  let ?N = "length files + 1" and ?own = "\<lambda>i. own m i (content files i)"
  have mp: "fmapped m (ino m i) (nblk (length (content files i)))" if "1 \<le> i" "i \<le> ?N" for i
    using m(2) that by (cases "i = 1") (auto simp: built_def file_on_def)
  have sub: "(\<Union>i \<in> {1..?N}. ?own i) \<subseteq> {nmeta..<freeblock m}" using mp by (fastforce simp: fmapped_def own_def)
  have "card (?own i) = slots_of (content files i)" if "i \<in> {1..?N}" for i
    using mp [of i] that by (simp add: fmapped_def own_def distinct_card slots_of_def)
  moreover have "card (\<Union>i \<in> {1..?N}. ?own i) = (\<Sum>i = 1..?N. card (?own i))"
    using m(2) by (intro card_UN_disjoint) (auto simp: own_def built_def shared_less_def)
  ultimately have "card (\<Union>i \<in> {1..?N}. ?own i) = card {nmeta..<freeblock m}" using m(2) by (simp add: built_def)
  then have all: "(\<Union>i \<in> {1..?N}. ?own i) = {nmeta..<freeblock m}" using card_subset_eq [OF _ sub] by simp
  have "blk_free s b \<longleftrightarrow> nmeta \<le> b \<and> (\<forall>i. 1 \<le> i \<longrightarrow> i \<le> ?N \<longrightarrow> b \<notin> ?own i)" if s: "on_image s m" "b < FSSIZE" for b and s :: "'x fstate_scheme"
  proof -
    have "BBLOCK b (sb s) = 58" "b mod BPB = b" using image_sb [OF m(2) s(1)] s(2) by (simp_all add: BBLOCK_def mk_consts BPB_num)
    then have "blk_free s b \<longleftrightarrow> \<not> b < freeblock m" using m(2) s by (simp add: blk_free_def built_def on_image_def mk_consts(2) BPB_num)
    also have "\<dots> \<longleftrightarrow> nmeta \<le> b \<and> b \<notin> {nmeta..<freeblock m}" using m(2) by (auto simp: built_def)
    also have "\<dots> \<longleftrightarrow> nmeta \<le> b \<and> (\<forall>i. 1 \<le> i \<longrightarrow> i \<le> ?N \<longrightarrow> b \<notin> ?own i)" unfolding all [symmetric] by auto
    finally show ?thesis .
  qed
  then show ?thesis using m unfolding built_def by blast
qed

lemma mkfs_map_exact_witness:
  "\<exists>m (s :: fstate). mkfs (Some True) demo_files mk_start = Done () m \<and> on_image s m \<and> \<not> blk_free s 58"
proof -
  obtain m where m: "mkfs (Some True) demo_files mk_start = Done () m" "built m demo_files" using mkfs_ok [OF demo_fits] by (auto simp: wp_Done)
  have s: "on_image (image_kernel m 1) m" using image_kernel_ok(1) [OF m(2), of 1] by simp
  obtain m' where m': "mkfs (Some True) demo_files mk_start = Done () m'"
    "\<forall>(s :: fstate) b. on_image s m' \<longrightarrow> b < FSSIZE \<longrightarrow>
       (blk_free s b \<longleftrightarrow> nmeta \<le> b \<and> (\<forall>i. 1 \<le> i \<longrightarrow> i \<le> length demo_files + 1 \<longrightarrow> b \<notin> own m' i (content demo_files i)))"
    using mkfs_map_exact [OF demo_fits] by blast
  have e: "m' = m" using m(1) m'(1) by simp
  have "\<not> blk_free (image_kernel m 1) 58" using m'(2) [unfolded e, rule_format, OF s, of 58] by (simp add: mk_consts)
  then show ?thesis using m(1) s by blast
qed

end
