(* ===== verification/Ide.thy ===== *)
theory Ide
  imports Prelude
begin

unbundle bit_operations_syntax

text \<open>
  The driver of the real disk (\<^verbatim>\<open>ide.c\<close>): a queue of buffers linked by \<^verbatim>\<open>qnext\<close>, the head of which the drive is
  working on. What the driver writes to ports is kept as a list. What it reads comes from outside: the successive
  values of the status port as a list, and the block a finished read delivers. The outcome \<open>None\<close> is a wait for
  the drive that does not end; \<open>Inl\<close> is a panic. A sleeping process is named by the buffer it sleeps on.
\<close>

section \<open>State\<close>

definition SECTOR_SIZE_IDE :: nat where "SECTOR_SIZE_IDE = 512"
definition IDE_BSY :: nat where "IDE_BSY = 0x80"
definition IDE_DRDY :: nat where "IDE_DRDY = 0x40"
definition IDE_DF :: nat where "IDE_DF = 0x20"
definition IDE_ERR :: nat where "IDE_ERR = 0x01"
definition IDE_CMD_READ :: nat where "IDE_CMD_READ = 0x20"
definition IDE_CMD_WRITE :: nat where "IDE_CMD_WRITE = 0x30"
definition IDE_CMD_RDMUL :: nat where "IDE_CMD_RDMUL = 0xc4"
definition IDE_CMD_WRMUL :: nat where "IDE_CMD_WRMUL = 0xc5"

lemmas ide_codes = IDE_BSY_def IDE_DRDY_def IDE_DF_def IDE_ERR_def IDE_CMD_READ_def IDE_CMD_WRITE_def IDE_CMD_RDMUL_def IDE_CMD_WRMUL_def SECTOR_SIZE_IDE_def

record ibuf =
  ib_dev :: nat
  ib_blockno :: nat
  ib_valid :: bool
  ib_dirty :: bool
  ib_data :: block
  ib_qnext :: "nat option"

datatype io = Outb nat nat | Outsl nat block

record ide =
  ibufs :: "nat \<Rightarrow> ibuf"
  idequeue :: "nat option"
  havedisk1 :: bool
  ide_out :: "io list"
  ide_asleep :: "nat set"

type_synonym 'a ide_res = "(string + 'a \<times> ide) option"

definition set_ibuf :: "nat \<Rightarrow> (ibuf \<Rightarrow> ibuf) \<Rightarrow> ide \<Rightarrow> ide" where
  "set_ibuf b f s = s\<lparr>ibufs := (ibufs s)(b := f (ibufs s b))\<rparr>"

definition outs :: "io list \<Rightarrow> ide \<Rightarrow> ide" where
  "outs xs s = s\<lparr>ide_out := ide_out s @ xs\<rparr>"

section \<open>Operations\<close>

fun idewait :: "bool \<Rightarrow> nat list \<Rightarrow> (int \<times> nat list) option" where
  "idewait checkerr [] = None"
| "idewait checkerr (r # rs) = (if r AND (IDE_BSY OR IDE_DRDY) \<noteq> IDE_DRDY then idewait checkerr rs
     else Some (if checkerr \<and> r AND (IDE_DF OR IDE_ERR) \<noteq> 0 then - 1 else 0, rs))"

definition ideinit :: "nat list \<Rightarrow> ide \<Rightarrow> unit ide_res" where
  "ideinit rs s = (case idewait False rs of None \<Rightarrow> None | Some (_, rs) \<Rightarrow>
     let s = outs [Outb 0x1f6 (0xe0 OR push_bit 4 1)] s; s = (if \<exists>r \<in> set (take 1000 rs). r \<noteq> 0 then s\<lparr>havedisk1 := True\<rparr> else s) in
     Some (Inr ((), outs [Outb 0x1f6 (0xe0 OR push_bit 4 0)] s)))"

definition ide_regs :: "nat \<Rightarrow> nat \<Rightarrow> nat \<Rightarrow> io list" where
  "ide_regs n dev sec = [Outb 0x3f6 0, Outb 0x1f2 n, Outb 0x1f3 (sec AND 0xff), Outb 0x1f4 (drop_bit 8 sec AND 0xff),
     Outb 0x1f5 (drop_bit 16 sec AND 0xff), Outb 0x1f6 (0xe0 OR push_bit 4 (dev AND 1) OR (drop_bit 24 sec AND 0x0f))]"

definition idestart :: "nat option \<Rightarrow> nat list \<Rightarrow> ide \<Rightarrow> nat list ide_res" where
  "idestart p rs s = (case p of None \<Rightarrow> Some (Inl ''idestart'') | Some b \<Rightarrow>
     if FSSIZE \<le> ib_blockno (ibufs s b) then Some (Inl ''incorrect blockno'')
     else let n = BSIZE div SECTOR_SIZE_IDE; sec = ib_blockno (ibufs s b) * n;
         read_cmd = (if n = 1 then IDE_CMD_READ else IDE_CMD_RDMUL); write_cmd = (if n = 1 then IDE_CMD_WRITE else IDE_CMD_WRMUL) in
       if 7 < n then Some (Inl ''idestart'')
       else (case idewait False rs of None \<Rightarrow> None | Some (_, rs) \<Rightarrow>
         let s = outs (ide_regs n (ib_dev (ibufs s b)) sec) s in
         Some (Inr (rs, if ib_dirty (ibufs s b) then outs [Outb 0x1f7 write_cmd, Outsl 0x1f0 (ib_data (ibufs s b))] s
           else outs [Outb 0x1f7 read_cmd] s))))"

definition ide_wakeup :: "nat \<Rightarrow> ide \<Rightarrow> ide" where
  "ide_wakeup b s = s\<lparr>ide_asleep := ide_asleep s - {b}\<rparr>"

text \<open>\<open>d\<close> is the block \<^verbatim>\<open>insl\<close> delivers.\<close>

definition ideintr :: "nat list \<Rightarrow> block \<Rightarrow> ide \<Rightarrow> unit ide_res" where
  "ideintr rs d s = (case idequeue s of None \<Rightarrow> Some (Inr ((), s)) | Some b \<Rightarrow>
     let s = s\<lparr>idequeue := ib_qnext (ibufs s b)\<rparr> in
     case (if ib_dirty (ibufs s b) then Some (rs, s)
           else (case idewait True rs of None \<Rightarrow> None | Some (e, rs) \<Rightarrow> Some (rs, if 0 \<le> e then set_ibuf b (\<lambda>i. i\<lparr>ib_data := d\<rparr>) s else s))) of
       None \<Rightarrow> None
     | Some (rs, s) \<Rightarrow> let s = ide_wakeup b (set_ibuf b (\<lambda>i. i\<lparr>ib_valid := True, ib_dirty := False\<rparr>) s) in
         (case idequeue s of None \<Rightarrow> Some (Inr ((), s))
          | Some q \<Rightarrow> (case idestart (Some q) rs s of None \<Rightarrow> None | Some (Inl e) \<Rightarrow> Some (Inl e) | Some (Inr (_, s)) \<Rightarrow> Some (Inr ((), s)))))"

text \<open>The last buffer of the queue that begins at \<open>b\<close>.\<close>

partial_function (option) queue_last :: "nat \<Rightarrow> ide \<Rightarrow> nat option" where
  "queue_last b s = (case ib_qnext (ibufs s b) of None \<Rightarrow> Some b | Some q \<Rightarrow> queue_last q s)"

declare queue_last.simps [code]

definition append_queue :: "nat \<Rightarrow> ide \<Rightarrow> ide option" where
  "append_queue b s = (case idequeue s of None \<Rightarrow> Some (s\<lparr>idequeue := Some b\<rparr>)
     | Some q \<Rightarrow> (case queue_last q s of None \<Rightarrow> None | Some l \<Rightarrow> Some (set_ibuf l (\<lambda>i. i\<lparr>ib_qnext := Some b\<rparr>) s)))"

text \<open>The test of the waiting loop: \<open>True\<close> when the request is done, otherwise the process sleeps.\<close>

definition iderw_wait :: "nat \<Rightarrow> ide \<Rightarrow> bool \<times> ide" where
  "iderw_wait b s = (if ib_valid (ibufs s b) \<and> \<not> ib_dirty (ibufs s b) then (True, s) else (False, s\<lparr>ide_asleep := insert b (ide_asleep s)\<rparr>))"

text \<open>\<open>held\<close> is what \<^verbatim>\<open>holdingsleep\<close> answers.\<close>

definition iderw_ide :: "bool \<Rightarrow> nat \<Rightarrow> nat list \<Rightarrow> ide \<Rightarrow> bool ide_res" where
  "iderw_ide held b rs s = (if \<not> held then Some (Inl ''iderw: buf not locked'')
     else if ib_valid (ibufs s b) \<and> \<not> ib_dirty (ibufs s b) then Some (Inl ''iderw: nothing to do'')
     else if ib_dev (ibufs s b) \<noteq> 0 \<and> \<not> havedisk1 s then Some (Inl ''iderw: ide disk 1 not present'')
     else (case append_queue b (set_ibuf b (\<lambda>i. i\<lparr>ib_qnext := None\<rparr>) s) of None \<Rightarrow> None
       | Some s \<Rightarrow> (case (if idequeue s = Some b then idestart (Some b) rs s else Some (Inr (rs, s))) of
           None \<Rightarrow> None | Some (Inl e) \<Rightarrow> Some (Inl e) | Some (Inr (_, s)) \<Rightarrow> Some (Inr (iderw_wait b s)))))"

section \<open>The drive\<close>

text \<open>
  What the driver's port writes mean to a drive of the ATA standard, in 28-bit addressing: the task file, the
  command under way with its drive and sector, and the blocks of the two drives.
\<close>

record drive =
  task :: "nat \<Rightarrow> nat"
  busy :: "(nat \<times> nat \<times> nat) option"
  store :: "nat \<Rightarrow> nat \<Rightarrow> block"

definition task_drive :: "(nat \<Rightarrow> nat) \<Rightarrow> nat" where
  "task_drive r = r 0x1f6 div 16 mod 2"

definition task_sector :: "(nat \<Rightarrow> nat) \<Rightarrow> nat" where
  "task_sector r = r 0x1f3 + 256 * r 0x1f4 + 65536 * r 0x1f5 + 16777216 * (r 0x1f6 mod 16)"

fun drive_io :: "io \<Rightarrow> drive \<Rightarrow> drive" where
  "drive_io (Outb p v) a = (if p = 0x1f7 then a\<lparr>busy := Some (v, task_drive (task a), task_sector (task a))\<rparr> else a\<lparr>task := (task a)(p := v)\<rparr>)"
| "drive_io (Outsl p d) a = (case busy a of None \<Rightarrow> a
     | Some (c, dr, sec) \<Rightarrow> if p = 0x1f0 \<and> c = IDE_CMD_WRITE then a\<lparr>store := (store a)(dr := (store a dr)(sec := d))\<rparr> else a)"

definition drive_of :: "(nat \<Rightarrow> nat \<Rightarrow> block) \<Rightarrow> ide \<Rightarrow> drive" where
  "drive_of d0 s = fold drive_io (ide_out s) \<lparr>task = \<lambda>_. 0, busy = None, store = d0\<rparr>"

text \<open>The block a finished read delivers.\<close>

definition delivered :: "drive \<Rightarrow> block" where
  "delivered a = (case busy a of None \<Rightarrow> zero_block | Some (c, dr, sec) \<Rightarrow> store a dr sec)"

text \<open>
  Any number of processes: one that holds an idle buffer fills in a request and calls \<^verbatim>\<open>iderw\<close>; the drive
  finishes the command at the head of the queue, without error, and interrupts; a process that was woken goes on.
  The second component are the buffers under a call, the third the list of requests in the order of their calls.
\<close>

definition usable :: "ide \<Rightarrow> ibuf \<Rightarrow> bool" where
  "usable s i \<longleftrightarrow> \<not> (ib_valid i \<and> \<not> ib_dirty i) \<and> ib_blockno i < FSSIZE \<and> (ib_dev i = 0 \<or> ib_dev i = 1 \<and> havedisk1 s)"

inductive ide_step :: "(nat \<Rightarrow> nat \<Rightarrow> block) \<Rightarrow> ide \<times> nat set \<Rightarrow> ide \<times> nat set \<Rightarrow> bool" for d0 :: "nat \<Rightarrow> nat \<Rightarrow> block" where
  call: "b \<notin> U \<Longrightarrow> usable s i \<Longrightarrow> iderw_ide True b rs (set_ibuf b (\<lambda>_. i) s) = Some (Inr (r, s')) \<Longrightarrow>
    ide_step d0 (s, U) (s', if r then U else insert b U)"
| intr: "idequeue s \<noteq> None \<Longrightarrow> \<exists>e rs'. idewait True rs = Some (e, rs') \<and> 0 \<le> e \<Longrightarrow>
    ideintr rs (delivered (drive_of d0 s)) s = Some (Inr ((), s')) \<Longrightarrow> ide_step d0 (s, U) (s', U)"
| wake: "b \<in> U \<Longrightarrow> b \<notin> ide_asleep s \<Longrightarrow> iderw_wait b s = (r, s') \<Longrightarrow> ide_step d0 (s, U) (s', if r then U - {b} else U)"

text \<open>A drive that is ready each time it is asked, without error, as often as an interrupt needs.\<close>

definition drive_ready :: "nat list \<Rightarrow> bool" where
  "drive_ready rs \<longleftrightarrow> 2 \<le> length rs \<and> (\<forall>r \<in> set rs. r = IDE_DRDY)"

section \<open>The disk in memory\<close>

text \<open>
  What the file system model takes the disk for: blocks, and the requests in the order of their calls, each of
  them served at once when its turn comes.
\<close>

record idisk =
  dstore :: "nat \<Rightarrow> nat \<Rightarrow> block"
  dfifo :: "nat list"
  dbufs :: "nat \<Rightarrow> ibuf"
  dcalls :: "nat set"

definition put_blk :: "ibuf \<Rightarrow> (nat \<Rightarrow> nat \<Rightarrow> block) \<Rightarrow> nat \<Rightarrow> nat \<Rightarrow> block" where
  "put_blk i d = (if ib_dirty i then d(ib_dev i := (d (ib_dev i))(ib_blockno i := ib_data i)) else d)"

definition memory_rw :: "(nat \<Rightarrow> nat \<Rightarrow> block) \<Rightarrow> ibuf \<Rightarrow> ibuf" where
  "memory_rw d i = (if ib_dirty i then i else i\<lparr>ib_data := d (ib_dev i) (ib_blockno i)\<rparr>)\<lparr>ib_valid := True, ib_dirty := False\<rparr>"

definition same_buf :: "ibuf \<Rightarrow> ibuf \<Rightarrow> bool" where
  "same_buf i j \<longleftrightarrow> i\<lparr>ib_qnext := None\<rparr> = j\<lparr>ib_qnext := None\<rparr>"

inductive disk_step :: "ide \<Rightarrow> idisk \<Rightarrow> idisk \<Rightarrow> bool" for s0 :: ide where
  request: "b \<notin> dcalls a \<Longrightarrow> usable s0 i \<Longrightarrow> disk_step s0 a (a\<lparr>dbufs := (dbufs a)(b := i), dfifo := dfifo a @ [b], dcalls := insert b (dcalls a)\<rparr>)"
| serve: "dfifo a = b # xs \<Longrightarrow> disk_step s0 a (a\<lparr>dstore := put_blk (dbufs a b) (dstore a), dbufs := (dbufs a)(b := memory_rw (dstore a) (dbufs a b)), dfifo := xs\<rparr>)"
| over: "b \<in> dcalls a \<Longrightarrow> b \<notin> set (dfifo a) \<Longrightarrow> disk_step s0 a (a\<lparr>dcalls := dcalls a - {b}\<rparr>)"

primrec qlinks :: "(nat \<Rightarrow> nat option) \<Rightarrow> nat option \<Rightarrow> nat list \<Rightarrow> bool" where
  "qlinks f p [] \<longleftrightarrow> p = None"
| "qlinks f p (x # xs) \<longleftrightarrow> p = Some x \<and> qlinks f (f x) xs"

definition qnext :: "ide \<Rightarrow> nat \<Rightarrow> nat option" where
  "qnext s b = ib_qnext (ibufs s b)"

text \<open>The drive works on the head of the queue, and a block to be written is in the drive from the start.\<close>

definition ide_rel :: "(nat \<Rightarrow> nat \<Rightarrow> block) \<Rightarrow> ide \<Rightarrow> ide \<times> nat set \<Rightarrow> idisk \<Rightarrow> bool" where
  "ide_rel d0 s0 = (\<lambda>(s, U) a. havedisk1 s = havedisk1 s0 \<and> qlinks (qnext s) (idequeue s) (dfifo a) \<and> distinct (dfifo a) \<and> set (dfifo a) \<subseteq> U \<and>
     U = dcalls a \<and> ide_asleep s = set (dfifo a) \<and> (\<forall>b. same_buf (ibufs s b) (dbufs a b)) \<and>
     (\<forall>b \<in> U - set (dfifo a). ib_valid (ibufs s b) \<and> \<not> ib_dirty (ibufs s b)) \<and> (\<forall>b \<in> set (dfifo a). usable s (ibufs s b)) \<and>
     (case dfifo a of [] \<Rightarrow> store (drive_of d0 s) = dstore a
      | x # xs \<Rightarrow> (\<exists>c. busy (drive_of d0 s) = Some (c, ib_dev (ibufs s x), ib_blockno (ibufs s x))) \<and> store (drive_of d0 s) = put_blk (ibufs s x) (dstore a)))"

definition ide_begin :: "ide \<Rightarrow> bool" where
  "ide_begin s \<longleftrightarrow> idequeue s = None \<and> ide_out s = [] \<and> ide_asleep s = {}"

definition disk_begin :: "(nat \<Rightarrow> nat \<Rightarrow> block) \<Rightarrow> ide \<Rightarrow> idisk" where
  "disk_begin d0 s = \<lparr>dstore = d0, dfifo = [], dbufs = ibufs s, dcalls = {}\<rparr>"

end
