(* ===== verification/IdeProps.thy ===== *)
theory IdeProps
  imports Ide
begin

text \<open>
  The driver of \<^verbatim>\<open>ide.c\<close> with its drive behaves like a disk in memory that serves the requests in the order of
  the calls, which is what the model of the buffer cache assumes.
\<close>

unbundle bit_operations_syntax

section \<open>Starting a command\<close>

lemma drive_ready_wait: "drive_ready rs \<Longrightarrow> \<exists>e rs'. idewait ce rs = Some (e, rs') \<and> 0 \<le> e \<and> rs' \<noteq> [] \<and> (\<forall>r \<in> set rs'. r = IDE_DRDY)"
  by (cases rs) (auto simp: drive_ready_def ide_codes)

lemma ready_once: "rs \<noteq> [] \<Longrightarrow> \<forall>r \<in> set rs. r = IDE_DRDY \<Longrightarrow> \<exists>e rs'. idewait ce rs = Some (e, rs')"
  by (cases rs) (auto simp: ide_codes)

lemma drive_outs: "drive_of d0 (outs xs s) = fold drive_io xs (drive_of d0 s)"
  by (simp add: drive_of_def outs_def)

lemma byte_parts:
  fixes sec :: nat
  assumes "sec < 1000"
  shows "sec AND 255 = sec mod 256" "drop_bit 8 sec AND 255 = sec div 256" "drop_bit 16 sec = 0" "drop_bit 24 sec = 0"
proof -
  have m: "x AND 255 = x mod 256" for x :: nat using take_bit_eq_mask [of 8 x] by (simp add: take_bit_eq_mod mask_eq_exp_minus_1)
  then show "sec AND 255 = sec mod 256" .
  have "sec div 256 < 256" using assms by simp
  then show "drop_bit 8 sec AND 255 = sec div 256" using m [of "sec div 256"] by (simp add: drop_bit_eq_div)
  show "drop_bit 16 sec = 0" "drop_bit 24 sec = 0" using assms by (simp_all add: drop_bit_eq_div)
qed

lemma task_after:
  assumes "sec < 1000" "dev = 0 \<or> dev = 1"
  shows "task_drive (task (fold drive_io (ide_regs n dev sec) a)) = dev" "task_sector (task (fold drive_io (ide_regs n dev sec) a)) = sec"
    "store (fold drive_io (ide_regs n dev sec) a) = store a"
proof -
  have r: "(0xe0 :: nat) OR push_bit 4 (dev AND 1) OR (drop_bit 24 sec AND 0x0f) = 224 + 16 * dev"
    using assms by (auto simp: byte_parts(4) push_bit_eq_mult)
  show "task_drive (task (fold drive_io (ide_regs n dev sec) a)) = dev" "task_sector (task (fold drive_io (ide_regs n dev sec) a)) = sec"
    "store (fold drive_io (ide_regs n dev sec) a) = store a"
    unfolding ide_regs_def r using assms byte_parts [OF assms(1)] by (auto simp: task_drive_def task_sector_def)
qed

lemma idestart_ok:
  assumes "usable s0 (ibufs s b)" "idestart (Some b) rs s = Some r"
  obtains e rs' s' where "r = Inr (rs', s')" "idewait False rs = Some (e, rs')" "\<exists>xs. s' = outs xs s"
    "\<exists>c. busy (drive_of dk s') = Some (c, ib_dev (ibufs s b), ib_blockno (ibufs s b))" "store (drive_of dk s') = put_blk (ibufs s b) (store (drive_of dk s))"
proof -
  let ?i = "ibufs s b"
  have i: "ib_blockno ?i < 1000" "ib_dev ?i = 0 \<or> ib_dev ?i = 1" using assms(1) by (auto simp: usable_def FSSIZE_def)
  let ?rest = "if ib_dirty ?i then [Outb 0x1f7 IDE_CMD_WRITE, Outsl 0x1f0 (ib_data ?i)] else [Outb 0x1f7 IDE_CMD_READ]"
  obtain e rs' where w: "idewait False rs = Some (e, rs')" and r: "r = Inr (rs', outs (ide_regs 1 (ib_dev ?i) (ib_blockno ?i) @ ?rest) s)"
    using assms(2) i(1) by (auto simp: idestart_def FSSIZE_def BSIZE_num SECTOR_SIZE_IDE_def Let_def outs_def split: option.splits if_splits)
  let ?s = "outs (ide_regs 1 (ib_dev ?i) (ib_blockno ?i) @ ?rest) s"
  have "drive_of dk ?s = fold drive_io ?rest (fold drive_io (ide_regs 1 (ib_dev ?i) (ib_blockno ?i)) (drive_of dk s))" by (simp add: drive_outs)
  then have "\<exists>c. busy (drive_of dk ?s) = Some (c, ib_dev ?i, ib_blockno ?i)" "store (drive_of dk ?s) = put_blk ?i (store (drive_of dk s))"
    using task_after [OF i] by (auto simp: put_blk_def)
  then show ?thesis using that [OF r w] by blast
qed

lemma idestart_ready:
  assumes "usable s0 (ibufs s b)" "idewait False rs \<noteq> None"
  shows "\<exists>r. idestart (Some b) rs s = Some r"
  using assms by (auto simp: idestart_def usable_def BSIZE_num SECTOR_SIZE_IDE_def Let_def)

section \<open>The queue\<close>

lemma qlinks_cong: "(\<And>x. x \<in> set xs \<Longrightarrow> f x = g x) \<Longrightarrow> qlinks f p xs \<longleftrightarrow> qlinks g p xs"
  by (induction xs arbitrary: p) auto

lemma qlinks_snoc: "qlinks f p (xs @ [x]) \<Longrightarrow> distinct (xs @ [x]) \<Longrightarrow> y \<notin> set (xs @ [x]) \<Longrightarrow> qlinks (f(x := Some y, y := None)) p ((xs @ [x]) @ [y])"
  by (induction xs arbitrary: p) auto

lemma queue_last_ok: "qlinks (qnext s) (Some b) (xs @ [x]) \<Longrightarrow> queue_last b s = Some x"
proof (induction xs arbitrary: b)
  case Nil
  then show ?case by (subst queue_last.simps) (simp add: qnext_def)
next
  case (Cons y xs)
  then obtain q where "qnext s b = Some q" by (cases "qnext s b"; cases xs) auto
  moreover have "qlinks (qnext s) (qnext s b) (xs @ [x])" using Cons.prems by simp
  ultimately have "queue_last q s = Some x" using Cons.IH by simp
  then show ?case using \<open>qnext s b = Some q\<close> by (subst queue_last.simps) (simp add: qnext_def)
qed

lemma append_queue_ok:
  assumes "qlinks (qnext s) (idequeue s) xs" "distinct xs" "b \<notin> set xs" "qnext s b = None"
  obtains s' where "append_queue b s = Some s'" "qlinks (qnext s') (idequeue s') (xs @ [b])" "\<And>x. same_buf (ibufs s' x) (ibufs s x)"
    "ibufs s' b = ibufs s b" "ide_out s' = ide_out s" "ide_asleep s' = ide_asleep s" "havedisk1 s' = havedisk1 s"
    "idequeue s' = (if xs = [] then Some b else idequeue s)"
proof (cases xs rule: rev_cases)
  case Nil
  then show ?thesis using that [of "s\<lparr>idequeue := Some b\<rparr>"] assms by (simp add: append_queue_def qnext_def same_buf_def)
next
  case (snoc ys l)
  then obtain q where q: "idequeue s = Some q" using assms(1) by (cases ys) auto
  let ?s = "set_ibuf l (\<lambda>i. i\<lparr>ib_qnext := Some b\<rparr>) s"
  have n: "qnext ?s = (qnext s)(l := Some b, b := None)" using assms(3,4) snoc by (auto simp: qnext_def set_ibuf_def fun_eq_iff)
  have d: "distinct (ys @ [l])" "b \<notin> set (ys @ [l])" "qlinks (qnext s) (idequeue s) (ys @ [l])" "l \<noteq> b" using assms(1-3) snoc by auto
  show ?thesis
  proof (rule that [of ?s])
    show "append_queue b s = Some ?s" using queue_last_ok [of s q ys l] d(3) q by (simp add: append_queue_def)
    have "qlinks ((qnext s)(l := Some b, b := None)) (idequeue s) ((ys @ [l]) @ [b])" by (rule qlinks_snoc [OF d(3,1,2)])
    then show "qlinks (qnext ?s) (idequeue ?s) (xs @ [b])" unfolding n snoc by (simp add: set_ibuf_def)
  qed (use d(4) snoc in \<open>simp_all add: set_ibuf_def same_buf_def\<close>)
qed

section \<open>The simulation\<close>

lemma outs_sel [simp]: "ibufs (outs xs s) = ibufs s" "idequeue (outs xs s) = idequeue s" "havedisk1 (outs xs s) = havedisk1 s"
  "ide_asleep (outs xs s) = ide_asleep s" "qnext (outs xs s) = qnext s" "usable (outs xs s) i = usable s i"
  by (simp_all add: outs_def qnext_def usable_def fun_eq_iff)

lemma same_bufD:
  assumes "same_buf i j"
  shows "ib_dev i = ib_dev j" "ib_blockno i = ib_blockno j" "ib_valid i = ib_valid j" "ib_dirty i = ib_dirty j" "ib_data i = ib_data j"
  using assms by (cases i; cases j; simp add: same_buf_def)+

lemma same_buf_trans: "same_buf i j \<Longrightarrow> same_buf j k \<Longrightarrow> same_buf i k"
  by (simp add: same_buf_def)

lemma same_buf_sym: "same_buf i j \<Longrightarrow> same_buf j i"
  by (simp add: same_buf_def)

lemma usable_same: "same_buf i j \<Longrightarrow> usable s i \<longleftrightarrow> usable s j"
  using same_bufD [of i j] by (simp add: usable_def)

lemma put_blk_same: "same_buf i j \<Longrightarrow> put_blk i d = put_blk j d"
  using same_bufD [of i j] by (simp add: put_blk_def)

definition drive_on :: "(nat \<Rightarrow> nat \<Rightarrow> block) \<Rightarrow> ide \<Rightarrow> nat list \<Rightarrow> (nat \<Rightarrow> nat \<Rightarrow> block) \<Rightarrow> bool" where
  "drive_on d0 s q d = (case q of [] \<Rightarrow> store (drive_of d0 s) = d
      | x # xs \<Rightarrow> (\<exists>c. busy (drive_of d0 s) = Some (c, ib_dev (ibufs s x), ib_blockno (ibufs s x))) \<and> store (drive_of d0 s) = put_blk (ibufs s x) d)"

lemma drive_on_same:
  "drive_on d0 s q d \<Longrightarrow> ide_out s' = ide_out s \<Longrightarrow> (\<And>x. x \<in> set q \<Longrightarrow> same_buf (ibufs s' x) (ibufs s x)) \<Longrightarrow> drive_on d0 s' q d"
proof (cases q)
  case (Cons x xs)
  assume a: "drive_on d0 s q d" "ide_out s' = ide_out s" "\<And>x. x \<in> set q \<Longrightarrow> same_buf (ibufs s' x) (ibufs s x)"
  have "same_buf (ibufs s' x) (ibufs s x)" using a(3) Cons by simp
  then show "drive_on d0 s' q d" using a(1,2) Cons same_bufD(1,2) put_blk_same by (fastforce simp: drive_on_def drive_of_def)
qed (simp add: drive_on_def drive_of_def)

lemma ide_rel_iff:
  "ide_rel d0 s0 (s, U) a \<longleftrightarrow> havedisk1 s = havedisk1 s0 \<and> qlinks (qnext s) (idequeue s) (dfifo a) \<and> distinct (dfifo a) \<and> set (dfifo a) \<subseteq> U \<and>
     U = dcalls a \<and> ide_asleep s = set (dfifo a) \<and> (\<forall>b. same_buf (ibufs s b) (dbufs a b)) \<and>
     (\<forall>b \<in> U - set (dfifo a). ib_valid (ibufs s b) \<and> \<not> ib_dirty (ibufs s b)) \<and> (\<forall>b \<in> set (dfifo a). usable s (ibufs s b)) \<and> drive_on d0 s (dfifo a) (dstore a)"
  by (simp only: ide_rel_def prod.case drive_on_def)

lemma iderw_ok:
  assumes R: "ide_rel d0 s0 (s, U) a" and b: "b \<notin> U" "usable s i"
  shows "iderw_ide True b rs (set_ibuf b (\<lambda>_. i) s) \<noteq> Some (Inl e)"
    "idewait False rs \<noteq> None \<Longrightarrow> iderw_ide True b rs (set_ibuf b (\<lambda>_. i) s) \<noteq> None"
    "iderw_ide True b rs (set_ibuf b (\<lambda>_. i) s) = Some (Inr (r, s')) \<Longrightarrow>
      \<not> r \<and> ide_rel d0 s0 (s', insert b U) (a\<lparr>dbufs := (dbufs a)(b := i), dfifo := dfifo a @ [b], dcalls := insert b (dcalls a)\<rparr>)"
proof -
  let ?q = "dfifo a" and ?s0 = "set_ibuf b (\<lambda>_. i) s" and ?s1 = "set_ibuf b (\<lambda>i. i\<lparr>ib_qnext := None\<rparr>) (set_ibuf b (\<lambda>_. i) s)"
  note r = R [unfolded ide_rel_iff]
  have r1: "qlinks (qnext s) (idequeue s) ?q" "distinct ?q" "set ?q \<subseteq> U" using r by blast+
  have bq: "b \<notin> set ?q" using b(1) r1(3) by blast
  have f1: "idequeue ?s1 = idequeue s" "ide_out ?s1 = ide_out s" "ide_asleep ?s1 = ide_asleep s" "havedisk1 ?s1 = havedisk1 s"
    "ibufs ?s1 = (ibufs s)(b := i\<lparr>ib_qnext := None\<rparr>)" by (simp_all add: set_ibuf_def)
  have n1: "qnext ?s1 = (qnext s)(b := None)" by (simp add: qnext_def fun_eq_iff set_ibuf_def)
  have l: "qlinks (qnext ?s1) (idequeue ?s1) ?q" "qnext ?s1 b = None"
  proof -
    have "qlinks ((qnext s)(b := None)) (idequeue s) ?q \<longleftrightarrow> qlinks (qnext s) (idequeue s) ?q" by (rule qlinks_cong) (use bq in auto)
    then show "qlinks (qnext ?s1) (idequeue ?s1) ?q" using r1(1) unfolding n1 f1 by simp
  qed (simp add: n1)
  obtain s2 where s2: "append_queue b ?s1 = Some s2" "qlinks (qnext s2) (idequeue s2) (?q @ [b])" "\<And>x. same_buf (ibufs s2 x) (ibufs ?s1 x)"
    "ibufs s2 b = i\<lparr>ib_qnext := None\<rparr>" "ide_out s2 = ide_out s" "ide_asleep s2 = ide_asleep s" "havedisk1 s2 = havedisk1 s"
    "idequeue s2 = (if ?q = [] then Some b else idequeue s)"
    using append_queue_ok [OF l(1) r1(2) bq l(2)] unfolding f1 by (metis fun_upd_same)
  have sb: "same_buf (ibufs s2 b) i" using s2(4) by (simp add: same_buf_def)
  have so: "same_buf (ibufs s2 x) (ibufs s x)" if "x \<noteq> b" for x using s2(3) [of x] that unfolding f1 by simp
  have us: "usable s2 j \<longleftrightarrow> usable s j" for j using s2(7) by (simp add: usable_def)
  have ub: "usable s2 (ibufs s2 b)" using usable_same [OF sb] us b(2) by simp
  have nb: "idequeue s2 = Some b \<longleftrightarrow> ?q = []" using s2(8) r1(1) bq by (cases ?q) auto
  define start where "start = (if ?q = [] then idestart (Some b) rs s2 else Some (Inr (rs, s2)))"
  have e: "iderw_ide True b rs ?s0 = (case start of None \<Rightarrow> None | Some (Inl e) \<Rightarrow> Some (Inl e) | Some (Inr (_, s)) \<Rightarrow> Some (Inr (iderw_wait b s)))"
    using b(2) s2(1) nb by (auto simp: iderw_ide_def start_def usable_def set_ibuf_def)
  have st: "\<exists>rs' xs s3. start = Some (Inr (rs', s3)) \<and> s3 = outs xs s2 \<and> drive_on d0 s3 (?q @ [b]) (dstore a)" if "start \<noteq> None"
  proof (cases "?q = []")
    case True
    then have "idestart (Some b) rs s2 = Some (the start)" using that by (auto simp: start_def)
    then obtain rs' s3 where s3: "the start = Inr (rs', s3)" "\<exists>xs. s3 = outs xs s2" "\<exists>c. busy (drive_of d0 s3) = Some (c, ib_dev (ibufs s2 b), ib_blockno (ibufs s2 b))"
      "store (drive_of d0 s3) = put_blk (ibufs s2 b) (store (drive_of d0 s2))"
      by (rule idestart_ok [OF ub, where dk = d0]) blast
    have "store (drive_of d0 s2) = dstore a" using r True s2(5) by (simp add: drive_on_def drive_of_def)
    then have "drive_on d0 s3 (?q @ [b]) (dstore a)" using s3(2-4) True by (auto simp: drive_on_def)
    then show ?thesis using s3(1,2) that by auto
  next
    case False
    then obtain x xs where q: "?q = x # xs" by (cases ?q) auto
    have "drive_on d0 s ?q (dstore a)" using r by blast
    then have "drive_on d0 s2 ?q (dstore a)" by (rule drive_on_same [OF _ s2(5)]) (use so bq in metis)
    then have "drive_on d0 s2 (?q @ [b]) (dstore a)" unfolding q by (simp add: drive_on_def)
    moreover have "s2 = outs [] s2" by (simp add: outs_def)
    ultimately show ?thesis using False by (auto simp: start_def)
  qed
  show "iderw_ide True b rs ?s0 \<noteq> Some (Inl e)" unfolding e using st by (cases start) auto
  show "iderw_ide True b rs ?s0 \<noteq> None" if "idewait False rs \<noteq> None"
  proof -
    have "start \<noteq> None" using idestart_ready [OF ub that] by (auto simp: start_def)
    then show ?thesis unfolding e using st by auto
  qed
  assume fin: "iderw_ide True b rs ?s0 = Some (Inr (r, s'))"
  have nz: "start \<noteq> None" using fin unfolding e by (cases start) auto
  obtain rs' xs where s3: "start = Some (Inr (rs', outs xs s2))" "drive_on d0 (outs xs s2) (?q @ [b]) (dstore a)" using st [OF nz] by blast
  have w: "(r, s') = iderw_wait b (outs xs s2)" using fin s3(1) unfolding e by simp
  then have rs': "\<not> r" "s' = (outs xs s2)\<lparr>ide_asleep := insert b (ide_asleep s)\<rparr>"
    using ub s2(6) by (auto simp: iderw_wait_def usable_def)
  have dr: "drive_on d0 s' (?q @ [b]) (dstore a)" by (rule drive_on_same [OF s3(2)]) (simp_all add: rs'(2) same_buf_def)
  have bufs: "ibufs s' = ibufs s2" "havedisk1 s' = havedisk1 s" "idequeue s' = idequeue s2" "qnext s' = qnext s2" "ide_asleep s' = insert b (ide_asleep s)"
    using s2(7) by (simp_all add: rs'(2) qnext_def fun_eq_iff)
  have us': "usable s' j \<longleftrightarrow> usable s j" for j using bufs(2) by (simp add: usable_def)
  let ?a = "a\<lparr>dbufs := (dbufs a)(b := i), dfifo := ?q @ [b], dcalls := insert b (dcalls a)\<rparr>"
  have sel: "dbufs ?a = (dbufs a)(b := i)" "dfifo ?a = ?q @ [b]" "dcalls ?a = insert b (dcalls a)" "dstore ?a = dstore a" by simp_all
  have "ide_rel d0 s0 (s', insert b U) ?a"
    unfolding ide_rel_iff bufs sel
  proof (intro conjI allI ballI)
    show "same_buf (ibufs s2 x) (((dbufs a)(b := i)) x)" for x
      using sb so [of x] r same_buf_trans by (cases "x = b") auto
    have "ib_valid (ibufs s2 x) \<and> \<not> ib_dirty (ibufs s2 x)" if "x \<in> insert b U - set (?q @ [b])" for x
      using that r so [of x] same_bufD(3,4) [of "ibufs s2 x" "ibufs s x"] by auto
    then show "ib_valid (ibufs s2 x)" "\<not> ib_dirty (ibufs s2 x)" if "x \<in> insert b U - set (?q @ [b])" for x using that by blast+
    show "usable s' (ibufs s2 x)" if "x \<in> set (?q @ [b])" for x
      using that r ub us us' usable_same [OF so [of x]] by (cases "x = b") auto
    show "qlinks (qnext s2) (idequeue s2) (?q @ [b])" by (rule s2(2))
    show "drive_on d0 s' (?q @ [b]) (dstore a)" by (rule dr)
  qed (use r bq in auto)
  then show "\<not> r \<and> ide_rel d0 s0 (s', insert b U) (a\<lparr>dbufs := (dbufs a)(b := i), dfifo := ?q @ [b], dcalls := insert b (dcalls a)\<rparr>)"
    using rs'(1) by blast
qed

lemma ideintr_ok:
  assumes R: "ide_rel d0 s0 (s, U) a" and q: "idequeue s \<noteq> None"
  shows "ideintr rs d s \<noteq> Some (Inl e)"
    "drive_ready rs \<Longrightarrow> ideintr rs d s \<noteq> None"
    "idewait True rs = Some (w, rs1) \<Longrightarrow> 0 \<le> w \<Longrightarrow> ideintr rs (delivered (drive_of d0 s)) s = Some (Inr ((), s')) \<Longrightarrow>
      \<exists>b xs. dfifo a = b # xs \<and> ide_rel d0 s0 (s', U)
        (a\<lparr>dstore := put_blk (dbufs a b) (dstore a), dbufs := (dbufs a)(b := memory_rw (dstore a) (dbufs a b)), dfifo := xs\<rparr>)"
proof -
  note r = R [unfolded ide_rel_iff]
  obtain b xs where b: "dfifo a = b # xs" "idequeue s = Some b" "qlinks (qnext s) (qnext s b) xs" "b \<notin> set xs" "distinct xs" "b \<in> U"
    using r q by (cases "dfifo a") auto
  have dr: "\<exists>c. busy (drive_of d0 s) = Some (c, ib_dev (ibufs s b), ib_blockno (ibufs s b))" "store (drive_of d0 s) = put_blk (ibufs s b) (dstore a)"
    using r b(1) by (auto simp: drive_on_def)
  have sb: "same_buf (ibufs s b) (dbufs a b)" using r by blast
  define got where "got = (\<lambda>d w. if ib_dirty (ibufs s b) \<or> w < (0 :: int) then ibufs s b else (ibufs s b)\<lparr>ib_data := d\<rparr>)"
  define s2 where "s2 = (\<lambda>d w. s\<lparr>idequeue := qnext s b, ibufs := (ibufs s)(b := (got d w)\<lparr>ib_valid := True, ib_dirty := False\<rparr>), ide_asleep := ide_asleep s - {b}\<rparr>)"
  have qn: "qnext (s2 d w) = qnext s" for d w by (auto simp: s2_def got_def qnext_def fun_eq_iff)
  have other: "ibufs (s2 d w) x = ibufs s x" if "x \<noteq> b" for d w x using that by (simp add: s2_def)
  define after where "after = (\<lambda>rs d w. case qnext s b of None \<Rightarrow> Some (Inr ((), s2 d w))
          | Some q \<Rightarrow> (case idestart (Some q) rs (s2 d w) of None \<Rightarrow> None | Some (Inl e) \<Rightarrow> Some (Inl e) | Some (Inr (_, s)) \<Rightarrow> Some (Inr ((), s))))"
  have e: "ideintr rs d s = (if ib_dirty (ibufs s b) then after rs d 0 else case idewait True rs of None \<Rightarrow> None | Some (w, rs) \<Rightarrow> after rs d w)" for rs d
    using b(2) by (auto simp: ideintr_def after_def s2_def got_def qnext_def Let_def set_ibuf_def ide_wakeup_def split: option.split)
  have y: "usable (s2 d w) (ibufs (s2 d w) y)" "ys = tl xs" if "xs = y # ys" for d w y ys
  proof -
    have "y \<noteq> b" "usable s (ibufs s y)" using that b(1,4) r by auto
    then show "usable (s2 d w) (ibufs (s2 d w) y)" using other by (simp add: usable_def s2_def)
  qed (use that in simp)
  have ns: "qnext s b = (case xs of [] \<Rightarrow> None | y # ys \<Rightarrow> Some y)" using b(3) by (cases xs) auto
  have noerr: "after rs d w \<noteq> Some (Inl e)" for rs d w e
  proof (cases xs)
    case (Cons z ys)
    show ?thesis
    proof
      assume f: "after rs d w = Some (Inl e)"
      then have "idestart (Some z) rs (s2 d w) = Some (Inl e)" using ns Cons by (auto simp: after_def split: option.splits sum.splits prod.splits)
      then show False by (rule idestart_ok [OF y(1) [OF Cons]]) simp
    qed
  qed (use ns in \<open>simp add: after_def\<close>)
  show "ideintr rs d s \<noteq> Some (Inl e)" unfolding e using noerr by (auto split: option.split)
  have starts: "after rs d w \<noteq> None" if "rs \<noteq> []" "\<forall>r \<in> set rs. r = IDE_DRDY" for rs d w
  proof (cases xs)
    case (Cons z ys)
    have "idewait False rs \<noteq> None" using ready_once [OF that, of False] by auto
    then obtain o' where "idestart (Some z) rs (s2 d w) = Some o'" using idestart_ready [OF y(1) [OF Cons]] by blast
    then show ?thesis using ns Cons by (cases o') (auto simp: after_def)
  qed (use ns in \<open>simp add: after_def\<close>)
  show "ideintr rs d s \<noteq> None" if rd: "drive_ready rs"
  proof (cases "ib_dirty (ibufs s b)")
    case True
    then show ?thesis unfolding e using starts [of rs d 0] rd by (cases rs) (auto simp: drive_ready_def)
  next
    case False
    obtain w rs' where "idewait True rs = Some (w, rs')" "rs' \<noteq> []" "\<forall>r \<in> set rs'. r = IDE_DRDY" using drive_ready_wait [OF rd, of True] by blast
    then show ?thesis unfolding e using False starts by simp
  qed
  assume w: "idewait True rs = Some (w, rs1)" "0 \<le> w" and fin: "ideintr rs (delivered (drive_of d0 s)) s = Some (Inr ((), s'))"
  let ?d = "delivered (drive_of d0 s)" and ?a = "a\<lparr>dstore := put_blk (dbufs a b) (dstore a), dbufs := (dbufs a)(b := memory_rw (dstore a) (dbufs a b)), dfifo := xs\<rparr>"
  obtain rs2 where f: "after rs2 ?d 0 = Some (Inr ((), s'))"
  proof (cases "ib_dirty (ibufs s b)")
    case False
    have "got ?d w = got ?d 0" using w(2) by (simp add: got_def)
    then have same: "s2 ?d w = s2 ?d 0" by (simp add: s2_def)
    have "after rs1 ?d w = after rs1 ?d 0" unfolding after_def same ..
    then show ?thesis using that [of rs1] fin w(1) False unfolding e by simp
  qed (use that fin in \<open>simp add: e\<close>)
  let ?s2 = "s2 ?d 0"
  have mem: "same_buf (ibufs ?s2 b) (memory_rw (dstore a) (dbufs a b))"
  proof -
    have "?d = dstore a (ib_dev (ibufs s b)) (ib_blockno (ibufs s b))" if "\<not> ib_dirty (ibufs s b)"
      using dr that by (auto simp: delivered_def put_blk_def)
    then show ?thesis using sb same_bufD [OF sb] by (auto simp: s2_def got_def memory_rw_def same_buf_def)
  qed
  have drv2: "drive_of d0 ?s2 = drive_of d0 s" by (simp add: drive_of_def s2_def)
  have st: "store (drive_of d0 ?s2) = put_blk (dbufs a b) (dstore a)" using dr(2) put_blk_same [OF sb] drv2 by simp
  obtain os where os: "s' = outs os ?s2" "drive_on d0 s' xs (put_blk (dbufs a b) (dstore a))"
  proof (cases xs)
    case Nil
    then have "s' = outs [] ?s2" using f ns by (simp add: after_def outs_def)
    then show ?thesis using that [of "[]"] st Nil by (simp add: drive_on_def outs_def)
  next
    case (Cons z ys)
    then obtain rs3 where "idestart (Some z) rs2 ?s2 = Some (Inr (rs3, s'))" using f ns by (auto simp: after_def split: option.splits sum.splits)
    then obtain rs4 s4 where "Inr (rs3, s') = (Inr (rs4, s4) :: string + nat list \<times> ide)" "\<exists>xs. s4 = outs xs ?s2"
      "\<exists>c. busy (drive_of d0 s4) = Some (c, ib_dev (ibufs ?s2 z), ib_blockno (ibufs ?s2 z))" "store (drive_of d0 s4) = put_blk (ibufs ?s2 z) (store (drive_of d0 ?s2))"
      by (rule idestart_ok [OF y(1) [OF Cons], where dk = d0]) blast
    then show ?thesis using that Cons st by (auto simp: drive_on_def)
  qed
  have bufs: "ibufs s' = ibufs ?s2" "havedisk1 s' = havedisk1 s" "idequeue s' = qnext s b" "qnext s' = qnext s" "ide_asleep s' = ide_asleep s - {b}"
    using qn [of ?d 0] by (simp_all add: os(1)) (simp_all add: s2_def)
  have sel: "dbufs ?a = (dbufs a)(b := memory_rw (dstore a) (dbufs a b))" "dfifo ?a = xs" "dcalls ?a = dcalls a" "dstore ?a = put_blk (dbufs a b) (dstore a)" by simp_all
  have "ide_rel d0 s0 (s', U) ?a"
    unfolding ide_rel_iff bufs sel
  proof (intro conjI allI ballI)
    show "same_buf (ibufs ?s2 x) (((dbufs a)(b := memory_rw (dstore a) (dbufs a b))) x)" for x
      using mem r other [of x] by (cases "x = b") auto
    have "ib_valid (ibufs ?s2 x) \<and> \<not> ib_dirty (ibufs ?s2 x)" if "x \<in> U - set xs" for x
      using that r other [of x] b(1) by (cases "x = b") (auto simp: s2_def)
    then show "ib_valid (ibufs ?s2 x)" "\<not> ib_dirty (ibufs ?s2 x)" if "x \<in> U - set xs" for x using that by blast+
    show "usable s' (ibufs ?s2 x)" if "x \<in> set xs" for x
      using that r b(1,4) other [of x] bufs(2) by (cases "x = b") (auto simp: usable_def)
    show "qlinks (qnext s) (qnext s b) xs" by (rule b(3))
    show "drive_on d0 s' xs (put_blk (dbufs a b) (dstore a))" by (rule os(2))
  qed (use r b in auto)
  then show "\<exists>b xs. dfifo a = b # xs \<and> ide_rel d0 s0 (s', U)
        (a\<lparr>dstore := put_blk (dbufs a b) (dstore a), dbufs := (dbufs a)(b := memory_rw (dstore a) (dbufs a b)), dfifo := xs\<rparr>)"
    using b(1) by blast
qed

lemma ide_step_simulated:
  assumes "ide_step d0 c c'" "ide_rel d0 s0 c a"
  shows "\<exists>a'. (disk_step s0)\<^sup>*\<^sup>* a a' \<and> ide_rel d0 s0 c' a'"
  using assms(1)
proof (cases rule: ide_step.cases)
  case (call b U s i rs r s')
  have R: "ide_rel d0 s0 (s, U) a" using assms(2) call(1) by simp
  have "usable s0 i" "b \<notin> dcalls a" using R call(3,4) by (simp_all add: ide_rel_iff usable_def)
  then have "disk_step s0 a (a\<lparr>dbufs := (dbufs a)(b := i), dfifo := dfifo a @ [b], dcalls := insert b (dcalls a)\<rparr>)" by (intro disk_step.request)
  moreover have "\<not> r \<and> ide_rel d0 s0 (s', insert b U) (a\<lparr>dbufs := (dbufs a)(b := i), dfifo := dfifo a @ [b], dcalls := insert b (dcalls a)\<rparr>)"
    using iderw_ok(3) [OF R call(3,4,5)] .
  ultimately show ?thesis using call(2) by (metis r_into_rtranclp)
next
  case (intr s rs s' U)
  have R: "ide_rel d0 s0 (s, U) a" using assms(2) intr(1) by simp
  obtain w rs1 where w: "idewait True rs = Some (w, rs1)" "0 \<le> w" using intr(4) by blast
  obtain b xs where "dfifo a = b # xs" "ide_rel d0 s0 (s', U)
        (a\<lparr>dstore := put_blk (dbufs a b) (dstore a), dbufs := (dbufs a)(b := memory_rw (dstore a) (dbufs a b)), dfifo := xs\<rparr>)"
    using ideintr_ok(3) [OF R intr(3) w intr(5)] by blast
  then show ?thesis using disk_step.serve [of a b xs s0] intr(2) by (metis r_into_rtranclp)
next
  case (wake b U s r s')
  have R: "ide_rel d0 s0 (s, U) a" using assms(2) wake(1) by simp
  note rr = R [unfolded ide_rel_iff]
  have b: "b \<notin> set (dfifo a)" "b \<in> dcalls a" using rr wake(3,4) by auto
  then have "ib_valid (ibufs s b) \<and> \<not> ib_dirty (ibufs s b)" using rr wake(3) by blast
  then have s': "r" "s' = s" using wake(5) by (auto simp: iderw_wait_def)
  have "ide_rel d0 s0 (s, U - {b}) (a\<lparr>dcalls := dcalls a - {b}\<rparr>)" using rr b(1) unfolding ide_rel_iff by auto
  then show ?thesis using disk_step.over [OF b(2,1), of s0] wake(2) s' by (metis r_into_rtranclp)
qed

lemma begin_rel: "ide_begin s0 \<Longrightarrow> ide_rel d0 s0 (s0, {}) (disk_begin d0 s0)"
  by (simp add: ide_rel_iff ide_begin_def disk_begin_def drive_on_def drive_of_def same_buf_def)

lemma reachable_rel:
  assumes "ide_begin s0" "(ide_step d0)\<^sup>*\<^sup>* (s0, {}) c"
  shows "\<exists>a. (disk_step s0)\<^sup>*\<^sup>* (disk_begin d0 s0) a \<and> ide_rel d0 s0 c a"
  using assms(2)
proof (induction rule: rtranclp_induct)
  case base
  then show ?case using begin_rel [OF assms(1)] by blast
next
  case (step c c')
  then show ?case using ide_step_simulated by (meson rtranclp_trans)
qed


definition ide_demo :: ide where
  "ide_demo = \<lparr>ibufs = \<lambda>_. \<lparr>ib_dev = 0, ib_blockno = 0, ib_valid = False, ib_dirty = False, ib_data = zero_block, ib_qnext = None\<rparr>,
     idequeue = None, havedisk1 = True, ide_out = [], ide_asleep = {}\<rparr>"


end
