(* ===== verification/PageReplacement.thy ===== *)
theory PageReplacement
  imports Prelude
begin

text \<open>
  The page replacement simulator \<^verbatim>\<open>PageReplacement/src/pagereplacement.c\<close>: FIFO and LIFO replacement of
  pages in a number of frames. The header that declares \<^verbatim>\<open>PageStream\<close>, \<^verbatim>\<open>is_mode\<close>, \<^verbatim>\<open>FIFO\<close>, \<^verbatim>\<open>LIFO\<close> and
  \<^verbatim>\<open>copyFromPageStreamToFrame\<close> is not in the repository, so the record has the two fields the code
  uses, and the rest are parameters. An access outside the array of frames is \<open>None\<close>. Printing is
  left out.
\<close>

section \<open>The simulator\<close>

record page_stream =
  number :: byte
  history :: int

primrec find_from :: "int \<Rightarrow> byte \<Rightarrow> page_stream list \<Rightarrow> int" where
  "find_from i pg [] = - 1"
| "find_from i pg (f # fs) = (if number f = pg then i else find_from (i + 1) pg fs)"

definition find_page_number :: "byte \<Rightarrow> page_stream list \<Rightarrow> int" where
  "find_page_number pg frame = find_from 0 pg frame"

text \<open>The two selection loops, from frame 1 on; \<open>better\<close> is the comparison of histories.\<close>

primrec replace_loop :: "(int \<Rightarrow> int \<Rightarrow> bool) \<Rightarrow> int \<Rightarrow> page_stream list \<Rightarrow> int \<Rightarrow> page_stream \<Rightarrow> int" where
  "replace_loop better i [] res res_frame = res"
| "replace_loop better i (c # cs) res res_frame =
     (if better (history c) (history res_frame) then replace_loop better (i + 1) cs i c
      else replace_loop better (i + 1) cs res res_frame)"

definition find_replace_index :: "bool \<Rightarrow> page_stream list \<Rightarrow> int" where
  "find_replace_index fifo_mode frame = (let res = find_page_number 0 frame in
     if 0 < res then res else case frame of [] \<Rightarrow> res
     | f # fs \<Rightarrow> if fifo_mode then replace_loop (<) 1 fs res f else replace_loop (>) 1 fs res f)"

primrec fifo_lifo_loop :: "(page_stream \<Rightarrow> page_stream \<Rightarrow> page_stream) \<Rightarrow> bool \<Rightarrow> int \<Rightarrow> page_stream list \<Rightarrow>
    page_stream list \<Rightarrow> int \<Rightarrow> int option" where
  "fifo_lifo_loop copy fifo_mode i [] frame pagefault = Some pagefault"
| "fifo_lifo_loop copy fifo_mode i (p # ps) frame pagefault =
     (if find_page_number (number p) frame < 0 then
        let k = find_replace_index fifo_mode frame in
        if k < 0 \<or> int (length frame) \<le> k then None
        else fifo_lifo_loop copy fifo_mode (i + 1) ps (frame[nat k := (copy p (frame ! nat k))\<lparr>history := i\<rparr>]) (pagefault + 1)
      else fifo_lifo_loop copy fifo_mode (i + 1) ps frame pagefault)"

definition fifo_lifo :: "(int \<Rightarrow> int \<Rightarrow> bool) \<Rightarrow> int \<Rightarrow> (page_stream \<Rightarrow> page_stream \<Rightarrow> page_stream) \<Rightarrow>
    int \<Rightarrow> page_stream list \<Rightarrow> nat \<Rightarrow> int option" where
  "fifo_lifo is_mode FIFO copy mode ps frame_num =
     fifo_lifo_loop copy (is_mode mode FIFO) 0 ps (replicate frame_num \<lparr>number = 0, history = 0\<rparr>) 0"

definition fifoSimulation :: "(int \<Rightarrow> int \<Rightarrow> bool) \<Rightarrow> nat \<Rightarrow> (page_stream \<Rightarrow> page_stream \<Rightarrow> page_stream) \<Rightarrow>
    page_stream list \<Rightarrow> nat \<Rightarrow> int option" where
  "fifoSimulation is_mode FIFO copy ps frame_num = fifo_lifo is_mode (int FIFO) copy (2 ^ FIFO) ps frame_num"

definition lifoSimulation :: "(int \<Rightarrow> int \<Rightarrow> bool) \<Rightarrow> nat \<Rightarrow> nat \<Rightarrow> (page_stream \<Rightarrow> page_stream \<Rightarrow> page_stream) \<Rightarrow>
    page_stream list \<Rightarrow> nat \<Rightarrow> int option" where
  "lifoSimulation is_mode FIFO LIFO copy ps frame_num = fifo_lifo is_mode (int FIFO) copy (2 ^ LIFO) ps frame_num"

section \<open>Finding\<close>

lemma find_from_None: "0 \<le> i \<Longrightarrow> find_from i pg fs = - 1 \<longleftrightarrow> pg \<notin> number ` set fs"
  by (induction fs arbitrary: i) auto

lemma find_from_cases: "find_from i pg fs = - 1 \<or> i \<le> find_from i pg fs"
proof (induction fs arbitrary: i)
  case (Cons f fs)
  show ?case using Cons.IH [of "i + 1"] by auto
qed simp

lemma find_miss: "find_page_number pg frame < 0 \<longleftrightarrow> pg \<notin> number ` set frame"
  using find_from_None [of 0 pg frame] find_from_cases [of 0 pg frame] by (auto simp: find_page_number_def)

lemma find_from_append: "pg \<notin> number ` set fs \<Longrightarrow> find_from i pg (fs @ f # gs) = (if number f = pg then i + int (length fs) else find_from (i + int (length fs) + 1) pg gs)"
  by (induction fs arbitrary: i) auto

section \<open>The states of a run\<close>

text \<open>
  \<open>filled nums frame\<close>: the frames in use come first, hold the pages \<open>nums\<close> with increasing load
  times, the first of them 0; the others are as initialised.
\<close>

definition empty_frame :: page_stream where "empty_frame = \<lparr>number = 0, history = 0\<rparr>"

definition filled :: "int \<Rightarrow> page_stream list \<Rightarrow> bool" where
  "filled i used \<longleftrightarrow> 0 \<notin> number ` set used \<and> distinct (map number used) \<and> (\<forall>f \<in> set used. 0 \<le> history f \<and> history f < i) \<and>
     (used \<noteq> [] \<longrightarrow> history (hd used) = 0) \<and> sorted_wrt (\<lambda>f g. history f < history g) used \<and> 0 \<le> i \<and> (used = [] \<longrightarrow> i = 0)"

lemma replace_blank: "\<not> better 0 0 \<Longrightarrow> replace_loop better i (replicate m empty_frame) res empty_frame = res"
  by (induction m arbitrary: i) (simp_all add: empty_frame_def)

lemma index_blank:
  assumes "filled i used"
  shows "find_replace_index b (used @ replicate (Suc m) empty_frame) = int (length used)"
proof -
  have f: "find_page_number 0 (used @ replicate (Suc m) empty_frame) = int (length used)"
    using assms find_from_append [of 0 used 0 empty_frame "replicate m empty_frame"] by (simp add: filled_def find_page_number_def empty_frame_def)
  show ?thesis
  proof (cases used)
    case Nil
    then show ?thesis using f replace_blank [of "(<)" 1 m 0] replace_blank [of "(>)" 1 m 0]
      by (simp add: find_replace_index_def Let_def)
  qed (use f in \<open>simp add: find_replace_index_def\<close>)
qed

lemma replace_oldest: "\<forall>g \<in> set fs. \<not> better (history g) (history f) \<Longrightarrow> replace_loop better i fs res f = res"
  by (induction fs arbitrary: i) auto

lemma no_blank: "filled i used \<Longrightarrow> find_page_number 0 used = - 1"
  using find_from_None [of 0 0 used] by (simp add: filled_def find_page_number_def)

lemma index_fifo_full:
  assumes "filled i used"
  shows "find_replace_index True used = - 1"
proof (cases used)
  case (Cons f fs)
  then have "\<forall>g \<in> set fs. \<not> history g < history f" using assms by (auto simp: filled_def)
  then show ?thesis using no_blank [OF assms] Cons replace_oldest [of fs "(<)" f 1 "- 1"] by (simp add: find_replace_index_def)
qed (simp add: find_replace_index_def find_page_number_def)

lemma replace_newest: "sorted_wrt (\<lambda>f g. history f < history g) (f # fs) \<Longrightarrow>
    replace_loop (>) i fs res f = (if fs = [] then res else i + int (length fs) - 1)"
  by (induction fs arbitrary: i res f) auto

lemma index_lifo_full:
  assumes "filled i used" "2 \<le> length used"
  shows "find_replace_index False used = int (length used) - 1"
proof (cases used)
  case (Cons f fs)
  then show ?thesis using assms no_blank [OF assms(1)] replace_newest [of f fs 1 "- 1"]
    by (auto simp: find_replace_index_def filled_def)
qed (use assms in simp)

section \<open>Reference algorithms\<close>

text \<open>The pages in memory, the last loaded first: LIFO replaces that one.\<close>

primrec lifo_faults :: "nat \<Rightarrow> byte list \<Rightarrow> byte list \<Rightarrow> int" where
  "lifo_faults n mem [] = 0"
| "lifo_faults n mem (p # ps) = (if p \<in> set mem then lifo_faults n mem ps
     else 1 + lifo_faults n (p # (if length mem < n then mem else tl mem)) ps)"

lemma load_next:
  assumes "filled i used" "p \<noteq> 0" "p \<notin> number ` set used" "number f = p" "history f = i"
  shows "filled (i + 1) (used @ [f])"
  using assms by (auto simp: filled_def sorted_wrt_append image_iff hd_append)

lemma filled_card: "filled i used \<Longrightarrow> card (number ` set used) = length used"
  by (metis distinct_card filled_def length_map list.set_map)

lemma filled_later: "filled i used \<Longrightarrow> used \<noteq> [] \<Longrightarrow> filled (i + 1) used"
  by (auto simp: filled_def)

lemma load_top:
  assumes "filled i used" "2 \<le> length used" "p \<noteq> 0" "p \<notin> number ` set used" "number f = p" "history f = i"
  shows "filled (i + 1) (butlast used @ [f])"
proof -
  obtain us u where u: "used = us @ [u]" using assms(2) by (cases used rule: rev_cases) auto
  then have "us \<noteq> []" using assms(2) by auto
  then have "filled i us" using assms(1) u by (auto simp: filled_def sorted_wrt_append)
  then show ?thesis using load_next [of i us p f] assms(3-6) u by auto
qed


lemma blank_update: "(used @ replicate (Suc m) empty_frame)[length used := f] = (used @ [f]) @ replicate m empty_frame"
  by simp

lemma miss_blank: "p \<noteq> 0 \<Longrightarrow> find_page_number p (used @ replicate m empty_frame) < 0 \<longleftrightarrow> p \<notin> number ` set used"
  by (simp add: find_miss image_Un) (auto simp: empty_frame_def)

text \<open>One reference while a frame is empty, for both algorithms.\<close>

lemma load_empty:
  assumes "filled i used" "number p \<noteq> 0" "number p \<notin> number ` set used"
  shows "fifo_lifo_loop copy b i (p # ps) (used @ replicate (Suc m) empty_frame) k =
     fifo_lifo_loop copy b (i + 1) ps ((used @ [(copy p empty_frame)\<lparr>history := i\<rparr>]) @ replicate m empty_frame) (k + 1)"
proof -
  note i = index_blank [OF assms(1), of b m] miss_blank [OF assms(2), of used "Suc m"] blank_update
  show ?thesis using assms(3)
    by (simp add: Let_def i nth_append del: replicate_Suc append_assoc)
qed

lemma hit:
  assumes "number p \<noteq> 0" "number p \<in> number ` set used"
  shows "fifo_lifo_loop copy b i (p # ps) (used @ replicate m empty_frame) k = fifo_lifo_loop copy b (i + 1) ps (used @ replicate m empty_frame) k"
  using assms by (simp add: miss_blank)

definition copies :: "(page_stream \<Rightarrow> page_stream \<Rightarrow> page_stream) \<Rightarrow> bool" where
  "copies copy \<longleftrightarrow> (\<forall>p f. number (copy p f) = number p)"

lemma fifo_run:
  assumes "copies copy"
  shows "filled i used \<Longrightarrow> 0 \<notin> number ` set ps \<Longrightarrow>
    fifo_lifo_loop copy True i ps (used @ replicate m empty_frame) k =
      (if card (number ` set used \<union> number ` set ps) \<le> length used + m
       then Some (k + int (card (number ` set ps - number ` set used))) else None)"
proof (induction ps arbitrary: i used m k)
  case Nil
  have "card (number ` set used) \<le> length used" using card_image_le card_length le_trans by (metis List.finite_set)
  then show ?case by simp
next
  case (Cons p ps)
  let ?U = "number ` set used" and ?P = "number ` set ps"
  have p: "number p \<noteq> 0" "0 \<notin> ?P" using Cons.prems(2) by auto
  show ?case
  proof (cases "number p \<in> ?U")
    case True
    then have "used \<noteq> []" by auto
    moreover have "insert (number p) (?U \<union> ?P) = ?U \<union> ?P" "insert (number p) ?P - ?U = ?P - ?U" using True by auto
    ultimately show ?thesis using Cons.IH [OF filled_later [OF Cons.prems(1)] p(2)] hit [OF p(1) True]
      by (simp add: Un_insert_right del: fifo_lifo_loop.simps)
  next
    case False
    show ?thesis
    proof (cases m)
      case 0
      have "card (insert (number p) ?U) = Suc (length used)" using False filled_card [OF Cons.prems(1)] by simp
      moreover have "card (insert (number p) ?U) \<le> card (?U \<union> number ` set (p # ps))" by (rule card_mono) auto
      ultimately have "\<not> card (?U \<union> number ` set (p # ps)) \<le> length used" by linarith
      then show ?thesis using False 0 index_fifo_full [OF Cons.prems(1)] by (simp add: find_miss)
    next
      case (Suc l)
      let ?f = "(copy p empty_frame)\<lparr>history := i\<rparr>"
      have f: "filled (i + 1) (used @ [?f])" "number ?f = number p"
        using assms load_next [OF Cons.prems(1) p(1) False, of ?f] by (simp_all add: copies_def)
      have "insert (number p) ?P - ?U = insert (number p) (?P - insert (number p) ?U)" using False by auto
      then have c: "card (insert (number p) ?P - ?U) = Suc (card (?P - insert (number p) ?U))" by simp
      have u: "number ` set (used @ [?f]) = insert (number p) ?U" using f(2) by auto
      have "fifo_lifo_loop copy True i (p # ps) (used @ replicate m empty_frame) k = fifo_lifo_loop copy True (i + 1) ps ((used @ [?f]) @ replicate l empty_frame) (k + 1)"
        unfolding Suc by (rule load_empty [OF Cons.prems(1) p(1) False])
      also have "\<dots> = (if card (insert (number p) ?U \<union> ?P) \<le> length (used @ [?f]) + l
         then Some (k + 1 + int (card (?P - insert (number p) ?U))) else None)"
        by (subst Cons.IH [OF f(1) p(2)]) (simp only: u)
      finally show ?thesis using c by (simp add: Suc Un_insert_right del: fifo_lifo_loop.simps)
    qed
  qed
qed


lemma lifo_run:
  assumes "copies copy"
  shows "filled i used \<Longrightarrow> 0 \<notin> number ` set ps \<Longrightarrow> 2 \<le> length used + m \<Longrightarrow>
    fifo_lifo_loop copy False i ps (used @ replicate m empty_frame) k =
      Some (k + lifo_faults (length used + m) (rev (map number used)) (map number ps))"
proof (induction ps arbitrary: i used m k)
  case Nil
  then show ?case by simp
next
  case (Cons p ps)
  have p: "number p \<noteq> 0" "0 \<notin> number ` set ps" using Cons.prems(2) by auto
  show ?case
  proof (cases "number p \<in> number ` set used")
    case True
    then have "used \<noteq> []" by auto
    then show ?thesis using True Cons.IH [OF filled_later [OF Cons.prems(1)] p(2) Cons.prems(3)] hit [OF p(1) True]
      by (simp del: fifo_lifo_loop.simps)
  next
    case False
    show ?thesis
    proof (cases m)
      case 0
      let ?f = "(copy p (last used))\<lparr>history := i\<rparr>"
      obtain us u where u: "used = us @ [u]" using Cons.prems(3) 0 by (cases used rule: rev_cases) auto
      have f: "filled (i + 1) (us @ [?f])" "number ?f = number p" "2 \<le> length (us @ [?f]) + 0"
        using assms load_top [OF Cons.prems(1) _ p(1) False, of ?f] Cons.prems(3) 0 u by (simp_all add: copies_def)
      show ?thesis using False 0 u index_lifo_full [OF Cons.prems(1)] Cons.prems(3) Cons.IH [OF f(1) p(2) f(3)] f(2)
        by (simp add: find_miss Let_def)
    next
      case (Suc l)
      let ?f = "(copy p empty_frame)\<lparr>history := i\<rparr>"
      have f: "filled (i + 1) (used @ [?f])" "number ?f = number p"
        using assms load_next [OF Cons.prems(1) p(1) False, of ?f] by (simp_all add: copies_def)
      have "2 \<le> length (used @ [?f]) + l" using Cons.prems(3) Suc by simp
      then show ?thesis using False load_empty [OF Cons.prems(1) p(1) False] Cons.IH [OF f(1) p(2)] f(2)
        by (simp add: Suc del: fifo_lifo_loop.simps replicate_Suc append_assoc)
    qed
  qed
qed



definition pages :: "byte list \<Rightarrow> page_stream list" where
  "pages = map (\<lambda>n. \<lparr>number = n, history = 0\<rparr>)"


end
