(* ===== verification/Diff.thy ===== *)
theory Diff
  imports Prelude "HOL-Library.Sublist"
begin

text \<open>
  The file comparison of \<^verbatim>\<open>LinuxProgramming/P1_20192380/diff.c\<close>: reading a file into lines, the table of
  longest common subsequences, the walk back through it that marks the common lines, and the edit
  script or the one-line report printed from the marks. Rows are numbered from 1; row 0 and the rows
  behind the last line are empty strings, as in the zeroed arrays of the code.
\<close>

section \<open>Reading lines\<close>

definition STR_BUFFER_SIZE :: nat where "STR_BUFFER_SIZE = 1024"

definition newline_char :: char where "newline_char = CHR 0x0A"

text \<open>
  \<^verbatim>\<open>fgets\<close> into a buffer of \<open>n\<close> bytes: the bytes stored, the rest of the file, and whether the end of
  the file was met.
\<close>

fun fgets :: "nat \<Rightarrow> string \<Rightarrow> string \<times> string \<times> bool" where
  "fgets n [] = ([], [], 1 < n)"
| "fgets n (c # cs) = (if n \<le> 1 then ([], c # cs, False) else if c = newline_char then ([c], cs, False)
     else case fgets (n - 1) cs of (l, rest, eof) \<Rightarrow> (c # l, rest, eof))"

lemma fgets_rest: "fgets n cs = (l, rest, eof) \<Longrightarrow> length rest \<le> length cs \<and> (1 < n \<longrightarrow> \<not> eof \<longrightarrow> length rest < length cs)"
  by (induction n cs arbitrary: l rest eof rule: fgets.induct) (fastforce split: if_splits prod.splits)+

function get_strings :: "string \<Rightarrow> string list" where
  "get_strings cs = (case fgets STR_BUFFER_SIZE cs of (l, rest, eof) \<Rightarrow> if eof then [l] else l # get_strings rest)"
  by auto
termination
  by (relation "measure length") (auto simp: STR_BUFFER_SIZE_def dest!: fgets_rest [OF sym])

declare get_strings.simps [simp del]

definition row :: "string list \<Rightarrow> int \<Rightarrow> string" where
  "row s i = (if 1 \<le> i \<and> i \<le> int (length s) then s ! nat (i - 1) else [])"

definition blank :: "string list \<Rightarrow> int \<Rightarrow> bool" where
  "blank s i \<longleftrightarrow> row s i \<noteq> [] \<and> hd (row s i) = newline_char"

section \<open>The table\<close>

definition tolower :: "char \<Rightarrow> char" where
  "tolower c = (if 65 \<le> (of_char c :: nat) \<and> (of_char c :: nat) \<le> 90 then char_of (of_char c + 32 :: nat) else c)"

text \<open>Two lines are equal for \<^verbatim>\<open>strcmp\<close>, or for \<^verbatim>\<open>strcasecmp\<close>, when their keys are equal.\<close>

definition key :: "bool \<Rightarrow> string \<Rightarrow> string" where
  "key ic l = (if ic then map tolower l else l)"

definition lcs_cell :: "bool \<Rightarrow> string list \<Rightarrow> string list \<Rightarrow> nat \<Rightarrow> nat \<Rightarrow> (nat \<Rightarrow> nat \<Rightarrow> nat) \<Rightarrow> nat \<Rightarrow> nat \<Rightarrow> nat" where
  "lcs_cell ic s1 s2 i j T = T(i := (T i)(j :=
     if key ic (row s1 (int i)) = key ic (row s2 (int j)) then T (i - 1) (j - 1) + 1 else max (T (i - 1) j) (T i (j - 1))))"

definition lcs_table :: "bool \<Rightarrow> string list \<Rightarrow> string list \<Rightarrow> nat \<Rightarrow> nat \<Rightarrow> nat" where
  "lcs_table ic s1 s2 = fold (\<lambda>i. fold (lcs_cell ic s1 s2 i) [1..<length s2 + 1]) [1..<length s1 + 1] (\<lambda>_ _. 0)"

section \<open>The walk back\<close>

text \<open>
  The marks \<^verbatim>\<open>cmp1\<close>, \<^verbatim>\<open>cmp2\<close> and the rows \<^verbatim>\<open>blank_flag1\<close>, \<^verbatim>\<open>blank_flag2\<close>. At \<open>i = 0\<close> the code reads the
  table's row -1, which is outside the array: \<open>oob\<close> stands for the values found there.
\<close>

record trace =
  t_i :: int
  t_j :: int
  cmp1 :: "int \<Rightarrow> bool"
  cmp2 :: "int \<Rightarrow> bool"
  blank1 :: int
  blank2 :: int

definition lcs_at :: "(int \<Rightarrow> nat) \<Rightarrow> (nat \<Rightarrow> nat \<Rightarrow> nat) \<Rightarrow> int \<Rightarrow> int \<Rightarrow> nat" where
  "lcs_at oob T i j = (if i < 0 then oob j else T (nat i) (nat j))"

definition blank_step :: "string list \<Rightarrow> string list \<Rightarrow> trace \<Rightarrow> trace" where
  "blank_step s1 s2 st = (let i = t_i st; j = t_j st; len1 = int (length s1); len2 = int (length s2);
       b1 = blank1 st < len1 \<and> cmp1 st (blank1 st + 1); b2 = blank2 st < len2 \<and> cmp2 st (blank2 st + 1);
       st' = (if b1 \<and> b2 \<or> b1 \<and> j < len2 \<and> cmp2 st (j + 1) \<or> i < len1 \<and> cmp1 st (i + 1) \<and> b2
          then st\<lparr>cmp1 := (cmp1 st)(i := True), cmp2 := (cmp2 st)(j := True)\<rparr>
          else if blank s1 (i + 1) \<and> blank s2 (j + 1)
          then st\<lparr>cmp1 := (cmp1 st)(i + 1 := True, i := False), cmp2 := (cmp2 st)(j + 1 := True, j := False)\<rparr>
          else st\<lparr>cmp1 := (cmp1 st)(i := False), cmp2 := (cmp2 st)(j := False)\<rparr>)
     in st'\<lparr>t_i := i - 1, t_j := j - 1, blank1 := i, blank2 := j\<rparr>)"

definition trace_step :: "(int \<Rightarrow> int \<Rightarrow> nat) \<Rightarrow> string list \<Rightarrow> string list \<Rightarrow> trace \<Rightarrow> trace" where
  "trace_step T s1 s2 st = (let i = t_i st; j = t_j st in
     if T i j = T (i - 1) j then st\<lparr>blank1 := if blank s1 i then i else blank1 st, cmp1 := (cmp1 st)(i := False), t_i := i - 1\<rparr>
     else if T i j = T i (j - 1) then st\<lparr>blank2 := if blank s2 j then j else blank2 st, cmp2 := (cmp2 st)(j := False), t_j := j - 1\<rparr>
     else if T (i - 1) j = T i (j - 1) then
       (if blank s1 i then blank_step s1 s2 st
        else st\<lparr>cmp1 := (cmp1 st)(i := True), cmp2 := (cmp2 st)(j := True), t_i := i - 1, t_j := j - 1\<rparr>)
     else st)"

partial_function (option) traceback :: "(int \<Rightarrow> int \<Rightarrow> nat) \<Rightarrow> string list \<Rightarrow> string list \<Rightarrow> trace \<Rightarrow> trace option" where
  "traceback T s1 s2 st = (if t_j st \<le> 0 \<or> t_i st < 0 then Some st else traceback T s1 s2 (trace_step T s1 s2 st))"

declare traceback.simps [code]

definition marks :: "(int \<Rightarrow> nat) \<Rightarrow> bool \<Rightarrow> string list \<Rightarrow> string list \<Rightarrow> trace option" where
  "marks oob ic s1 s2 = traceback (lcs_at oob (lcs_table ic s1 s2)) s1 s2
     \<lparr>t_i = int (length s1), t_j = int (length s2), cmp1 = \<lambda>_. False, cmp2 = \<lambda>_. False, blank1 = 0, blank2 = 0\<rparr>"

section \<open>The edit script\<close>

fun dec_digits :: "nat \<Rightarrow> string" where
  "dec_digits n = (if n < 10 then [char_of (48 + n)] else dec_digits (n div 10) @ [char_of (48 + n mod 10)])"

declare dec_digits.simps [simp del]

definition dec :: "int \<Rightarrow> string" where
  "dec i = (if i < 0 then CHR ''-'' # dec_digits (nat (- i)) else dec_digits (nat i))"

text \<open>
  \<^verbatim>\<open>print_str\<close> looks at the character before the end of the row, which for an empty row is the last
  byte of the previous row, a zero; for row 0 it is the byte \<open>prev_byte\<close> ahead of the array.
\<close>

definition print_str :: "char \<Rightarrow> string list \<Rightarrow> int \<Rightarrow> string" where
  "print_str prev_byte s i = (let l = row s i; c = (if l \<noteq> [] then last l else if i = 0 then prev_byte else CHR 0x00) in
     if c = newline_char then l else l @ [newline_char] @ CHR 0x5C # ''No new line at end of file'' @ [newline_char])"


definition print_lines :: "string \<Rightarrow> char \<Rightarrow> string list \<Rightarrow> int \<Rightarrow> int \<Rightarrow> string" where
  "print_lines pre prev_byte s a b = concat (map (\<lambda>i. pre @ print_str prev_byte s i) [a..b])"

definition range_str :: "int \<Rightarrow> int \<Rightarrow> string" where
  "range_str a b = (if a = b then dec a else dec a @ '','' @ dec b)"

text \<open>The option \<^verbatim>\<open>l\<close> leaves out the lines.\<close>

definition print_append :: "char \<Rightarrow> string list \<Rightarrow> bool \<Rightarrow> int \<Rightarrow> int \<Rightarrow> int \<Rightarrow> string" where
  "print_append prev_byte s2 opt_l o1 n1 n2 = dec o1 @ ''a'' @ range_str n1 n2 @ [newline_char] @ (if opt_l then [] else print_lines ''> '' prev_byte s2 n1 n2)"

definition print_delete :: "char \<Rightarrow> string list \<Rightarrow> bool \<Rightarrow> int \<Rightarrow> int \<Rightarrow> int \<Rightarrow> string" where
  "print_delete prev_byte s1 opt_l o1 o2 n1 = range_str o1 o2 @ ''d'' @ dec n1 @ [newline_char] @ (if opt_l then [] else print_lines ''< '' prev_byte s1 o1 o2)"

definition print_change :: "char \<Rightarrow> string list \<Rightarrow> string list \<Rightarrow> bool \<Rightarrow> int \<Rightarrow> int \<Rightarrow> int \<Rightarrow> int \<Rightarrow> string" where
  "print_change prev_byte s1 s2 opt_l o1 o2 n1 n2 =
     (let first = blank s1 o1 \<and> blank s2 n1; a = (if first then o1 + 1 else o1); c = (if first then n1 + 1 else n1);
          lst = blank s1 o2 \<and> blank s2 n2; b = (if lst then o2 - 1 else o2); d = (if lst then n2 - 1 else n2)
      in if a > b \<or> c > d then [] else range_str a b @ ''c'' @ range_str c d @ [newline_char] @
        (if opt_l then [] else print_lines ''< '' prev_byte s1 a b @ ''---'' @ [newline_char] @ print_lines ''> '' prev_byte s2 c d))"

text \<open>\<^verbatim>\<open>ff_until_1\<close>: the next marked row, or one behind the limit.\<close>

function ff_until_1 :: "(int \<Rightarrow> bool) \<Rightarrow> int \<Rightarrow> int \<Rightarrow> int" where
  "ff_until_1 ls s limit = (if s \<le> limit \<and> \<not> ls s then ff_until_1 ls (s + 1) limit else s)"
  by auto
termination by (relation "measure (\<lambda>(_, s, limit). nat (limit + 1 - s))") auto

declare ff_until_1.simps [simp del]

lemma ff_ge: "s \<le> ff_until_1 ls s limit"
proof (induction ls s limit rule: ff_until_1.induct)
  case (1 ls s limit)
  then show ?case by (subst ff_until_1.simps) auto
qed

lemma ff_gt: "s \<le> limit \<Longrightarrow> \<not> ls s \<Longrightarrow> s < ff_until_1 ls s limit"
  using ff_ge [of "s + 1" ls limit] by (subst ff_until_1.simps) auto

lemma ff_measure: "nat (l + 1 - ff_until_1 ls s l) \<le> nat (l + 1 - s)" "s \<le> l \<Longrightarrow> \<not> ls s \<Longrightarrow> nat (l + 1 - ff_until_1 ls s l) < nat (l + 1 - s)"
  using ff_ge [of s ls l] ff_gt [of s l ls] by auto

function script :: "char \<Rightarrow> string list \<Rightarrow> string list \<Rightarrow> (int \<Rightarrow> bool) \<Rightarrow> (int \<Rightarrow> bool) \<Rightarrow> bool \<Rightarrow> int \<Rightarrow> int \<Rightarrow> string" where
  "script prev_byte s1 s2 m1 m2 opt_l i j = (let len1 = int (length s1); len2 = int (length s2) in
     if i > len1 \<and> j > len2 then []
     else if i > len1 then print_append prev_byte s2 opt_l len1 j len2
     else if j > len2 then print_delete prev_byte s1 opt_l i len1 len2
     else if m1 i \<and> m2 j then script prev_byte s1 s2 m1 m2 opt_l (i + 1) (j + 1)
     else if m1 i then (let j' = ff_until_1 m2 j len2 in
       print_append prev_byte s2 opt_l (i - 1) j (j' - 1) @ script prev_byte s1 s2 m1 m2 opt_l i j')
     else if m2 j then (let i' = ff_until_1 m1 i len1 in
       print_delete prev_byte s1 opt_l i i' (j - 1) @ script prev_byte s1 s2 m1 m2 opt_l i' j)
     else if i = 0 \<and> j = 0 \<and> m1 1 \<and> m2 1 then script prev_byte s1 s2 m1 m2 opt_l 1 1
     else if i = 0 \<and> j = 0 \<and> m2 1 then (let i' = ff_until_1 m1 1 len1 in
       print_delete prev_byte s1 opt_l 1 (i' - 1) 0 @ script prev_byte s1 s2 m1 m2 opt_l i' 1)
     else if i = 0 \<and> j = 0 \<and> m1 1 then (let j' = ff_until_1 m2 1 len2 in
       print_append prev_byte s2 opt_l 0 1 (j' - 1) @ script prev_byte s1 s2 m1 m2 opt_l 1 j')
     else (let i' = ff_until_1 m1 i len1; j' = ff_until_1 m2 j len2 in
       print_change prev_byte s1 s2 opt_l i (i' - 1) j (j' - 1) @ script prev_byte s1 s2 m1 m2 opt_l i' j'))"
  by auto
termination
proof (relation "measure (\<lambda>(_, s1, s2, _, _, _, i, j). nat (int (length s1) + 1 - i) + nat (int (length s2) + 1 - j))", goal_cases)
  case 1
  show ?case by simp
next
  case 2
  then show ?case by simp
next
  case 3
  then show ?case using ff_measure(2) by simp
next
  case 4
  then show ?case using ff_measure(2) by simp
next
  case 5
  then show ?case by simp
next
  case (6 prev_byte s1 s2 m1 m2 opt_l i j len1 len2 i')
  then show ?case using ff_measure(1) [of len1 m1 1] by simp
next
  case (7 prev_byte s1 s2 m1 m2 opt_l i j len1 len2 j')
  then show ?case using ff_measure(1) [of len2 m2 1] by simp
next
  case (8 prev_byte s1 s2 m1 m2 opt_l i j len1 len2 i' j')
  then show ?case using ff_measure(2) [of i len1 m1] ff_measure(1) [of len2 m2 j] by simp
qed

declare script.simps [simp del]

text \<open>\<^verbatim>\<open>diff_file\<close>: \<open>None\<close> when a file does not fit the array of rows.\<close>

definition count_marks :: "(int \<Rightarrow> bool) \<Rightarrow> nat \<Rightarrow> nat" where
  "count_marks m n = length (filter (\<lambda>k. m (int k)) [1..<n + 1])"

record diff_option =
  opt_q :: bool
  opt_s :: bool
  opt_i :: bool
  opt_l :: bool

definition diff_lines :: "char \<Rightarrow> (int \<Rightarrow> nat) \<Rightarrow> string \<Rightarrow> string \<Rightarrow> diff_option \<Rightarrow> string list \<Rightarrow> string list \<Rightarrow> string option" where
  "diff_lines prev_byte oob name1 name2 opt s1 s2 = (case marks oob (opt_i opt) s1 s2 of None \<Rightarrow> None | Some st \<Rightarrow>
     if \<not> opt_q opt \<and> \<not> opt_s opt then Some (script prev_byte s1 s2 (cmp1 st) (cmp2 st) (opt_l opt) 0 0)
     else let sum = count_marks (cmp1 st) (length s1) + count_marks (cmp2 st) (length s2); all = length s1 + length s2 in
       Some ((if opt_q opt \<and> sum \<noteq> all then ''Files '' @ name1 @ '' and '' @ name2 @ '' differ'' @ [newline_char] else []) @
        (if opt_s opt \<and> sum \<noteq> all then ''Files '' @ name1 @ '' and '' @ name2 @ '' are identical'' @ [newline_char] else [])))"

definition diff_file :: "char \<Rightarrow> (int \<Rightarrow> nat) \<Rightarrow> string \<Rightarrow> string \<Rightarrow> diff_option \<Rightarrow> string \<Rightarrow> string \<Rightarrow> string option" where
  "diff_file prev_byte oob name1 name2 opt f1 f2 = (let s1 = get_strings f1; s2 = get_strings f2 in
     if STR_BUFFER_SIZE \<le> length s1 \<or> STR_BUFFER_SIZE \<le> length s2 then None else diff_lines prev_byte oob name1 name2 opt s1 s2)"

end
