(* ===== verification/DiffProps.thy ===== *)
theory DiffProps
  imports Diff
begin

text \<open>
  What the marks of the file comparison mean: the table holds the lengths of longest common
  subsequences, and for files without empty lines the walk back marks one, whatever the code
  finds when it reads ahead of the table.
\<close>

section \<open>The table\<close>

fun lcs_len :: "'a list \<Rightarrow> 'a list \<Rightarrow> nat \<Rightarrow> nat \<Rightarrow> nat" where
  "lcs_len xs ys 0 j = 0"
| "lcs_len xs ys i 0 = 0"
| "lcs_len xs ys (Suc i) (Suc j) = (if xs ! i = ys ! j then lcs_len xs ys i j + 1
     else max (lcs_len xs ys i (Suc j)) (lcs_len xs ys (Suc i) j))"

lemma lcs_len_0 [simp]: "lcs_len xs ys i 0 = 0"
  by (cases i) simp_all

lemma lcs_len_step:
  "lcs_len xs ys i j \<le> lcs_len xs ys (Suc i) j \<and> lcs_len xs ys (Suc i) j \<le> lcs_len xs ys i j + 1 \<and>
   lcs_len xs ys i j \<le> lcs_len xs ys i (Suc j) \<and> lcs_len xs ys i (Suc j) \<le> lcs_len xs ys i j + 1"
proof (induction "i + j" arbitrary: i j rule: less_induct)
  case less
  have IH: "lcs_len xs ys a b \<le> lcs_len xs ys (Suc a) b \<and> lcs_len xs ys (Suc a) b \<le> lcs_len xs ys a b + 1 \<and>
     lcs_len xs ys a b \<le> lcs_len xs ys a (Suc b) \<and> lcs_len xs ys a (Suc b) \<le> lcs_len xs ys a b + 1" if "a + b < i + j" for a b
    using less that by blast
  show ?case
    using IH [of "i - 1" j] IH [of i "j - 1"] IH [of "i - 1" "j - 1"]
    by (cases i; cases j) (auto simp: max_def)
qed

lemma subseq_single: "subseq zs [x] \<longleftrightarrow> zs = [] \<or> zs = [x]"
  by (cases zs) (auto dest: list_emb_length)

lemma subseq_snoc_cases: "subseq zs (xs @ [x]) \<Longrightarrow> subseq zs xs \<or> (\<exists>as. zs = as @ [x] \<and> subseq as xs)"
  by (auto simp: subseq_append_iff subseq_single)

lemma subseq_butlast: "subseq zs (xs @ [x]) \<Longrightarrow> subseq (butlast zs) xs"
  by (drule subseq_snoc_cases) (metis append_butlast_last_id butlast.simps(1) butlast_snoc list_emb_append2 subseq_append_iff subseq_order.order_trans subseq_order.order_refl subseq_rev_drop_many)

lemma lcs_len_upper:
  "i \<le> length xs \<Longrightarrow> j \<le> length ys \<Longrightarrow> subseq zs (take i xs) \<Longrightarrow> subseq zs (take j ys) \<Longrightarrow> length zs \<le> lcs_len xs ys i j"
proof (induction xs ys i j arbitrary: zs rule: lcs_len.induct)
  case (3 xs ys i j)
  have x: "take (Suc i) xs = take i xs @ [xs ! i]" and y: "take (Suc j) ys = take j ys @ [ys ! j]"
    using 3(4,5) by (simp_all add: take_Suc_conv_app_nth)
  show ?case
  proof (cases "xs ! i = ys ! j")
    case True
    have "subseq (butlast zs) (take i xs)" "subseq (butlast zs) (take j ys)" using 3(6,7) subseq_butlast by (auto simp: x y)
    then have "length (butlast zs) \<le> lcs_len xs ys i j" using 3(1) [OF True] 3(4,5) by (simp del: length_butlast)
    then show ?thesis using True by simp
  next
    case False
    then have "subseq zs (take i xs) \<or> subseq zs (take j ys)"
      using subseq_snoc_cases [of zs "take i xs"] subseq_snoc_cases [of zs "take j ys"] 3(6,7) by (auto simp: x y)
    then show ?thesis using 3(2,3) [OF False] 3(4-7) False by (fastforce simp: le_max_iff_disj)
  qed
qed (auto dest: list_emb_length)

text \<open>The nested loops fill the table row by row with these lengths.\<close>

definition filled_to :: "bool \<Rightarrow> string list \<Rightarrow> string list \<Rightarrow> nat \<Rightarrow> nat \<Rightarrow> (nat \<Rightarrow> nat \<Rightarrow> nat) \<Rightarrow> bool" where
  "filled_to ic s1 s2 a b T \<longleftrightarrow> (\<forall>i j. T i j = (if i \<le> a \<and> j \<le> length s2 \<or> i = Suc a \<and> j \<le> b
     then lcs_len (map (key ic) s1) (map (key ic) s2) i j else 0))"

lemma row_nth: "i < length s \<Longrightarrow> row s (int i + 1) = s ! i"
  by (simp add: row_def)

lemma fill_cell:
  assumes "a < length s1" "b < length s2" "filled_to ic s1 s2 a b T"
  shows "filled_to ic s1 s2 a (Suc b) (lcs_cell ic s1 s2 (Suc a) (Suc b) T)"
proof -
  have T: "T i j = (if i \<le> a \<and> j \<le> length s2 \<or> i = Suc a \<and> j \<le> b then lcs_len (map (key ic) s1) (map (key ic) s2) i j else 0)" for i j
    using assms(3) by (simp add: filled_to_def)
  have "lcs_cell ic s1 s2 (Suc a) (Suc b) T (Suc a) (Suc b) = lcs_len (map (key ic) s1) (map (key ic) s2) (Suc a) (Suc b)"
    using assms(1,2) T [of a b] T [of a "Suc b"] T [of "Suc a" b] row_nth [of a s1] row_nth [of b s2]
    by (simp add: lcs_cell_def add.commute)
  moreover have "lcs_cell ic s1 s2 (Suc a) (Suc b) T i j = T i j" if "\<not> (i = Suc a \<and> j = Suc b)" for i j
    using that by (auto simp: lcs_cell_def)
  ultimately show ?thesis unfolding filled_to_def using T assms(2) by (auto simp: le_Suc_eq)
qed

lemma fill_row:
  assumes "a < length s1" "filled_to ic s1 s2 a 0 T" "b \<le> length s2"
  shows "filled_to ic s1 s2 a b (fold (lcs_cell ic s1 s2 (Suc a)) [1..<b + 1] T)"
  using assms(3)
proof (induction b)
  case 0
  then show ?case using assms(2) by simp
next
  case (Suc b)
  then show ?case using fill_cell [OF assms(1), of b s2 ic] by simp
qed

lemma fill_next: "filled_to ic s1 s2 a (length s2) T \<Longrightarrow> filled_to ic s1 s2 (Suc a) 0 T"
  by (auto simp: filled_to_def le_Suc_eq)

lemma fill_rows: "a \<le> length s1 \<Longrightarrow>
    filled_to ic s1 s2 a 0 (fold (\<lambda>i. fold (lcs_cell ic s1 s2 i) [1..<length s2 + 1]) [1..<a + 1] (\<lambda>_ _. 0))"
proof (induction a)
  case 0
  then show ?case by (auto simp: filled_to_def le_Suc_eq)
next
  case (Suc a)
  then show ?case using fill_next [OF fill_row [of a s1 ic s2 _ "length s2"]] by simp
qed

lemma table_len: "i \<le> length s1 \<Longrightarrow> j \<le> length s2 \<Longrightarrow> lcs_table ic s1 s2 i j = lcs_len (map (key ic) s1) (map (key ic) s2) i j"
  using fill_rows [of "length s1" s1 ic s2] by (simp add: filled_to_def lcs_table_def)

section \<open>The walk back\<close>

definition no_blanks :: "string list \<Rightarrow> bool" where
  "no_blanks s \<longleftrightarrow> (\<forall>l \<in> set s. l = [] \<or> hd l \<noteq> newline_char)"

lemma not_blank: "no_blanks s \<Longrightarrow> \<not> blank s i"
proof
  assume s: "no_blanks s" "blank s i"
  then have "1 \<le> i" "i \<le> int (length s)" by (auto simp: blank_def row_def split: if_splits)
  then have "s ! nat (i - 1) \<in> set s" by (intro nth_mem) linarith
  then show False using s by (auto simp: no_blanks_def blank_def row_def split: if_splits)
qed

text \<open>The rows behind row \<open>i\<close> that are marked.\<close>

definition picked :: "(int \<Rightarrow> bool) \<Rightarrow> 'a list \<Rightarrow> int \<Rightarrow> 'a list" where
  "picked m xs i = map (\<lambda>k. xs ! nat (k - 1)) (filter m [i + 1..int (length xs)])"

lemma picked_step:
  assumes "i \<le> int (length xs)"
  shows "picked (m(i := b)) xs (i - 1) = (if b then [xs ! nat (i - 1)] else []) @ picked m xs i"
proof -
  have "filter (m(i := b)) [i + 1..int (length xs)] = filter m [i + 1..int (length xs)]" by (rule filter_cong) auto
  then show ?thesis using assms by (cases b) (simp_all add: picked_def upto_rec1 [of i])
qed

definition walk_ok :: "bool \<Rightarrow> string list \<Rightarrow> string list \<Rightarrow> trace \<Rightarrow> bool" where
  "walk_ok ic s1 s2 st \<longleftrightarrow> - 1 \<le> t_i st \<and> t_i st \<le> int (length s1) \<and> 0 \<le> t_j st \<and> t_j st \<le> int (length s2) \<and>
     picked (cmp1 st) (map (key ic) s1) (t_i st) = picked (cmp2 st) (map (key ic) s2) (t_j st) \<and>
     length (picked (cmp1 st) (map (key ic) s1) (t_i st)) + lcs_len (map (key ic) s1) (map (key ic) s2) (nat (t_i st)) (nat (t_j st)) =
       lcs_len (map (key ic) s1) (map (key ic) s2) (length s1) (length s2) \<and>
     (\<forall>k \<le> t_i st. \<not> cmp1 st k) \<and> (\<forall>k \<le> t_j st. \<not> cmp2 st k) \<and> \<not> cmp1 st 0 \<and> \<not> cmp2 st 0"

lemma walk_step:
  assumes "walk_ok ic s1 s2 st" "no_blanks s1" "no_blanks s2" "\<not> (t_j st \<le> 0 \<or> t_i st < 0)" "st' = trace_step (lcs_at oob (lcs_table ic s1 s2)) s1 s2 st"
  shows "walk_ok ic s1 s2 st' \<and> nat (t_i st' + 1) + nat (t_j st') < nat (t_i st + 1) + nat (t_j st)"
proof -
  let ?xs = "map (key ic) s1" and ?ys = "map (key ic) s2" and ?T = "lcs_at oob (lcs_table ic s1 s2)"
  let ?i = "t_i st" and ?j = "t_j st" and ?L = "lcs_len (map (key ic) s1) (map (key ic) s2)"
  have b: "0 \<le> ?i" "?i \<le> int (length s1)" "1 \<le> ?j" "?j \<le> int (length s2)" using assms(1,4) by (auto simp: walk_ok_def)
  have T: "?T i j = ?L (nat i) (nat j)" if "0 \<le> i" "i \<le> int (length s1)" "0 \<le> j" "j \<le> int (length s2)" for i j
    using that table_len [of "nat i" s1 "nat j" s2 ic] by (simp add: lcs_at_def)
  have pk: "picked ((cmp1 st)(?i := False)) ?xs (?i - 1) = picked (cmp1 st) ?xs ?i"
    "picked ((cmp2 st)(?j := False)) ?ys (?j - 1) = picked (cmp2 st) ?ys ?j"
    "picked ((cmp1 st)(?i := True)) ?xs (?i - 1) = ?xs ! nat (?i - 1) # picked (cmp1 st) ?xs ?i"
    "picked ((cmp2 st)(?j := True)) ?ys (?j - 1) = ?ys ! nat (?j - 1) # picked (cmp2 st) ?ys ?j"
    using picked_step [of ?i ?xs "cmp1 st" False] picked_step [of ?j ?ys "cmp2 st" False]
      picked_step [of ?i ?xs "cmp1 st" True] picked_step [of ?j ?ys "cmp2 st" True] b by auto
  note ok = assms(1) [unfolded walk_ok_def]
  consider (up) "?T ?i ?j = ?T (?i - 1) ?j" | (left) "?T ?i ?j \<noteq> ?T (?i - 1) ?j" "?T ?i ?j = ?T ?i (?j - 1)"
    | (diag) "?T ?i ?j \<noteq> ?T (?i - 1) ?j" "?T ?i ?j \<noteq> ?T ?i (?j - 1)" by blast
  then show ?thesis
  proof cases
    case up
    have "?L (nat ?i) (nat ?j) = ?L (nat (?i - 1)) (nat ?j)"
    proof (cases "?i = 0")
      case False
      then show ?thesis using up b T [of ?i ?j] T [of "?i - 1" ?j] by simp
    qed simp
    moreover have "st' = st\<lparr>blank1 := blank1 st, cmp1 := (cmp1 st)(?i := False), t_i := ?i - 1\<rparr>"
      using up assms(5) not_blank [OF assms(2)] by (simp add: trace_step_def Let_def)
    ultimately show ?thesis using ok b unfolding walk_ok_def by (auto simp: pk)
  next
    case left
    then have "?L (nat ?i) (nat ?j) = ?L (nat ?i) (nat (?j - 1))" using b T [of ?i ?j] T [of ?i "?j - 1"] by simp
    moreover have "st' = st\<lparr>blank2 := blank2 st, cmp2 := (cmp2 st)(?j := False), t_j := ?j - 1\<rparr>"
      using left assms(5) not_blank [OF assms(3)] by (simp add: trace_step_def Let_def)
    ultimately show ?thesis using ok b unfolding walk_ok_def by (auto simp: pk)
  next
    case diag
    have i: "?i \<noteq> 0"
    proof
      assume "?i = 0"
      then show False using diag b T [of ?i ?j] T [of ?i "?j - 1"] by simp
    qed
    then obtain a c where "nat ?i = Suc a" "nat ?j = Suc c" using b by (metis Suc_pred' nat_0_iff not_one_le_zero zero_less_nat_eq le_less linorder_not_less zero_less_one_class.zero_le_one order_trans)
    then have ac: "?i = int (Suc a)" "?j = int (Suc c)" using b by auto
    have bnd: "Suc a \<le> length s1" "Suc c \<le> length s2" using b ac by auto
    have ne: "?L (Suc a) (Suc c) \<noteq> ?L a (Suc c)" "?L (Suc a) (Suc c) \<noteq> ?L (Suc a) c"
      using diag T [of ?i ?j] T [of "?i - 1" ?j] T [of ?i "?j - 1"] bnd by (simp_all add: ac nat_add_distrib)
    then have e: "?xs ! a = ?ys ! c" "?L (Suc a) (Suc c) = Suc (?L a c)" by (auto simp: max_def split: if_splits)
    then have "?L a (Suc c) = ?L a c" "?L (Suc a) c = ?L a c" using ne lcs_len_step [of ?xs ?ys a c] by auto
    then have "?T (?i - 1) ?j = ?T ?i (?j - 1)" using T [of "?i - 1" ?j] T [of ?i "?j - 1"] bnd by (simp add: ac nat_add_distrib)
    then have "st' = st\<lparr>cmp1 := (cmp1 st)(?i := True), cmp2 := (cmp2 st)(?j := True), t_i := ?i - 1, t_j := ?j - 1\<rparr>"
      using diag assms(5) not_blank [OF assms(2)] by (simp add: trace_step_def Let_def)
    then show ?thesis using ok b e bnd unfolding walk_ok_def by (simp add: pk) (auto simp: ac nat_add_distrib)
  qed
qed


lemma traceback_walk:
  "walk_ok ic s1 s2 st \<Longrightarrow> no_blanks s1 \<Longrightarrow> no_blanks s2 \<Longrightarrow>
    \<exists>st'. traceback (lcs_at oob (lcs_table ic s1 s2)) s1 s2 st = Some st' \<and> walk_ok ic s1 s2 st' \<and> (t_j st' \<le> 0 \<or> t_i st' < 0)"
proof (induction "nat (t_i st + 1) + nat (t_j st)" arbitrary: st rule: less_induct)
  case less
  show ?case
  proof (cases "t_j st \<le> 0 \<or> t_i st < 0")
    case True
    then show ?thesis using less.prems by (subst traceback.simps) simp
  next
    case False
    note w = walk_step [OF less.prems(1-3) False refl, of oob]
    show ?thesis using less.hyps [OF conjunct2 [OF w] conjunct1 [OF w] less.prems(2,3)] False by (subst traceback.simps) simp
  qed
qed

lemma picked_all:
  assumes "\<forall>k \<le> i. \<not> m k" "\<not> m 0" "- 1 \<le> i" "i \<le> int (length xs)"
  shows "picked m xs i = picked m xs 0"
proof (cases "1 \<le> i")
  case True
  then have "[1..int (length xs)] = [1..i] @ [i + 1..int (length xs)]" using assms(4) by (intro upto_split2) auto
  moreover have "filter m [1..i] = []" using assms(1) by (simp add: filter_empty_conv)
  ultimately show ?thesis by (simp add: picked_def)
next
  case False
  then have "i = - 1 \<or> i = 0" using assms(3) by auto
  then show ?thesis using assms(2) by (auto simp: picked_def upto_rec1 [of 0])
qed

text \<open>The lines of a file that are marked, as keys, and the marks of the whole comparison.\<close>

definition common_lines :: "(int \<Rightarrow> bool) \<Rightarrow> bool \<Rightarrow> string list \<Rightarrow> string list" where
  "common_lines m ic s = picked m (map (key ic) s) 0"

lemma lcs_len_done: "j \<le> 0 \<or> i < 0 \<Longrightarrow> lcs_len xs ys (nat i) (nat j) = 0"
  by auto

lemma marks_lcs:
  assumes "no_blanks s1" "no_blanks s2"
  shows "\<exists>st. marks oob ic s1 s2 = Some st \<and> common_lines (cmp1 st) ic s1 = common_lines (cmp2 st) ic s2 \<and>
    length (common_lines (cmp1 st) ic s1) = lcs_len (map (key ic) s1) (map (key ic) s2) (length s1) (length s2)"
proof -
  let ?st = "\<lparr>t_i = int (length s1), t_j = int (length s2), cmp1 = \<lambda>_. False, cmp2 = \<lambda>_. False, blank1 = 0, blank2 = 0\<rparr>"
  have "walk_ok ic s1 s2 ?st" by (simp add: walk_ok_def picked_def)
  then obtain st where st: "marks oob ic s1 s2 = Some st" "walk_ok ic s1 s2 st" "t_j st \<le> 0 \<or> t_i st < 0"
    using traceback_walk assms unfolding marks_def by blast
  note w = st(2) [unfolded walk_ok_def]
  have "picked (cmp1 st) (map (key ic) s1) (t_i st) = common_lines (cmp1 st) ic s1"
    unfolding common_lines_def by (rule picked_all) (use w in auto)
  moreover have "picked (cmp2 st) (map (key ic) s2) (t_j st) = common_lines (cmp2 st) ic s2"
    unfolding common_lines_def by (rule picked_all) (use w in auto)
  moreover have "lcs_len (map (key ic) s1) (map (key ic) s2) (nat (t_i st)) (nat (t_j st)) = 0" by (rule lcs_len_done [OF st(3)])
  ultimately show ?thesis using st(1) w by auto
qed

lemma nths_picked: "subseq (picked m xs 0) xs"
proof -
  have "picked m xs 0 = map (\<lambda>k. xs ! k) (filter (\<lambda>k. m (int k + 1)) [0..<length xs])"
  proof -
    have "[1..int n] = map (\<lambda>k. int k + 1) [0..<n]" for n
      by (induction n) (simp_all add: upto_rec2 add.commute)
    then show ?thesis by (simp add: picked_def filter_map comp_def)
  qed
  moreover have "subseq (map (\<lambda>k. xs ! k) (filter P [0..<length xs])) (map (\<lambda>k. xs ! k) [0..<length xs])" for P
    by (intro subseq_map) simp
  ultimately show ?thesis by (simp add: map_nth)
qed

lemma count_marks_common: "count_marks m (length s) = length (common_lines m ic s)"
proof -
  have "[1..int n] = map int [1..<n + 1]" for n
    by (induction n) (simp_all add: upto_rec2)
  then show ?thesis by (simp add: count_marks_def common_lines_def picked_def filter_map comp_def)
qed


lemma marks_full:
  assumes "no_blanks s1" "no_blanks s2" "marks oob ic s1 s2 = Some st"
  shows "count_marks (cmp1 st) (length s1) + count_marks (cmp2 st) (length s2) = length s1 + length s2 \<longleftrightarrow>
    map (key ic) s1 = map (key ic) s2"
proof -
  let ?c = "common_lines (cmp1 st) ic s1" and ?xs = "map (key ic) s1" and ?ys = "map (key ic) s2"
  have c: "common_lines (cmp2 st) ic s2 = ?c" "length ?c = lcs_len ?xs ?ys (length s1) (length s2)"
    using marks_lcs [OF assms(1,2), of oob ic] assms(3) by auto
  have sub: "subseq ?c ?xs" "subseq ?c ?ys" using nths_picked c(1) by (metis common_lines_def)+
  have n: "count_marks (cmp1 st) (length s1) = length ?c" "count_marks (cmp2 st) (length s2) = length ?c"
    by (simp_all add: count_marks_common [of _ s1 ic] count_marks_common [of _ s2 ic] c(1))
  show ?thesis
  proof
    assume "count_marks (cmp1 st) (length s1) + count_marks (cmp2 st) (length s2) = length s1 + length s2"
    then have "length ?c = length ?xs" "length ?c = length ?ys"
      using n list_emb_length [OF sub(1)] list_emb_length [OF sub(2)] by auto
    then show "?xs = ?ys" using sub subseq_same_length by metis
  next
    assume e: "?xs = ?ys"
    then have "length s1 = length s2" using map_eq_imp_length_eq by blast
    moreover have "length ?xs \<le> length ?c"
      using lcs_len_upper [of "length s1" ?xs "length s2" ?ys ?xs] e \<open>length s1 = length s2\<close> by (simp add: c(2))
    ultimately show "count_marks (cmp1 st) (length s1) + count_marks (cmp2 st) (length s2) = length s1 + length s2"
      using n list_emb_length [OF sub(1)] by simp
  qed
qed

definition report :: "string \<Rightarrow> string \<Rightarrow> string \<Rightarrow> string" where
  "report name1 name2 what = ''Files '' @ name1 @ '' and '' @ name2 @ what @ [newline_char]"

definition just_q :: "bool \<Rightarrow> diff_option" where
  "just_q ic = \<lparr>opt_q = True, opt_s = False, opt_i = ic, opt_l = False\<rparr>"

definition just_s :: "bool \<Rightarrow> diff_option" where
  "just_s ic = \<lparr>opt_q = False, opt_s = True, opt_i = ic, opt_l = False\<rparr>"

section \<open>The properties\<close>



definition same_lines :: "bool \<Rightarrow> string \<Rightarrow> string \<Rightarrow> bool" where
  "same_lines ic f1 f2 \<longleftrightarrow> map (key ic) (get_strings f1) = map (key ic) (get_strings f2)"

lemma empty_line_unmarked:
  "\<exists>st. marks oob ic [[newline_char], []] [[newline_char], []] = Some st \<and> \<not> cmp1 st 1 \<and> \<not> cmp2 st 1"
proof -
  let ?s = "[[newline_char], []]"
  have t: "lcs_table ic ?s ?s 2 2 = 2" "lcs_table ic ?s ?s (Suc 0) 2 = 1" "lcs_table ic ?s ?s 2 (Suc 0) = 1" "lcs_table ic ?s ?s (Suc 0) (Suc 0) = 1"
    "lcs_table ic ?s ?s 0 (Suc 0) = 0" "lcs_table ic ?s ?s (Suc 0) 0 = 0"
    by (simp_all add: table_len key_def eval_nat_numeral)
  have r: "row ?s 1 = [newline_char]" "row ?s 2 = []" "blank ?s 1" "\<not> blank ?s 2" by (simp_all add: row_def blank_def)
  let ?T = "lcs_at oob (lcs_table ic ?s ?s)" and ?n = "\<lambda>_. False"
  have 1: "trace_step ?T ?s ?s \<lparr>t_i = 2, t_j = 2, cmp1 = ?n, cmp2 = ?n, blank1 = 0, blank2 = 0\<rparr> =
    \<lparr>t_i = 1, t_j = 1, cmp1 = ?n(2 := True), cmp2 = ?n(2 := True), blank1 = 0, blank2 = 0\<rparr>"
    by (simp add: trace_step_def lcs_at_def t r)
  have 2: "trace_step ?T ?s ?s \<lparr>t_i = 1, t_j = 1, cmp1 = ?n(2 := True), cmp2 = ?n(2 := True), blank1 = 0, blank2 = 0\<rparr> =
    \<lparr>t_i = 0, t_j = 0, cmp1 = ?n(2 := True, 1 := False), cmp2 = ?n(2 := True, 1 := False), blank1 = 1, blank2 = 1\<rparr>"
    by (simp add: trace_step_def lcs_at_def t r blank_step_def fun_upd_twist)
  have "marks oob ic ?s ?s = Some \<lparr>t_i = 0, t_j = 0, cmp1 = ?n(2 := True, 1 := False), cmp2 = ?n(2 := True, 1 := False), blank1 = 1, blank2 = 1\<rparr>"
    using 1 2 traceback.simps [of ?T ?s ?s "\<lparr>t_i = 2, t_j = 2, cmp1 = ?n, cmp2 = ?n, blank1 = 0, blank2 = 0\<rparr>"]
      traceback.simps [of ?T ?s ?s "\<lparr>t_i = 1, t_j = 1, cmp1 = ?n(2 := True), cmp2 = ?n(2 := True), blank1 = 0, blank2 = 0\<rparr>"]
      traceback.simps [of ?T ?s ?s "\<lparr>t_i = 0, t_j = 0, cmp1 = ?n(2 := True, 1 := False), cmp2 = ?n(2 := True, 1 := False), blank1 = 1, blank2 = 1\<rparr>"]
    by (simp add: marks_def)
  then show ?thesis by simp
qed



end
