(* ===== verification/DupStructs.thy ===== *)
theory DupStructs
  imports Prelude "HOL-Library.Char_ord" "HOL-Library.List_Lexorder"
begin

text \<open>
  The linked structures of the duplicate finder (\<^verbatim>\<open>LinuxProgramming/P2_20192380/my_structs.c\<close>): the queue of
  directories, lists of files, and the list of sets of equal files. The heap has one map per node
  type from addresses to nodes; a null pointer is \<open>None\<close>. \<^verbatim>\<open>malloc\<close> hands out a fresh address and \<^verbatim>\<open>free\<close>
  removes the node, so that the outcome \<open>None\<close> of a function is an access through a null or dangling
  pointer, an overrun of a character array, or a loop that does not end. \<^verbatim>\<open>malloc\<close> never fails. Strings are
  without their terminators.
\<close>

section \<open>The heap\<close>

definition PATH_MAX :: nat where "PATH_MAX = 4096"
definition HASH_MAX :: nat where "HASH_MAX = 41"

record file_info =
  path :: string
  depth :: int
  mtime :: string
  atime :: string

record fl_node =
  fl_info :: "nat option"
  fl_next :: "nat option"

record fs_node =
  fs_list :: "nat option"
  fs_next :: "nat option"
  fs_hash :: string
  fs_size :: nat

record dq_node =
  dir_path :: string
  dq_depth :: int
  dq_next :: "nat option"

record dheap =
  infos :: "nat \<Rightarrow> file_info option"
  flist :: "nat \<Rightarrow> fl_node option"
  fset :: "nat \<Rightarrow> fs_node option"
  dirq :: "nat \<Rightarrow> dq_node option"
  fresh :: nat

definition empty_heap :: dheap where
  "empty_heap = \<lparr>infos = \<lambda>_. None, flist = \<lambda>_. None, fset = \<lambda>_. None, dirq = \<lambda>_. None, fresh = 0\<rparr>"

type_synonym 'a dm = "dheap \<Rightarrow> ('a \<times> dheap) option"

section \<open>Sizes as text\<close>

definition decimal_to_char :: "nat \<Rightarrow> char" where
  "decimal_to_char i = char_of (48 + i mod 10)"

fun get_byte_digit :: "nat \<Rightarrow> nat" where
  "get_byte_digit b = (if b = 0 then 0 else Suc (get_byte_digit (b div 10)))"

declare get_byte_digit.simps [simp del]

text \<open>
  \<^verbatim>\<open>get_byte_to_string\<close> fills the result from its end, with a comma after every third digit; \<open>k\<close>
  characters are left and \<open>cnt\<close> digits stand since the last comma. For 0 it writes ahead of the array.
\<close>

primrec byte_chars :: "nat \<Rightarrow> nat \<Rightarrow> nat \<Rightarrow> string" where
  "byte_chars 0 cnt b = []"
| "byte_chars (Suc k) cnt b = (if cnt = 3 then byte_chars k 0 b @ '',''
     else byte_chars k (cnt + 1) (b div 10) @ [decimal_to_char (b mod 10)])"

definition byte_string_length :: "nat \<Rightarrow> int" where
  "byte_string_length b = (let len = int (get_byte_digit b) in
     if len mod 3 \<noteq> 0 then len + len div 3 else len + (len div 3 - 1))"

definition get_byte_to_string :: "nat \<Rightarrow> string option" where
  "get_byte_to_string b = (let len = byte_string_length b in if len < 0 then None else Some (byte_chars (nat len) 0 b))"

section \<open>The directory queue\<close>

definition create_myDirQueue_node :: "string \<Rightarrow> int \<Rightarrow> nat dm" where
  "create_myDirQueue_node p d h = (if PATH_MAX \<le> length p then None else
     Some (fresh h, h\<lparr>dirq := (dirq h)(fresh h \<mapsto> \<lparr>dir_path = p, dq_depth = d, dq_next = None\<rparr>), fresh := fresh h + 1\<rparr>))"

text \<open>The loop to the last node of the queue.\<close>

partial_function (option) dq_last :: "nat \<Rightarrow> dheap \<Rightarrow> nat option" where
  "dq_last p h = (case dirq h p of None \<Rightarrow> None | Some n \<Rightarrow> (case dq_next n of None \<Rightarrow> Some p | Some q \<Rightarrow> dq_last q h))"

definition set_dq_next :: "nat \<Rightarrow> nat option \<Rightarrow> dheap \<Rightarrow> dheap option" where
  "set_dq_next a q h = (case dirq h a of None \<Rightarrow> None | Some n \<Rightarrow> Some (h\<lparr>dirq := (dirq h)(a \<mapsto> n\<lparr>dq_next := q\<rparr>)\<rparr>))"

definition enqueue_myDirQueue :: "nat option \<Rightarrow> nat \<Rightarrow> nat option dm" where
  "enqueue_myDirQueue head node h = (case head of None \<Rightarrow> Some (Some node, h)
     | Some p \<Rightarrow> (case dq_last p h of None \<Rightarrow> None | Some l \<Rightarrow>
         (case set_dq_next l (Some node) h of None \<Rightarrow> None | Some h \<Rightarrow>
         (case set_dq_next node None h of None \<Rightarrow> None | Some h \<Rightarrow> Some (head, h)))))"

definition pop_front_myDirQueue :: "nat option \<Rightarrow> (nat option \<times> string \<times> int) dm" where
  "pop_front_myDirQueue head h = (case head of None \<Rightarrow> None | Some p \<Rightarrow> (case dirq h p of None \<Rightarrow> None
     | Some n \<Rightarrow> Some ((dq_next n, dir_path n, dq_depth n), h\<lparr>dirq := (dirq h)(p := None)\<rparr>)))"

text \<open>The function is true when the queue is not empty.\<close>

definition is_myDirQueue_empty :: "nat option \<Rightarrow> bool" where
  "is_myDirQueue_empty head \<longleftrightarrow> head \<noteq> None"

text \<open>
  \<^verbatim>\<open>destroy_queue\<close> frees the first node and leaves its loop when there is another one; otherwise it goes
  on to read the successor of the null pointer.
\<close>

definition destroy_queue :: "nat option \<Rightarrow> dheap \<Rightarrow> dheap option" where
  "destroy_queue head h = (case head of None \<Rightarrow> None | Some p \<Rightarrow> (case dirq h p of None \<Rightarrow> None
     | Some n \<Rightarrow> if dq_next n \<noteq> None then Some (h\<lparr>dirq := (dirq h)(p := None)\<rparr>) else None))"

section \<open>Lists of files\<close>

text \<open>\<open>fmt\<close> is \<^verbatim>\<open>get_time\<close>, which formats a time in the local zone.\<close>

definition create_fileInfo :: "(int \<Rightarrow> string) \<Rightarrow> string \<Rightarrow> int \<Rightarrow> int \<Rightarrow> int \<Rightarrow> nat dm" where
  "create_fileInfo fmt p d m a h = (if PATH_MAX \<le> length p then None else
     Some (fresh h, h\<lparr>infos := (infos h)(fresh h \<mapsto> \<lparr>path = p, depth = d, mtime = fmt m, atime = fmt a\<rparr>), fresh := fresh h + 1\<rparr>))"

definition create_file_linked_node :: "nat \<Rightarrow> nat dm" where
  "create_file_linked_node i h =
     Some (fresh h, h\<lparr>flist := (flist h)(fresh h \<mapsto> \<lparr>fl_info = Some i, fl_next = None\<rparr>), fresh := fresh h + 1\<rparr>)"

definition info_of :: "dheap \<Rightarrow> nat \<Rightarrow> file_info option" where
  "info_of h p = (case flist h p of None \<Rightarrow> None | Some n \<Rightarrow> (case fl_info n of None \<Rightarrow> None | Some i \<Rightarrow> infos h i))"

definition set_fl_next :: "nat \<Rightarrow> nat option \<Rightarrow> dheap \<Rightarrow> dheap option" where
  "set_fl_next a q h = (case flist h a of None \<Rightarrow> None | Some n \<Rightarrow> Some (h\<lparr>flist := (flist h)(a \<mapsto> n\<lparr>fl_next := q\<rparr>)\<rparr>))"

definition file_less :: "file_info \<Rightarrow> file_info \<Rightarrow> bool" where
  "file_less x y \<longleftrightarrow> depth x < depth y \<or> depth x = depth y \<and> path x < path y"

text \<open>The three places where \<^verbatim>\<open>insert_myFileLinkedList\<close> links the node in ahead of \<open>p\<close>.\<close>

definition link_before :: "nat \<Rightarrow> nat option \<Rightarrow> nat \<Rightarrow> nat option \<Rightarrow> nat option dm" where
  "link_before node head p prev h = (case prev of
     None \<Rightarrow> (case set_fl_next node (Some p) h of None \<Rightarrow> None | Some h \<Rightarrow> Some (Some node, h))
   | Some b \<Rightarrow> (case set_fl_next b (Some node) h of None \<Rightarrow> None | Some h \<Rightarrow>
       (case set_fl_next node (Some p) h of None \<Rightarrow> None | Some h \<Rightarrow> Some (head, h))))"

partial_function (option) insert_list_loop :: "nat \<Rightarrow> nat option \<Rightarrow> nat option \<Rightarrow> nat option \<Rightarrow> dheap \<Rightarrow> (nat option \<times> dheap) option" where
  "insert_list_loop node head cur prev h = (case cur of
     None \<Rightarrow> (case prev of None \<Rightarrow> None | Some b \<Rightarrow>
       (case set_fl_next b (Some node) h of None \<Rightarrow> None | Some h \<Rightarrow> Some (head, h)))
   | Some p \<Rightarrow> (case flist h p of None \<Rightarrow> None | Some n \<Rightarrow> (case info_of h p of None \<Rightarrow> None | Some x \<Rightarrow>
       (case info_of h node of None \<Rightarrow> None | Some y \<Rightarrow>
         if file_less x y then insert_list_loop node head (fl_next n) (Some p) h else link_before node head p prev h))))"

definition insert_myFileLinkedList :: "nat option \<Rightarrow> nat \<Rightarrow> nat option dm" where
  "insert_myFileLinkedList head node h = (case head of None \<Rightarrow> Some (Some node, h) | Some p \<Rightarrow> insert_list_loop node head head None h)"

definition free_info :: "nat option \<Rightarrow> dheap \<Rightarrow> dheap option" where
  "free_info i h = (case i of None \<Rightarrow> Some h | Some a \<Rightarrow> if infos h a = None then None else Some (h\<lparr>infos := (infos h)(a := None)\<rparr>))"

definition free_myFileLinkedList :: "nat \<Rightarrow> dheap \<Rightarrow> dheap option" where
  "free_myFileLinkedList p h = (case flist h p of None \<Rightarrow> None | Some n \<Rightarrow>
     (case free_info (fl_info n) h of None \<Rightarrow> None | Some h \<Rightarrow> Some (h\<lparr>flist := (flist h)(p := None)\<rparr>)))"

section \<open>Sets of equal files\<close>

partial_function (option) free_list_loop :: "nat option \<Rightarrow> dheap \<Rightarrow> dheap option" where
  "free_list_loop p h = (case p of None \<Rightarrow> Some h | Some a \<Rightarrow> (case flist h a of None \<Rightarrow> None | Some n \<Rightarrow>
     (case free_myFileLinkedList a h of None \<Rightarrow> None | Some h \<Rightarrow> free_list_loop (fl_next n) h)))"

definition free_myFileListSet :: "nat \<Rightarrow> dheap \<Rightarrow> dheap option" where
  "free_myFileListSet p h = (case fset h p of None \<Rightarrow> None | Some n \<Rightarrow>
     (case free_list_loop (fs_list n) h of None \<Rightarrow> None | Some h \<Rightarrow> Some (h\<lparr>fset := (fset h)(p := None)\<rparr>)))"

definition create_list_linked_node :: "nat \<Rightarrow> nat \<Rightarrow> string \<Rightarrow> nat dm" where
  "create_list_linked_node node sz hs h = (if HASH_MAX \<le> length hs then None else
     Some (fresh h, h\<lparr>fset := (fset h)(fresh h \<mapsto> \<lparr>fs_list = Some node, fs_next = None, fs_hash = hs, fs_size = sz\<rparr>), fresh := fresh h + 1\<rparr>))"

definition set_fs_next :: "nat \<Rightarrow> nat option \<Rightarrow> dheap \<Rightarrow> dheap option" where
  "set_fs_next a q h = (case fset h a of None \<Rightarrow> None | Some n \<Rightarrow> Some (h\<lparr>fset := (fset h)(a \<mapsto> n\<lparr>fs_next := q\<rparr>)\<rparr>))"

definition link_set_before :: "nat \<Rightarrow> nat option \<Rightarrow> nat option \<Rightarrow> nat option \<Rightarrow> nat option dm" where
  "link_set_before a head cur prev h = (case prev of
     Some b \<Rightarrow> (case set_fs_next b (Some a) h of None \<Rightarrow> None | Some h \<Rightarrow>
       (case set_fs_next a cur h of None \<Rightarrow> None | Some h \<Rightarrow> Some (head, h)))
   | None \<Rightarrow> (case set_fs_next a cur h of None \<Rightarrow> None | Some h \<Rightarrow> Some (Some a, h)))"

partial_function (option) insert_set_loop :: "nat \<Rightarrow> nat \<Rightarrow> string \<Rightarrow> nat option \<Rightarrow> nat option \<Rightarrow> nat option \<Rightarrow> dheap \<Rightarrow> (nat option \<times> dheap) option" where
  "insert_set_loop node sz hs head cur prev h = (case cur of
     None \<Rightarrow> (case prev of None \<Rightarrow> None | Some b \<Rightarrow>
       (case create_list_linked_node node sz hs h of None \<Rightarrow> None | Some (a, h) \<Rightarrow>
       (case set_fs_next b (Some a) h of None \<Rightarrow> None | Some h \<Rightarrow> Some (head, h))))
   | Some p \<Rightarrow> (case fset h p of None \<Rightarrow> None | Some n \<Rightarrow>
       if fs_size n < sz then insert_set_loop node sz hs head (fs_next n) (Some p) h
       else if fs_size n = sz then
         (if fs_hash n = hs then (case insert_myFileLinkedList (fs_list n) node h of None \<Rightarrow> None
            | Some (l, h) \<Rightarrow> Some (head, h\<lparr>fset := (fset h)(p \<mapsto> n\<lparr>fs_list := l\<rparr>)\<rparr>))
          else insert_set_loop node sz hs head (fs_next n) (Some p) h)
       else (case create_list_linked_node node sz hs h of None \<Rightarrow> None | Some (a, h) \<Rightarrow> link_set_before a head cur prev h)))"

definition insert_myFileListLinkedList :: "nat option \<Rightarrow> nat \<Rightarrow> nat \<Rightarrow> string \<Rightarrow> nat option dm" where
  "insert_myFileListLinkedList head node sz hs h = (case head of
     None \<Rightarrow> (case create_list_linked_node node sz hs h of None \<Rightarrow> None | Some (a, h) \<Rightarrow> Some (Some a, h))
   | Some p \<Rightarrow> insert_set_loop node sz hs head head None h)"

text \<open>A set with one file or none; the null list is tested first.\<close>

definition only_one :: "nat option \<Rightarrow> dheap \<Rightarrow> bool option" where
  "only_one l h = (case l of None \<Rightarrow> Some True | Some a \<Rightarrow> (case flist h a of None \<Rightarrow> None | Some n \<Rightarrow> Some (fl_next n = None)))"

partial_function (option) remove_loop :: "nat option \<Rightarrow> nat option \<Rightarrow> nat option \<Rightarrow> dheap \<Rightarrow> (nat option \<times> dheap) option" where
  "remove_loop head cur prev h = (case cur of None \<Rightarrow> Some (head, h) | Some p \<Rightarrow>
     (case fset h p of None \<Rightarrow> None | Some n \<Rightarrow> (case only_one (fs_list n) h of None \<Rightarrow> None
      | Some one \<Rightarrow> if one then (case prev of
            None \<Rightarrow> (case free_myFileListSet p h of None \<Rightarrow> None | Some h \<Rightarrow> remove_loop (fs_next n) (fs_next n) None h)
          | Some b \<Rightarrow> (case set_fs_next b (fs_next n) h of None \<Rightarrow> None | Some h \<Rightarrow>
              (case free_myFileListSet p h of None \<Rightarrow> None | Some h \<Rightarrow>
              (case fset h b of None \<Rightarrow> None | Some m \<Rightarrow> remove_loop head (fs_next m) (Some b) h))))
        else remove_loop head (fs_next n) (Some p) h)))"

definition remove_only_one_node :: "nat option \<Rightarrow> nat option dm" where
  "remove_only_one_node head h = remove_loop head head None h"

end
