(* ===== verification/DupProps.thy ===== *)
theory DupProps
  imports DupStructs
begin

text \<open>
  The linked structures of the duplicate finder represent lists: a set of equal files is a pair of size
  and hash with the files in order of depth and path. Inserting a file and dropping the sets with one
  file are refinements of functions on these lists.
\<close>

section \<open>Lists on the heap\<close>

type_synonym file_node = "nat \<times> nat \<times> file_info"

text \<open>From \<open>p\<close> to \<open>q\<close> lie nodes with these addresses, the addresses of their file infos, and the infos.\<close>

primrec fl_seg :: "dheap \<Rightarrow> nat option \<Rightarrow> file_node list \<Rightarrow> nat option \<Rightarrow> bool" where
  "fl_seg h p [] q \<longleftrightarrow> p = q"
| "fl_seg h p (v # vs) q \<longleftrightarrow> p = Some (fst v) \<and> (\<exists>n. flist h (fst v) = Some n \<and> fl_info n = Some (fst (snd v)) \<and>
     infos h (fst (snd v)) = Some (snd (snd v)) \<and> fl_seg h (fl_next n) vs q)"

lemma fl_seg_append: "fl_seg h p (us @ vs) q \<longleftrightarrow> (\<exists>r. fl_seg h p us r \<and> fl_seg h r vs q)"
  by (induction us arbitrary: p) auto

lemma fl_seg_cong:
  "(\<And>v. v \<in> set vs \<Longrightarrow> flist h' (fst v) = flist h (fst v) \<and> infos h' (fst (snd v)) = infos h (fst (snd v))) \<Longrightarrow>
    fl_seg h' p vs q \<longleftrightarrow> fl_seg h p vs q"
  by (induction vs arbitrary: p) auto

lemma fl_seg_flist: "\<forall>b \<in> fst ` set vs. F b = G b \<Longrightarrow> fl_seg (h\<lparr>flist := F\<rparr>) p vs q \<longleftrightarrow> fl_seg (h\<lparr>flist := G\<rparr>) p vs q"
  by (rule fl_seg_cong) simp

lemma fl_seg_flist': "\<forall>b \<in> fst ` set vs. F b = flist h b \<Longrightarrow> fl_seg (h\<lparr>flist := F\<rparr>) p vs q \<longleftrightarrow> fl_seg h p vs q"
  by (rule fl_seg_cong) simp

lemma fl_seg_other: "a \<notin> fst ` set vs \<Longrightarrow> (\<And>b. b \<noteq> a \<Longrightarrow> F b = flist h b) \<Longrightarrow> fl_seg (h\<lparr>flist := F\<rparr>) p vs q \<longleftrightarrow> fl_seg h p vs q"
  by (rule fl_seg_flist') metis

lemma fl_seg_upd: "a \<notin> fst ` set vs \<Longrightarrow> fl_seg (h\<lparr>flist := F(a := x)\<rparr>) p vs q \<longleftrightarrow> fl_seg (h\<lparr>flist := F\<rparr>) p vs q"
  by (rule fl_seg_flist) (metis fun_upd_other)

lemma fl_seg_None [simp]: "fl_seg h None vs q \<longleftrightarrow> vs = [] \<and> q = None"
  by (cases vs) auto

lemma set_fl_next_last:
  assumes "fl_seg h p (us @ [u]) q" "distinct (map fst (us @ [u]))"
  shows "\<exists>h'. set_fl_next (fst u) r h = Some h' \<and> fl_seg h' p (us @ [u]) r \<and>
    (\<exists>F. h' = h\<lparr>flist := F\<rparr> \<and> (\<forall>b. b \<noteq> fst u \<longrightarrow> F b = flist h b))"
proof -
  obtain n where n: "fl_seg h p us (Some (fst u))" "flist h (fst u) = Some n" "fl_info n = Some (fst (snd u))" "infos h (fst (snd u)) = Some (snd (snd u))"
    using assms(1) by (auto simp: fl_seg_append)
  let ?h = "h\<lparr>flist := (flist h)(fst u \<mapsto> n\<lparr>fl_next := r\<rparr>)\<rparr>"
  have "fl_seg ?h p us (Some (fst u)) \<longleftrightarrow> fl_seg h p us (Some (fst u))"
    by (rule fl_seg_other [of "fst u"]) (use assms(2) in simp_all)
  then show ?thesis using n by (auto simp: set_fl_next_def fl_seg_append)
qed

section \<open>Sorted insertion\<close>

primrec insort_by :: "('a \<Rightarrow> 'a \<Rightarrow> bool) \<Rightarrow> 'a \<Rightarrow> 'a list \<Rightarrow> 'a list" where
  "insort_by lt x [] = [x]"
| "insort_by lt x (y # ys) = (if lt y x then y # insort_by lt x ys else x # y # ys)"

definition node_less :: "file_node \<Rightarrow> file_node \<Rightarrow> bool" where
  "node_less u v \<longleftrightarrow> file_less (snd (snd u)) (snd (snd v))"

lemma map_insort: "map (snd \<circ> snd) (insort_by node_less v vs) = insort_by file_less (snd (snd v)) (map (snd \<circ> snd) vs)"
  by (induction vs) (auto simp: node_less_def)

lemma set_insort [simp]: "set (insort_by lt x xs) = insert x (set xs)"
  by (induction xs) auto

lemma distinct_insort: "distinct (map f (insort_by lt x xs)) \<longleftrightarrow> distinct (map f xs) \<and> f x \<notin> f ` set xs"
  by (induction xs) auto

text \<open>A node that is not linked in yet.\<close>

definition loose :: "dheap \<Rightarrow> file_node \<Rightarrow> bool" where
  "loose h v \<longleftrightarrow> flist h (fst v) = Some \<lparr>fl_info = Some (fst (snd v)), fl_next = None\<rparr> \<and> infos h (fst (snd v)) = Some (snd (snd v))"

lemma loose_info: "loose h v \<Longrightarrow> info_of h (fst v) = Some (snd (snd v))"
  by (simp add: loose_def info_of_def)

lemma link_before_ok:
  assumes "fl_seg h head us (Some p)" "fl_seg h (Some p) vs None" "loose h v" "distinct (map fst (v # us @ vs))"
    "prev = (if us = [] then None else Some (fst (last us)))" "vs \<noteq> []" "us = [] \<longrightarrow> head = Some p"
  shows "\<exists>p' F. link_before (fst v) head p prev h = Some (p', h\<lparr>flist := F\<rparr>) \<and> fl_seg (h\<lparr>flist := F\<rparr>) p' (us @ v # vs) None \<and>
    (\<forall>b. b \<notin> fst ` set (v # us @ vs) \<longrightarrow> F b = flist h b)"
proof (cases us rule: rev_cases)
  case Nil
  let ?h = "h\<lparr>flist := (flist h)(fst v \<mapsto> \<lparr>fl_info = Some (fst (snd v)), fl_next = Some p\<rparr>)\<rparr>"
  have "fl_seg ?h (Some p) vs None \<longleftrightarrow> fl_seg h (Some p) vs None" by (rule fl_seg_other [of "fst v"]) (use assms(4) in simp_all)
  then show ?thesis using Nil assms by (auto simp: link_before_def set_fl_next_def loose_def)
next
  case (snoc ws w)
  obtain F where F: "set_fl_next (fst w) (Some (fst v)) h = Some (h\<lparr>flist := F\<rparr>)" "fl_seg (h\<lparr>flist := F\<rparr>) head us (Some (fst v))"
    "\<forall>b. b \<noteq> fst w \<longrightarrow> F b = flist h b"
    using set_fl_next_last [of h head ws w "Some p" "Some (fst v)"] assms(1,4) snoc by auto
  let ?h = "h\<lparr>flist := F(fst v \<mapsto> \<lparr>fl_info = Some (fst (snd v)), fl_next = Some p\<rparr>)\<rparr>"
  have "fst v \<noteq> fst w" using assms(4) snoc by auto
  then have "F (fst v) = Some \<lparr>fl_info = Some (fst (snd v)), fl_next = None\<rparr>" using F(3) assms(3) by (simp add: loose_def)
  then have s: "set_fl_next (fst v) (Some p) (h\<lparr>flist := F\<rparr>) = Some ?h" by (simp add: set_fl_next_def)
  have "fl_seg ?h head us (Some (fst v)) \<longleftrightarrow> fl_seg (h\<lparr>flist := F\<rparr>) head us (Some (fst v))"
    by (rule fl_seg_upd) (use assms(4) in simp)
  moreover have "fl_seg ?h (Some p) vs None \<longleftrightarrow> fl_seg h (Some p) vs None"
  proof -
    have d: "fst w \<notin> fst ` set vs" "fst v \<notin> fst ` set vs" using assms(4) unfolding snoc by auto
    have "fl_seg ?h (Some p) vs None \<longleftrightarrow> fl_seg (h\<lparr>flist := F\<rparr>) (Some p) vs None"
      by (rule fl_seg_upd [OF d(2)])
    also have "\<dots> \<longleftrightarrow> fl_seg h (Some p) vs None" using F(3) by (intro fl_seg_other [OF d(1)]) blast
    finally show ?thesis .
  qed
  ultimately have "fl_seg ?h head (us @ v # vs) None" using F(2) assms(2,3) by (auto simp: fl_seg_append loose_def)
  moreover have "link_before (fst v) head p prev h = Some (head, ?h)" using assms(5) snoc F(1) s by (simp add: link_before_def)
  ultimately show ?thesis using F(3) snoc
    by (intro exI [of _ head] exI [of _ "F(fst v \<mapsto> \<lparr>fl_info = Some (fst (snd v)), fl_next = Some p\<rparr>)"]) auto
qed

lemma insert_list_loop_ok:
  "fl_seg h head us cur \<Longrightarrow> fl_seg h cur vs None \<Longrightarrow> loose h v \<Longrightarrow> distinct (map fst (v # us @ vs)) \<Longrightarrow>
    prev = (if us = [] then None else Some (fst (last us))) \<Longrightarrow> us @ vs \<noteq> [] \<Longrightarrow>
    \<exists>p' F. insert_list_loop (fst v) head cur prev h = Some (p', h\<lparr>flist := F\<rparr>) \<and>
      fl_seg (h\<lparr>flist := F\<rparr>) p' (us @ insort_by node_less v vs) None \<and> (\<forall>b. b \<notin> fst ` set (v # us @ vs) \<longrightarrow> F b = flist h b)"
proof (induction vs arbitrary: us cur prev)
  case Nil
  then obtain ws w where w: "us = ws @ [w]" by (cases us rule: rev_cases) auto
  obtain F where F: "set_fl_next (fst w) (Some (fst v)) h = Some (h\<lparr>flist := F\<rparr>)" "fl_seg (h\<lparr>flist := F\<rparr>) head us (Some (fst v))"
    "\<forall>b. b \<noteq> fst w \<longrightarrow> F b = flist h b"
    using set_fl_next_last [of h head ws w None "Some (fst v)"] Nil.prems w by auto
  have "fst v \<noteq> fst w" using Nil.prems(4) w by auto
  then have "fl_seg (h\<lparr>flist := F\<rparr>) head (us @ [v]) None" using F(2,3) Nil.prems(3) by (auto simp: fl_seg_append loose_def)
  then show ?case using Nil.prems F(1,3) w by (subst insert_list_loop.simps) auto
next
  case (Cons y ys)
  obtain n where n: "cur = Some (fst y)" "flist h (fst y) = Some n" "fl_seg h (fl_next n) ys None" "info_of h (fst y) = Some (snd (snd y))"
    using Cons.prems(2) by (auto simp: info_of_def)
  show ?case
  proof (cases "node_less y v")
    case True
    have "fl_seg h head (us @ [y]) (fl_next n)" using Cons.prems(1,2) n by (auto simp: fl_seg_append)
    then have "\<exists>p' F. insert_list_loop (fst v) head (fl_next n) (Some (fst y)) h = Some (p', h\<lparr>flist := F\<rparr>) \<and>
      fl_seg (h\<lparr>flist := F\<rparr>) p' ((us @ [y]) @ insort_by node_less v ys) None \<and> (\<forall>b. b \<notin> fst ` set (v # (us @ [y]) @ ys) \<longrightarrow> F b = flist h b)"
      using Cons.prems n by (intro Cons.IH) auto
    then show ?thesis using True n loose_info [OF Cons.prems(3)] by (subst insert_list_loop.simps) (auto simp: node_less_def)
  next
    case False
    have "us = [] \<longrightarrow> head = Some (fst y)" using Cons.prems(1) n by auto
    then show ?thesis using False n loose_info [OF Cons.prems(3)] link_before_ok [of h head us "fst y" "y # ys" v prev] Cons.prems
      by (subst insert_list_loop.simps) (auto simp: node_less_def)
  qed
qed

lemma insert_list_ok:
  assumes "fl_seg h head vs None" "loose h v" "distinct (map fst (v # vs))"
  shows "\<exists>p' F. insert_myFileLinkedList head (fst v) h = Some (p', h\<lparr>flist := F\<rparr>) \<and>
    fl_seg (h\<lparr>flist := F\<rparr>) p' (insort_by node_less v vs) None \<and> (\<forall>b. b \<notin> fst ` set (v # vs) \<longrightarrow> F b = flist h b)"
proof (cases head)
  case None
  have "h\<lparr>flist := flist h\<rparr> = h" by simp
  then show ?thesis using None assms by (auto simp: insert_myFileLinkedList_def loose_def intro!: exI [of _ "flist h"])
next
  case (Some p)
  then have "vs \<noteq> []" using assms(1) by auto
  then show ?thesis using Some insert_list_loop_ok [of h head "[]" head vs v None] assms by (simp add: insert_myFileLinkedList_def)
qed

section \<open>Sets on the heap\<close>

type_synonym group_node = "nat \<times> nat \<times> string \<times> file_node list"

definition g_size :: "group_node \<Rightarrow> nat" where "g_size g = fst (snd g)"
definition g_hash :: "group_node \<Rightarrow> string" where "g_hash g = fst (snd (snd g))"
definition g_files :: "group_node \<Rightarrow> file_node list" where "g_files g = snd (snd (snd g))"

lemma g_sel [simp]: "g_size (a, sz, hs, fs) = sz" "g_hash (a, sz, hs, fs) = hs" "g_files (a, sz, hs, fs) = fs"
  by (simp_all add: g_size_def g_hash_def g_files_def)

primrec fs_seg :: "dheap \<Rightarrow> nat option \<Rightarrow> group_node list \<Rightarrow> nat option \<Rightarrow> bool" where
  "fs_seg h p [] q \<longleftrightarrow> p = q"
| "fs_seg h p (g # gs) q \<longleftrightarrow> p = Some (fst g) \<and> (\<exists>n. fset h (fst g) = Some n \<and> fs_size n = g_size g \<and> fs_hash n = g_hash g \<and>
     fl_seg h (fs_list n) (g_files g) None \<and> fs_seg h (fs_next n) gs q)"

definition file_addrs :: "group_node list \<Rightarrow> nat set" where
  "file_addrs gs = (\<Union>g \<in> set gs. fst ` set (g_files g))"

definition info_addrs :: "group_node list \<Rightarrow> nat set" where
  "info_addrs gs = (\<Union>g \<in> set gs. (fst \<circ> snd) ` set (g_files g))"

lemma addrs_simps [simp]: "file_addrs [] = {}" "file_addrs (g # gs) = fst ` set (g_files g) \<union> file_addrs gs"
    "file_addrs (gs @ hs) = file_addrs gs \<union> file_addrs hs" "info_addrs [] = {}"
    "info_addrs (g # gs) = (fst \<circ> snd) ` set (g_files g) \<union> info_addrs gs" "info_addrs (gs @ hs) = info_addrs gs \<union> info_addrs hs"
  by (simp_all add: file_addrs_def info_addrs_def)

lemma fs_seg_append: "fs_seg h p (us @ gs) q \<longleftrightarrow> (\<exists>r. fs_seg h p us r \<and> fs_seg h r gs q)"
  by (induction us arbitrary: p) auto

lemma fs_seg_None [simp]: "fs_seg h None gs q \<longleftrightarrow> gs = [] \<and> q = None"
  by (cases gs) auto

lemma fs_seg_cong:
  assumes "\<And>a. a \<in> fst ` set gs \<Longrightarrow> fset h' a = fset h a" "\<And>a. a \<in> file_addrs gs \<Longrightarrow> flist h' a = flist h a"
    "\<And>a. a \<in> info_addrs gs \<Longrightarrow> infos h' a = infos h a"
  shows "fs_seg h' p gs q \<longleftrightarrow> fs_seg h p gs q"
  using assms
proof (induction gs arbitrary: p)
  case (Cons g gs)
  have "fl_seg h' l (g_files g) None \<longleftrightarrow> fl_seg h l (g_files g) None" for l
    by (rule fl_seg_cong) (use Cons.prems(2,3) in auto)
  moreover have "fs_seg h' l gs q \<longleftrightarrow> fs_seg h l gs q" for l using Cons.prems by (intro Cons.IH) auto
  moreover have "fset h' (fst g) = fset h (fst g)" using Cons.prems(1) by simp
  ultimately show ?case by simp
qed simp

lemma fs_seg_upd: "a \<notin> fst ` set gs \<Longrightarrow> fs_seg (h\<lparr>fset := (fset h)(a := x)\<rparr>) p gs q \<longleftrightarrow> fs_seg h p gs q"
  by (rule fs_seg_cong) (metis dheap.ext_inject dheap.surjective dheap.update_convs(3) fun_upd_other, simp_all)

lemma fs_seg_other: "a \<notin> fst ` set gs \<Longrightarrow> (\<And>b. b \<noteq> a \<Longrightarrow> G b = fset h b) \<Longrightarrow> fs_seg (h\<lparr>fset := G\<rparr>) p gs q \<longleftrightarrow> fs_seg h p gs q"
  by (rule fs_seg_cong) (metis dheap.ext_inject dheap.surjective dheap.update_convs(3), simp_all)

lemma set_fs_next_last:
  assumes "fs_seg h p (us @ [u]) q" "distinct (map fst (us @ [u]))"
  shows "\<exists>G. set_fs_next (fst u) r h = Some (h\<lparr>fset := G\<rparr>) \<and> fs_seg (h\<lparr>fset := G\<rparr>) p (us @ [u]) r \<and> (\<forall>b. b \<noteq> fst u \<longrightarrow> G b = fset h b)"
proof -
  obtain n where n: "fs_seg h p us (Some (fst u))" "fset h (fst u) = Some n" "fs_size n = g_size u" "fs_hash n = g_hash u"
    "fl_seg h (fs_list n) (g_files u) None"
    using assms(1) by (auto simp: fs_seg_append)
  let ?G = "(fset h)(fst u \<mapsto> n\<lparr>fs_next := r\<rparr>)"
  have "fs_seg (h\<lparr>fset := ?G\<rparr>) p us (Some (fst u)) \<longleftrightarrow> fs_seg h p us (Some (fst u))"
    by (rule fs_seg_upd) (use assms(2) in simp)
  moreover have "fl_seg (h\<lparr>fset := ?G\<rparr>) (fs_list n) (g_files u) None" using n(5) fl_seg_cong [of "g_files u" "h\<lparr>fset := ?G\<rparr>" h] by simp
  ultimately show ?thesis using n by (intro exI [of _ ?G]) (simp add: set_fs_next_def fs_seg_append)
qed

text \<open>Where a file goes, with the address \<open>a\<close> of a new set when one is needed.\<close>

primrec place :: "nat \<Rightarrow> file_node \<Rightarrow> nat \<Rightarrow> string \<Rightarrow> group_node list \<Rightarrow> group_node list" where
  "place a v sz hs [] = [(a, sz, hs, [v])]"
| "place a v sz hs (g # gs) = (if g_size g < sz then g # place a v sz hs gs
     else if g_size g = sz then
       (if g_hash g = hs then (fst g, sz, hs, insort_by node_less v (g_files g)) # gs else g # place a v sz hs gs)
     else (a, sz, hs, [v]) # g # gs)"

definition separate :: "group_node list \<Rightarrow> bool" where
  "separate gs \<longleftrightarrow> distinct (map fst gs) \<and> distinct (concat (map (map fst \<circ> g_files) gs)) \<and> distinct (concat (map (map (fst \<circ> snd) \<circ> g_files) gs))"


text \<open>What an insertion leaves alone.\<close>

definition inserted :: "dheap \<Rightarrow> file_node \<Rightarrow> group_node list \<Rightarrow> group_node list \<Rightarrow> dheap \<Rightarrow> bool" where
  "inserted h v gs gs' h' \<longleftrightarrow> (\<forall>g \<in> set gs'. fst g < fresh h') \<and> infos h' = infos h \<and> dirq h' = dirq h \<and> fresh h \<le> fresh h' \<and> fresh h' \<le> fresh h + 1 \<and>
     (\<forall>b. b \<notin> insert (fst v) (file_addrs gs) \<longrightarrow> flist h' b = flist h b) \<and> (\<forall>b. b \<notin> insert (fresh h) (fst ` set gs) \<longrightarrow> fset h' b = fset h b)"

definition fits_in :: "dheap \<Rightarrow> file_node \<Rightarrow> group_node list \<Rightarrow> bool" where
  "fits_in h v gs \<longleftrightarrow> loose h v \<and> distinct (map fst gs) \<and> distinct (concat (map (map fst \<circ> g_files) gs)) \<and>
     fst v \<notin> file_addrs gs \<and> (\<forall>g \<in> set gs. fst g < fresh h)"

lemma file_addrs_concat: "file_addrs gs = set (concat (map (map fst \<circ> g_files) gs))"
  by (auto simp: file_addrs_def)

lemma fits_inD:
  assumes "fits_in h v (us @ g # gs)"
  shows "loose h v" "fst g \<notin> fst ` set us" "fst g \<notin> fst ` set gs" "distinct (map fst (v # g_files g))"
    "file_addrs us \<inter> (insert (fst v) (fst ` set (g_files g))) = {}" "file_addrs gs \<inter> (insert (fst v) (fst ` set (g_files g))) = {}"
  using assms unfolding fits_in_def file_addrs_concat by (simp_all add: Int_insert_right Int_Un_distrib Int_Un_distrib2 Int_commute split: if_splits)

lemma fits_in_Suc: "fits_in h v gs \<Longrightarrow> \<forall>g \<in> set gs. fst g < Suc (fresh h)"
  unfolding fits_in_def by (metis less_SucI)

lemma fits_in_fresh: "fits_in h v gs \<Longrightarrow> fresh h \<notin> fst ` set gs"
  by (metis fits_in_def imageE less_irrefl)

text \<open>The set of the same key is there: the file goes into its list.\<close>

lemma into_set:
  assumes "fs_seg h head us (Some (fst g))" "fs_seg h (Some (fst g)) (g # gs) None" "fits_in h v (us @ g # gs)" "fset h (fst g) = Some n"
  shows "\<exists>l h1 h'. insert_myFileLinkedList (fs_list n) (fst v) h = Some (l, h1) \<and> h' = h1\<lparr>fset := (fset h1)(fst g \<mapsto> n\<lparr>fs_list := l\<rparr>)\<rparr> \<and>
    fs_seg h' head (us @ (fst g, g_size g, g_hash g, insort_by node_less v (g_files g)) # gs) None \<and>
    inserted h v (us @ g # gs) (us @ (fst g, g_size g, g_hash g, insort_by node_less v (g_files g)) # gs) h'"
proof -
  note d = fits_inD [OF assms(3)]
  have n: "fs_size n = g_size g" "fs_hash n = g_hash g" "fl_seg h (fs_list n) (g_files g) None" "fs_seg h (fs_next n) gs None"
    using assms(2,4) by auto
  obtain l F where F: "insert_myFileLinkedList (fs_list n) (fst v) h = Some (l, h\<lparr>flist := F\<rparr>)"
    "fl_seg (h\<lparr>flist := F\<rparr>) l (insort_by node_less v (g_files g)) None" "\<forall>b. b \<notin> fst ` set (v # g_files g) \<longrightarrow> F b = flist h b"
    using insert_list_ok [OF n(3) d(1,4)] by blast
  let ?h = "h\<lparr>flist := F, fset := (fset h)(fst g \<mapsto> n\<lparr>fs_list := l\<rparr>)\<rparr>"
  have other: "fs_seg ?h p ks q \<longleftrightarrow> fs_seg h p ks q" if "fst g \<notin> fst ` set ks" "file_addrs ks \<inter> insert (fst v) (fst ` set (g_files g)) = {}" for p ks q
  proof (rule fs_seg_cong)
    show "fset ?h a = fset h a" if "a \<in> fst ` set ks" for a using that \<open>fst g \<notin> fst ` set ks\<close> by (cases "a = fst g") simp_all
    show "flist ?h a = flist h a" if a: "a \<in> file_addrs ks" for a
    proof -
      have "a \<notin> insert (fst v) (fst ` set (g_files g))" using a \<open>file_addrs ks \<inter> _ = {}\<close> by blast
      then show ?thesis using F(3) by simp
    qed
  qed simp
  have "fl_seg ?h l (insort_by node_less v (g_files g)) None" using F(2) fl_seg_cong [of _ ?h "h\<lparr>flist := F\<rparr>"] by simp
  then have "fs_seg ?h head (us @ (fst g, g_size g, g_hash g, insort_by node_less v (g_files g)) # gs) None"
    using other [OF d(2,5)] other [OF d(3,6)] assms(1) n by (simp add: fs_seg_append)
  moreover have "\<forall>k \<in> set (us @ g # gs). fst k < fresh h" using assms(3) by (simp add: fits_in_def)
  ultimately show ?thesis using F(1,3) by (auto simp: inserted_def)
qed

text \<open>A new set goes between the sets \<open>us\<close> and the sets \<open>gs\<close>.\<close>

lemma new_set:
  assumes "loose h v" "fresh h \<notin> fst ` set gs" "length hs < HASH_MAX"
  shows "\<exists>h1. create_list_linked_node (fst v) sz hs h = Some (fresh h, h1) \<and>
     (\<forall>p q. fs_seg h1 p gs q \<longleftrightarrow> fs_seg h p gs q) \<and> fs_seg h1 (Some (fresh h)) [(fresh h, sz, hs, [v])] None \<and>
     infos h1 = infos h \<and> dirq h1 = dirq h \<and> flist h1 = flist h \<and> fresh h1 = Suc (fresh h) \<and> (\<forall>b. b \<noteq> fresh h \<longrightarrow> fset h1 b = fset h b)"
proof -
  let ?h = "h\<lparr>fset := (fset h)(fresh h \<mapsto> \<lparr>fs_list = Some (fst v), fs_next = None, fs_hash = hs, fs_size = sz\<rparr>), fresh := Suc (fresh h)\<rparr>"
  have "fs_seg ?h p gs q \<longleftrightarrow> fs_seg h p gs q" for p q
  proof (rule fs_seg_cong)
    show "fset ?h a = fset h a" if "a \<in> fst ` set gs" for a using that assms(2) by (cases "a = fresh h") simp_all
  qed simp_all
  moreover have "create_list_linked_node (fst v) sz hs h = Some (fresh h, ?h)" using assms(3) by (simp add: create_list_linked_node_def)
  ultimately show ?thesis using assms(1) by (intro exI [of _ ?h]) (simp add: loose_def)
qed

text \<open>A new set ahead of the set at \<open>cur\<close>, linked in as the two branches of the code do.\<close>

lemma before_set:
  assumes "fs_seg h head us (Some p)" "fs_seg h (Some p) gs None" "fits_in h v (us @ gs)" "length hs < HASH_MAX" "us = [] \<longrightarrow> head = Some p"
    "prev = (if us = [] then None else Some (fst (last us)))"
  shows "\<exists>h1 p' h'. create_list_linked_node (fst v) sz hs h = Some (fresh h, h1) \<and>
    link_set_before (fresh h) head (Some p) prev h1 = Some (p', h') \<and>
    fs_seg h' p' (us @ (fresh h, sz, hs, [v]) # gs) None \<and> inserted h v (us @ gs) (us @ (fresh h, sz, hs, [v]) # gs) h'"
proof -
  let ?a = "fresh h" and ?g = "(fresh h, sz, hs, [v])"
  have fr: "?a \<notin> fst ` set us" "?a \<notin> fst ` set gs" using fits_in_fresh [OF assms(3)] by auto
  obtain h1 where h1: "create_list_linked_node (fst v) sz hs h = Some (?a, h1)" "\<And>p q. fs_seg h1 p (us @ gs) q \<longleftrightarrow> fs_seg h p (us @ gs) q"
    "fs_seg h1 (Some ?a) [?g] None" "infos h1 = infos h" "dirq h1 = dirq h" "flist h1 = flist h" "fresh h1 = Suc ?a" "\<forall>b. b \<noteq> ?a \<longrightarrow> fset h1 b = fset h b"
    using new_set [of h v "us @ gs" hs sz] assms(3,4) fits_in_fresh [OF assms(3)] by (auto simp: fits_in_def)
  have keep1: "fs_seg h1 p ks q \<longleftrightarrow> fs_seg h p ks q" if "?a \<notin> fst ` set ks" for p ks q
    by (rule fs_seg_cong) (use that h1(4,6,8) in \<open>metis | simp\<close>)+
  show ?thesis
  proof (cases us rule: rev_cases)
    case Nil
    obtain G where G: "set_fs_next ?a (Some p) h1 = Some (h1\<lparr>fset := G\<rparr>)" "fs_seg (h1\<lparr>fset := G\<rparr>) (Some ?a) [?g] (Some p)"
      "\<forall>b. b \<noteq> ?a \<longrightarrow> G b = fset h1 b"
      using set_fs_next_last [of h1 "Some ?a" "[]" ?g None "Some p"] h1(3) by auto
    have "fs_seg (h1\<lparr>fset := G\<rparr>) (Some p) gs None" using fs_seg_other [OF fr(2), of G h1] G(3) keep1 [OF fr(2)] assms(2) by simp
    then have "fs_seg (h1\<lparr>fset := G\<rparr>) (Some ?a) ([?g] @ gs) None" using G(2) by (simp only: fs_seg_append) blast
    moreover have "inserted h v gs (?g # gs) (h1\<lparr>fset := G\<rparr>)" using h1(4-8) G(3) Nil fits_in_Suc [OF assms(3)] by (simp add: inserted_def)
    ultimately show ?thesis using Nil h1(1) G(1) assms(6) by (simp add: link_set_before_def)
  next
    case (snoc ws w)
    have dw: "distinct (map fst (ws @ [w]))" "fst w \<notin> fst ` set gs" using assms(3) snoc by (auto simp: fits_in_def)
    obtain G where G: "set_fs_next (fst w) (Some ?a) h1 = Some (h1\<lparr>fset := G\<rparr>)" "fs_seg (h1\<lparr>fset := G\<rparr>) head us (Some ?a)"
      "\<forall>b. b \<noteq> fst w \<longrightarrow> G b = fset h1 b"
      using set_fs_next_last [of h1 head ws w "Some p" "Some ?a"] dw(1) keep1 [OF fr(1)] assms(1) snoc by auto
    have "fst w \<noteq> ?a" using fr snoc by auto
    then have "fs_seg (h1\<lparr>fset := G\<rparr>) (Some ?a) [?g] None" using fs_seg_other [of "fst w" "[?g]" G h1] G(3) h1(3) by simp
    then obtain K where K: "set_fs_next ?a (Some p) (h1\<lparr>fset := G\<rparr>) = Some (h1\<lparr>fset := K\<rparr>)" "fs_seg (h1\<lparr>fset := K\<rparr>) (Some ?a) [?g] (Some p)"
      "\<forall>b. b \<noteq> ?a \<longrightarrow> K b = G b"
      using set_fs_next_last [of "h1\<lparr>fset := G\<rparr>" "Some ?a" "[]" ?g None "Some p"] by auto
    have "fs_seg (h1\<lparr>fset := K\<rparr>) head us (Some ?a)" using fs_seg_other [OF fr(1), of K "h1\<lparr>fset := G\<rparr>"] K(3) G(2) by simp
    moreover have "fs_seg (h1\<lparr>fset := K\<rparr>) (Some p) gs None"
      using fs_seg_other [OF fr(2), of K "h1\<lparr>fset := G\<rparr>"] fs_seg_other [OF dw(2), of G h1] keep1 [OF fr(2)] K(3) G(3) assms(2) by simp
    ultimately have "fs_seg (h1\<lparr>fset := K\<rparr>) head (us @ [?g] @ gs) None" using K(2) by (simp only: fs_seg_append) blast
    moreover have "inserted h v (us @ gs) (us @ ?g # gs) (h1\<lparr>fset := K\<rparr>)" using h1(4-8) G(3) K(3) snoc fits_in_Suc [OF assms(3)] by (simp add: inserted_def ball_Un)
    ultimately show ?thesis using snoc h1(1) G(1) K(1) assms(6) by (simp add: link_set_before_def)
  qed
qed

lemma insert_set_loop_ok:
  "fs_seg h head us cur \<Longrightarrow> fs_seg h cur gs None \<Longrightarrow> fits_in h v (us @ gs) \<Longrightarrow> length hs < HASH_MAX \<Longrightarrow>
    prev = (if us = [] then None else Some (fst (last us))) \<Longrightarrow> us @ gs \<noteq> [] \<Longrightarrow>
    \<exists>p' h'. insert_set_loop (fst v) sz hs head cur prev h = Some (p', h') \<and>
      fs_seg h' p' (us @ place (fresh h) v sz hs gs) None \<and> inserted h v (us @ gs) (us @ place (fresh h) v sz hs gs) h'"
proof (induction gs arbitrary: us cur prev)
  case Nil
  then obtain ws w where w: "us = ws @ [w]" by (cases us rule: rev_cases) auto
  obtain h1 where h1: "create_list_linked_node (fst v) sz hs h = Some (fresh h, h1)"
    "fs_seg h1 head us None" "fs_seg h1 (Some (fresh h)) [(fresh h, sz, hs, [v])] None"
    "infos h1 = infos h" "dirq h1 = dirq h" "flist h1 = flist h" "fresh h1 = Suc (fresh h)" "\<forall>b. b \<noteq> fresh h \<longrightarrow> fset h1 b = fset h b"
    using new_set [of h v us hs sz] Nil.prems fits_in_fresh [of h v us] by (auto simp: fits_in_def)
  have dw: "distinct (map fst (ws @ [w]))" using Nil.prems(3) w by (simp add: fits_in_def)
  obtain G where G: "set_fs_next (fst w) (Some (fresh h)) h1 = Some (h1\<lparr>fset := G\<rparr>)"
    "fs_seg (h1\<lparr>fset := G\<rparr>) head us (Some (fresh h))" "\<forall>b. b \<noteq> fst w \<longrightarrow> G b = fset h1 b"
    using set_fs_next_last [of h1 head ws w None "Some (fresh h)"] h1(2) dw w by auto
  have "fresh h \<noteq> fst w" using fits_in_fresh Nil.prems(3) w by fastforce
  then have "fs_seg (h1\<lparr>fset := G\<rparr>) (Some (fresh h)) [(fresh h, sz, hs, [v])] None"
    using h1(3) G(3) fs_seg_cong [of "[(fresh h, sz, hs, [v])]" "h1\<lparr>fset := G\<rparr>" h1] by simp
  then have "fs_seg (h1\<lparr>fset := G\<rparr>) head (us @ [(fresh h, sz, hs, [v])]) None" using G(2) by (simp only: fs_seg_append) blast
  moreover have "inserted h v us (us @ [(fresh h, sz, hs, [v])]) (h1\<lparr>fset := G\<rparr>)" using h1(4-8) G(3) w fits_in_Suc [OF Nil.prems(3)] by (simp add: inserted_def)
  ultimately show ?case using Nil.prems(1,2,5) w h1(1) G(1) by (subst insert_set_loop.simps) simp
next
  case (Cons g gs)
  obtain n where n: "cur = Some (fst g)" "fset h (fst g) = Some n" "fs_size n = g_size g" "fs_hash n = g_hash g" "fs_seg h (fs_next n) gs None"
    using Cons.prems(2) by auto
  have skip: "\<exists>p' h'. insert_set_loop (fst v) sz hs head (fs_next n) (Some (fst g)) h = Some (p', h') \<and>
      fs_seg h' p' ((us @ [g]) @ place (fresh h) v sz hs gs) None \<and> inserted h v ((us @ [g]) @ gs) ((us @ [g]) @ place (fresh h) v sz hs gs) h'"
    using Cons.prems n by (intro Cons.IH) (auto simp: fs_seg_append)
  consider (skip) "g_size g < sz \<or> g_size g = sz \<and> g_hash g \<noteq> hs" | (into) "g_size g = sz" "g_hash g = hs" | (new) "sz < g_size g" by linarith
  then show ?case
  proof cases
    case skip
    then show ?thesis using \<open>\<exists>p' h'. _\<close> n by (subst insert_set_loop.simps) auto
  next
    case into
    then show ?thesis using into_set [of h head us g gs v n] Cons.prems(1-3) n by (subst insert_set_loop.simps) auto
  next
    case new
    have "us = [] \<longrightarrow> head = Some (fst g)" using Cons.prems(1) n(1) by auto
    then show ?thesis using before_set [of h head us "fst g" "g # gs" v hs prev sz] Cons.prems n new
      by (subst insert_set_loop.simps) auto
  qed
qed

lemma insert_set_ok:
  assumes "fs_seg h head gs None" "fits_in h v gs" "length hs < HASH_MAX"
  shows "\<exists>p' h'. insert_myFileListLinkedList head (fst v) sz hs h = Some (p', h') \<and>
      fs_seg h' p' (place (fresh h) v sz hs gs) None \<and> inserted h v gs (place (fresh h) v sz hs gs) h'"
proof (cases head)
  case None
  then have "gs = []" using assms(1) by simp
  then show ?thesis using None new_set [of h v "[]" hs sz] assms(2,3)
    by (auto simp: insert_myFileListLinkedList_def inserted_def fits_in_def)
next
  case (Some p)
  then have "gs \<noteq> []" using assms(1) by auto
  then show ?thesis using Some insert_set_loop_ok [of h head "[]" head gs v hs None sz] assms
    by (simp add: insert_myFileListLinkedList_def)
qed

section \<open>Dropping single files\<close>

lemma free_list_ok:
  "fl_seg h p vs None \<Longrightarrow> distinct (map fst vs) \<Longrightarrow> distinct (map (fst \<circ> snd) vs) \<Longrightarrow>
    \<exists>F I. free_list_loop p h = Some (h\<lparr>flist := F, infos := I\<rparr>) \<and> (\<forall>b. b \<notin> fst ` set vs \<longrightarrow> F b = flist h b) \<and>
      (\<forall>b. b \<notin> (fst \<circ> snd) ` set vs \<longrightarrow> I b = infos h b)"
proof (induction vs arbitrary: p h)
  case Nil
  have "h = h\<lparr>flist := flist h, infos := infos h\<rparr>" by simp
  then show ?case using Nil by (subst free_list_loop.simps) (auto intro!: exI [of _ "flist h"] exI [of _ "infos h"])
next
  case (Cons v vs)
  obtain n where n: "p = Some (fst v)" "flist h (fst v) = Some n" "fl_info n = Some (fst (snd v))" "infos h (fst (snd v)) = Some (snd (snd v))"
    "fl_seg h (fl_next n) vs None" using Cons.prems(1) by auto
  let ?h = "h\<lparr>infos := (infos h)(fst (snd v) := None), flist := (flist h)(fst v := None)\<rparr>"
  have f: "free_myFileLinkedList (fst v) h = Some ?h" using n by (simp add: free_myFileLinkedList_def free_info_def)
  have "fl_seg ?h (fl_next n) vs None \<longleftrightarrow> fl_seg h (fl_next n) vs None"
  proof (rule fl_seg_cong)
    fix w assume "w \<in> set vs"
    then have "fst w \<in> fst ` set vs" "(fst \<circ> snd) w \<in> (fst \<circ> snd) ` set vs" by (rule imageI)+
    then have "fst w \<noteq> fst v" "fst (snd w) \<noteq> fst (snd v)" using Cons.prems(2,3) unfolding list.map(2) distinct.simps(2) set_map comp_apply by metis+
    then show "flist ?h (fst w) = flist h (fst w) \<and> infos ?h (fst (snd w)) = infos h (fst (snd w))" by simp
  qed
  then obtain F I where "free_list_loop (fl_next n) ?h = Some (?h\<lparr>flist := F, infos := I\<rparr>)" "\<forall>b. b \<notin> fst ` set vs \<longrightarrow> F b = flist ?h b"
    "\<forall>b. b \<notin> (fst \<circ> snd) ` set vs \<longrightarrow> I b = infos ?h b"
    using Cons.IH [of ?h "fl_next n"] Cons.prems n(5) by auto
  then show ?case using n(1,2) f by (subst free_list_loop.simps) (auto intro!: exI [of _ F] exI [of _ I])
qed

definition shared :: "group_node list \<Rightarrow> group_node list" where
  "shared gs = filter (\<lambda>g. 2 \<le> length (g_files g)) gs"

lemma only_one_ok: "fl_seg h l vs None \<Longrightarrow> only_one l h = Some (length vs < 2)"
  by (cases vs; cases "tl vs") (auto simp: only_one_def)

lemma separateD:
  assumes "separate (us @ g # gs)"
  shows "fst g \<notin> fst ` set us" "fst g \<notin> fst ` set gs" "separate (us @ gs)" "distinct (map fst (g_files g))" "distinct (map (fst \<circ> snd) (g_files g))"
    "file_addrs us \<inter> fst ` set (g_files g) = {}" "file_addrs gs \<inter> fst ` set (g_files g) = {}"
    "info_addrs us \<inter> (fst \<circ> snd) ` set (g_files g) = {}" "info_addrs gs \<inter> (fst \<circ> snd) ` set (g_files g) = {}"
  using assms unfolding separate_def file_addrs_def info_addrs_def
  by (simp_all add: Int_Un_distrib Int_Un_distrib2 Int_commute Int_insert_right split: if_splits)

lemma free_set_ok:
  assumes "fs_seg h (Some (fst g)) (g # gs) None" "separate (us @ g # gs)"
  shows "\<exists>h'. free_myFileListSet (fst g) h = Some h' \<and> (\<forall>p q. fs_seg h' p us q \<longleftrightarrow> fs_seg h p us q) \<and>
    (\<forall>p q. fs_seg h' p gs q \<longleftrightarrow> fs_seg h p gs q) \<and> (\<forall>b. b \<noteq> fst g \<longrightarrow> fset h' b = fset h b)"
proof -
  note d = separateD [OF assms(2)]
  obtain n where n: "fset h (fst g) = Some n" "fl_seg h (fs_list n) (g_files g) None" using assms(1) by auto
  obtain F I where F: "free_list_loop (fs_list n) h = Some (h\<lparr>flist := F, infos := I\<rparr>)"
    "\<forall>b. b \<notin> fst ` set (g_files g) \<longrightarrow> F b = flist h b" "\<forall>b. b \<notin> (fst \<circ> snd) ` set (g_files g) \<longrightarrow> I b = infos h b"
    using free_list_ok [OF n(2) d(4,5)] by blast
  let ?h = "h\<lparr>flist := F, infos := I, fset := (fset h)(fst g := None)\<rparr>"
  have other: "fs_seg ?h p ks q \<longleftrightarrow> fs_seg h p ks q" if "fst g \<notin> fst ` set ks" "file_addrs ks \<inter> fst ` set (g_files g) = {}"
    "info_addrs ks \<inter> (fst \<circ> snd) ` set (g_files g) = {}" for p ks q
  proof (rule fs_seg_cong)
    show "fset ?h a = fset h a" if "a \<in> fst ` set ks" for a using that \<open>fst g \<notin> fst ` set ks\<close> by (cases "a = fst g") simp_all
    show "flist ?h a = flist h a" if "a \<in> file_addrs ks" for a
      using that F(2) \<open>file_addrs ks \<inter> _ = {}\<close> by (metis IntI dheap.select_convs(2) dheap.surjective dheap.update_convs(1,2,3) empty_iff)
    show "infos ?h a = infos h a" if "a \<in> info_addrs ks" for a
      using that F(3) \<open>info_addrs ks \<inter> _ = {}\<close> by (metis IntI dheap.select_convs(1) dheap.surjective dheap.update_convs(1,2,3) empty_iff)
  qed
  have "free_myFileListSet (fst g) h = Some ?h" using n(1) F(1) by (simp add: free_myFileListSet_def)
  then show ?thesis using other [OF d(1,6,8)] other [OF d(2,7,9)] by (intro exI [of _ ?h]) simp
qed

lemma remove_loop_ok:
  "fs_seg h head us cur \<Longrightarrow> fs_seg h cur gs None \<Longrightarrow> separate (us @ gs) \<Longrightarrow> prev = (if us = [] then None else Some (fst (last us))) \<Longrightarrow>
    \<exists>p' h'. remove_loop head cur prev h = Some (p', h') \<and> fs_seg h' p' (us @ shared gs) None"
proof (induction gs arbitrary: us head cur prev h)
  case Nil
  then show ?case by (subst remove_loop.simps) (simp add: shared_def)
next
  case (Cons g gs)
  note d = separateD [OF Cons.prems(3)]
  obtain n where n: "cur = Some (fst g)" "fset h (fst g) = Some n" "only_one (fs_list n) h = Some (length (g_files g) < 2)" "fs_seg h (fs_next n) gs None"
    using Cons.prems(2) only_one_ok by auto
  show ?case
  proof (cases "length (g_files g) < 2")
    case False
    have "\<exists>p' h'. remove_loop head (fs_next n) (Some (fst g)) h = Some (p', h') \<and> fs_seg h' p' ((us @ [g]) @ shared gs) None"
      using Cons.prems n by (intro Cons.IH) (auto simp: fs_seg_append)
    then show ?thesis using False n by (subst remove_loop.simps) (simp add: shared_def)
  next
    case True
    then have sh: "shared (g # gs) = shared gs" by (simp add: shared_def)
    show ?thesis
    proof (cases us rule: rev_cases)
      case Nil
      obtain h1 where h1: "free_myFileListSet (fst g) h = Some h1" "fs_seg h1 (fs_next n) gs None"
        using free_set_ok [of h g gs "[]"] Cons.prems(2,3) Nil n by auto
      have "\<exists>p' h'. remove_loop (fs_next n) (fs_next n) None h1 = Some (p', h') \<and> fs_seg h' p' ([] @ shared gs) None"
        using h1(2) d(3) Nil by (intro Cons.IH) auto
      then show ?thesis using True n h1(1) Nil Cons.prems(4) sh by (subst remove_loop.simps) simp
    next
      case (snoc ws w)
      have w: "fst w \<noteq> fst g" "distinct (map fst (ws @ [w]))" "fst w \<notin> fst ` set gs"
        using Cons.prems(3) snoc by (auto simp: separate_def)
      obtain G where G: "set_fs_next (fst w) (fs_next n) h = Some (h\<lparr>fset := G\<rparr>)" "fs_seg (h\<lparr>fset := G\<rparr>) head us (fs_next n)"
        "\<forall>b. b \<noteq> fst w \<longrightarrow> G b = fset h b"
        using set_fs_next_last [of h head ws w cur "fs_next n"] Cons.prems(1) w(2) snoc by auto
      have "fs_seg (h\<lparr>fset := G\<rparr>) (Some (fst g)) (g # gs) None"
        using fs_seg_other [of "fst w" "g # gs" G h] w(1,3) G(3) Cons.prems(2) n(1) by (simp del: fs_seg.simps)
      then obtain h1 where h1: "free_myFileListSet (fst g) (h\<lparr>fset := G\<rparr>) = Some h1" "fs_seg h1 head us (fs_next n)"
        "fs_seg h1 (fs_next n) gs None" "fset h1 (fst w) = G (fst w)"
        using free_set_ok [of "h\<lparr>fset := G\<rparr>" g gs us] Cons.prems(3) G(2) w(1) fs_seg_other [of "fst w" gs G h] w(3) G(3) n(4) by auto
      obtain m where m: "fset h1 (fst w) = Some m" "fs_next m = fs_next n" using h1(2) snoc by (auto simp: fs_seg_append)
      have "\<exists>p' h'. remove_loop head (fs_next m) (Some (fst w)) h1 = Some (p', h') \<and> fs_seg h' p' (us @ shared gs) None"
        using h1(2,3) d(3) m(2) snoc by (intro Cons.IH) auto
      then show ?thesis using True n h1(1) G(1) m snoc Cons.prems(4) sh by (subst remove_loop.simps) simp
    qed
  qed
qed

end
