(* ===== verification/DupFind.thy ===== *)
theory DupFind
  imports DupProps "HOL-Library.Multiset"
begin

text \<open>
  The search of the duplicate finder (\<^verbatim>\<open>find_dup\<close> in \<^verbatim>\<open>LinuxProgramming/P2_20192380/find.c\<close>): directories are
  visited breadth first, every regular file that passes the filters is hashed and inserted, and the
  sets with a single file are dropped. Directory reading, file status and hashing are parameters. The
  search on the heap refines a search on lists, and the sets it ends with are the files grouped by
  size and hash.
\<close>

section \<open>The search\<close>

datatype file_kind = KDir | KReg | KOther

record file_stat =
  st_kind :: file_kind
  st_bytes :: nat
  st_mtime :: int
  st_atime :: int

text \<open>\<open>hash_file\<close> is \<open>None\<close> when the file cannot be opened.\<close>

record dup_env =
  scandir :: "string \<Rightarrow> string list option"
  file_status :: "string \<Rightarrow> file_stat option"
  hash_file :: "string \<Rightarrow> string option"
  fmt_time :: "int \<Rightarrow> string"

record dup_query =
  q_ext :: "string option"
  min_size :: int
  max_size :: int

text \<open>\<^verbatim>\<open>parse_file_extension\<close> looks for a dot from the end of the path.\<close>

primrec ext_loop :: "string \<Rightarrow> string \<Rightarrow> string option" where
  "ext_loop [] acc = None"
| "ext_loop (c # cs) acc = (if c = CHR ''.'' then Some acc else ext_loop cs (c # acc))"

definition parse_file_extension :: "string \<Rightarrow> string option" where
  "parse_file_extension s = ext_loop (rev s) []"

text \<open>What is to be done with a directory entry.\<close>

datatype entry_action = Skip | Overrun | PushDir string int | AddFile string int int int nat string

definition entry_action :: "dup_env \<Rightarrow> dup_query \<Rightarrow> string \<Rightarrow> int \<Rightarrow> string \<Rightarrow> entry_action" where
  "entry_action E q dir d name =
     (if name = ''.'' \<or> name = ''..'' then Skip else
      let p = dir @ ''/'' @ name in if PATH_MAX \<le> length p then Overrun else
      case file_status E p of None \<Rightarrow> Skip | Some st \<Rightarrow> (case st_kind st of
        KDir \<Rightarrow> PushDir p (d + 1)
      | KReg \<Rightarrow> if st_bytes st = 0 then Skip
          else if q_ext q \<noteq> None \<and> parse_file_extension p \<noteq> q_ext q then Skip
          else if min_size q \<le> int (st_bytes st) \<and> int (st_bytes st) \<le> max_size q then
            (case hash_file E p of None \<Rightarrow> Skip | Some hs \<Rightarrow> AddFile p d (st_mtime st) (st_atime st) (st_bytes st) hs)
          else Skip
      | KOther \<Rightarrow> Skip))"

definition process_entry :: "dup_env \<Rightarrow> dup_query \<Rightarrow> string \<Rightarrow> int \<Rightarrow> string \<Rightarrow> nat option \<times> nat option \<Rightarrow> (nat option \<times> nat option) dm" where
  "process_entry E q dir d name = (\<lambda>(queue, sets) h. case entry_action E q dir d name of
     Skip \<Rightarrow> Some ((queue, sets), h)
   | Overrun \<Rightarrow> None
   | PushDir p d \<Rightarrow> (case create_myDirQueue_node p d h of None \<Rightarrow> None | Some (n, h) \<Rightarrow>
       (case enqueue_myDirQueue queue n h of None \<Rightarrow> None | Some (queue, h) \<Rightarrow> Some ((queue, sets), h)))
   | AddFile p d m a sz hs \<Rightarrow> (case create_fileInfo (fmt_time E) p d m a h of None \<Rightarrow> None | Some (i, h) \<Rightarrow>
       (case create_file_linked_node i h of None \<Rightarrow> None | Some (n, h) \<Rightarrow>
       (case insert_myFileListLinkedList sets n sz hs h of None \<Rightarrow> None | Some (sets, h) \<Rightarrow> Some ((queue, sets), h)))))"

primrec process_entries :: "dup_env \<Rightarrow> dup_query \<Rightarrow> string \<Rightarrow> int \<Rightarrow> string list \<Rightarrow> nat option \<times> nat option \<Rightarrow> (nat option \<times> nat option) dm" where
  "process_entries E q dir d [] qs h = Some (qs, h)"
| "process_entries E q dir d (e # es) qs h = (case process_entry E q dir d e qs h of None \<Rightarrow> None
     | Some (qs, h) \<Rightarrow> process_entries E q dir d es qs h)"

definition system_dir :: "string \<Rightarrow> bool" where
  "system_dir dir \<longleftrightarrow> dir = ''/proc'' \<or> dir = ''/run'' \<or> dir = ''/sys''"

partial_function (option) find_loop :: "dup_env \<Rightarrow> dup_query \<Rightarrow> nat option \<times> nat option \<Rightarrow> dheap \<Rightarrow> (nat option \<times> dheap) option" where
  "find_loop E q qs h = (if \<not> is_myDirQueue_empty (fst qs) then Some (snd qs, h) else
     case pop_front_myDirQueue (fst qs) h of None \<Rightarrow> None | Some (r, h) \<Rightarrow> (case r of (queue, dir, d) \<Rightarrow>
       if system_dir dir then find_loop E q (queue, snd qs) h else
       (case scandir E dir of None \<Rightarrow> find_loop E q (queue, snd qs) h | Some es \<Rightarrow>
         (case process_entries E q dir d es (queue, snd qs) h of None \<Rightarrow> None | Some r \<Rightarrow> find_loop E q (fst r) (snd r)))))"

definition find_dup :: "dup_env \<Rightarrow> dup_query \<Rightarrow> string \<Rightarrow> nat option dm" where
  "find_dup E q target h = (case create_myDirQueue_node target 0 h of None \<Rightarrow> None | Some (n, h) \<Rightarrow>
     (case find_loop E q (Some n, None) h of None \<Rightarrow> None | Some (sets, h) \<Rightarrow> remove_only_one_node sets h))"

section \<open>The search on lists\<close>

type_synonym found = "file_info \<times> nat \<times> string"

definition list_entry :: "dup_env \<Rightarrow> dup_query \<Rightarrow> string \<Rightarrow> int \<Rightarrow> string \<Rightarrow> (string \<times> int) list \<times> found list \<Rightarrow> ((string \<times> int) list \<times> found list) option" where
  "list_entry E q dir d name = (\<lambda>(ds, fs). case entry_action E q dir d name of
     Skip \<Rightarrow> Some (ds, fs) | Overrun \<Rightarrow> None | PushDir p d \<Rightarrow> Some (ds @ [(p, d)], fs)
   | AddFile p d m a sz hs \<Rightarrow> Some (ds, fs @ [(\<lparr>path = p, depth = d, mtime = fmt_time E m, atime = fmt_time E a\<rparr>, sz, hs)]))"

primrec list_entries :: "dup_env \<Rightarrow> dup_query \<Rightarrow> string \<Rightarrow> int \<Rightarrow> string list \<Rightarrow> (string \<times> int) list \<times> found list \<Rightarrow> ((string \<times> int) list \<times> found list) option" where
  "list_entries E q dir d [] x = Some x"
| "list_entries E q dir d (e # es) x = (case list_entry E q dir d e x of None \<Rightarrow> None | Some x \<Rightarrow> list_entries E q dir d es x)"

partial_function (option) list_find :: "dup_env \<Rightarrow> dup_query \<Rightarrow> (string \<times> int) list \<Rightarrow> found list \<Rightarrow> found list option" where
  "list_find E q ds fs = (case ds of [] \<Rightarrow> Some fs | x # ds \<Rightarrow>
     if system_dir (fst x) then list_find E q ds fs else
     (case scandir E (fst x) of None \<Rightarrow> list_find E q ds fs | Some es \<Rightarrow>
       (case list_entries E q (fst x) (snd x) es (ds, fs) of None \<Rightarrow> None | Some r \<Rightarrow> list_find E q (fst r) (snd r))))"

text \<open>Inserting into the sets of files, as lists.\<close>

type_synonym file_group = "nat \<times> string \<times> file_info list"

primrec insert_group :: "file_info \<Rightarrow> nat \<Rightarrow> string \<Rightarrow> file_group list \<Rightarrow> file_group list" where
  "insert_group x sz hs [] = [(sz, hs, [x])]"
| "insert_group x sz hs (g # gs) = (if fst g < sz then g # insert_group x sz hs gs
     else if fst g = sz then
       (if fst (snd g) = hs then (sz, hs, insort_by file_less x (snd (snd g))) # gs else g # insert_group x sz hs gs)
     else (sz, hs, [x]) # g # gs)"

definition group_all :: "found list \<Rightarrow> file_group list" where
  "group_all fs = foldl (\<lambda>gs (x, sz, hs). insert_group x sz hs gs) [] fs"

definition duplicates :: "found list \<Rightarrow> file_group list" where
  "duplicates fs = filter (\<lambda>g. 2 \<le> length (snd (snd g))) (group_all fs)"

section \<open>Representation\<close>

definition group_of :: "group_node \<Rightarrow> file_group" where
  "group_of g = (g_size g, g_hash g, map (snd \<circ> snd) (g_files g))"

lemma group_of_sel [simp]: "fst (group_of g) = g_size g" "fst (snd (group_of g)) = g_hash g" "snd (snd (group_of g)) = map (snd \<circ> snd) (g_files g)"
  by (simp_all add: group_of_def)

lemma place_group: "map group_of (place a v sz hs gs) = insert_group (snd (snd v)) sz hs (map group_of gs)"
  by (induction gs) (auto simp: group_of_def map_insort)

lemma place_addrs:
  "fst ` set (place a v sz hs gs) \<subseteq> insert a (fst ` set gs)" "file_addrs (place a v sz hs gs) = insert (fst v) (file_addrs gs)"
  "info_addrs (place a v sz hs gs) = insert (fst (snd v)) (info_addrs gs)"
  by (induction gs) auto

lemma separate_Cons: "separate (g # gs) \<longleftrightarrow> fst g \<notin> fst ` set gs \<and> distinct (map fst (g_files g)) \<and> distinct (map (fst \<circ> snd) (g_files g)) \<and>
    fst ` set (g_files g) \<inter> file_addrs gs = {} \<and> (fst \<circ> snd) ` set (g_files g) \<inter> info_addrs gs = {} \<and> separate gs"
  unfolding separate_def file_addrs_def info_addrs_def by auto

lemma place_separate:
  "separate gs \<Longrightarrow> a \<notin> fst ` set gs \<Longrightarrow> fst v \<notin> file_addrs gs \<Longrightarrow> fst (snd v) \<notin> info_addrs gs \<Longrightarrow> separate (place a v sz hs gs)"
proof (induction gs)
  case Nil
  then show ?case by (simp add: separate_def)
next
  case (Cons g gs)
  have g: "fst g \<noteq> a" "fst v \<notin> fst ` set (g_files g)" "fst (snd v) \<notin> (fst \<circ> snd) ` set (g_files g)" "separate gs"
    "a \<notin> fst ` set gs" "fst v \<notin> file_addrs gs" "fst (snd v) \<notin> info_addrs gs"
    using Cons.prems by (auto simp: separate_Cons)
  have "fst g \<notin> fst ` set (place a v sz hs gs)" using place_addrs(1) [of a v sz hs gs] g(1) Cons.prems(1) by (auto simp: separate_Cons)
  then have "separate (g # place a v sz hs gs)" using Cons.IH [OF g(4-7)] Cons.prems(1) g(2,3) by (simp add: separate_Cons place_addrs(2,3))
  moreover have "separate ((fst g, sz, hs, insort_by node_less v (g_files g)) # gs)"
    using Cons.prems(1) g by (simp add: separate_Cons distinct_insort)
  moreover have "separate ((a, sz, hs, [v]) # g # gs)" using Cons.prems g(1-3,5-7) by (simp add: separate_Cons [of "(a, sz, hs, [v])"])
  ultimately show ?case by simp
qed

definition below :: "dheap \<Rightarrow> group_node list \<Rightarrow> bool" where
  "below h gs \<longleftrightarrow> (\<forall>a \<in> fst ` set gs \<union> file_addrs gs \<union> info_addrs gs. a < fresh h)"

definition sets_rep :: "dheap \<Rightarrow> nat option \<Rightarrow> file_group list \<Rightarrow> bool" where
  "sets_rep h p G \<longleftrightarrow> (\<exists>gs. fs_seg h p gs None \<and> separate gs \<and> below h gs \<and> G = map group_of gs)"

text \<open>The directory queue.\<close>

primrec dq_seg :: "dheap \<Rightarrow> nat option \<Rightarrow> (nat \<times> string \<times> int) list \<Rightarrow> nat option \<Rightarrow> bool" where
  "dq_seg h p [] q \<longleftrightarrow> p = q"
| "dq_seg h p (x # xs) q \<longleftrightarrow> p = Some (fst x) \<and> (\<exists>n. dirq h (fst x) = Some n \<and> dir_path n = fst (snd x) \<and> dq_depth n = snd (snd x) \<and>
     dq_seg h (dq_next n) xs q)"

definition queue_rep :: "dheap \<Rightarrow> nat option \<Rightarrow> (string \<times> int) list \<Rightarrow> bool" where
  "queue_rep h p ds \<longleftrightarrow> (\<exists>xs. dq_seg h p xs None \<and> distinct (map fst xs) \<and> (\<forall>x \<in> set xs. fst x < fresh h) \<and> ds = map snd xs)"

lemma dq_seg_cong: "(\<And>a. a \<in> fst ` set xs \<Longrightarrow> dirq h' a = dirq h a) \<Longrightarrow> dq_seg h' p xs q \<longleftrightarrow> dq_seg h p xs q"
  by (induction xs arbitrary: p) auto

lemma dq_seg_append: "dq_seg h p (xs @ ys) q \<longleftrightarrow> (\<exists>r. dq_seg h p xs r \<and> dq_seg h r ys q)"
  by (induction xs arbitrary: p) auto

lemma dq_seg_None [simp]: "dq_seg h None xs q \<longleftrightarrow> xs = [] \<and> q = None"
  by (cases xs) auto

lemma dq_last_ok: "dq_seg h (Some p) (xs @ [x]) None \<Longrightarrow> dq_last p h = Some (fst x)"
proof (induction xs arbitrary: p)
  case Nil
  then show ?case by (subst dq_last.simps) auto
next
  case (Cons y ys)
  then obtain n where n: "dirq h p = Some n" "dq_seg h (dq_next n) (ys @ [x]) None" by auto
  then obtain r where "dq_next n = Some r" by (cases "dq_next n") auto
  then show ?case using n Cons.IH [of r] by (subst dq_last.simps) simp
qed

lemma queue_rep_other: "queue_rep h p ds \<Longrightarrow> dirq h' = dirq h \<Longrightarrow> fresh h \<le> fresh h' \<Longrightarrow> queue_rep h' p ds"
  unfolding queue_rep_def using dq_seg_cong [of _ h' h] by (metis order_less_le_trans)

lemma sets_rep_other:
  assumes "sets_rep h p G" "infos h' = infos h" "flist h' = flist h" "fset h' = fset h" "fresh h \<le> fresh h'"
  shows "sets_rep h' p G"
proof -
  obtain gs where gs: "fs_seg h p gs None" "separate gs" "below h gs" "G = map group_of gs" using assms(1) by (auto simp: sets_rep_def)
  moreover have "fs_seg h' p gs None" using gs(1) fs_seg_cong [of gs h' h] assms(2-4) by simp
  moreover have "below h' gs" using gs(3) assms(5) unfolding below_def by (metis order_less_le_trans)
  ultimately show ?thesis unfolding sets_rep_def by blast
qed

lemma push_ok:
  assumes "queue_rep h p ds" "length d < PATH_MAX"
  shows "\<exists>n h1 p' h'. create_myDirQueue_node d k h = Some (n, h1) \<and> enqueue_myDirQueue p n h1 = Some (p', h') \<and> queue_rep h' p' (ds @ [(d, k)]) \<and>
    infos h' = infos h \<and> flist h' = flist h \<and> fset h' = fset h \<and> fresh h \<le> fresh h'"
proof -
  obtain xs where xs: "dq_seg h p xs None" "distinct (map fst xs)" "\<forall>x \<in> set xs. fst x < fresh h" "ds = map snd xs" using assms(1) by (auto simp: queue_rep_def)
  let ?n = "fresh h" and ?new = "\<lparr>dir_path = d, dq_depth = k, dq_next = None\<rparr>"
  let ?h1 = "h\<lparr>dirq := (dirq h)(?n \<mapsto> ?new), fresh := Suc ?n\<rparr>"
  have c: "create_myDirQueue_node d k h = Some (?n, ?h1)" using assms(2) by (simp add: create_myDirQueue_node_def)
  have n: "?n \<notin> fst ` set xs" using xs(3) by (metis imageE less_irrefl)
  have s1: "dq_seg ?h1 p xs None"
  proof (subst dq_seg_cong [of xs ?h1 h])
    show "dirq ?h1 a = dirq h a" if "a \<in> fst ` set xs" for a using that n by (cases "a = ?n") simp_all
  qed (rule xs(1))
  have lt: "\<forall>x \<in> set xs. fst x < Suc ?n" using xs(3) by (metis less_SucI)
  show ?thesis
  proof (cases xs rule: rev_cases)
    case Nil
    then have "queue_rep ?h1 (Some ?n) (ds @ [(d, k)])" using xs(4) by (auto simp: queue_rep_def intro!: exI [of _ "[(?n, d, k)]"])
    then show ?thesis using c Nil xs(1) by (simp add: enqueue_myDirQueue_def)
  next
    case (snoc ws w)
    then obtain a where a: "p = Some a" using xs(1) by (cases p) auto
    obtain m where m: "dq_seg ?h1 p ws (Some (fst w))" "dirq ?h1 (fst w) = Some m" "dir_path m = fst (snd w)" "dq_depth m = snd (snd w)"
      using s1 snoc by (auto simp: dq_seg_append)
    have nw: "fst w \<noteq> ?n" "fst w \<notin> fst ` set ws" using n snoc xs(2) by auto
    let ?h2 = "?h1\<lparr>dirq := (dirq ?h1)(fst w \<mapsto> m\<lparr>dq_next := Some ?n\<rparr>)\<rparr>"
    have e: "enqueue_myDirQueue p ?n ?h1 = Some (p, ?h2)"
      using dq_last_ok [of ?h1 a ws w] s1 a snoc m(2) nw(1) by (simp add: enqueue_myDirQueue_def set_dq_next_def fun_upd_idem)
    have "dq_seg ?h2 p ws (Some (fst w))"
    proof (subst dq_seg_cong [of ws ?h2 ?h1])
      show "dirq ?h2 a = dirq ?h1 a" if "a \<in> fst ` set ws" for a using that nw(2) by (cases "a = fst w") simp_all
    qed (rule m(1))
    then have "dq_seg ?h2 p (xs @ [(?n, d, k)]) None" using m(3,4) nw(1) snoc by (auto simp: dq_seg_append)
    then have "queue_rep ?h2 p (ds @ [(d, k)])" using xs(2,4) n lt unfolding queue_rep_def by (intro exI [of _ "xs @ [(?n, d, k)]"]) simp
    then show ?thesis using c e by auto
  qed
qed

lemma pop_ok:
  assumes "queue_rep h p (x # ds)"
  shows "\<exists>p' h'. pop_front_myDirQueue p h = Some ((p', fst x, snd x), h') \<and> queue_rep h' p' ds \<and>
    infos h' = infos h \<and> flist h' = flist h \<and> fset h' = fset h \<and> fresh h' = fresh h"
proof -
  obtain a xs where s: "dq_seg h p ((a, x) # xs) None" "distinct (a # map fst xs)" "\<forall>y \<in> set xs. fst y < fresh h" "ds = map snd xs"
    using assms by (auto simp: queue_rep_def)
  then obtain n where n: "p = Some a" "dirq h a = Some n" "dir_path n = fst x" "dq_depth n = snd x" "dq_seg h (dq_next n) xs None" by auto
  let ?h = "h\<lparr>dirq := (dirq h)(a := None)\<rparr>"
  have "dq_seg ?h (dq_next n) xs None \<longleftrightarrow> dq_seg h (dq_next n) xs None" by (rule dq_seg_cong) (use s(2) in auto)
  then show ?thesis using n s by (auto simp: pop_front_myDirQueue_def queue_rep_def intro!: exI [of _ xs])
qed

lemma add_file_ok:
  assumes "sets_rep h s G" "length p < PATH_MAX" "length hs < HASH_MAX"
  shows "\<exists>i h1 n h2 s' h'. create_fileInfo f p d m a h = Some (i, h1) \<and> create_file_linked_node i h1 = Some (n, h2) \<and>
    insert_myFileListLinkedList s n sz hs h2 = Some (s', h') \<and>
    sets_rep h' s' (insert_group \<lparr>path = p, depth = d, mtime = f m, atime = f a\<rparr> sz hs G) \<and> dirq h' = dirq h \<and> fresh h \<le> fresh h'"
proof -
  obtain gs where gs: "fs_seg h s gs None" "separate gs" "below h gs" "G = map group_of gs" using assms(1) by (auto simp: sets_rep_def)
  let ?x = "\<lparr>path = p, depth = d, mtime = f m, atime = f a\<rparr>" and ?i = "fresh h" and ?n = "Suc (fresh h)"
  let ?h1 = "h\<lparr>infos := (infos h)(?i \<mapsto> ?x), fresh := ?n\<rparr>"
  let ?h2 = "?h1\<lparr>flist := (flist h)(?n \<mapsto> \<lparr>fl_info = Some ?i, fl_next = None\<rparr>), fresh := Suc ?n\<rparr>"
  let ?v = "(?n, ?i, ?x)"
  have c: "create_fileInfo f p d m a h = Some (?i, ?h1)" "create_file_linked_node ?i ?h1 = Some (?n, ?h2)"
    using assms(2) by (simp_all add: create_fileInfo_def create_file_linked_node_def)
  have lt: "b < ?i" if "b \<in> fst ` set gs \<union> file_addrs gs \<union> info_addrs gs" for b using gs(3) that unfolding below_def by blast
  have not: "?n \<notin> fst ` set gs" "Suc ?n \<notin> fst ` set gs" "?n \<notin> file_addrs gs" "?i \<notin> info_addrs gs"
    using lt [of ?n] lt [of "Suc ?n"] lt [of ?i] by auto
  have s2: "fs_seg ?h2 s gs None"
  proof (subst fs_seg_cong [of gs ?h2 h])
    show "flist ?h2 b = flist h b" if "b \<in> file_addrs gs" for b using that not(3) by (cases "b = ?n") simp_all
    show "infos ?h2 b = infos h b" if "b \<in> info_addrs gs" for b using that not(4) by (cases "b = ?i") simp_all
  qed (use gs(1) in simp_all)
  have "\<forall>g \<in> set gs. fst g < Suc ?n" by (metis UnCI imageI less_SucI lt)
  then have fit: "fits_in ?h2 ?v gs" using gs(2) not(3) by (simp add: fits_in_def loose_def separate_def)
  obtain s' h' where h': "insert_myFileListLinkedList s ?n sz hs ?h2 = Some (s', h')" "fs_seg h' s' (place (fresh ?h2) ?v sz hs gs) None"
    "inserted ?h2 ?v gs (place (fresh ?h2) ?v sz hs gs) h'"
    using insert_set_ok [OF s2 fit assms(3), of sz] by auto
  have sep: "separate (place (fresh ?h2) ?v sz hs gs)" using place_separate [OF gs(2)] not by simp
  have f: "Suc ?n \<le> fresh h'" "\<forall>g \<in> set (place (fresh ?h2) ?v sz hs gs). fst g < fresh h'" "dirq h' = dirq h" using h'(3) by (simp_all add: inserted_def)
  have "below h' (place (fresh ?h2) ?v sz hs gs)"
    unfolding below_def place_addrs(2,3)
  proof (intro ballI)
    fix b assume "b \<in> fst ` set (place (fresh ?h2) ?v sz hs gs) \<union> insert (fst ?v) (file_addrs gs) \<union> insert (fst (snd ?v)) (info_addrs gs)"
    then consider "b \<in> fst ` set (place (fresh ?h2) ?v sz hs gs)" | "b = ?n \<or> b = ?i" | "b \<in> file_addrs gs \<union> info_addrs gs" by (simp only: fst_conv snd_conv) blast
    then show "b < fresh h'"
    proof cases
      case 1
      then show ?thesis using f(2) by blast
    next
      case 2
      then show ?thesis using f(1) by auto
    next
      case 3
      then show ?thesis using f(1) lt [of b] by simp
    qed
  qed
  then have "sets_rep h' s' (insert_group ?x sz hs G)" using h'(2) sep gs(4) place_group [of "fresh ?h2" ?v sz hs gs] unfolding sets_rep_def by auto
  then show ?thesis using c h'(1) f by auto
qed

definition found_rep :: "dheap \<Rightarrow> nat option \<times> nat option \<Rightarrow> (string \<times> int) list \<times> found list \<Rightarrow> bool" where
  "found_rep h qs x \<longleftrightarrow> queue_rep h (fst qs) (fst x) \<and> sets_rep h (snd qs) (group_all (snd x))"

definition hashes_fit :: "dup_env \<Rightarrow> bool" where
  "hashes_fit E \<longleftrightarrow> (\<forall>p hs. hash_file E p = Some hs \<longrightarrow> length hs < HASH_MAX)"

lemma entry_action_path:
  "entry_action E q dir d name = PushDir p k \<Longrightarrow> p = dir @ ''/'' @ name \<and> length p < PATH_MAX"
  "entry_action E q dir d name = AddFile p k m a sz hs \<Longrightarrow> length p < PATH_MAX \<and> hash_file E p = Some hs"
  by (auto simp: entry_action_def Let_def split: if_splits option.splits file_kind.splits)

lemma group_all_snoc: "group_all (fs @ [(x, sz, hs)]) = insert_group x sz hs (group_all fs)"
  by (simp add: group_all_def)

lemma process_entry_ok:
  assumes "found_rep h qs x" "hashes_fit E" "list_entry E q dir d name x = Some x'"
  shows "\<exists>qs' h'. process_entry E q dir d name qs h = Some (qs', h') \<and> found_rep h' qs' x'"
proof -
  obtain p s ds fs where v: "qs = (p, s)" "x = (ds, fs)" by (cases qs; cases x) auto
  have r: "queue_rep h p ds" "sets_rep h s (group_all fs)" using assms(1) v by (simp_all add: found_rep_def)
  show ?thesis
  proof (cases "entry_action E q dir d name")
    case Skip
    then show ?thesis using assms v by (auto simp: list_entry_def process_entry_def)
  next
    case Overrun
    then show ?thesis using assms(3) v by (simp add: list_entry_def)
  next
    case (PushDir c k)
    obtain n h1 p' h' where h': "create_myDirQueue_node c k h = Some (n, h1)" "enqueue_myDirQueue p n h1 = Some (p', h')"
      "queue_rep h' p' (ds @ [(c, k)])" "infos h' = infos h" "flist h' = flist h" "fset h' = fset h" "fresh h \<le> fresh h'"
      using push_ok [OF r(1)] entry_action_path(1) [OF PushDir] by blast
    then have "sets_rep h' s (group_all fs)" using sets_rep_other [OF r(2)] by simp
    then show ?thesis using h' PushDir assms(3) v by (auto simp: list_entry_def process_entry_def found_rep_def)
  next
    case (AddFile c k m a sz hs)
    have c: "length c < PATH_MAX" "length hs < HASH_MAX"
      using entry_action_path(2) [OF AddFile] assms(2) by (auto simp: hashes_fit_def)
    obtain i h1 n h2 s' h' where h': "create_fileInfo (fmt_time E) c k m a h = Some (i, h1)" "create_file_linked_node i h1 = Some (n, h2)"
      "insert_myFileListLinkedList s n sz hs h2 = Some (s', h')" "dirq h' = dirq h" "fresh h \<le> fresh h'"
      "sets_rep h' s' (insert_group \<lparr>path = c, depth = k, mtime = fmt_time E m, atime = fmt_time E a\<rparr> sz hs (group_all fs))"
      using add_file_ok [OF r(2) c, of "fmt_time E" k m a sz] by blast
    then have "queue_rep h' p ds" using queue_rep_other [OF r(1)] by simp
    then show ?thesis using h' AddFile assms(3) v by (auto simp: list_entry_def process_entry_def found_rep_def group_all_snoc)
  qed
qed

lemma process_entries_ok:
  "found_rep h qs x \<Longrightarrow> hashes_fit E \<Longrightarrow> list_entries E q dir d es x = Some x' \<Longrightarrow>
    \<exists>qs' h'. process_entries E q dir d es qs h = Some (qs', h') \<and> found_rep h' qs' x'"
proof (induction es arbitrary: x qs h)
  case Nil
  then show ?case by auto
next
  case (Cons e es)
  obtain y where y: "list_entry E q dir d e x = Some y" "list_entries E q dir d es y = Some x'"
    using Cons.prems(3) by (auto split: option.splits)
  obtain qs1 h1 where "process_entry E q dir d e qs h = Some (qs1, h1)" "found_rep h1 qs1 y"
    using process_entry_ok [OF Cons.prems(1,2) y(1)] by blast
  then show ?case using Cons.IH [of h1 qs1 y] Cons.prems(2) y(2) by simp
qed

lemma queue_rep_empty: "queue_rep h p ds \<Longrightarrow> is_myDirQueue_empty p \<longleftrightarrow> ds \<noteq> []"
  by (cases p) (auto simp: queue_rep_def is_myDirQueue_empty_def)

lemma list_find_induct [consumes 1, case_names empty skip visit]:
  assumes "list_find E q ds fs = Some r"
    and "\<And>fs. P [] fs fs"
    and "\<And>x ds fs r. system_dir (fst x) \<or> scandir E (fst x) = None \<Longrightarrow> P ds fs r \<Longrightarrow> P (x # ds) fs r"
    and "\<And>x ds fs r es y. \<not> system_dir (fst x) \<Longrightarrow> scandir E (fst x) = Some es \<Longrightarrow>
      list_entries E q (fst x) (snd x) es (ds, fs) = Some y \<Longrightarrow> P (fst y) (snd y) r \<Longrightarrow> P (x # ds) fs r"
  shows "P ds fs r"
proof -
  have "E' = E \<longrightarrow> q' = q \<longrightarrow> P ds fs r" if "list_find E' q' ds fs = Some r" for E' q' ds fs r
    using that
  proof (rule list_find.raw_induct [rotated])
    fix lf E' q' ds fs r
    assume lf: "\<And>E' q' ds fs r. lf E' q' ds fs = Some r \<Longrightarrow> E' = E \<longrightarrow> q' = q \<longrightarrow> P ds fs r"
      and body: "(case ds of [] \<Rightarrow> Some fs | x # ds \<Rightarrow> if system_dir (fst x) then lf E' q' ds fs else
        case scandir E' (fst x) of None \<Rightarrow> lf E' q' ds fs | Some es \<Rightarrow>
          (case list_entries E' q' (fst x) (snd x) es (ds, fs) of None \<Rightarrow> None | Some r \<Rightarrow> lf E' q' (fst r) (snd r))) = Some r"
    show "E' = E \<longrightarrow> q' = q \<longrightarrow> P ds fs r"
    proof (intro impI)
      assume [simp]: "E' = E" "q' = q"
      show "P ds fs r"
      proof (cases ds)
        case Nil
        then show ?thesis using body assms(2) by simp
      next
        case (Cons x ds')
        show ?thesis
        proof (cases "system_dir (fst x) \<or> scandir E (fst x) = None")
          case True
          then show ?thesis using body lf assms(3) Cons by (auto split: option.splits if_splits)
        next
          case False
          then obtain es where es: "scandir E (fst x) = Some es" "\<not> system_dir (fst x)" by auto
          then obtain y where "list_entries E q (fst x) (snd x) es (ds', fs) = Some y" "lf E q (fst y) (snd y) = Some r"
            using body Cons by (auto split: option.splits)
          then show ?thesis using lf assms(4) [OF es(2,1)] Cons by blast
        qed
      qed
    qed
  qed
  then show ?thesis using assms(1) by blast
qed

lemma find_loop_ok:
  "list_find E q ds fs = Some r \<Longrightarrow> hashes_fit E \<Longrightarrow> found_rep h qs (ds, fs) \<Longrightarrow>
    \<exists>p' h'. find_loop E q qs h = Some (p', h') \<and> sets_rep h' p' (group_all r)"
proof (induction arbitrary: h qs rule: list_find_induct)
  case (empty fs)
  then show ?case using queue_rep_empty by (subst find_loop.simps) (fastforce simp: found_rep_def)
next
  case (skip x ds fs r)
  then obtain p' h' where h': "pop_front_myDirQueue (fst qs) h = Some ((p', fst x, snd x), h')" "queue_rep h' p' ds" "infos h' = infos h"
    "flist h' = flist h" "fset h' = fset h" "fresh h' = fresh h" using pop_ok [of h "fst qs" x ds] by (auto simp: found_rep_def)
  have r: "found_rep h' (p', snd qs) (ds, fs)" using sets_rep_other [of h "snd qs" _ h'] h' skip by (simp add: found_rep_def)
  have "is_myDirQueue_empty (fst qs)" using skip.prems(2) queue_rep_empty by (fastforce simp: found_rep_def)
  then show ?case using skip.IH [OF skip.prems(1) r] skip.hyps h'(1) by (cases x; subst find_loop.simps) (auto split: option.splits)
next
  case (visit x ds fs r es y)
  then obtain p' h' where h': "pop_front_myDirQueue (fst qs) h = Some ((p', fst x, snd x), h')" "queue_rep h' p' ds" "infos h' = infos h"
    "flist h' = flist h" "fset h' = fset h" "fresh h' = fresh h" using pop_ok [of h "fst qs" x ds] by (auto simp: found_rep_def)
  have r: "found_rep h' (p', snd qs) (ds, fs)" using sets_rep_other [of h "snd qs" _ h'] h' visit.prems(2) by (simp add: found_rep_def)
  obtain qs1 h1 where q1: "process_entries E q (fst x) (snd x) es (p', snd qs) h' = Some (qs1, h1)" "found_rep h1 qs1 (fst y, snd y)"
    using process_entries_ok [OF r visit.prems(1) visit.hyps(3)] by auto
  have "is_myDirQueue_empty (fst qs)" using visit.prems(2) queue_rep_empty by (fastforce simp: found_rep_def)
  then show ?case using visit.IH [OF visit.prems(1) q1(2)] q1(1) visit.hyps h'(1) by (cases x; subst find_loop.simps) simp
qed

end
