(* ===== verification/DupSearch.thy ===== *)
theory DupSearch
  imports DupFind "HOL-Library.Sublist"
begin

text \<open>
  What the duplicate finder finds: the search ends, it lists every matching file below the target
  directory once, and the sets it keeps are the files of equal size and hash.
\<close>

section \<open>One directory\<close>

definition new_dirs :: "dup_env \<Rightarrow> dup_query \<Rightarrow> string \<times> int \<Rightarrow> string list \<Rightarrow> (string \<times> int) list" where
  "new_dirs E q x es = List.map_filter (\<lambda>n. case entry_action E q (fst x) (snd x) n of PushDir p k \<Rightarrow> Some (p, k) | _ \<Rightarrow> None) es"

definition new_files :: "dup_env \<Rightarrow> dup_query \<Rightarrow> string \<times> int \<Rightarrow> string list \<Rightarrow> found list" where
  "new_files E q x es = List.map_filter (\<lambda>n. case entry_action E q (fst x) (snd x) n of
     AddFile p k m a sz hs \<Rightarrow> Some (\<lparr>path = p, depth = k, mtime = fmt_time E m, atime = fmt_time E a\<rparr>, sz, hs) | _ \<Rightarrow> None) es"

definition listing :: "dup_env \<Rightarrow> string \<Rightarrow> string list" where
  "listing E dir = (if system_dir dir then [] else case scandir E dir of None \<Rightarrow> [] | Some es \<Rightarrow> es)"

lemma set_new_dirs: "y \<in> set (new_dirs E q x es) \<longleftrightarrow> (\<exists>n \<in> set es. entry_action E q (fst x) (snd x) n = PushDir (fst y) (snd y))"
  by (induction es) (auto simp: new_dirs_def List.map_filter_simps split: entry_action.splits)

lemma list_entries_eq:
  "list_entries E q (fst x) (snd x) es (ds, fs) =
    (if \<exists>n \<in> set es. entry_action E q (fst x) (snd x) n = Overrun then None else Some (ds @ new_dirs E q x es, fs @ new_files E q x es))"
  by (induction es arbitrary: ds fs)
    (auto simp: list_entry_def new_dirs_def new_files_def List.map_filter_simps split: entry_action.splits)

text \<open>The search by the listings of the directories.\<close>

lemma list_find_step [consumes 1, case_names empty step]:
  assumes "list_find E q ds fs = Some r"
    and "\<And>fs. P [] fs fs"
    and "\<And>x ds fs r. P (ds @ new_dirs E q x (listing E (fst x))) (fs @ new_files E q x (listing E (fst x))) r \<Longrightarrow> P (x # ds) fs r"
  shows "P ds fs r"
  using assms(1)
proof (induction rule: list_find_induct)
  case (empty fs)
  show ?case by (rule assms(2))
next
  case (skip x ds fs r)
  then have "listing E (fst x) = []" by (auto simp: listing_def split: option.splits)
  then show ?case using assms(3) [of ds x fs r] skip.IH by (simp add: new_dirs_def new_files_def List.map_filter_simps)
next
  case (visit x ds fs r es y)
  then have "listing E (fst x) = es" by (simp add: listing_def)
  then show ?case using assms(3) [of ds x fs r] visit by (auto simp: list_entries_eq split: if_splits)
qed

section \<open>The search ends\<close>

definition paths_fit :: "dup_env \<Rightarrow> bool" where
  "paths_fit E \<longleftrightarrow> (\<forall>dir es n. scandir E dir = Some es \<longrightarrow> n \<in> set es \<longrightarrow> n = ''.'' \<or> n = ''..'' \<or> length (dir @ ''/'' @ n) < PATH_MAX)"

lemma new_dirs_longer: "y \<in> set (new_dirs E q x es) \<Longrightarrow> length (fst x) < length (fst y) \<and> length (fst y) < PATH_MAX"
  by (auto simp: set_new_dirs dest!: entry_action_path(1))

lemma entry_action_Overrun: "entry_action E q dir d n = Overrun \<Longrightarrow> n \<noteq> ''.'' \<and> n \<noteq> ''..'' \<and> PATH_MAX \<le> length (dir @ ''/'' @ n)"
  by (auto simp: entry_action_def Let_def split: if_splits option.splits file_kind.splits)

lemma paths_fit_entries: "paths_fit E \<Longrightarrow> scandir E dir = Some es \<Longrightarrow> n \<in> set es \<Longrightarrow> entry_action E q dir d n \<noteq> Overrun"
  unfolding paths_fit_def by (metis entry_action_Overrun not_le)

lemma list_find_ends:
  assumes "paths_fit E"
  shows "\<forall>x \<in> set ds. length (fst x) < PATH_MAX \<Longrightarrow> \<exists>r. list_find E q ds fs = Some r"
proof (induction ds arbitrary: fs rule: wf_induct_rule [OF wf_inv_image [OF wf_mult [OF wf_less_than], of "\<lambda>ds. mset (map (\<lambda>x. PATH_MAX - length (fst x)) ds)"]])
  case (1 ds)
  show ?case
  proof (cases ds)
    case Nil
    then show ?thesis by (subst list_find.simps) simp
  next
    case (Cons x ds')
    let ?M = "\<lambda>ds. {#PATH_MAX - length (fst x). x \<in># mset ds#} :: nat multiset"
    have dec: "(ds' @ ns, ds) \<in> inv_image (mult less_than) (\<lambda>ds. mset (map (\<lambda>x. PATH_MAX - length (fst x)) ds))"
      if "\<forall>y \<in> set ns. length (fst x) < length (fst y) \<and> length (fst y) < PATH_MAX" for ns
    proof -
      have "PATH_MAX - length (fst y) < PATH_MAX - length (fst x)" if "y \<in> set ns" for y
        using that \<open>\<forall>y \<in> set ns. _ y\<close> by (metis diff_less_mono2 less_trans)
      then have "(?M ds' + ?M ns, ?M ds' + {#PATH_MAX - length (fst x)#}) \<in> mult less_than"
        by (intro one_step_implies_mult) auto
      then show ?thesis using Cons by simp
    qed
    show ?thesis
    proof (cases "system_dir (fst x) \<or> scandir E (fst x) = None")
      case True
      obtain r where "list_find E q ds' fs = Some r" using 1(1) [of ds' fs] dec [of "[]"] 1(2) Cons by auto
      then show ?thesis using True Cons by (subst list_find.simps) (auto split: option.splits)
    next
      case False
      then obtain es where es: "scandir E (fst x) = Some es" "\<not> system_dir (fst x)" by auto
      let ?ds = "ds' @ new_dirs E q x es"
      have "\<forall>y \<in> set ?ds. length (fst y) < PATH_MAX" using 1(2) Cons new_dirs_longer by (metis Un_iff list.set_intros(2) set_append)
      then obtain r where "list_find E q ?ds (fs @ new_files E q x es) = Some r"
        using 1(1) [OF dec] new_dirs_longer by metis
      then show ?thesis using es Cons paths_fit_entries [OF assms es(1)] by (subst list_find.simps) (simp add: list_entries_eq)
    qed
  qed
qed

section \<open>What is found\<close>

inductive reached :: "dup_env \<Rightarrow> dup_query \<Rightarrow> string \<times> int \<Rightarrow> string \<times> int \<Rightarrow> bool" for E q x where
  start: "reached E q x x"
| below: "reached E q x y \<Longrightarrow> z \<in> set (new_dirs E q y (listing E (fst y))) \<Longrightarrow> reached E q x z"

lemma reached_first:
  assumes "z \<in> set (new_dirs E q x (listing E (fst x)))" "reached E q z y"
  shows "reached E q x y"
  using assms(2) by induction (use assms(1) in \<open>blast intro: reached.intros\<close>)+

lemma reached_cases:
  "reached E q x y \<longleftrightarrow> y = x \<or> (\<exists>z \<in> set (new_dirs E q x (listing E (fst x))). reached E q z y)"
proof
  assume "reached E q x y"
  then show "y = x \<or> (\<exists>z \<in> set (new_dirs E q x (listing E (fst x))). reached E q z y)"
    by induction (blast intro: reached.intros)+
qed (use reached_first in \<open>blast intro: reached.start\<close>)

definition files_below :: "dup_env \<Rightarrow> dup_query \<Rightarrow> string \<times> int \<Rightarrow> found set" where
  "files_below E q x = {f. \<exists>y. reached E q x y \<and> f \<in> set (new_files E q y (listing E (fst y)))}"

lemma files_below_unfold:
  "files_below E q x = set (new_files E q x (listing E (fst x))) \<union> (\<Union>z \<in> set (new_dirs E q x (listing E (fst x))). files_below E q z)"
  unfolding files_below_def by (subst reached_cases) blast

lemma list_find_set: "list_find E q ds fs = Some r \<Longrightarrow> set r = set fs \<union> (\<Union>x \<in> set ds. files_below E q x)"
proof (induction rule: list_find_step)
  case (step x ds fs r)
  then show ?case using files_below_unfold [of E q x] by auto
qed simp

text \<open>Names in a directory are distinct and contain no slash, so that no path is met twice.\<close>

definition names_ok :: "dup_env \<Rightarrow> bool" where
  "names_ok E \<longleftrightarrow> (\<forall>dir es. scandir E dir = Some es \<longrightarrow> distinct es \<and> (\<forall>n \<in> set es. CHR ''/'' \<notin> set n))"

definition extends :: "string \<Rightarrow> string \<Rightarrow> bool" where
  "extends dir p \<longleftrightarrow> prefix (dir @ ''/'') p"

lemma extends_trans: "extends a b \<Longrightarrow> extends b c \<Longrightarrow> extends a c"
  unfolding extends_def by (metis append_prefixD prefix_order.trans)

lemma extends_irrefl [simp]: "\<not> extends a a"
  unfolding extends_def by (metis length_append_singleton not_less_eq_eq order_refl prefix_length_le)

text \<open>A directory above an entry of \<open>x\<close> is \<open>x\<close> or is above it.\<close>

lemma extends_entry:
  assumes "CHR ''/'' \<notin> set n" "extends y (x @ ''/'' @ n)"
  shows "y = x \<or> extends y x"
proof -
  obtain m where m: "y @ ''/'' @ m = x @ ''/'' @ n" using assms(2) by (auto simp: extends_def prefix_def)
  then consider us where "x = y @ us" "''/'' @ m = us @ ''/'' @ n" | us where "y = x @ us" "''/'' @ n = us @ ''/'' @ m"
    by (auto simp: append_eq_append_conv2)
  then show ?thesis
  proof cases
    case 1
    then show ?thesis by (cases us) (auto simp: extends_def)
  next
    case 2
    then show ?thesis using assms(1) by (cases us) auto
  qed
qed

lemma extends_length: "extends a b \<Longrightarrow> length a < length b"
  unfolding extends_def by (auto dest: prefix_length_le)

lemma entry_action_file: "entry_action E q dir d name = AddFile p k m a sz hs \<Longrightarrow> p = dir @ ''/'' @ name"
  by (auto simp: entry_action_def Let_def split: if_splits option.splits file_kind.splits)

lemma new_dirs_paths:
  "map fst (new_dirs E q x es) = map (\<lambda>n. fst x @ ''/'' @ n) (filter (\<lambda>n. \<exists>p k. entry_action E q (fst x) (snd x) n = PushDir p k) es)"
  by (induction es) (auto simp: new_dirs_def List.map_filter_simps split: entry_action.splits dest: entry_action_path(1))

lemma new_files_paths:
  "map (path \<circ> fst) (new_files E q x es) =
    map (\<lambda>n. fst x @ ''/'' @ n) (filter (\<lambda>n. \<exists>p k m a sz hs. entry_action E q (fst x) (snd x) n = AddFile p k m a sz hs) es)"
  by (induction es) (auto simp: new_files_def List.map_filter_simps split: entry_action.splits dest: entry_action_file)

lemma listing_ok: "names_ok E \<Longrightarrow> distinct (listing E dir) \<and> (\<forall>n \<in> set (listing E dir). CHR ''/'' \<notin> set n)"
  by (auto simp: names_ok_def listing_def split: option.splits)

lemma entry_paths:
  assumes "names_ok E"
  shows "distinct (map fst (new_dirs E q x (listing E (fst x))))" "distinct (map (path \<circ> fst) (new_files E q x (listing E (fst x))))"
    and "y \<in> set (new_dirs E q x (listing E (fst x))) \<Longrightarrow> \<exists>n. fst y = fst x @ ''/'' @ n \<and> CHR ''/'' \<notin> set n"
    and "f \<in> set (new_files E q x (listing E (fst x))) \<Longrightarrow> \<exists>n. path (fst f) = fst x @ ''/'' @ n \<and> CHR ''/'' \<notin> set n"
proof -
  note l = listing_ok [OF assms, of "fst x"]
  show "distinct (map fst (new_dirs E q x (listing E (fst x))))" "distinct (map (path \<circ> fst) (new_files E q x (listing E (fst x))))"
    unfolding new_dirs_paths new_files_paths using l by (simp_all add: distinct_map inj_on_def)
  assume "y \<in> set (new_dirs E q x (listing E (fst x)))"
  then have "fst y \<in> set (map fst (new_dirs E q x (listing E (fst x))))" by simp
  then show "\<exists>n. fst y = fst x @ ''/'' @ n \<and> CHR ''/'' \<notin> set n" unfolding new_dirs_paths using l by auto
next
  note l = listing_ok [OF assms, of "fst x"]
  assume "f \<in> set (new_files E q x (listing E (fst x)))"
  then have "path (fst f) \<in> set (map (path \<circ> fst) (new_files E q x (listing E (fst x))))" by simp
  then show "\<exists>n. path (fst f) = fst x @ ''/'' @ n \<and> CHR ''/'' \<notin> set n" unfolding new_files_paths using l by auto
qed

definition apart :: "(string \<times> int) list \<Rightarrow> bool" where
  "apart ds \<longleftrightarrow> distinct (map fst ds) \<and> (\<forall>x \<in> set ds. \<forall>y \<in> set ds. \<not> extends (fst x) (fst y))"

lemma extends_slash [simp]: "extends x (x @ ''/'' @ n)" "extends x (x @ CHR ''/'' # n)"
  by (simp_all add: extends_def)

text \<open>A path directly below \<open>x\<close> is not below another directory of the queue, nor below one next to it.\<close>

lemma entry_not_below:
  assumes "apart (x # ds)" "names_ok E" "z \<in> set (ds @ new_dirs E q x (listing E (fst x)))" "CHR ''/'' \<notin> set n"
  shows "\<not> extends (fst z) (fst x @ ''/'' @ n)"
proof
  assume "extends (fst z) (fst x @ ''/'' @ n)"
  then have "fst z = fst x \<or> extends (fst z) (fst x)" by (rule extends_entry [OF assms(4)])
  moreover have "extends (fst x) (fst z)" if "z \<notin> set ds" using entry_paths(3) [OF assms(2), of z q x] that assms(3) by auto
  ultimately show False using assms(1,3) extends_length [of "fst x" "fst z"] extends_length [of "fst z" "fst x"]
    unfolding apart_def by (metis distinct.simps(2) imageI less_irrefl less_trans list.set_intros list.simps(9) set_map)
qed

lemma apart_step:
  assumes "apart (x # ds)" "names_ok E"
  shows "apart (ds @ new_dirs E q x (listing E (fst x)))"
proof -
  let ?N = "new_dirs E q x (listing E (fst x))"
  have N: "\<exists>n. fst y = fst x @ ''/'' @ n \<and> CHR ''/'' \<notin> set n" if "y \<in> set ?N" for y using entry_paths(3) [OF assms(2) that] .
  have above: "extends (fst x) (fst y)" if "y \<in> set ?N" for y using N [OF that] by auto
  have old: "distinct (map fst ds)" "\<not> extends (fst z) (fst y)" "\<not> extends (fst x) (fst y)" if "y \<in> set ds" "z \<in> set ds" for z y
    using assms(1) that unfolding apart_def by simp_all
  have "\<not> extends (fst z) (fst y)" if "z \<in> set (ds @ ?N)" "y \<in> set (ds @ ?N)" for z y
  proof (cases "y \<in> set ds")
    case True
    then show ?thesis using old above that(1) extends_trans by (metis Un_iff set_append)
  next
    case False
    then show ?thesis using entry_not_below [OF assms that(1)] N [of y] that(2) by auto
  qed
  moreover have "fst z \<noteq> fst y" if "z \<in> set ?N" "y \<in> set ds" for z y using above [OF that(1)] old(3) [OF that(2,2)] by metis
  then have "fst ` set ds \<inter> fst ` set ?N = {}" by force
  moreover have "distinct (map fst ds)" using assms(1) by (simp add: apart_def)
  ultimately show ?thesis using entry_paths(1) [OF assms(2), of q x] unfolding apart_def by simp
qed

lemma list_find_distinct:
  "list_find E q ds fs = Some r \<Longrightarrow> names_ok E \<Longrightarrow> apart ds \<Longrightarrow>
    \<exists>gs. r = fs @ gs \<and> distinct (map (path \<circ> fst) gs) \<and> (\<forall>f \<in> set gs. \<exists>x \<in> set ds. extends (fst x) (path (fst f)))"
proof (induction rule: list_find_step)
  case (empty fs)
  then show ?case by simp
next
  case (step x ds fs r)
  let ?N = "new_dirs E q x (listing E (fst x))" and ?F = "new_files E q x (listing E (fst x))"
  obtain gs where gs: "r = (fs @ ?F) @ gs" "distinct (map (path \<circ> fst) gs)"
    "\<forall>f \<in> set gs. \<exists>z \<in> set (ds @ ?N). extends (fst z) (path (fst f))"
    using step.IH [OF step.prems(1) apart_step [OF step.prems(2,1)]] by blast
  have "path (fst f) \<noteq> path (fst g)" if f: "f \<in> set ?F" and "g \<in> set gs" for f g
    using entry_paths(4) [OF step.prems(1) f] gs(3) that(2) entry_not_below [OF step.prems(2,1)] by metis
  then have d: "distinct (map (path \<circ> fst) (?F @ gs))" using gs(2) entry_paths(2) [OF step.prems(1), of q x] by auto
  have "\<exists>z \<in> set (x # ds). extends (fst z) (path (fst f))" if f: "f \<in> set (?F @ gs)" for f
  proof (cases "f \<in> set ?F")
    case True
    then show ?thesis using entry_paths(4) [OF step.prems(1) True] by auto
  next
    case False
    then have "f \<in> set gs" using f by simp
    then obtain z where z: "z \<in> set (ds @ ?N)" "extends (fst z) (path (fst f))" using gs(3) by blast
    show ?thesis
    proof (cases "z \<in> set ds")
      case True
      then show ?thesis using z(2) by auto
    next
      case False
      then have "extends (fst x) (fst z)" using entry_paths(3) [OF step.prems(1), of z q x] z(1) by auto
      then show ?thesis using z(2) extends_trans by (meson list.set_intros(1))
    qed
  qed
  then have "\<forall>f \<in> set (?F @ gs). \<exists>z \<in> set (x # ds). extends (fst z) (path (fst f))" by blast
  then show ?case using gs(1) d by (metis append.assoc)
qed

section \<open>The sets\<close>

definition group_key :: "file_group \<Rightarrow> nat \<times> string" where
  "group_key g = (fst g, fst (snd g))"

definition group_map :: "file_group list \<Rightarrow> nat \<times> string \<Rightarrow> file_info list option" where
  "group_map gs = map_of (map (\<lambda>g. (group_key g, snd (snd g))) gs)"

definition files_of :: "found list \<Rightarrow> nat \<times> string \<Rightarrow> file_info multiset" where
  "files_of fs k = image_mset fst (filter_mset (\<lambda>f. snd f = k) (mset fs))"

lemma group_map_simps [simp]:
  "group_map [] k = None" "group_map (g # gs) k = (if k = group_key g then Some (snd (snd g)) else group_map gs k)"
  by (simp_all add: group_map_def)

lemma group_map_small: "\<forall>g \<in> set gs. sz < fst g \<Longrightarrow> group_map gs (sz, hs) = None"
  by (induction gs) (auto simp: group_key_def)

lemma insert_group_map:
  "sorted (map fst gs) \<Longrightarrow> group_map (insert_group x sz hs gs) =
    (group_map gs)((sz, hs) \<mapsto> insort_by file_less x (case group_map gs (sz, hs) of None \<Rightarrow> [] | Some ys \<Rightarrow> ys))"
proof (induction gs)
  case Nil
  then show ?case by (auto simp: group_key_def)
next
  case (Cons g gs)
  consider "fst g < sz" | "fst g = sz" "fst (snd g) = hs" | "fst g = sz" "fst (snd g) \<noteq> hs" | "sz < fst g" by linarith
  then show ?case
  proof cases
    case 4
    then have "group_map (g # gs) (sz, hs) = None" using Cons.prems by (intro group_map_small) auto
    then show ?thesis using 4 by (auto simp: group_key_def)
  qed (use Cons in \<open>auto simp: group_key_def fun_upd_def split: option.splits\<close>)
qed

lemma insert_group_keys: "group_key ` set (insert_group x sz hs gs) = insert (sz, hs) (group_key ` set gs)"
  by (induction gs) (auto simp: group_key_def)

lemma insert_group_sizes: "fst ` set (insert_group x sz hs gs) = insert sz (fst ` set gs)"
  by (induction gs) auto

lemma insert_group_ordered:
  "sorted (map fst gs) \<Longrightarrow> distinct (map group_key gs) \<Longrightarrow>
    sorted (map fst (insert_group x sz hs gs)) \<and> distinct (map group_key (insert_group x sz hs gs))"
proof (induction gs)
  case Nil
  then show ?case by simp
next
  case (Cons g gs)
  then have IH: "sorted (map fst (insert_group x sz hs gs))" "distinct (map group_key (insert_group x sz hs gs))" by simp_all
  show ?case
  proof (cases "fst g < sz \<or> fst g = sz \<and> fst (snd g) \<noteq> hs")
    case True
    have "fst g \<le> s" if "s \<in> fst ` set (insert_group x sz hs gs)" for s
      using that True Cons.prems(1) unfolding insert_group_sizes by auto
    moreover have "group_key g \<notin> group_key ` set (insert_group x sz hs gs)"
      using True Cons.prems(2) unfolding insert_group_keys by (auto simp: group_key_def)
    ultimately show ?thesis using True IH by auto
  next
    case False
    then consider "fst g = sz" "fst (snd g) = hs" | "sz < fst g" by linarith
    then show ?thesis
    proof cases
      case 1
      then show ?thesis using Cons.prems by (simp add: group_key_def)
    next
      case 2
      then have "group_key k \<noteq> (sz, hs)" if "k \<in> set (g # gs)" for k using that Cons.prems(1) by (auto simp: group_key_def)
      then show ?thesis using 2 Cons.prems by (auto simp: group_key_def)
    qed
  qed
qed

lemma file_less_linear: "\<not> file_less y x \<Longrightarrow> \<not> file_less z y \<Longrightarrow> \<not> file_less z x" "file_less x y \<Longrightarrow> \<not> file_less y x"
  by (auto simp: file_less_def)

lemma insort_sorted:
  assumes "sorted_wrt (\<lambda>x y. \<not> file_less y x) ys"
  shows "sorted_wrt (\<lambda>x y. \<not> file_less y x) (insort_by file_less x ys)"
  using assms by (induction ys) (auto dest: file_less_linear)

lemma mset_insort [simp]: "mset (insort_by lt x ys) = add_mset x (mset ys)"
  by (induction ys) auto

definition grouped :: "file_group list \<Rightarrow> found list \<Rightarrow> bool" where
  "grouped gs fs \<longleftrightarrow> sorted (map fst gs) \<and> distinct (map group_key gs) \<and>
     (\<forall>k. case group_map gs k of None \<Rightarrow> files_of fs k = {#}
        | Some xs \<Rightarrow> xs \<noteq> [] \<and> mset xs = files_of fs k \<and> sorted_wrt (\<lambda>x y. \<not> file_less y x) xs)"

lemma groupedD: "grouped gs fs \<Longrightarrow> case group_map gs k of None \<Rightarrow> files_of fs k = {#}
    | Some xs \<Rightarrow> xs \<noteq> [] \<and> mset xs = files_of fs k \<and> sorted_wrt (\<lambda>x y. \<not> file_less y x) xs"
  unfolding grouped_def by blast

lemma files_of_snoc: "files_of (fs @ [(x, k)]) k' = (if k' = k then add_mset x (files_of fs k) else files_of fs k')"
  by (simp add: files_of_def)

lemma group_all_grouped: "grouped (group_all fs) fs"
proof (induction fs rule: rev_induct)
  case Nil
  then show ?case by (simp add: grouped_def group_all_def files_of_def)
next
  case (snoc f fs)
  obtain x sz hs where f: "f = (x, sz, hs)" by (cases f)
  let ?ys = "case group_map (group_all fs) (sz, hs) of None \<Rightarrow> [] | Some ys \<Rightarrow> ys"
  have g: "sorted (map fst (group_all fs))" "distinct (map group_key (group_all fs))" using snoc by (simp_all add: grouped_def)
  note now = groupedD [OF snoc]
  have "mset ?ys = files_of fs (sz, hs) \<and> sorted_wrt (\<lambda>x y. \<not> file_less y x) ?ys"
    using now [of "(sz, hs)"] by (cases "group_map (group_all fs) (sz, hs)") simp_all
  moreover have "insort_by file_less x ?ys \<noteq> []" by (metis add_mset_not_empty mset.simps(1) mset_insort)
  ultimately have "case ((group_map (group_all fs))((sz, hs) \<mapsto> insort_by file_less x ?ys)) k of None \<Rightarrow> files_of (fs @ [f]) k = {#}
     | Some xs \<Rightarrow> xs \<noteq> [] \<and> mset xs = files_of (fs @ [f]) k \<and> sorted_wrt (\<lambda>x y. \<not> file_less y x) xs" for k
    using now [of k] insort_sorted [of ?ys x] unfolding f files_of_snoc by (cases "k = (sz, hs)") simp_all
  then show ?case unfolding grouped_def f group_all_snoc insert_group_map [OF g(1)] using insert_group_ordered [OF g] by simp
qed

lemma group_map_mem: "distinct (map group_key gs) \<Longrightarrow> g \<in> set gs \<Longrightarrow> group_map gs (group_key g) = Some (snd (snd g))"
  by (induction gs) (auto simp: rev_image_eqI)

lemma group_map_key: "group_map gs k = Some xs \<Longrightarrow> \<exists>g \<in> set gs. group_key g = k \<and> snd (snd g) = xs"
  by (induction gs) (auto split: if_splits)

section \<open>Properties\<close>

lemma refines:
  assumes "hashes_fit E" "paths_fit E" "length target < PATH_MAX"
  shows "\<exists>fs p h gs. list_find E q [(target, 0)] [] = Some fs \<and> find_dup E q target empty_heap = Some (p, h) \<and>
    fs_seg h p gs None \<and> map group_of gs = duplicates fs"
proof -
  obtain fs where fs: "list_find E q [(target, 0)] [] = Some fs" using list_find_ends [OF assms(2), of "[(target, 0)]"] assms(3) by auto
  have "queue_rep empty_heap None []" by (auto simp: queue_rep_def)
  then obtain n h1 p1 h2 where n: "create_myDirQueue_node target 0 empty_heap = Some (n, h1)" "enqueue_myDirQueue None n h1 = Some (p1, h2)"
    "queue_rep h2 p1 [(target, 0)]" using push_ok [of empty_heap None "[]" target 0] assms(3) by auto
  then have q: "p1 = Some n" "h2 = h1" by (simp_all add: enqueue_myDirQueue_def)
  have "sets_rep h1 None (group_all [])" by (auto simp: sets_rep_def group_all_def separate_def below_def)
  then obtain p h where p: "find_loop E q (Some n, None) h1 = Some (p, h)" "sets_rep h p (group_all fs)"
    using find_loop_ok [OF fs assms(1), of h1 "(Some n, None)"] n(3) q by (auto simp: found_rep_def)
  obtain gs where gs: "fs_seg h p gs None" "separate gs" "group_all fs = map group_of gs" using p(2) by (auto simp: sets_rep_def)
  obtain p' h' where h': "remove_only_one_node p h = Some (p', h')" "fs_seg h' p' (shared gs) None"
    using remove_loop_ok [of h p "[]" p gs None] gs(1,2) by (auto simp: remove_only_one_node_def)
  have "map group_of (shared gs) = duplicates fs" by (simp add: shared_def duplicates_def gs(3) filter_map comp_def)
  moreover have "find_dup E q target empty_heap = Some (p', h')" using n(1) p(1) h'(1) by (simp add: find_dup_def)
  ultimately show ?thesis using fs h'(2) by blast
qed

text \<open>C36: the search for duplicates (\<^verbatim>\<open>find_dup\<close> with the queue and list functions of
  \<^verbatim>\<open>my_structs.c\<close>) ends without a bad memory access when no path and no hash overruns its buffer, and the
  linked sets it leaves on the heap are the groups of at least two files that a search on lists finds.\<close>

theorem dup_finder_refines:
  assumes "hashes_fit E" "paths_fit E" "length target < PATH_MAX"
  shows "\<exists>fs p h gs. list_find E q [(target, 0)] [] = Some fs \<and> find_dup E q target empty_heap = Some (p, h) \<and>
    fs_seg h p gs None \<and> map group_of gs = duplicates fs"
  using assms by (rule refines)


text \<open>The groups of a search on lists.\<close>

lemma duplicates_grouped:
  "sorted (map fst (duplicates fs)) \<and> distinct (map group_key (duplicates fs)) \<and>
    (\<forall>g \<in> set (duplicates fs). 2 \<le> length (snd (snd g)) \<and> mset (snd (snd g)) = files_of fs (group_key g) \<and>
      sorted_wrt (\<lambda>x y. \<not> file_less y x) (snd (snd g))) \<and>
    (\<forall>k. 2 \<le> size (files_of fs k) \<longrightarrow> k \<in> group_key ` set (duplicates fs))"
proof (intro conjI ballI allI impI)
  have g: "grouped (group_all fs) fs" by (rule group_all_grouped)
  then have d: "distinct (map group_key (group_all fs))" by (simp add: grouped_def)
  show "sorted (map fst (duplicates fs))" using g by (simp add: grouped_def duplicates_def sorted_filter)
  show "distinct (map group_key (duplicates fs))" using d by (simp add: duplicates_def distinct_map_filter)
  show "k \<in> group_key ` set (duplicates fs)" if "2 \<le> size (files_of fs k)" for k
  proof -
    note two = that
    obtain xs where xs: "group_map (group_all fs) k = Some xs" "mset xs = files_of fs k"
      using groupedD [OF g, of k] two by (cases "group_map (group_all fs) k") auto
    then have "2 \<le> length xs" using two by (metis size_mset)
    then show ?thesis using group_map_key [OF xs(1)] by (auto simp: duplicates_def)
  qed
  fix x assume x: "x \<in> set (duplicates fs)"
  then have m: "x \<in> set (group_all fs)" "2 \<le> length (snd (snd x))" by (simp_all add: duplicates_def)
  have "mset (snd (snd x)) = files_of fs (group_key x) \<and> sorted_wrt (\<lambda>x y. \<not> file_less y x) (snd (snd x))"
    using groupedD [OF g, of "group_key x"] group_map_mem [OF d m(1)] by simp
  then show "2 \<le> length (snd (snd x))" "mset (snd (snd x)) = files_of fs (group_key x)" "sorted_wrt (\<lambda>x y. \<not> file_less y x) (snd (snd x))"
    using m(2) by simp_all
qed

lemma file_order: "\<not> file_less y x \<longleftrightarrow> depth x < depth y \<or> depth x = depth y \<and> path x \<le> path y"
  by (auto simp: file_less_def)

lemma files_of_found:
  assumes "distinct (map (path \<circ> fst) fs)" "mset xs = files_of fs k"
  shows "set xs = {x. (x, k) \<in> set fs}" "distinct (map path xs)"
proof -
  have m: "mset xs = mset (map fst (filter (\<lambda>f. snd f = k) fs))" using assms(2) by (simp add: files_of_def)
  then have "set xs = set (map fst (filter (\<lambda>f. snd f = k) fs))" by (rule mset_eq_setD)
  then show "set xs = {x. (x, k) \<in> set fs}" by force
  have "distinct (map (path \<circ> fst) (filter (\<lambda>f. snd f = k) fs))" using assms(1) by (rule distinct_map_filter)
  moreover have "mset (map path xs) = mset (map (path \<circ> fst) (filter (\<lambda>f. snd f = k) fs))"
    using m by (metis (no_types, lifting) map_map mset_map)
  ultimately show "distinct (map path xs)" by (metis mset_eq_imp_distinct_iff)
qed

lemma files_of_two:
  assumes "(x, k) \<in> set fs" "(y, k) \<in> set fs" "x \<noteq> y"
  shows "2 \<le> size (files_of fs k)"
proof -
  have "x \<in># files_of fs k" "y \<in># files_of fs k" using assms(1,2) by (force simp: files_of_def)+
  then have "{#x, y#} \<subseteq># files_of fs k" using assms(3) by (simp add: insert_subset_eq_iff in_diff_count)
  then show ?thesis using size_mset_mono by fastforce
qed

text \<open>C35: the whole of \<^verbatim>\<open>find_dup\<close>. When paths and hashes fit their buffers and the names of a
  directory are distinct, the search ends with linked sets on the heap that are the duplicates below the
  target: in ascending order of size, no two of the same size and hash, each with all the files of its size
  and hash that were to be found, every one once, the shallowest first and equally deep ones by path; and
  every two files that agree in size and hash are in a set.\<close>

theorem dup_finder_finds_duplicates:
  assumes "hashes_fit E" "paths_fit E" "names_ok E" "length target < PATH_MAX"
  shows "\<exists>p h gs. find_dup E q target empty_heap = Some (p, h) \<and> fs_seg h p gs None \<and>
    sorted (map g_size gs) \<and> distinct (map (\<lambda>g. (g_size g, g_hash g)) gs) \<and>
    (\<forall>g \<in> set gs. 2 \<le> length (g_files g) \<and> distinct (map (path \<circ> snd \<circ> snd) (g_files g)) \<and>
      (snd \<circ> snd) ` set (g_files g) = {x. (x, g_size g, g_hash g) \<in> files_below E q (target, 0)} \<and>
      sorted_wrt (\<lambda>x y. depth x < depth y \<or> depth x = depth y \<and> path x \<le> path y) (map (snd \<circ> snd) (g_files g))) \<and>
    (\<forall>x y k. (x, k) \<in> files_below E q (target, 0) \<and> (y, k) \<in> files_below E q (target, 0) \<and> x \<noteq> y \<longrightarrow>
      k \<in> (\<lambda>g. (g_size g, g_hash g)) ` set gs)"
proof -
  obtain fs p h gs where f: "list_find E q [(target, 0)] [] = Some fs" "find_dup E q target empty_heap = Some (p, h)"
    "fs_seg h p gs None" "map group_of gs = duplicates fs" using refines [OF assms(1,2,4)] by blast
  have found: "set fs = files_below E q (target, 0)" "distinct (map (path \<circ> fst) fs)"
    using list_find_set [OF f(1)] list_find_distinct [OF f(1) assms(3)] by (auto simp: apart_def)
  have k: "map g_size gs = map fst (duplicates fs)" "map (\<lambda>g. (g_size g, g_hash g)) gs = map group_key (duplicates fs)"
    by (simp_all add: f(4) [symmetric] group_key_def)
  have keys: "(\<lambda>g. (g_size g, g_hash g)) ` set gs = group_key ` set (duplicates fs)" using k(2) by (metis set_map)
  have g: "2 \<le> length (g_files g) \<and> mset (map (snd \<circ> snd) (g_files g)) = files_of fs (g_size g, g_hash g) \<and>
      sorted_wrt (\<lambda>x y. \<not> file_less y x) (map (snd \<circ> snd) (g_files g))" if "g \<in> set gs" for g
  proof -
    have "group_of g \<in> set (duplicates fs)" using that f(4) by (metis image_eqI set_map)
    then show ?thesis using duplicates_grouped [of fs] by (auto simp: group_key_def)
  qed
  have "2 \<le> length (g_files g) \<and> distinct (map (path \<circ> snd \<circ> snd) (g_files g)) \<and>
      (snd \<circ> snd) ` set (g_files g) = {x. (x, g_size g, g_hash g) \<in> files_below E q (target, 0)} \<and>
      sorted_wrt (\<lambda>x y. depth x < depth y \<or> depth x = depth y \<and> path x \<le> path y) (map (snd \<circ> snd) (g_files g))" if "g \<in> set gs" for g
    using g [OF that] files_of_found [OF found(2), of "map (snd \<circ> snd) (g_files g)" "(g_size g, g_hash g)"] found(1)
    by (simp add: file_order comp_assoc)
  moreover have "k \<in> (\<lambda>g. (g_size g, g_hash g)) ` set gs" if "(x, k) \<in> files_below E q (target, 0)" "(y, k) \<in> files_below E q (target, 0)" "x \<noteq> y" for x y k
    using files_of_two [of x k fs y] that duplicates_grouped [of fs] unfolding keys found(1) [symmetric] by blast
  moreover have "sorted (map g_size gs)" "distinct (map (\<lambda>g. (g_size g, g_hash g)) gs)" using duplicates_grouped [of fs] k by simp_all
  ultimately show ?thesis using f(2,3) by blast
qed

section \<open>Witnesses\<close>

definition sample_env :: dup_env where
  "sample_env = \<lparr>scandir = (\<lambda>d. if d = ''t'' then Some [''.'', ''a'', ''b'', ''s''] else if d = ''t/s'' then Some [''c''] else None),
     file_status = (\<lambda>p. if p = ''t/s'' then Some \<lparr>st_kind = KDir, st_bytes = 0, st_mtime = 0, st_atime = 0\<rparr>
       else Some \<lparr>st_kind = KReg, st_bytes = 5, st_mtime = 0, st_atime = 0\<rparr>),
     hash_file = (\<lambda>p. Some (if p = ''t/b'' then ''00'' else ''ff'')), fmt_time = (\<lambda>_. ''now'')\<rparr>"

definition sample_query :: dup_query where
  "sample_query = \<lparr>q_ext = None, min_size = 1, max_size = 10\<rparr>"

definition sample_found :: "found list" where
  "sample_found = [(\<lparr>path = ''t/a'', depth = 0, mtime = ''now'', atime = ''now''\<rparr>, 5, ''ff''),
     (\<lparr>path = ''t/b'', depth = 0, mtime = ''now'', atime = ''now''\<rparr>, 5, ''00''),
     (\<lparr>path = ''t/s/c'', depth = 1, mtime = ''now'', atime = ''now''\<rparr>, 5, ''ff'')]"

lemma sample_ok: "hashes_fit sample_env" "paths_fit sample_env" "names_ok sample_env"
  by (auto simp: sample_env_def hashes_fit_def paths_fit_def names_ok_def HASH_MAX_def PATH_MAX_def split: if_splits)

declare list_find.simps [code] find_loop.simps [code]

lemma sample_find: "list_find sample_env sample_query [(''t'', 0)] [] = Some sample_found"
  by code_simp

lemma dup_finder_refines_witness:
  "\<exists>fs p h gs. list_find sample_env sample_query [(''t'', 0)] [] = Some fs \<and> find_dup sample_env sample_query ''t'' empty_heap = Some (p, h) \<and>
    fs_seg h p gs None \<and> map group_of gs = duplicates fs"
  by (rule dup_finder_refines) (simp_all add: sample_ok PATH_MAX_def)


lemma dup_finder_finds_duplicates_witness:
  "\<exists>p h gs. find_dup sample_env sample_query ''t'' empty_heap = Some (p, h) \<and> fs_seg h p gs None \<and>
    (5, ''ff'') \<in> (\<lambda>g. (g_size g, g_hash g)) ` set gs"
proof -
  have s: "set sample_found = files_below sample_env sample_query (''t'', 0)" using list_find_set [OF sample_find] by simp
  have "(fst (sample_found ! 0), 5, ''ff'') \<in> set sample_found" "(fst (sample_found ! 2), 5, ''ff'') \<in> set sample_found"
    "fst (sample_found ! 0) \<noteq> fst (sample_found ! 2)" by (simp_all add: sample_found_def)
  then have two: "(fst (sample_found ! 0), 5, ''ff'') \<in> files_below sample_env sample_query (''t'', 0) \<and>
    (fst (sample_found ! 2), 5, ''ff'') \<in> files_below sample_env sample_query (''t'', 0) \<and> fst (sample_found ! 0) \<noteq> fst (sample_found ! 2)"
    unfolding s by blast
  have "length ''t'' < PATH_MAX" by (simp add: PATH_MAX_def)
  then obtain p h gs where "find_dup sample_env sample_query ''t'' empty_heap = Some (p, h)" "fs_seg h p gs None"
    and all: "\<forall>x y k. (x, k) \<in> files_below sample_env sample_query (''t'', 0) \<and> (y, k) \<in> files_below sample_env sample_query (''t'', 0) \<and> x \<noteq> y \<longrightarrow>
      k \<in> (\<lambda>g. (g_size g, g_hash g)) ` set gs"
    using dup_finder_finds_duplicates [OF sample_ok, of "''t''" sample_query] by (elim meta_impE exE conjE) auto
  moreover have "(5, ''ff'') \<in> (\<lambda>g. (g_size g, g_hash g)) ` set gs" by (rule all [rule_format, OF two])
  ultimately show ?thesis by blast
qed

end
