(* ===== verification/Spec2Isabelle.thy ===== *)
theory Spec2Isabelle
  imports Log Kstring FsProps FsAlloc FsDir Kalloc VmProps SyscallProps ConsoleProps Calculator Grep Ftl
    ShellRun UmallocProps MkfsKernel IdeProps PageReplacement DiffProps DupSearch
begin

text \<open>
  A verification library for the operating system kernel of \<^verbatim>\<open>src/os/5\<close> (xv6 for the x86), for its
  shell, its user-level allocator, one more of its user programs and the program that builds its disk image, and for student programs of the same repository: the expression calculator
  of \<^verbatim>\<open>src/programming_language/HW2/clang.c\<close>, the flash translation layer of
  \<^verbatim>\<open>src/FileStructure/Project3/ftl.c\<close>, the page replacement simulator of \<^verbatim>\<open>src/PageReplacement\<close>, the
  file comparison of \<^verbatim>\<open>src/LinuxProgramming/P1_20192380/diff.c\<close> and the duplicate finder of
  \<^verbatim>\<open>src/LinuxProgramming/P2_20192380\<close>.

  \<^bold>\<open>How the program is put together.\<close> The kernel is layered. At the bottom \<^verbatim>\<open>spinlock.c\<close> gives mutual
  exclusion and \<^verbatim>\<open>kalloc.c\<close> hands out pages of physical memory, which \<^verbatim>\<open>vm.c\<close> arranges into page
  tables. The storage stack is \<^verbatim>\<open>memide.c\<close> (a disk in memory), \<^verbatim>\<open>bio.c\<close> (a cache of disk blocks, one
  locked buffer per block), \<^verbatim>\<open>log.c\<close> (transactions by a write-ahead log) and \<^verbatim>\<open>fs.c\<close> (free bit map,
  inodes, file contents, directories, path names), each calling only the layer below. \<^verbatim>\<open>file.c\<close> and
  \<^verbatim>\<open>pipe.c\<close> make inodes and pipes into open files; \<^verbatim>\<open>proc.c\<close> keeps the processes. \<^verbatim>\<open>sysfile.c\<close>,
  \<^verbatim>\<open>sysproc.c\<close> and \<^verbatim>\<open>exec.c\<close> implement the system calls on all of these; \<^verbatim>\<open>syscall.c\<close> fetches their
  arguments from user memory and dispatches; \<^verbatim>\<open>trap.c\<close> is where every entry into the kernel arrives.

  \<^bold>\<open>Effects.\<close> A kernel function is a function of the state with one of three outcomes (theory
  \<open>Prelude\<close>, type \<open>kmon\<close>): \<open>Done\<close> with a result and a new state, \<open>Panic\<close> with the message of the
  source, or \<open>Sleep\<close> on a channel, where the source would block. \<open>kbind\<close> sequences them. States are
  records that extend one another along the layers of the kernel (\<open>bstate\<close>, \<open>lstate\<close>, \<open>fstate\<close>,
  \<open>kstate\<close>; \<open>mach\<close>, \<open>kmem\<close>), so that a function of a lower layer runs unchanged, at its own state
  type, in the layers above. Pointers into the kernel's static tables are indices, a null pointer is
  \<open>None\<close> (or 0 where the code computes with addresses); memory is bytes at addresses. Where the code
  computes with \<^verbatim>\<open>uint\<close>, the wrap-around is written out (\<open>u32\<close>, or \<open>32 word\<close> for the counters of pipes
  and the clock); \<^verbatim>\<open>int\<close> and \<^verbatim>\<open>short\<close> are read off their patterns by \<open>s32\<close> and \<open>s16\<close>.

  \<^bold>\<open>The theories and the code.\<close>
  \<^item> \<open>Sleeplock\<close> is \<^verbatim>\<open>sleeplock.c\<close>.
  \<^item> \<open>BlockCache\<close> states what the buffer cache promises its clients, as locales over an abstract cache
    (\<open>acache\<close>: the content of each block as a reader sees it, what is held, what is pinned).
    \<open>Bio\<close> is \<^verbatim>\<open>bio.c\<close> over \<^verbatim>\<open>memide.c\<close>, with the recency list as the links of the source, and interprets
    those locales: it refines the abstract cache.
  \<^item> \<open>Log\<close> is \<^verbatim>\<open>log.c\<close> and \<^verbatim>\<open>readsb\<close>. A ghost trace of disk writes in the state of \<open>Bio\<close> gives crashes
    their meaning: the disk after a prefix of the writes. A second, smaller model of \<^verbatim>\<open>begin_op\<close>,
    \<^verbatim>\<open>log_write\<close> and \<^verbatim>\<open>end_op\<close> as a step relation is about the space reservation under concurrency.
  \<^item> \<open>Fs\<close> is \<^verbatim>\<open>fs.c\<close>; \<open>FsProps\<close> has the lemmas on file contents, \<open>FsAlloc\<close> those on allocation and the
    inode cache, \<open>FsDir\<close> those on directories and path names. They see the cache and the log only
    through the laws of their contracts.
  \<^item> \<open>Ide\<close> is \<^verbatim>\<open>ide.c\<close> with what its port writes mean to the drive; \<open>IdeProps\<close> has the simulation by a disk
    in memory, the assumption of \<open>Bio\<close>.
  \<^item> \<open>Mkfs\<close> is \<^verbatim>\<open>mkfs.c\<close>, which lays out the disk image on the host; \<open>MkfsProps\<close> has the blocks and the
    content of its files, \<open>MkfsKernel\<close> runs the functions of \<open>Fs\<close> on the image it leaves.
  \<^item> \<open>Kstring\<close> is \<^verbatim>\<open>string.c\<close> and the pure part of \<^verbatim>\<open>ulib.c\<close>.
  \<^item> \<open>Spinlock\<close> is \<^verbatim>\<open>spinlock.c\<close>, once as functions and once as an interleaving of single memory
    accesses of several processors. \<open>Kalloc\<close> is \<^verbatim>\<open>kalloc.c\<close>, \<open>Vm\<close> is \<^verbatim>\<open>vm.c\<close>, \<open>VmProps\<close> its lemmas on
    the translation of addresses.
  \<^item> \<open>Ring\<close> has the contract of bounded queues as a locale and the arithmetic of free-running 32-bit
    counters; \<open>Pipe\<close> is \<^verbatim>\<open>pipe.c\<close>, interprets it, and has the step relation of the processes that use
    one pipe.
  \<^item> \<open>KState\<close> is the state of the upper layers (\<^verbatim>\<open>file.h\<close>, \<^verbatim>\<open>proc.h\<close>, \<^verbatim>\<open>x86.h\<close>); \<open>File\<close> is \<^verbatim>\<open>file.c\<close> with
    the pipe functions on that state, \<open>FileProps\<close> the life cycle of a pipe. \<open>Keeps\<close> is a small calculus
    of partial invariants for functions of this state.
  \<^item> \<open>Proc\<close> is \<^verbatim>\<open>proc.c\<close>; \<open>ProcProps\<close> has the invariant of the process table over all runs.
  \<^item> \<open>Syscall\<close> is the argument part of \<^verbatim>\<open>syscall.c\<close> with \<^verbatim>\<open>sysproc.c\<close>, \<open>Sysfile\<close> is \<^verbatim>\<open>sysfile.c\<close>, \<open>Exec\<close>
    is \<^verbatim>\<open>exec.c\<close> and \<^verbatim>\<open>loaduvm\<close>, \<open>Trap\<close> is the dispatcher and \<^verbatim>\<open>trap\<close>; \<open>SyscallProps\<close> has the lemmas on
    the boundary between user and kernel.
  \<^item> \<open>Console\<close> is \<^verbatim>\<open>console.c\<close> and \<^verbatim>\<open>kbd.c\<close> with \<^verbatim>\<open>uartputc\<close> and \<^verbatim>\<open>procdump\<close>, a further extension of the
    kernel state; \<open>ConsoleProps\<close> has the line editor it refines.
  \<^item> \<open>Shell\<close> is the parser of \<^verbatim>\<open>sh.c\<close>, \<open>ShellProps\<close> the grammar it accepts, \<open>ShellRun\<close> its \<^verbatim>\<open>runcmd\<close> as
    a tree of system calls over a table of descriptors. \<open>Umalloc\<close> is \<^verbatim>\<open>umalloc.c\<close>, \<open>UmallocProps\<close> has its
    free list as a list of blocks and the step relation of a program that uses it.
  \<^item> \<open>Grep\<close> is \<^verbatim>\<open>grep.c\<close>, \<open>Calculator\<close> is \<^verbatim>\<open>clang.c\<close>, \<open>Ftl\<close> is \<^verbatim>\<open>ftl.c\<close> with its device driver,
    \<open>PageReplacement\<close> is \<^verbatim>\<open>pagereplacement.c\<close>.
  \<^item> \<open>Diff\<close> is the file part of \<^verbatim>\<open>diff.c\<close>, \<open>DiffProps\<close> its lemmas on longest common subsequences.
  \<^item> \<open>DupStructs\<close> is \<^verbatim>\<open>my_structs.c\<close> on a heap with one map per node type; \<open>DupProps\<close> reads its lists off
    the heap; \<open>DupFind\<close> is \<^verbatim>\<open>find_dup\<close> of \<^verbatim>\<open>find.c\<close>, with the directories, file status and hashes as
    parameters, and the search on lists that it refines; \<open>DupSearch\<close> says what that search finds.

  \<^bold>\<open>What the groups of lemmas show.\<close> Storage: a transaction is atomic under crashes at any point, and
  recovery itself may crash; a committed transaction is on the disk and the log is empty; the
  reservation of \<^verbatim>\<open>begin_op\<close> is enough when the log area has one block more than \<^verbatim>\<open>mkfs\<close> gives it, and is
  not with what \<^verbatim>\<open>mkfs\<close> gives; a buffer holds what was last written to its block; what is written to
  a file is read back; allocation takes the lowest free block and marks that one only; inodes, the
  inode cache and directories behave as their abstract counterparts; on the image of \<^verbatim>\<open>mkfs\<close> the kernel
  finds the files that were put there, by inode and by name, and a bit map that is exact; the driver of the
  real disk serves requests like the disk in memory that the other models assume. Memory: no page is ever handed
  out twice; \<^verbatim>\<open>mappages\<close> and \<^verbatim>\<open>copyout\<close> change exactly the translations and bytes they name. Processes:
  mutual exclusion of spin locks, the process table's invariant, pipes as queues without lost
  wake-ups (and the one way, killing a writer, in which a reader is stranded). Boundary: accepted
  arguments lie in the process image; a killed process does not get back to user mode. The user and
  student programs: the shell's parser against a grammar of command lines, the standard streams of the
  programs a command line runs; the user allocator never overlaps blocks, never gets stuck and loses
  nothing; \<^verbatim>\<open>grep\<close> against a denotation of its patterns, the calculator against its grammar,
  the flash layer's reads after writes and the sectors its block move loses. The console against a
  line editor, and its output within the screen. The page replacement simulator's fault counts, and
  that FIFO replacement never happens; the lines \<^verbatim>\<open>diff\<close> marks as a longest common subsequence, and its
  reports; the duplicate finder's heap against lists, its search against reachability, its sets
  against the files of equal size and hash.

  \<^bold>\<open>Bounds and fuel.\<close> Loops with a bound in the source recurse on it. \<^verbatim>\<open>strlen\<close> and the unbounded
  string loops are partial functions: \<open>None\<close> when there is no terminator, and a theorem gives the
  result when there is one; the searches of the user allocator are partial functions likewise. The
  shell's parser takes fuel of four units for each character and four more, which is shown to be enough.
  The calculator's mutual recursion takes fuel; its termination theorem
  shows that one unit per input character and one more are enough, and that more changes nothing.
  The loops of the duplicate finder and of the walk back in \<open>Diff\<close> are partial functions as well, with
  theorems that they end; for the search the measure is the multiset of what is left of the longest
  path allowed. Page directories are walked with the number of pages left as the measure. The recency list of the
  cache is walked for at most its number of nodes, which the invariant shows to be the whole list.

  \<^bold>\<open>Idealised.\<close> Functions that hold a lock for their whole body are atomic; the interleavings that matter
  are modelled as steps between such bodies, and the locks themselves in \<open>Spinlock\<close>. \<^verbatim>\<open>nextpid\<close> is an
  unbounded integer. A context switch ends a step, and the scheduler's loop is a relation that picks a
  runnable process. The bytes a system call passes to \<^verbatim>\<open>filewrite\<close> are read from user memory before the
  call, not during it. Storage classes, alignment of C structures and the evaluation order of the
  compiler are those of the 32-bit x86 the \<^verbatim>\<open>Makefile\<close> builds for.

  \<^bold>\<open>Not modelled.\<close> Segment descriptors, control registers and the interrupt descriptor table; the boot
  loader and the assembly stubs; the drivers of the interrupt controllers and the
  set-up of the serial line, which are sequences of port accesses (in \<^verbatim>\<open>trap\<close> their handlers are
  arguments). The shell's prompt loop, the remaining user programs and \<^verbatim>\<open>usertests.c\<close> are callers of the interfaces modelled
  here. The exercises under \<^verbatim>\<open>src/LinuxProgramming\<close> and
  \<^verbatim>\<open>src/FileStructure/Project1\<close> are short programs whose content is the library and system calls they
  make; the rest of the projects P1 and P2, and P3 and \<^verbatim>\<open>ssu_sdup\<close>, traverse directories, hash files
  and prompt through libraries.
\<close>

end
